(* ===== verification/Prelude.thy ===== *)
theory Prelude
  imports Main "HOL-Library.Word" "HOL-Library.Multiset" "HOL-Library.Monad_Syntax"
begin

unbundle bit_operations_syntax

text \<open>
  Shared vocabulary of the development: the driver's fixed-width integer types, the two
  memory idioms every component uses (reading a run of bytes out of a buffer and
  \<open>_rtw_memcpy\<close> into a buffer at an offset), little- and big-endian loads and stores, the
  byte-wise exclusive or of two arrays, and the lemma collections the component theories
  use.

  A C array is a list, a pointer into it is an offset. \<open>seg\<close> and \<open>store\<close> describe the C
  accesses where they stay inside the array; theorems about code that writes through
  pointers therefore carry the length of the array as a hypothesis, as the C code does.
  Where reading past the end is what matters (the parsers of received information
  elements) the component uses the checked reads \<open>rd\<close> and \<open>rd_block\<close>, which
  return \<open>None\<close> outside the array.
\<close>

section \<open>Types and collections\<close>

type_synonym u8 = "8 word"
type_synonym u16 = "16 word"
type_synonym u32 = "32 word"
type_synonym u64 = "64 word"
type_synonym bytes = "u8 list"

named_theorems buf_simps \<open>slices of and stores into byte buffers\<close>
named_theorems len_simps \<open>lengths of the arrays the operations return\<close>
named_theorems xor_simps \<open>cancellation of exclusive or\<close>

section \<open>Slices and stores\<close>

definition seg :: "'a list \<Rightarrow> nat \<Rightarrow> nat \<Rightarrow> 'a list" where
  "seg buf off n = take n (drop off buf)"

definition store :: "'a list \<Rightarrow> nat \<Rightarrow> 'a list \<Rightarrow> 'a list" where
  "store buf off src = take off buf @ src @ drop (off + length src) buf"

lemma length_seg [simp, len_simps]:
  "off + n \<le> length buf \<Longrightarrow> length (seg buf off n) = n"
  by (simp add: seg_def)

lemma length_seg_le: "length (seg buf off n) \<le> n"
  by (simp add: seg_def)

lemma nth_seg [simp]:
  "i < n \<Longrightarrow> off + n \<le> length buf \<Longrightarrow> seg buf off n ! i = buf ! (off + i)"
  by (simp add: seg_def)

lemma seg_0_all [simp]: "seg xs 0 (length xs) = xs"
  by (simp add: seg_def)

lemma seg_zero [simp]: "seg xs k 0 = []"
  by (simp add: seg_def)

lemma seg_append_split:
  "seg buf off (m + n) = seg buf off m @ seg buf (off + m) n"
  by (simp add: seg_def take_add add.commute)

lemma take_seg: "m \<le> n \<Longrightarrow> take m (seg buf off n) = seg buf off m"
  by (simp add: seg_def min_absorb1)

lemma drop_seg: "drop m (seg buf off n) = seg buf (off + m) (n - m)"
  by (simp add: seg_def drop_take add.commute)

lemma seg_seg: "i + k \<le> n \<Longrightarrow> seg (seg buf off n) i k = seg buf (off + i) k"
  by (simp add: seg_def drop_take add.commute min_absorb1)

lemma length_store [simp, len_simps]:
  "off + length src \<le> length buf \<Longrightarrow> length (store buf off src) = length buf"
  by (simp add: store_def)

lemma nth_store:
  assumes "off + length src \<le> length buf" and "i < length buf"
  shows "store buf off src ! i =
    (if off \<le> i \<and> i < off + length src then src ! (i - off) else buf ! i)"
  using assms by (auto simp: store_def nth_append min_def)

lemma seg_store_same [simp, buf_simps]:
  "off + length src \<le> length buf \<Longrightarrow> n = length src \<Longrightarrow> seg (store buf off src) off n = src"
  by (simp add: seg_def store_def)

lemma seg_store_before [buf_simps]:
  "off + length src \<le> length buf \<Longrightarrow> k + n \<le> off \<Longrightarrow> seg (store buf off src) k n = seg buf k n"
  by (rule nth_equalityI) (auto simp: nth_store)

lemma seg_store_after [buf_simps]:
  "off + length src \<le> length buf \<Longrightarrow> off + length src \<le> k \<Longrightarrow> k + n \<le> length buf
   \<Longrightarrow> seg (store buf off src) k n = seg buf k n"
  by (rule nth_equalityI) (auto simp: nth_store)

lemma store_seg_id [simp, buf_simps]:
  "off + n \<le> length buf \<Longrightarrow> store buf off (seg buf off n) = buf"
  by (rule nth_equalityI) (auto simp: nth_store)

lemma store_store_same [simp, buf_simps]:
  "off + length src \<le> length buf \<Longrightarrow> length src' = length src
   \<Longrightarrow> store (store buf off src) off src' = store buf off src'"
  by (rule nth_equalityI) (auto simp: nth_store)

lemma store_Nil [simp]: "off \<le> length buf \<Longrightarrow> store buf off [] = buf"
  by (simp add: store_def)

lemma store_append [buf_simps]:
  assumes "n = off + length xs" and "n + length ys \<le> length buf"
  shows "store (store buf off xs) n ys = store buf off (xs @ ys)"
  using assms by (intro nth_equalityI) (auto simp: nth_store nth_append)

lemma seg_store_head:
  "off + length (xs @ ys) \<le> length buf \<Longrightarrow> n = length xs \<Longrightarrow> seg (store buf off (xs @ ys)) off n = xs"
  by (simp add: seg_def store_def)

lemma seg_store_tail:
  "off + length (xs @ ys) \<le> length buf \<Longrightarrow> k = off + length xs \<Longrightarrow> n = length ys \<Longrightarrow>
   seg (store buf off (xs @ ys)) k n = ys"
  by (simp add: seg_def store_def)

lemma take_store_before [buf_simps]:
  "off + length src \<le> length buf \<Longrightarrow> k \<le> off \<Longrightarrow> take k (store buf off src) = take k buf"
  by (simp add: store_def)

lemma drop_store_after [buf_simps]:
  "off + length src \<le> length buf \<Longrightarrow> off + length src \<le> k
   \<Longrightarrow> drop k (store buf off src) = drop k buf"
  by (simp add: store_def)

lemma nth_store_before [buf_simps]:
  "off + length src \<le> length buf \<Longrightarrow> i < off \<Longrightarrow> store buf off src ! i = buf ! i"
  by (simp add: nth_store)

section \<open>Checked reads\<close>

definition rd :: "'a list \<Rightarrow> nat \<Rightarrow> 'a option" where
  "rd buf i = (if i < length buf then Some (buf ! i) else None)"

definition rd_block :: "'a list \<Rightarrow> nat \<Rightarrow> nat \<Rightarrow> 'a list option" where
  "rd_block buf i n = (if i + n \<le> length buf then Some (seg buf i n) else None)"

lemma rd_in [simp]: "i < length buf \<Longrightarrow> rd buf i = Some (buf ! i)"
  by (simp add: rd_def)

lemma rd_out: "length buf \<le> i \<Longrightarrow> rd buf i = None"
  by (simp add: rd_def)

lemma rd_block_in [simp]: "i + n \<le> length buf \<Longrightarrow> rd_block buf i n = Some (seg buf i n)"
  by (simp add: rd_block_def)

lemma rd_Some_iff: "rd buf i = Some x \<longleftrightarrow> i < length buf \<and> x = buf ! i"
  by (auto simp: rd_def)

section \<open>Exclusive or of byte arrays\<close>

definition xor_bytes :: "bytes \<Rightarrow> bytes \<Rightarrow> bytes" where
  "xor_bytes a b = map2 (XOR) a b"

lemma length_xor_bytes [simp, len_simps]: "length (xor_bytes a b) = min (length a) (length b)"
  by (simp add: xor_bytes_def)

lemma nth_xor_bytes [simp]:
  "i < length a \<Longrightarrow> i < length b \<Longrightarrow> xor_bytes a b ! i = a ! i XOR b ! i"
  by (simp add: xor_bytes_def)

lemma xor_word_cancel_right [simp, xor_simps]: "(a XOR b) XOR b = (a :: 'w::len word)"
  by (simp add: xor.assoc)

lemma xor_word_cancel_left [simp, xor_simps]: "a XOR (a XOR b) = (b :: 'w::len word)"
  by (simp add: xor.assoc [symmetric])

lemma xor_bytes_cancel [simp, xor_simps]:
  "length a \<le> length b \<Longrightarrow> xor_bytes (xor_bytes a b) b = a"
  by (rule nth_equalityI) auto

lemma xor_bytes_cancel_left [simp, xor_simps]:
  "length a = length b \<Longrightarrow> xor_bytes a (xor_bytes a b) = b"
  by (rule nth_equalityI) auto

lemma xor_bytes_inj:
  "length a = length b \<Longrightarrow> length c = length b \<Longrightarrow> xor_bytes a b = xor_bytes c b \<Longrightarrow> a = c"
  by (metis order_refl xor_bytes_cancel)

lemma xor_bytes_comm: "xor_bytes a b = xor_bytes b a"
  by (rule nth_equalityI) (auto simp: xor.commute)

lemma xor_bytes_append:
  "length a = length c \<Longrightarrow> xor_bytes (a @ b) (c @ d) = xor_bytes a c @ xor_bytes b d"
  by (simp add: xor_bytes_def)

lemma take_xor_bytes: "take n (xor_bytes a b) = xor_bytes (take n a) (take n b)"
  by (simp add: xor_bytes_def take_map take_zip)

section \<open>Endianness\<close>

definition be16 :: "u8 \<Rightarrow> u8 \<Rightarrow> u16" where
  "be16 hi lo = push_bit 8 (ucast hi) OR ucast lo"

definition le16 :: "u8 \<Rightarrow> u8 \<Rightarrow> u16" where
  "le16 lo hi = ucast lo OR push_bit 8 (ucast hi)"

definition le32_bytes :: "u32 \<Rightarrow> bytes" where
  "le32_bytes v = [ucast v, ucast (drop_bit 8 v), ucast (drop_bit 16 v), ucast (drop_bit 24 v)]"

definition be32_bytes :: "u32 \<Rightarrow> bytes" where
  "be32_bytes v = [ucast (drop_bit 24 v), ucast (drop_bit 16 v), ucast (drop_bit 8 v), ucast v]"

lemma length_le32_bytes [simp, len_simps]: "length (le32_bytes v) = 4"
  by (simp add: le32_bytes_def)

lemma length_be32_bytes [simp, len_simps]: "length (be32_bytes v) = 4"
  by (simp add: be32_bytes_def)

section \<open>Predicates over all bytes\<close>

text \<open>A fact about one byte that the simplifier can decide for each of the 256 values.\<close>

lemma byte_exhaust:
  fixes P :: "u8 \<Rightarrow> bool"
  assumes "list_all P (map of_nat [0..<256])"
  shows "P b"
proof -
  have "b = of_nat (unat b)" and "unat b < 256"
    using unsigned_less [of b] by simp_all
  then have "b \<in> set (map of_nat [0..<256])"
    by (metis atLeastLessThan_iff image_eqI list.set_map set_upt zero_le)
  with assms show ?thesis by (auto simp: list_all_iff)
qed

lemma unat_u8_less [simp]: "unat (b :: u8) < 256"
  using unsigned_less [of b] by simp

section \<open>Lengths as C integers\<close>

text \<open>A \<open>u32\<close> length below \<open>2 ^ 31\<close> has the same value as a C \<open>int\<close>.\<close>

lemma sint_small:
  assumes "unat (len :: u32) < 2 ^ 31"
  shows "nat (sint len) = unat len"
proof -
  have "int (unat len) < int (2 ^ 31)" using assms by (simp only: of_nat_less_iff)
  then have "uint len < 2 ^ 31" by (simp only: of_nat_unat of_nat_power of_nat_numeral)
  moreover have "- (2 ^ 31) \<le> uint len" by (rule order_trans [OF _ unsigned_greater_eq]) simp
  ultimately have "signed_take_bit 31 (uint len) = uint len"
    by (intro signed_take_bit_int_eq_self)
  moreover have "sint len = signed_take_bit 31 (uint len)"
    using sint_uint [of len] by simp
  ultimately have "sint len = uint len" by (simp only:)
  then show ?thesis by (simp only: nat_uint_eq)
qed

text \<open>The length left after taking a header and an IV off a frame.\<close>

lemma unat_rest_len:
  assumes "n = unat h + unat v + k" and "k < 2 ^ 32"
  shows "unat (of_nat n - ucast (h :: u8) - ucast (v :: u8) :: u32) = k"
proof -
  have "(of_nat n :: u32) - ucast h - ucast v = of_nat k"
    using assms(1) by simp
  then show ?thesis using assms(2) by (simp add: unat_of_nat)
qed

end
