(* ===== verification/Arc4.thy ===== *)
theory Arc4
  imports Prelude
begin

unbundle bit_operations_syntax

text \<open>
  The RC4 stream cipher and the CRC-32 of \<open>core/rtw_security.c\<close>: \<open>struct arc4context\<close>,
  \<open>arcfour_init\<close>, \<open>arcfour_byte\<close>, \<open>arcfour_encrypt\<close>, \<open>crc32_reverseBit\<close>, \<open>crc32_init\<close>
  and \<open>getcrc32\<close>. The file proves that the key schedule and the generator keep the
  256-byte state a permutation of all byte values, that encryption is an exclusive or with
  a keystream the data does not influence (the locale \<open>stream_cipher\<close>), and that the
  table-driven CRC computes the reflected polynomial division bit by bit.
\<close>

section \<open>RC4\<close>

record arc4context =
  arc4_x :: u32
  arc4_y :: u32
  arc4_state :: "u8 list"

text \<open>One round of the second loop of \<open>arcfour_init\<close>: state, keyindex and stateindex.\<close>

fun ksa_step :: "bytes \<Rightarrow> u32 \<Rightarrow> nat \<Rightarrow> u8 list \<times> u32 \<times> u32 \<Rightarrow> u8 list \<times> u32 \<times> u32" where
  "ksa_step key key_len counter (state, keyindex, stateindex) =
     (let t = (ucast (state ! counter) :: u32);
          stateindex' = (stateindex + ucast (key ! unat keyindex) + t) AND 0xff;
          u = (ucast (state ! unat stateindex') :: u32);
          state' = (state [unat stateindex' := ucast t]) [counter := ucast u];
          keyindex' = keyindex + 1
      in (state', if key_len \<le> keyindex' then 0 else keyindex', stateindex'))"

definition arcfour_init :: "bytes \<Rightarrow> u32 \<Rightarrow> arc4context" where
  "arcfour_init key key_len =
     (let state0 = map of_nat [0..<256];
          (state, _, _) = fold (ksa_step key key_len) [0..<256] (state0, 0, 0)
      in \<lparr>arc4_x = 0, arc4_y = 0, arc4_state = state\<rparr>)"

definition arcfour_byte :: "arc4context \<Rightarrow> u32 \<times> arc4context" where
  "arcfour_byte c =
     (let x = (arc4_x c + 1) AND 0xff;
          sx = (ucast (arc4_state c ! unat x) :: u32);
          y = (sx + arc4_y c) AND 0xff;
          sy = (ucast (arc4_state c ! unat y) :: u32);
          state = ((arc4_state c) [unat y := ucast sx]) [unat x := ucast sy]
      in (ucast (state ! unat ((sx + sy) AND 0xff)),
          \<lparr>arc4_x = x, arc4_y = y, arc4_state = state\<rparr>))"

fun arcfour_encrypt :: "arc4context \<Rightarrow> bytes \<Rightarrow> bytes \<times> arc4context" where
  "arcfour_encrypt c [] = ([], c)"
| "arcfour_encrypt c (s # src) =
     (let (k, c') = arcfour_byte c;
          (dest, c'') = arcfour_encrypt c' src
      in ((s XOR ucast k) # dest, c''))"

subsection \<open>The keystream\<close>

fun arcfour_stream :: "arc4context \<Rightarrow> nat \<Rightarrow> bytes" where
  "arcfour_stream c 0 = []"
| "arcfour_stream c (Suc n) = (let (k, c') = arcfour_byte c in ucast k # arcfour_stream c' n)"

fun arcfour_skip :: "arc4context \<Rightarrow> nat \<Rightarrow> arc4context" where
  "arcfour_skip c 0 = c"
| "arcfour_skip c (Suc n) = arcfour_skip (snd (arcfour_byte c)) n"

lemma length_arcfour_stream [simp, len_simps]: "length (arcfour_stream c n) = n"
  by (induction n arbitrary: c) (auto simp: case_prod_unfold Let_def)

lemma arcfour_encrypt_stream:
  "arcfour_encrypt c src = (xor_bytes src (arcfour_stream c (length src)), arcfour_skip c (length src))"
  by (induction src arbitrary: c) (auto simp: case_prod_unfold Let_def xor_bytes_def)

lemma arcfour_stream_add:
  "arcfour_stream c (m + n) = arcfour_stream c m @ arcfour_stream (arcfour_skip c m) n"
  by (induction m arbitrary: c) (auto simp: case_prod_unfold Let_def)

lemma arcfour_skip_add: "arcfour_skip c (m + n) = arcfour_skip (arcfour_skip c m) n"
  by (induction m arbitrary: c) auto

text \<open>
  Two consecutive calls of \<open>arcfour_encrypt\<close> on one context (payload, then ICV) are one call
  on the concatenation: the receiver decrypts both at once.
\<close>

lemma arcfour_encrypt_append:
  "arcfour_encrypt c (a @ b) =
     (fst (arcfour_encrypt c a) @ fst (arcfour_encrypt (snd (arcfour_encrypt c a)) b),
      snd (arcfour_encrypt (snd (arcfour_encrypt c a)) b))"
  by (simp add: arcfour_encrypt_stream arcfour_stream_add arcfour_skip_add xor_bytes_append)

section \<open>The contract of a stream cipher\<close>

text \<open>
  What the WEP and TKIP code relies on: encrypting keeps the length, running the cipher
  twice from the same context gives back the data, and the context after a call depends
  only on how much was processed.
\<close>

locale stream_cipher =
  fixes crypt :: "'c \<Rightarrow> bytes \<Rightarrow> bytes \<times> 'c"
  assumes crypt_length: "length (fst (crypt c src)) = length src"
    and crypt_invol: "fst (crypt c (fst (crypt c src))) = src"
    and crypt_append: "fst (crypt c (a @ b)) = fst (crypt c a) @ fst (crypt (snd (crypt c a)) b)"
begin

text \<open>Payload and trailer encrypted by two calls, decrypted by one.\<close>

lemma decrypt_two_parts:
  "fst (crypt c (fst (crypt c a) @ fst (crypt (snd (crypt c a)) b))) = a @ b"
  by (metis crypt_append crypt_invol)

lemma crypt_inj: "fst (crypt c a) = fst (crypt c b) \<Longrightarrow> a = b"
  by (metis crypt_invol)

lemma length_two_parts:
  "length (fst (crypt c a) @ fst (crypt (snd (crypt c a)) b)) = length a + length b"
  by (simp add: crypt_length)

end

interpretation rc4: stream_cipher arcfour_encrypt
proof unfold_locales
  show "fst (arcfour_encrypt c (a @ b)) =
    fst (arcfour_encrypt c a) @ fst (arcfour_encrypt (snd (arcfour_encrypt c a)) b)" for c a b
    by (subst arcfour_encrypt_append) simp
qed (simp_all add: arcfour_encrypt_stream)

section \<open>The state stays a permutation\<close>

definition all_bytes :: "u8 list" where
  "all_bytes = map of_nat [0..<256]"

definition arc4_wf :: "arc4context \<Rightarrow> bool" where
  "arc4_wf c \<longleftrightarrow> mset (arc4_state c) = mset all_bytes \<and> arc4_x c < 256 \<and> arc4_y c < 256"

lemma and_ff_less [simp]: "unat ((w :: u32) AND 0xff) < 256"
proof -
  have "w AND 0xff \<le> 0xff" by (rule word_and_le1)
  then show ?thesis by (simp add: word_le_nat_alt)
qed

lemma and_ff_less_word [simp]: "(w :: u32) AND 0xff < 256"
  using and_ff_less [of w] by (simp add: word_less_nat_alt)

lemma ucast_u8_u32_u8 [simp]: "ucast (ucast (b :: u8) :: u32) = b"
  by (rule ucast_up_ucast_id) (simp add: is_up_def source_size_def target_size_def word_size)

lemma mset_swap_bytes:
  "i < length xs \<Longrightarrow> j < length xs \<Longrightarrow> mset ((xs [j := xs ! i]) [i := xs ! j]) = mset xs"
  by (rule mset_swap)

lemma arc4_wf_length: "arc4_wf c \<Longrightarrow> length (arc4_state c) = 256"
  by (metis all_bytes_def arc4_wf_def length_map length_upt minus_nat.diff_0 size_mset)

lemma ksa_step_mset:
  assumes "mset st = mset all_bytes" and "counter < 256"
  shows "mset (fst (ksa_step key key_len counter (st, ki, si))) = mset all_bytes"
proof -
  have len: "length st = 256"
    by (metis all_bytes_def assms(1) length_map length_upt minus_nat.diff_0 size_mset)
  show ?thesis
    using assms mset_swap_bytes [of counter st] by (simp add: Let_def len)
qed

lemma ksa_fold_mset:
  "mset (fst acc) = mset all_bytes \<Longrightarrow> \<forall>n \<in> set ns. n < 256
   \<Longrightarrow> mset (fst (fold (ksa_step key key_len) ns acc)) = mset all_bytes"
proof (induction ns arbitrary: acc)
  case Nil
  then show ?case by simp
next
  case (Cons n ns)
  then show ?case
    using ksa_step_mset [of "fst acc" n key key_len "fst (snd acc)" "snd (snd acc)"]
    by (cases acc) simp
qed

lemma arcfour_init_wf: "arc4_wf (arcfour_init key key_len)"
proof -
  have "mset (fst (fold (ksa_step key key_len) [0..<256] (all_bytes, 0, 0))) = mset all_bytes"
    by (rule ksa_fold_mset) auto
  then show ?thesis
    by (simp add: arcfour_init_def arc4_wf_def Let_def case_prod_unfold all_bytes_def)
qed

lemma arcfour_byte_wf:
  assumes "arc4_wf c"
  shows "arc4_wf (snd (arcfour_byte c))"
proof -
  note len = arc4_wf_length [OF assms]
  show ?thesis
    using assms mset_swap_bytes [of "unat ((arc4_x c + 1) AND 0xff)" "arc4_state c"]
    by (simp add: arcfour_byte_def arc4_wf_def Let_def len)
qed

lemma arcfour_skip_wf: "arc4_wf c \<Longrightarrow> arc4_wf (arcfour_skip c n)"
  by (induction n arbitrary: c) (auto intro: arcfour_byte_wf)

lemma arcfour_encrypt_wf: "arc4_wf c \<Longrightarrow> arc4_wf (snd (arcfour_encrypt c src))"
  by (simp add: arcfour_encrypt_stream arcfour_skip_wf)

section \<open>CRC-32\<close>

definition CRC32_POLY :: u32 where
  "CRC32_POLY = 0x04c11db7"

definition crc32_reverseBit :: "u8 \<Rightarrow> u8" where
  "crc32_reverseBit d =
     (push_bit 7 d AND 0x80) OR (push_bit 5 d AND 0x40) OR (push_bit 3 d AND 0x20) OR
     (push_bit 1 d AND 0x10) OR (drop_bit 1 d AND 0x08) OR (drop_bit 3 d AND 0x04) OR
     (drop_bit 5 d AND 0x02) OR (drop_bit 7 d AND 0x01)"

text \<open>The inner loop of \<open>crc32_init\<close>: \<open>j\<close> shifts of the register \<open>c\<close>.\<close>

fun crc32_shift :: "nat \<Rightarrow> u32 \<Rightarrow> u32" where
  "crc32_shift 0 c = c"
| "crc32_shift (Suc j) c =
     crc32_shift j (if c AND 0x80000000 \<noteq> 0 then push_bit 1 c XOR CRC32_POLY else push_bit 1 c)"

text \<open>The table entry: the bytes of \<open>c\<close> in reverse order, each with its bits reversed.\<close>

definition crc32_entry :: "nat \<Rightarrow> u32" where
  "crc32_entry i =
     (let k = crc32_reverseBit (of_nat i);
          c = crc32_shift 8 (push_bit 24 (ucast k));
          p = le32_bytes c;
          p1_0 = crc32_reverseBit (p ! 3);
          p1_1 = crc32_reverseBit (p ! 2);
          p1_2 = crc32_reverseBit (p ! 1);
          p1_3 = crc32_reverseBit (p ! 0)
      in ucast p1_0 OR push_bit 8 (ucast p1_1) OR push_bit 16 (ucast p1_2) OR push_bit 24 (ucast p1_3))"

record crc32_static =
  bcrc32initialized :: bool
  crc32_table :: "u32 list"

text \<open>The static variables when the module is loaded.\<close>

definition crc32_boot :: crc32_static where
  "crc32_boot = \<lparr>bcrc32initialized = False, crc32_table = replicate 256 0\<rparr>"

definition crc32_init :: "crc32_static \<Rightarrow> crc32_static" where
  "crc32_init st =
     (if bcrc32initialized st then st
      else \<lparr>bcrc32initialized = True, crc32_table = map crc32_entry [0..<256]\<rparr>)"

definition crc32_step :: "u32 list \<Rightarrow> u8 \<Rightarrow> u32 \<Rightarrow> u32" where
  "crc32_step table b crc = table ! unat ((crc XOR ucast b) AND 0xff) XOR drop_bit 8 crc"

definition getcrc32_st :: "crc32_static \<Rightarrow> bytes \<Rightarrow> u32 \<times> crc32_static" where
  "getcrc32_st st buf =
     (let st' = (if bcrc32initialized st then st else crc32_init st)
      in (NOT (fold (crc32_step (crc32_table st')) buf 0xffffffff), st'))"

text \<open>The value every caller sees: the first call fills the table, later calls find it filled.\<close>

definition getcrc32 :: "bytes \<Rightarrow> u32" where
  "getcrc32 buf = fst (getcrc32_st crc32_boot buf)"

definition crc32_ok :: "crc32_static \<Rightarrow> bool" where
  "crc32_ok st \<longleftrightarrow> (bcrc32initialized st \<longrightarrow> crc32_table st = map crc32_entry [0..<256])"

lemma crc32_ok_boot: "crc32_ok crc32_boot"
  by (simp add: crc32_ok_def crc32_boot_def)

lemma crc32_ok_step: "crc32_ok st \<Longrightarrow> crc32_ok (snd (getcrc32_st st buf))"
  by (simp add: crc32_ok_def getcrc32_st_def crc32_init_def Let_def)

lemma getcrc32_st_value: "crc32_ok st \<Longrightarrow> fst (getcrc32_st st buf) = getcrc32 buf"
  by (simp add: crc32_ok_def getcrc32_st_def crc32_init_def getcrc32_def crc32_boot_def Let_def)

subsection \<open>The reference: reflected division by the polynomial, one bit at a time\<close>

definition crc_bit :: "u32 \<Rightarrow> u32" where
  "crc_bit c = drop_bit 1 c XOR (if bit c 0 then 0xedb88320 else 0)"

definition crc_byte_ref :: "u8 \<Rightarrow> u32 \<Rightarrow> u32" where
  "crc_byte_ref b crc = (crc_bit ^^ 8) (crc XOR ucast b)"

definition crc32_ref :: "bytes \<Rightarrow> u32" where
  "crc32_ref buf = NOT (fold crc_byte_ref buf 0xffffffff)"

lemma crc_bit_xor: "crc_bit (a XOR b) = crc_bit a XOR crc_bit b"
  by (auto simp: crc_bit_def bit_xor_iff drop_bit_xor xor.assoc xor.left_commute)

lemma crc_bits_xor: "(crc_bit ^^ n) (a XOR b) = (crc_bit ^^ n) a XOR (crc_bit ^^ n) b"
  by (induction n) (simp_all add: crc_bit_xor)

lemma crc_bits_high: "(\<And>i. i < n \<Longrightarrow> \<not> bit c i) \<Longrightarrow> (crc_bit ^^ n) c = drop_bit n c"
proof (induction n)
  case 0
  then show ?case by simp
next
  case (Suc n)
  have "\<not> bit (drop_bit n c) 0"
    using Suc.prems [of n] by (simp add: bit_drop_bit_eq)
  then show ?case
    using Suc by (simp add: crc_bit_def drop_bit_drop_bit)
qed

text \<open>
  The table entry is computed with the polynomial in its normal bit order on bit-reversed
  data; \<open>rev32 a b\<close> relates a register of that computation to one of the reflected one.
\<close>

definition rev32 :: "u32 \<Rightarrow> u32 \<Rightarrow> bool" where
  "rev32 a b \<longleftrightarrow> (\<forall>n < 32. bit a n = bit b (31 - n))"

lemma rev32_unique: "rev32 a b \<Longrightarrow> rev32 a c \<Longrightarrow> b = c"
proof (rule bit_word_eqI)
  fix n
  assume r: "rev32 a b" "rev32 a c" and "n < LENGTH(32)"
  then have "31 - n < 32" and n: "31 - (31 - n) = n" by simp_all
  with r have "bit a (31 - n) = bit b (31 - (31 - n))" and "bit a (31 - n) = bit c (31 - (31 - n))"
    unfolding rev32_def by blast+
  then show "bit b n = bit c n" unfolding n by simp
qed

lemma nat_less_8_cases:
  "n < 8 \<Longrightarrow> n = 0 \<or> n = 1 \<or> n = 2 \<or> n = 3 \<or> n = 4 \<or> n = 5 \<or> n = 6 \<or> n = (7::nat)"
  by arith

lemma bit_reverseBit: "bit (crc32_reverseBit d) n \<longleftrightarrow> n < 8 \<and> bit d (7 - n)"
proof (cases "n < 8")
  case True
  from nat_less_8_cases [OF True] True show ?thesis
    by (elim disjE) (simp_all add: crc32_reverseBit_def bit_or_iff bit_and_iff bit_push_bit_iff
        bit_drop_bit_eq mult.commute [of d 2] bit_double_iff)
next
  case False
  then show ?thesis using bit_imp_le_length [of "crc32_reverseBit d" n] by auto
qed

lemma crc_polys_reflect: "n < 32 \<Longrightarrow> bit CRC32_POLY n = bit (0xedb88320 :: u32) (31 - n)"
proof -
  have "list_all (\<lambda>n. bit (0x04c11db7 :: u32) n = bit (0xedb88320 :: u32) (31 - n)) [0..<32]"
    by code_simp
  then show "n < 32 \<Longrightarrow> ?thesis" by (simp add: list_all_iff CRC32_POLY_def)
qed

lemma crc32_shift_one: 
  "rev32 a b \<Longrightarrow>
   rev32 (if a AND 0x80000000 \<noteq> 0 then push_bit 1 a XOR CRC32_POLY else push_bit 1 a) (crc_bit b)"
proof -
  assume r: "rev32 a b"
  have top: "a AND 0x80000000 \<noteq> 0 \<longleftrightarrow> bit a 31"
    using and_exp_eq_0_iff_not_bit [of a 31] by simp
  have b0: "bit b 0 = bit a 31" using r by (simp add: rev32_def)
  have "bit (push_bit 1 a) n = bit (drop_bit 1 b) (31 - n)" if "n < 32" for n
  proof (cases n)
    case 0
    then show ?thesis
      using bit_imp_le_length [of b 32] by (auto simp: mult.commute [of a 2] bit_drop_bit_eq bit_double_iff)
  next
    case (Suc m)
    with r that have "bit a m = bit b (31 - m)" by (simp add: rev32_def)
    moreover from Suc that have "1 + (31 - n) = 31 - m" by arith
    ultimately show ?thesis using Suc that
      by (simp only: bit_push_bit_iff bit_drop_bit_eq comp_def) simp
  qed
  then show ?thesis
    unfolding rev32_def crc_bit_def top b0 using crc_polys_reflect by (auto simp: bit_xor_iff)
qed

lemma crc32_shift_rev: "rev32 a b \<Longrightarrow> rev32 (crc32_shift j a) ((crc_bit ^^ j) b)"
  by (induction j arbitrary: a b) (simp_all add: crc32_shift_one funpow_swap1 del: push_bit_Suc)


lemma bit_byte_in_word: "bit (ucast (b :: u8) :: u32) n \<longleftrightarrow> bit b n \<and> n < 8"
  using bit_imp_le_length [of b n] by (auto simp: bit_ucast_iff)

lemma crc32_shift_start: "rev32 (push_bit 24 (ucast (crc32_reverseBit b))) (ucast b)"
  by (auto simp: rev32_def bit_push_bit_iff bit_byte_in_word bit_reverseBit)

lemma bit_rev_byte:
  "bit (ucast (crc32_reverseBit (ucast (drop_bit k (c :: u32)))) :: u32) m \<longleftrightarrow> m < 8 \<and> bit c (k + (7 - m))"
  by (auto simp: bit_byte_in_word bit_reverseBit bit_ucast_iff bit_drop_bit_eq)

lemma rev32_entry:
  "rev32 c (ucast (crc32_reverseBit (le32_bytes c ! 3)) OR
            push_bit 8 (ucast (crc32_reverseBit (le32_bytes c ! 2))) OR
            push_bit 16 (ucast (crc32_reverseBit (le32_bytes c ! 1))) OR
            push_bit 24 (ucast (crc32_reverseBit (le32_bytes c ! 0))))" (is "rev32 c ?e")
proof -
  have bits: "bit ?e m \<longleftrightarrow> (m < 8 \<and> bit c (24 + (7 - m))) \<or>
      (8 \<le> m \<and> m - 8 < 8 \<and> bit c (16 + (7 - (m - 8)))) \<or>
      (16 \<le> m \<and> m - 16 < 8 \<and> bit c (8 + (7 - (m - 16)))) \<or>
      (24 \<le> m \<and> m - 24 < 8 \<and> bit c (7 - (m - 24)))" if "m < 32" for m
    using that bit_rev_byte [of 24 c] bit_rev_byte [of 16 c] bit_rev_byte [of 8 c] bit_rev_byte [of 0 c]
    by (simp add: le32_bytes_def bit_or_iff bit_push_bit_iff)
  have "bit c n = bit ?e (31 - n)" if n32: "n < 32" for n
  proof -
    consider "n < 8" | "8 \<le> n" "n < 16" | "16 \<le> n" "n < 24" | "24 \<le> n" "n < 32"
      using n32 by (cases "n < 8"; cases "n < 16"; cases "n < 24") auto
    then show ?thesis
    proof cases
      case 1
      then have "7 - (31 - n - 24) = n" by simp
      with 1 n32 show ?thesis by (subst bits) auto
    next
      case 2
      then have "8 + (7 - (31 - n - 16)) = n" by simp
      with 2 n32 show ?thesis by (subst bits) auto
    next
      case 3
      then have "16 + (7 - (31 - n - 8)) = n" by simp
      with 3 n32 show ?thesis by (subst bits) auto
    next
      case 4
      then have "24 + (7 - (31 - n)) = n" by simp
      with 4 n32 show ?thesis by (subst bits) auto
    qed
  qed
  then show ?thesis unfolding rev32_def by blast
qed

lemma crc32_entry_ref: "crc32_entry i = (crc_bit ^^ 8) (ucast (of_nat i :: u8))"
proof (rule rev32_unique)
  let ?c = "crc32_shift 8 (push_bit 24 (ucast (crc32_reverseBit (of_nat i))))"
  show "rev32 ?c (crc32_entry i)"
    using rev32_entry [of ?c] by (simp add: crc32_entry_def Let_def)
  show "rev32 ?c ((crc_bit ^^ 8) (ucast (of_nat i :: u8)))"
    by (intro crc32_shift_rev crc32_shift_start)
qed

lemma bit_ff: "bit (0xff :: int) n \<longleftrightarrow> n < 8"
  using bit_mask_iff [where 'a = int, of 8 n] by (simp add: mask_eq_exp_minus_1)

lemma crc32_step_ref: "crc32_step (map crc32_entry [0..<256]) b crc = crc_byte_ref b crc"
proof -
  let ?v = "crc XOR ucast b" and ?h = "push_bit 8 (drop_bit 8 crc)"
  have split: "?v = (?v AND 0xff) XOR ?h"
    by (rule bit_word_eqI)
      (auto simp: bit_xor_iff bit_and_iff bit_ff bit_push_bit_iff bit_drop_bit_eq bit_byte_in_word)
  have "ucast (of_nat (unat (?v AND 0xff)) :: u8) = ?v AND 0xff"
    by (rule bit_word_eqI) (auto simp: bit_byte_in_word bit_and_iff bit_ff bit_ucast_iff)
  then have lo: "(crc_bit ^^ 8) (?v AND 0xff) = crc32_entry (unat (?v AND 0xff))"
    by (simp add: crc32_entry_ref)
  have "(crc_bit ^^ 8) ?h = drop_bit 8 ?h"
    by (rule crc_bits_high) (simp add: bit_push_bit_iff)
  also have "\<dots> = drop_bit 8 crc"
    by (rule bit_word_eqI) (auto simp: bit_push_bit_iff bit_drop_bit_eq dest: bit_imp_le_length)
  finally have hi: "(crc_bit ^^ 8) ?h = drop_bit 8 crc" .
  have "(crc_bit ^^ 8) ?v = (crc_bit ^^ 8) (?v AND 0xff) XOR (crc_bit ^^ 8) ?h"
    using split crc_bits_xor by metis
  then show ?thesis by (simp add: crc_byte_ref_def crc32_step_def lo hi)
qed

text \<open>The table the driver builds by bit reversal and shifting makes the byte-wise CRC-32
  equal to the bit-wise definition (polynomial 0xEDB88320 on the reflected register, preset and
  complemented), for every buffer.\<close>

lemma getcrc32_is_ref: "getcrc32 buf = crc32_ref buf"
proof -
  have "crc32_step (map crc32_entry [0..<256]) = crc_byte_ref"
    by (intro ext) (rule crc32_step_ref)
  then show ?thesis
    by (simp add: getcrc32_def getcrc32_st_def crc32_boot_def crc32_init_def crc32_ref_def)
qed

end
