(* ===== verification/Michael.thy ===== *)
theory Michael
  imports Prelude
begin

unbundle bit_operations_syntax

text \<open>
  The TKIP message integrity code of \<open>core/rtw_security.c\<close>: the \<open>secmic\<close> functions, which
  collect bytes into a 32-bit word and mix each full word into the state, and
  \<open>rtw_seccalctkipmic\<close>, which runs them over the pseudo header and the data. The file proves
  that the byte-wise code computes Michael over the little-endian words of the padded
  message, that the byte counter stays below 4 and that the padding loop ends.
\<close>

section \<open>The code\<close>

record mic_data =
  K0 :: u32
  K1 :: u32
  L :: u32
  R :: u32
  M :: u32
  nBytesInM :: u32

definition ROL32 :: "u32 \<Rightarrow> nat \<Rightarrow> u32" where
  "ROL32 a n = push_bit n a OR (drop_bit (32 - n) a AND (push_bit n 1 - 1))"

definition ROR32 :: "u32 \<Rightarrow> nat \<Rightarrow> u32" where
  "ROR32 a n = ROL32 a (32 - n)"

definition secmicgetuint32 :: "bytes \<Rightarrow> u32" where
  "secmicgetuint32 p = fold (\<lambda>i res. res OR push_bit (8 * i) (ucast (p ! i))) [0..<4] 0"

fun secmicput_loop :: "nat \<Rightarrow> u32 \<Rightarrow> bytes" where
  "secmicput_loop 0 val = []"
| "secmicput_loop (Suc n) val = ucast (val AND 0xff) # secmicput_loop n (drop_bit 8 val)"

definition secmicputuint32 :: "u32 \<Rightarrow> bytes" where
  "secmicputuint32 val = secmicput_loop 4 val"

definition secmicclear :: "mic_data \<Rightarrow> mic_data" where
  "secmicclear d = d\<lparr>L := K0 d, R := K1 d, nBytesInM := 0, M := 0\<rparr>"

definition rtw_secmicsetkey :: "mic_data \<Rightarrow> bytes \<Rightarrow> mic_data" where
  "rtw_secmicsetkey d key =
     secmicclear (d\<lparr>K0 := secmicgetuint32 (take 4 key), K1 := secmicgetuint32 (drop 4 key)\<rparr>)"

text \<open>The mixing of a full word, the body of the \<open>if\<close> of \<open>rtw_secmicappendbyte\<close>.\<close>

definition michael_block :: "u32 \<Rightarrow> u32 \<times> u32 \<Rightarrow> u32 \<times> u32" where
  "michael_block m = (\<lambda>(l, r).
     let l = l XOR m;
         r = r XOR ROL32 l 17;
         l = l + r;
         r = r XOR (drop_bit 8 (l AND 0xff00ff00) OR push_bit 8 (l AND 0x00ff00ff));
         l = l + r;
         r = r XOR ROL32 l 3;
         l = l + r;
         r = r XOR ROR32 l 2;
         l = l + r
     in (l, r))"

definition rtw_secmicappendbyte :: "mic_data \<Rightarrow> u8 \<Rightarrow> mic_data" where
  "rtw_secmicappendbyte d b =
     (let m = M d OR push_bit (unat (8 * nBytesInM d)) (ucast b);
          n = nBytesInM d + 1
      in if 4 \<le> n then
           (let (l, r) = michael_block m (L d, R d)
            in d\<lparr>L := l, R := r, M := 0, nBytesInM := 0\<rparr>)
         else d\<lparr>M := m, nBytesInM := n\<rparr>)"

fun rtw_secmicappend :: "mic_data \<Rightarrow> bytes \<Rightarrow> mic_data" where
  "rtw_secmicappend d [] = d"
| "rtw_secmicappend d (b # src) = rtw_secmicappend (rtw_secmicappendbyte d b) src"

lemma appendbyte_count:
  "nBytesInM (rtw_secmicappendbyte d b) = (if 4 \<le> nBytesInM d + 1 then 0 else nBytesInM d + 1)"
  by (simp add: rtw_secmicappendbyte_def Let_def split: prod.splits)

text \<open>
  The zero padding loop. It ends from any counter: the counter is reset when it reaches 4,
  and one that overflows is 0.
\<close>

definition pad_measure :: "u32 \<Rightarrow> nat" where
  "pad_measure n = (if n = 0 then 0 else if n < 4 then 4 - unat n else 1)"

lemma unat_eqD: "unat (n :: 'a::len word) = k \<Longrightarrow> n = of_nat k"
  by auto

lemma word_lt4_cases: "(n :: u32) < 4 \<Longrightarrow> n = 0 \<or> n = 1 \<or> n = 2 \<or> n = 3"
proof -
  assume "n < 4"
  then have "unat n < 4" by (simp add: word_less_nat_alt)
  then have "unat n = 0 \<or> unat n = 1 \<or> unat n = 2 \<or> unat n = 3" by arith
  then show ?thesis by (auto dest!: unat_eqD)
qed

function michael_pad :: "mic_data \<Rightarrow> mic_data" where
  "michael_pad d = (if nBytesInM d \<noteq> 0 then michael_pad (rtw_secmicappendbyte d 0) else d)"
  by pat_completeness auto

termination
proof (relation "measure (\<lambda>d. pad_measure (nBytesInM d))")
  fix d :: mic_data
  assume nz: "nBytesInM d \<noteq> 0"
  let ?n = "nBytesInM d"
  have "pad_measure (if 4 \<le> ?n + 1 then 0 else ?n + 1) < pad_measure ?n"
  proof (cases "?n < 4")
    case True
    with word_lt4_cases [OF True] nz show ?thesis by (auto simp: pad_measure_def)
  next
    case False
    then have "?n + 1 = 0 \<or> 4 \<le> ?n + 1"
      by uint_arith
    with False nz show ?thesis by (auto simp: pad_measure_def)
  qed
  then show "(rtw_secmicappendbyte d 0, d) \<in> measure (\<lambda>d. pad_measure (nBytesInM d))"
    by (simp add: appendbyte_count)
qed simp

declare michael_pad.simps [simp del]

definition rtw_secgetmic :: "mic_data \<Rightarrow> bytes \<times> mic_data" where
  "rtw_secgetmic d =
     (let d = rtw_secmicappend d [0x5a, 0, 0, 0, 0];
          d = michael_pad d
      in (secmicputuint32 (L d) @ secmicputuint32 (R d), secmicclear d))"

text \<open>The value of the local \<open>struct mic_data\<close> before \<open>rtw_secmicsetkey\<close> does not matter.\<close>

definition rtw_seccalctkipmic :: "mic_data \<Rightarrow> bytes \<Rightarrow> bytes \<Rightarrow> bytes \<Rightarrow> u8 \<Rightarrow> bytes" where
  "rtw_seccalctkipmic micdata key header data pri =
     (let d = rtw_secmicsetkey micdata key;
          d = (if (header ! 1) AND 1 \<noteq> 0 then
                 (let d = rtw_secmicappend d (seg header 16 6)
                  in if (header ! 1) AND 2 \<noteq> 0 then rtw_secmicappend d (seg header 24 6)
                     else rtw_secmicappend d (seg header 10 6))
               else
                 (let d = rtw_secmicappend d (seg header 4 6)
                  in if (header ! 1) AND 2 \<noteq> 0 then rtw_secmicappend d (seg header 16 6)
                     else rtw_secmicappend d (seg header 10 6)));
          d = rtw_secmicappend d [pri, 0, 0, 0];
          d = rtw_secmicappend d data
      in fst (rtw_secgetmic d))"

section \<open>The reference: Michael over 32-bit words\<close>

definition le_word :: "bytes \<Rightarrow> u32" where
  "le_word bs = ucast (bs ! 0) OR push_bit 8 (ucast (bs ! 1)) OR push_bit 16 (ucast (bs ! 2))
     OR push_bit 24 (ucast (bs ! 3))"

fun michael_words :: "u32 \<times> u32 \<Rightarrow> bytes \<Rightarrow> u32 \<times> u32" where
  "michael_words s (a # b # c # d # bs) = michael_words (michael_block (le_word [a, b, c, d]) s) bs"
| "michael_words s bs = s"

definition michael_padded :: "bytes \<Rightarrow> bytes" where
  "michael_padded msg = msg @ [0x5a, 0, 0, 0, 0] @ replicate ((4 - (length msg + 5) mod 4) mod 4) 0"

definition michael_ref :: "u32 \<times> u32 \<Rightarrow> bytes \<Rightarrow> u32 \<times> u32" where
  "michael_ref key msg = michael_words key (michael_padded msg)"

section \<open>The code computes the reference\<close>

definition mic_empty :: "mic_data \<Rightarrow> bool" where
  "mic_empty d \<longleftrightarrow> nBytesInM d = 0 \<and> M d = 0"

lemma mic_empty_clear [simp]: "mic_empty (secmicclear d)"
  by (simp add: mic_empty_def secmicclear_def)

lemma word_4_le [simp]: "\<not> (4 :: u32) \<le> 1" "\<not> (4 :: u32) \<le> 2" "\<not> (4 :: u32) \<le> 3"
  by (simp_all add: word_le_nat_alt)

lemma append_append: "rtw_secmicappend d (xs @ ys) = rtw_secmicappend (rtw_secmicappend d xs) ys"
  by (induction xs arbitrary: d) simp_all

lemma append_count:
  "nBytesInM d < 4 \<Longrightarrow> unat (nBytesInM (rtw_secmicappend d bs)) = (unat (nBytesInM d) + length bs) mod 4"
proof (induction bs arbitrary: d)
  case Nil
  then show ?case by (simp add: word_less_nat_alt)
next
  case (Cons b bs)
  let ?d = "rtw_secmicappendbyte d b"
  have "unat (nBytesInM ?d) = (unat (nBytesInM d) + 1) mod 4" and "nBytesInM ?d < 4"
    using word_lt4_cases [OF Cons.prems] by (auto simp: appendbyte_count)
  with Cons.IH [of ?d] show ?case by (simp add: mod_simps)
qed

lemma append_four:
  assumes "mic_empty d"
  shows "rtw_secmicappend d [a, b, c, e] =
    d\<lparr>L := fst (michael_block (le_word [a, b, c, e]) (L d, R d)),
      R := snd (michael_block (le_word [a, b, c, e]) (L d, R d))\<rparr>"
  using assms
  by (simp add: mic_empty_def rtw_secmicappendbyte_def Let_def le_word_def case_prod_unfold or.assoc
      mic_data.defs)

lemma append_words:
  "mic_empty d \<Longrightarrow> length bs mod 4 = 0 \<Longrightarrow>
   rtw_secmicappend d bs = d\<lparr>L := fst (michael_words (L d, R d) bs), R := snd (michael_words (L d, R d) bs)\<rparr>"
proof (induction "(L d, R d)" bs arbitrary: d rule: michael_words.induct)
  case (1 a b c e bs)
  let ?d = "rtw_secmicappend d [a, b, c, e]"
  note four = append_four [OF "1.prems"(1), of a b c e]
  have e: "mic_empty ?d"
    unfolding four using "1.prems"(1) by (simp add: mic_empty_def)
  have "rtw_secmicappend d (a # b # c # e # bs) = rtw_secmicappend ?d bs" by simp
  also have "\<dots> = ?d\<lparr>L := fst (michael_words (L ?d, R ?d) bs), R := snd (michael_words (L ?d, R ?d) bs)\<rparr>"
  proof (rule "1.hyps" [OF _ e])
    show "michael_block (le_word [a, b, c, e]) (L d, R d) = (L ?d, R ?d)" unfolding four by simp
    show "length bs mod 4 = 0" using "1.prems"(2) by simp
  qed
  finally show ?case unfolding four by simp
qed (simp_all add: mod_Suc)

lemma pad_zero: "nBytesInM d = 0 \<Longrightarrow> michael_pad d = d"
  by (simp add: michael_pad.simps [of d])

lemma pad_more: "nBytesInM d \<noteq> 0 \<Longrightarrow> michael_pad d = michael_pad (rtw_secmicappendbyte d 0)"
  by (simp add: michael_pad.simps [of d])

lemma pad_3: "nBytesInM d = 3 \<Longrightarrow> michael_pad d = rtw_secmicappend d [0]"
  by (simp add: pad_more pad_zero appendbyte_count)

lemma pad_2: "nBytesInM d = 2 \<Longrightarrow> michael_pad d = rtw_secmicappend d [0, 0]"
  by (simp add: pad_more [of d] pad_3 appendbyte_count)

lemma pad_1: "nBytesInM d = 1 \<Longrightarrow> michael_pad d = rtw_secmicappend d [0, 0, 0]"
  by (simp add: pad_more [of d] pad_2 appendbyte_count)

lemma replicate_small: "replicate 3 x = [x, x, x]" "replicate 2 x = [x, x]"
  by (simp_all add: numeral_3_eq_3 numeral_2_eq_2)

lemma pad_eq:
  assumes "nBytesInM d < 4"
  shows "michael_pad d = rtw_secmicappend d (replicate ((4 - unat (nBytesInM d)) mod 4) 0)"
  using word_lt4_cases [OF assms]
  by (elim disjE) (simp_all add: pad_zero pad_1 pad_2 pad_3 replicate_small)

lemma pad4_arith: "(k + (4 - k mod 4) mod 4) mod 4 = (0 :: nat)"
proof -
  have "k mod 4 < 4" by simp
  then consider "k mod 4 = 0" | "k mod 4 = 1" | "k mod 4 = 2" | "k mod 4 = 3" by linarith
  then show ?thesis
  proof cases
    case 1 then show ?thesis by simp
  next
    case 2 then have "(k + 3) mod 4 = 0" by presburger
    with 2 show ?thesis by simp
  next
    case 3 then have "(k + 2) mod 4 = 0" by presburger
    with 3 show ?thesis by simp
  next
    case 4 then have "(k + 1) mod 4 = 0" by presburger
    with 4 show ?thesis by simp
  qed
qed

declare rtw_secmicappend.simps [simp del]

lemma append_Nil_id [simp]: "rtw_secmicappend d [] = d"
  by (simp add: rtw_secmicappend.simps)

lemma getmic_ref:
  assumes "mic_empty d"
  shows "fst (rtw_secgetmic (rtw_secmicappend d msg)) =
    (let (l, r) = michael_ref (L d, R d) msg in secmicputuint32 l @ secmicputuint32 r)"
proof -
  let ?m = "msg @ [0x5a, 0, 0, 0, 0]"
  let ?d = "rtw_secmicappend d ?m"
  have d0: "nBytesInM d = 0" using assms by (simp add: mic_empty_def)
  then have "nBytesInM d < 4" by simp
  from append_count [OF this, of ?m] have n: "unat (nBytesInM ?d) = (length msg + 5) mod 4"
    by (simp add: d0 add.commute)
  then have lt: "nBytesInM ?d < 4" by (simp add: word_less_nat_alt)
  have "michael_pad ?d = rtw_secmicappend d (michael_padded msg)"
    using pad_eq [OF lt] unfolding n michael_padded_def by (simp only: append_append append_assoc)
  moreover have "length (michael_padded msg) mod 4 = 0"
    using pad4_arith [of "length msg + 5"] by (simp add: michael_padded_def ac_simps)
  ultimately have "michael_pad ?d = d\<lparr>L := fst (michael_ref (L d, R d) msg), R := snd (michael_ref (L d, R d) msg)\<rparr>"
    using append_words [OF assms] by (simp add: michael_ref_def)
  then show ?thesis
    by (simp add: rtw_secgetmic_def Let_def append_append [symmetric] case_prod_unfold)
qed

text \<open>The pseudo header: destination and source by the DS bits, then the priority.\<close>

definition mic_pseudo_header :: "bytes \<Rightarrow> u8 \<Rightarrow> bytes" where
  "mic_pseudo_header header pri =
     (let tods = (header ! 1) AND 1 \<noteq> 0; fromds = (header ! 1) AND 2 \<noteq> 0;
          da = (if tods then seg header 16 6 else seg header 4 6);
          sa = (if fromds then (if tods then seg header 24 6 else seg header 16 6) else seg header 10 6)
      in da @ sa @ [pri, 0, 0, 0])"

text \<open>The TKIP MIC computed byte by byte, for any previous contents of the local state,
  is Michael run over the 32-bit little-endian words of the pseudo header and the data, padded
  with 0x5a and zeroes to a multiple of four.\<close>

lemma tkip_mic_is_michael:
  "rtw_seccalctkipmic micdata key header data pri =
     (let (l, r) = michael_ref (secmicgetuint32 (take 4 key), secmicgetuint32 (drop 4 key))
                     (mic_pseudo_header header pri @ data)
      in secmicputuint32 l @ secmicputuint32 r)"
proof -
  let ?d = "rtw_secmicsetkey micdata key"
  have "mic_empty ?d" and "(L ?d, R ?d) = (secmicgetuint32 (take 4 key), secmicgetuint32 (drop 4 key))"
    by (simp_all add: rtw_secmicsetkey_def secmicclear_def mic_empty_def)
  moreover have "rtw_seccalctkipmic micdata key header data pri =
      fst (rtw_secgetmic (rtw_secmicappend ?d (mic_pseudo_header header pri @ data)))"
    by (auto simp only: rtw_seccalctkipmic_def mic_pseudo_header_def Let_def append_append split: if_splits)
  ultimately show ?thesis by (simp add: getmic_ref)
qed

end
