(* ===== verification/Frames.thy ===== *)
theory Frames
  imports Prelude
begin

unbundle bit_operations_syntax

text \<open>
  What the software ciphers share: the fields they use of \<open>struct pkt_attrib\<close>
  (\<open>include/rtw_xmit.h\<close>), \<open>struct rx_pkt_attrib\<close> (\<open>include/rtw_recv.h\<close>) and
  \<open>struct security_priv\<close> (\<open>include/rtw_security.h\<close>), the address predicates of
  \<open>include/wifi.h\<close> and \<open>include/ieee80211.h\<close>, the frame types, the software cipher counters, and the walk
  over the fragments of a transmit buffer, which \<open>rtw_wep_encrypt\<close>,
  \<open>rtw_tkip_encrypt\<close> and \<open>rtw_aes_encrypt\<close> all perform in the same way.
\<close>

section \<open>Frame control\<close>

abbreviation WIFI_MGT_TYPE :: u16 where "WIFI_MGT_TYPE \<equiv> 0"
abbreviation WIFI_DATA :: u16 where "WIFI_DATA \<equiv> 0x08"
abbreviation WIFI_DATA_CFACK :: u16 where "WIFI_DATA_CFACK \<equiv> 0x18"
abbreviation WIFI_DATA_CFPOLL :: u16 where "WIFI_DATA_CFPOLL \<equiv> 0x28"
abbreviation WIFI_DATA_CFACKPOLL :: u16 where "WIFI_DATA_CFACKPOLL \<equiv> 0x38"
abbreviation WLAN_HDR_A3_LEN :: nat where "WLAN_HDR_A3_LEN \<equiv> 24"
abbreviation WLAN_HDR_A3_QOS_LEN :: nat where "WLAN_HDR_A3_QOS_LEN \<equiv> 26"

definition GetFrameType :: "bytes \<Rightarrow> u16" where
  "GetFrameType m = le16 (m ! 0) (m ! 1) AND 0x0c"

definition get_frame_sub_type :: "bytes \<Rightarrow> u16" where
  "get_frame_sub_type m = le16 (m ! 0) (m ! 1) AND 0xfc"

section \<open>Constants\<close>

abbreviation WEP40 :: u8 where "WEP40 \<equiv> 0x1"
abbreviation TKIP :: u8 where "TKIP \<equiv> 0x2"
abbreviation AES :: u8 where "AES \<equiv> 0x4"
abbreviation WEP104 :: u8 where "WEP104 \<equiv> 0x5"

datatype result = Success | Fail

definition TXDESC_OFFSET :: nat where
  "TXDESC_OFFSET = 40"

section \<open>Addresses\<close>

definition IS_MCAST :: "bytes \<Rightarrow> bool" where
  "IS_MCAST da \<longleftrightarrow> (da ! 0) AND 0x01 \<noteq> 0"

definition is_multicast_mac_addr :: "bytes \<Rightarrow> bool" where
  "is_multicast_mac_addr addr \<longleftrightarrow> addr ! 0 \<noteq> 0xff \<and> 0x01 AND addr ! 0 \<noteq> 0"

definition is_broadcast_mac_addr :: "bytes \<Rightarrow> bool" where
  "is_broadcast_mac_addr addr \<longleftrightarrow> addr ! 0 = 0xff \<and> addr ! 1 = 0xff \<and> addr ! 2 = 0xff \<and>
     addr ! 3 = 0xff \<and> addr ! 4 = 0xff \<and> addr ! 5 = 0xff"

section \<open>Attributes and keys\<close>

record pkt_attrib =
  hdrlen :: u16
  last_txcmdsz :: u32
  nr_frags :: u8
  encrypt :: u8
  iv_len :: u8
  icv_len :: u8
  ta :: bytes
  ra :: bytes
  dot118021x_UncstKey :: bytes

record rx_pkt_attrib =
  rx_hdrlen :: u8
  rx_encrypt :: u8
  rx_iv_len :: u8
  rx_icv_len :: u8
  rx_key_index :: u8
  rx_ta :: bytes
  rx_ra :: bytes

text \<open>The counters of \<open>DBG_SW_SEC_CNT\<close>: broadcast, multicast and unicast frames.\<close>

record sw_cnt =
  cnt_bc :: u64
  cnt_mc :: u64
  cnt_uc :: u64

record security_priv =
  dot11PrivacyAlgrthm :: u32
  dot11PrivacyKeyIndex :: u32
  dot11DefKey :: "bytes list"
  dot11DefKeylen :: "u32 list"
  dot118021XGrpKeyid :: u32
  dot118021XGrpKey :: "bytes list"
  binstallGrpkey :: bool
  btkip_countermeasure :: bool
  btkip_countermeasure_time :: u64
  wep_sw_enc_cnt :: sw_cnt
  wep_sw_dec_cnt :: sw_cnt
  tkip_sw_enc_cnt :: sw_cnt
  tkip_sw_dec_cnt :: sw_cnt
  aes_sw_enc_cnt :: sw_cnt
  aes_sw_dec_cnt :: sw_cnt

text \<open>The body of the six counter macros.\<close>

definition sw_cnt_inc :: "bytes \<Rightarrow> sw_cnt \<Rightarrow> sw_cnt" where
  "sw_cnt_inc addr c =
     (if is_broadcast_mac_addr addr then c\<lparr>cnt_bc := cnt_bc c + 1\<rparr>
      else if is_multicast_mac_addr addr then c\<lparr>cnt_mc := cnt_mc c + 1\<rparr>
      else c\<lparr>cnt_uc := cnt_uc c + 1\<rparr>)"

text \<open>
  A transmit frame: \<open>buf_addr\<close> is \<open>None\<close> for a null pointer, otherwise the address of the
  first byte of the buffer (the walk rounds addresses, so it matters) and its contents.
\<close>

record xmit_frame =
  attrib :: pkt_attrib
  buf_addr :: "(nat \<times> bytes) option"

text \<open>A received frame: \<open>rx_data\<close> points at the MAC header, \<open>rx_len\<close> is \<open>u.hdr.len\<close>.\<close>

record recv_frame =
  rx_attrib :: rx_pkt_attrib
  rx_len :: u32
  rx_data :: bytes

section \<open>Pointers into a buffer\<close>

text \<open>\<open>at_ptr p f buf\<close>: a function that gets a pointer to byte \<open>p\<close> of \<open>buf\<close> runs.\<close>

definition at_ptr :: "nat \<Rightarrow> (bytes \<Rightarrow> bytes) \<Rightarrow> bytes \<Rightarrow> bytes" where
  "at_ptr p f buf = take p buf @ f (drop p buf)"

lemma drop_at_ptr [simp]: "p \<le> length buf \<Longrightarrow> drop p (at_ptr p f buf) = f (drop p buf)"
  by (simp add: at_ptr_def)

lemma seg_at_ptr_before:
  assumes "k + n \<le> p" and "p \<le> length buf"
  shows "seg (at_ptr p f buf) k n = seg buf k n"
proof -
  have "take (k + n) (at_ptr p f buf) = take (k + n) buf"
    using assms by (simp add: at_ptr_def min_absorb1)
  then show ?thesis unfolding seg_def by (metis add.commute take_drop)
qed

definition RND4 :: "nat \<Rightarrow> nat" where
  "RND4 x = (x div 4 + (if x mod 4 = 0 then 0 else 1)) * 4"

lemma RND4_ge: "x \<le> RND4 x"
proof -
  have "x = x div 4 * 4 + x mod 4" by simp
  moreover have "x mod 4 < 4" by simp
  ultimately show ?thesis by (auto simp: RND4_def algebra_simps)
qed

lemma RND4_aligned: "RND4 x mod 4 = 0"
  by (simp add: RND4_def)

section \<open>The walk over the fragments\<close>

text \<open>
  \<open>each_fragment op base frag_len length_mid length_last n pf buf\<close>: \<open>n\<close> fragments are left,
  the current one starts at byte \<open>pf\<close> of the buffer, which lies at address \<open>base\<close>.
  The last fragment is processed with \<open>length_last\<close>, every other one with \<open>length_mid\<close>,
  and after it the pointer moves to \<open>RND4 (pframe + frag_len)\<close>.
\<close>

definition next_pframe :: "nat \<Rightarrow> u32 \<Rightarrow> nat \<Rightarrow> nat" where
  "next_pframe base frag_len pf = RND4 (base + pf + unat frag_len) - base"

fun each_fragment ::
  "(u32 \<Rightarrow> bytes \<Rightarrow> bytes) \<Rightarrow> nat \<Rightarrow> u32 \<Rightarrow> u32 \<Rightarrow> u32 \<Rightarrow> nat \<Rightarrow> nat \<Rightarrow> bytes \<Rightarrow> bytes" where
  "each_fragment op base frag_len length_mid length_last 0 pf buf = buf"
| "each_fragment op base frag_len length_mid length_last (Suc 0) pf buf =
     at_ptr pf (op length_last) buf"
| "each_fragment op base frag_len length_mid length_last (Suc (Suc n)) pf buf =
     each_fragment op base frag_len length_mid length_last (Suc n) (next_pframe base frag_len pf)
       (at_ptr pf (op length_mid) buf)"

fun frag_start :: "nat \<Rightarrow> u32 \<Rightarrow> nat \<Rightarrow> nat \<Rightarrow> nat" where
  "frag_start base frag_len 0 pf = pf"
| "frag_start base frag_len (Suc i) pf = frag_start base frag_len i (next_pframe base frag_len pf)"

lemma next_pframe_ge: "pf + unat frag_len \<le> next_pframe base frag_len pf"
  using RND4_ge [of "base + pf + unat frag_len"] by (simp add: next_pframe_def)

lemma frag_start_mono: "pf \<le> frag_start base frag_len i pf"
proof (induction i arbitrary: pf)
  case 0
  then show ?case by simp
next
  case (Suc i)
  have "pf \<le> next_pframe base frag_len pf" using next_pframe_ge [of pf frag_len base] by simp
  also have "\<dots> \<le> frag_start base frag_len (Suc i) pf" using Suc.IH by simp
  finally show ?case .
qed

text \<open>The buffer holds all fragments, and a middle fragment fits in the step of the walk.\<close>

definition frags_fit :: "nat \<Rightarrow> nat \<Rightarrow> u32 \<Rightarrow> u32 \<Rightarrow> u32 \<Rightarrow> nat \<Rightarrow> nat \<Rightarrow> nat \<Rightarrow> bool" where
  "frags_fit ovh base fl lm ll n pf sz \<longleftrightarrow> unat lm < 2 ^ 31 \<and> unat ll < 2 ^ 31 \<and>
     ovh + unat lm \<le> unat fl \<and> frag_start base fl (n - 1) pf + ovh + unat ll \<le> sz"

lemma fits_step:
  assumes "frags_fit ovh base fl lm ll (Suc (Suc n)) pf sz"
  shows "frags_fit ovh base fl lm ll (Suc n) (next_pframe base fl pf) sz"
    and "pf + ovh + unat lm \<le> next_pframe base fl pf" and "pf + ovh + unat lm \<le> sz"
proof -
  show "frags_fit ovh base fl lm ll (Suc n) (next_pframe base fl pf) sz"
    using assms by (simp add: frags_fit_def)
  show step: "pf + ovh + unat lm \<le> next_pframe base fl pf"
    using assms next_pframe_ge [of pf fl base] by (simp add: frags_fit_def)
  have "next_pframe base fl pf \<le> sz"
    using assms frag_start_mono [of "next_pframe base fl pf" base fl n] by (simp add: frags_fit_def)
  with step show "pf + ovh + unat lm \<le> sz" by simp
qed

lemma frags_fit_in:
  "frags_fit ovh base fl lm ll n pf sz \<Longrightarrow> i < n \<Longrightarrow> l = (if Suc i = n then ll else lm) \<Longrightarrow>
   frag_start base fl i pf + (ovh + unat l) \<le> sz"
proof (induction n arbitrary: pf i)
  case 0
  then show ?case by simp
next
  case (Suc n)
  show ?case
  proof (cases n)
    case 0
    with Suc.prems show ?thesis by (simp add: frags_fit_def)
  next
    case (Suc m)
    note st = fits_step [OF Suc.prems(1) [unfolded Suc]]
    show ?thesis
    proof (cases i)
      case 0
      with st Suc Suc.prems show ?thesis by simp
    next
      case (Suc j)
      have "frag_start base fl j (next_pframe base fl pf) + (ovh + unat l) \<le> sz"
        using st(1) Suc.prems Suc \<open>n = Suc m\<close> by (intro Suc.IH) auto
      with Suc show ?thesis by simp
    qed
  qed
qed

lemma fits_first: "frags_fit ovh base fl lm ll (Suc n) pf sz \<Longrightarrow> pf \<le> sz"
  using frag_start_mono [of pf base fl n] by (simp add: frags_fit_def)

text \<open>Every fragment satisfies \<open>ok\<close>.\<close>

definition frags_ok :: "(bytes \<Rightarrow> bool) \<Rightarrow> nat \<Rightarrow> u32 \<Rightarrow> nat \<Rightarrow> nat \<Rightarrow> bytes \<Rightarrow> bool" where
  "frags_ok ok base fl n pf buf \<longleftrightarrow> (\<forall>i<n. ok (drop (frag_start base fl i pf) buf))"

text \<open>
  The contract of a per-fragment cipher: \<open>ovh\<close> is the number of bytes it touches beside
  the payload (header, IV, trailer); it changes nothing behind them and does not look
  there. Lengths are C \<open>int\<close>s, so below \<open>2 ^ 31\<close>. The promise is for frames that satisfy
  \<open>ok\<close>, a condition on the header: CCMP computes the header length anew from the frame type.
\<close>

locale hdr_cipher =
  fixes op :: "u32 \<Rightarrow> bytes \<Rightarrow> bytes" and ovh :: nat and ok :: "bytes \<Rightarrow> bool"
  assumes footprint: "ok m \<Longrightarrow> unat len < 2 ^ 31 \<Longrightarrow> ovh + unat len \<le> length m \<Longrightarrow>
      op len m = op len (take (ovh + unat len) m) @ drop (ovh + unat len) m"
    and op_length: "ok m \<Longrightarrow> unat len < 2 ^ 31 \<Longrightarrow> ovh + unat len \<le> length m \<Longrightarrow> length (op len m) = length m"
    and ok_take: "ovh \<le> k \<Longrightarrow> k \<le> length m \<Longrightarrow> ok (take k m) \<longleftrightarrow> ok m"
begin

lemma at_ptr_length:
  "ok (drop pf buf) \<Longrightarrow> unat len < 2 ^ 31 \<Longrightarrow> pf + ovh + unat len \<le> length buf \<Longrightarrow>
   length (at_ptr pf (op len) buf) = length buf"
  by (simp add: at_ptr_def op_length)

lemma seg_at_ptr_same:
  assumes "ok (drop pf buf)" and "unat len < 2 ^ 31" and "pf + ovh + unat len \<le> length buf"
  shows "seg (at_ptr pf (op len) buf) pf (ovh + unat len) = op len (seg buf pf (ovh + unat len))"
proof -
  have l: "ovh + unat len \<le> length (drop pf buf)" using assms by simp
  have "ok (take (ovh + unat len) (drop pf buf))" using assms ok_take [OF _ l] by simp
  from op_length [OF this assms(2)] have "length (op len (take (ovh + unat len) (drop pf buf))) = ovh + unat len"
    using assms(3) by simp
  then show ?thesis
    using footprint [OF assms(1,2) l] assms(3) by (simp add: seg_def)
qed

lemma drop_at_ptr_after:
  assumes "ok (drop pf buf)" and "unat len < 2 ^ 31" and "pf + ovh + unat len \<le> length buf"
    and "pf + ovh + unat len \<le> k"
  shows "drop k (at_ptr pf (op len) buf) = drop k buf"
proof -
  let ?s = "ovh + unat len"
  have l: "?s \<le> length (drop pf buf)" using assms by simp
  have "ok (take ?s (drop pf buf))" using assms(1) ok_take [OF _ l] by simp
  from op_length [OF this assms(2)] have len': "length (op len (take ?s (drop pf buf))) = ?s"
    using assms(3) by simp
  have "drop k (at_ptr pf (op len) buf) = drop (k - pf) (drop pf (at_ptr pf (op len) buf))"
    using assms(4) by simp
  also have "\<dots> = drop (k - pf) (op len (take ?s (drop pf buf)) @ drop ?s (drop pf buf))"
    using footprint [OF assms(1,2) l] assms(3) by simp
  also have "\<dots> = drop (k - pf) (drop pf buf)"
    using assms(4) len' by simp
  finally show ?thesis using assms(4) by simp
qed

lemma frags_ok_step:
  assumes fit: "frags_fit ovh base fl lm ll (Suc (Suc n)) pf (length buf)"
    and ok: "frags_ok ok base fl (Suc (Suc n)) pf buf"
  shows "ok (drop pf buf)"
    and "frags_ok ok base fl (Suc n) (next_pframe base fl pf) (at_ptr pf (op lm) buf)"
    and "length (at_ptr pf (op lm) buf) = length buf"
proof -
  note st = fits_step [OF fit]
  have lm: "unat lm < 2 ^ 31" using fit by (simp add: frags_fit_def)
  show o: "ok (drop pf buf)" using ok unfolding frags_ok_def by (metis frag_start.simps(1) zero_less_Suc)
  show "length (at_ptr pf (op lm) buf) = length buf" using o lm st(3) by (intro at_ptr_length) simp_all
  show "frags_ok ok base fl (Suc n) (next_pframe base fl pf) (at_ptr pf (op lm) buf)"
    unfolding frags_ok_def
  proof (intro allI impI)
    fix i assume i: "i < Suc n"
    let ?k = "frag_start base fl i (next_pframe base fl pf)"
    have "pf + ovh + unat lm \<le> ?k" using st(2) frag_start_mono [of "next_pframe base fl pf" base fl i] by simp
    then have "drop ?k (at_ptr pf (op lm) buf) = drop ?k buf"
      by (rule drop_at_ptr_after [OF o lm st(3)])
    moreover have "ok (drop (frag_start base fl (Suc i) pf) buf)" using ok i unfolding frags_ok_def by blast
    ultimately show "ok (drop ?k (at_ptr pf (op lm) buf))" by simp
  qed
qed

lemma each_fragment_length:
  "frags_fit ovh base fl lm ll n pf (length buf) \<Longrightarrow> frags_ok ok base fl n pf buf \<Longrightarrow>
   length (each_fragment op base fl lm ll n pf buf) = length buf"
proof (induction n arbitrary: pf buf)
  case 0
  then show ?case by simp
next
  case (Suc n)
  show ?case
  proof (cases n)
    case 0
    with Suc.prems show ?thesis by (simp add: frags_fit_def frags_ok_def at_ptr_length)
  next
    case (Suc m)
    note st = fits_step [OF Suc.prems(1) [unfolded Suc]] frags_ok_step [OF Suc.prems [unfolded Suc]]
    with Suc.IH [of "next_pframe base fl pf" "at_ptr pf (op lm) buf"] Suc show ?thesis by simp
  qed
qed

lemma each_fragment_before:
  "frags_fit ovh base fl lm ll n pf (length buf) \<Longrightarrow> frags_ok ok base fl n pf buf \<Longrightarrow> k + m \<le> pf \<Longrightarrow>
   seg (each_fragment op base fl lm ll n pf buf) k m = seg buf k m"
proof (induction n arbitrary: pf buf)
  case 0
  then show ?case by simp
next
  case (Suc n)
  have pf: "pf \<le> length buf" using Suc.prems(1) by (rule fits_first)
  show ?case
  proof (cases n)
    case 0
    with Suc.prems pf show ?thesis by (simp add: seg_at_ptr_before)
  next
    case (Suc j)
    note st = fits_step [OF Suc.prems(1) [unfolded Suc]] frags_ok_step [OF Suc.prems(1,2) [unfolded Suc]]
    have "seg (each_fragment op base fl lm ll n (next_pframe base fl pf) (at_ptr pf (op lm) buf)) k m
        = seg (at_ptr pf (op lm) buf) k m"
      using st Suc.prems(3) Suc by (intro Suc.IH) simp_all
    with Suc pf Suc.prems(3) show ?thesis by (simp add: seg_at_ptr_before)
  qed
qed

text \<open>Every fragment of the result is the cipher applied to that fragment of the input.\<close>

lemma each_fragment_seg:
  "frags_fit ovh base fl lm ll n pf (length buf) \<Longrightarrow> frags_ok ok base fl n pf buf \<Longrightarrow> i < n \<Longrightarrow>
   l = (if Suc i = n then ll else lm) \<Longrightarrow>
   seg (each_fragment op base fl lm ll n pf buf) (frag_start base fl i pf) (ovh + unat l)
   = op l (seg buf (frag_start base fl i pf) (ovh + unat l))"
proof (induction n arbitrary: pf buf i)
  case 0
  then show ?case by simp
next
  case (Suc n)
  show ?case
  proof (cases n)
    case 0
    with Suc.prems show ?thesis by (simp add: frags_fit_def frags_ok_def seg_at_ptr_same)
  next
    case (Suc m)
    note st = fits_step [OF Suc.prems(1) [unfolded Suc]]
    note ok = frags_ok_step [OF Suc.prems(1,2) [unfolded Suc]]
    let ?b = "at_ptr pf (op lm) buf" and ?p = "next_pframe base fl pf"
    have lm: "unat lm < 2 ^ 31" using Suc.prems(1) by (simp add: frags_fit_def)
    show ?thesis
    proof (cases i)
      case 0
      then show ?thesis
        using Suc Suc.prems(4) st ok lm by (simp add: each_fragment_before seg_at_ptr_same)
    next
      case (Suc j)
      let ?k = "frag_start base fl j ?p"
      have "seg (each_fragment op base fl lm ll n ?p ?b) ?k (ovh + unat l) = op l (seg ?b ?k (ovh + unat l))"
        using st(1) ok Suc Suc.prems \<open>n = Suc m\<close> by (intro Suc.IH) auto
      moreover have "drop ?k ?b = drop ?k buf"
        using st(2) frag_start_mono [of ?p base fl j] by (intro drop_at_ptr_after [OF ok(1) lm st(3)]) simp
      ultimately show ?thesis using Suc \<open>n = Suc m\<close> by (simp add: seg_def)
    qed
  qed
qed

end

text \<open>WEP and TKIP keep the promise for every frame.\<close>

locale frame_cipher =
  fixes op :: "u32 \<Rightarrow> bytes \<Rightarrow> bytes" and ovh :: nat
  assumes footprint_all: "unat len < 2 ^ 31 \<Longrightarrow> ovh + unat len \<le> length m \<Longrightarrow>
      op len m = op len (take (ovh + unat len) m) @ drop (ovh + unat len) m"
    and op_length_all: "unat len < 2 ^ 31 \<Longrightarrow> ovh + unat len \<le> length m \<Longrightarrow> length (op len m) = length m"

sublocale frame_cipher \<subseteq> hdr_cipher op ovh "\<lambda>_. True"
  by unfold_locales (rule footprint_all op_length_all refl; assumption?)+

context frame_cipher
begin

lemma each_fragment_seg_all:
  "frags_fit ovh base fl lm ll n pf (length buf) \<Longrightarrow> i < n \<Longrightarrow> l = (if Suc i = n then ll else lm) \<Longrightarrow>
   seg (each_fragment op base fl lm ll n pf buf) (frag_start base fl i pf) (ovh + unat l)
   = op l (seg buf (frag_start base fl i pf) (ovh + unat l))"
  by (rule each_fragment_seg) (simp_all add: frags_ok_def)

end

end
