(* ===== verification/Rc4Frame.thy ===== *)
theory Rc4Frame
  imports Arc4 Frames
begin

text \<open>
  Sealing a frame with RC4 and a CRC-32, the pattern WEP and TKIP share: a key made from the
  IV in the frame, the payload encrypted in place, the encrypted CRC of the plain payload
  stored behind it. \<open>init iv\<close> is the RC4 context after key scheduling. Both ciphers are
  instances; what holds for both is proved here once.
\<close>

section \<open>Sealing\<close>

definition rc4_seal :: "nat \<Rightarrow> (bytes \<Rightarrow> arc4context) \<Rightarrow> nat \<Rightarrow> nat \<Rightarrow> u32 \<Rightarrow> bytes \<Rightarrow> bytes" where
  "rc4_seal ivn init hdr ivl len m =
     (let p = seg m (ivl + hdr) (unat len)
      in store m (ivl + hdr)
           (xor_bytes (p @ le32_bytes (getcrc32 p)) (arcfour_stream (init (seg m hdr ivn)) (unat len + 4))))"

text \<open>The in-place code: encrypt the payload, then the CRC with the context left by that.\<close>

lemma rc4_seal_two_calls:
  assumes "unat len < 2 ^ 31" and "hdr + ivl + 4 + unat len \<le> length m"
  shows "(let payload = ivl + hdr;
              crc = le32_bytes (getcrc32 (seg m payload (nat (sint len))));
              ctx = init (seg m hdr ivn);
              (data, ctx') = arcfour_encrypt ctx (seg m payload (unat len));
              m' = store m payload data;
              (icv, ctx'') = arcfour_encrypt ctx' crc
          in store m' (payload + unat len) icv) = rc4_seal ivn init hdr ivl len m"
proof -
  define p where "p = seg m (ivl + hdr) (unat len)"
  have "length p = unat len" using assms by (simp add: p_def)
  then show ?thesis
    using assms
    by (simp add: rc4_seal_def Let_def case_prod_unfold sint_small arcfour_encrypt_stream
        arcfour_stream_add xor_bytes_append store_append add.assoc flip: p_def)
qed

lemma rc4_seal_length:
  "hdr + ivl + 4 + unat len \<le> length m \<Longrightarrow> length (rc4_seal ivn init hdr ivl len m) = length m"
  by (simp add: rc4_seal_def Let_def)

lemma rc4_seal_footprint:
  assumes "ivn \<le> ivl + 4" and "hdr + ivl + 4 + unat len \<le> length m"
  shows "rc4_seal ivn init hdr ivl len m =
    rc4_seal ivn init hdr ivl len (take (hdr + ivl + 4 + unat len) m) @ drop (hdr + ivl + 4 + unat len) m"
proof -
  let ?n = "hdr + ivl + 4 + unat len"
  have s: "seg (take ?n m) hdr ivn = seg m hdr ivn"
    "seg (take ?n m) (ivl + hdr) (unat len) = seg m (ivl + hdr) (unat len)"
    using assms by (simp_all add: seg_def drop_take min_absorb1)
  have e: "ivl + hdr + (unat len + 4) = ?n" by simp
  show ?thesis using assms by (simp add: rc4_seal_def Let_def s store_def e)
qed

section \<open>Opening\<close>

text \<open>What both receivers do: run RC4 over payload and ICV, in place.\<close>

definition rc4_open :: "nat \<Rightarrow> (bytes \<Rightarrow> arc4context) \<Rightarrow> nat \<Rightarrow> nat \<Rightarrow> nat \<Rightarrow> bytes \<Rightarrow> bytes" where
  "rc4_open ivn init hdr ivl k m =
     store m (ivl + hdr) (fst (arcfour_encrypt (init (seg m hdr ivn)) (seg m (ivl + hdr) k)))"

lemma rc4_open_length [simp]: "ivl + hdr + k \<le> length m \<Longrightarrow> length (rc4_open ivn init hdr ivl k m) = length m"
  by (simp add: rc4_open_def rc4.crypt_length)

lemma rc4_open_seal:
  assumes "ivn \<le> ivl" and "hdr + ivl + 4 + unat len = length m"
  shows "rc4_open ivn init hdr ivl (unat len + 4) (rc4_seal ivn init hdr ivl len m) =
    (let p = seg m (ivl + hdr) (unat len) in store m (ivl + hdr) (p @ le32_bytes (getcrc32 p)))"
proof -
  define p where "p = seg m (ivl + hdr) (unat len)"
  let ?ks = "arcfour_stream (init (seg m hdr ivn)) (unat len + 4)"
  let ?x = "xor_bytes (p @ le32_bytes (getcrc32 p)) ?ks"
  have lp: "length p = unat len" using assms by (simp add: p_def)
  then have lx: "length ?x = unat len + 4" by simp
  have m': "rc4_seal ivn init hdr ivl len m = store m (ivl + hdr) ?x"
    by (simp add: rc4_seal_def Let_def p_def)
  have iv: "seg (store m (ivl + hdr) ?x) hdr ivn = seg m hdr ivn"
    using assms lx by (intro seg_store_before) simp_all
  have x: "seg (store m (ivl + hdr) ?x) (ivl + hdr) (unat len + 4) = ?x"
    using assms lx by (intro seg_store_same) simp_all
  have "fst (arcfour_encrypt (init (seg m hdr ivn)) ?x) = p @ le32_bytes (getcrc32 p)"
    using lp by (simp add: arcfour_encrypt_stream)
  then show ?thesis
    unfolding m' rc4_open_def iv x Let_def p_def [symmetric] using assms lx lp by simp
qed

text \<open>
  Conversely, sealing what was opened gives back the received frame if the ICV in it is the
  CRC of the payload.
\<close>

lemma rc4_seal_open:
  fixes init :: "bytes \<Rightarrow> arc4context" and m :: bytes and len :: u32 and ivn ivl hdr :: nat
  assumes "ivn \<le> ivl" and "hdr + ivl + 4 + unat len = length m"
  defines "m' \<equiv> rc4_open ivn init hdr ivl (unat len + 4) m"
  assumes icv: "seg m' (ivl + hdr + unat len) 4 = le32_bytes (getcrc32 (seg m' (ivl + hdr) (unat len)))"
  shows "rc4_seal ivn init hdr ivl len m' = m"
proof -
  let ?ks = "arcfour_stream (init (seg m hdr ivn)) (unat len + 4)"
  let ?c = "seg m (ivl + hdr) (unat len + 4)"
  let ?d = "xor_bytes ?c ?ks"
  have lc: "length ?c = unat len + 4" using assms(2) by simp
  have m': "m' = store m (ivl + hdr) ?d"
    using lc by (simp add: m'_def rc4_open_def arcfour_encrypt_stream)
  have d: "seg m' (ivl + hdr) (unat len + 4) = ?d"
    unfolding m' using assms(2) by (intro seg_store_same) simp_all
  have iv: "seg m' hdr ivn = seg m hdr ivn"
    unfolding m' using assms(1,2) by (intro seg_store_before) simp_all
  have "seg m' (ivl + hdr) (unat len) @ le32_bytes (getcrc32 (seg m' (ivl + hdr) (unat len))) = ?d"
    unfolding icv [symmetric] d [symmetric] by (simp add: seg_append_split)
  then have "rc4_seal ivn init hdr ivl len m' = store m' (ivl + hdr) (xor_bytes ?d ?ks)"
    by (simp add: rc4_seal_def Let_def iv)
  also have "xor_bytes ?d ?ks = ?c" using lc by simp
  also have "store m' (ivl + hdr) ?c = m"
    unfolding m' using assms(2) by simp
  finally show ?thesis .
qed

text \<open>Two memories that agree up to the frame's end give the same frame.\<close>

lemma rc4_seal_seg:
  assumes "ivn \<le> ivl" and "start + n \<le> length buf" and "n = hdr + ivl + 4 + unat len"
  shows "seg (seg buf start n) (ivl + hdr) (unat len) = seg buf (start + ivl + hdr) (unat len)"
  using assms by (simp add: seg_seg add.assoc)

end
