(* ===== verification/Wep.thy ===== *)
theory Wep
  imports Rc4Frame
begin

unbundle bit_operations_syntax

text \<open>
  WEP: \<open>rtw_wep_encrypt\<close> and \<open>rtw_wep_decrypt\<close> of \<open>core/rtw_security.c\<close>. The encryption of
  one fragment is \<open>wep_encrypt_mpdu\<close>, a function on the memory behind \<open>pframe\<close>; the walk
  over the fragments is \<open>each_fragment\<close>. The receiver recovers the payload and the ICV of
  every fragment. The receiver computes the ICV of what it decrypted, and throws it away:
  \<open>rtw_wep_decrypt\<close> has no result, so it accepts any payload.
\<close>

section \<open>The code\<close>

text \<open>The body of the fragment loop; \<open>m\<close> is the memory from \<open>pframe\<close> on.\<close>

definition wep_encrypt_mpdu :: "bytes \<Rightarrow> u32 \<Rightarrow> nat \<Rightarrow> nat \<Rightarrow> u32 \<Rightarrow> bytes \<Rightarrow> bytes" where
  "wep_encrypt_mpdu skey keylength hdr ivl len m =
     (let iv = seg m hdr 3;
          wepkey = iv @ take (unat keylength) skey;
          payload = ivl + hdr;
          crc = le32_bytes (getcrc32 (seg m payload (nat (sint len))));
          ctx = arcfour_init wepkey (3 + keylength);
          (data, ctx') = arcfour_encrypt ctx (seg m payload (unat len));
          m' = store m payload data;
          (icv, ctx'') = arcfour_encrypt ctx' crc
      in store m' (payload + unat len) icv)"

definition frag_length :: "u32 \<Rightarrow> pkt_attrib \<Rightarrow> u32" where
  "frag_length txcmdsz a = txcmdsz - ucast (hdrlen a) - ucast (iv_len a) - ucast (icv_len a)"

definition rtw_wep_encrypt ::
  "security_priv \<Rightarrow> u32 \<Rightarrow> xmit_frame \<Rightarrow> security_priv \<times> xmit_frame" where
  "rtw_wep_encrypt sec frag_len f =
     (case buf_addr f of
        None \<Rightarrow> (sec, f)
      | Some (base, buf) \<Rightarrow>
          (let a = attrib f in
           if encrypt a = WEP40 \<or> encrypt a = WEP104 then
             (let keyid = unat (dot11PrivacyKeyIndex sec);
                  keylength = dot11DefKeylen sec ! keyid;
                  skey = dot11DefKey sec ! keyid;
                  buf' = each_fragment
                    (wep_encrypt_mpdu skey keylength (unat (hdrlen a)) (unat (iv_len a)))
                    base frag_len (frag_length frag_len a) (frag_length (last_txcmdsz a) a)
                    (unat (nr_frags a)) TXDESC_OFFSET buf
              in (sec\<lparr>wep_sw_enc_cnt := sw_cnt_inc (ra a) (wep_sw_enc_cnt sec)\<rparr>,
                  f\<lparr>buf_addr := Some (base, buf')\<rparr>))
           else (sec, f)))"

text \<open>
  The ICV of the decrypted payload is computed into a local array that nothing reads, so
  it does not appear in the result.
\<close>

definition rtw_wep_decrypt :: "security_priv \<Rightarrow> recv_frame \<Rightarrow> security_priv \<times> recv_frame" where
  "rtw_wep_decrypt sec r =
     (let a = rx_attrib r in
      if rx_encrypt a = WEP40 \<or> rx_encrypt a = WEP104 then
        (let keyindex = unat (rx_key_index a);
             keylength = dot11DefKeylen sec ! keyindex;
             wepkey = seg (rx_data r) (unat (rx_hdrlen a)) 3
                      @ take (unat keylength) (dot11DefKey sec ! keyindex);
             len = rx_len r - ucast (rx_hdrlen a) - ucast (rx_iv_len a);
             payload = unat (rx_iv_len a) + unat (rx_hdrlen a);
             (data, ctx) = arcfour_encrypt (arcfour_init wepkey (3 + keylength))
                (seg (rx_data r) payload (unat len))
         in (sec\<lparr>wep_sw_dec_cnt := sw_cnt_inc (rx_ra a) (wep_sw_dec_cnt sec)\<rparr>,
             r\<lparr>rx_data := store (rx_data r) payload data\<rparr>))
      else (sec, r))"

section \<open>One fragment\<close>

definition wep_init :: "bytes \<Rightarrow> u32 \<Rightarrow> bytes \<Rightarrow> arc4context" where
  "wep_init skey keylength iv = arcfour_init (iv @ take (unat keylength) skey) (3 + keylength)"

lemma wep_encrypt_mpdu_seal:
  "unat len < 2 ^ 31 \<Longrightarrow> hdr + ivl + 4 + unat len \<le> length m \<Longrightarrow>
   wep_encrypt_mpdu skey kl hdr ivl len m = rc4_seal 3 (wep_init skey kl) hdr ivl len m"
  unfolding wep_encrypt_mpdu_def wep_init_def
  by (subst rc4_seal_two_calls [symmetric]) (simp_all add: Let_def)

interpretation wep: frame_cipher "wep_encrypt_mpdu skey kl hdr ivl" "hdr + ivl + 4" for skey kl hdr ivl
proof unfold_locales
  fix len :: u32 and m :: bytes
  assume a: "unat len < 2 ^ 31" "hdr + ivl + 4 + unat len \<le> length m"
  show "length (wep_encrypt_mpdu skey kl hdr ivl len m) = length m"
    using a by (simp add: wep_encrypt_mpdu_seal rc4_seal_length)
  show "wep_encrypt_mpdu skey kl hdr ivl len m =
      wep_encrypt_mpdu skey kl hdr ivl len (take (hdr + ivl + 4 + unat len) m)
      @ drop (hdr + ivl + 4 + unat len) m"
    using a rc4_seal_footprint [of 3 ivl hdr len m "wep_init skey kl"] by (simp add: wep_encrypt_mpdu_seal)
qed

text \<open>Software WEP round trip. A frame in one or more fragments is encrypted by
  rtw_wep_encrypt; whichever fragment the receiver gets, rtw_wep_decrypt with the same default
  key restores its header, IV and payload, followed by the CRC-32 of the payload as ICV.\<close>

lemma wep_roundtrip:
  fixes f :: xmit_frame and r :: recv_frame and sec rsec :: security_priv and fl :: u32
  defines "a \<equiv> attrib f" and "x \<equiv> rx_attrib r"
  defines "hdr \<equiv> unat (hdrlen (attrib f))" and "ivl \<equiv> unat (iv_len (attrib f))"
    and "nr \<equiv> unat (nr_frags (attrib f))"
    and "lm \<equiv> frag_length fl (attrib f)" and "ll \<equiv> frag_length (last_txcmdsz (attrib f)) (attrib f)"
    and "txid \<equiv> unat (dot11PrivacyKeyIndex sec)" and "rxid \<equiv> unat (rx_key_index (rx_attrib r))"
  assumes buf: "buf_addr f = Some (base, buf)"
    and alg: "encrypt a = WEP40 \<or> encrypt a = WEP104" and ralg: "rx_encrypt x = encrypt a"
    and ivl: "3 \<le> ivl"
    and fit: "frags_fit (hdr + ivl + 4) base fl lm ll nr TXDESC_OFFSET (length buf)"
    and i: "i < nr" and l: "l = (if Suc i = nr then ll else lm)"
    and start: "start = frag_start base fl i TXDESC_OFFSET"
    and key: "dot11DefKey rsec ! rxid = dot11DefKey sec ! txid"
    and keylen: "dot11DefKeylen rsec ! rxid = dot11DefKeylen sec ! txid"
    and rattr: "unat (rx_hdrlen x) = hdr" "unat (rx_iv_len x) = ivl"
    and air: "buf_addr (snd (rtw_wep_encrypt sec fl f)) = Some (base, buf')"
    and n: "n = hdr + ivl + 4 + unat l"
    and rx: "rx_len r = of_nat n" "rx_data r = seg buf' start n"
  shows "rx_data (snd (rtw_wep_decrypt rsec r)) =
    (let p = seg buf (start + ivl + hdr) (unat l)
     in store (seg buf start n) (ivl + hdr) (p @ le32_bytes (getcrc32 p)))"
proof -
  let ?skey = "dot11DefKey sec ! txid" and ?kl = "dot11DefKeylen sec ! txid"
  let ?init = "wep_init ?skey ?kl"
  have l31: "unat l < 2 ^ 31" using fit l by (simp add: frags_fit_def)
  have sz: "start + n \<le> length buf"
    unfolding start n using frags_fit_in [OF fit i l] by simp
  have buf': "buf' = each_fragment (wep_encrypt_mpdu ?skey ?kl hdr ivl) base fl lm ll nr TXDESC_OFFSET buf"
    using air buf alg
    by (simp add: rtw_wep_encrypt_def Let_def a_def hdr_def ivl_def nr_def lm_def ll_def txid_def)
  have "rx_data r = wep_encrypt_mpdu ?skey ?kl hdr ivl l (seg buf start n)"
    unfolding rx n start buf' by (rule wep.each_fragment_seg_all [OF fit i l])
  then have data: "rx_data r = rc4_seal 3 ?init hdr ivl l (seg buf start n)"
    using sz l31 by (simp add: wep_encrypt_mpdu_seal n)
  have len: "unat (rx_len r - ucast (rx_hdrlen x) - ucast (rx_iv_len x)) = unat l + 4"
    unfolding rx using l31 by (intro unat_rest_len) (simp_all add: n rattr)
  have "rx_data (snd (rtw_wep_decrypt rsec r)) = rc4_open 3 ?init hdr ivl (unat l + 4) (rx_data r)"
    using alg ralg len key keylen rattr
    by (simp add: rtw_wep_decrypt_def Let_def case_prod_unfold x_def rxid_def rc4_open_def wep_init_def)
  then show ?thesis
    unfolding data using sz ivl rc4_seal_seg [OF ivl sz n]
    by (simp add: rc4_open_seal n)
qed

text \<open>A frame of two fragments, with 8 and 1 bytes of payload.\<close>

definition wep_demo_frame :: xmit_frame where
  "wep_demo_frame = \<lparr>attrib = \<lparr>hdrlen = 24, last_txcmdsz = 33, nr_frags = 2, encrypt = WEP40,
     iv_len = 4, icv_len = 4, ta = replicate 6 2, ra = replicate 6 4, dot118021x_UncstKey = []\<rparr>,
     buf_addr = Some (0, replicate 113 7)\<rparr>"

definition wep_demo_sec :: security_priv where
  "wep_demo_sec = (let c = \<lparr>cnt_bc = 0, cnt_mc = 0, cnt_uc = 0\<rparr> in
     \<lparr>dot11PrivacyAlgrthm = 1, dot11PrivacyKeyIndex = 0, dot11DefKey = replicate 4 (replicate 16 9),
      dot11DefKeylen = replicate 4 5, dot118021XGrpKeyid = 1, dot118021XGrpKey = replicate 4 (replicate 16 3),
      binstallGrpkey = True, btkip_countermeasure = False, btkip_countermeasure_time = 0,
      wep_sw_enc_cnt = c, wep_sw_dec_cnt = c, tkip_sw_enc_cnt = c, tkip_sw_dec_cnt = c,
      aes_sw_enc_cnt = c, aes_sw_dec_cnt = c\<rparr>)"

definition wep_demo_air :: bytes where
  "wep_demo_air = snd (the (buf_addr (snd (rtw_wep_encrypt wep_demo_sec 40 wep_demo_frame))))"

definition wep_demo_rx :: recv_frame where
  "wep_demo_rx = \<lparr>rx_attrib = \<lparr>rx_hdrlen = 24, rx_encrypt = WEP40, rx_iv_len = 4, rx_icv_len = 4,
     rx_key_index = 0, rx_ta = replicate 6 2, rx_ra = replicate 6 4\<rparr>, rx_len = 40,
     rx_data = seg wep_demo_air 40 40\<rparr>"

lemma wep_roundtrip_witness:
  "rx_data (snd (rtw_wep_decrypt wep_demo_sec wep_demo_rx)) =
     (let p = seg (replicate 113 7) 68 8
      in store (seg (replicate 113 7) 40 40) 28 (p @ le32_bytes (getcrc32 p)))"
proof -
  let ?a = "attrib wep_demo_frame" and ?x = "rx_attrib wep_demo_rx"
  have a: "hdrlen ?a = 24" "iv_len ?a = 4" "nr_frags ?a = 2" "encrypt ?a = WEP40"
    "frag_length 40 ?a = 8" "frag_length (last_txcmdsz ?a) ?a = 1"
    "buf_addr wep_demo_frame = Some (0, replicate 113 7)"
    by (simp_all add: wep_demo_frame_def frag_length_def)
  have x: "rx_encrypt ?x = WEP40" "rx_hdrlen ?x = 24" "rx_iv_len ?x = 4" "rx_key_index ?x = 0"
    "rx_len wep_demo_rx = 40" "rx_data wep_demo_rx = seg wep_demo_air 40 40"
    by (simp_all add: wep_demo_rx_def)
  have s: "dot11PrivacyKeyIndex wep_demo_sec = 0"
    by (simp add: wep_demo_sec_def Let_def)
  have air: "buf_addr (snd (rtw_wep_encrypt wep_demo_sec 40 wep_demo_frame)) = Some (0, wep_demo_air)"
    by (simp add: wep_demo_air_def rtw_wep_encrypt_def a Let_def)
  have fit: "frags_fit 32 0 40 8 1 2 TXDESC_OFFSET 113"
    by (simp add: frags_fit_def TXDESC_OFFSET_def next_pframe_def RND4_def)
  have "rx_data (snd (rtw_wep_decrypt wep_demo_sec wep_demo_rx)) =
     (let p = seg (replicate 113 7) (40 + unat (iv_len ?a) + unat (hdrlen ?a)) (unat (8 :: u32))
      in store (seg (replicate 113 7) 40 40) (unat (iv_len ?a) + unat (hdrlen ?a))
           (p @ le32_bytes (getcrc32 p)))"
  proof (rule wep_roundtrip [where f = wep_demo_frame and r = wep_demo_rx and sec = wep_demo_sec
        and rsec = wep_demo_sec and fl = 40 and i = 0 and l = 8 and n = 40 and start = 40
        and base = 0 and buf = "replicate 113 7" and buf' = wep_demo_air])
    show "frags_fit (unat (hdrlen ?a) + unat (iv_len ?a) + 4) 0 40 (frag_length 40 ?a)
       (frag_length (last_txcmdsz ?a) ?a) (unat (nr_frags ?a)) TXDESC_OFFSET (length (replicate 113 (7::u8)))"
      using fit by (simp add: a)
  qed (simp_all add: a x s air TXDESC_OFFSET_def)
  then show ?thesis by (simp add: a)
qed

end
