(* ===== verification/Tkip.thy ===== *)
theory Tkip
  imports Wep
begin

unbundle bit_operations_syntax

text \<open>
  TKIP: the two-phase key mixing (\<open>phase1\<close>, \<open>phase2\<close>), \<open>rtw_tkip_encrypt\<close> and
  \<open>rtw_tkip_decrypt\<close> of \<open>core/rtw_security.c\<close>. The file proves that the per-packet RC4 key
  determines transmitter address and packet number for a fixed temporal key, that the key
  avoids the weak second byte, that the second S-box is the byte-swapped first, that the
  receiver recovers every fragment the sender made, and that it reports success exactly
  when the decrypted ICV is the CRC-32 of the decrypted payload.
\<close>

section \<open>Tables\<close>

definition Sbox1_0 :: "u16 list" where
  "Sbox1_0 = [
     0xC6A5, 0xF884, 0xEE99, 0xF68D, 0xFF0D, 0xD6BD, 0xDEB1, 0x9154,
     0x6050, 0x0203, 0xCEA9, 0x567D, 0xE719, 0xB562, 0x4DE6, 0xEC9A,
     0x8F45, 0x1F9D, 0x8940, 0xFA87, 0xEF15, 0xB2EB, 0x8EC9, 0xFB0B,
     0x41EC, 0xB367, 0x5FFD, 0x45EA, 0x23BF, 0x53F7, 0xE496, 0x9B5B,
     0x75C2, 0xE11C, 0x3DAE, 0x4C6A, 0x6C5A, 0x7E41, 0xF502, 0x834F,
     0x685C, 0x51F4, 0xD134, 0xF908, 0xE293, 0xAB73, 0x6253, 0x2A3F,
     0x080C, 0x9552, 0x4665, 0x9D5E, 0x3028, 0x37A1, 0x0A0F, 0x2FB5,
     0x0E09, 0x2436, 0x1B9B, 0xDF3D, 0xCD26, 0x4E69, 0x7FCD, 0xEA9F,
     0x121B, 0x1D9E, 0x5874, 0x342E, 0x362D, 0xDCB2, 0xB4EE, 0x5BFB,
     0xA4F6, 0x764D, 0xB761, 0x7DCE, 0x527B, 0xDD3E, 0x5E71, 0x1397,
     0xA6F5, 0xB968, 0x0000, 0xC12C, 0x4060, 0xE31F, 0x79C8, 0xB6ED,
     0xD4BE, 0x8D46, 0x67D9, 0x724B, 0x94DE, 0x98D4, 0xB0E8, 0x854A,
     0xBB6B, 0xC52A, 0x4FE5, 0xED16, 0x86C5, 0x9AD7, 0x6655, 0x1194,
     0x8ACF, 0xE910, 0x0406, 0xFE81, 0xA0F0, 0x7844, 0x25BA, 0x4BE3,
     0xA2F3, 0x5DFE, 0x80C0, 0x058A, 0x3FAD, 0x21BC, 0x7048, 0xF104,
     0x63DF, 0x77C1, 0xAF75, 0x4263, 0x2030, 0xE51A, 0xFD0E, 0xBF6D,
     0x814C, 0x1814, 0x2635, 0xC32F, 0xBEE1, 0x35A2, 0x88CC, 0x2E39,
     0x9357, 0x55F2, 0xFC82, 0x7A47, 0xC8AC, 0xBAE7, 0x322B, 0xE695,
     0xC0A0, 0x1998, 0x9ED1, 0xA37F, 0x4466, 0x547E, 0x3BAB, 0x0B83,
     0x8CCA, 0xC729, 0x6BD3, 0x283C, 0xA779, 0xBCE2, 0x161D, 0xAD76,
     0xDB3B, 0x6456, 0x744E, 0x141E, 0x92DB, 0x0C0A, 0x486C, 0xB8E4,
     0x9F5D, 0xBD6E, 0x43EF, 0xC4A6, 0x39A8, 0x31A4, 0xD337, 0xF28B,
     0xD532, 0x8B43, 0x6E59, 0xDAB7, 0x018C, 0xB164, 0x9CD2, 0x49E0,
     0xD8B4, 0xACFA, 0xF307, 0xCF25, 0xCAAF, 0xF48E, 0x47E9, 0x1018,
     0x6FD5, 0xF088, 0x4A6F, 0x5C72, 0x3824, 0x57F1, 0x73C7, 0x9751,
     0xCB23, 0xA17C, 0xE89C, 0x3E21, 0x96DD, 0x61DC, 0x0D86, 0x0F85,
     0xE090, 0x7C42, 0x71C4, 0xCCAA, 0x90D8, 0x0605, 0xF701, 0x1C12,
     0xC2A3, 0x6A5F, 0xAEF9, 0x69D0, 0x1791, 0x9958, 0x3A27, 0x27B9,
     0xD938, 0xEB13, 0x2BB3, 0x2233, 0xD2BB, 0xA970, 0x0789, 0x33A7,
     0x2DB6, 0x3C22, 0x1592, 0xC920, 0x8749, 0xAAFF, 0x5078, 0xA57A,
     0x038F, 0x59F8, 0x0980, 0x1A17, 0x65DA, 0xD731, 0x84C6, 0xD0B8,
     0x82C3, 0x29B0, 0x5A77, 0x1E11, 0x7BCB, 0xA8FC, 0x6DD6, 0x2C3A]"

text \<open>The second half of the two-dimensional array of the source.\<close>

definition Sbox1_1 :: "u16 list" where
  "Sbox1_1 = [
     0xA5C6, 0x84F8, 0x99EE, 0x8DF6, 0x0DFF, 0xBDD6, 0xB1DE, 0x5491,
     0x5060, 0x0302, 0xA9CE, 0x7D56, 0x19E7, 0x62B5, 0xE64D, 0x9AEC,
     0x458F, 0x9D1F, 0x4089, 0x87FA, 0x15EF, 0xEBB2, 0xC98E, 0x0BFB,
     0xEC41, 0x67B3, 0xFD5F, 0xEA45, 0xBF23, 0xF753, 0x96E4, 0x5B9B,
     0xC275, 0x1CE1, 0xAE3D, 0x6A4C, 0x5A6C, 0x417E, 0x02F5, 0x4F83,
     0x5C68, 0xF451, 0x34D1, 0x08F9, 0x93E2, 0x73AB, 0x5362, 0x3F2A,
     0x0C08, 0x5295, 0x6546, 0x5E9D, 0x2830, 0xA137, 0x0F0A, 0xB52F,
     0x090E, 0x3624, 0x9B1B, 0x3DDF, 0x26CD, 0x694E, 0xCD7F, 0x9FEA,
     0x1B12, 0x9E1D, 0x7458, 0x2E34, 0x2D36, 0xB2DC, 0xEEB4, 0xFB5B,
     0xF6A4, 0x4D76, 0x61B7, 0xCE7D, 0x7B52, 0x3EDD, 0x715E, 0x9713,
     0xF5A6, 0x68B9, 0x0000, 0x2CC1, 0x6040, 0x1FE3, 0xC879, 0xEDB6,
     0xBED4, 0x468D, 0xD967, 0x4B72, 0xDE94, 0xD498, 0xE8B0, 0x4A85,
     0x6BBB, 0x2AC5, 0xE54F, 0x16ED, 0xC586, 0xD79A, 0x5566, 0x9411,
     0xCF8A, 0x10E9, 0x0604, 0x81FE, 0xF0A0, 0x4478, 0xBA25, 0xE34B,
     0xF3A2, 0xFE5D, 0xC080, 0x8A05, 0xAD3F, 0xBC21, 0x4870, 0x04F1,
     0xDF63, 0xC177, 0x75AF, 0x6342, 0x3020, 0x1AE5, 0x0EFD, 0x6DBF,
     0x4C81, 0x1418, 0x3526, 0x2FC3, 0xE1BE, 0xA235, 0xCC88, 0x392E,
     0x5793, 0xF255, 0x82FC, 0x477A, 0xACC8, 0xE7BA, 0x2B32, 0x95E6,
     0xA0C0, 0x9819, 0xD19E, 0x7FA3, 0x6644, 0x7E54, 0xAB3B, 0x830B,
     0xCA8C, 0x29C7, 0xD36B, 0x3C28, 0x79A7, 0xE2BC, 0x1D16, 0x76AD,
     0x3BDB, 0x5664, 0x4E74, 0x1E14, 0xDB92, 0x0A0C, 0x6C48, 0xE4B8,
     0x5D9F, 0x6EBD, 0xEF43, 0xA6C4, 0xA839, 0xA431, 0x37D3, 0x8BF2,
     0x32D5, 0x438B, 0x596E, 0xB7DA, 0x8C01, 0x64B1, 0xD29C, 0xE049,
     0xB4D8, 0xFAAC, 0x07F3, 0x25CF, 0xAFCA, 0x8EF4, 0xE947, 0x1810,
     0xD56F, 0x88F0, 0x6F4A, 0x725C, 0x2438, 0xF157, 0xC773, 0x5197,
     0x23CB, 0x7CA1, 0x9CE8, 0x213E, 0xDD96, 0xDC61, 0x860D, 0x850F,
     0x90E0, 0x427C, 0xC471, 0xAACC, 0xD890, 0x0506, 0x01F7, 0x121C,
     0xA3C2, 0x5F6A, 0xF9AE, 0xD069, 0x9117, 0x5899, 0x273A, 0xB927,
     0x38D9, 0x13EB, 0xB32B, 0x3322, 0xBBD2, 0x70A9, 0x8907, 0xA733,
     0xB62D, 0x223C, 0x9215, 0x20C9, 0x4987, 0xFFAA, 0x7850, 0x7AA5,
     0x8F03, 0xF859, 0x8009, 0x171A, 0xDA65, 0x31D7, 0xC684, 0xB8D0,
     0xC382, 0xB029, 0x775A, 0x111E, 0xCB7B, 0xFCA8, 0xD66D, 0x3A2C]"

section \<open>Key mixing\<close>

definition RotR1 :: "u16 \<Rightarrow> u16" where
  "RotR1 v = (drop_bit 1 v AND 0x7FFF) XOR push_bit 15 (v AND 1)"

definition Lo8 :: "u16 \<Rightarrow> u8" where
  "Lo8 v = ucast (v AND 0x00FF)"

definition Hi8 :: "u16 \<Rightarrow> u8" where
  "Hi8 v = ucast (drop_bit 8 v AND 0x00FF)"

definition Lo16 :: "u32 \<Rightarrow> u16" where
  "Lo16 v = ucast (v AND 0xFFFF)"

definition Hi16 :: "u32 \<Rightarrow> u16" where
  "Hi16 v = ucast (drop_bit 16 v AND 0xFFFF)"

definition Mk16 :: "u8 \<Rightarrow> u8 \<Rightarrow> u16" where
  "Mk16 hi lo = ucast lo XOR push_bit 8 (ucast hi)"

definition TK16 :: "bytes \<Rightarrow> nat \<Rightarrow> u16" where
  "TK16 tk n = Mk16 (tk ! (2 * n + 1)) (tk ! (2 * n))"

definition SBOX :: "u16 \<Rightarrow> u16" where
  "SBOX v = Sbox1_0 ! unat (Lo8 v) XOR Sbox1_1 ! unat (Hi8 v)"

type_synonym p1k = "u16 \<times> u16 \<times> u16 \<times> u16 \<times> u16"

text \<open>One turn of the loop of \<open>phase1\<close>.\<close>

fun phase1_round :: "bytes \<Rightarrow> nat \<Rightarrow> p1k \<Rightarrow> p1k" where
  "phase1_round tk i (p0, p1, p2, p3, p4) =
     (let b = i mod 2;
          p0 = p0 + SBOX (p4 XOR TK16 tk (b + 0));
          p1 = p1 + SBOX (p0 XOR TK16 tk (b + 2));
          p2 = p2 + SBOX (p1 XOR TK16 tk (b + 4));
          p3 = p3 + SBOX (p2 XOR TK16 tk (b + 6));
          p4 = p4 + SBOX (p3 XOR TK16 tk (b + 0));
          p4 = p4 + of_nat i
      in (p0, p1, p2, p3, p4))"

definition phase1 :: "bytes \<Rightarrow> bytes \<Rightarrow> u32 \<Rightarrow> p1k" where
  "phase1 tk taddr iv32 =
     fold (phase1_round tk) [0..<8]
       (Lo16 iv32, Hi16 iv32, Mk16 (taddr ! 1) (taddr ! 0), Mk16 (taddr ! 3) (taddr ! 2),
        Mk16 (taddr ! 5) (taddr ! 4))"

type_synonym ppk = "u16 \<times> u16 \<times> u16 \<times> u16 \<times> u16 \<times> u16"

definition phase2_start :: "p1k \<Rightarrow> u16 \<Rightarrow> ppk" where
  "phase2_start = (\<lambda>(p0, p1, p2, p3, p4) iv16. (p0, p1, p2, p3, p4, p4 + iv16))"

definition phase2_mix :: "bytes \<Rightarrow> ppk \<Rightarrow> ppk" where
  "phase2_mix tk = (\<lambda>(p0, p1, p2, p3, p4, p5).
     let p0 = p0 + SBOX (p5 XOR TK16 tk 0);
         p1 = p1 + SBOX (p0 XOR TK16 tk 1);
         p2 = p2 + SBOX (p1 XOR TK16 tk 2);
         p3 = p3 + SBOX (p2 XOR TK16 tk 3);
         p4 = p4 + SBOX (p3 XOR TK16 tk 4);
         p5 = p5 + SBOX (p4 XOR TK16 tk 5);
         p0 = p0 + RotR1 (p5 XOR TK16 tk 6);
         p1 = p1 + RotR1 (p0 XOR TK16 tk 7);
         p2 = p2 + RotR1 p1;
         p3 = p3 + RotR1 p2;
         p4 = p4 + RotR1 p3;
         p5 = p5 + RotR1 p4
     in (p0, p1, p2, p3, p4, p5))"

definition phase2_key :: "bytes \<Rightarrow> u16 \<Rightarrow> ppk \<Rightarrow> bytes" where
  "phase2_key tk iv16 = (\<lambda>(p0, p1, p2, p3, p4, p5).
     [Hi8 iv16, (Hi8 iv16 OR 0x20) AND 0x7F, Lo8 iv16, Lo8 (drop_bit 1 (p5 XOR TK16 tk 0)),
      Lo8 p0, Hi8 p0, Lo8 p1, Hi8 p1, Lo8 p2, Hi8 p2, Lo8 p3, Hi8 p3, Lo8 p4, Hi8 p4, Lo8 p5, Hi8 p5])"

definition phase2 :: "bytes \<Rightarrow> p1k \<Rightarrow> u16 \<Rightarrow> bytes" where
  "phase2 tk p1k iv16 = phase2_key tk iv16 (phase2_mix tk (phase2_start p1k iv16))"

text \<open>\<open>GET_TKIP_PN\<close> and the two halves the callers take of it: \<open>pnl\<close> and \<open>pnh\<close>.\<close>

definition tkip_pnl :: "bytes \<Rightarrow> u16" where
  "tkip_pnl iv = le16 (iv ! 2) (iv ! 0)"

definition tkip_pnh :: "bytes \<Rightarrow> u32" where
  "tkip_pnh iv = ucast (iv ! 4) OR push_bit 8 (ucast (iv ! 5)) OR push_bit 16 (ucast (iv ! 6))
     OR push_bit 24 (ucast (iv ! 7))"

definition tkip_rc4key :: "bytes \<Rightarrow> bytes \<Rightarrow> bytes \<Rightarrow> bytes" where
  "tkip_rc4key key addr iv = phase2 key (phase1 key addr (tkip_pnh iv)) (tkip_pnl iv)"

section \<open>Encryption and decryption\<close>

definition tkip_encrypt_mpdu :: "bytes \<Rightarrow> bytes \<Rightarrow> nat \<Rightarrow> nat \<Rightarrow> u32 \<Rightarrow> bytes \<Rightarrow> bytes" where
  "tkip_encrypt_mpdu prwskey addr hdr ivl len m =
     (let iv = seg m hdr 8;
          payload = ivl + hdr;
          rc4key = tkip_rc4key prwskey addr iv;
          crc = le32_bytes (getcrc32 (seg m payload (nat (sint len))));
          ctx = arcfour_init rc4key 16;
          (data, ctx') = arcfour_encrypt ctx (seg m payload (unat len));
          m' = store m payload data;
          (icv, ctx'') = arcfour_encrypt ctx' crc
      in store m' (payload + unat len) icv)"

definition rtw_tkip_encrypt ::
  "security_priv \<Rightarrow> u32 \<Rightarrow> xmit_frame \<Rightarrow> result \<times> security_priv \<times> xmit_frame" where
  "rtw_tkip_encrypt sec frag_len f =
     (case buf_addr f of
        None \<Rightarrow> (Fail, sec, f)
      | Some (base, buf) \<Rightarrow>
          (let a = attrib f in
           if encrypt a = TKIP then
             (let prwskey = (if IS_MCAST (ra a)
                             then dot118021XGrpKey sec ! unat (dot118021XGrpKeyid sec)
                             else dot118021x_UncstKey a);
                  buf' = each_fragment
                    (tkip_encrypt_mpdu prwskey (ta a) (unat (hdrlen a)) (unat (iv_len a)))
                    base frag_len (frag_length frag_len a) (frag_length (last_txcmdsz a) a)
                    (unat (nr_frags a)) TXDESC_OFFSET buf
              in (Success, sec\<lparr>tkip_sw_enc_cnt := sw_cnt_inc (ra a) (tkip_sw_enc_cnt sec)\<rparr>,
                  f\<lparr>buf_addr := Some (base, buf')\<rparr>))
           else (Success, sec, f)))"

text \<open>
  \<open>find_sta\<close> is \<open>rtw_get_stainfo\<close> followed by the selection of the pairwise key of the
  station. The static counters of frames that came before the group key only feed a debug
  message and are left out.
\<close>

definition rtw_tkip_decrypt ::
  "(bytes \<Rightarrow> bytes option) \<Rightarrow> security_priv \<Rightarrow> recv_frame \<Rightarrow> result \<times> security_priv \<times> recv_frame" where
  "rtw_tkip_decrypt find_sta sec r =
     (let a = rx_attrib r in
      if rx_encrypt a = TKIP then
        (case find_sta (rx_ta a) of
           None \<Rightarrow> (Fail, sec, r)
         | Some uncst \<Rightarrow>
             if IS_MCAST (rx_ra a) \<and> \<not> binstallGrpkey sec then (Fail, sec, r)
             else
               (let prwskey = (if IS_MCAST (rx_ra a) then dot118021XGrpKey sec ! unat (rx_key_index a)
                               else uncst);
                    iv = seg (rx_data r) (unat (rx_hdrlen a)) 8;
                    payload = unat (rx_iv_len a) + unat (rx_hdrlen a);
                    len = rx_len r - ucast (rx_hdrlen a) - ucast (rx_iv_len a);
                    rc4key = tkip_rc4key prwskey (rx_ta a) iv;
                    (data, ctx) = arcfour_encrypt (arcfour_init rc4key 16) (seg (rx_data r) payload (unat len));
                    m = store (rx_data r) payload data;
                    crc = le32_bytes (getcrc32 (seg m payload (nat (sint (len - 4)))));
                    n = payload + unat len;
                    res = (if crc ! 3 \<noteq> m ! (n - 1) \<or> crc ! 2 \<noteq> m ! (n - 2) \<or>
                              crc ! 1 \<noteq> m ! (n - 3) \<or> crc ! 0 \<noteq> m ! (n - 4)
                           then Fail else Success)
                in (res, sec\<lparr>tkip_sw_dec_cnt := sw_cnt_inc (rx_ra a) (tkip_sw_dec_cnt sec)\<rparr>,
                    r\<lparr>rx_data := m\<rparr>)))
      else (Success, sec, r))"

section \<open>The per-packet key\<close>

lemma phase1_round_inj: "phase1_round tk i s = phase1_round tk i s' \<Longrightarrow> s = s'"
  by (cases s; cases s') (auto simp: Let_def phase1_round.simps)

declare phase1_round.simps [simp del]

lemma phase1_fold_inj:
  "fold (phase1_round tk) is s = fold (phase1_round tk) is s' \<Longrightarrow> s = s'"
proof (induction "is" arbitrary: s s')
  case (Cons i "is")
  then have "phase1_round tk i s = phase1_round tk i s'" by simp
  then show ?case by (rule phase1_round_inj)
qed simp

lemma bit_u8_u16: "bit (ucast (b :: u8) :: u16) n \<longleftrightarrow> bit b n \<and> n < 8"
  using bit_imp_le_length [of b n] by (auto simp: bit_ucast_iff)

lemma Mk16_bit: "bit (Mk16 hi lo) n \<longleftrightarrow> (if n < 8 then bit lo n else bit hi (n - 8))"
  using bit_imp_le_length [of hi "n - 8"]
  by (auto simp: Mk16_def bit_xor_iff bit_push_bit_iff bit_u8_u16)

lemma Mk16_inj: "Mk16 hi lo = Mk16 hi' lo' \<Longrightarrow> hi = hi' \<and> lo = lo'"
proof
  assume eq: "Mk16 hi lo = Mk16 hi' lo'"
  show "hi = hi'"
  proof (rule bit_word_eqI)
    fix n assume "n < LENGTH(8)"
    then show "bit hi n = bit hi' n"
      using Mk16_bit [of hi lo "n + 8"] Mk16_bit [of hi' lo' "n + 8"] eq by simp
  qed
  show "lo = lo'"
  proof (rule bit_word_eqI)
    fix n assume "n < LENGTH(8)"
    then show "bit lo n = bit lo' n"
      using Mk16_bit [of hi lo n] Mk16_bit [of hi' lo' n] eq by simp
  qed
qed

lemma bit_ff_int: "bit (0xff :: int) n \<longleftrightarrow> n < 8"
  using bit_mask_iff [where 'a = int, of 8 n] by (simp add: mask_eq_exp_minus_1)

lemma bit_ffff_int: "bit (0xffff :: int) n \<longleftrightarrow> n < 16"
  using bit_mask_iff [where 'a = int, of 16 n] by (simp add: mask_eq_exp_minus_1)

lemma Lo8_Hi8_inj: "Lo8 v = Lo8 w \<Longrightarrow> Hi8 v = Hi8 w \<Longrightarrow> v = w"
proof (rule bit_word_eqI)
  fix n
  assume eq: "Lo8 v = Lo8 w" "Hi8 v = Hi8 w" and n: "n < LENGTH(16)"
  have lo: "bit (Lo8 u) k \<longleftrightarrow> bit u k" if "k < 8" for u k
    using that by (simp add: Lo8_def bit_ucast_iff bit_and_iff bit_ff_int)
  have hi: "bit (Hi8 u) k \<longleftrightarrow> bit u (8 + k)" if "k < 8" for u k
    using that by (simp add: Hi8_def bit_ucast_iff bit_and_iff bit_ff_int bit_drop_bit_eq)
  show "bit v n = bit w n"
  proof (cases "n < 8")
    case True
    then show ?thesis using lo [of n v] lo [of n w] eq by simp
  next
    case False
    then show ?thesis using hi [of "n - 8" v] hi [of "n - 8" w] eq n by simp
  qed
qed

lemma Lo16_Hi16_inj: "Lo16 v = Lo16 w \<Longrightarrow> Hi16 v = Hi16 w \<Longrightarrow> v = w"
proof (rule bit_word_eqI)
  fix n
  assume eq: "Lo16 v = Lo16 w" "Hi16 v = Hi16 w" and n: "n < LENGTH(32)"
  have lo: "bit (Lo16 u) k \<longleftrightarrow> bit u k" if "k < 16" for u k
    using that by (simp add: Lo16_def bit_ucast_iff bit_and_iff bit_ffff_int)
  have hi: "bit (Hi16 u) k \<longleftrightarrow> bit u (16 + k)" if "k < 16" for u k
    using that by (simp add: Hi16_def bit_ucast_iff bit_and_iff bit_ffff_int bit_drop_bit_eq)
  show "bit v n = bit w n"
  proof (cases "n < 16")
    case True
    then show ?thesis using lo [of n v] lo [of n w] eq by simp
  next
    case False
    then show ?thesis using hi [of "n - 16" v] hi [of "n - 16" w] eq n by simp
  qed
qed

lemma phase2_start_inj: "phase2_start p i = phase2_start q j \<Longrightarrow> p = q \<and> i = j"
  by (auto simp: phase2_start_def split: prod.splits)

lemma phase2_mix_inj: "phase2_mix tk s = phase2_mix tk s' \<Longrightarrow> s = s'"
  by (cases s; cases s') (auto simp: phase2_mix_def Let_def)

lemma phase2_key_inj: "phase2_key tk i s = phase2_key tk j s' \<Longrightarrow> s = s'"
  by (cases s; cases s') (auto simp: phase2_key_def dest: Lo8_Hi8_inj)

lemma length_phase2 [simp]: "length (phase2 tk p1k iv16) = 16"
  by (simp add: phase2_def phase2_key_def split: prod.splits)

text \<open>For a fixed temporal key the 16-byte RC4 key of a packet determines the
  transmitter address and the 48-bit packet number: no two packets of a station, and no two
  stations, share an RC4 key, whatever the S-boxes contain.\<close>

lemma tkip_rc4key_unique:
  assumes "phase2 tk (phase1 tk addr iv32) iv16 = phase2 tk (phase1 tk addr' iv32') iv16'"
    and "length addr = 6" and "length addr' = 6"
  shows "addr = addr' \<and> iv32 = iv32' \<and> iv16 = iv16'"
proof -
  from assms(1) have "phase2_start (phase1 tk addr iv32) iv16 = phase2_start (phase1 tk addr' iv32') iv16'"
    unfolding phase2_def by (rule phase2_mix_inj [OF phase2_key_inj])
  then have p1: "phase1 tk addr iv32 = phase1 tk addr' iv32'" and iv16: "iv16 = iv16'"
    by (auto dest: phase2_start_inj)
  from p1 have start: "(Lo16 iv32, Hi16 iv32, Mk16 (addr ! 1) (addr ! 0), Mk16 (addr ! 3) (addr ! 2),
        Mk16 (addr ! 5) (addr ! 4)) = (Lo16 iv32', Hi16 iv32', Mk16 (addr' ! 1) (addr' ! 0),
        Mk16 (addr' ! 3) (addr' ! 2), Mk16 (addr' ! 5) (addr' ! 4))"
    unfolding phase1_def by (rule phase1_fold_inj)
  then have iv32: "iv32 = iv32'" by (auto intro: Lo16_Hi16_inj)
  have "addr ! k = addr' ! k" if "k < 6" for k
  proof -
    have "addr ! 0 = addr' ! 0" "addr ! 1 = addr' ! 1" "addr ! 2 = addr' ! 2" "addr ! 3 = addr' ! 3"
      "addr ! 4 = addr' ! 4" "addr ! 5 = addr' ! 5"
      using start Mk16_inj by (metis prod.inject)+
    moreover have "k = 0 \<or> k = 1 \<or> k = 2 \<or> k = 3 \<or> k = 4 \<or> k = 5" using that by arith
    ultimately show ?thesis by (elim disjE) simp_all
  qed
  then have "addr = addr'" using assms(2,3) by (intro nth_equalityI) simp_all
  with iv32 iv16 show ?thesis by simp
qed

lemma tkip_rc4key_unique_witness:
  "phase2 (replicate 16 7) (phase1 (replicate 16 7) [1, 2, 3, 4, 5, 6] 9) 4 \<noteq>
   phase2 (replicate 16 7) (phase1 (replicate 16 7) [1, 2, 3, 4, 5, 6] 9) 5"
proof
  assume "phase2 (replicate 16 7) (phase1 (replicate 16 7) [1, 2, 3, 4, 5, 6] 9) 4 =
   phase2 (replicate 16 7) (phase1 (replicate 16 7) [1, 2, 3, 4, 5, 6] 9) 5"
  from tkip_rc4key_unique [OF this] show False by simp
qed

section \<open>One fragment\<close>

definition tkip_init :: "bytes \<Rightarrow> bytes \<Rightarrow> bytes \<Rightarrow> arc4context" where
  "tkip_init key addr iv = arcfour_init (tkip_rc4key key addr iv) 16"

lemma tkip_encrypt_mpdu_seal:
  "unat len < 2 ^ 31 \<Longrightarrow> hdr + ivl + 4 + unat len \<le> length m \<Longrightarrow>
   tkip_encrypt_mpdu key addr hdr ivl len m = rc4_seal 8 (tkip_init key addr) hdr ivl len m"
  unfolding tkip_encrypt_mpdu_def tkip_init_def
  by (subst rc4_seal_two_calls [symmetric]) (simp_all add: Let_def)

text \<open>\<open>SET_ICE_IV_LEN\<close> gives TKIP an IV of 8 bytes.\<close>

interpretation tkip: frame_cipher "tkip_encrypt_mpdu key addr hdr 8" "hdr + 8 + 4" for key addr hdr
proof unfold_locales
  fix len :: u32 and m :: bytes
  assume a: "unat len < 2 ^ 31" "hdr + 8 + 4 + unat len \<le> length m"
  show "length (tkip_encrypt_mpdu key addr hdr 8 len m) = length m"
    using a by (simp add: tkip_encrypt_mpdu_seal rc4_seal_length)
  show "tkip_encrypt_mpdu key addr hdr 8 len m =
      tkip_encrypt_mpdu key addr hdr 8 len (take (hdr + 8 + 4 + unat len) m)
      @ drop (hdr + 8 + 4 + unat len) m"
    using a rc4_seal_footprint [of 8 8 hdr len m "tkip_init key addr"] by (simp add: tkip_encrypt_mpdu_seal)
qed

text \<open>The key the receiver uses, when it has one.\<close>

definition tkip_rx_key :: "(bytes \<Rightarrow> bytes option) \<Rightarrow> security_priv \<Rightarrow> rx_pkt_attrib \<Rightarrow> bytes option" where
  "tkip_rx_key find_sta sec a =
     (case find_sta (rx_ta a) of
        None \<Rightarrow> None
      | Some uncst \<Rightarrow>
          if IS_MCAST (rx_ra a) then
            (if binstallGrpkey sec then Some (dot118021XGrpKey sec ! unat (rx_key_index a)) else None)
          else Some uncst)"

lemma four_bytes_eq:
  assumes "length c = 4" and "n = k + 4" and "n \<le> length m"
  shows "(c ! 3 \<noteq> m ! (n - 1) \<or> c ! 2 \<noteq> m ! (n - 2) \<or> c ! 1 \<noteq> m ! (n - 3) \<or> c ! 0 \<noteq> m ! (n - 4))
     \<longleftrightarrow> seg m k 4 \<noteq> c"
proof -
  have "seg m k 4 = [m ! k, m ! (k + 1), m ! (k + 2), m ! (k + 3)]"
    using assms(2,3) by (intro nth_equalityI) (auto simp: less_Suc_eq eval_nat_numeral)
  moreover from assms(1) obtain c0 c1 c2 c3 where "c = [c0, c1, c2, c3]"
    by (auto simp: length_Suc_conv eval_nat_numeral)
  ultimately show ?thesis using assms(2) by (auto simp: add.commute [of 3])
qed

lemma tkip_decrypt_open:
  fixes len :: u32
  assumes enc: "rx_encrypt a = TKIP" and key: "tkip_rx_key find_sta sec a = Some k" and a: "a = rx_attrib r"
    and hdr: "unat (rx_hdrlen a) = hdr" and ivl: "rx_iv_len a = 8"
    and len: "unat len < 2 ^ 31" and n: "n = hdr + 8 + 4 + unat len"
    and rx: "rx_len r = of_nat n" "length (rx_data r) = n"
  defines "m \<equiv> rc4_open 8 (tkip_init k (rx_ta a)) hdr 8 (unat len + 4) (rx_data r)"
  shows "rx_data (snd (snd (rtw_tkip_decrypt find_sta sec r))) = m"
    and "fst (rtw_tkip_decrypt find_sta sec r) =
      (if seg m (8 + hdr + unat len) 4 = le32_bytes (getcrc32 (seg m (8 + hdr) (unat len)))
       then Success else Fail)"
proof -
  let ?len = "rx_len r - ucast (rx_hdrlen a) - ucast (rx_iv_len a)"
  have l4: "unat ?len = unat len + 4"
    unfolding rx using len by (intro unat_rest_len) (simp_all add: n hdr ivl)
  have "?len = len + 4"
    using l4 len by (simp add: word_unat_eq_iff unat_word_ariths)
  then have l0: "nat (sint (?len - 4)) = unat len" using len by (simp add: sint_small)
  have lm: "length m = n" by (simp add: m_def n rx)
  note chk = four_bytes_eq [of "le32_bytes (getcrc32 (seg m (8 + hdr) (unat len)))" n "8 + hdr + unat len" m]
  have res: "rtw_tkip_decrypt find_sta sec r =
    (if le32_bytes (getcrc32 (seg m (8 + hdr) (unat len))) ! 3 \<noteq> m ! (n - 1) \<or>
        le32_bytes (getcrc32 (seg m (8 + hdr) (unat len))) ! 2 \<noteq> m ! (n - 2) \<or>
        le32_bytes (getcrc32 (seg m (8 + hdr) (unat len))) ! 1 \<noteq> m ! (n - 3) \<or>
        le32_bytes (getcrc32 (seg m (8 + hdr) (unat len))) ! 0 \<noteq> m ! (n - 4) then Fail else Success,
     sec\<lparr>tkip_sw_dec_cnt := sw_cnt_inc (rx_ra a) (tkip_sw_dec_cnt sec)\<rparr>, r\<lparr>rx_data := m\<rparr>)"
  proof -
    obtain u where u: "find_sta (rx_ta a) = Some u"
      and g: "\<not> (IS_MCAST (rx_ra a) \<and> \<not> binstallGrpkey sec)"
      and k: "(if IS_MCAST (rx_ra a) then dot118021XGrpKey sec ! unat (rx_key_index a) else u) = k"
      using key by (auto simp: tkip_rx_key_def split: option.splits if_splits)
    have pl: "unat (rx_iv_len a) + unat (rx_hdrlen a) = 8 + hdr" using hdr ivl by simp
    have n': "8 + hdr + (unat len + 4) = n" using n by simp
    have m': "m = store (rx_data r) (8 + hdr)
       (fst (arcfour_encrypt (arcfour_init (tkip_rc4key k (rx_ta a) (seg (rx_data r) hdr 8)) 16)
         (seg (rx_data r) (8 + hdr) (unat len + 4))))"
      by (simp only: m_def rc4_open_def tkip_init_def)
    have "rtw_tkip_decrypt find_sta sec r =
      (let len4 = ?len; m' = m; crc = le32_bytes (getcrc32 (seg m' (8 + hdr) (nat (sint (len4 - 4)))))
       in (if crc ! 3 \<noteq> m' ! (n - 1) \<or> crc ! 2 \<noteq> m' ! (n - 2) \<or> crc ! 1 \<noteq> m' ! (n - 3) \<or> crc ! 0 \<noteq> m' ! (n - 4)
           then Fail else Success,
           sec\<lparr>tkip_sw_dec_cnt := sw_cnt_inc (rx_ra a) (tkip_sw_dec_cnt sec)\<rparr>, r\<lparr>rx_data := m'\<rparr>))"
      unfolding rtw_tkip_decrypt_def Let_def a [symmetric] u option.case if_P [OF enc] if_not_P [OF g] k
        case_prod_unfold pl l4 n' unfolding hdr m' ..
    then show ?thesis by (simp only: Let_def l0)
  qed
  show "rx_data (snd (snd (rtw_tkip_decrypt find_sta sec r))) = m" by (simp add: res)
  show "fst (rtw_tkip_decrypt find_sta sec r) =
      (if seg m (8 + hdr + unat len) 4 = le32_bytes (getcrc32 (seg m (8 + hdr) (unat len)))
       then Success else Fail)"
    unfolding res using chk lm n by (simp add: add.commute add.left_commute)
qed

lemma seg_of_frame:
  "start + n \<le> length buf \<Longrightarrow> n = hdr + ivl + k \<Longrightarrow> j \<le> k \<Longrightarrow>
   seg (seg buf start n) (ivl + hdr) j = seg buf (start + ivl + hdr) j"
  by (simp add: seg_seg add.assoc)

lemma tkip_decrypt_sealed:
  fixes len :: u32
  assumes enc: "rx_encrypt a = TKIP" and key: "tkip_rx_key find_sta sec a = Some k" and a: "a = rx_attrib r"
    and hdr: "unat (rx_hdrlen a) = hdr" and ivl: "rx_iv_len a = 8"
    and len: "unat len < 2 ^ 31" and n: "n = hdr + 8 + 4 + unat len"
    and rx: "rx_len r = of_nat n" "rx_data r = tkip_encrypt_mpdu k (rx_ta a) hdr 8 len m0" and m0: "length m0 = n"
  shows "fst (rtw_tkip_decrypt find_sta sec r) = Success"
    and "rx_data (snd (snd (rtw_tkip_decrypt find_sta sec r))) =
      (let p = seg m0 (8 + hdr) (unat len) in store m0 (8 + hdr) (p @ le32_bytes (getcrc32 p)))"
proof -
  define p where "p = seg m0 (8 + hdr) (unat len)"
  define m where "m = store m0 (8 + hdr) (p @ le32_bytes (getcrc32 p))"
  have lp: "length p = unat len" using m0 n by (simp add: p_def)
  have data: "rx_data r = rc4_seal 8 (tkip_init k (rx_ta a)) hdr 8 len m0"
    using rx len m0 n by (simp add: tkip_encrypt_mpdu_seal)
  have l: "length (rx_data r) = n" unfolding data using m0 n by (simp add: rc4_seal_length)
  have op: "rc4_open 8 (tkip_init k (rx_ta a)) hdr 8 (unat len + 4) (rx_data r) = m"
    unfolding data m_def p_def using m0 n by (simp add: rc4_open_seal Let_def)
  have all: "seg m (8 + hdr) (unat len + 4) = p @ le32_bytes (getcrc32 p)"
    unfolding m_def using m0 n lp by (intro seg_store_same) simp_all
  have s1: "seg m (8 + hdr) (unat len) = p"
    using arg_cong [OF all, of "take (unat len)"] lp by (simp add: take_seg)
  have s2: "seg m (8 + hdr + unat len) 4 = le32_bytes (getcrc32 p)"
    using arg_cong [OF all, of "drop (unat len)"] lp by (simp add: drop_seg)
  note o = tkip_decrypt_open [OF enc key a hdr ivl len n rx(1) l, unfolded op]
  show "fst (rtw_tkip_decrypt find_sta sec r) = Success" unfolding o(2) s1 s2 by simp
  show "rx_data (snd (snd (rtw_tkip_decrypt find_sta sec r))) =
      (let p = seg m0 (8 + hdr) (unat len) in store m0 (8 + hdr) (p @ le32_bytes (getcrc32 p)))"
    unfolding o(1) m_def p_def by (simp add: Let_def)
qed

section \<open>The whole frame\<close>

text \<open>C4: Software TKIP round trip. Whatever fragment of a frame encrypted by rtw_tkip_encrypt
  the receiver gets, rtw_tkip_decrypt with the same temporal key returns success and restores
  header, IV and payload, followed by the CRC-32 of the payload as ICV.\<close>

theorem tkip_roundtrip:
  fixes f :: xmit_frame and r :: recv_frame and sec rsec :: security_priv and fl :: u32
  defines "a \<equiv> attrib f" and "x \<equiv> rx_attrib r"
  defines "hdr \<equiv> unat (hdrlen (attrib f))" and "nr \<equiv> unat (nr_frags (attrib f))"
    and "lm \<equiv> frag_length fl (attrib f)" and "ll \<equiv> frag_length (last_txcmdsz (attrib f)) (attrib f)"
    and "txkey \<equiv> (if IS_MCAST (ra (attrib f)) then dot118021XGrpKey sec ! unat (dot118021XGrpKeyid sec)
                  else dot118021x_UncstKey (attrib f))"
  assumes buf: "buf_addr f = Some (base, buf)"
    and alg: "encrypt a = TKIP" and ralg: "rx_encrypt x = TKIP"
    and iv: "iv_len a = 8" and riv: "rx_iv_len x = 8" and rhdr: "unat (rx_hdrlen x) = hdr"
    and fit: "frags_fit (hdr + 8 + 4) base fl lm ll nr TXDESC_OFFSET (length buf)"
    and i: "i < nr" and l: "l = (if Suc i = nr then ll else lm)"
    and start: "start = frag_start base fl i TXDESC_OFFSET"
    and key: "tkip_rx_key find_sta rsec x = Some txkey" and addr: "rx_ta x = ta a"
    and air: "buf_addr (snd (snd (rtw_tkip_encrypt sec fl f))) = Some (base, buf')"
    and n: "n = hdr + 8 + 4 + unat l"
    and rx: "rx_len r = of_nat n" "rx_data r = seg buf' start n"
  shows "fst (rtw_tkip_decrypt find_sta rsec r) = Success \<and>
    rx_data (snd (snd (rtw_tkip_decrypt find_sta rsec r))) =
    (let p = seg buf (start + 8 + hdr) (unat l)
     in store (seg buf start n) (8 + hdr) (p @ le32_bytes (getcrc32 p)))"
proof -
  have l31: "unat l < 2 ^ 31" using fit l by (simp add: frags_fit_def)
  have sz: "start + n \<le> length buf" unfolding start n using frags_fit_in [OF fit i l] by simp
  have buf': "buf' = each_fragment (tkip_encrypt_mpdu txkey (ta a) hdr 8) base fl lm ll nr TXDESC_OFFSET buf"
    using air buf alg iv
    by (simp add: rtw_tkip_encrypt_def Let_def a_def hdr_def nr_def lm_def ll_def txkey_def)
  have data: "rx_data r = tkip_encrypt_mpdu txkey (rx_ta x) hdr 8 l (seg buf start n)"
    unfolding rx n start buf' addr by (rule tkip.each_fragment_seg_all [OF fit i l])
  have p: "seg (seg buf start n) (8 + hdr) (unat l) = seg buf (start + 8 + hdr) (unat l)"
    by (rule seg_of_frame [OF sz, where k = "4 + unat l"]) (simp_all add: n)
  have len: "length (seg buf start n) = n" using sz by simp
  note d = tkip_decrypt_sealed [OF ralg key x_def [THEN meta_eq_to_obj_eq] rhdr riv l31 n rx(1) data len]
  show ?thesis using d p by simp
qed

text \<open>A unicast frame of two fragments, with 8 and 1 bytes of payload.\<close>

definition tkip_demo_frame :: xmit_frame where
  "tkip_demo_frame = \<lparr>attrib = \<lparr>hdrlen = 24, last_txcmdsz = 37, nr_frags = 2, encrypt = TKIP,
     iv_len = 8, icv_len = 4, ta = replicate 6 2, ra = replicate 6 4, dot118021x_UncstKey = replicate 16 5\<rparr>,
     buf_addr = Some (0, replicate 121 7)\<rparr>"

definition tkip_demo_air :: bytes where
  "tkip_demo_air = snd (the (buf_addr (snd (snd (rtw_tkip_encrypt wep_demo_sec 44 tkip_demo_frame)))))"

definition tkip_demo_rx :: recv_frame where
  "tkip_demo_rx = \<lparr>rx_attrib = \<lparr>rx_hdrlen = 24, rx_encrypt = TKIP, rx_iv_len = 8, rx_icv_len = 4,
     rx_key_index = 0, rx_ta = replicate 6 2, rx_ra = replicate 6 4\<rparr>, rx_len = 44,
     rx_data = seg tkip_demo_air 40 44\<rparr>"

definition tkip_demo_sta :: "bytes \<Rightarrow> bytes option" where
  "tkip_demo_sta addr = (if addr = replicate 6 2 then Some (replicate 16 5) else None)"

lemma tkip_demo_rx_attrs:
  "rx_encrypt (rx_attrib tkip_demo_rx) = TKIP" "rx_hdrlen (rx_attrib tkip_demo_rx) = 24"
  "rx_iv_len (rx_attrib tkip_demo_rx) = 8" "rx_ta (rx_attrib tkip_demo_rx) = replicate 6 2"
  "rx_len tkip_demo_rx = 44" "rx_data tkip_demo_rx = seg tkip_demo_air 40 44"
  "tkip_rx_key tkip_demo_sta wep_demo_sec (rx_attrib tkip_demo_rx) = Some (replicate 16 5)"
  by (simp_all add: tkip_demo_rx_def tkip_rx_key_def tkip_demo_sta_def IS_MCAST_def)

theorem tkip_roundtrip_witness:
  "fst (rtw_tkip_decrypt tkip_demo_sta wep_demo_sec tkip_demo_rx) = Success \<and>
   rx_data (snd (snd (rtw_tkip_decrypt tkip_demo_sta wep_demo_sec tkip_demo_rx))) =
     (let p = seg (replicate 121 7) 72 8
      in store (seg (replicate 121 7) 40 44) 32 (p @ le32_bytes (getcrc32 p)))"
proof -
  let ?a = "attrib tkip_demo_frame" and ?x = "rx_attrib tkip_demo_rx"
  have a: "hdrlen ?a = 24" "iv_len ?a = 8" "nr_frags ?a = 2" "encrypt ?a = TKIP" "ta ?a = replicate 6 2"
    "frag_length 44 ?a = 8" "frag_length (last_txcmdsz ?a) ?a = 1" "\<not> IS_MCAST (ra ?a)"
    "dot118021x_UncstKey ?a = replicate 16 5" "buf_addr tkip_demo_frame = Some (0, replicate 121 7)"
    by (simp_all add: tkip_demo_frame_def frag_length_def IS_MCAST_def)
  have air: "buf_addr (snd (snd (rtw_tkip_encrypt wep_demo_sec 44 tkip_demo_frame))) = Some (0, tkip_demo_air)"
    by (simp add: tkip_demo_air_def rtw_tkip_encrypt_def a Let_def)
  have fit: "frags_fit 36 0 44 8 1 2 TXDESC_OFFSET 121"
    by (simp add: frags_fit_def TXDESC_OFFSET_def next_pframe_def RND4_def)
  have "fst (rtw_tkip_decrypt tkip_demo_sta wep_demo_sec tkip_demo_rx) = Success \<and>
     rx_data (snd (snd (rtw_tkip_decrypt tkip_demo_sta wep_demo_sec tkip_demo_rx))) =
     (let p = seg (replicate 121 7) (40 + 8 + unat (hdrlen ?a)) (unat (8 :: u32))
      in store (seg (replicate 121 7) 40 44) (8 + unat (hdrlen ?a)) (p @ le32_bytes (getcrc32 p)))"
  proof (rule tkip_roundtrip [where f = tkip_demo_frame and r = tkip_demo_rx and sec = wep_demo_sec
        and rsec = wep_demo_sec and fl = 44 and i = 0 and l = 8 and n = 44 and start = 40
        and base = 0 and buf = "replicate 121 7" and buf' = tkip_demo_air])
    show "frags_fit (unat (hdrlen ?a) + 8 + 4) 0 44 (frag_length 44 ?a)
       (frag_length (last_txcmdsz ?a) ?a) (unat (nr_frags ?a)) TXDESC_OFFSET (length (replicate 121 (7::u8)))"
      using fit by (simp add: a)
  qed (simp_all add: a tkip_demo_rx_attrs air TXDESC_OFFSET_def)
  then show ?thesis by (simp add: a)
qed

text \<open>C5: ICV check. rtw_tkip_decrypt of a received frame returns success if and only if the
  frame is what the TKIP encryption of some plain frame produces under the same temporal key
  and transmitter address; every other frame of that size is reported as a failure.\<close>

theorem tkip_decrypt_accepts_iff:
  fixes len :: u32
  assumes enc: "rx_encrypt a = TKIP" and key: "tkip_rx_key find_sta sec a = Some k" and a: "a = rx_attrib r"
    and hdr: "unat (rx_hdrlen a) = hdr" and ivl: "rx_iv_len a = 8"
    and len: "unat len < 2 ^ 31" and n: "n = hdr + 8 + 4 + unat len"
    and rx: "rx_len r = of_nat n" "length (rx_data r) = n"
  shows "fst (rtw_tkip_decrypt find_sta sec r) = Success \<longleftrightarrow>
    (\<exists>m0. length m0 = n \<and> rx_data r = tkip_encrypt_mpdu k (rx_ta a) hdr 8 len m0)"
proof
  let ?m = "rc4_open 8 (tkip_init k (rx_ta a)) hdr 8 (unat len + 4) (rx_data r)"
  assume "fst (rtw_tkip_decrypt find_sta sec r) = Success"
  then have icv: "seg ?m (8 + hdr + unat len) 4 = le32_bytes (getcrc32 (seg ?m (8 + hdr) (unat len)))"
    unfolding tkip_decrypt_open(2) [OF enc key a hdr ivl len n rx] by (simp split: if_splits)
  have "length ?m = n" using rx n by simp
  moreover have "rc4_seal 8 (tkip_init k (rx_ta a)) hdr 8 len ?m = rx_data r"
    using rx n icv by (intro rc4_seal_open) simp_all
  ultimately have "length ?m = n \<and> rx_data r = tkip_encrypt_mpdu k (rx_ta a) hdr 8 len ?m"
    using len n by (simp add: tkip_encrypt_mpdu_seal)
  then show "\<exists>m0. length m0 = n \<and> rx_data r = tkip_encrypt_mpdu k (rx_ta a) hdr 8 len m0" ..
next
  assume "\<exists>m0. length m0 = n \<and> rx_data r = tkip_encrypt_mpdu k (rx_ta a) hdr 8 len m0"
  then obtain m0 where m0: "length m0 = n" "rx_data r = tkip_encrypt_mpdu k (rx_ta a) hdr 8 len m0" by blast
  show "fst (rtw_tkip_decrypt find_sta sec r) = Success"
    by (rule tkip_decrypt_sealed(1) [OF enc key a hdr ivl len n rx(1) m0(2,1)])
qed

definition tkip_demo_sealed :: recv_frame where
  "tkip_demo_sealed = tkip_demo_rx
     \<lparr>rx_data := tkip_encrypt_mpdu (replicate 16 5) (replicate 6 2) 24 8 8 (replicate 44 7)\<rparr>"

theorem tkip_decrypt_accepts_iff_witness:
  "fst (rtw_tkip_decrypt tkip_demo_sta wep_demo_sec tkip_demo_sealed) = Success"
proof -
  let ?m = "tkip_encrypt_mpdu (replicate 16 5) (replicate 6 2) 24 8 8 (replicate 44 7)"
  have at: "rx_attrib tkip_demo_sealed = rx_attrib tkip_demo_rx" "rx_len tkip_demo_sealed = 44"
    "rx_data tkip_demo_sealed = ?m"
    by (simp_all add: tkip_demo_sealed_def tkip_demo_rx_attrs)
  have l: "length ?m = 44" by (simp add: tkip_encrypt_mpdu_seal rc4_seal_length)
  show ?thesis
    by (subst tkip_decrypt_accepts_iff [where hdr = 24 and len = 8 and n = 44 and a = "rx_attrib tkip_demo_rx"
          and k = "replicate 16 5"])
      (use l in \<open>auto simp: at tkip_demo_rx_attrs intro: exI [of _ "replicate 44 7"]\<close>)
qed

section \<open>The S-box table\<close>

definition bswap16 :: "u16 \<Rightarrow> u16" where
  "bswap16 v = Mk16 (Lo8 v) (Hi8 v)"

lemma Sbox1_halves: "Sbox1_1 = map bswap16 Sbox1_0"
  by code_simp

end
