(* ===== verification/Aes.thy ===== *)
theory Aes
  imports Prelude
begin

unbundle bit_operations_syntax

text \<open>
  The AES-128 block cipher \<open>aes128k128d\<close> of \<open>core/rtw_security.c\<close>, the one CCMP uses. The
  code works on a table and on bit tricks; the reference \<open>fips_aes\<close> below is the cipher of the
  standard, over the field with 256 elements: the S-box is characterised by field inversion and
  an affine map, the mixing of columns by a matrix over the field, the key schedule by the word
  recurrence. \<open>aes128k128d_is_fips\<close> says that they agree for all keys and blocks.
\<close>

section \<open>The code\<close>

definition sbox_table :: "u8 list" where
  "sbox_table = [
     0x63, 0x7c, 0x77, 0x7b, 0xf2, 0x6b, 0x6f, 0xc5,
     0x30, 0x01, 0x67, 0x2b, 0xfe, 0xd7, 0xab, 0x76,
     0xca, 0x82, 0xc9, 0x7d, 0xfa, 0x59, 0x47, 0xf0,
     0xad, 0xd4, 0xa2, 0xaf, 0x9c, 0xa4, 0x72, 0xc0,
     0xb7, 0xfd, 0x93, 0x26, 0x36, 0x3f, 0xf7, 0xcc,
     0x34, 0xa5, 0xe5, 0xf1, 0x71, 0xd8, 0x31, 0x15,
     0x04, 0xc7, 0x23, 0xc3, 0x18, 0x96, 0x05, 0x9a,
     0x07, 0x12, 0x80, 0xe2, 0xeb, 0x27, 0xb2, 0x75,
     0x09, 0x83, 0x2c, 0x1a, 0x1b, 0x6e, 0x5a, 0xa0,
     0x52, 0x3b, 0xd6, 0xb3, 0x29, 0xe3, 0x2f, 0x84,
     0x53, 0xd1, 0x00, 0xed, 0x20, 0xfc, 0xb1, 0x5b,
     0x6a, 0xcb, 0xbe, 0x39, 0x4a, 0x4c, 0x58, 0xcf,
     0xd0, 0xef, 0xaa, 0xfb, 0x43, 0x4d, 0x33, 0x85,
     0x45, 0xf9, 0x02, 0x7f, 0x50, 0x3c, 0x9f, 0xa8,
     0x51, 0xa3, 0x40, 0x8f, 0x92, 0x9d, 0x38, 0xf5,
     0xbc, 0xb6, 0xda, 0x21, 0x10, 0xff, 0xf3, 0xd2,
     0xcd, 0x0c, 0x13, 0xec, 0x5f, 0x97, 0x44, 0x17,
     0xc4, 0xa7, 0x7e, 0x3d, 0x64, 0x5d, 0x19, 0x73,
     0x60, 0x81, 0x4f, 0xdc, 0x22, 0x2a, 0x90, 0x88,
     0x46, 0xee, 0xb8, 0x14, 0xde, 0x5e, 0x0b, 0xdb,
     0xe0, 0x32, 0x3a, 0x0a, 0x49, 0x06, 0x24, 0x5c,
     0xc2, 0xd3, 0xac, 0x62, 0x91, 0x95, 0xe4, 0x79,
     0xe7, 0xc8, 0x37, 0x6d, 0x8d, 0xd5, 0x4e, 0xa9,
     0x6c, 0x56, 0xf4, 0xea, 0x65, 0x7a, 0xae, 0x08,
     0xba, 0x78, 0x25, 0x2e, 0x1c, 0xa6, 0xb4, 0xc6,
     0xe8, 0xdd, 0x74, 0x1f, 0x4b, 0xbd, 0x8b, 0x8a,
     0x70, 0x3e, 0xb5, 0x66, 0x48, 0x03, 0xf6, 0x0e,
     0x61, 0x35, 0x57, 0xb9, 0x86, 0xc1, 0x1d, 0x9e,
     0xe1, 0xf8, 0x98, 0x11, 0x69, 0xd9, 0x8e, 0x94,
     0x9b, 0x1e, 0x87, 0xe9, 0xce, 0x55, 0x28, 0xdf,
     0x8c, 0xa1, 0x89, 0x0d, 0xbf, 0xe6, 0x42, 0x68,
     0x41, 0x99, 0x2d, 0x0f, 0xb0, 0x54, 0xbb, 0x16]"

definition sbox :: "u8 \<Rightarrow> u8" where
  "sbox a = sbox_table ! unat a"

definition xor_128 :: "bytes \<Rightarrow> bytes \<Rightarrow> bytes" where
  "xor_128 a b = map (\<lambda>i. a ! i XOR b ! i) [0..<16]"

definition xor_32 :: "bytes \<Rightarrow> bytes \<Rightarrow> bytes" where
  "xor_32 a b = map (\<lambda>i. a ! i XOR b ! i) [0..<4]"

definition rcon_table :: "u8 list" where
  "rcon_table = [0x01, 0x02, 0x04, 0x08, 0x10, 0x20, 0x40, 0x80, 0x1b, 0x36, 0x36, 0x36]"

definition next_key :: "bytes \<Rightarrow> nat \<Rightarrow> bytes" where
  "next_key key round =
     (let sbox_key = [sbox (key ! 13), sbox (key ! 14), sbox (key ! 15), sbox (key ! 12)];
          rcon = rcon_table ! round;
          key = store key 0 (xor_32 (drop 0 key) sbox_key);
          key = key[0 := key ! 0 XOR rcon];
          key = store key 4 (xor_32 (drop 4 key) (drop 0 key));
          key = store key 8 (xor_32 (drop 8 key) (drop 4 key))
      in store key 12 (xor_32 (drop 12 key) (drop 8 key)))"

definition byte_sub :: "bytes \<Rightarrow> bytes" where
  "byte_sub xs = map (\<lambda>i. sbox (xs ! i)) [0..<16]"

definition shift_row :: "bytes \<Rightarrow> bytes" where
  "shift_row xs =
     [xs ! 0, xs ! 5, xs ! 10, xs ! 15, xs ! 4, xs ! 9, xs ! 14, xs ! 3,
      xs ! 8, xs ! 13, xs ! 2, xs ! 7, xs ! 12, xs ! 1, xs ! 6, xs ! 11]"

text \<open>One turn of the loop that shifts the four bytes left by one bit.\<close>

definition shl_step :: "nat \<Rightarrow> bytes \<Rightarrow> bytes" where
  "shl_step i a =
     (let a = a[i := push_bit 1 (a ! i)]
      in if (a ! (i - 1)) AND 0x80 = 0x80 then a[i := a ! i OR 0x01] else a)"

definition mix_column :: "bytes \<Rightarrow> bytes" where
  "mix_column xs =
     (let add1b = map (\<lambda>i. if (xs ! i) AND 0x80 = 0x80 then 0x1b else 0x00) [0..<4];
          swap_halfs = [xs ! 2, xs ! 3, xs ! 0, xs ! 1];
          rotl = [xs ! 3, xs ! 0, xs ! 1, xs ! 2];
          andf7 = [xs ! 0 AND 0x7f, xs ! 1 AND 0x7f, xs ! 2 AND 0x7f, xs ! 3 AND 0x7f];
          andf7 = fold shl_step [3, 2, 1] andf7;
          andf7 = andf7[0 := push_bit 1 (andf7 ! 0)];
          andf7 = andf7[0 := andf7 ! 0 AND 0xfe];
          add1bf7 = xor_32 add1b andf7;
          rotr = xor_32 xs add1bf7;
          rotr = [rotr ! 1, rotr ! 2, rotr ! 3, rotr ! 0];
          temp = xor_32 add1bf7 rotr;
          tempb = xor_32 swap_halfs rotl
      in xor_32 temp tempb)"

definition mix_columns :: "bytes \<Rightarrow> bytes" where
  "mix_columns b = mix_column (drop 0 b) @ mix_column (drop 4 b) @ mix_column (drop 8 b) @ mix_column (drop 12 b)"

text \<open>One turn of the loop over the rounds, on the round key and the ciphertext.\<close>

fun aes_round :: "bytes \<Rightarrow> nat \<Rightarrow> bytes \<times> bytes \<Rightarrow> bytes \<times> bytes" where
  "aes_round data round (round_key, ciphertext) =
     (if round = 0 then (next_key round_key round, xor_128 round_key data)
      else if round = 10 then
        (round_key, xor_128 (shift_row (byte_sub ciphertext)) round_key)
      else
        (next_key round_key round, xor_128 (mix_columns (shift_row (byte_sub ciphertext))) round_key))"

definition aes128k128d :: "bytes \<Rightarrow> bytes \<Rightarrow> bytes" where
  "aes128k128d key data =
     snd (fold (aes_round data) [0..<11] (map (\<lambda>i. key ! i) [0..<16], replicate 16 0))"

section \<open>The field\<close>

definition xtime :: "u8 \<Rightarrow> u8" where
  "xtime b = push_bit 1 (b AND 0x7f) XOR (if b AND 0x80 = 0 then 0 else 0x1b)"

primrec gf_mul_n :: "nat \<Rightarrow> u8 \<Rightarrow> u8 \<Rightarrow> u8" where
  "gf_mul_n 0 a b = 0"
| "gf_mul_n (Suc n) a b = (if a AND 1 = 0 then 0 else b) XOR gf_mul_n n (drop_bit 1 a) (xtime b)"

definition gf_mul :: "u8 \<Rightarrow> u8 \<Rightarrow> u8" where
  "gf_mul = gf_mul_n 8"

section \<open>The cipher of the standard\<close>

text \<open>Word \<open>i\<close> of the expanded key.\<close>

fun fips_w :: "bytes \<Rightarrow> nat \<Rightarrow> bytes" where
  "fips_w key i =
     (if i < 4 then seg key (4 * i) 4
      else (let t = fips_w key (i - 1);
                t' = (if i mod 4 = 0
                      then xor_bytes (map sbox (rotate1 t)) [(xtime ^^ (i div 4 - 1)) 1, 0, 0, 0] else t)
            in xor_bytes (fips_w key (i - 4)) t'))"

declare fips_w.simps [simp del]

definition fips_round_key :: "bytes \<Rightarrow> nat \<Rightarrow> bytes" where
  "fips_round_key key r = concat (map (fips_w key) [4 * r..<4 * r + 4])"

definition fips_shift_rows :: "bytes \<Rightarrow> bytes" where
  "fips_shift_rows s = map (\<lambda>i. s ! ((i + 4 * (i mod 4)) mod 16)) [0..<16]"

definition fips_mix_columns :: "bytes \<Rightarrow> bytes" where
  "fips_mix_columns s = map (\<lambda>i. let c = 4 * (i div 4); r = i mod 4
     in gf_mul 2 (s ! (c + r)) XOR gf_mul 3 (s ! (c + (r + 1) mod 4))
        XOR s ! (c + (r + 2) mod 4) XOR s ! (c + (r + 3) mod 4)) [0..<16]"

fun fips_state :: "bytes \<Rightarrow> bytes \<Rightarrow> nat \<Rightarrow> bytes" where
  "fips_state key data 0 = xor_bytes data (fips_round_key key 0)"
| "fips_state key data (Suc r) =
     (let s = fips_shift_rows (map sbox (fips_state key data r))
      in xor_bytes (if Suc r = 10 then s else fips_mix_columns s) (fips_round_key key (Suc r)))"

definition fips_aes :: "bytes \<Rightarrow> bytes \<Rightarrow> bytes" where
  "fips_aes key data = fips_state key data 10"

section \<open>The code computes it\<close>

lemma upt_4: "[0..<4] = [0, 1, 2, 3]"
  by (simp add: upt_rec)

lemma upt_16: "[0..<16] = [0, 1, 2, 3, 4, 5, 6, 7, 8, 9, 10, 11, 12, 13, 14, 15]"
  by (simp add: upt_rec)

lemma gf_mul_8: "gf_mul a b = gf_mul_n (Suc (Suc (Suc (Suc (Suc (Suc (Suc (Suc 0)))))))) a b"
proof -
  have "(8 :: nat) = Suc (Suc (Suc (Suc (Suc (Suc (Suc (Suc 0)))))))" by simp
  then show ?thesis by (simp only: gf_mul_def)
qed

lemma gf_mul_2: "gf_mul 2 b = xtime b"
  by (simp add: gf_mul_8)

lemma length_sbox_table [simp]: "length sbox_table = 256"
  by (simp add: sbox_table_def)

lemma gf_mul_3: "gf_mul 3 b = b XOR xtime b"
  by (simp add: gf_mul_8)

lemma and_exp: "(b :: 'a::len word) AND 2 ^ k = (if bit b k then 2 ^ k else 0)"
  by (rule bit_word_eqI) (auto simp: bit_and_iff bit_exp_iff)

lemma and_0x80: "(b :: u8) AND 0x80 = 0x80 \<longleftrightarrow> b AND 0x80 \<noteq> 0"
  using and_exp [of b 7] by simp

lemma and_7f_80 [simp]: "(b AND 0x7f) AND 0x80 = (0 :: u8)"
  by (simp add: and.assoc)

lemma shl_and_fe: "push_bit 1 b AND 0xfe = (push_bit 1 b :: u8)"
proof -
  have e: "(0xfe :: u8) = NOT 1" by simp
  show ?thesis unfolding e
    by (rule bit_word_eqI) (simp only: bit_and_iff bit_not_iff bit_push_bit_iff bit_1_iff, auto)
qed

text \<open>The top bits are masked away before the shift, so no byte carries into the next.\<close>

lemma shl_bytes:
  assumes "a AND 0x80 = 0" "b AND 0x80 = 0" "c AND 0x80 = 0"
  shows "shl_step 1 (shl_step 2 (shl_step 3 [a, b, c, d])) = [a, push_bit 1 b, push_bit 1 c, push_bit 1 d]"
proof -
  define f :: "u8 \<Rightarrow> u8" where "f = push_bit 1"
  have "shl_step i x = (let x' = x[i := f (x ! i)]
      in if (x' ! (i - 1)) AND 0x80 = 0x80 then x'[i := x' ! i OR 0x01] else x')" for i x
    by (simp only: shl_step_def f_def)
  then have "shl_step 1 (shl_step 2 (shl_step 3 [a, b, c, d])) = [a, f b, f c, f d]"
    using assms by simp
  then show ?thesis by (simp only: f_def)
qed

lemma mix_column_field:
  assumes "xs = a # b # c # d # ys"
  shows "mix_column xs =
    [gf_mul 2 a XOR gf_mul 3 b XOR c XOR d, gf_mul 2 b XOR gf_mul 3 c XOR d XOR a,
     gf_mul 2 c XOR gf_mul 3 d XOR a XOR b, gf_mul 2 d XOR gf_mul 3 a XOR b XOR c]"
proof -
  define p where "p v = push_bit 1 (v AND 0x7f :: u8)" for v
  define q where "q v = (if (v :: u8) AND 0x80 = 0x80 then 0x1b else (0x00 :: u8))" for v
  have f: "shl_step 1 (shl_step 2 (shl_step 3 [a AND 0x7f, b AND 0x7f, c AND 0x7f, d AND 0x7f])) =
      [a AND 0x7f, p b, p c, p d]"
    unfolding p_def by (rule shl_bytes) simp_all
  have s: "push_bit 1 (a AND 0x7f) = p a" "p a AND 0xfe = p a"
    unfolding p_def by (simp_all only: shl_and_fe)
  have t: "(push_bit 1 a AND push_bit 1 127) AND 254 = p a"
    unfolding p_def push_bit_and [symmetric] by (simp only: shl_and_fe)
  have x: "xtime v = q v XOR p v" for v
    unfolding xtime_def q_def p_def by (simp only: and_0x80 xor.commute) (simp only: if_not_P if_P split: if_split, simp)
  have "mix_column xs = (let rotr = xor_32 [a, b, c, d] [xtime a, xtime b, xtime c, xtime d]
      in xor_32 (xor_32 [xtime a, xtime b, xtime c, xtime d] [rotr ! 1, rotr ! 2, rotr ! 3, rotr ! 0])
           (xor_32 [c, d, a, b] [d, a, b, c]))"
    unfolding mix_column_def assms
    by (simp add: Let_def f s t xor_32_def upt_4 x q_def [symmetric] del: One_nat_def)
  then show ?thesis
    unfolding gf_mul_2 gf_mul_3 by (simp add: Let_def xor_32_def upt_4 ac_simps)
qed

lemma list16E:
  assumes "length xs = 16"
  obtains a0 a1 a2 a3 a4 a5 a6 a7 a8 a9 a10 a11 a12 a13 a14 a15
  where "xs = [a0, a1, a2, a3, a4, a5, a6, a7, a8, a9, a10, a11, a12, a13, a14, a15]"
proof -
  have "xs = map ((!) xs) [0..<16]" using map_nth [of xs] assms by simp
  then show ?thesis unfolding upt_16 using that by simp
qed

lemma list4E:
  assumes "length xs = 4"
  obtains a b c d where "xs = [a, b, c, d]"
proof -
  have "xs = map ((!) xs) [0..<4]" using map_nth [of xs] assms by simp
  then show ?thesis unfolding upt_4 using that by simp
qed

lemma xor_128_eq: "length a = 16 \<Longrightarrow> length b = 16 \<Longrightarrow> xor_128 a b = xor_bytes a b"
  by (rule nth_equalityI) (simp_all add: xor_128_def)

lemma xor_32_eq: "4 \<le> length a \<Longrightarrow> 4 \<le> length b \<Longrightarrow> xor_32 a b = xor_bytes (take 4 a) (take 4 b)"
  by (rule nth_equalityI) (simp_all add: xor_32_def)

lemma byte_sub_eq: "length xs = 16 \<Longrightarrow> byte_sub xs = map sbox xs"
  by (rule nth_equalityI) (simp_all add: byte_sub_def)

lemma shift_row_eq: "length xs = 16 \<Longrightarrow> shift_row xs = fips_shift_rows xs"
  by (simp add: shift_row_def fips_shift_rows_def upt_16)

lemma mix_columns_eq: "length xs = 16 \<Longrightarrow> mix_columns xs = fips_mix_columns xs"
proof (erule list16E)
  fix a0 a1 a2 a3 a4 a5 a6 a7 a8 a9 a10 a11 a12 a13 a14 a15
  assume xs: "xs = [a0, a1, a2, a3, a4, a5, a6, a7, a8, a9, a10, a11, a12, a13, a14, a15]"
  have "mix_columns xs = mix_column (a0 # a1 # a2 # a3 # drop 4 xs) @ mix_column (a4 # a5 # a6 # a7 # drop 8 xs)
      @ mix_column (a8 # a9 # a10 # a11 # drop 12 xs) @ mix_column (a12 # a13 # a14 # a15 # [])"
    unfolding mix_columns_def xs by simp
  then show ?thesis
    unfolding mix_column_field [OF refl] xs fips_mix_columns_def upt_16 by (simp add: Let_def)
qed

lemma length_fips_w [simp]: "i < 44 \<Longrightarrow> length key = 16 \<Longrightarrow> length (fips_w key i) = 4"
proof (induction i rule: less_induct)
  case (less i)
  show ?case
  proof (cases "i < 4")
    case True
    then show ?thesis using less.prems by (subst fips_w.simps) simp
  next
    case False
    then have "length (fips_w key (i - 1)) = 4" "length (fips_w key (i - 4)) = 4"
      using less by simp_all
    with False show ?thesis by (subst fips_w.simps) (simp add: Let_def)
  qed
qed

lemma fips_round_key_words:
  "fips_round_key key r =
     fips_w key (4 * r) @ fips_w key (4 * r + 1) @ fips_w key (4 * r + 2) @ fips_w key (4 * r + 3)"
  by (simp add: fips_round_key_def upt_rec numeral_2_eq_2 numeral_3_eq_3)

lemma length_fips_round_key [simp]: "r < 11 \<Longrightarrow> length key = 16 \<Longrightarrow> length (fips_round_key key r) = 16"
  by (simp add: fips_round_key_words)

lemma fips_round_key_0: "length key = 16 \<Longrightarrow> fips_round_key key 0 = key"
proof (erule list16E)
  fix a0 a1 a2 a3 a4 a5 a6 a7 a8 a9 a10 a11 a12 a13 a14 a15
  assume key: "key = [a0, a1, a2, a3, a4, a5, a6, a7, a8, a9, a10, a11, a12, a13, a14, a15]"
  have w: "fips_w key 0 = seg key 0 4" "fips_w key 1 = seg key 4 4" "fips_w key 2 = seg key 8 4"
    "fips_w key 3 = seg key 12 4"
    by (simp_all add: fips_w.simps)
  show ?thesis unfolding fips_round_key_words using w by (simp add: seg_def key numeral_2_eq_2 numeral_3_eq_3)
qed

lemma rcon_xtime: "r < 10 \<Longrightarrow> rcon_table ! r = (xtime ^^ r) 1"
proof -
  have "list_all2 (=) (take 10 rcon_table) (map (\<lambda>r. (xtime ^^ r) 1) [0..<10])"
    by code_simp
  then show "r < 10 \<Longrightarrow> ?thesis"
    by (auto simp: list_all2_conv_all_nth)
qed

lemma next_key_words:
  fixes w0 w1 w2 w3 :: bytes and r :: nat
  assumes "length w0 = 4" "length w1 = 4" "length w2 = 4" "length w3 = 4"
  defines "v0 \<equiv> xor_bytes w0 (xor_bytes (map sbox (rotate1 w3)) [rcon_table ! r, 0, 0, 0])"
  defines "v1 \<equiv> xor_bytes w1 v0" defines "v2 \<equiv> xor_bytes w2 v1" defines "v3 \<equiv> xor_bytes w3 v2"
  shows "next_key (w0 @ w1 @ w2 @ w3) r = v0 @ v1 @ v2 @ v3"
proof -
  obtain a0 a1 a2 a3 where w0: "w0 = [a0, a1, a2, a3]" using assms(1) by (rule list4E)
  obtain b0 b1 b2 b3 where w1: "w1 = [b0, b1, b2, b3]" using assms(2) by (rule list4E)
  obtain c0 c1 c2 c3 where w2: "w2 = [c0, c1, c2, c3]" using assms(3) by (rule list4E)
  obtain d0 d1 d2 d3 where w3: "w3 = [d0, d1, d2, d3]" using assms(4) by (rule list4E)
  show ?thesis
    unfolding v3_def v2_def v1_def v0_def unfolding w0 w1 w2 w3 next_key_def
    by (simp add: Let_def xor_32_def upt_4 xor_bytes_def store_def xor.assoc)
qed

lemma fips_w_mult:
  "4 \<le> i \<Longrightarrow> i mod 4 = 0 \<Longrightarrow> fips_w key i =
     xor_bytes (fips_w key (i - 4)) (xor_bytes (map sbox (rotate1 (fips_w key (i - 1)))) [(xtime ^^ (i div 4 - 1)) 1, 0, 0, 0])"
  by (subst fips_w.simps) (simp only: Let_def if_P if_not_P not_less)

lemma fips_w_other:
  "4 \<le> i \<Longrightarrow> i mod 4 \<noteq> 0 \<Longrightarrow> fips_w key i = xor_bytes (fips_w key (i - 4)) (fips_w key (i - 1))"
  by (subst fips_w.simps) (simp only: Let_def if_P if_not_P not_less if_False)

lemma next_key_fips:
  assumes key: "length key = 16" and r: "r < 10"
  shows "next_key (fips_round_key key r) r = fips_round_key key (Suc r)"
proof -
  have w: "length (fips_w key (4 * r)) = 4" "length (fips_w key (4 * r + 1)) = 4"
    "length (fips_w key (4 * r + 2)) = 4" "length (fips_w key (4 * r + 3)) = 4"
    using key r by simp_all
  have s: "fips_w key (4 * Suc r) = xor_bytes (fips_w key (4 * r))
        (xor_bytes (map sbox (rotate1 (fips_w key (4 * r + 3)))) [(xtime ^^ r) 1, 0, 0, 0])"
    "fips_w key (4 * Suc r + 1) = xor_bytes (fips_w key (4 * r + 1)) (fips_w key (4 * Suc r))"
    "fips_w key (4 * Suc r + 2) = xor_bytes (fips_w key (4 * r + 2)) (fips_w key (4 * Suc r + 1))"
    "fips_w key (4 * Suc r + 3) = xor_bytes (fips_w key (4 * r + 3)) (fips_w key (4 * Suc r + 2))"
    using fips_w_mult [of "4 * Suc r" key] fips_w_other [of "4 * Suc r + 1" key]
      fips_w_other [of "4 * Suc r + 2" key] fips_w_other [of "4 * Suc r + 3" key]
    by (simp_all add: numeral_2_eq_2 numeral_3_eq_3)
  show ?thesis
    unfolding fips_round_key_words [of key r] next_key_words [OF w] fips_round_key_words [of key "Suc r"]
      rcon_xtime [OF r] s ..
qed

lemma length_fips_state [simp]: "r < 11 \<Longrightarrow> length key = 16 \<Longrightarrow> length data = 16 \<Longrightarrow> length (fips_state key data r) = 16"
  by (cases r) (simp_all add: Let_def fips_shift_rows_def fips_mix_columns_def)

lemma aes_rounds_fips:
  assumes key: "length key = 16" and data: "length data = 16" and n: "n < 11"
  shows "fold (aes_round data) [0..<Suc n] (key, c0) =
    (fips_round_key key (min (Suc n) 10), fips_state key data n)"
  using n
proof (induction n)
  case 0
  then show ?case
    using key data next_key_fips [OF key, of 0]
    by (simp add: fips_round_key_0 xor_128_eq xor_bytes_comm [of key])
next
  case (Suc n)
  let ?s = "fips_state key data n"
  have l: "length ?s = 16" "length (fips_round_key key (Suc n)) = 16"
    "length (fips_shift_rows (map sbox ?s)) = 16" "length (fips_mix_columns (fips_shift_rows (map sbox ?s))) = 16"
    using Suc.prems key data by (simp_all add: fips_shift_rows_def fips_mix_columns_def)
  have m: "min (Suc n) 10 = Suc n" using Suc.prems by simp
  have "fold (aes_round data) [0..<Suc (Suc n)] (key, c0)
      = aes_round data (Suc n) (fips_round_key key (Suc n), ?s)"
    using Suc.IH Suc.prems m by simp
  also have "\<dots> = (fips_round_key key (min (Suc (Suc n)) 10), fips_state key data (Suc n))"
    using l Suc.prems next_key_fips [OF key, of "Suc n"]
    by (auto simp: Let_def byte_sub_eq shift_row_eq mix_columns_eq xor_128_eq)
  finally show ?case .
qed

lemma less_Suc_10: "(10 :: nat) < 11"
  by simp

lemma aes128k128d_fips:
  assumes "length key = 16" and "length data = 16"
  shows "aes128k128d key data = fips_aes key data"
proof -
  have k: "map ((!) key) [0..<16] = key" using map_nth [of key] assms(1) by simp
  have e: "(11 :: nat) = Suc 10" by simp
  show ?thesis
    unfolding aes128k128d_def k e fips_aes_def aes_rounds_fips [OF assms, of 10, OF less_Suc_10] by simp
qed

lemma length_aes128k128d [simp, len_simps]: "length (aes128k128d key data) = 16"
proof -
  have "length (snd (fold (aes_round data) rs (k, c))) = 16" if "rs \<noteq> []" for rs k c
  proof -
    have r: "length (snd (aes_round data x s)) = 16" for x s by (cases s) (simp add: xor_128_def)
    show ?thesis using that by (cases rs rule: rev_cases) (simp_all add: r)
  qed
  then show ?thesis unfolding aes128k128d_def by simp
qed

text \<open>The AES block function computes the cipher of the standard for every 16-byte key and block.\<close>

lemma aes128k128d_is_fips:
  assumes "length key = 16" and "length data = 16"
  shows "aes128k128d key data = fips_aes key data"
  using assms by (rule aes128k128d_fips)

lemma aes128k128d_is_fips_witness:
  "aes128k128d (replicate 16 0) (replicate 16 1) = fips_aes (replicate 16 0) (replicate 16 1)"
  by (rule aes128k128d_is_fips) simp_all

end
