(* ===== verification/AesSbox.thy ===== *)
theory AesSbox
  imports Aes
begin

unbundle bit_operations_syntax

text \<open>
  The S-box table of \<open>core/rtw_security.c\<close> against its definition in the AES standard: the
  affine image of the inverse in the field with 256 elements. The 256 rows are evaluated by
  the kernel, which is why this check has a theory of its own.
\<close>

definition rotl8 :: "nat \<Rightarrow> u8 \<Rightarrow> u8" where
  "rotl8 n b = push_bit n (take_bit (8 - n) b) OR drop_bit (8 - n) b"

definition aes_affine :: "u8 \<Rightarrow> u8" where
  "aes_affine b = b XOR rotl8 1 b XOR rotl8 2 b XOR rotl8 3 b XOR rotl8 4 b XOR 0x63"

definition aes_affine_inv :: "u8 \<Rightarrow> u8" where
  "aes_affine_inv b = rotl8 1 b XOR rotl8 3 b XOR rotl8 6 b XOR 0x05"

definition sbox_inv_ok :: "u8 \<Rightarrow> u8 \<Rightarrow> bool" where
  "sbox_inv_ok x s \<longleftrightarrow> (let y = aes_affine_inv s in if x = 0 then y = 0 else gf_mul x y = 1)"

lemma sbox_rows: "list_all2 sbox_inv_ok (map of_nat [0..<256]) sbox_table"
  by code_simp

lemma bit_rotl8: "n < 8 \<Longrightarrow> k < 8 \<Longrightarrow> bit (rotl8 k b) n \<longleftrightarrow> bit b (if k \<le> n then n - k else n + 8 - k)"
  by (auto simp: rotl8_def bit_or_iff bit_push_bit_iff bit_take_bit_iff bit_drop_bit_eq add.commute
      dest: bit_imp_le_length)

lemma sbox_affine_iff: "aes_affine (aes_affine_inv b) = b"
proof (rule bit_word_eqI)
  fix n assume "n < LENGTH(8)"
  then have "n = 0 \<or> n = 1 \<or> n = 2 \<or> n = 3 \<or> n = 4 \<or> n = 5 \<or> n = 6 \<or> n = 7" by auto
  then show "bit (aes_affine (aes_affine_inv b)) n = bit b n"
    by (elim disjE) (simp_all add: aes_affine_def aes_affine_inv_def bit_xor_iff bit_rotl8, auto)
qed

text \<open>The AES S-box table is the S-box of the standard: every entry is the affine image of
  the inverse of its index in the field with 256 elements (of 0 for index 0).\<close>

lemma sbox_table_is_inversion:
  "\<exists>y. (if x = 0 then y = 0 else gf_mul x y = 1) \<and> sbox x = aes_affine y"
proof -
  have x: "x = of_nat (unat x)" and l: "unat x < 256" by simp_all
  have "sbox_inv_ok (map of_nat [0..<256] ! unat x) (sbox_table ! unat x)"
    using list_all2_nthD [OF sbox_rows, of "unat x"] l by simp
  then have "if x = 0 then aes_affine_inv (sbox x) = 0 else gf_mul x (aes_affine_inv (sbox x)) = 1"
    using l by (cases "x = 0") (simp_all add: sbox_inv_ok_def sbox_def Let_def)
  then show ?thesis using sbox_affine_iff [of "sbox x"] by metis
qed

end
