(* ===== verification/Ccmp.thy ===== *)
theory Ccmp
  imports Aes Wep
begin

unbundle bit_operations_syntax

text \<open>
  CCMP: \<open>aes_cipher\<close>, \<open>aes_decipher\<close>, \<open>rtw_aes_encrypt\<close> and \<open>rtw_aes_decrypt\<close> of
  \<open>core/rtw_security.c\<close>, on the block cipher of the theory Aes. Both functions build the CCM
  blocks from the MAC header, compute a CBC-MAC over header and payload, and run the counter
  mode over payload and MIC; \<open>aes_decipher\<close> decrypts in place, encrypts a copy again and compares
  the encrypted MICs. \<open>ieee80211w\<close> says whether the code was compiled with CONFIG_IEEE80211W.
\<close>

definition MAX_MSG_SIZE :: nat where
  "MAX_MSG_SIZE = 2048"

section \<open>The blocks built from the header\<close>

text \<open>\<open>mic_iv[1]\<close> and \<open>ctr_preload[1]\<close>: the traffic class, and the management bit with 11w.\<close>

definition nonce_flags :: "bool \<Rightarrow> bool \<Rightarrow> bool \<Rightarrow> bytes \<Rightarrow> u16 \<Rightarrow> u8" where
  "nonce_flags ieee80211w qc_exists a4_exists mpdu frtype =
     (let b = (if qc_exists \<and> a4_exists then (mpdu ! 30) AND 0x0f
               else if qc_exists then (mpdu ! 24) AND 0x0f else 0x00)
      in if ieee80211w \<and> frtype = WIFI_MGT_TYPE then b OR 0x10 else b)"

definition construct_mic_iv :: "bool \<Rightarrow> bool \<Rightarrow> bool \<Rightarrow> bytes \<Rightarrow> nat \<Rightarrow> bytes \<Rightarrow> u16 \<Rightarrow> bytes" where
  "construct_mic_iv ieee80211w qc_exists a4_exists mpdu payload_length pn_vector frtype =
     [0x59, nonce_flags ieee80211w qc_exists a4_exists mpdu frtype]
     @ map (\<lambda>i. mpdu ! (i + 8)) [2..<8] @ map (\<lambda>i. pn_vector ! (13 - i)) [8..<14]
     @ [of_nat (payload_length div 256), of_nat (payload_length mod 256)]"

definition construct_mic_header1 :: "bool \<Rightarrow> nat \<Rightarrow> bytes \<Rightarrow> u16 \<Rightarrow> bytes" where
  "construct_mic_header1 ieee80211w header_length mpdu frtype =
     [of_nat ((header_length - 2) div 256), of_nat ((header_length - 2) mod 256),
      if ieee80211w \<and> frtype = WIFI_MGT_TYPE then mpdu ! 0 else (mpdu ! 0) AND 0xcf,
      (mpdu ! 1) AND 0xc7] @ map ((!) mpdu) [4..<16]"

definition construct_mic_header2 :: "bytes \<Rightarrow> bool \<Rightarrow> bool \<Rightarrow> bytes" where
  "construct_mic_header2 mpdu a4_exists qc_exists =
     (let h = replicate 16 0;
          h = store h 0 (map ((!) mpdu) [16..<22]);
          h = h[6 := 0x00];
          h = h[7 := 0x00];
          h = (if \<not> qc_exists \<and> a4_exists then store h 8 (map (\<lambda>i. mpdu ! (24 + i)) [0..<6]) else h);
          h = (if qc_exists \<and> \<not> a4_exists
               then h[8 := (mpdu ! 24) AND 0x0f, 9 := (mpdu ! 25) AND 0x00] else h)
      in if qc_exists \<and> a4_exists
         then (store h 8 (map (\<lambda>i. mpdu ! (24 + i)) [0..<6]))
                [14 := (mpdu ! 30) AND 0x0f, 15 := (mpdu ! 31) AND 0x00] else h)"

definition construct_ctr_preload :: "bool \<Rightarrow> bool \<Rightarrow> bool \<Rightarrow> bytes \<Rightarrow> bytes \<Rightarrow> nat \<Rightarrow> u16 \<Rightarrow> bytes" where
  "construct_ctr_preload ieee80211w a4_exists qc_exists mpdu pn_vector c frtype =
     [0x01, nonce_flags ieee80211w qc_exists a4_exists mpdu frtype]
     @ map (\<lambda>i. mpdu ! (i + 8)) [2..<8] @ map (\<lambda>i. pn_vector ! (13 - i)) [8..<14]
     @ [of_nat (c div 256), of_nat (c mod 256)]"

definition bitwise_xor :: "bytes \<Rightarrow> bytes \<Rightarrow> bytes" where
  "bitwise_xor ina inb = map (\<lambda>i. ina ! i XOR inb ! i) [0..<16]"

text \<open>\<open>qc_exists\<close> and the adjusted header length.\<close>

definition qos_adjust :: "bytes \<Rightarrow> nat \<Rightarrow> bool \<times> nat" where
  "qos_adjust m hlen =
     (let frtype = GetFrameType m; frsubtype = drop_bit 4 (get_frame_sub_type m);
          hlen' = (if hlen \<noteq> WLAN_HDR_A3_QOS_LEN then hlen + 2 else hlen)
      in if frtype OR frsubtype = WIFI_DATA_CFACK \<or> frtype OR frsubtype = WIFI_DATA_CFPOLL
            \<or> frtype OR frsubtype = WIFI_DATA_CFACKPOLL then (True, hlen')
         else if frtype = WIFI_DATA \<and>
            (frsubtype = 0x08 \<or> frsubtype = 0x09 \<or> frsubtype = 0x0a \<or> frsubtype = 0x0b)
         then (True, hlen')
         else (False, hlen))"

definition a4_of :: "nat \<Rightarrow> bool" where
  "a4_of hlen \<longleftrightarrow> \<not> (hlen = WLAN_HDR_A3_LEN \<or> hlen = WLAN_HDR_A3_QOS_LEN)"

definition pn_at :: "bytes \<Rightarrow> nat \<Rightarrow> bytes" where
  "pn_at m h = [m ! h, m ! (h + 1), m ! (h + 4), m ! (h + 5), m ! (h + 6), m ! (h + 7)]"

section \<open>CBC-MAC and counter mode\<close>

fun mac_blocks :: "(bytes \<Rightarrow> bytes) \<Rightarrow> bytes \<Rightarrow> nat \<Rightarrow> nat \<Rightarrow> bytes \<Rightarrow> bytes" where
  "mac_blocks E m payload_index 0 aes_out = aes_out"
| "mac_blocks E m payload_index (Suc n) aes_out =
     mac_blocks E m (payload_index + 16) n (E (bitwise_xor aes_out (drop payload_index m)))"

text \<open>The MIC over the first \<open>plen\<close> bytes of the payload in \<open>m\<close>.\<close>

definition calc_mic ::
  "(bytes \<Rightarrow> bytes) \<Rightarrow> bool \<Rightarrow> bool \<Rightarrow> bool \<Rightarrow> u16 \<Rightarrow> nat \<Rightarrow> nat \<Rightarrow> bytes \<Rightarrow> bytes \<Rightarrow> bytes" where
  "calc_mic E ieee80211w qc_exists a4_exists frtype hlen plen pn_vector m =
     (let mic_iv = construct_mic_iv ieee80211w qc_exists a4_exists m plen pn_vector frtype;
          mic_header1 = construct_mic_header1 ieee80211w hlen m frtype;
          mic_header2 = construct_mic_header2 m a4_exists qc_exists;
          payload_remainder = plen mod 16;
          num_blocks = plen div 16;
          aes_out = E mic_iv;
          aes_out = E (bitwise_xor aes_out mic_header1);
          aes_out = E (bitwise_xor aes_out mic_header2);
          aes_out = mac_blocks E m (hlen + 8) num_blocks aes_out;
          payload_index = hlen + 8 + 16 * num_blocks;
          aes_out = (if payload_remainder > 0
                     then E (bitwise_xor aes_out (seg m payload_index payload_remainder @ replicate (16 - payload_remainder) 0))
                     else aes_out)
      in map ((!) aes_out) [0..<8])"

text \<open>\<open>pre m c\<close> is the counter block \<open>c\<close>, built from the buffer as it is at that moment.\<close>

fun ctr_blocks :: "(bytes \<Rightarrow> bytes) \<Rightarrow> (bytes \<Rightarrow> nat \<Rightarrow> bytes) \<Rightarrow> nat \<Rightarrow> nat \<Rightarrow> nat \<Rightarrow> bytes \<Rightarrow> bytes" where
  "ctr_blocks E pre payload_index i 0 m = m"
| "ctr_blocks E pre payload_index i (Suc n) m =
     ctr_blocks E pre (payload_index + 16) (i + 1) n
       (store m payload_index (bitwise_xor (E (pre m (i + 1))) (drop payload_index m)))"

definition ctr_payload :: "(bytes \<Rightarrow> bytes) \<Rightarrow> (bytes \<Rightarrow> nat \<Rightarrow> bytes) \<Rightarrow> nat \<Rightarrow> nat \<Rightarrow> bytes \<Rightarrow> bytes" where
  "ctr_payload E pre hlen plen m =
     (let payload_remainder = plen mod 16;
          num_blocks = plen div 16;
          m = ctr_blocks E pre (hlen + 8) 0 num_blocks m;
          payload_index = hlen + 8 + 16 * num_blocks
      in if payload_remainder > 0
         then (let padded_buffer = seg m payload_index payload_remainder @ replicate (16 - payload_remainder) 0;
                   chain_buffer = bitwise_xor (E (pre m (num_blocks + 1))) padded_buffer
               in store m payload_index (take payload_remainder chain_buffer))
         else m)"

definition ctr_mic :: "(bytes \<Rightarrow> bytes) \<Rightarrow> (bytes \<Rightarrow> nat \<Rightarrow> bytes) \<Rightarrow> nat \<Rightarrow> nat \<Rightarrow> bytes \<Rightarrow> bytes" where
  "ctr_mic E pre hlen plen m =
     (let padded_buffer = seg m (hlen + 8 + plen) 8 @ replicate 8 0;
          chain_buffer = bitwise_xor (E (pre m 0)) padded_buffer
      in store m (hlen + 8 + plen) (take 8 chain_buffer))"

section \<open>Cipher and decipher\<close>

definition aes_cipher :: "bool \<Rightarrow> bytes \<Rightarrow> nat \<Rightarrow> u32 \<Rightarrow> bytes \<Rightarrow> bytes" where
  "aes_cipher ieee80211w key hlen0 plen0 m =
     (let plen = unat plen0;
          E = aes128k128d key;
          frtype = GetFrameType m;
          a4_exists = a4_of hlen0;
          (qc_exists, hlen) = qos_adjust m hlen0;
          pn_vector = pn_at m hlen;
          pre = (\<lambda>m c. construct_ctr_preload ieee80211w a4_exists qc_exists m pn_vector c frtype);
          mic = calc_mic E ieee80211w qc_exists a4_exists frtype hlen plen pn_vector m;
          m = store m (hlen + 8 + plen) mic;
          m = ctr_payload E pre hlen plen m
      in ctr_mic E pre hlen plen m)"

text \<open>
  \<open>message\<close> is the static array of \<open>aes_decipher\<close>, which keeps the last frame that fitted.
  The index arithmetic on it is that of the C code only as long as the frame fits.
\<close>

definition aes_decipher ::
  "bool \<Rightarrow> bytes \<Rightarrow> nat \<Rightarrow> u32 \<Rightarrow> bytes \<Rightarrow> bytes \<Rightarrow> result \<times> bytes \<times> bytes" where
  "aes_decipher ieee80211w key hlen0 plen0 m message =
     (let plen = unat plen0;
          n = unat (plen0 - 8);
          E = aes128k128d key;
          frtype = GetFrameType m;
          pn_vector = pn_at m hlen0;
          a4_exists = a4_of hlen0;
          (qc_exists, hlen) = qos_adjust m hlen0;
          pre = (\<lambda>m c. construct_ctr_preload ieee80211w a4_exists qc_exists m pn_vector c frtype);
          m = ctr_payload E pre hlen n m;
          message = (if hlen + plen + 8 \<le> MAX_MSG_SIZE then store message 0 (take (hlen + plen + 8) m) else message);
          pn_vector = pn_at m hlen;
          pre = (\<lambda>m c. construct_ctr_preload ieee80211w a4_exists qc_exists m pn_vector c frtype);
          mic = calc_mic E ieee80211w qc_exists a4_exists frtype hlen n pn_vector message;
          message = store message (hlen + 8 + n) mic;
          message = ctr_payload E pre hlen n message;
          message = ctr_mic E pre hlen n message;
          res = (if \<exists>i<8. m ! (hlen + 8 + n + i) \<noteq> message ! (hlen + 8 + n + i) then Fail else Success)
      in (res, m, message))"

definition rtw_aes_encrypt ::
  "bool \<Rightarrow> security_priv \<Rightarrow> u32 \<Rightarrow> xmit_frame \<Rightarrow> result \<times> security_priv \<times> xmit_frame" where
  "rtw_aes_encrypt ieee80211w sec frag_len f =
     (case buf_addr f of
        None \<Rightarrow> (Fail, sec, f)
      | Some (base, buf) \<Rightarrow>
          (let a = attrib f in
           if encrypt a = AES then
             (let prwskey = (if IS_MCAST (ra a)
                             then dot118021XGrpKey sec ! unat (dot118021XGrpKeyid sec)
                             else dot118021x_UncstKey a);
                  buf' = each_fragment (aes_cipher ieee80211w prwskey (unat (hdrlen a)))
                    base frag_len (frag_length frag_len a) (frag_length (last_txcmdsz a) a)
                    (unat (nr_frags a)) TXDESC_OFFSET buf
              in (Success, sec\<lparr>aes_sw_enc_cnt := sw_cnt_inc (ra a) (aes_sw_enc_cnt sec)\<rparr>,
                  f\<lparr>buf_addr := Some (base, buf')\<rparr>))
           else (Success, sec, f)))"

definition rtw_aes_decrypt ::
  "bool \<Rightarrow> (bytes \<Rightarrow> bytes option) \<Rightarrow> security_priv \<Rightarrow> bytes \<Rightarrow> recv_frame
   \<Rightarrow> result \<times> security_priv \<times> bytes \<times> recv_frame" where
  "rtw_aes_decrypt ieee80211w find_sta sec message r =
     (let a = rx_attrib r in
      if rx_encrypt a = AES then
        (case find_sta (rx_ta a) of
           None \<Rightarrow> (Fail, sec, message, r)
         | Some uncst \<Rightarrow>
             if IS_MCAST (rx_ra a) \<and> \<not> binstallGrpkey sec then (Fail, sec, message, r)
             else if IS_MCAST (rx_ra a) \<and> dot118021XGrpKeyid sec \<noteq> ucast (rx_key_index a)
             then (Fail, sec, message, r)
             else
               (let prwskey = (if IS_MCAST (rx_ra a) then dot118021XGrpKey sec ! unat (rx_key_index a)
                               else uncst);
                    len = rx_len r - ucast (rx_hdrlen a) - ucast (rx_iv_len a);
                    (res, m, message') =
                      aes_decipher ieee80211w prwskey (unat (rx_hdrlen a)) len (rx_data r) message
                in (res, sec\<lparr>aes_sw_dec_cnt := sw_cnt_inc (rx_ra a) (aes_sw_dec_cnt sec)\<rparr>, message',
                    r\<lparr>rx_data := m\<rparr>)))
      else (Success, sec, message, r))"

section \<open>The modes over any block cipher\<close>

definition hdr_dep :: "nat \<Rightarrow> (bytes \<Rightarrow> 'a) \<Rightarrow> bool" where
  "hdr_dep k f \<longleftrightarrow> (\<forall>m m'. take k m = take k m' \<longrightarrow> f m = f m')"

lemma hdr_depD: "hdr_dep k f \<Longrightarrow> take k m = take k m' \<Longrightarrow> f m = f m'"
  unfolding hdr_dep_def by blast

lemma hdr_dep_nth: "i < k \<Longrightarrow> hdr_dep k (\<lambda>m. m ! i)"
  unfolding hdr_dep_def
proof (intro allI impI)
  fix m m' assume "i < k" and "take k m = take k m'"
  then have "take k m ! i = take k m' ! i" by simp
  with \<open>i < k\<close> show "m ! i = m' ! i" by simp
qed

lemma hdr_dep_store: "hdr_dep k f \<Longrightarrow> k \<le> off \<Longrightarrow> off + length src \<le> length m \<Longrightarrow> f (store m off src) = f m"
  by (erule hdr_depD) (rule take_store_before)

lemma length_bitwise_xor [simp, len_simps]: "length (bitwise_xor a b) = 16"
  by (simp add: bitwise_xor_def)

lemma bitwise_xor_eq: "length a = 16 \<Longrightarrow> 16 \<le> length b \<Longrightarrow> bitwise_xor a b = xor_bytes a (take 16 b)"
  by (rule nth_equalityI) (simp_all add: bitwise_xor_def)

text \<open>What counter mode adds to \<open>n\<close> bytes of payload: the encrypted counter blocks.\<close>

definition ctr_stream :: "(bytes \<Rightarrow> bytes) \<Rightarrow> (nat \<Rightarrow> bytes) \<Rightarrow> nat \<Rightarrow> nat \<Rightarrow> bytes" where
  "ctr_stream E ctr i n = concat (map (\<lambda>k. E (ctr (i + k + 1))) [0..<n])"

locale block_cipher =
  fixes E :: "bytes \<Rightarrow> bytes"
  assumes length_E [simp]: "length (E x) = 16"
begin

lemma length_ctr_stream [simp]: "length (ctr_stream E ctr i n) = 16 * n"
  by (induction n) (simp_all add: ctr_stream_def)

lemma ctr_stream_Suc: "ctr_stream E ctr i (Suc n) = E (ctr (i + 1)) @ ctr_stream E ctr (i + 1) n"
proof -
  have "[0..<Suc n] = 0 # map Suc [0..<n]" by (simp add: upt_conv_Cons map_Suc_upt del: upt_Suc)
  then show ?thesis by (simp add: ctr_stream_def o_def)
qed

lemma ctr_blocks_stream:
  assumes "hdr_dep h pre" and "h \<le> pi" and "pi + 16 * n \<le> length m"
  shows "ctr_blocks E pre pi i n m =
    store m pi (xor_bytes (seg m pi (16 * n)) (ctr_stream E (pre m) i n))"
  using assms(2,3)
proof (induction n arbitrary: pi i m)
  case 0
  then show ?case by (simp add: ctr_stream_def xor_bytes_def)
next
  case (Suc n)
  define b where "b = xor_bytes (seg m pi 16) (E (pre m (i + 1)))"
  have b: "bitwise_xor (E (pre m (i + 1))) (drop pi m) = b"
    using Suc.prems by (simp add: bitwise_xor_eq b_def seg_def xor_bytes_comm)
  have lb: "length b = 16" using Suc.prems by (simp add: b_def)
  let ?m = "store m pi b"
  have pre: "pre ?m = pre m"
    using Suc.prems lb by (intro hdr_dep_store [OF assms(1)]) simp_all
  have sg: "seg ?m (pi + 16) (16 * n) = seg m (pi + 16) (16 * n)"
    using Suc.prems lb by (intro seg_store_after) simp_all
  have "ctr_blocks E pre pi i (Suc n) m = ctr_blocks E pre (pi + 16) (i + 1) n ?m"
    by (simp only: ctr_blocks.simps b)
  also have "\<dots> = store ?m (pi + 16) (xor_bytes (seg m (pi + 16) (16 * n)) (ctr_stream E (pre m) (i + 1) n))"
    using Suc.prems lb by (subst Suc.IH) (simp_all add: pre sg)
  also have "\<dots> = store m pi (b @ xor_bytes (seg m (pi + 16) (16 * n)) (ctr_stream E (pre m) (i + 1) n))"
    using Suc.prems lb by (intro store_append) simp_all
  also have "b @ xor_bytes (seg m (pi + 16) (16 * n)) (ctr_stream E (pre m) (i + 1) n) =
      xor_bytes (seg m pi (16 * Suc n)) (ctr_stream E (pre m) i (Suc n))"
    using Suc.prems seg_append_split [of m pi 16 "16 * n"]
    by (simp add: b_def ctr_stream_Suc xor_bytes_append)
  finally show ?case .
qed

lemma xor_pad:
  assumes "length a = 16" and "length b = k" and "k \<le> 16"
  shows "take k (bitwise_xor a (b @ replicate (16 - k) 0)) = xor_bytes b (take k a)"
  using assms by (intro nth_equalityI) (simp_all add: bitwise_xor_def nth_append xor.commute)

lemma xor_bytes_take_longer:
  assumes "length a \<le> length b" shows "xor_bytes a b = xor_bytes a (take (length a) b)"
  using assms by (intro nth_equalityI) simp_all

lemma ctr_payload_stream:
  assumes "hdr_dep (hlen + 8) pre" and "hlen + 8 + n \<le> length m"
  shows "ctr_payload E pre hlen n m =
    store m (hlen + 8) (xor_bytes (seg m (hlen + 8) n) (ctr_stream E (pre m) 0 (Suc (n div 16))))"
proof -
  let ?pi = "hlen + 8" and ?q = "n div 16" and ?r = "n mod 16"
  have n: "n = 16 * ?q + ?r" by simp
  have q: "?pi + 16 * ?q \<le> length m" using assms(2) by simp
  define d where "d = xor_bytes (seg m ?pi (16 * ?q)) (ctr_stream E (pre m) 0 ?q)"
  have ld: "length d = 16 * ?q" using q by (simp add: d_def)
  have b: "ctr_blocks E pre ?pi 0 ?q m = store m ?pi d"
    using ctr_blocks_stream [OF assms(1) order_refl q, of 0] by (simp add: d_def)
  have pre: "pre (store m ?pi d) = pre m"
    using q ld by (intro hdr_dep_store [OF assms(1)]) simp_all
  have str: "ctr_stream E (pre m) 0 (Suc ?q) = ctr_stream E (pre m) 0 ?q @ E (pre m (?q + 1))"
    by (simp add: ctr_stream_def)
  let ?t = "xor_bytes (seg m (?pi + 16 * ?q) ?r) (E (pre m (?q + 1)))"
  have whole: "xor_bytes (seg m ?pi n) (ctr_stream E (pre m) 0 (Suc ?q)) = d @ ?t"
    using q seg_append_split [of m ?pi "16 * ?q" ?r] by (simp add: str d_def xor_bytes_append)
  show ?thesis
  proof (cases "?r = 0")
    case True
    then show ?thesis unfolding whole by (simp add: ctr_payload_def Let_def b xor_bytes_def)
  next
    case False
    have s: "seg (store m ?pi d) (?pi + 16 * ?q) ?r = seg m (?pi + 16 * ?q) ?r"
      using assms(2) ld n by (intro seg_store_after) simp_all
    have ls: "length (seg m (?pi + 16 * ?q) ?r) = ?r" using assms(2) n by simp
    have "ctr_payload E pre hlen n m = store (store m ?pi d) (?pi + 16 * ?q)
        (take ?r (bitwise_xor (E (pre m (?q + 1))) (seg m (?pi + 16 * ?q) ?r @ replicate (16 - ?r) 0)))"
      using False by (simp add: ctr_payload_def Let_def b pre s)
    also have "take ?r (bitwise_xor (E (pre m (?q + 1))) (seg m (?pi + 16 * ?q) ?r @ replicate (16 - ?r) 0)) = ?t"
      using ls xor_bytes_take_longer [of "seg m (?pi + 16 * ?q) ?r" "E (pre m (?q + 1))"]
      by (subst xor_pad) simp_all
    also have "store (store m ?pi d) (?pi + 16 * ?q) ?t = store m ?pi (d @ ?t)"
      using assms(2) ld n by (intro store_append) simp_all
    finally show ?thesis unfolding whole .
  qed
qed

lemma ctr_mic_stream:
  assumes "hdr_dep (hlen + 8) pre" and "hlen + 8 + n + 8 \<le> length m"
  shows "ctr_mic E pre hlen n m =
    store m (hlen + 8 + n) (xor_bytes (seg m (hlen + 8 + n) 8) (E (pre m 0)))"
proof -
  have l: "length (seg m (hlen + 8 + n) 8) = 8" using assms(2) by simp
  have "take 8 (bitwise_xor (E (pre m 0)) (seg m (hlen + 8 + n) 8 @ replicate (16 - 8) 0)) =
      xor_bytes (seg m (hlen + 8 + n) 8) (E (pre m 0))"
    using l xor_bytes_take_longer [of "seg m (hlen + 8 + n) 8" "E (pre m 0)"]
    by (subst xor_pad) simp_all
  then show ?thesis by (simp add: ctr_mic_def Let_def)
qed

end

section \<open>What the blocks depend on\<close>

lemma nth_take_eq: "take k m = take k m' \<Longrightarrow> i < k \<Longrightarrow> m ! i = m' ! i"
  using nth_take [of i k m] nth_take [of i k m'] by simp

lemma take_eq_le: "take k m = take k m' \<Longrightarrow> j \<le> k \<Longrightarrow> take j m = take j m'"
proof -
  assume eq: "take k m = take k m'" and "j \<le> k"
  then have j: "min j k = j" by simp
  have "take j (take k m) = take j (take k m')" by (simp only: eq)
  then show "take j m = take j m'" by (simp only: take_take j)
qed

lemma seg_take_eq: "take k m = take k m' \<Longrightarrow> i + n \<le> k \<Longrightarrow> seg m i n = seg m' i n"
  using take_eq_le [of k m m' "i + n"] by (simp add: seg_def take_drop add.commute)

text \<open>The payload starts at byte 32 or later, and the header is read up to byte 31.\<close>

lemma hdr_blocks_cong:
  assumes "take k m = take k m'" and "32 \<le> k"
  shows "GetFrameType m = GetFrameType m'" and "get_frame_sub_type m = get_frame_sub_type m'"
    and "nonce_flags w qc a4 m ft = nonce_flags w qc a4 m' ft"
    and "construct_mic_iv w qc a4 m n pn ft = construct_mic_iv w qc a4 m' n pn ft"
    and "construct_mic_header1 w h m ft = construct_mic_header1 w h m' ft"
    and "construct_mic_header2 m a4 qc = construct_mic_header2 m' a4 qc"
    and "construct_ctr_preload w a4 qc m pn c ft = construct_ctr_preload w a4 qc m' pn c ft"
proof -
  have i: "m ! i = m' ! i" if "i < 32" for i
    using assms that by (intro nth_take_eq [OF assms(1)]) simp
  have a2: "map (\<lambda>i. m ! (i + 8)) [2..<8] = map (\<lambda>i. m' ! (i + 8)) [2..<8]"
    "map ((!) m) [4..<16] = map ((!) m') [4..<16]" "map ((!) m) [16..<22] = map ((!) m') [16..<22]"
    "map (\<lambda>i. m ! (24 + i)) [0..<6] = map (\<lambda>i. m' ! (24 + i)) [0..<6]"
    by (auto simp only: map_eq_conv set_upt atLeastLessThan_iff intro!: i)
  have i': "m ! 0 = m' ! 0" "m ! 1 = m' ! 1" "m ! 24 = m' ! 24" "m ! 25 = m' ! 25" "m ! 30 = m' ! 30"
    "m ! 31 = m' ! 31"
    by (simp_all add: i)
  show "GetFrameType m = GetFrameType m'" and "get_frame_sub_type m = get_frame_sub_type m'"
    and nf: "nonce_flags w qc a4 m ft = nonce_flags w qc a4 m' ft"
    by (simp_all only: GetFrameType_def get_frame_sub_type_def nonce_flags_def i')
  show "construct_mic_iv w qc a4 m n pn ft = construct_mic_iv w qc a4 m' n pn ft"
    and "construct_ctr_preload w a4 qc m pn c ft = construct_ctr_preload w a4 qc m' pn c ft"
    by (simp_all only: construct_mic_iv_def construct_ctr_preload_def nf a2)
  show "construct_mic_header1 w h m ft = construct_mic_header1 w h m' ft"
    and "construct_mic_header2 m a4 qc = construct_mic_header2 m' a4 qc"
    by (simp_all only: construct_mic_header1_def construct_mic_header2_def a2 i')
qed

lemma qos_adjust_cong: "take k m = take k m' \<Longrightarrow> 32 \<le> k \<Longrightarrow> qos_adjust m h = qos_adjust m' h"
  by (simp only: qos_adjust_def hdr_blocks_cong(1) [of k m m'] hdr_blocks_cong(2) [of k m m'])

lemma pn_at_cong: "take k m = take k m' \<Longrightarrow> h + 8 \<le> k \<Longrightarrow> pn_at m h = pn_at m' h"
  unfolding pn_at_def by (auto intro!: nth_take_eq [of k])

lemma mac_blocks_cong:
  "take k m = take k m' \<Longrightarrow> pi + 16 * n \<le> k \<Longrightarrow> k \<le> length m \<Longrightarrow> k \<le> length m' \<Longrightarrow>
   mac_blocks E m pi n acc = mac_blocks E m' pi n acc"
proof (induction n arbitrary: pi acc)
  case 0
  then show ?case by simp
next
  case (Suc n)
  have "bitwise_xor acc (drop pi m) = bitwise_xor acc (drop pi m')"
    unfolding bitwise_xor_def using Suc.prems nth_take_eq [OF Suc.prems(1)] by auto
  moreover have "pi + 16 + 16 * n \<le> k" using Suc.prems(2) by simp
  ultimately show ?case using Suc by simp
qed

lemma calc_mic_cong:
  assumes "take k m = take k m'" and "24 \<le> h" and "h + 8 + n \<le> k" and "k \<le> length m" and "k \<le> length m'"
  shows "calc_mic E w qc a4 ft h n pn m = calc_mic E w qc a4 ft h n pn m'"
proof -
  let ?q = "n div 16" and ?r = "n mod 16"
  have n: "n = 16 * ?q + ?r" by simp
  have k: "32 \<le> k" using assms by simp
  note c = hdr_blocks_cong(4-6) [OF assms(1) k]
  have m: "mac_blocks E m (h + 8) ?q acc = mac_blocks E m' (h + 8) ?q acc" for acc
    using assms n by (intro mac_blocks_cong [of k]) simp_all
  have s: "seg m (h + 8 + 16 * ?q) ?r = seg m' (h + 8 + 16 * ?q) ?r"
    using assms n by (intro seg_take_eq [of k]) simp_all
  show ?thesis unfolding calc_mic_def Let_def c m s ..
qed

section \<open>The frame CCMP makes\<close>

definition ccm_mic :: "bool \<Rightarrow> bytes \<Rightarrow> nat \<Rightarrow> nat \<Rightarrow> bytes \<Rightarrow> bytes" where
  "ccm_mic w key h n m =
     calc_mic (aes128k128d key) w (fst (qos_adjust m h)) (a4_of h) (GetFrameType m) h n (pn_at m h) m"

definition ccm_ctr :: "bool \<Rightarrow> nat \<Rightarrow> bytes \<Rightarrow> nat \<Rightarrow> bytes" where
  "ccm_ctr w h m c =
     construct_ctr_preload w (a4_of h) (fst (qos_adjust m h)) m (pn_at m h) c (GetFrameType m)"

definition ccm_ks :: "bool \<Rightarrow> bytes \<Rightarrow> nat \<Rightarrow> nat \<Rightarrow> bytes \<Rightarrow> bytes" where
  "ccm_ks w key h n m = take n (ctr_stream (aes128k128d key) (ccm_ctr w h m) 0 (Suc (n div 16)))"

definition ccm_mic_ks :: "bool \<Rightarrow> bytes \<Rightarrow> nat \<Rightarrow> bytes \<Rightarrow> bytes" where
  "ccm_mic_ks w key h m = take 8 (aes128k128d key (ccm_ctr w h m 0))"

definition ccm_seal :: "bool \<Rightarrow> bytes \<Rightarrow> nat \<Rightarrow> nat \<Rightarrow> bytes \<Rightarrow> bytes" where
  "ccm_seal w key h n m = store m (h + 8)
     (xor_bytes (seg m (h + 8) n) (ccm_ks w key h n m) @ xor_bytes (ccm_mic w key h n m) (ccm_mic_ks w key h m))"

text \<open>The header length agrees with the frame type, so that \<open>qos_adjust\<close> keeps it.\<close>

definition ccm_hdr_ok :: "nat \<Rightarrow> bytes \<Rightarrow> bool" where
  "ccm_hdr_ok h m \<longleftrightarrow> 24 \<le> h \<and> snd (qos_adjust m h) = h"

interpretation aes: block_cipher "aes128k128d key" for key
  by unfold_locales simp

lemma length_ccm_mic [simp]: "length (ccm_mic w key h n m) = 8"
  by (simp add: ccm_mic_def calc_mic_def Let_def)

lemma length_ccm_ks [simp]: "length (ccm_ks w key h n m) = n"
proof -
  have "n \<le> 16 * Suc (n div 16)" by (simp add: less_imp_le_nat dividend_less_times_div)
  then show ?thesis by (simp add: ccm_ks_def min_absorb2)
qed

lemma length_ccm_mic_ks [simp]: "length (ccm_mic_ks w key h m) = 8"
  by (simp add: ccm_mic_ks_def)

lemma ccm_cong:
  assumes "take k m = take k m'" and "24 \<le> h" and "h + 8 \<le> k"
  shows "ccm_ctr w h m = ccm_ctr w h m'" and "ccm_ks w key h n m = ccm_ks w key h n m'"
    and "ccm_mic_ks w key h m = ccm_mic_ks w key h m'"
proof -
  have k: "32 \<le> k" using assms by simp
  show c: "ccm_ctr w h m = ccm_ctr w h m'"
    by (intro ext) (simp only: ccm_ctr_def hdr_blocks_cong(7) [OF assms(1) k] hdr_blocks_cong(1) [OF assms(1) k]
      qos_adjust_cong [OF assms(1) k] pn_at_cong [OF assms(1,3)])
  show "ccm_ks w key h n m = ccm_ks w key h n m'" and "ccm_mic_ks w key h m = ccm_mic_ks w key h m'"
    by (simp_all only: ccm_ks_def ccm_mic_ks_def c)
qed

lemma ccm_mic_cong:
  assumes "take k m = take k m'" and "24 \<le> h" and "h + 8 + n \<le> k" and "k \<le> length m" and "k \<le> length m'"
  shows "ccm_mic w key h n m = ccm_mic w key h n m'"
proof -
  have k: "32 \<le> k" "h + 8 \<le> k" using assms by simp_all
  show ?thesis
    unfolding ccm_mic_def hdr_blocks_cong(1) [OF assms(1) k(1)] qos_adjust_cong [OF assms(1) k(1)]
      pn_at_cong [OF assms(1) k(2)] calc_mic_cong [OF assms] ..
qed

section \<open>Cipher and decipher in one equation\<close>

lemma store_cover:
  "p \<le> q \<Longrightarrow> q + length b \<le> p + length a \<Longrightarrow> p + length a \<le> length m \<Longrightarrow> store (store m q b) p a = store m p a"
  by (rule nth_equalityI) (auto simp: nth_store)

lemma hdr_dep_ctr: "32 \<le> k \<Longrightarrow> hdr_dep k (\<lambda>m c. construct_ctr_preload w a4 qc m pn c ft)"
  unfolding hdr_dep_def by (intro allI impI ext) (rule hdr_blocks_cong(7))

text \<open>The body of \<open>aes_cipher\<close>, with the values it computes from the header as arguments.\<close>

lemma ccm_body:
  fixes pre :: "bytes \<Rightarrow> nat \<Rightarrow> bytes" and mic :: bytes
  assumes E: "block_cipher E" and pre: "hdr_dep (h + 8) pre" and fit: "h + 16 + n \<le> length m" and mic: "length mic = 8"
  shows "ctr_mic E pre h n (ctr_payload E pre h n (store m (h + 8 + n) mic)) =
    store m (h + 8) (xor_bytes (seg m (h + 8) n) (take n (ctr_stream E (pre m) 0 (Suc (n div 16))))
      @ xor_bytes mic (take 8 (E (pre m 0))))"
proof -
  let ?p = "h + 8"
  let ?ks = "ctr_stream E (pre m) 0 (Suc (n div 16))"
  note l = block_cipher.length_E [OF E]
  have ks: "n \<le> length ?ks"
    by (simp add: block_cipher.length_ctr_stream [OF E] less_imp_le_nat dividend_less_times_div)
  define m1 where "m1 = store m (?p + n) mic"
  define d where "d = xor_bytes (seg m ?p n) (take n ?ks)"
  have l1: "length m1 = length m" using fit mic by (simp add: m1_def)
  have ls: "length (seg m ?p n) = n" using fit by simp
  have ld: "length d = n" using ls ks by (simp add: d_def)
  have p1: "pre m1 = pre m" unfolding m1_def using fit mic by (intro hdr_dep_store [OF pre]) simp_all
  have s1: "seg m1 ?p n = seg m ?p n" unfolding m1_def using fit mic by (intro seg_store_before) simp_all
  define m2 where "m2 = store m1 ?p d"
  have m2: "ctr_payload E pre h n m1 = m2"
    using block_cipher.ctr_payload_stream [OF E pre, of n m1] fit l1 ls ks
      block_cipher.xor_bytes_take_longer [OF E, of "seg m ?p n" ?ks]
    by (simp add: m2_def d_def p1 s1)
  have p2: "pre m2 = pre m"
    unfolding m2_def p1 [symmetric] using fit ld l1 by (intro hdr_dep_store [OF pre]) simp_all
  have s2: "seg m2 (?p + n) 8 = mic"
  proof -
    have "seg m2 (?p + n) 8 = seg m1 (?p + n) 8"
      unfolding m2_def using fit ld l1 by (intro seg_store_after) simp_all
    also have "\<dots> = mic" unfolding m1_def using fit mic by (intro seg_store_same) simp_all
    finally show ?thesis .
  qed
  have l2: "length m2 = length m" unfolding m2_def using fit ld l1 by simp
  let ?e = "xor_bytes mic (take 8 (E (pre m 0)))"
  have "ctr_mic E pre h n m2 = store m2 (?p + n) ?e"
    using block_cipher.ctr_mic_stream [OF E pre, of n m2] fit ld l1 mic
      block_cipher.xor_bytes_take_longer [OF E, of mic "E (pre m 0)"] l
    by (simp add: p2 s2 l2)
  also have "\<dots> = store m1 ?p (d @ ?e)"
    unfolding m2_def using fit ld l1 mic l by (intro store_append) simp_all
  also have "\<dots> = store m ?p (d @ ?e)"
    unfolding m1_def using fit ld mic l by (intro store_cover) simp_all
  finally show ?thesis by (simp add: m2 d_def m1_def [symmetric])
qed

lemma aes_cipher_seal:
  assumes ok: "ccm_hdr_ok h m" and fit: "h + 16 + unat len \<le> length m"
  shows "aes_cipher w key h len m = ccm_seal w key h (unat len) m"
proof -
  have q: "qos_adjust m h = (fst (qos_adjust m h), h)" using ok by (simp add: ccm_hdr_ok_def prod_eq_iff)
  have h: "24 \<le> h" using ok by (simp add: ccm_hdr_ok_def)
  let ?pre = "\<lambda>m' c. construct_ctr_preload w (a4_of h) (fst (qos_adjust m h)) m' (pn_at m h) c (GetFrameType m)"
  have pre: "hdr_dep (h + 8) ?pre" using h by (intro hdr_dep_ctr) simp
  have c: "?pre m = ccm_ctr w h m" and c': "?pre m i = ccm_ctr w h m i" for i
    by (simp_all add: ccm_ctr_def fun_eq_iff)
  have "aes_cipher w key h len m = (let n = unat len in
      ctr_mic (aes128k128d key) ?pre h n (ctr_payload (aes128k128d key) ?pre h n (store m (h + 8 + n) (ccm_mic w key h n m))))"
    unfolding aes_cipher_def ccm_mic_def by (subst q) (simp add: Let_def)
  also have "\<dots> = ccm_seal w key h (unat len) m"
    using ccm_body [OF aes.block_cipher_axioms pre fit length_ccm_mic]
    by (simp add: c c' ccm_seal_def ccm_ks_def ccm_mic_ks_def Let_def)
  finally show ?thesis .
qed

definition ccm_open :: "bool \<Rightarrow> bytes \<Rightarrow> nat \<Rightarrow> nat \<Rightarrow> bytes \<Rightarrow> bytes" where
  "ccm_open w key h n m = store m (h + 8) (xor_bytes (seg m (h + 8) n) (ccm_ks w key h n m))"

lemma length_ccm_seal [simp]: "h + 16 + n \<le> length m \<Longrightarrow> length (ccm_seal w key h n m) = length m"
  by (simp add: ccm_seal_def)

lemma length_ccm_open [simp]: "h + 8 + n \<le> length m \<Longrightarrow> length (ccm_open w key h n m) = length m"
  by (simp add: ccm_open_def)

lemma take_ccm_seal: "h + 16 + n \<le> length m \<Longrightarrow> take (h + 8) (ccm_seal w key h n m) = take (h + 8) m"
  unfolding ccm_seal_def by (rule take_store_before) simp_all

lemma take_ccm_open: "h + 8 + n \<le> length m \<Longrightarrow> take (h + 8) (ccm_open w key h n m) = take (h + 8) m"
  unfolding ccm_open_def by (rule take_store_before) simp_all

lemma ccm_hdr_ok_cong: "take k m = take k m' \<Longrightarrow> 32 \<le> k \<Longrightarrow> ccm_hdr_ok h m \<longleftrightarrow> ccm_hdr_ok h m'"
  unfolding ccm_hdr_ok_def using qos_adjust_cong [of k m m' h] by simp

lemma bytes8_eq:
  "k + 8 \<le> length a \<Longrightarrow> k + 8 \<le> length b \<Longrightarrow> (\<exists>i<8. a ! (k + i) \<noteq> b ! (k + i)) \<longleftrightarrow> seg a k 8 \<noteq> seg b k 8"
  by (auto simp: list_eq_iff_nth_eq)

lemma aes_decipher_open:
  fixes plen :: u32 and w :: bool and key m message :: bytes and h n :: nat
  assumes ok: "ccm_hdr_ok h m" and len: "unat plen = n + 8" and fit: "length m = h + 16 + n"
    and msg: "length message = MAX_MSG_SIZE" and small: "h + 16 + n \<le> MAX_MSG_SIZE"
  defines "d \<equiv> ccm_open w key h n m"
  shows "fst (aes_decipher w key h plen m message) =
      (if seg m (h + 8 + n) 8 = xor_bytes (ccm_mic w key h n d) (ccm_mic_ks w key h m) then Success else Fail)"
    and "fst (snd (aes_decipher w key h plen m message)) = d"
proof -
  have h: "24 \<le> h" using ok by (simp add: ccm_hdr_ok_def)
  have q: "qos_adjust m h = (fst (qos_adjust m h), h)" using ok by (simp add: ccm_hdr_ok_def prod_eq_iff)
  have n: "unat (plen - 8) = n"
  proof -
    have "(8 :: u32) \<le> plen" using len by (simp add: word_le_nat_alt)
    then show ?thesis using len by (simp add: unat_sub)
  qed
  let ?E = "aes128k128d key" and ?ft = "GetFrameType m" and ?a4 = "a4_of h" and ?qc = "fst (qos_adjust m h)"
  let ?pre = "\<lambda>pn m' c. construct_ctr_preload w ?a4 ?qc m' pn c ?ft"
  have pre: "hdr_dep (h + 8) (?pre pn)" for pn using h by (intro hdr_dep_ctr) simp
  have ld: "length d = length m" unfolding d_def using fit by simp
  have td: "take (h + 8) d = take (h + 8) m" unfolding d_def using fit by (simp add: take_ccm_open)
  have ks: "length (seg m (h + 8) n) \<le> length (ctr_stream ?E (ccm_ctr w h m) 0 (Suc (n div 16)))"
    using fit by (simp add: less_imp_le_nat dividend_less_times_div)
  have open1: "ctr_payload ?E (?pre (pn_at m h)) h n m = d"
    using aes.ctr_payload_stream [OF pre, of n m key] fit aes.xor_bytes_take_longer [OF ks]
    by (simp add: d_def ccm_open_def ccm_ks_def ccm_ctr_def [abs_def])
  have pn: "pn_at d h = pn_at m h" using td by (rule pn_at_cong) simp
  define mg where "mg = store message 0 d"
  have lmg: "length mg = MAX_MSG_SIZE" using msg fit small ld by (simp add: mg_def)
  have tmg: "take (h + 16 + n) mg = take (h + 16 + n) d" using ld fit by (simp add: mg_def store_def)
  have tmg8: "take (h + 8) mg = take (h + 8) m"
    using take_eq_le [OF tmg, of "h + 8"] td by simp
  have k: "32 \<le> h + 8" using h by simp
  note cg = hdr_blocks_cong(1) [OF tmg8 k] qos_adjust_cong [OF tmg8 k] pn_at_cong [OF tmg8 order_refl]
  have okmg: "ccm_hdr_ok h mg" using ok ccm_hdr_ok_cong [OF tmg8 k] by simp
  define sealed where "sealed = ctr_mic ?E (?pre (pn_at m h)) h n (ctr_payload ?E (?pre (pn_at m h)) h n
     (store mg (h + 8 + n) (calc_mic ?E w ?qc ?a4 ?ft h n (pn_at m h) mg)))"
  have micmg: "calc_mic ?E w ?qc ?a4 ?ft h n (pn_at m h) mg = ccm_mic w key h n mg"
    by (simp only: ccm_mic_def cg)
  have fitmg: "h + 16 + n \<le> length mg" using lmg small by simp
  have premg: "?pre (pn_at m h) mg i = ccm_ctr w h mg i" for i by (simp add: ccm_ctr_def cg)
  have sl: "sealed = ccm_seal w key h n mg"
    unfolding sealed_def micmg ccm_body [OF aes.block_cipher_axioms pre fitmg length_ccm_mic]
    by (simp add: ccm_seal_def ccm_ks_def ccm_mic_ks_def premg)
  then have "seg sealed (h + 8 + n) 8 = xor_bytes (ccm_mic w key h n mg) (ccm_mic_ks w key h mg)"
    unfolding ccm_seal_def using fitmg by (simp add: seg_store_tail)
  also have "ccm_mic w key h n mg = ccm_mic w key h n d"
    using tmg h ld fit fitmg by (intro ccm_mic_cong [of "h + 16 + n"]) simp_all
  also have "ccm_mic_ks w key h mg = ccm_mic_ks w key h m"
    using tmg8 h by (intro ccm_cong(3) [of "h + 8"]) simp_all
  finally have mic: "seg sealed (h + 8 + n) 8 = xor_bytes (ccm_mic w key h n d) (ccm_mic_ks w key h m)" .
  have lsd: "length sealed = length mg"
    unfolding sl using fitmg by simp
  have segd: "seg d (h + 8 + n) 8 = seg m (h + 8 + n) 8"
    unfolding d_def ccm_open_def using fit by (intro seg_store_after) simp_all
  have cp: "(if h + (n + 8) + 8 \<le> MAX_MSG_SIZE then store message 0 (take (h + (n + 8) + 8) d) else message) = mg"
    using small ld fit by (simp add: mg_def)
  have dec: "aes_decipher w key h plen m message =
      (if \<exists>i<8. d ! (h + 8 + n + i) \<noteq> sealed ! (h + 8 + n + i) then Fail else Success, d, sealed)"
    unfolding aes_decipher_def Let_def [where 'a = nat] Let_def [where 'a = "bytes \<Rightarrow> bytes"]
      Let_def [where 'a = u16] Let_def [where 'a = bool] Let_def [where 'a = "bytes \<Rightarrow> nat \<Rightarrow> bytes"]
      Let_def [where 'a = result] Let_def [of "pn_at m h"] len n
    by (subst q) (simp only: prod.case open1 pn cp Let_def [of d] Let_def [of "pn_at m h"] Let_def [of mg] sealed_def Let_def)
  have "(\<exists>i<8. d ! (h + 8 + n + i) \<noteq> sealed ! (h + 8 + n + i)) \<longleftrightarrow> seg d (h + 8 + n) 8 \<noteq> seg sealed (h + 8 + n) 8"
    using ld fit lsd fitmg by (intro bytes8_eq) simp_all
  then show "fst (aes_decipher w key h plen m message) =
      (if seg m (h + 8 + n) 8 = xor_bytes (ccm_mic w key h n d) (ccm_mic_ks w key h m) then Success else Fail)"
    unfolding dec mic segd by simp
  show "fst (snd (aes_decipher w key h plen m message)) = d" by (simp add: dec)
qed

text \<open>Opening a sealed frame, and sealing an opened one.\<close>

lemma ccm_open_seal:
  fixes w :: bool and key m :: bytes and h n :: nat
  assumes h: "24 \<le> h" and fit: "length m = h + 16 + n"
  defines "s \<equiv> ccm_seal w key h n m"
  shows "ccm_open w key h n s = store m (h + 8 + n) (seg s (h + 8 + n) 8)"
    and "seg s (h + 8 + n) 8 = xor_bytes (ccm_mic w key h n m) (ccm_mic_ks w key h m)"
proof -
  let ?x = "xor_bytes (seg m (h + 8) n) (ccm_ks w key h n m)"
  let ?y = "xor_bytes (ccm_mic w key h n m) (ccm_mic_ks w key h m)"
  have lx: "length ?x = n" "length ?y = 8" using fit by simp_all
  have s: "s = store m (h + 8) (?x @ ?y)" by (simp add: s_def ccm_seal_def)
  have sx: "seg s (h + 8) n = ?x" unfolding s using fit lx by (intro seg_store_head) simp_all
  show sy: "seg s (h + 8 + n) 8 = ?y" unfolding s using fit lx by (intro seg_store_tail) simp_all
  have ks: "ccm_ks w key h n s = ccm_ks w key h n m"
    unfolding s_def using h fit by (intro ccm_cong(2) [of "h + 8"]) (simp_all add: take_ccm_seal)
  have "ccm_open w key h n s = store s (h + 8) (seg m (h + 8) n)"
    using fit by (simp add: ccm_open_def sx ks)
  also have "\<dots> = store m (h + 8 + n) ?y"
    unfolding s using fit lx by (intro nth_equalityI) (auto simp: nth_store nth_append)
  finally show "ccm_open w key h n s = store m (h + 8 + n) (seg s (h + 8 + n) 8)" by (simp only: sy)
qed

lemma ccm_seal_open:
  fixes w :: bool and key m :: bytes and h n :: nat
  assumes h: "24 \<le> h" and fit: "length m = h + 16 + n"
  defines "d \<equiv> ccm_open w key h n m"
  assumes icv: "seg m (h + 8 + n) 8 = xor_bytes (ccm_mic w key h n d) (ccm_mic_ks w key h m)"
  shows "ccm_seal w key h n d = m"
proof -
  have td: "take (h + 8) d = take (h + 8) m" unfolding d_def using fit by (simp add: take_ccm_open)
  have c: "ccm_ks w key h n d = ccm_ks w key h n m" "ccm_mic_ks w key h d = ccm_mic_ks w key h m"
    using td h ccm_cong(2,3) [of "h + 8" d m h] by simp_all
  let ?x = "xor_bytes (seg m (h + 8) n) (ccm_ks w key h n m)"
  have d: "d = store m (h + 8) ?x" by (simp add: d_def ccm_open_def)
  have sd: "seg d (h + 8) n = ?x" unfolding d using fit by (intro seg_store_same) simp_all
  have "ccm_seal w key h n d = store d (h + 8) (seg m (h + 8) n @ seg m (h + 8 + n) 8)"
    using fit by (simp add: ccm_seal_def c sd icv)
  also have "\<dots> = store d (h + 8) (seg m (h + 8) (n + 8))" by (simp add: seg_append_split)
  also have "\<dots> = m" unfolding d using fit by (intro nth_equalityI) (auto simp: nth_store)
  finally show ?thesis .
qed

section \<open>CCMP as a cipher of fragments\<close>

lemma store_take_drop:
  "off + length src \<le> k \<Longrightarrow> k \<le> length m \<Longrightarrow> store (take k m) off src @ drop k m = store m off src"
  by (rule nth_equalityI) (auto simp: nth_store nth_append)

interpretation ccmp: hdr_cipher "aes_cipher w key h" "h + 16" "ccm_hdr_ok h" for w key h
proof unfold_locales
  fix m :: bytes and len :: u32 and k :: nat
  show ok: "ccm_hdr_ok h (take k m) \<longleftrightarrow> ccm_hdr_ok h m" if "h + 16 \<le> k" and "k \<le> length m" for k m
  proof (cases "24 \<le> h")
    case True
    with that show ?thesis by (intro ccm_hdr_ok_cong [of "h + 16"]) (simp_all add: min_absorb1)
  qed (simp add: ccm_hdr_ok_def)
  assume a: "ccm_hdr_ok h m" "unat len < 2 ^ 31" "h + 16 + unat len \<le> length m"
  then show "length (aes_cipher w key h len m) = length m" by (simp add: aes_cipher_seal)
  let ?k = "h + 16 + unat len" and ?n = "unat len"
  have h: "24 \<le> h" using a(1) by (simp add: ccm_hdr_ok_def)
  have t: "take ?k (take ?k m) = take ?k m" by simp
  have t8: "take (h + 8) (take ?k m) = take (h + 8) m" by (simp add: min_absorb1)
  have c: "ccm_ks w key h ?n (take ?k m) = ccm_ks w key h ?n m" "ccm_mic_ks w key h (take ?k m) = ccm_mic_ks w key h m"
    using h t8 ccm_cong(2,3) [of "h + 8" "take ?k m" m h] by simp_all
  have mic: "ccm_mic w key h ?n (take ?k m) = ccm_mic w key h ?n m"
    using h a t by (intro ccm_mic_cong [of ?k]) simp_all
  have s: "seg (take ?k m) (h + 8) ?n = seg m (h + 8) ?n"
    using t by (intro seg_take_eq [of ?k]) simp_all
  have ok': "ccm_hdr_ok h (take ?k m)" using a ok by simp
  have "aes_cipher w key h len (take ?k m) = ccm_seal w key h ?n (take ?k m)"
    using ok' a(3) by (intro aes_cipher_seal) simp_all
  moreover have "aes_cipher w key h len m = ccm_seal w key h ?n m"
    using a by (intro aes_cipher_seal) simp_all
  moreover have "ccm_seal w key h ?n m = ccm_seal w key h ?n (take ?k m) @ drop ?k m"
    unfolding ccm_seal_def s c mic using a(3) by (subst store_take_drop) simp_all
  ultimately show "aes_cipher w key h len m = aes_cipher w key h len (take ?k m) @ drop ?k m" by simp
qed

lemma aes_decipher_cipher:
  fixes len :: u32
  assumes ok: "ccm_hdr_ok h m0" and fit: "length m0 = h + 16 + unat len" and len: "unat len < 2 ^ 31"
    and msg: "length message = MAX_MSG_SIZE" and small: "h + 16 + unat len \<le> MAX_MSG_SIZE"
    and m: "m = aes_cipher w key h len m0"
  shows "fst (aes_decipher w key h (len + 8) m message) = Success \<and>
    fst (snd (aes_decipher w key h (len + 8) m message)) = store m0 (h + 8 + unat len) (seg m (h + 8 + unat len) 8)"
proof -
  let ?n = "unat len"
  have l8: "unat (len + 8) = ?n + 8" using len by (simp add: unat_word_ariths)
  have h: "24 \<le> h" using ok by (simp add: ccm_hdr_ok_def)
  have s: "m = ccm_seal w key h ?n m0" unfolding m using ok fit by (simp add: aes_cipher_seal)
  have t: "take (h + 8) m = take (h + 8) m0" unfolding s using fit by (simp add: take_ccm_seal)
  have okm: "ccm_hdr_ok h m" using ccm_hdr_ok_cong [OF t, of h] h ok by simp
  have fm: "length m = h + 16 + ?n" unfolding s using fit by simp
  have op: "ccm_open w key h ?n m = store m0 (h + 8 + ?n) (seg m (h + 8 + ?n) 8)"
    and ic: "seg m (h + 8 + ?n) 8 = xor_bytes (ccm_mic w key h ?n m0) (ccm_mic_ks w key h m0)"
    unfolding s using ccm_open_seal [OF h fit] by simp_all
  have l8s: "length (seg m (h + 8 + ?n) 8) = 8" using fm by simp
  have t0: "take (h + 8 + ?n) (ccm_open w key h ?n m) = take (h + 8 + ?n) m0"
    unfolding op using fit l8s by (intro take_store_before) simp_all
  have "ccm_mic w key h ?n (ccm_open w key h ?n m) = ccm_mic w key h ?n m0"
    using t0 h fit fm by (intro ccm_mic_cong [of "h + 8 + ?n"]) simp_all
  moreover have "ccm_mic_ks w key h m = ccm_mic_ks w key h m0"
    using h t by (intro ccm_cong(3) [of "h + 8"]) simp_all
  ultimately show ?thesis
    using aes_decipher_open [OF okm l8 fm msg small, of w key] op ic by simp
qed

text \<open>C30: A frame decrypts successfully exactly if some plain frame encrypts to it: CCMP accepts
  nothing but the frames the sender's key produces. The static copy buffer must have room for
  the frame.\<close>

theorem aes_decipher_accepts_iff:
  fixes len :: u32
  assumes ok: "ccm_hdr_ok h m" and fit: "length m = h + 16 + unat len" and len: "unat len < 2 ^ 31"
    and msg: "length message = MAX_MSG_SIZE" and small: "h + 16 + unat len \<le> MAX_MSG_SIZE"
  shows "fst (aes_decipher w key h (len + 8) m message) = Success \<longleftrightarrow>
    (\<exists>m0. length m0 = length m \<and> ccm_hdr_ok h m0 \<and> aes_cipher w key h len m0 = m)"
proof -
  let ?n = "unat len"
  have l8: "unat (len + 8) = ?n + 8" using len by (simp add: unat_word_ariths)
  have h: "24 \<le> h" using ok by (simp add: ccm_hdr_ok_def)
  note o = aes_decipher_open [OF ok l8 fit msg small, of w key]
  show ?thesis
  proof
    let ?d = "ccm_open w key h ?n m"
    assume "fst (aes_decipher w key h (len + 8) m message) = Success"
    then have s: "ccm_seal w key h ?n ?d = m"
      unfolding o(1) using h fit by (intro ccm_seal_open) (simp_all split: if_splits)
    have td: "take (h + 8) ?d = take (h + 8) m" using fit by (simp add: take_ccm_open)
    have "ccm_hdr_ok h ?d" using ccm_hdr_ok_cong [OF td, of h] h ok by simp
    moreover from this have "aes_cipher w key h len ?d = m"
      using s fit aes_cipher_seal [of h ?d len w key] by simp
    ultimately show "\<exists>m0. length m0 = length m \<and> ccm_hdr_ok h m0 \<and> aes_cipher w key h len m0 = m"
      using fit by (intro exI [of _ ?d]) simp
  next
    assume "\<exists>m0. length m0 = length m \<and> ccm_hdr_ok h m0 \<and> aes_cipher w key h len m0 = m"
    then obtain m0 where m0: "length m0 = length m" "ccm_hdr_ok h m0" "aes_cipher w key h len m0 = m" by blast
    have f0: "length m0 = h + 16 + ?n" using m0 fit by simp
    show "fst (aes_decipher w key h (len + 8) m message) = Success"
      using aes_decipher_cipher [OF m0(2) f0 len msg small m0(3) [symmetric]] by blast
  qed
qed

section \<open>The whole frame\<close>

definition ccmp_tx_key :: "security_priv \<Rightarrow> pkt_attrib \<Rightarrow> bytes" where
  "ccmp_tx_key sec a = (if IS_MCAST (ra a) then dot118021XGrpKey sec ! unat (dot118021XGrpKeyid sec)
     else dot118021x_UncstKey a)"

definition ccmp_rx_key :: "(bytes \<Rightarrow> bytes option) \<Rightarrow> security_priv \<Rightarrow> rx_pkt_attrib \<Rightarrow> bytes option" where
  "ccmp_rx_key find_sta sec a =
     (case find_sta (rx_ta a) of
        None \<Rightarrow> None
      | Some uncst \<Rightarrow>
          if IS_MCAST (rx_ra a) then
            (if binstallGrpkey sec \<and> dot118021XGrpKeyid sec = ucast (rx_key_index a)
             then Some (dot118021XGrpKey sec ! unat (rx_key_index a)) else None)
          else Some uncst)"

lemma rtw_aes_decrypt_key:
  fixes w :: bool and message key :: bytes and r :: recv_frame
  assumes "rx_encrypt (rx_attrib r) = AES" and "ccmp_rx_key find_sta sec (rx_attrib r) = Some key"
  defines "d \<equiv> aes_decipher w key (unat (rx_hdrlen (rx_attrib r)))
     (rx_len r - ucast (rx_hdrlen (rx_attrib r)) - ucast (rx_iv_len (rx_attrib r))) (rx_data r) message"
  shows "fst (rtw_aes_decrypt w find_sta sec message r) = fst d"
    and "rx_data (snd (snd (snd (rtw_aes_decrypt w find_sta sec message r)))) = fst (snd d)"
  using assms(1,2) unfolding d_def
  by (auto simp: rtw_aes_decrypt_def ccmp_rx_key_def Let_def case_prod_unfold split: option.splits if_splits)

text \<open>C29: Software CCMP round trip. Whatever fragment of a frame encrypted by rtw_aes_encrypt the
  receiver gets, rtw_aes_decrypt with the same temporal key returns success and restores header,
  IV and payload (the MIC stays encrypted), provided the header lengths agree with the frame
  types and the frame fits the receiver's static copy buffer.\<close>

theorem ccmp_roundtrip:
  fixes f :: xmit_frame and r :: recv_frame and sec rsec :: security_priv and fl :: u32 and w :: bool
  defines "a \<equiv> attrib f" and "x \<equiv> rx_attrib r"
  defines "hdr \<equiv> unat (hdrlen (attrib f))" and "nr \<equiv> unat (nr_frags (attrib f))"
    and "lm \<equiv> frag_length fl (attrib f)" and "ll \<equiv> frag_length (last_txcmdsz (attrib f)) (attrib f)"
  assumes buf: "buf_addr f = Some (base, buf)"
    and alg: "encrypt a = AES" and ralg: "rx_encrypt x = AES"
    and riv: "rx_iv_len x = 8" and rhdr: "unat (rx_hdrlen x) = hdr"
    and fit: "frags_fit (hdr + 16) base fl lm ll nr TXDESC_OFFSET (length buf)"
    and hdrs: "frags_ok (ccm_hdr_ok hdr) base fl nr TXDESC_OFFSET buf"
    and i: "i < nr" and l: "l = (if Suc i = nr then ll else lm)"
    and start: "start = frag_start base fl i TXDESC_OFFSET"
    and key: "ccmp_rx_key find_sta rsec x = Some (ccmp_tx_key sec a)"
    and air: "buf_addr (snd (snd (rtw_aes_encrypt w sec fl f))) = Some (base, buf')"
    and n: "n = hdr + 16 + unat l" and msg: "length message = MAX_MSG_SIZE" and small: "n \<le> MAX_MSG_SIZE"
    and rx: "rx_len r = of_nat n" "rx_data r = seg buf' start n"
  shows "fst (rtw_aes_decrypt w find_sta rsec message r) = Success \<and>
    seg (rx_data (snd (snd (snd (rtw_aes_decrypt w find_sta rsec message r))))) 0 (n - 8) = seg buf start (n - 8)"
proof -
  let ?k = "ccmp_tx_key sec a"
  have l31: "unat l < 2 ^ 31" using fit l by (simp add: frags_fit_def)
  have sz: "start + n \<le> length buf" unfolding start n using frags_fit_in [OF fit i l] by simp
  have buf': "buf' = each_fragment (aes_cipher w ?k hdr) base fl lm ll nr TXDESC_OFFSET buf"
    using air buf alg
    by (simp add: rtw_aes_encrypt_def Let_def a_def hdr_def nr_def lm_def ll_def ccmp_tx_key_def)
  let ?m0 = "seg buf start n"
  have data: "rx_data r = aes_cipher w ?k hdr l ?m0"
    unfolding rx n start buf' by (rule ccmp.each_fragment_seg [OF fit hdrs i l])
  have l0: "length ?m0 = hdr + 16 + unat l" using sz n by simp
  have ok: "ccm_hdr_ok hdr ?m0"
    using hdrs i ccmp.ok_take [of hdr n "drop start buf"] sz n by (simp add: frags_ok_def start seg_def)
  have len: "rx_len r - ucast (rx_hdrlen x) - ucast (rx_iv_len x) = l + 8"
  proof -
    have "unat (rx_len r - ucast (rx_hdrlen x) - ucast (rx_iv_len x)) = unat l + 8"
      unfolding rx using l31 by (intro unat_rest_len) (simp_all add: n rhdr riv)
    then show ?thesis using l31 by (simp add: word_unat_eq_iff unat_word_ariths)
  qed
  note d = rtw_aes_decrypt_key [OF ralg [unfolded x_def] key [unfolded x_def], of w message,
      folded x_def, unfolded len rhdr]
  note ad = aes_decipher_cipher [OF ok l0 l31 msg small [unfolded n] data]
  have "seg (store ?m0 (hdr + 8 + unat l) (seg (rx_data r) (hdr + 8 + unat l) 8)) 0 (n - 8) = seg ?m0 0 (n - 8)"
  proof (rule seg_store_before)
    have "length (rx_data r) = n"
      unfolding data using aes_cipher_seal [OF ok] l0 n by simp
    then show "hdr + 8 + unat l + length (seg (rx_data r) (hdr + 8 + unat l) 8) \<le> length ?m0"
      using l0 n by simp
  qed (simp add: n)
  also have "seg ?m0 0 (n - 8) = seg buf start (n - 8)" by (simp add: seg_seg)
  finally show ?thesis unfolding d using ad by simp
qed

text \<open>A QoS data frame of two fragments, with 8 and 1 bytes of payload.\<close>

definition ccmp_demo_frame :: xmit_frame where
  "ccmp_demo_frame = \<lparr>attrib = \<lparr>hdrlen = 26, last_txcmdsz = 43, nr_frags = 2, encrypt = AES,
     iv_len = 8, icv_len = 8, ta = replicate 6 2, ra = replicate 6 4, dot118021x_UncstKey = replicate 16 5\<rparr>,
     buf_addr = Some (0, replicate 135 0x88)\<rparr>"

definition ccmp_demo_air :: bytes where
  "ccmp_demo_air = snd (the (buf_addr (snd (snd (rtw_aes_encrypt False wep_demo_sec 50 ccmp_demo_frame)))))"

definition ccmp_demo_rx :: recv_frame where
  "ccmp_demo_rx = \<lparr>rx_attrib = \<lparr>rx_hdrlen = 26, rx_encrypt = AES, rx_iv_len = 8, rx_icv_len = 8,
     rx_key_index = 0, rx_ta = replicate 6 2, rx_ra = replicate 6 4\<rparr>, rx_len = 50,
     rx_data = seg ccmp_demo_air 40 50\<rparr>"

definition ccmp_demo_sta :: "bytes \<Rightarrow> bytes option" where
  "ccmp_demo_sta addr = (if addr = replicate 6 2 then Some (replicate 16 5) else None)"

lemma ccmp_demo_rx_attrs:
  "rx_encrypt (rx_attrib ccmp_demo_rx) = AES" "rx_hdrlen (rx_attrib ccmp_demo_rx) = 26"
  "rx_iv_len (rx_attrib ccmp_demo_rx) = 8"
  "rx_len ccmp_demo_rx = 50" "rx_data ccmp_demo_rx = seg ccmp_demo_air 40 50"
  "ccmp_rx_key ccmp_demo_sta wep_demo_sec (rx_attrib ccmp_demo_rx) = Some (replicate 16 5)"
  by (simp_all add: ccmp_demo_rx_def ccmp_rx_key_def ccmp_demo_sta_def IS_MCAST_def)

lemma qos_hdr_ok: "2 \<le> length m \<Longrightarrow> m ! 0 = 0x88 \<Longrightarrow> m ! 1 = 0x88 \<Longrightarrow> ccm_hdr_ok 26 m"
  by (simp add: ccm_hdr_ok_def qos_adjust_def Let_def GetFrameType_def get_frame_sub_type_def le16_def)

theorem ccmp_roundtrip_witness:
  "fst (rtw_aes_decrypt False ccmp_demo_sta wep_demo_sec (replicate 2048 0) ccmp_demo_rx) = Success \<and>
   seg (rx_data (snd (snd (snd (rtw_aes_decrypt False ccmp_demo_sta wep_demo_sec (replicate 2048 0) ccmp_demo_rx)))))
     0 42 = seg (replicate 135 0x88) 40 42"
proof -
  let ?a = "attrib ccmp_demo_frame"
  have a: "hdrlen ?a = 26" "nr_frags ?a = 2" "encrypt ?a = AES"
    "frag_length 50 ?a = 8" "frag_length (last_txcmdsz ?a) ?a = 1"
    "ccmp_tx_key wep_demo_sec ?a = replicate 16 5" "buf_addr ccmp_demo_frame = Some (0, replicate 135 0x88)"
    by (simp_all add: ccmp_demo_frame_def frag_length_def ccmp_tx_key_def IS_MCAST_def)
  have air: "buf_addr (snd (snd (rtw_aes_encrypt False wep_demo_sec 50 ccmp_demo_frame))) = Some (0, ccmp_demo_air)"
    by (simp add: ccmp_demo_air_def rtw_aes_encrypt_def a Let_def)
  have fit: "frags_fit 42 0 50 8 1 2 TXDESC_OFFSET 135"
    by (simp add: frags_fit_def TXDESC_OFFSET_def next_pframe_def RND4_def)
  have oks: "frags_ok (ccm_hdr_ok 26) 0 50 2 TXDESC_OFFSET (replicate 135 0x88)"
    by (auto simp: frags_ok_def less_2_cases_iff TXDESC_OFFSET_def next_pframe_def RND4_def intro!: qos_hdr_ok)
  have "fst (rtw_aes_decrypt False ccmp_demo_sta wep_demo_sec (replicate 2048 0) ccmp_demo_rx) = Success \<and>
   seg (rx_data (snd (snd (snd (rtw_aes_decrypt False ccmp_demo_sta wep_demo_sec (replicate 2048 0) ccmp_demo_rx)))))
     0 (50 - 8) = seg (replicate 135 0x88) 40 (50 - 8)"
  proof (rule ccmp_roundtrip [where f = ccmp_demo_frame and r = ccmp_demo_rx and sec = wep_demo_sec
        and rsec = wep_demo_sec and fl = 50 and i = 0 and l = 8 and n = 50 and start = 40
        and base = 0 and buf = "replicate 135 0x88" and buf' = ccmp_demo_air])
    show "frags_fit (unat (hdrlen ?a) + 16) 0 50 (frag_length 50 ?a)
       (frag_length (last_txcmdsz ?a) ?a) (unat (nr_frags ?a)) TXDESC_OFFSET (length (replicate 135 (0x88::u8)))"
      using fit by (simp add: a)
    show "frags_ok (ccm_hdr_ok (unat (hdrlen ?a))) 0 50 (unat (nr_frags ?a)) TXDESC_OFFSET (replicate 135 0x88)"
      using oks by (simp add: a)
  qed (simp_all add: a ccmp_demo_rx_attrs air TXDESC_OFFSET_def MAX_MSG_SIZE_def)
  then show ?thesis by simp
qed

definition ccmp_demo_sealed :: bytes where
  "ccmp_demo_sealed = aes_cipher False (replicate 16 5) 26 8 (replicate 50 0x88)"

theorem aes_decipher_accepts_iff_witness:
  "fst (aes_decipher False (replicate 16 5) 26 (8 + 8) ccmp_demo_sealed (replicate 2048 0)) = Success"
proof -
  have ok0: "ccm_hdr_ok 26 (replicate 50 0x88)" by (rule qos_hdr_ok) simp_all
  have s: "ccmp_demo_sealed = ccm_seal False (replicate 16 5) 26 8 (replicate 50 0x88)"
    unfolding ccmp_demo_sealed_def using aes_cipher_seal [OF ok0, of 8] by simp
  have l: "length ccmp_demo_sealed = 50" by (simp add: s)
  have "take 34 ccmp_demo_sealed = take 34 (replicate 50 0x88)"
    unfolding s using take_ccm_seal [of 26 8 "replicate 50 0x88"] by simp
  then have ok: "ccm_hdr_ok 26 ccmp_demo_sealed" using ok0 ccm_hdr_ok_cong by fastforce
  show ?thesis
    using aes_decipher_accepts_iff [OF ok, of 8 "replicate 2048 0" False "replicate 16 5"] l ok0
    by (auto simp: MAX_MSG_SIZE_def ccmp_demo_sealed_def intro: exI [of _ "replicate 50 0x88"])
qed

section \<open>Four-address QoS frames\<close>

text \<open>For a QoS data frame with four addresses (header of 32 bytes) the code takes the header
  for two bytes longer than it is: aes_decipher leaves header, IV and the first two encrypted
  payload bytes as received, whatever the key.\<close>

lemma a4_qos_not_decrypted:
  fixes plen :: u32
  assumes "GetFrameType m = WIFI_DATA" and "drop_bit 4 (get_frame_sub_type m) = 0x08"
    and "unat plen = n + 8" and "34 + 8 + n \<le> length m"
  shows "seg (fst (snd (aes_decipher w key 32 plen m message))) 0 42 = seg m 0 42"
proof -
  have q: "qos_adjust m 32 = (True, 34)" using assms(1,2) by (simp add: qos_adjust_def)
  have n: "unat (plen - 8) = n"
  proof -
    have "(8 :: u32) \<le> plen" using assms(3) by (simp add: word_le_nat_alt)
    then show ?thesis using assms(3) by (simp add: unat_sub)
  qed
  let ?pre = "\<lambda>m' c. construct_ctr_preload w True True m' (pn_at m 32) c (GetFrameType m)"
  have pre: "hdr_dep (34 + 8) ?pre" by (rule hdr_dep_ctr) simp
  let ?d = "ctr_payload (aes128k128d key) ?pre 34 n m"
  have a4: "a4_of 32" by (simp add: a4_of_def)
  have d: "fst (snd (aes_decipher w key 32 plen m message)) = ?d"
    unfolding aes_decipher_def by (simp only: q prod.case n a4 Let_def fst_conv snd_conv)
  show ?thesis
    unfolding d aes.ctr_payload_stream [OF pre assms(4)] using assms(4)
    by (intro seg_store_before) (simp_all add: less_imp_le_nat dividend_less_times_div)
qed

lemma a4_qos_not_decrypted_witness:
  "seg (fst (snd (aes_decipher False (replicate 16 5) 32 9 (replicate 43 0x88) (replicate 2048 0)))) 0 42
   = seg (replicate 43 0x88) 0 42"
  by (rule a4_qos_not_decrypted [where n = 1]) (simp_all add: GetFrameType_def get_frame_sub_type_def le16_def)

end
