(* ===== verification/Sha256.thy ===== *)
theory Sha256
  imports Prelude
begin

unbundle bit_operations_syntax

text \<open>
  SHA-256, HMAC-SHA256 and the key derivation function of \<open>core/rtw_security.c\<close>. The hash is
  fed in pieces of any size (\<open>sha256_process\<close>) and padded at the end (\<open>sha256_done\<close>); the
  theory proves that the digest is that of the concatenated pieces, padded as the standard
  says, that the HMAC is the nested hash of RFC 2104, and that the derivation function is a
  prefix of the concatenated HMACs of counter, label, context and length.
\<close>

section \<open>The compression function\<close>

definition K_table :: "u32 list" where
  "K_table =
     [0x428a2f98, 0x71374491, 0xb5c0fbcf, 0xe9b5dba5, 0x3956c25b] @
     [0x59f111f1, 0x923f82a4, 0xab1c5ed5, 0xd807aa98, 0x12835b01] @
     [0x243185be, 0x550c7dc3, 0x72be5d74, 0x80deb1fe, 0x9bdc06a7] @
     [0xc19bf174, 0xe49b69c1, 0xefbe4786, 0x0fc19dc6, 0x240ca1cc] @
     [0x2de92c6f, 0x4a7484aa, 0x5cb0a9dc, 0x76f988da, 0x983e5152] @
     [0xa831c66d, 0xb00327c8, 0xbf597fc7, 0xc6e00bf3, 0xd5a79147] @
     [0x06ca6351, 0x14292967, 0x27b70a85, 0x2e1b2138, 0x4d2c6dfc] @
     [0x53380d13, 0x650a7354, 0x766a0abb, 0x81c2c92e, 0x92722c85] @
     [0xa2bfe8a1, 0xa81a664b, 0xc24b8b70, 0xc76c51a3, 0xd192e819] @
     [0xd6990624, 0xf40e3585, 0x106aa070, 0x19a4c116, 0x1e376c08] @
     [0x2748774c, 0x34b0bcb5, 0x391c0cb3, 0x4ed8aa4a, 0x5b9cca4f] @
     [0x682e6ff3, 0x748f82ee, 0x78a5636f, 0x84c87814, 0x8cc70208] @
     [0x90befffa, 0xa4506ceb, 0xbef9a3f7, 0xc67178f2]"

definition RORc :: "u32 \<Rightarrow> nat \<Rightarrow> u32" where
  "RORc x y = drop_bit (y mod 32) x OR push_bit (32 - y mod 32) x"

definition Ch :: "u32 \<Rightarrow> u32 \<Rightarrow> u32 \<Rightarrow> u32" where
  "Ch x y z = z XOR (x AND (y XOR z))"

definition Maj :: "u32 \<Rightarrow> u32 \<Rightarrow> u32 \<Rightarrow> u32" where
  "Maj x y z = ((x OR y) AND z) OR (x AND y)"

definition Sh :: "u32 \<Rightarrow> nat \<Rightarrow> u32" where
  "Sh x n = drop_bit n x"

definition Sigma0 :: "u32 \<Rightarrow> u32" where
  "Sigma0 x = RORc x 2 XOR RORc x 13 XOR RORc x 22"

definition Sigma1 :: "u32 \<Rightarrow> u32" where
  "Sigma1 x = RORc x 6 XOR RORc x 11 XOR RORc x 25"

definition Gamma0 :: "u32 \<Rightarrow> u32" where
  "Gamma0 x = RORc x 7 XOR RORc x 18 XOR Sh x 3"

definition Gamma1 :: "u32 \<Rightarrow> u32" where
  "Gamma1 x = RORc x 17 XOR RORc x 19 XOR Sh x 10"

definition WPA_GET_BE32 :: "bytes \<Rightarrow> u32" where
  "WPA_GET_BE32 a = push_bit 24 (ucast (a ! 0)) OR push_bit 16 (ucast (a ! 1))
     OR push_bit 8 (ucast (a ! 2)) OR ucast (a ! 3)"

definition sha256_schedule :: "bytes \<Rightarrow> u32 list" where
  "sha256_schedule buf =
     fold (\<lambda>i W. W @ [Gamma1 (W ! (i - 2)) + W ! (i - 7) + Gamma0 (W ! (i - 15)) + W ! (i - 16)]) [16..<64]
       (map (\<lambda>i. WPA_GET_BE32 (drop (4 * i) buf)) [0..<16])"

type_synonym sha_regs = "u32 \<times> u32 \<times> u32 \<times> u32 \<times> u32 \<times> u32 \<times> u32 \<times> u32"

text \<open>\<open>RND\<close>, and the rotation of the eight registers after it.\<close>

fun sha256_rnd :: "u32 list \<Rightarrow> nat \<Rightarrow> sha_regs \<Rightarrow> sha_regs" where
  "sha256_rnd W i (a, b, c, d, e, f, g, h) =
     (let t0 = h + Sigma1 e + Ch e f g + K_table ! i + W ! i;
          t1 = Sigma0 a + Maj a b c;
          d = d + t0;
          h = t0 + t1
      in (h, a, b, c, d, e, f, g))"

fun regs_of :: "u32 list \<Rightarrow> sha_regs" where
  "regs_of S = (S ! 0, S ! 1, S ! 2, S ! 3, S ! 4, S ! 5, S ! 6, S ! 7)"

definition sha256_compress :: "u32 list \<Rightarrow> bytes \<Rightarrow> u32 list" where
  "sha256_compress st buf =
     (case fold (sha256_rnd (sha256_schedule buf)) [0..<64] (regs_of st) of
        (a, b, c, d, e, f, g, h) \<Rightarrow>
          [st ! 0 + a, st ! 1 + b, st ! 2 + c, st ! 3 + d, st ! 4 + e, st ! 5 + f, st ! 6 + g, st ! 7 + h])"

section \<open>Hashing a message in pieces\<close>

text \<open>\<open>struct sha256_state_rtk\<close>.\<close>

record sha256_state_rtk =
  md_length :: u64
  md_state :: "u32 list"
  md_curlen :: nat
  md_buf :: bytes

definition sha256_iv :: "u32 list" where
  "sha256_iv = [0x6A09E667, 0xBB67AE85, 0x3C6EF372, 0xA54FF53A, 0x510E527F, 0x9B05688C, 0x1F83D9AB, 0x5BE0CD19]"

definition sha256_init_rtk :: "bytes \<Rightarrow> sha256_state_rtk" where
  "sha256_init_rtk stack = \<lparr>md_length = 0, md_state = sha256_iv, md_curlen = 0, md_buf = stack\<rparr>"

text \<open>
  The loop of \<open>sha256_process\<close>. \<open>curlen\<close> is below 64 here: the function refuses other states
  before it enters the loop, and the loop keeps it so.
\<close>

function sha256_loop :: "sha256_state_rtk \<Rightarrow> bytes \<Rightarrow> sha256_state_rtk" where
  "sha256_loop md xs =
     (if xs = [] \<or> 64 \<le> md_curlen md then md
      else if md_curlen md = 0 \<and> 64 \<le> length xs then
        sha256_loop (md\<lparr>md_state := sha256_compress (md_state md) (take 64 xs),
                        md_length := md_length md + 64 * 8\<rparr>) (drop 64 xs)
      else
        (let n = min (length xs) (64 - md_curlen md);
             md = md\<lparr>md_buf := store (md_buf md) (md_curlen md) (take n xs), md_curlen := md_curlen md + n\<rparr>
         in sha256_loop
              (if md_curlen md = 64
               then md\<lparr>md_state := sha256_compress (md_state md) (md_buf md),
                       md_length := md_length md + 8 * 64, md_curlen := 0\<rparr>
               else md) (drop n xs)))"
  by pat_completeness auto
termination
  by (relation "measure (\<lambda>(md, xs). length xs)") auto

declare sha256_loop.simps [simp del]

definition sha256_process :: "sha256_state_rtk \<Rightarrow> bytes \<Rightarrow> sha256_state_rtk option" where
  "sha256_process md xs = (if 64 \<le> md_curlen md then None else Some (sha256_loop md xs))"

definition be64_bytes :: "u64 \<Rightarrow> bytes" where
  "be64_bytes v = [ucast (drop_bit 56 v), ucast (drop_bit 48 v), ucast (drop_bit 40 v), ucast (drop_bit 32 v),
     ucast (drop_bit 24 v), ucast (drop_bit 16 v), ucast (drop_bit 8 v), ucast (v AND 0xff)]"

text \<open>The loops that append zeros while \<open>curlen\<close> is below \<open>lim\<close>.\<close>

definition zero_fill :: "nat \<Rightarrow> sha256_state_rtk \<Rightarrow> sha256_state_rtk" where
  "zero_fill lim md =
     md\<lparr>md_buf := store (md_buf md) (md_curlen md) (replicate (lim - md_curlen md) 0),
        md_curlen := max lim (md_curlen md)\<rparr>"

definition sha256_done :: "sha256_state_rtk \<Rightarrow> bytes option" where
  "sha256_done md =
     (if 64 \<le> md_curlen md then None
      else
        (let md = md\<lparr>md_length := md_length md + of_nat (md_curlen md) * 8\<rparr>;
             md = md\<lparr>md_buf := (md_buf md)[md_curlen md := 0x80], md_curlen := md_curlen md + 1\<rparr>;
             md = (if 56 < md_curlen md
                   then (let md = zero_fill 64 md
                         in md\<lparr>md_state := sha256_compress (md_state md) (md_buf md), md_curlen := 0\<rparr>)
                   else md);
             md = zero_fill 56 md;
             buf = store (md_buf md) 56 (be64_bytes (md_length md));
             st = sha256_compress (md_state md) buf
         in Some (concat (map (\<lambda>i. be32_bytes (st ! i)) [0..<8]))))"

fun process_all :: "bytes list \<Rightarrow> sha256_state_rtk \<Rightarrow> sha256_state_rtk option" where
  "process_all [] md = Some md"
| "process_all (x # xs) md = (case sha256_process md x of None \<Rightarrow> None | Some md' \<Rightarrow> process_all xs md')"

definition sha256_vector :: "bytes \<Rightarrow> bytes list \<Rightarrow> bytes option" where
  "sha256_vector stack elems =
     (case process_all elems (sha256_init_rtk stack) of None \<Rightarrow> None | Some md \<Rightarrow> sha256_done md)"

section \<open>The hash of a whole message\<close>

function sha_blocks :: "u32 list \<Rightarrow> bytes \<Rightarrow> u32 list" where
  "sha_blocks st xs = (if length xs < 64 then st else sha_blocks (sha256_compress st (take 64 xs)) (drop 64 xs))"
  by pat_completeness auto
termination
  by (relation "measure (\<lambda>(st, xs). length xs)") auto

declare sha_blocks.simps [simp del]

definition sha_pad :: "bytes \<Rightarrow> bytes" where
  "sha_pad d = d @ [0x80] @ replicate ((if length d mod 64 < 56 then 55 else 119) - length d mod 64) 0
     @ be64_bytes (of_nat (8 * length d))"

definition sha256_ref :: "bytes \<Rightarrow> bytes" where
  "sha256_ref d = concat (map be32_bytes (sha_blocks sha256_iv (sha_pad d)))"

lemma sha_blocks_short: "length xs < 64 \<Longrightarrow> sha_blocks st xs = st"
  by (subst sha_blocks.simps) simp

lemma sha_blocks_step: "length b = 64 \<Longrightarrow> sha_blocks st (b @ xs) = sha_blocks (sha256_compress st b) xs"
  by (subst sha_blocks.simps) simp

lemma sha_blocks_append_mult: "length xs = 64 * k \<Longrightarrow> sha_blocks st (xs @ ys) = sha_blocks (sha_blocks st xs) ys"
proof (induction k arbitrary: xs st)
  case 0
  then show ?case by (simp add: sha_blocks_short)
next
  case (Suc k)
  define b r where "b = take 64 xs" and "r = drop 64 xs"
  have xs: "xs = b @ r" and b: "length b = 64" and r: "length r = 64 * k"
    using Suc.prems by (simp_all add: b_def r_def)
  have "sha_blocks st (xs @ ys) = sha_blocks (sha256_compress st b) (r @ ys)"
    unfolding xs by (simp add: sha_blocks_step b)
  also have "\<dots> = sha_blocks (sha_blocks (sha256_compress st b) r) ys" by (rule Suc.IH [OF r])
  finally show ?case unfolding xs by (simp add: sha_blocks_step b)
qed

lemma sha_blocks_append: "64 dvd length xs \<Longrightarrow> sha_blocks st (xs @ ys) = sha_blocks (sha_blocks st xs) ys"
  by (metis dvdE sha_blocks_append_mult)

lemma sha_blocks_snoc:
  "64 dvd length xs \<Longrightarrow> length b = 64 \<Longrightarrow> sha_blocks st (xs @ b) = sha256_compress (sha_blocks st xs) b"
  using sha_blocks_step [of b _ "[]"] by (simp add: sha_blocks_append sha_blocks_short)

text \<open>The state after the message \<open>d\<close>: whole blocks are compressed, the rest is in the buffer.\<close>

definition sha_inv :: "sha256_state_rtk \<Rightarrow> bytes \<Rightarrow> bool" where
  "sha_inv md d \<longleftrightarrow> length (md_buf md) = 64 \<and> md_curlen md < 64 \<and>
     (\<exists>full. d = full @ take (md_curlen md) (md_buf md) \<and> 64 dvd length full \<and>
        md_state md = sha_blocks sha256_iv full \<and> md_length md = of_nat (8 * length full))"

lemma sha_inv_init: "length stack = 64 \<Longrightarrow> sha_inv (sha256_init_rtk stack) []"
  by (simp add: sha_inv_def sha256_init_rtk_def sha_blocks_short)

lemma sha_inv_block:
  assumes "sha_inv md d" and "md_curlen md = 0" and "length b = 64"
  shows "sha_inv (md\<lparr>md_state := sha256_compress (md_state md) b, md_length := md_length md + 64 * 8\<rparr>) (d @ b)"
proof -
  from assms obtain full where f: "d = full" "64 dvd length full" "md_state md = sha_blocks sha256_iv full"
    "md_length md = of_nat (8 * length full)" "length (md_buf md) = 64"
    by (auto simp: sha_inv_def)
  have "sha256_compress (md_state md) b = sha_blocks sha256_iv (full @ b)"
    using f assms(3) by (simp add: sha_blocks_snoc)
  moreover have "md_length md + 64 * 8 = of_nat (8 * length (full @ b))" using f assms(3) by simp
  ultimately show ?thesis using f assms by (auto simp: sha_inv_def intro!: exI [of _ "full @ b"])
qed

lemma sha_inv_buffer:
  assumes inv: "sha_inv md d" and n: "length b \<le> 64 - md_curlen md"
  defines "md' \<equiv> md\<lparr>md_buf := store (md_buf md) (md_curlen md) b, md_curlen := md_curlen md + length b\<rparr>"
  shows "sha_inv (if md_curlen md' = 64
      then md'\<lparr>md_state := sha256_compress (md_state md') (md_buf md'), md_length := md_length md' + 8 * 64, md_curlen := 0\<rparr>
      else md') (d @ b)"
proof -
  from inv obtain full where f: "d = full @ take (md_curlen md) (md_buf md)" "64 dvd length full"
    "md_state md = sha_blocks sha256_iv full" "md_length md = of_nat (8 * length full)"
    "length (md_buf md) = 64" "md_curlen md < 64"
    by (auto simp: sha_inv_def)
  have lb: "length (md_buf md') = 64" using f n by (simp add: md'_def)
  have tk: "take (md_curlen md') (md_buf md') = take (md_curlen md) (md_buf md) @ b"
    using f n by (simp add: md'_def store_def)
  show ?thesis
  proof (cases "md_curlen md' = 64")
    case True
    then have b: "md_buf md' = take (md_curlen md) (md_buf md) @ b" using tk lb by simp
    have "sha256_compress (sha_blocks sha256_iv full) (md_buf md') = sha_blocks sha256_iv (d @ b)"
      using f b lb by (simp add: sha_blocks_snoc)
    moreover have "length (d @ b) = length full + 64" using f True by (simp add: md'_def)
    ultimately show ?thesis
      using True f lb by (auto simp: sha_inv_def md'_def intro!: exI [of _ "d @ b"])
  next
    case False
    then show ?thesis using f n lb tk by (auto simp: sha_inv_def md'_def intro!: exI [of _ full])
  qed
qed

lemma sha_inv_loop: "sha_inv md d \<Longrightarrow> sha_inv (sha256_loop md xs) (d @ xs)"
proof (induction md xs arbitrary: d rule: sha256_loop.induct)
  case (1 md xs)
  consider (stop) "xs = []" | (blk) "xs \<noteq> []" "md_curlen md = 0 \<and> 64 \<le> length xs"
    | (buf) "xs \<noteq> []" "\<not> (md_curlen md = 0 \<and> 64 \<le> length xs)" by blast
  then show ?case
  proof cases
    case stop
    with 1 show ?thesis by (subst sha256_loop.simps) simp
  next
    case blk
    have c: "\<not> (xs = [] \<or> 64 \<le> md_curlen md)" using blk by simp
    have "sha_inv (sha256_loop (md\<lparr>md_state := sha256_compress (md_state md) (take 64 xs),
        md_length := md_length md + 64 * 8\<rparr>) (drop 64 xs)) ((d @ take 64 xs) @ drop 64 xs)"
      using "1.prems" blk by (intro "1.IH"(1) [OF c blk(2)] sha_inv_block) simp_all
    then show ?thesis using blk by (subst sha256_loop.simps) simp
  next
    case buf
    have c: "\<not> (xs = [] \<or> 64 \<le> md_curlen md)" using buf "1.prems" by (simp add: sha_inv_def)
    define n where "n = min (length xs) (64 - md_curlen md)"
    have ln: "length (take n xs) = n" by (simp add: n_def)
    have n: "length (take n xs) \<le> 64 - md_curlen md" by (simp add: n_def)
    note inv = sha_inv_buffer [OF "1.prems" n]
    let ?m = "md\<lparr>md_buf := store (md_buf md) (md_curlen md) (take n xs), md_curlen := md_curlen md + n\<rparr>"
    let ?m' = "if md_curlen ?m = 64
      then ?m\<lparr>md_state := sha256_compress (md_state ?m) (md_buf ?m), md_length := md_length ?m + 8 * 64, md_curlen := 0\<rparr>
      else ?m"
    have e: "sha256_loop md xs = sha256_loop ?m' (drop n xs)"
      by (subst sha256_loop.simps) (simp only: if_not_P [OF c] if_not_P [OF buf(2)] Let_def n_def [symmetric])
    have "sha_inv (sha256_loop ?m' (drop n xs)) ((d @ take n xs) @ drop n xs)"
      by (rule "1.IH"(2) [OF c buf(2) n_def refl inv [unfolded ln]])
    then show ?thesis unfolding e by simp
  qed
qed

lemma process_all_inv:
  "sha_inv md d \<Longrightarrow> \<exists>md'. process_all elems md = Some md' \<and> sha_inv md' (d @ concat elems)"
proof (induction elems arbitrary: md d)
  case Nil
  then show ?case by simp
next
  case (Cons x xs)
  have "md_curlen md < 64" using Cons.prems by (simp add: sha_inv_def)
  then show ?case
    using Cons.IH [OF sha_inv_loop [OF Cons.prems, of x]] by (simp add: sha256_process_def)
qed

lemma zero_fill_eq:
  "md_curlen md \<le> lim \<Longrightarrow> lim \<le> length (md_buf md) \<Longrightarrow>
   take lim (md_buf (zero_fill lim md)) = take (md_curlen md) (md_buf md) @ replicate (lim - md_curlen md) 0 \<and>
   md_curlen (zero_fill lim md) = lim \<and> length (md_buf (zero_fill lim md)) = length (md_buf md) \<and>
   md_state (zero_fill lim md) = md_state md \<and> md_length (zero_fill lim md) = md_length md"
  by (simp add: zero_fill_def store_def max_def)

lemma length_be64_bytes [simp, len_simps]: "length (be64_bytes v) = 8"
  by (simp add: be64_bytes_def)

lemma length_sha256_compress [simp]: "length (sha256_compress st b) = 8"
  by (simp add: sha256_compress_def split: prod.splits)

lemma map_nth_8: "length st = 8 \<Longrightarrow> map (\<lambda>i. f (st ! i)) [0..<8] = map f st"
  by (rule nth_equalityI) simp_all

lemma length_sha_blocks: "length st = 8 \<Longrightarrow> length (sha_blocks st xs) = 8"
proof (induction st xs rule: sha_blocks.induct)
  case (1 st xs)
  then show ?case by (cases "length xs < 64") (subst sha_blocks.simps, simp)+
qed

text \<open>The last block or two: rest of the message, the bit 1, zeros, length.\<close>

lemma sha256_done_ref:
  assumes "sha_inv md d"
  shows "sha256_done md = Some (sha256_ref d)"
proof -
  let ?c = "md_curlen md" and ?b = "md_buf md"
  from assms obtain full where f: "d = full @ take ?c ?b" "64 dvd length full"
    "md_state md = sha_blocks sha256_iv full" "md_length md = of_nat (8 * length full)"
    "length ?b = 64" "?c < 64"
    by (auto simp: sha_inv_def)
  have c: "length d mod 64 = ?c" using f by (auto elim!: dvdE)
  define len where "len = be64_bytes (of_nat (8 * length d))"
  have ll: "length len = 8" by (simp add: len_def)
  have p: "sha_pad d = d @ [0x80] @ replicate ((if ?c < 56 then 55 else 119) - ?c) 0 @ len"
    by (simp only: sha_pad_def c len_def)
  have l: "md_length md + of_nat ?c * 8 = of_nat (8 * length d)" using f by (simp add: algebra_simps)
  define m1 where "m1 = md\<lparr>md_length := of_nat (8 * length d), md_buf := ?b[?c := 0x80], md_curlen := ?c + 1\<rparr>"
  have t1: "take (?c + 1) (md_buf m1) = take ?c ?b @ [0x80]"
    using f by (simp add: m1_def take_Suc_conv_app_nth)
  have b1: "length (md_buf m1) = 64" "md_curlen m1 = ?c + 1" "md_state m1 = sha_blocks sha256_iv full"
    "md_length m1 = of_nat (8 * length d)"
    using f by (simp_all add: m1_def)
  define m2 where "m2 = (if 56 < md_curlen m1
     then (let m = zero_fill 64 m1 in m\<lparr>md_state := sha256_compress (md_state m) (md_buf m), md_curlen := 0\<rparr>)
     else m1)"
  let ?out = "\<lambda>st. Some (concat (map (\<lambda>i. be32_bytes (st ! i)) [0..<8]))"
  have done1: "sha256_done md = (let m = zero_fill 56 m2; buf = store (md_buf m) 56 (be64_bytes (md_length m))
      in ?out (sha256_compress (md_state m) buf))"
    using f(6) by (simp add: sha256_done_def Let_def l m1_def m2_def)
  have last: "store b 56 len = take 56 b @ len" if "length b = 64" for b using that ll by (simp add: store_def)
  have fin: "?out st = Some (concat (map be32_bytes st))" if "length st = 8" for st
    using that map_nth_8 [of st be32_bytes] by simp
  have l8: "length (sha_blocks sha256_iv (sha_pad d)) = 8" by (rule length_sha_blocks) (simp add: sha256_iv_def)
  show ?thesis
  proof (cases "56 < ?c + 1")
    case False
    then have m2: "m2 = m1" by (simp add: m2_def b1)
    have z: "take 56 (md_buf (zero_fill 56 m1)) = take ?c ?b @ [0x80] @ replicate (55 - ?c) 0"
      "length (md_buf (zero_fill 56 m1)) = 64" "md_state (zero_fill 56 m1) = md_state m1"
      "md_length (zero_fill 56 m1) = md_length m1"
      using zero_fill_eq [of m1 56] b1 t1 False by simp_all
    have pad: "sha_pad d = full @ (take ?c ?b @ [0x80] @ replicate (55 - ?c) 0 @ len)"
      unfolding p by (subst f(1)) (use False in simp)
    have "sha256_done md = ?out (sha256_compress (sha_blocks sha256_iv full)
        (take ?c ?b @ [0x80] @ replicate (55 - ?c) 0 @ len))"
      unfolding done1 m2 Let_def using z b1 last by (simp add: len_def)
    also have "sha256_compress (sha_blocks sha256_iv full) (take ?c ?b @ [0x80] @ replicate (55 - ?c) 0 @ len)
        = sha_blocks sha256_iv (sha_pad d)"
      unfolding pad using f False ll by (subst sha_blocks_snoc) simp_all
    finally show ?thesis unfolding sha256_ref_def fin [OF l8] .
  next
    case True
    define x where "x = take ?c ?b @ [0x80] @ replicate (63 - ?c) 0"
    have lx: "length x = 64" using f by (simp add: x_def)
    have "take 64 (md_buf (zero_fill 64 m1)) = x" "length (md_buf (zero_fill 64 m1)) = 64"
      "md_state (zero_fill 64 m1) = md_state m1" "md_length (zero_fill 64 m1) = md_length m1"
      using zero_fill_eq [of m1 64] b1 t1 f(6) by (simp_all add: x_def)
    then have z1: "md_buf (zero_fill 64 m1) = x" "md_state (zero_fill 64 m1) = md_state m1"
      "md_length (zero_fill 64 m1) = md_length m1"
      by simp_all
    have m2: "md_buf m2 = x" "md_curlen m2 = 0" "md_length m2 = md_length m1"
      "md_state m2 = sha256_compress (sha_blocks sha256_iv full) x"
      using True b1 z1 by (simp_all add: m2_def Let_def)
    have z: "take 56 (md_buf (zero_fill 56 m2)) = replicate 56 0" "length (md_buf (zero_fill 56 m2)) = 64"
      "md_state (zero_fill 56 m2) = md_state m2" "md_length (zero_fill 56 m2) = md_length m2"
      using zero_fill_eq [of m2 56] m2 lx by simp_all
    have r: "replicate (119 - ?c) (0 :: u8) = replicate (63 - ?c) 0 @ replicate 56 0"
      using f(6) by (simp flip: replicate_add)
    have pad: "sha_pad d = (full @ x) @ (replicate 56 0 @ len)"
      unfolding p by (subst f(1)) (use True in \<open>simp add: x_def r del: replicate_add\<close>)
    have "sha256_done md = ?out (sha256_compress (sha256_compress (sha_blocks sha256_iv full) x) (replicate 56 0 @ len))"
      unfolding done1 Let_def using z m2 b1 last by (simp add: len_def)
    also have "sha256_compress (sha256_compress (sha_blocks sha256_iv full) x) (replicate 56 0 @ len)
        = sha_blocks sha256_iv (sha_pad d)"
      unfolding pad using f lx ll by (subst sha_blocks_snoc) (simp_all add: sha_blocks_snoc)
    finally show ?thesis unfolding sha256_ref_def fin [OF l8] .
  qed
qed

lemma sha256_vector_eq: "length stack = 64 \<Longrightarrow> sha256_vector stack elems = Some (sha256_ref (concat elems))"
  using process_all_inv [OF sha_inv_init, of stack elems] by (auto simp: sha256_vector_def sha256_done_ref)

text \<open>C33: Hashing any sequence of pieces succeeds, and gives the digest of their concatenation,
  padded with one bit, zeros and the 64-bit length, whatever the buffer held before.\<close>

theorem sha256_vector_is_ref:
  assumes "length stack = 64"
  shows "sha256_vector stack elems = Some (sha256_ref (concat elems))"
  using assms by (rule sha256_vector_eq)

theorem sha256_vector_is_ref_witness:
  "sha256_vector (replicate 64 7) [[1, 2], [], [3]] = Some (sha256_ref [1, 2, 3])"
  using sha256_vector_is_ref [of "replicate 64 7" "[[1, 2], [], [3]]"] by simp

section \<open>HMAC and the key derivation function\<close>

text \<open>\<open>key_pad\<close>: the key, zero-filled to 64 bytes, with each byte XORed.\<close>

definition key_pad :: "u8 \<Rightarrow> bytes \<Rightarrow> bytes" where
  "key_pad c key = map (\<lambda>b. b XOR c) (store (replicate 64 0) 0 key)"

text \<open>\<open>mac\<close> keeps its contents if there are too many elements.\<close>

definition hmac_sha256_vector :: "bytes \<Rightarrow> bytes \<Rightarrow> bytes list \<Rightarrow> bytes \<Rightarrow> bytes" where
  "hmac_sha256_vector stack key elems mac =
     (if 5 < length elems then mac
      else
        (let key = (if 64 < length key then the (sha256_vector stack [key]) else key);
             mac = the (sha256_vector stack (key_pad 0x36 key # elems))
         in the (sha256_vector stack [key_pad 0x5c key, mac])))"

definition hmac_ref :: "bytes \<Rightarrow> bytes \<Rightarrow> bytes" where
  "hmac_ref key text =
     (let k = (if 64 < length key then sha256_ref key else key);
          pad = (\<lambda>c. map (\<lambda>b. b XOR c) (k @ replicate (64 - length k) 0))
      in sha256_ref (pad 0x5c @ sha256_ref (pad 0x36 @ text)))"

lemma length_sha256_ref [simp]: "length (sha256_ref d) = 32"
proof -
  have "length (concat (map be32_bytes xs)) = 4 * length xs" for xs by (induction xs) simp_all
  moreover have "length (sha_blocks sha256_iv (sha_pad d)) = 8"
    by (rule length_sha_blocks) (simp add: sha256_iv_def)
  ultimately show ?thesis by (simp add: sha256_ref_def)
qed

lemma hmac_eq:
  assumes "length stack = 64" and "length elems \<le> 5"
  shows "hmac_sha256_vector stack key elems mac = hmac_ref key (concat elems)"
proof -
  define k where "k = (if 64 < length key then sha256_ref key else key)"
  have lk: "length k \<le> 64" by (simp add: k_def)
  have pad: "key_pad c k = map (\<lambda>b. b XOR c) (k @ replicate (64 - length k) 0)" for c
    using lk by (simp add: key_pad_def store_def)
  have kk: "(if 64 < length key then the (sha256_vector stack [key]) else key) = k"
    using assms(1) by (simp add: k_def sha256_vector_eq)
  show ?thesis
    using assms unfolding hmac_sha256_vector_def hmac_ref_def kk k_def [symmetric]
    by (simp add: Let_def sha256_vector_eq pad del: map_append)
qed

text \<open>HMAC-SHA256 over up to five pieces is the nested hash of RFC 2104 over their
  concatenation, for keys of any length (keys over 64 bytes are hashed first).\<close>

lemma hmac_sha256_is_rfc2104:
  assumes "length stack = 64" and "length elems \<le> 5"
  shows "hmac_sha256_vector stack key elems mac = hmac_ref key (concat elems)"
  using assms by (rule hmac_eq)

lemma hmac_sha256_is_rfc2104_witness:
  "hmac_sha256_vector (replicate 64 0) [1, 2] [[3], [4]] [] = hmac_ref [1, 2] [3, 4]"
  using hmac_sha256_is_rfc2104 [of "replicate 64 0" "[[3], [4]]" "[1, 2]" "[]"] by simp

definition WPA_PUT_LE16 :: "u16 \<Rightarrow> bytes" where
  "WPA_PUT_LE16 v = [ucast (v AND 0xff), ucast (drop_bit 8 v)]"

text \<open>\<open>os_strlen\<close> returns a byte; the label is given without its terminating zero.\<close>

definition os_strlen :: "bytes \<Rightarrow> nat" where
  "os_strlen s = unat (of_nat (length (takeWhile (\<lambda>c. c \<noteq> 0) s)) :: u8)"

function prf_loop :: "bytes \<Rightarrow> bytes \<Rightarrow> bytes \<Rightarrow> bytes \<Rightarrow> nat \<Rightarrow> nat \<Rightarrow> u16 \<Rightarrow> bytes \<Rightarrow> bytes" where
  "prf_loop stack key label ctx buf_len pos counter buf =
     (if buf_len \<le> pos then buf
      else
        (let plen = buf_len - pos;
             elems = [WPA_PUT_LE16 counter, take (os_strlen label) label, ctx, WPA_PUT_LE16 (of_nat (buf_len * 8))];
             hash = hmac_sha256_vector stack key elems (replicate 32 0)
         in if 32 \<le> plen
            then prf_loop stack key label ctx buf_len (pos + 32) (counter + 1) (store buf pos hash)
            else store buf pos (take plen hash)))"
  by pat_completeness auto
termination
  by (relation "measure (\<lambda>(_, _, _, _, buf_len, pos, _, _). buf_len - pos)") auto

declare prf_loop.simps [simp del]

definition sha256_prf :: "bytes \<Rightarrow> bytes \<Rightarrow> bytes \<Rightarrow> bytes \<Rightarrow> bytes \<Rightarrow> nat \<Rightarrow> bytes" where
  "sha256_prf stack key label ctx buf buf_len = prf_loop stack key label ctx buf_len 0 1 buf"

text \<open>The stream the function cuts its output from.\<close>

definition prf_block :: "bytes \<Rightarrow> bytes \<Rightarrow> bytes \<Rightarrow> nat \<Rightarrow> u16 \<Rightarrow> bytes" where
  "prf_block key label ctx buf_len counter =
     hmac_ref key (WPA_PUT_LE16 counter @ take (os_strlen label) label @ ctx @ WPA_PUT_LE16 (of_nat (buf_len * 8)))"

lemma length_prf_block [simp]: "length (prf_block key label ctx n c) = 32"
  by (simp add: prf_block_def hmac_ref_def Let_def)

lemma length_prf_stream [simp]: "length (concat (map (\<lambda>k. prf_block key label ctx n (c + of_nat k)) ks)) = 32 * length ks"
  by (induction ks) simp_all

lemma prf_stream_Suc:
  "concat (map (\<lambda>k. prf_block key label ctx n (c + of_nat k)) [0..<Suc j])
   = prf_block key label ctx n c @ concat (map (\<lambda>k. prf_block key label ctx n ((c + 1) + of_nat k)) [0..<j])"
proof -
  have "[0..<Suc j] = 0 # map Suc [0..<j]" by (simp add: upt_conv_Cons map_Suc_upt del: upt_Suc)
  then show ?thesis by (simp add: o_def add.assoc)
qed

lemma prf_loop_eq:
  "length stack = 64 \<Longrightarrow> pos \<le> buf_len \<Longrightarrow> buf_len \<le> length buf \<Longrightarrow>
   prf_loop stack key label ctx buf_len pos c buf =
     store buf pos (take (buf_len - pos)
       (concat (map (\<lambda>k. prf_block key label ctx buf_len (c + of_nat k)) [0..<Suc ((buf_len - pos) div 32)])))"
proof (induction stack key label ctx buf_len pos c buf rule: prf_loop.induct)
  case (1 stack key label ctx buf_len pos c buf)
  let ?h = "prf_block key label ctx buf_len c"
  have h: "hmac_sha256_vector stack key [WPA_PUT_LE16 c, take (os_strlen label) label, ctx, WPA_PUT_LE16 (of_nat (buf_len * 8))]
      (replicate 32 0) = ?h"
    using "1.prems"(1) by (simp add: hmac_eq prf_block_def)
  consider (stop) "buf_len \<le> pos" | (whole) "\<not> buf_len \<le> pos" "32 \<le> buf_len - pos"
    | (rest) "\<not> buf_len \<le> pos" "\<not> 32 \<le> buf_len - pos" by linarith
  then show ?case
  proof cases
    case stop
    with 1 show ?thesis by (subst prf_loop.simps) simp
  next
    case rest
    then have "prf_loop stack key label ctx buf_len pos c buf = store buf pos (take (buf_len - pos) ?h)"
      by (subst prf_loop.simps) (simp only: Let_def h if_not_P if_False)
    with rest show ?thesis by simp
  next
    case whole
    let ?s = "\<lambda>c j. concat (map (\<lambda>k. prf_block key label ctx buf_len (c + of_nat k)) [0..<j])"
    have d: "Suc ((buf_len - pos) div 32) = Suc (Suc ((buf_len - (pos + 32)) div 32))"
      using whole(2) le_div_geq [of 32 "buf_len - pos"] by simp
    have "prf_loop stack key label ctx buf_len pos c buf
        = prf_loop stack key label ctx buf_len (pos + 32) (c + 1) (store buf pos ?h)"
      using whole by (subst prf_loop.simps) (simp only: Let_def h if_not_P if_P not_le)
    also have "\<dots> = store (store buf pos ?h) (pos + 32)
        (take (buf_len - (pos + 32)) (?s (c + 1) (Suc ((buf_len - (pos + 32)) div 32))))"
      using whole "1.prems" by (intro "1.IH" [OF whole(1) refl refl h [symmetric] whole(2)]) simp_all
    also have "\<dots> = store buf pos (?h @ take (buf_len - (pos + 32)) (?s (c + 1) (Suc ((buf_len - (pos + 32)) div 32))))"
      using whole "1.prems" by (intro store_append) simp_all
    also have "?h @ take (buf_len - (pos + 32)) (?s (c + 1) (Suc ((buf_len - (pos + 32)) div 32)))
        = take (buf_len - pos) (?s c (Suc ((buf_len - pos) div 32)))"
      unfolding d prf_stream_Suc [of _ _ _ _ c "Suc ((buf_len - (pos + 32)) div 32)"] using whole by simp
    finally show ?thesis .
  qed
qed

text \<open>The key derivation function writes the first buf_len bytes of the HMACs of the counters
  1, 2, ..., and nothing else; it ends for every length.\<close>

lemma sha256_prf_is_stream:
  assumes "length stack = 64" and "buf_len \<le> length buf"
  shows "sha256_prf stack key label ctx buf buf_len =
    store buf 0 (take buf_len (concat (map (\<lambda>k. prf_block key label ctx buf_len (1 + of_nat k))
      [0..<Suc (buf_len div 32)])))"
  using assms unfolding sha256_prf_def by (subst prf_loop_eq) simp_all

lemma sha256_prf_is_stream_witness:
  "sha256_prf (replicate 64 0) [1] [84] [2, 3] (replicate 40 0) 40 =
    store (replicate 40 0) 0 (take 40 (concat (map (\<lambda>k. prf_block [1] [84] [2, 3] 40 (1 + of_nat k)) [0..<Suc (40 div 32)])))"
  by (rule sha256_prf_is_stream) simp_all

end
