(* ===== verification/Sha256Vector.thy ===== *)
theory Sha256Vector
  imports Sha256
begin

text \<open>
  The example of the SHA-256 standard, evaluated by the kernel. It exercises the compression
  function with its 64 constants, which the reference of the theory Sha256 shares with the code.
\<close>

lemma sha256_ref_abc:
  "sha256_ref [0x61, 0x62, 0x63] =
    [0xba, 0x78, 0x16, 0xbf, 0x8f, 0x01, 0xcf, 0xea, 0x41, 0x41, 0x40, 0xde, 0x5d, 0xae, 0x22, 0x23,
     0xb0, 0x03, 0x61, 0xa3, 0x96, 0x17, 0x7a, 0x9c, 0xb4, 0x10, 0xff, 0x61, 0xf2, 0x00, 0x15, 0xad]"
  by code_simp

text \<open>The SHA-256 digest of the message abc is the one printed in the standard.\<close>

lemma sha256_vector_abc:
  "sha256_vector (replicate 64 0) [[0x61], [0x62, 0x63]] = Some
    [0xba, 0x78, 0x16, 0xbf, 0x8f, 0x01, 0xcf, 0xea, 0x41, 0x41, 0x40, 0xde, 0x5d, 0xae, 0x22, 0x23,
     0xb0, 0x03, 0x61, 0xa3, 0x96, 0x17, 0x7a, 0x9c, 0xb4, 0x10, 0xff, 0x61, 0xf2, 0x00, 0x15, 0xad]"
  using sha256_vector_eq [of "replicate 64 0" "[[0x61], [0x62, 0x63]]"] sha256_ref_abc by simp

end
