(* ===== verification/Rijndael.thy ===== *)
theory Rijndael
  imports Aes
begin

unbundle bit_operations_syntax

text \<open>
  The second AES implementation of \<open>core/rtw_security.c\<close>, \<open>rijndaelKeySetupEnc\<close> and
  \<open>rijndaelEncrypt\<close>, which works on 32-bit words and the table \<open>Te0\<close>. The theory proves that it
  computes the cipher of the standard as well, so that the two implementations agree.
\<close>

section \<open>The code\<close>

definition Te0 :: "u32 list" where
  "Te0 = [
     0xc66363a5, 0xf87c7c84, 0xee777799, 0xf67b7b8d,
     0xfff2f20d, 0xd66b6bbd, 0xde6f6fb1, 0x91c5c554,
     0x60303050, 0x02010103, 0xce6767a9, 0x562b2b7d,
     0xe7fefe19, 0xb5d7d762, 0x4dababe6, 0xec76769a,
     0x8fcaca45, 0x1f82829d, 0x89c9c940, 0xfa7d7d87,
     0xeffafa15, 0xb25959eb, 0x8e4747c9, 0xfbf0f00b,
     0x41adadec, 0xb3d4d467, 0x5fa2a2fd, 0x45afafea,
     0x239c9cbf, 0x53a4a4f7, 0xe4727296, 0x9bc0c05b,
     0x75b7b7c2, 0xe1fdfd1c, 0x3d9393ae, 0x4c26266a,
     0x6c36365a, 0x7e3f3f41, 0xf5f7f702, 0x83cccc4f,
     0x6834345c, 0x51a5a5f4, 0xd1e5e534, 0xf9f1f108,
     0xe2717193, 0xabd8d873, 0x62313153, 0x2a15153f,
     0x0804040c, 0x95c7c752, 0x46232365, 0x9dc3c35e,
     0x30181828, 0x379696a1, 0x0a05050f, 0x2f9a9ab5,
     0x0e070709, 0x24121236, 0x1b80809b, 0xdfe2e23d,
     0xcdebeb26, 0x4e272769, 0x7fb2b2cd, 0xea75759f,
     0x1209091b, 0x1d83839e, 0x582c2c74, 0x341a1a2e,
     0x361b1b2d, 0xdc6e6eb2, 0xb45a5aee, 0x5ba0a0fb,
     0xa45252f6, 0x763b3b4d, 0xb7d6d661, 0x7db3b3ce,
     0x5229297b, 0xdde3e33e, 0x5e2f2f71, 0x13848497,
     0xa65353f5, 0xb9d1d168, 0x00000000, 0xc1eded2c,
     0x40202060, 0xe3fcfc1f, 0x79b1b1c8, 0xb65b5bed,
     0xd46a6abe, 0x8dcbcb46, 0x67bebed9, 0x7239394b,
     0x944a4ade, 0x984c4cd4, 0xb05858e8, 0x85cfcf4a,
     0xbbd0d06b, 0xc5efef2a, 0x4faaaae5, 0xedfbfb16,
     0x864343c5, 0x9a4d4dd7, 0x66333355, 0x11858594,
     0x8a4545cf, 0xe9f9f910, 0x04020206, 0xfe7f7f81,
     0xa05050f0, 0x783c3c44, 0x259f9fba, 0x4ba8a8e3,
     0xa25151f3, 0x5da3a3fe, 0x804040c0, 0x058f8f8a,
     0x3f9292ad, 0x219d9dbc, 0x70383848, 0xf1f5f504,
     0x63bcbcdf, 0x77b6b6c1, 0xafdada75, 0x42212163,
     0x20101030, 0xe5ffff1a, 0xfdf3f30e, 0xbfd2d26d,
     0x81cdcd4c, 0x180c0c14, 0x26131335, 0xc3ecec2f,
     0xbe5f5fe1, 0x359797a2, 0x884444cc, 0x2e171739,
     0x93c4c457, 0x55a7a7f2, 0xfc7e7e82, 0x7a3d3d47,
     0xc86464ac, 0xba5d5de7, 0x3219192b, 0xe6737395,
     0xc06060a0, 0x19818198, 0x9e4f4fd1, 0xa3dcdc7f,
     0x44222266, 0x542a2a7e, 0x3b9090ab, 0x0b888883,
     0x8c4646ca, 0xc7eeee29, 0x6bb8b8d3, 0x2814143c,
     0xa7dede79, 0xbc5e5ee2, 0x160b0b1d, 0xaddbdb76,
     0xdbe0e03b, 0x64323256, 0x743a3a4e, 0x140a0a1e,
     0x924949db, 0x0c06060a, 0x4824246c, 0xb85c5ce4,
     0x9fc2c25d, 0xbdd3d36e, 0x43acacef, 0xc46262a6,
     0x399191a8, 0x319595a4, 0xd3e4e437, 0xf279798b,
     0xd5e7e732, 0x8bc8c843, 0x6e373759, 0xda6d6db7,
     0x018d8d8c, 0xb1d5d564, 0x9c4e4ed2, 0x49a9a9e0,
     0xd86c6cb4, 0xac5656fa, 0xf3f4f407, 0xcfeaea25,
     0xca6565af, 0xf47a7a8e, 0x47aeaee9, 0x10080818,
     0x6fbabad5, 0xf0787888, 0x4a25256f, 0x5c2e2e72,
     0x381c1c24, 0x57a6a6f1, 0x73b4b4c7, 0x97c6c651,
     0xcbe8e823, 0xa1dddd7c, 0xe874749c, 0x3e1f1f21,
     0x964b4bdd, 0x61bdbddc, 0x0d8b8b86, 0x0f8a8a85,
     0xe0707090, 0x7c3e3e42, 0x71b5b5c4, 0xcc6666aa,
     0x904848d8, 0x06030305, 0xf7f6f601, 0x1c0e0e12,
     0xc26161a3, 0x6a35355f, 0xae5757f9, 0x69b9b9d0,
     0x17868691, 0x99c1c158, 0x3a1d1d27, 0x279e9eb9,
     0xd9e1e138, 0xebf8f813, 0x2b9898b3, 0x22111133,
     0xd26969bb, 0xa9d9d970, 0x078e8e89, 0x339494a7,
     0x2d9b9bb6, 0x3c1e1e22, 0x15878792, 0xc9e9e920,
     0x87cece49, 0xaa5555ff, 0x50282878, 0xa5dfdf7a,
     0x038c8c8f, 0x59a1a1f8, 0x09898980, 0x1a0d0d17,
     0x65bfbfda, 0xd7e6e631, 0x844242c6, 0xd06868b8,
     0x824141c3, 0x299999b0, 0x5a2d2d77, 0x1e0f0f11,
     0x7bb0b0cb, 0xa85454fc, 0x6dbbbbd6, 0x2c16163a]"

definition rcons :: "u8 list" where
  "rcons = [0x01, 0x02, 0x04, 0x08, 0x10, 0x20, 0x40, 0x80, 0x1B, 0x36]"

definition GETU32 :: "bytes \<Rightarrow> u32" where
  "GETU32 pt = push_bit 24 (ucast (pt ! 0)) XOR push_bit 16 (ucast (pt ! 1))
     XOR push_bit 8 (ucast (pt ! 2)) XOR ucast (pt ! 3)"

definition PUTU32 :: "u32 \<Rightarrow> bytes" where
  "PUTU32 st = [ucast (drop_bit 24 st), ucast (drop_bit 16 st), ucast (drop_bit 8 st), ucast st]"

definition rotr32 :: "u32 \<Rightarrow> nat \<Rightarrow> u32" where
  "rotr32 val bits = drop_bit bits val OR push_bit (32 - bits) val"

definition TE0 :: "u32 \<Rightarrow> u32" where "TE0 i = Te0 ! unat (drop_bit 24 i AND 0xff)"
definition TE1 :: "u32 \<Rightarrow> u32" where "TE1 i = rotr32 (Te0 ! unat (drop_bit 16 i AND 0xff)) 8"
definition TE2 :: "u32 \<Rightarrow> u32" where "TE2 i = rotr32 (Te0 ! unat (drop_bit 8 i AND 0xff)) 16"
definition TE3 :: "u32 \<Rightarrow> u32" where "TE3 i = rotr32 (Te0 ! unat (i AND 0xff)) 24"
definition TE41 :: "u32 \<Rightarrow> u32" where "TE41 i = push_bit 8 (Te0 ! unat (drop_bit 24 i AND 0xff)) AND 0xff000000"
definition TE42 :: "u32 \<Rightarrow> u32" where "TE42 i = Te0 ! unat (drop_bit 16 i AND 0xff) AND 0x00ff0000"
definition TE43 :: "u32 \<Rightarrow> u32" where "TE43 i = Te0 ! unat (drop_bit 8 i AND 0xff) AND 0x0000ff00"
definition TE44 :: "u32 \<Rightarrow> u32" where "TE44 i = drop_bit 8 (Te0 ! unat (i AND 0xff)) AND 0x000000ff"
definition TE421 :: "u32 \<Rightarrow> u32" where "TE421 i = push_bit 8 (Te0 ! unat (drop_bit 16 i AND 0xff)) AND 0xff000000"
definition TE432 :: "u32 \<Rightarrow> u32" where "TE432 i = Te0 ! unat (drop_bit 8 i AND 0xff) AND 0x00ff0000"
definition TE443 :: "u32 \<Rightarrow> u32" where "TE443 i = Te0 ! unat (i AND 0xff) AND 0x0000ff00"
definition TE414 :: "u32 \<Rightarrow> u32" where "TE414 i = drop_bit 8 (Te0 ! unat (drop_bit 24 i AND 0xff)) AND 0x000000ff"

definition RCON :: "nat \<Rightarrow> u32" where
  "RCON i = push_bit 24 (ucast (rcons ! i))"

text \<open>One turn of the loop of \<open>rijndaelKeySetupEnc\<close>; \<open>rk\<close> points at word \<open>4 * i\<close> of the schedule.\<close>

definition key_setup_step :: "nat \<Rightarrow> u32 list \<Rightarrow> u32 list" where
  "key_setup_step i rk =
     (let o4 = 4 * i;
          temp = rk ! (o4 + 3);
          rk = rk[o4 + 4 := rk ! o4 XOR TE421 temp XOR TE432 temp XOR TE443 temp XOR TE414 temp XOR RCON i];
          rk = rk[o4 + 5 := rk ! (o4 + 1) XOR rk ! (o4 + 4)];
          rk = rk[o4 + 6 := rk ! (o4 + 2) XOR rk ! (o4 + 5)]
      in rk[o4 + 7 := rk ! (o4 + 3) XOR rk ! (o4 + 6)])"

definition rijndaelKeySetupEnc :: "u32 list \<Rightarrow> bytes \<Rightarrow> u32 list" where
  "rijndaelKeySetupEnc rk cipherKey =
     (let rk = rk[0 := GETU32 cipherKey];
          rk = rk[1 := GETU32 (drop 4 cipherKey)];
          rk = rk[2 := GETU32 (drop 8 cipherKey)];
          rk = rk[3 := GETU32 (drop 12 cipherKey)]
      in fold key_setup_step [0..<10] rk)"

type_synonym cols = "u32 \<times> u32 \<times> u32 \<times> u32"

text \<open>\<open>ROUND (i, d, s)\<close> with \<open>rk\<close> advanced to word \<open>k\<close>.\<close>

fun rijndael_ROUND :: "u32 list \<Rightarrow> nat \<Rightarrow> cols \<Rightarrow> cols" where
  "rijndael_ROUND rk k (s0, s1, s2, s3) =
     (TE0 s0 XOR TE1 s1 XOR TE2 s2 XOR TE3 s3 XOR rk ! k,
      TE0 s1 XOR TE1 s2 XOR TE2 s3 XOR TE3 s0 XOR rk ! (k + 1),
      TE0 s2 XOR TE1 s3 XOR TE2 s0 XOR TE3 s1 XOR rk ! (k + 2),
      TE0 s3 XOR TE1 s0 XOR TE2 s1 XOR TE3 s2 XOR rk ! (k + 3))"

text \<open>
  The loop over \<open>r\<close>: two rounds in every turn but the last, which makes one; \<open>k\<close> is the word
  \<open>rk\<close> points at. The result carries \<open>t\<close> and the advanced \<open>rk\<close>.
\<close>

fun rijndael_rounds :: "u32 list \<Rightarrow> nat \<Rightarrow> nat \<Rightarrow> cols \<Rightarrow> cols \<times> nat" where
  "rijndael_rounds rk k 0 s = (s, k)"
| "rijndael_rounds rk k (Suc r) s =
     (let t = rijndael_ROUND rk (k + 4 * 1) s;
          k = k + 8
      in if r = 0 then (t, k) else rijndael_rounds rk k r (rijndael_ROUND rk (k + 4 * 0) t))"

definition rijndaelEncrypt :: "u32 list \<Rightarrow> bytes \<Rightarrow> bytes" where
  "rijndaelEncrypt rk pt =
     (let s0 = GETU32 pt XOR rk ! 0;
          s1 = GETU32 (drop 4 pt) XOR rk ! 1;
          s2 = GETU32 (drop 8 pt) XOR rk ! 2;
          s3 = GETU32 (drop 12 pt) XOR rk ! 3;
          ((t0, t1, t2, t3), k) = rijndael_rounds rk 0 5 (s0, s1, s2, s3);
          s0 = TE41 t0 XOR TE42 t1 XOR TE43 t2 XOR TE44 t3 XOR rk ! k;
          s1 = TE41 t1 XOR TE42 t2 XOR TE43 t3 XOR TE44 t0 XOR rk ! (k + 1);
          s2 = TE41 t2 XOR TE42 t3 XOR TE43 t0 XOR TE44 t1 XOR rk ! (k + 2);
          s3 = TE41 t3 XOR TE42 t0 XOR TE43 t1 XOR TE44 t2 XOR rk ! (k + 3)
      in PUTU32 s0 @ PUTU32 s1 @ PUTU32 s2 @ PUTU32 s3)"

section \<open>Words as columns of bytes\<close>

definition wd :: "u8 \<Rightarrow> u8 \<Rightarrow> u8 \<Rightarrow> u8 \<Rightarrow> u32" where
  "wd a b c d = push_bit 24 (ucast a) XOR push_bit 16 (ucast b) XOR push_bit 8 (ucast c) XOR ucast d"

lemma bit_byte_word: "bit (ucast (b :: u8) :: u32) n \<longleftrightarrow> bit b n \<and> n < 8"
  using bit_imp_le_length [of b n] by (auto simp: bit_ucast_iff)

lemma bit_wd: "bit (wd a b c d) n \<longleftrightarrow>
  (if n < 8 then bit d n else if n < 16 then bit c (n - 8) else if n < 24 then bit b (n - 16)
   else if n < 32 then bit a (n - 24) else False)"
  by (auto simp: wd_def bit_xor_iff bit_push_bit_iff bit_byte_word)

lemma bit_byte: "bit (b :: u8) n \<Longrightarrow> n < 8"
  using bit_imp_le_length [of b n] by simp

lemma wd_xor: "wd a b c d XOR wd a' b' c' d' = wd (a XOR a') (b XOR b') (c XOR c') (d XOR d')"
  by (rule bit_word_eqI) (simp add: bit_xor_iff bit_wd)

lemma and_ff: "v AND 0xff = take_bit 8 (v :: u32)"
  by (simp add: take_bit_eq_mask mask_eq_exp_minus_1)

lemma wd_byte:
  "drop_bit 24 (wd a b c d) AND 0xff = ucast a" "drop_bit 16 (wd a b c d) AND 0xff = ucast b"
  "drop_bit 8 (wd a b c d) AND 0xff = ucast c" "wd a b c d AND 0xff = ucast d"
  unfolding and_ff
  by (rule bit_word_eqI, auto simp: bit_take_bit_iff bit_drop_bit_eq bit_wd bit_byte_word dest: bit_byte)+

lemma wd_mask:
  "wd a b c d AND 0xff000000 = wd a 0 0 0" "wd a b c d AND 0x00ff0000 = wd 0 b 0 0"
  "wd a b c d AND 0x0000ff00 = wd 0 0 c 0" "wd a b c d AND 0x000000ff = wd 0 0 0 d"
proof -
  have m: "(0xff000000 :: u32) = push_bit 24 (mask 8)" "(0x00ff0000 :: u32) = push_bit 16 (mask 8)"
    "(0x0000ff00 :: u32) = push_bit 8 (mask 8)" "(0x000000ff :: u32) = push_bit 0 (mask 8)"
    by (simp_all add: mask_eq_exp_minus_1)
  show "wd a b c d AND 0xff000000 = wd a 0 0 0" "wd a b c d AND 0x00ff0000 = wd 0 b 0 0"
    "wd a b c d AND 0x0000ff00 = wd 0 0 c 0" "wd a b c d AND 0x000000ff = wd 0 0 0 d"
    unfolding m by (rule bit_word_eqI, auto simp: bit_and_iff bit_push_bit_iff bit_mask_iff bit_wd)+
qed

lemma wd_shift:
  "push_bit 8 (wd a b c d) = wd b c d 0" "drop_bit 8 (wd a b c d) = wd 0 a b c"
  by (rule bit_word_eqI, auto simp: bit_push_bit_iff bit_drop_bit_eq bit_wd)+

lemma wd_ucast:
  "ucast (drop_bit 24 (wd a b c d)) = a" "ucast (drop_bit 16 (wd a b c d)) = b"
  "ucast (drop_bit 8 (wd a b c d)) = c" "ucast (wd a b c d) = d"
  by (rule bit_word_eqI, auto simp: bit_ucast_iff bit_drop_bit_eq bit_wd)+

lemma wd_rotr:
  "rotr32 (wd a b c d) 8 = wd d a b c" "rotr32 (wd a b c d) 16 = wd c d a b" "rotr32 (wd a b c d) 24 = wd b c d a"
  by (rule bit_word_eqI, auto simp: rotr32_def bit_or_iff bit_drop_bit_eq bit_push_bit_iff bit_wd)+

section \<open>The table\<close>

definition te0_row_ok :: "u8 \<Rightarrow> u32 \<Rightarrow> bool" where
  "te0_row_ok s t \<longleftrightarrow> (let d = xtime s in t = wd d s s (d XOR s))"

lemma te0_rows: "list_all2 te0_row_ok sbox_table Te0"
  by (simp add: sbox_table_def Te0_def te0_row_ok_def Let_def wd_def xtime_def)

lemma Te0_sbox: "Te0 ! unat x = wd (xtime (sbox x)) (sbox x) (sbox x) (xtime (sbox x) XOR sbox x)"
  using list_all2_nthD [OF te0_rows, of "unat x"] by (simp add: te0_row_ok_def Let_def sbox_def)

lemma unat_ucast_byte: "unat (ucast (b :: u8) :: u32) = unat b"
proof -
  have "unat b < 2 ^ 32" by (rule less_trans [OF unat_u8_less]) simp
  then show ?thesis by (simp add: unsigned_ucast_eq take_bit_nat_eq_self)
qed

lemma wd_000: "wd 0 0 0 d = ucast d"
  by (simp add: wd_def)

lemmas te_col = wd_byte unat_ucast_byte Te0_sbox wd_rotr wd_mask wd_shift

lemma TE_cols:
  "TE0 (wd a b c d) = wd (xtime (sbox a)) (sbox a) (sbox a) (xtime (sbox a) XOR sbox a)"
  "TE1 (wd a b c d) = wd (xtime (sbox b) XOR sbox b) (xtime (sbox b)) (sbox b) (sbox b)"
  "TE2 (wd a b c d) = wd (sbox c) (xtime (sbox c) XOR sbox c) (xtime (sbox c)) (sbox c)"
  "TE3 (wd a b c d) = wd (sbox d) (sbox d) (xtime (sbox d) XOR sbox d) (xtime (sbox d))"
  by (simp_all only: TE0_def TE1_def TE2_def TE3_def te_col)

lemma TE_last:
  "TE41 (wd a b c d) = wd (sbox a) 0 0 0" "TE42 (wd a b c d) = wd 0 (sbox b) 0 0"
  "TE43 (wd a b c d) = wd 0 0 (sbox c) 0" "TE44 (wd a b c d) = wd 0 0 0 (sbox d)"
  by (simp_all only: TE41_def TE42_def TE43_def TE44_def te_col wd_000)

lemma TE_key:
  "TE421 (wd a b c d) = wd (sbox b) 0 0 0" "TE432 (wd a b c d) = wd 0 (sbox c) 0 0"
  "TE443 (wd a b c d) = wd 0 0 (sbox d) 0" "TE414 (wd a b c d) = wd 0 0 0 (sbox a)"
  by (simp_all only: TE421_def TE432_def TE443_def TE414_def te_col wd_000)

lemma GETU32_wd: "GETU32 (a # b # c # d # xs) = wd a b c d"
  by (simp add: GETU32_def wd_def)

lemma PUTU32_wd: "PUTU32 (wd a b c d) = [a, b, c, d]"
  by (simp add: PUTU32_def wd_ucast)

lemma GETU32_xor: "length u = 4 \<Longrightarrow> length v = 4 \<Longrightarrow> GETU32 (xor_bytes u v) = GETU32 u XOR GETU32 v"
  by (erule list4E, erule list4E) (simp add: xor_bytes_def GETU32_wd wd_xor)

section \<open>The key schedule\<close>

lemma RCON_wd: "r < 10 \<Longrightarrow> RCON r = wd ((xtime ^^ r) 1) 0 0 0"
proof -
  assume r: "r < 10"
  have "rcons = take 10 rcon_table" by (simp add: rcons_def rcon_table_def)
  then have "rcons ! r = rcon_table ! r" using nth_take [OF r, of rcon_table] by (simp only:)
  then have "rcons ! r = (xtime ^^ r) 1" by (simp only: rcon_xtime [OF r])
  then show ?thesis by (simp add: RCON_def wd_def)
qed

lemma sub_rot_word:
  assumes "length t = 4" and "r < 10"
  shows "TE421 (GETU32 t) XOR TE432 (GETU32 t) XOR TE443 (GETU32 t) XOR TE414 (GETU32 t) XOR RCON r =
    GETU32 (xor_bytes (map sbox (rotate1 t)) [(xtime ^^ r) 1, 0, 0, 0])"
proof -
  obtain a b c d where t: "t = [a, b, c, d]" using assms(1) by (rule list4E)
  show ?thesis
    unfolding t RCON_wd [OF assms(2)] GETU32_wd TE_key by (simp add: wd_xor xor_bytes_def GETU32_wd)
qed

definition rk_ok :: "bytes \<Rightarrow> nat \<Rightarrow> u32 list \<Rightarrow> bool" where
  "rk_ok key n rk \<longleftrightarrow> length rk = 44 \<and> (\<forall>i<n. rk ! i = GETU32 (fips_w key i))"

lemma rk_okI: "rk_ok key n rk \<Longrightarrow> n < 44 \<Longrightarrow> w = GETU32 (fips_w key n) \<Longrightarrow> rk_ok key (Suc n) (rk[n := w])"
  by (auto simp: rk_ok_def nth_list_update less_Suc_eq)

lemma rk_ok_nth: "rk_ok key n rk \<Longrightarrow> i < n \<Longrightarrow> rk ! i = GETU32 (fips_w key i)"
  by (simp add: rk_ok_def)

lemma fips_w_GETU32:
  assumes "length key = 16" and "4 \<le> i" and "i < 44" and "i mod 4 \<noteq> 0" and "j = i - 4" and "k = i - 1"
  shows "GETU32 (fips_w key i) = GETU32 (fips_w key j) XOR GETU32 (fips_w key k)"
  using assms by (simp add: fips_w_other GETU32_xor)

lemma key_setup_step_ok:
  assumes key: "length key = 16" and r: "r < 10" and rk: "rk_ok key (4 * r + 4) rk"
  shows "rk_ok key (4 * Suc r + 4) (key_setup_step r rk)"
proof -
  define q where "q = 4 * r"
  have q: "q mod 4 = 0" "q \<le> 36" "q div 4 = r" using r by (simp_all add: q_def)
  let ?w = "\<lambda>i. GETU32 (fips_w key i)"
  have w4: "?w (q + 4) = ?w q XOR TE421 (?w (q + 3)) XOR TE432 (?w (q + 3)) XOR TE443 (?w (q + 3))
      XOR TE414 (?w (q + 3)) XOR RCON r"
  proof -
    have e: "q + 4 - 1 = q + 3" "(q + 4) div 4 - 1 = r" "q + 4 - 4 = q" using q by simp_all
    have "fips_w key (q + 4) = xor_bytes (fips_w key q)
        (xor_bytes (map sbox (rotate1 (fips_w key (q + 3)))) [(xtime ^^ r) 1, 0, 0, 0])"
      by (rule fips_w_mult [of "q + 4" key, unfolded e]) (use q in simp_all)
    then have "?w (q + 4) = ?w q XOR GETU32 (xor_bytes (map sbox (rotate1 (fips_w key (q + 3)))) [(xtime ^^ r) 1, 0, 0, 0])"
      using q key by (simp add: GETU32_xor)
    also have "GETU32 (xor_bytes (map sbox (rotate1 (fips_w key (q + 3)))) [(xtime ^^ r) 1, 0, 0, 0]) =
        TE421 (?w (q + 3)) XOR TE432 (?w (q + 3)) XOR TE443 (?w (q + 3)) XOR TE414 (?w (q + 3)) XOR RCON r"
      using q r key by (intro sub_rot_word [symmetric]) simp_all
    finally show ?thesis by (simp only: xor.assoc)
  qed
  have w5: "?w (q + 5) = ?w (q + 1) XOR ?w (q + 4)" and w6: "?w (q + 6) = ?w (q + 2) XOR ?w (q + 5)"
    and w7: "?w (q + 7) = ?w (q + 3) XOR ?w (q + 6)"
    using q by (auto intro!: fips_w_GETU32 [OF key] simp: mod_add_left_eq [of q 4, symmetric])
  define r4 where "r4 = rk[q + 4 := rk ! q XOR TE421 (rk ! (q + 3)) XOR TE432 (rk ! (q + 3))
      XOR TE443 (rk ! (q + 3)) XOR TE414 (rk ! (q + 3)) XOR RCON r]"
  define r5 where "r5 = r4[q + 5 := r4 ! (q + 1) XOR r4 ! (q + 4)]"
  define r6 where "r6 = r5[q + 6 := r5 ! (q + 2) XOR r5 ! (q + 5)]"
  have "rk_ok key (Suc (q + 4)) r4"
    unfolding r4_def using rk q w4 by (intro rk_okI) (simp_all add: rk_ok_nth q_def [symmetric])
  then have ok4: "rk_ok key (q + 5) r4" by (simp add: eval_nat_numeral)
  have "rk_ok key (Suc (q + 5)) r5"
    unfolding r5_def using q w5 by (intro rk_okI ok4) (simp_all add: rk_ok_nth [OF ok4])
  then have ok5: "rk_ok key (q + 6) r5" by (simp add: eval_nat_numeral)
  have "rk_ok key (Suc (q + 6)) r6"
    unfolding r6_def using q w6 by (intro rk_okI ok5) (simp_all add: rk_ok_nth [OF ok5])
  then have ok6: "rk_ok key (q + 7) r6" by (simp add: eval_nat_numeral)
  have "rk_ok key (Suc (q + 7)) (r6[q + 7 := r6 ! (q + 3) XOR r6 ! (q + 6)])"
    using q w7 by (intro rk_okI ok6) (simp_all add: rk_ok_nth [OF ok6])
  moreover have "key_setup_step r rk = r6[q + 7 := r6 ! (q + 3) XOR r6 ! (q + 6)]"
    by (simp only: key_setup_step_def Let_def r6_def r5_def r4_def q_def)
  ultimately show ?thesis by (simp add: q_def)
qed

lemma key_setup_ok:
  assumes key: "length key = 16" and rk: "length rk = 44"
  shows "rk_ok key 44 (rijndaelKeySetupEnc rk key)"
proof -
  define rk0 where "rk0 = rk[0 := GETU32 key, 1 := GETU32 (drop 4 key), 2 := GETU32 (drop 8 key), 3 := GETU32 (drop 12 key)]"
  have w: "fips_w key 0 = take 4 key" "fips_w key 1 = take 4 (drop 4 key)" "fips_w key 2 = take 4 (drop 8 key)"
    "fips_w key 3 = take 4 (drop 12 key)"
    by (simp_all add: fips_w.simps seg_def)
  have g: "GETU32 (take 4 x) = GETU32 x" for x by (simp add: GETU32_def)
  have "rk_ok key 4 rk0"
    unfolding rk_ok_def
  proof (intro conjI allI impI)
    fix i :: nat assume "i < 4"
    then have "i = 0 \<or> i = 1 \<or> i = 2 \<or> i = 3" by auto
    then show "rk0 ! i = GETU32 (fips_w key i)" by (elim disjE) (simp_all only: w g, simp_all add: rk0_def rk)
  qed (simp add: rk0_def rk)
  then have "n \<le> 10 \<Longrightarrow> rk_ok key (4 * n + 4) (fold key_setup_step [0..<n] rk0)" for n
  proof (induction n)
    case (Suc n)
    then show ?case using key_setup_step_ok [OF key, of n "fold key_setup_step [0..<n] rk0"] by simp
  qed simp
  from this [of 10] show ?thesis by (simp add: rijndaelKeySetupEnc_def rk0_def Let_def)
qed

section \<open>The rounds\<close>

definition cols_of :: "bytes \<Rightarrow> cols" where
  "cols_of st = (GETU32 st, GETU32 (drop 4 st), GETU32 (drop 8 st), GETU32 (drop 12 st))"

lemma round_key_cols:
  assumes "length key = 16" and "r < 11" and "rk_ok key 44 rk"
  shows "cols_of (fips_round_key key r) = (rk ! (4 * r), rk ! (4 * r + 1), rk ! (4 * r + 2), rk ! (4 * r + 3))"
proof -
  have l: "length (fips_w key (4 * r)) = 4" "length (fips_w key (4 * r + 1)) = 4"
    "length (fips_w key (4 * r + 2)) = 4" "length (fips_w key (4 * r + 3)) = 4"
    using assms by simp_all
  have n: "rk ! (4 * r) = GETU32 (fips_w key (4 * r))" "rk ! (4 * r + 1) = GETU32 (fips_w key (4 * r + 1))"
    "rk ! (4 * r + 2) = GETU32 (fips_w key (4 * r + 2))" "rk ! (4 * r + 3) = GETU32 (fips_w key (4 * r + 3))"
    using assms by (auto intro: rk_ok_nth)
  have g: "GETU32 (x @ ys) = GETU32 x" if "length x = 4" for x ys
    using that by (elim list4E) (simp add: GETU32_wd)
  have d: "drop 4 (fips_round_key key r) = fips_w key (4 * r + 1) @ fips_w key (4 * r + 2) @ fips_w key (4 * r + 3)"
    "drop 8 (fips_round_key key r) = fips_w key (4 * r + 2) @ fips_w key (4 * r + 3)"
    "drop 12 (fips_round_key key r) = fips_w key (4 * r + 3) @ []"
    using l by (simp_all only: fips_round_key_words drop_append) simp_all
  show ?thesis
    unfolding cols_of_def d n unfolding fips_round_key_words by (simp only: g l)
qed

lemma cols_of_xor:
  assumes "length u = 16" and "length v = 16"
  shows "cols_of (xor_bytes u v) =
    (case (cols_of u, cols_of v) of ((a, b, c, d), (a', b', c', d')) \<Rightarrow> (a XOR a', b XOR b', c XOR c', d XOR d'))"
  using assms by (elim list16E) (simp add: cols_of_def xor_bytes_def GETU32_wd wd_xor)

lemma fips_shift_rows_16:
  "fips_shift_rows [a0, a1, a2, a3, a4, a5, a6, a7, a8, a9, a10, a11, a12, a13, a14, a15] =
     [a0, a5, a10, a15, a4, a9, a14, a3, a8, a13, a2, a7, a12, a1, a6, a11]"
  by (simp add: fips_shift_rows_def upt_16)

lemma fips_mix_columns_16:
  "fips_mix_columns [a0, a1, a2, a3, a4, a5, a6, a7, a8, a9, a10, a11, a12, a13, a14, a15] =
     mix_column [a0, a1, a2, a3] @ mix_column [a4, a5, a6, a7] @ mix_column [a8, a9, a10, a11] @ mix_column [a12, a13, a14, a15]"
  unfolding mix_column_field [OF refl] fips_mix_columns_def upt_16 by (simp add: Let_def)

lemma ROUND_fips:
  assumes st: "length st = 16" and key: "length key = 16" and r: "r < 11" and rk: "rk_ok key 44 rk"
  shows "rijndael_ROUND rk (4 * r) (cols_of st) =
    cols_of (xor_bytes (fips_mix_columns (fips_shift_rows (map sbox st))) (fips_round_key key r))"
proof -
  obtain a0 a1 a2 a3 a4 a5 a6 a7 a8 a9 a10 a11 a12 a13 a14 a15
    where s: "st = [a0, a1, a2, a3, a4, a5, a6, a7, a8, a9, a10, a11, a12, a13, a14, a15]"
    using st by (rule list16E)
  have c: "cols_of st = (wd a0 a1 a2 a3, wd a4 a5 a6 a7, wd a8 a9 a10 a11, wd a12 a13 a14 a15)"
    by (simp add: cols_of_def s GETU32_wd)
  have l: "length (fips_mix_columns (fips_shift_rows (map sbox st))) = 16" by (simp add: fips_mix_columns_def)
  have lk: "length (fips_round_key key r) = 16" using key r by simp
  have m: "cols_of (fips_mix_columns (fips_shift_rows (map sbox st))) =
    (GETU32 (mix_column [sbox a0, sbox a5, sbox a10, sbox a15]), GETU32 (mix_column [sbox a4, sbox a9, sbox a14, sbox a3]),
     GETU32 (mix_column [sbox a8, sbox a13, sbox a2, sbox a7]), GETU32 (mix_column [sbox a12, sbox a1, sbox a6, sbox a11]))"
    unfolding s list.map fips_shift_rows_16 fips_mix_columns_16 mix_column_field [OF refl]
    by (simp add: cols_of_def GETU32_wd)
  show ?thesis
    unfolding cols_of_xor [OF l lk] m round_key_cols [OF key r rk] c
    by (simp add: TE_cols mix_column_field [OF refl] GETU32_wd wd_xor gf_mul_2 gf_mul_3 ac_simps)
qed

lemma round_fips:
  assumes key: "length key = 16" and data: "length data = 16" and rk: "rk_ok key 44 rk" and i: "i < 9"
  shows "rijndael_ROUND rk (4 * Suc i) (cols_of (fips_state key data i)) = cols_of (fips_state key data (Suc i))"
  using i key data by (subst ROUND_fips [OF _ key _ rk]) (simp_all add: Let_def)

lemma rounds_fips:
  assumes key: "length key = 16" and data: "length data = 16" and rk: "rk_ok key 44 rk"
  shows "r \<le> 4 \<Longrightarrow> rijndael_rounds rk (8 * (4 - r)) (Suc r) (cols_of (fips_state key data (2 * (4 - r)))) =
    (cols_of (fips_state key data 9), 40)"
proof (induction r)
  case 0
  then show ?case using round_fips [OF key data rk, of 8] by simp
next
  case (Suc r)
  define j where "j = 2 * (4 - Suc r)"
  have j: "8 * (4 - Suc r) = 4 * j" "2 * (4 - r) = Suc (Suc j)" "8 * (4 - r) = 4 * j + 8" "j < 8"
    using Suc.prems by (simp_all add: j_def)
  note st = round_fips [OF key data rk]
  have "rijndael_rounds rk (4 * j) (Suc (Suc r)) (cols_of (fips_state key data j)) =
      rijndael_rounds rk (4 * j + 8) (Suc r) (cols_of (fips_state key data (Suc (Suc j))))"
    using st [of j] st [of "Suc j"] j(4) by (simp add: Let_def algebra_simps)
  also have "\<dots> = (cols_of (fips_state key data 9), 40)"
    using Suc.IH [unfolded j(2,3)] Suc.prems by (simp del: rijndael_rounds.simps)
  finally show ?case unfolding j(1) j_def [symmetric] .
qed

lemma rijndael_fips:
  assumes key: "length key = 16" and pt: "length pt = 16" and rk0: "length rk0 = 44"
  shows "rijndaelEncrypt (rijndaelKeySetupEnc rk0 key) pt = fips_aes key pt"
proof -
  define rk where "rk = rijndaelKeySetupEnc rk0 key"
  have rk: "rk_ok key 44 rk" unfolding rk_def using key rk0 by (rule key_setup_ok)
  have k0: "length (fips_round_key key 0) = 16" using key by simp
  have "(GETU32 pt XOR rk ! 0, GETU32 (drop 4 pt) XOR rk ! 1, GETU32 (drop 8 pt) XOR rk ! 2, GETU32 (drop 12 pt) XOR rk ! 3)
      = cols_of (fips_state key pt 0)"
    unfolding fips_state.simps cols_of_xor [OF pt k0] using round_key_cols [OF key _ rk, of 0] by (simp add: cols_of_def numeral_2_eq_2)
  then have start: "rijndael_rounds rk 0 5 (GETU32 pt XOR rk ! 0, GETU32 (drop 4 pt) XOR rk ! 1,
      GETU32 (drop 8 pt) XOR rk ! 2, GETU32 (drop 12 pt) XOR rk ! 3) = (cols_of (fips_state key pt 9), 40)"
    using rounds_fips [OF key pt rk, of 4] by (simp add: eval_nat_numeral)
  define st where "st = fips_state key pt 9"
  have lst: "length st = 16" using key pt by (simp add: st_def)
  obtain a0 a1 a2 a3 a4 a5 a6 a7 a8 a9 a10 a11 a12 a13 a14 a15
    where s: "st = [a0, a1, a2, a3, a4, a5, a6, a7, a8, a9, a10, a11, a12, a13, a14, a15]"
    using lst by (rule list16E)
  have c: "cols_of st = (wd a0 a1 a2 a3, wd a4 a5 a6 a7, wd a8 a9 a10 a11, wd a12 a13 a14 a15)"
    by (simp add: cols_of_def s GETU32_wd)
  have l10: "length (fips_round_key key 10) = 16" using key by simp
  obtain k0 k1 k2 k3 k4 k5 k6 k7 k8 k9 k10 k11 k12 k13 k14 k15
    where kk: "fips_round_key key 10 = [k0, k1, k2, k3, k4, k5, k6, k7, k8, k9, k10, k11, k12, k13, k14, k15]"
    using l10 by (rule list16E)
  have r10: "rk ! 40 = wd k0 k1 k2 k3" "rk ! 41 = wd k4 k5 k6 k7" "rk ! 42 = wd k8 k9 k10 k11" "rk ! 43 = wd k12 k13 k14 k15"
    using round_key_cols [OF key _ rk, of 10] by (simp_all add: cols_of_def kk GETU32_wd)
  have "fips_aes key pt = xor_bytes (fips_shift_rows (map sbox st)) (fips_round_key key 10)"
    unfolding fips_aes_def st_def by (simp add: eval_nat_numeral Let_def)
  moreover have "rijndaelEncrypt rk pt = xor_bytes (fips_shift_rows (map sbox st)) (fips_round_key key 10)"
    unfolding rijndaelEncrypt_def Let_def start st_def [symmetric] c prod.case unfolding kk s list.map fips_shift_rows_16
    by (simp add: TE_last r10 wd_xor PUTU32_wd xor_bytes_def)
  ultimately show ?thesis by (simp add: rk_def)
qed

text \<open>C31: For every key and block the word-oriented AES implementation with its schedule
  computes the cipher of the standard, hence the same as the byte-oriented one that CCMP uses.\<close>

theorem rijndael_is_aes:
  assumes key: "length key = 16" and pt: "length pt = 16" and rk0: "length rk0 = 44"
  shows "rijndaelEncrypt (rijndaelKeySetupEnc rk0 key) pt = fips_aes key pt \<and>
    rijndaelEncrypt (rijndaelKeySetupEnc rk0 key) pt = aes128k128d key pt"
  using rijndael_fips [OF assms] aes128k128d_fips [OF key pt] by simp

theorem rijndael_is_aes_witness:
  "rijndaelEncrypt (rijndaelKeySetupEnc (replicate 44 0) (replicate 16 3)) (replicate 16 7) = fips_aes (replicate 16 3) (replicate 16 7)"
  using rijndael_is_aes [of "replicate 16 3" "replicate 16 7" "replicate 44 0"] by simp

end
