(* ===== verification/Omac.thy ===== *)
theory Omac
  imports Rijndael
begin

unbundle bit_operations_syntax

text \<open>
  \<open>omac1_aes_128_vector\<close> and \<open>omac1_aes_128\<close> of \<open>core/rtw_security.c\<close>: the CMAC of a message
  that lies in several pieces. The reader of the pieces is modelled with its pointer, because the
  code moves on to the next piece as soon as one is used up, without asking whether there is one
  and whether it is empty; reading from an exhausted position is \<open>None\<close>. For nonempty pieces the
  result is the CMAC of their concatenation.
\<close>

section \<open>Doubling\<close>

definition gf_mulx :: "bytes \<Rightarrow> bytes" where
  "gf_mulx pad =
     (let carry = (pad ! 0) AND 0x80;
          pad' = map (\<lambda>i. push_bit 1 (pad ! i) OR drop_bit 7 (pad ! (i + 1))) [0..<15] @ [push_bit 1 (pad ! 15)]
      in if carry \<noteq> 0 then pad'[15 := pad' ! 15 XOR 0x87] else pad')"

lemma length_gf_mulx [simp]: "length (gf_mulx pad) = 16"
  by (simp add: gf_mulx_def Let_def)

text \<open>The block as a 128-bit number, most significant byte first.\<close>

definition be128 :: "bytes \<Rightarrow> 128 word" where
  "be128 xs = fold (\<lambda>b v. push_bit 8 v OR ucast b) xs 0"

lemma bit_be_fold:
  fixes acc :: "128 word"
  shows "n < 128 \<Longrightarrow> bit (fold (\<lambda>(b :: u8) v. push_bit 8 v OR ucast b) xs acc) n \<longleftrightarrow>
    (if n < 8 * length xs then bit (xs ! (length xs - 1 - n div 8)) (n mod 8)
     else bit acc (n - 8 * length xs))"
proof (induction xs arbitrary: n rule: rev_induct)
  case Nil
  then show ?case by simp
next
  case (snoc x xs)
  have u: "bit (ucast x :: 128 word) k \<longleftrightarrow> bit x k" if "k < 128" for k
    using that by (simp add: bit_ucast_iff)
  show ?case
  proof (cases "n < 8")
    case True
    then show ?thesis using snoc.prems by (simp add: bit_or_iff bit_push_bit_iff u)
  next
    case False
    have x: "\<not> bit x n" using False bit_imp_le_length [of x n] by auto
    have d: "(n - 8) div 8 = n div 8 - 1" "(n - 8) mod 8 = n mod 8" "0 < n div 8"
      using False le_div_geq [of 8 n] le_mod_geq [of 8 n] by (simp_all add: div_greater_zero_iff)
    have "bit (fold (\<lambda>(b :: u8) v. push_bit 8 v OR ucast b) (xs @ [x]) acc) n \<longleftrightarrow>
      bit (fold (\<lambda>(b :: u8) v. push_bit 8 v OR ucast b) xs acc) (n - 8)"
      using False x snoc.prems by (simp add: bit_or_iff bit_push_bit_iff u)
    also have "\<dots> \<longleftrightarrow> (if n - 8 < 8 * length xs then bit (xs ! (length xs - 1 - (n - 8) div 8)) ((n - 8) mod 8)
        else bit acc (n - 8 - 8 * length xs))"
      using snoc.prems by (intro snoc.IH) simp
    also have "\<dots> \<longleftrightarrow> (if n < 8 * length (xs @ [x]) then bit ((xs @ [x]) ! (length (xs @ [x]) - 1 - n div 8)) (n mod 8)
        else bit acc (n - 8 * length (xs @ [x])))"
    proof (cases "n - 8 < 8 * length xs")
      case True
      then have "n div 8 < Suc (length xs)" using False by linarith
      then have i: "length (xs @ [x]) - 1 - n div 8 = length xs - 1 - (n div 8 - 1)"
        "length xs - 1 - (n div 8 - 1) < length xs"
        using d(3) by simp_all
      have t: "n < 8 * length (xs @ [x])" using True False by simp
      have "(xs @ [x]) ! (length (xs @ [x]) - 1 - n div 8) = xs ! (length xs - 1 - (n div 8 - 1))"
        unfolding i(1) using i(2) by (simp add: nth_append)
      then show ?thesis using True t by (simp only: if_True d)
    next
      case f: False
      have "\<not> n < 8 * length (xs @ [x])" "n - 8 - 8 * length xs = n - 8 * length (xs @ [x])"
        using f False by simp_all
      then show ?thesis using f by (simp only: if_False)
    qed
    finally show ?thesis .
  qed
qed

lemma bit_be128: "length xs = 16 \<Longrightarrow> n < 128 \<Longrightarrow> bit (be128 xs) n \<longleftrightarrow> bit (xs ! (15 - n div 8)) (n mod 8)"
  unfolding be128_def by (subst bit_be_fold) simp_all

lemma bit_shl1: "bit (push_bit 1 (b :: u8)) k \<longleftrightarrow> k \<noteq> 0 \<and> k < 8 \<and> bit b (k - 1)"
  using bit_imp_le_length [of b "k - 1"] by (simp only: bit_push_bit_iff) auto

text \<open>gf_mulx is multiplication by x in the field with 2^128 elements: the block, read as a
  128-bit number, is shifted left by one, and 0x87 is added if a bit fell out.\<close>

lemma gf_mulx_is_doubling:
  assumes len: "length pad = 16"
  shows "be128 (gf_mulx pad) = push_bit 1 (be128 pad) XOR (if bit (be128 pad) 127 then 0x87 else 0)"
proof (rule bit_word_eqI)
  fix n assume "n < LENGTH(128)"
  then have n: "n < 128" by simp
  let ?sh = "map (\<lambda>i. push_bit 1 (pad ! i) OR drop_bit 7 (pad ! (i + 1))) [0..<15] @ [push_bit 1 (pad ! 15)]"
  let ?c = "bit (be128 pad) 127"
  have c: "(pad ! 0) AND 0x80 \<noteq> 0 \<longleftrightarrow> ?c"
    using len and_exp [of "pad ! 0" 7] by (simp add: bit_be128)
  have g: "gf_mulx pad = (if ?c then ?sh[15 := ?sh ! 15 XOR 0x87] else ?sh)"
    by (simp add: gf_mulx_def Let_def c)
  have l: "length ?sh = 16" by simp
  have q: "n div 8 < 16" "n mod 8 < 8" using n by simp_all
  have b87: "bit (0x87 :: 128 word) k \<longleftrightarrow> k < 8 \<and> bit (0x87 :: u8) k" if "k < 128" for k
  proof -
    have "(0x87 :: 128 word) = ucast (0x87 :: u8)" by simp
    then have "bit (0x87 :: 128 word) k \<longleftrightarrow> bit (0x87 :: u8) k"
      using that by (simp only: bit_ucast_iff) simp
    then show ?thesis using bit_imp_le_length [of "0x87 :: u8" k] by auto
  qed
  have sh: "bit (?sh ! (15 - n div 8)) (n mod 8) \<longleftrightarrow> n \<noteq> 0 \<and> bit (be128 pad) (n - 1)"
  proof (cases "n < 8")
    case True
    then have "(n - 1) div 8 = 0" "(n - 1) mod 8 = n - 1" by simp_all
    moreover have "?sh ! (15 - n div 8) = push_bit 1 (pad ! 15)" using True by (simp add: nth_append)
    moreover have "bit (push_bit 1 (pad ! 15)) n \<longleftrightarrow> n \<noteq> 0 \<and> bit (pad ! 15) (n - 1)"
      using True by (simp only: bit_push_bit_iff) auto
    ultimately show ?thesis using True n len by (simp add: bit_be128)
  next
    case False
    define i where "i = 15 - n div 8"
    have i: "i < 15" "i + 1 = 15 - (n div 8 - 1)" using False q(1) by (auto simp: i_def)
    have "?sh ! i = push_bit 1 (pad ! i) OR drop_bit 7 (pad ! (i + 1))"
      using i by (simp add: nth_append)
    then have "bit (?sh ! i) (n mod 8) \<longleftrightarrow>
        (n mod 8 \<noteq> 0 \<and> n mod 8 < 8 \<and> bit (pad ! i) (n mod 8 - 1)) \<or> bit (pad ! (i + 1)) (7 + n mod 8)"
      by (simp only: bit_or_iff bit_shl1 bit_drop_bit_eq o_def)
    then have s: "bit (?sh ! i) (n mod 8) \<longleftrightarrow>
        (if n mod 8 = 0 then bit (pad ! (i + 1)) 7 else bit (pad ! i) (n mod 8 - 1))"
      using q(2) bit_imp_le_length [of "pad ! (i + 1)" "7 + n mod 8"] by auto
    have e: "n = 8 * (n div 8) + n mod 8" by simp
    have bb: "bit (be128 pad) (n - 1) \<longleftrightarrow> bit (pad ! (15 - (n - 1) div 8)) ((n - 1) mod 8)"
      using n by (intro bit_be128 [OF len]) simp
    show ?thesis
    proof (cases "n mod 8 = 0")
      case True
      moreover have "1 \<le> n div 8" using False by (simp add: div_greater_zero_iff Suc_le_eq)
      ultimately have "n - 1 = 8 * (n div 8 - 1) + 7" using e by linarith
      then have d: "(n - 1) div 8 = n div 8 - 1" "(n - 1) mod 8 = 7"
        using div_mult_self4 [of 8 7 "n div 8 - 1"] mod_mult_self4 [of 8 "n div 8 - 1" 7] by simp_all
      have "n \<noteq> 0" using False by simp
      with True show ?thesis unfolding bb i_def [symmetric] s d i(2) by simp
    next
      case nz: False
      define k where "k = n mod 8 - 1"
      have "k < 8" using q(2) by (simp add: k_def)
      moreover have "n - 1 = 8 * (n div 8) + k" using nz e by (simp add: k_def)
      ultimately have "(n - 1) div 8 = n div 8" "(n - 1) mod 8 = n mod 8 - 1"
        using div_mult_self4 [of 8 k "n div 8"] mod_mult_self4 [of 8 "n div 8" k] by (simp_all add: k_def)
      then show ?thesis using nz s False unfolding bb i_def by simp
    qed
  qed
  have "bit (be128 (gf_mulx pad)) n \<longleftrightarrow> bit (gf_mulx pad ! (15 - n div 8)) (n mod 8)"
    using n by (simp add: bit_be128)
  also have "\<dots> \<longleftrightarrow> (bit (?sh ! (15 - n div 8)) (n mod 8) \<noteq> (?c \<and> n < 8 \<and> bit (0x87 :: u8) n))"
  proof (cases "?c \<and> n < 8")
    case True
    then have "gf_mulx pad ! (15 - n div 8) = ?sh ! (15 - n div 8) XOR 0x87" and e: "n mod 8 = n"
      using l by (simp_all add: g)
    then show ?thesis using True by (simp only: bit_xor_iff e) simp
  next
    case False
    then have "gf_mulx pad ! (15 - n div 8) = ?sh ! (15 - n div 8)"
      using l q(1) by (auto simp: g nth_list_update)
    moreover have "(?c \<and> n < 8 \<and> bit (0x87 :: u8) n) = False" using False by blast
    ultimately show ?thesis by (simp only:) simp
  qed
  also have "\<dots> \<longleftrightarrow> bit (push_bit 1 (be128 pad) XOR (if ?c then 0x87 else 0)) n"
  proof -
    have p: "bit (push_bit 1 (be128 pad)) n \<longleftrightarrow> n \<noteq> 0 \<and> bit (be128 pad) (n - 1)"
      using n by (simp only: bit_push_bit_iff) auto
    have r: "bit (if ?c then 0x87 else (0 :: 128 word)) n \<longleftrightarrow> ?c \<and> n < 8 \<and> bit (0x87 :: u8) n"
      by (cases ?c) (simp_all only: if_True if_False b87 [OF n], simp_all)
    show ?thesis by (simp only: bit_xor_iff p r sh)
  qed
  finally show "bit (be128 (gf_mulx pad)) n =
    bit (push_bit 1 (be128 pad) XOR (if ?c then 0x87 else 0)) n" .
qed

section \<open>The reader of the pieces\<close>

text \<open>
  \<open>rest\<close> is what lies between \<open>pos\<close> and \<open>end\<close>, \<open>more\<close> the pieces behind the current one. After
  the last piece the code loads \<open>addr[e]\<close> and \<open>len[e]\<close> from behind the two arrays; the values
  are not used unless another byte is read, which is the \<open>None\<close> of the next call.
\<close>

fun take_byte :: "bytes \<times> bytes list \<Rightarrow> (u8 \<times> (bytes \<times> bytes list)) option" where
  "take_byte ([], more) = None"
| "take_byte (b # bs, more) =
     Some (b, if bs = [] then (case more of [] \<Rightarrow> ([], []) | m # ms \<Rightarrow> (m, ms)) else (bs, more))"

fun take_bytes :: "nat \<Rightarrow> bytes \<times> bytes list \<Rightarrow> (bytes \<times> (bytes \<times> bytes list)) option" where
  "take_bytes 0 s = Some ([], s)"
| "take_bytes (Suc n) s =
     (case take_byte s of
        None \<Rightarrow> None
      | Some (b, s') \<Rightarrow> (case take_bytes n s' of None \<Rightarrow> None | Some (bs, s'') \<Rightarrow> Some (b # bs, s'')))"

text \<open>The loop over whole blocks: \<open>left\<close> bytes remain to be read.\<close>

function omac_blocks :: "(bytes \<Rightarrow> bytes) \<Rightarrow> nat \<Rightarrow> bytes \<Rightarrow> bytes \<times> bytes list
    \<Rightarrow> (nat \<times> bytes \<times> (bytes \<times> bytes list)) option" where
  "omac_blocks E left cbc s =
     (if left < 16 then Some (left, cbc, s)
      else (case take_bytes 16 s of
              None \<Rightarrow> None
            | Some (b, s') \<Rightarrow>
                let cbc = xor_bytes cbc b;
                    cbc = (if 16 < left then E cbc else cbc)
                in omac_blocks E (left - 16) cbc s'))"
  by pat_completeness auto
termination
  by (relation "measure (\<lambda>(E, left, cbc, s). left)") auto

declare omac_blocks.simps [simp del]

text \<open>
  The number of bytes is that of the pieces; \<open>None\<close> is a byte read from behind them. The load of the address and
  length behind the last piece, which \<open>take_byte\<close> describes, is modelled as that of an empty piece.
\<close>

definition omac1_mac :: "(bytes \<Rightarrow> bytes) \<Rightarrow> bytes list \<Rightarrow> bytes option" where
  "omac1_mac E elems =
     (let total_len = sum_list (map length elems);
          pad = gf_mulx (E (replicate 16 0))
      in case omac_blocks E total_len (replicate 16 0) (hd elems, tl elems) of
           None \<Rightarrow> None
         | Some (left, cbc, s) \<Rightarrow>
             if left \<noteq> 0 \<or> total_len = 0 then
               (case take_bytes left s of
                  None \<Rightarrow> None
                | Some (b, s') \<Rightarrow>
                    let cbc = xor_bytes (take left cbc) b @ drop left cbc;
                        cbc = cbc[left := cbc ! left XOR 0x80]
                    in Some (E (xor_bytes (gf_mulx pad) cbc)))
             else Some (E (xor_bytes pad cbc)))"

text \<open>\<open>ctx\<close> is the memory \<open>rtw_malloc\<close> returns for the key schedule, or \<open>None\<close>.\<close>

definition aes_encrypt_init :: "u32 list option \<Rightarrow> bytes \<Rightarrow> nat \<Rightarrow> u32 list option" where
  "aes_encrypt_init ctx key len =
     (if len \<noteq> 16 then None
      else case ctx of None \<Rightarrow> None | Some rk \<Rightarrow> Some (rijndaelKeySetupEnc rk key))"

definition aes_128_encrypt :: "u32 list \<Rightarrow> bytes \<Rightarrow> bytes" where
  "aes_128_encrypt ctx plain = rijndaelEncrypt ctx plain"

definition omac1_aes_128_vector :: "u32 list option \<Rightarrow> bytes \<Rightarrow> bytes list \<Rightarrow> bytes option" where
  "omac1_aes_128_vector ctx key elems =
     (case aes_encrypt_init ctx key 16 of
        None \<Rightarrow> None
      | Some rk \<Rightarrow> omac1_mac (aes_128_encrypt rk) elems)"

definition omac1_aes_128 :: "u32 list option \<Rightarrow> bytes \<Rightarrow> bytes \<Rightarrow> bytes option" where
  "omac1_aes_128 ctx key m = omac1_aes_128_vector ctx key [m]"

section \<open>CMAC\<close>

text \<open>All blocks but the last are chained; the last one is masked with a subkey.\<close>

function cbc_chain :: "(bytes \<Rightarrow> bytes) \<Rightarrow> bytes \<Rightarrow> bytes \<Rightarrow> bytes" where
  "cbc_chain E c m = (if length m < 16 then c else cbc_chain E (E (xor_bytes c (take 16 m))) (drop 16 m))"
  by pat_completeness auto
termination
  by (relation "measure (\<lambda>(E, c, m). length m)") auto

declare cbc_chain.simps [simp del]

definition cmac_ref :: "(bytes \<Rightarrow> bytes) \<Rightarrow> bytes \<Rightarrow> bytes" where
  "cmac_ref E m =
     (let q = (length m - 1) div 16;
          c = cbc_chain E (replicate 16 0) (take (16 * q) m);
          last = drop (16 * q) m;
          k1 = gf_mulx (E (replicate 16 0))
      in if length last = 16 then E (xor_bytes c (xor_bytes last k1))
         else E (xor_bytes c (xor_bytes (last @ [0x80] @ replicate (15 - length last) 0) (gf_mulx k1))))"

fun reader_data :: "bytes \<times> bytes list \<Rightarrow> bytes" where
  "reader_data (rest, more) = rest @ concat more"

fun reader_ok :: "bytes \<times> bytes list \<Rightarrow> bool" where
  "reader_ok (rest, more) \<longleftrightarrow> (rest = [] \<longrightarrow> more = []) \<and> [] \<notin> set more"

lemma take_byte_ok:
  "reader_ok s \<Longrightarrow> reader_data s \<noteq> [] \<Longrightarrow>
   \<exists>s'. take_byte s = Some (hd (reader_data s), s') \<and> reader_ok s' \<and> reader_data s' = tl (reader_data s)"
  by (cases s rule: take_byte.cases) (auto split: list.splits)

lemma take_bytes_ok:
  "reader_ok s \<Longrightarrow> n \<le> length (reader_data s) \<Longrightarrow>
   \<exists>s'. take_bytes n s = Some (take n (reader_data s), s') \<and> reader_ok s' \<and> reader_data s' = drop n (reader_data s)"
proof (induction n arbitrary: s)
  case 0
  then show ?case by simp
next
  case (Suc n)
  then have ne: "reader_data s \<noteq> []" by auto
  from take_byte_ok [OF Suc.prems(1) ne] obtain s1 where s1: "take_byte s = Some (hd (reader_data s), s1)"
    "reader_ok s1" "reader_data s1 = tl (reader_data s)" by blast
  have "n \<le> length (reader_data s1)" using Suc.prems s1 by simp
  from Suc.IH [OF s1(2) this] obtain s2 where "take_bytes n s1 = Some (take n (reader_data s1), s2)" "reader_ok s2"
    "reader_data s2 = drop n (reader_data s1)" by blast
  then show ?case using s1 ne by (cases "reader_data s") simp_all
qed

lemma omac_blocks_ok:
  assumes "16 \<le> left" and "reader_ok s" and "length (reader_data s) = left"
  shows "\<exists>s'. omac_blocks E left c s = Some (if left mod 16 = 0
       then (0, xor_bytes (cbc_chain E c (take (left - 16) (reader_data s))) (drop (left - 16) (reader_data s)), s')
       else (left mod 16, cbc_chain E c (take (left - left mod 16) (reader_data s)), s'))
     \<and> reader_ok s' \<and> reader_data s' = drop (left - left mod 16) (reader_data s)"
  using assms
proof (induction left arbitrary: c s rule: less_induct)
  case (less left)
  let ?d = "reader_data s"
  from take_bytes_ok [OF less.prems(2), of 16] less.prems obtain s1
    where s1: "take_bytes 16 s = Some (take 16 ?d, s1)" "reader_ok s1" "reader_data s1 = drop 16 ?d" by auto
  let ?x = "xor_bytes c (take 16 ?d)"
  have step: "omac_blocks E left c s = omac_blocks E (left - 16) (if 16 < left then E ?x else ?x) s1"
    using less.prems s1(1) by (subst omac_blocks.simps) (simp add: Let_def)
  have chain: "cbc_chain E c (take n ?d) = cbc_chain E (E ?x) (take (n - 16) (drop 16 ?d))" if "16 \<le> n" "n \<le> left" for n
    using that less.prems(3) by (subst cbc_chain.simps) (simp add: drop_take)
  have stop: "cbc_chain E c' m = c'" if "length m < 16" for c' m
    using that by (subst cbc_chain.simps) simp
  consider (one) "left = 16" | (short) "16 < left" "left < 32" | (long) "32 \<le> left" using less.prems(1) by linarith
  then show ?case
  proof cases
    case one
    then show ?thesis
      using step s1 less.prems stop [of "[]" c] by (subst (asm) omac_blocks.simps) simp
  next
    case short
    then have m: "left mod 16 = left - 16" using le_mod_geq [of 16 left] by simp
    have "omac_blocks E (left - 16) (E ?x) s1 = Some (left - 16, E ?x, s1)"
    proof -
      have "left - 16 < 16" using short by simp
      then show ?thesis by (subst omac_blocks.simps) (simp only: if_True)
    qed
    then show ?thesis
      using short step s1 less.prems m chain [of 16] stop [of "[]" "E ?x"] by simp
  next
    case long
    have m: "left mod 16 = (left - 16) mod 16" using long le_mod_geq [of 16 left] by simp
    have l1: "length (reader_data s1) = left - 16" using s1 less.prems by simp
    have le: "left mod 16 \<le> left - 32 \<or> left mod 16 < 16" by simp
    have lt: "left - 16 < left" "16 \<le> left - 16" using long by simp_all
    obtain s2 where
      "omac_blocks E (left - 16) (E ?x) s1 = Some (if (left - 16) mod 16 = 0
       then (0, xor_bytes (cbc_chain E (E ?x) (take (left - 16 - 16) (reader_data s1))) (drop (left - 16 - 16) (reader_data s1)), s2)
       else ((left - 16) mod 16, cbc_chain E (E ?x) (take (left - 16 - (left - 16) mod 16) (reader_data s1)), s2))"
      "reader_ok s2" "reader_data s2 = drop (left - 16 - (left - 16) mod 16) (reader_data s1)"
      using less.IH [OF lt s1(2) l1, of "E ?x"] by blast
    moreover have "16 \<le> left - left mod 16" using long mod_less_divisor [of 16 left] by linarith
    ultimately show ?thesis
      using long step s1 m chain [of "left - 16"] chain [of "left - left mod 16"]
      by (intro exI [of _ s2]) (cases "left mod 16 = 0"; simp add: diff_commute add.commute)
  qed
qed

lemma last_block_whole: "16 \<le> (n :: nat) \<Longrightarrow> n mod 16 = 0 \<Longrightarrow> 16 * ((n - 1) div 16) = n - 16"
proof -
  assume n: "16 \<le> n" and r: "n mod 16 = 0"
  have d: "n = 16 * (n div 16)" using r mult_div_mod_eq [of 16 n] by linarith
  then have "n - 1 = 16 * (n div 16 - 1) + 15" using n by linarith
  then have "(n - 1) div 16 = n div 16 - 1"
    using div_mult_self4 [of 16 15 "n div 16 - 1"] by simp
  then show ?thesis using d n by linarith
qed

lemma last_block_rest: "(n :: nat) mod 16 \<noteq> 0 \<Longrightarrow> 16 * ((n - 1) div 16) = n - n mod 16"
proof -
  assume r: "n mod 16 \<noteq> 0"
  have "n - 1 = 16 * (n div 16) + (n mod 16 - 1)" using r mult_div_mod_eq [of 16 n] by linarith
  moreover have "n mod 16 - 1 < 16" using mod_less_divisor [of 16 n] by linarith
  ultimately have "(n - 1) div 16 = n div 16"
    using div_mult_self4 [of 16 "n mod 16 - 1" "n div 16"] by simp
  then show ?thesis using minus_mod_eq_mult_div [of n 16] by simp
qed

lemma mask_rest:
  assumes "length c = 16" and "length k = 16" and "length b = r" and "r < 16"
  shows "xor_bytes k ((xor_bytes (take r c) b @ drop r c)[r := (xor_bytes (take r c) b @ drop r c) ! r XOR 0x80])
    = xor_bytes c (xor_bytes (b @ [0x80] @ replicate (15 - r) 0) k)"
proof (rule nth_equalityI)
  let ?c = "xor_bytes (take r c) b @ drop r c" and ?p = "b @ [0x80] @ replicate (15 - r) 0"
  have l: "length ?c = 16" "length ?p = 16" using assms by simp_all
  show "length (xor_bytes k (?c[r := ?c ! r XOR 0x80])) = length (xor_bytes c (xor_bytes ?p k))"
    using assms by simp
  fix i assume "i < length (xor_bytes k (?c[r := ?c ! r XOR 0x80]))"
  then have i: "i < 16" using assms by simp
  have c: "?c[r := ?c ! r XOR 0x80] ! i = c ! i XOR ?p ! i"
  proof (cases i r rule: linorder_cases)
    case less
    then show ?thesis using assms by (simp add: nth_append)
  next
    case equal
    then show ?thesis using assms by (simp add: nth_append)
  next
    case greater
    then have "i - r = Suc (i - r - 1)" by simp
    then show ?thesis using greater assms i by (simp add: nth_append nth_Cons')
  qed
  show "xor_bytes k (?c[r := ?c ! r XOR 0x80]) ! i = xor_bytes c (xor_bytes ?p k) ! i"
    using assms i l c by (simp add: ac_simps)
qed

lemma mask_whole:
  "length c = 16 \<Longrightarrow> length k = 16 \<Longrightarrow> length b = 16 \<Longrightarrow> xor_bytes k (xor_bytes c b) = xor_bytes c (xor_bytes b k)"
  by (rule nth_equalityI) (simp_all add: ac_simps)

lemma length_cbc_chain:
  "(\<And>x. length x = 16 \<Longrightarrow> length (E x) = 16) \<Longrightarrow> length c = 16 \<Longrightarrow> length (cbc_chain E c m) = 16"
proof (induction E c m rule: cbc_chain.induct)
  case (1 E c m)
  then show ?case by (cases "length m < 16") (subst cbc_chain.simps, simp)+
qed

lemma omac_cmac:
  fixes elems :: "bytes list"
  assumes E: "\<And>x. length x = 16 \<Longrightarrow> length (E x) = 16"
    and ne: "elems \<noteq> []" and pieces: "[] \<notin> set elems \<or> elems = [[]]"
  shows "omac1_mac E elems = Some (cmac_ref E (concat elems))"
proof -
  let ?m = "concat elems" and ?z = "replicate 16 (0 :: u8)" and ?s = "(hd elems, tl elems)"
  define n where "n = length ?m"
  have sum: "sum_list (map length elems) = n" by (simp add: n_def length_concat)
  have data: "reader_data ?s = ?m" using ne by (cases elems) simp_all
  have ok: "reader_ok ?s" using ne pieces by (cases elems) auto
  define k1 where "k1 = gf_mulx (E ?z)"
  have l1: "length k1 = 16" by (simp add: k1_def)
  have omac: "omac1_mac E elems =
     (case omac_blocks E n ?z ?s of None \<Rightarrow> None
      | Some (left, cbc, s) \<Rightarrow>
         if left \<noteq> 0 \<or> n = 0 then
           (case take_bytes left s of None \<Rightarrow> None
            | Some (b, s') \<Rightarrow> let c = xor_bytes (take left cbc) b @ drop left cbc
                in Some (E (xor_bytes (gf_mulx k1) (c[left := c ! left XOR 0x80]))))
         else Some (E (xor_bytes k1 cbc)))"
    by (simp only: omac1_mac_def sum k1_def [symmetric] Let_def)
  define q where "q = (n - 1) div 16"
  define c where "c = cbc_chain E ?z (take (16 * q) ?m)"
  have lc: "length c = 16" unfolding c_def using E by (intro length_cbc_chain) simp_all
  have cmac: "cmac_ref E ?m = (let last = drop (16 * q) ?m in if length last = 16 then E (xor_bytes c (xor_bytes last k1))
      else E (xor_bytes c (xor_bytes (last @ [0x80] @ replicate (15 - length last) 0) (gf_mulx k1))))"
    by (simp add: cmac_ref_def n_def [symmetric] q_def c_def k1_def Let_def)
  consider (short) "n < 16" | (whole) "16 \<le> n" "n mod 16 = 0" | (rest) "16 \<le> n" "n mod 16 \<noteq> 0" by linarith
  then show ?thesis
  proof cases
    case short
    then have q: "q = 0" by (simp add: q_def)
    have c0: "c = ?z" unfolding c_def q by (subst cbc_chain.simps) simp
    have "n \<le> length (reader_data ?s)" by (simp only: data n_def)
    from take_bytes_ok [OF ok this, unfolded data] obtain s' where "take_bytes n ?s = Some (take n ?m, s')"
      by blast
    then have t: "take_bytes n ?s = Some (?m, s')" by (simp add: n_def)
    have b: "omac_blocks E n ?z ?s = Some (n, ?z, ?s)" using short by (subst omac_blocks.simps) simp
    show ?thesis
      unfolding omac cmac q b using short t mask_rest [of ?z "gf_mulx k1" ?m n]
      by (cases "n = 0") (auto simp: c0 n_def Let_def)
  next
    case whole
    have q: "16 * q = n - 16" unfolding q_def using whole by (rule last_block_whole)
    have "length (reader_data ?s) = n" by (simp only: data n_def)
    from omac_blocks_ok [OF whole(1) ok this, of E ?z, unfolded data whole(2)] obtain s' where
      "omac_blocks E n ?z ?s = Some (0, xor_bytes c (drop (n - 16) ?m), s')"
      unfolding c_def q by auto
    moreover have "length (drop (n - 16) ?m) = 16" using whole(1) by (simp add: n_def)
    moreover have "n \<noteq> 0" using whole(1) by simp
    ultimately show ?thesis
      unfolding omac cmac q using l1 lc mask_whole [of c k1 "drop (n - 16) ?m"] by (simp add: Let_def)
  next
    case rest
    let ?r = "n mod 16"
    have q: "16 * q = n - ?r" unfolding q_def using rest(2) by (rule last_block_rest)
    have "length (reader_data ?s) = n" by (simp only: data n_def)
    from omac_blocks_ok [OF rest(1) ok this, of E ?z, unfolded data] obtain s' where
      b: "omac_blocks E n ?z ?s = Some (?r, c, s')" "reader_ok s'" "reader_data s' = drop (n - ?r) ?m"
      unfolding c_def q using rest(2) by auto
    have l: "length (drop (n - ?r) ?m) = ?r" by (simp add: n_def)
    have "?r \<le> length (reader_data s')" by (simp only: b(3) l)
    from take_bytes_ok [OF b(2) this, unfolded b(3)] obtain s''
      where "take_bytes ?r s' = Some (take ?r (drop (n - ?r) ?m), s'')" by blast
    then have "take_bytes ?r s' = Some (drop (n - ?r) ?m, s'')" by (simp only: take_all l order_refl)
    moreover have "?r \<noteq> 16" using mod_less_divisor [of 16 n] by linarith
    ultimately show ?thesis
      unfolding omac cmac q b(1) using rest(2) l lc mask_rest [of c "gf_mulx k1" "drop (n - ?r) ?m" ?r]
      by (simp add: Let_def)
  qed
qed

lemma rijndael_block:
  "length key = 16 \<Longrightarrow> length x = 16 \<Longrightarrow>
   rijndaelEncrypt (rijndaelKeySetupEnc (replicate 44 0) key) x = fips_aes key x \<and> length (fips_aes key x) = 16"
  using rijndael_fips [of key x "replicate 44 0"] aes128k128d_fips [of key x] length_aes128k128d [of key x] by simp

lemma cbc_chain_cong:
  "(\<And>x. length x = 16 \<Longrightarrow> E x = E' x \<and> length (E' x) = 16) \<Longrightarrow> length c = 16 \<Longrightarrow> cbc_chain E c m = cbc_chain E' c m"
proof (induction E c m rule: cbc_chain.induct)
  case (1 E c m)
  show ?case
  proof (cases "length m < 16")
    case True
    then show ?thesis by (simp add: cbc_chain.simps [of E] cbc_chain.simps [of E'])
  next
    case False
    have x: "length (xor_bytes c (take 16 m)) = 16" using False "1.prems"(2) by simp
    then have e: "E (xor_bytes c (take 16 m)) = E' (xor_bytes c (take 16 m))" "length (E' (xor_bytes c (take 16 m))) = 16"
      using "1.prems"(1) by simp_all
    then show ?thesis
      using False "1.IH" [OF False "1.prems"(1)] by (subst (1 2) cbc_chain.simps) simp
  qed
qed

lemma cmac_cong:
  assumes E: "\<And>x. length x = 16 \<Longrightarrow> E x = E' x \<and> length (E' x) = 16"
  shows "cmac_ref E m = cmac_ref E' m"
proof -
  let ?c = "cbc_chain E' (replicate 16 0) (take (16 * ((length m - 1) div 16)) m)"
  have c: "cbc_chain E (replicate 16 0) (take (16 * ((length m - 1) div 16)) m) = ?c"
    using E by (intro cbc_chain_cong) simp_all
  have lc: "length ?c = 16" using E by (intro length_cbc_chain) simp_all
  let ?last = "drop (16 * ((length m - 1) div 16)) m"
  have ll: "length ?last \<le> 16"
  proof -
    have "length m - 1 = 16 * ((length m - 1) div 16) + (length m - 1) mod 16" by simp
    moreover have "(length m - 1) mod 16 < 16" by simp
    ultimately show ?thesis unfolding length_drop by linarith
  qed
  show ?thesis
    unfolding cmac_ref_def c Let_def using E lc ll by (auto simp: min_def)
qed

lemma omac1_cmac:
  assumes "length key = 16" and "length rk0 = 44" and "elems \<noteq> []" and "[] \<notin> set elems \<or> elems = [[]]"
  shows "omac1_aes_128_vector (Some rk0) key elems = Some (cmac_ref (fips_aes key) (concat elems))"
proof -
  let ?E = "rijndaelEncrypt (rijndaelKeySetupEnc rk0 key)"
  have b: "?E x = fips_aes key x" "length (?E x) = 16" if "length x = 16" for x
    using rijndael_fips [OF assms(1) that assms(2)] rijndael_block [OF assms(1) that] by simp_all
  have "aes_128_encrypt (rijndaelKeySetupEnc rk0 key) = ?E" by (rule ext) (simp add: aes_128_encrypt_def)
  then have "omac1_aes_128_vector (Some rk0) key elems = omac1_mac ?E elems"
    by (simp add: omac1_aes_128_vector_def aes_encrypt_init_def)
  also have "\<dots> = Some (cmac_ref ?E (concat elems))"
    using b(2) assms(3,4) by (intro omac_cmac) simp_all
  also have "cmac_ref ?E (concat elems) = cmac_ref (fips_aes key) (concat elems)"
    using b by (intro cmac_cong) simp
  finally show ?thesis .
qed

lemma length_cmac:
  assumes "length key = 16" shows "length (cmac_ref (fips_aes key) m) = 16"
proof -
  have l: "length (fips_aes key x) = 16" if "length x = 16" for x
    using rijndael_block [OF assms that] by blast
  let ?c = "cbc_chain (fips_aes key) (replicate 16 0) (take (16 * ((length m - 1) div 16)) m)"
  have lc: "length ?c = 16" using l by (intro length_cbc_chain) simp_all
  have ll: "length (drop (16 * ((length m - 1) div 16)) m) \<le> 16"
  proof -
    have "length m - 1 = 16 * ((length m - 1) div 16) + (length m - 1) mod 16" by simp
    moreover have "(length m - 1) mod 16 < 16" by simp
    ultimately show ?thesis unfolding length_drop by linarith
  qed
  show ?thesis unfolding cmac_ref_def Let_def using lc ll by (auto intro!: l simp: min_def)
qed

text \<open>C32: omac1_aes_128_vector is AES-CMAC: over any nonempty sequence of nonempty pieces (or one
  empty piece) it stays within them, and returns the CMAC of their concatenation under the cipher
  of the standard; without memory for the key schedule it fails.\<close>

theorem omac1_is_cmac:
  assumes "length key = 16" and "length rk0 = 44" and "elems \<noteq> []" and "[] \<notin> set elems \<or> elems = [[]]"
  shows "omac1_aes_128_vector (Some rk0) key elems = Some (cmac_ref (fips_aes key) (concat elems)) \<and>
    omac1_aes_128_vector None key elems = None"
  using omac1_cmac [OF assms] by (simp add: omac1_aes_128_vector_def aes_encrypt_init_def)

theorem omac1_is_cmac_witness:
  "omac1_aes_128_vector (Some (replicate 44 7)) (replicate 16 1) [[1, 2], replicate 20 3] =
     Some (cmac_ref (fips_aes (replicate 16 1)) ([1, 2] @ replicate 20 3))"
  using omac1_is_cmac [of "replicate 16 1" "replicate 44 7" "[[1, 2], replicate 20 3]"] by simp

end
