(* ===== verification/Tdls.thy ===== *)
theory Tdls
  imports Omac Sha256 Frames
begin

unbundle bit_operations_syntax

text \<open>
  The TDLS key and message integrity functions of \<open>core/rtw_security.c\<close>, built on SHA-256 and
  AES-CMAC: the two ends of a direct link derive the same key although each of them puts its own
  address first, and \<open>tdls_verify_mic\<close> accepts a handshake message exactly if its MIC field holds
  the value \<open>wpa_tdls_ftie_mic\<close> computes for it. \<open>mem\<close> says whether the allocation of the
  temporary buffer succeeds, \<open>ctx\<close> is the memory for the key schedule, if there is any.
\<close>

section \<open>The pairwise key\<close>

fun os_memcmp :: "bytes \<Rightarrow> bytes \<Rightarrow> nat \<Rightarrow> int" where
  "os_memcmp s1 s2 0 = 0"
| "os_memcmp s1 s2 (Suc n) =
     (if s1 ! 0 = s2 ! 0 then os_memcmp (drop 1 s1) (drop 1 s2) n else uint (s1 ! 0) - uint (s2 ! 0))"

lemma os_memcmp_swap: "os_memcmp b a n = - os_memcmp a b n"
  by (induction a b n rule: os_memcmp.induct) auto

lemma os_memcmp_eq_0:
  "n \<le> length a \<Longrightarrow> n \<le> length b \<Longrightarrow> os_memcmp a b n = 0 \<longleftrightarrow> take n a = take n b"
proof (induction n arbitrary: a b)
  case (Suc n)
  then show ?case by (cases a; cases b) (auto simp: word_uint_eq_iff [symmetric])
qed simp

definition TDLS_PMK :: bytes where
  "TDLS_PMK = [0x54, 0x44, 0x4c, 0x53, 0x20, 0x50, 0x4d, 0x4b]"

definition TPK_LEN :: nat where
  "TPK_LEN = 32"

text \<open>\<open>stack\<close> is what the buffer of the hash state holds before; \<open>tpk\<close> is overwritten.\<close>

definition wpa_tdls_generate_tpk ::
  "bytes \<Rightarrow> bytes \<Rightarrow> bytes \<Rightarrow> bytes \<Rightarrow> bytes \<Rightarrow> bytes \<Rightarrow> bytes \<Rightarrow> bytes" where
  "wpa_tdls_generate_tpk stack SNonce ANonce own peer bssid tpk =
     (let nonce = (if os_memcmp SNonce ANonce 32 < 0 then [take 32 SNonce, take 32 ANonce]
                   else [take 32 ANonce, take 32 SNonce]);
          key_input = the (sha256_vector stack nonce);
          addrs = (if os_memcmp own peer 6 < 0 then take 6 own @ take 6 peer else take 6 peer @ take 6 own)
      in sha256_prf stack key_input TDLS_PMK (addrs @ take 6 bssid) tpk TPK_LEN)"

lemma memcmp_order:
  assumes "n \<le> length a" and "n \<le> length b"
  shows "(if os_memcmp a b n < 0 then f (take n a) (take n b) else f (take n b) (take n a)) =
    (if os_memcmp b a n < 0 then f (take n b) (take n a) else f (take n a) (take n b))"
  using os_memcmp_swap [of b a n] os_memcmp_eq_0 [OF assms] by auto

text \<open>Both ends of a direct link derive the same key: swapping the two station addresses
  or the two nonces does not change it.\<close>

lemma tpk_same_at_both_ends:
  assumes "length SNonce = 32" and "length ANonce = 32" and "length own = 6" and "length peer = 6"
  shows "wpa_tdls_generate_tpk stack SNonce ANonce own peer bssid tpk =
      wpa_tdls_generate_tpk stack SNonce ANonce peer own bssid tpk \<and>
    wpa_tdls_generate_tpk stack SNonce ANonce own peer bssid tpk =
      wpa_tdls_generate_tpk stack ANonce SNonce own peer bssid tpk"
proof -
  have "(if os_memcmp own peer 6 < 0 then take 6 own @ take 6 peer else take 6 peer @ take 6 own) =
      (if os_memcmp peer own 6 < 0 then take 6 peer @ take 6 own else take 6 own @ take 6 peer)"
    using assms by (intro memcmp_order [where f = "(@)"]) simp_all
  moreover have "(if os_memcmp SNonce ANonce 32 < 0 then [take 32 SNonce, take 32 ANonce] else [take 32 ANonce, take 32 SNonce]) =
      (if os_memcmp ANonce SNonce 32 < 0 then [take 32 ANonce, take 32 SNonce] else [take 32 SNonce, take 32 ANonce])"
    using assms by (intro memcmp_order [where f = "\<lambda>x y. [x, y]"]) simp_all
  ultimately show ?thesis unfolding wpa_tdls_generate_tpk_def by (simp only: Let_def)
qed

lemma tpk_same_at_both_ends_witness:
  "wpa_tdls_generate_tpk (replicate 64 0) (replicate 32 1) (replicate 32 2) (replicate 6 3) (replicate 6 4) (replicate 6 5) (replicate 32 0)
   = wpa_tdls_generate_tpk (replicate 64 0) (replicate 32 1) (replicate 32 2) (replicate 6 4) (replicate 6 3) (replicate 6 5) (replicate 32 0)"
  by (rule tpk_same_at_both_ends [THEN conjunct1]) simp_all

section \<open>Message integrity\<close>

text \<open>An information element with its two header bytes, and the FT element with its MIC zeroed.\<close>

definition ie_bytes :: "bytes \<Rightarrow> bytes" where
  "ie_bytes ie = take (2 + unat (ie ! 1)) ie"

definition ftie_zeroed :: "bytes \<Rightarrow> bytes" where
  "ftie_zeroed ftie = store (ie_bytes ftie) 4 (replicate 16 0)"

definition wpa_tdls_ftie_mic ::
  "bool \<Rightarrow> u32 list option \<Rightarrow> bytes \<Rightarrow> u8 \<Rightarrow> bytes \<Rightarrow> bytes \<Rightarrow> bytes \<Rightarrow> bytes \<Rightarrow> bytes option" where
  "wpa_tdls_ftie_mic mem ctx kck trans_seq lnkid rsnie timeoutie ftie =
     (if \<not> mem then None
      else omac1_aes_128 ctx kck
        (seg lnkid 8 6 @ seg lnkid 14 6 @ [trans_seq] @ ie_bytes lnkid @ ie_bytes rsnie
         @ ie_bytes timeoutie @ ftie_zeroed ftie))"

definition wpa_tdls_teardown_ftie_mic ::
  "bool \<Rightarrow> u32 list option \<Rightarrow> bytes \<Rightarrow> bytes \<Rightarrow> u16 \<Rightarrow> u8 \<Rightarrow> u8 \<Rightarrow> bytes \<Rightarrow> bytes option" where
  "wpa_tdls_teardown_ftie_mic mem ctx kck lnkid reason dialog_token trans_seq ftie =
     (if \<not> mem then None
      else omac1_aes_128 ctx kck
        (ie_bytes lnkid @ [ucast reason, ucast (drop_bit 8 reason)] @ [dialog_token] @ [trans_seq]
         @ ftie_zeroed ftie))"

text \<open>\<open>None\<close> is a null pointer.\<close>

definition tdls_verify_mic ::
  "bool \<Rightarrow> u32 list option \<Rightarrow> bytes \<Rightarrow> u8 \<Rightarrow> bytes option \<Rightarrow> bytes option \<Rightarrow> bytes option \<Rightarrow> bytes option \<Rightarrow> result" where
  "tdls_verify_mic mem ctx kck trans_seq lnkid rsnie timeoutie ftie =
     (case (lnkid, rsnie, timeoutie, ftie) of
        (Some lnkid, Some rsnie, Some timeoutie, Some ftie) \<Rightarrow>
          if \<not> mem then Fail
          else (case omac1_aes_128 ctx kck
                  (seg lnkid 8 6 @ seg lnkid 14 6 @ [trans_seq] @ take (2 + 18) lnkid @ ie_bytes rsnie
                   @ ie_bytes timeoutie @ ftie_zeroed ftie) of
                  None \<Rightarrow> Fail
                | Some mic \<Rightarrow> if os_memcmp mic (drop 4 ftie) 16 = 0 then Success else Fail)
      | _ \<Rightarrow> Fail)"

lemma omac1_16:
  assumes "length key = 16" and "length rk0 = 44"
  shows "\<exists>mic. omac1_aes_128 (Some rk0) key m = Some mic \<and> length mic = 16"
proof -
  have "omac1_aes_128 (Some rk0) key m = Some (cmac_ref (fips_aes key) m)"
    using omac1_cmac [OF assms, of "[m]"] by (simp add: omac1_aes_128_def)
  moreover have "length (cmac_ref (fips_aes key) m) = 16" by (rule length_cmac [OF assms(1)])
  ultimately show ?thesis by blast
qed

lemma ftie_zeroed_store:
  assumes "length mic = 16" and "20 \<le> length ftie" and "18 \<le> unat (ftie ! 1)"
  shows "ftie_zeroed (store ftie 4 mic) = ftie_zeroed ftie"
proof -
  have t: "store ftie 4 mic ! 1 = ftie ! 1" using assms by (simp add: nth_store)
  let ?n = "2 + unat (ftie ! 1)"
  have "take ?n (store ftie 4 mic) = store (take ?n ftie) 4 mic"
    using assms by (simp add: store_def drop_take)
  then have "ie_bytes (store ftie 4 mic) = store (ie_bytes ftie) 4 mic" by (simp only: ie_bytes_def t)
  then show ?thesis using assms by (simp add: ftie_zeroed_def ie_bytes_def)
qed

text \<open>A handshake message passes the check if and only if the MIC field of its FT element
  is the MIC computed over the message, and a message whose field was filled with that MIC passes:
  the MIC does not depend on the field itself.\<close>

lemma tdls_mic_roundtrip:
  assumes kck: "length kck = 16" and rk0: "length rk0 = 44" and lnk: "lnkid ! 1 = 18" and ft: "20 \<le> length ftie" "18 \<le> unat (ftie ! 1)"
  shows "(tdls_verify_mic True (Some rk0) kck seq (Some lnkid) (Some rsnie) (Some tie) (Some ftie) = Success \<longleftrightarrow>
      wpa_tdls_ftie_mic True (Some rk0) kck seq lnkid rsnie tie ftie = Some (seg ftie 4 16)) \<and>
    (\<exists>mic. wpa_tdls_ftie_mic True (Some rk0) kck seq lnkid rsnie tie ftie = Some mic \<and>
       tdls_verify_mic True (Some rk0) kck seq (Some lnkid) (Some rsnie) (Some tie) (Some (store ftie 4 mic)) = Success)"
proof -
  let ?in = "\<lambda>f. seg lnkid 8 6 @ seg lnkid 14 6 @ [seq] @ ie_bytes lnkid @ ie_bytes rsnie @ ie_bytes tie @ ftie_zeroed f"
  have l: "take (2 + 18) lnkid = ie_bytes lnkid" and l': "take 20 lnkid = ie_bytes lnkid"
    using lnk by (simp_all add: ie_bytes_def)
  have v: "tdls_verify_mic True (Some rk0) kck seq (Some lnkid) (Some rsnie) (Some tie) (Some f) = Success \<longleftrightarrow>
      omac1_aes_128 (Some rk0) kck (?in f) = Some (seg f 4 16)" if f: "20 \<le> length f" for f
  proof -
    obtain mic where mic: "omac1_aes_128 (Some rk0) kck (?in f) = Some mic" "length mic = 16"
      using omac1_16 [OF kck rk0] by blast
    have "os_memcmp mic (drop 4 f) 16 = 0 \<longleftrightarrow> take 16 mic = take 16 (drop 4 f)"
      using mic(2) f by (intro os_memcmp_eq_0) simp_all
    then show ?thesis unfolding tdls_verify_mic_def l using mic by (auto simp: seg_def l' simp del: take_drop)
  qed
  obtain mic where mic: "omac1_aes_128 (Some rk0) kck (?in ftie) = Some mic" "length mic = 16"
    using omac1_16 [OF kck rk0] by blast
  have z: "?in (store ftie 4 mic) = ?in ftie" using ftie_zeroed_store [OF mic(2) ft] by simp
  have "20 \<le> length (store ftie 4 mic)" using ft mic by simp
  from v [OF this] have "tdls_verify_mic True (Some rk0) kck seq (Some lnkid) (Some rsnie) (Some tie) (Some (store ftie 4 mic)) = Success"
    unfolding z using mic ft by simp
  then show ?thesis using v [OF ft(1)] mic by (auto simp: wpa_tdls_ftie_mic_def)
qed

lemma tdls_mic_roundtrip_witness:
  "\<exists>mic. wpa_tdls_ftie_mic True (Some (replicate 44 0)) (replicate 16 1) 2 (101 # 18 # replicate 18 7) [48, 0] [56, 0] (55 # 18 # replicate 18 9) = Some mic \<and>
     tdls_verify_mic True (Some (replicate 44 0)) (replicate 16 1) 2 (Some (101 # 18 # replicate 18 7)) (Some [48, 0]) (Some [56, 0])
       (Some (store (55 # 18 # replicate 18 9) 4 mic)) = Success"
  by (rule tdls_mic_roundtrip [THEN conjunct2]) simp_all

end
