(* ===== verification/RecvBuf.thy ===== *)
theory RecvBuf
  imports Frames
begin

unbundle bit_operations_syntax

text \<open>
  Received frames in their buffers (\<open>struct recv_frame_hdr\<close> and the inline functions of
  \<open>include/rtw_recv.h\<close>), the conversion of an 802.11 header into an Ethernet header and the
  splitting of an A-MSDU (\<open>core/rtw_recv.c\<close>, \<open>os_dep/recv_linux.c\<close>).

  The buffer is the memory from \<open>rx_head\<close> to \<open>rx_end\<close>; \<open>rx_data\<close> and \<open>rx_tail\<close> are offsets into
  it, as integers, since the code moves them before it checks them. An access outside the buffer
  makes the result \<open>None\<close>.
\<close>

section \<open>Checked accesses\<close>

definition rdi :: "bytes \<Rightarrow> int \<Rightarrow> nat \<Rightarrow> bytes option" where
  "rdi buf p n = (if 0 \<le> p \<and> p + int n \<le> int (length buf) then Some (seg buf (nat p) n) else None)"

definition wri :: "bytes \<Rightarrow> int \<Rightarrow> bytes \<Rightarrow> bytes option" where
  "wri buf p src =
     (if 0 \<le> p \<and> p + int (length src) \<le> int (length buf) then Some (store buf (nat p) src) else None)"

lemma rdi_at: "k + n \<le> length B \<Longrightarrow> rdi (pre @ B @ post) (int (length pre) + int k) n = Some (seg B k n)"
  by (simp add: rdi_def seg_def nat_add_distrib)

lemma wri_at:
  "k + length src \<le> length B \<Longrightarrow>
   wri (pre @ B @ post) (int (length pre) + int k) src = Some (pre @ store B k src @ post)"
  by (simp add: wri_def store_def nat_add_distrib)

section \<open>A frame in its buffer\<close>

record rx_attr =
  at_hdrlen :: u8
  at_amsdu :: u8
  at_qos :: u8
  at_priority :: u8
  at_seq_num :: u16
  at_frag_num :: u8
  at_mfrag :: u8
  at_privacy :: u8
  at_bdecrypted :: u8
  at_encrypt :: u8
  at_iv_len :: u8
  at_icv_len :: u8
  at_eth_type :: u16
  at_dst :: bytes
  at_src :: bytes
  at_ta :: bytes
  at_ra :: bytes
  at_key_index :: u8

text \<open>\<open>rf_id\<close> stands for the address of the frame structure.\<close>

record recv_hdr =
  rf_id :: nat
  rf_attr :: rx_attr
  rf_len :: u32
  rf_buf :: bytes
  rf_data :: int
  rf_tail :: int

text \<open>The functions return the new pointer, or null (\<open>None\<close>) and leave the frame as it was.\<close>

definition recvframe_push :: "recv_hdr \<Rightarrow> int \<Rightarrow> int option \<times> recv_hdr" where
  "recvframe_push f sz =
     (let d = rf_data f - sz
      in if d < 0 then (None, f) else (Some d, f\<lparr>rf_data := d, rf_len := rf_len f + word_of_int sz\<rparr>))"

definition recvframe_pull :: "recv_hdr \<Rightarrow> int \<Rightarrow> int option \<times> recv_hdr" where
  "recvframe_pull f sz =
     (let d = rf_data f + sz
      in if d > rf_tail f then (None, f) else (Some d, f\<lparr>rf_data := d, rf_len := rf_len f - word_of_int sz\<rparr>))"

definition recvframe_put :: "recv_hdr \<Rightarrow> int \<Rightarrow> int option \<times> recv_hdr" where
  "recvframe_put f sz =
     (let t = rf_tail f + sz
      in if t > int (length (rf_buf f)) then (None, f)
         else (Some t, f\<lparr>rf_tail := t, rf_len := rf_len f + word_of_int sz\<rparr>))"

definition recvframe_pull_tail :: "recv_hdr \<Rightarrow> int \<Rightarrow> int option \<times> recv_hdr" where
  "recvframe_pull_tail f sz =
     (let t = rf_tail f - sz
      in if t < rf_data f then (None, f) else (Some t, f\<lparr>rf_tail := t, rf_len := rf_len f - word_of_int sz\<rparr>))"

text \<open>The frame's bytes, and the consistency of pointers and length.\<close>

definition rf_bytes :: "recv_hdr \<Rightarrow> bytes" where
  "rf_bytes f = seg (rf_buf f) (nat (rf_data f)) (nat (rf_tail f - rf_data f))"

definition rf_ok :: "recv_hdr \<Rightarrow> bool" where
  "rf_ok f \<longleftrightarrow> 0 \<le> rf_data f \<and> rf_data f \<le> rf_tail f \<and> rf_tail f \<le> int (length (rf_buf f)) \<and>
     int (length (rf_buf f)) < 2 ^ 31 \<and> rf_len f = word_of_int (rf_tail f - rf_data f)"

text \<open>The same with the three parts of the buffer spelled out.\<close>

definition rf_at :: "bytes \<Rightarrow> bytes \<Rightarrow> bytes \<Rightarrow> recv_hdr \<Rightarrow> bool" where
  "rf_at pre B post f \<longleftrightarrow> rf_buf f = pre @ B @ post \<and> rf_data f = int (length pre) \<and>
     rf_tail f = int (length pre) + int (length B) \<and> length (pre @ B @ post) < 2 ^ 31 \<and>
     rf_len f = of_nat (length B)"

lemma rf_at_ok: "rf_at pre B post f \<Longrightarrow> rf_ok f \<and> rf_bytes f = B"
  by (simp add: rf_at_def rf_ok_def rf_bytes_def seg_def)

lemma rf_ok_at:
  assumes "rf_ok f"
  shows "rf_at (take (nat (rf_data f)) (rf_buf f)) (rf_bytes f) (drop (nat (rf_tail f)) (rf_buf f)) f"
proof -
  define d t n where "d = nat (rf_data f)" and "t = nat (rf_tail f)" and "n = length (rf_buf f)"
  have e: "rf_data f = int d" "rf_tail f = int t" "d \<le> t" "t \<le> n" "n < 2 ^ 31"
    using assms by (auto simp: rf_ok_def d_def t_def n_def)
  have "rf_buf f = take d (rf_buf f) @ seg (rf_buf f) d (t - d) @ drop t (rf_buf f)"
    using e by (simp add: seg_def drop_take append_assoc [symmetric] del: append_assoc)
      (metis append_take_drop_id drop_take le_add_diff_inverse take_add)
  moreover have "length (seg (rf_buf f) d (t - d)) = t - d" using e n_def by simp
  moreover have "rf_len f = of_nat (t - d)" using assms e by (simp add: rf_ok_def)
  moreover have "nat (int t - int d) = t - d" by simp
  ultimately show ?thesis using e by (simp add: rf_at_def rf_bytes_def n_def)
qed

lemma rf_ok_obtain: "rf_ok f \<Longrightarrow> (\<And>pre post. rf_at pre (rf_bytes f) post f \<Longrightarrow> thesis) \<Longrightarrow> thesis"
  using rf_ok_at by blast

lemma rf_at_pull:
  assumes "rf_at pre B post f" and "k \<le> length B"
  shows "recvframe_pull f (int k) = (Some (int (length pre + k)), snd (recvframe_pull f (int k)))"
    and "rf_at (pre @ take k B) (drop k B) post (snd (recvframe_pull f (int k)))"
  using assms by (auto simp: recvframe_pull_def rf_at_def Let_def)

lemma rf_at_pull_fail:
  assumes "rf_at pre B post f" and "length B < k"
  shows "recvframe_pull f (int k) = (None, f)"
  using assms by (simp add: recvframe_pull_def rf_at_def)

lemma rf_at_push:
  assumes "rf_at pre B post f" and "k \<le> length pre"
  shows "recvframe_push f (int k) = (Some (int (length pre - k)), snd (recvframe_push f (int k)))"
    and "rf_at (take (length pre - k) pre) (drop (length pre - k) pre @ B) post (snd (recvframe_push f (int k)))"
  using assms by (auto simp: recvframe_push_def rf_at_def Let_def)

lemma rf_at_put:
  assumes "rf_at pre B post f" and "k \<le> length post"
  shows "rf_at pre (B @ take k post) (drop k post) (snd (recvframe_put f (int k)))"
  using assms by (auto simp: recvframe_put_def rf_at_def Let_def)

lemma rf_at_pull_tail:
  assumes "rf_at pre B post f" and "k \<le> length B"
  shows "rf_at pre (take (length B - k) B) (drop (length B - k) B @ post) (snd (recvframe_pull_tail f (int k)))"
  using assms by (auto simp: recvframe_pull_tail_def rf_at_def Let_def)

lemma rf_ok_pull:
  assumes "rf_ok f"
  shows "rf_ok (snd (recvframe_pull f (int k))) \<and>
    rf_bytes (snd (recvframe_pull f (int k))) = (if k \<le> length (rf_bytes f) then drop k (rf_bytes f) else rf_bytes f)"
proof (cases "k \<le> length (rf_bytes f)")
  case True
  then show ?thesis using rf_at_ok [OF rf_at_pull(2) [OF rf_ok_at [OF assms]]] by simp
next
  case False
  then show ?thesis using rf_at_pull_fail [OF rf_ok_at [OF assms], of k] assms by simp
qed

lemma rf_ok_pull_tail:
  assumes "rf_ok f"
  shows "rf_ok (snd (recvframe_pull_tail f (int k))) \<and>
    rf_bytes (snd (recvframe_pull_tail f (int k))) =
      (if k \<le> length (rf_bytes f) then take (length (rf_bytes f) - k) (rf_bytes f) else rf_bytes f)"
proof (cases "k \<le> length (rf_bytes f)")
  case True
  then show ?thesis using rf_at_ok [OF rf_at_pull_tail [OF rf_ok_at [OF assms]]] by simp
next
  case False
  then have "recvframe_pull_tail f (int k) = (None, f)"
    using rf_ok_at [OF assms] by (simp add: recvframe_pull_tail_def rf_at_def)
  then show ?thesis using False assms by simp
qed

lemma rf_ok_push:
  assumes "rf_ok f"
  shows "rf_ok (snd (recvframe_push f (int k))) \<and>
    (\<exists>h. rf_bytes (snd (recvframe_push f (int k))) = h @ rf_bytes f \<and> length h = (if int k \<le> rf_data f then k else 0))"
proof (cases "int k \<le> rf_data f")
  case True
  define pre where "pre = take (nat (rf_data f)) (rf_buf f)"
  have at: "rf_at pre (rf_bytes f) (drop (nat (rf_tail f)) (rf_buf f)) f"
    unfolding pre_def by (rule rf_ok_at [OF assms])
  then have k: "k \<le> length pre" using True by (simp add: rf_at_def)
  show ?thesis using rf_at_ok [OF rf_at_push(2) [OF at k]] k True by auto
next
  case False
  then have "recvframe_push f (int k) = (None, f)" by (simp add: recvframe_push_def)
  then show ?thesis using False assms by simp
qed

lemma rf_ok_put:
  assumes "rf_ok f"
  shows "rf_ok (snd (recvframe_put f (int k))) \<and>
    (\<exists>t. rf_bytes (snd (recvframe_put f (int k))) = rf_bytes f @ t \<and>
       length t = (if rf_tail f + int k \<le> int (length (rf_buf f)) then k else 0))"
proof (cases "rf_tail f + int k \<le> int (length (rf_buf f))")
  case True
  define post where "post = drop (nat (rf_tail f)) (rf_buf f)"
  have at: "rf_at (take (nat (rf_data f)) (rf_buf f)) (rf_bytes f) post f"
    unfolding post_def by (rule rf_ok_at [OF assms])
  have "0 \<le> rf_tail f" using assms by (simp add: rf_ok_def)
  then have k: "k \<le> length post" using True by (simp add: post_def)
  show ?thesis using rf_at_ok [OF rf_at_put [OF at k]] k True by auto
next
  case False
  then have "recvframe_put f (int k) = (None, f)" by (simp add: recvframe_put_def)
  then show ?thesis using False assms by simp
qed

text \<open>C11: The four functions that move a frame's ends keep its pointers ordered and inside the
  buffer and its length equal to their distance. \<open>pull\<close> and \<open>pull_tail\<close> cut the frame's bytes,
  \<open>push\<close> and \<open>put\<close> extend them by what lies before and behind, and each of them changes nothing
  if there is no room.\<close>

theorem recvframe_ops_ok:
  assumes "rf_ok f"
  shows "(rf_ok (snd (recvframe_pull f (int k))) \<and>
      rf_bytes (snd (recvframe_pull f (int k))) =
        (if k \<le> length (rf_bytes f) then drop k (rf_bytes f) else rf_bytes f)) \<and>
    (rf_ok (snd (recvframe_pull_tail f (int k))) \<and>
      rf_bytes (snd (recvframe_pull_tail f (int k))) =
        (if k \<le> length (rf_bytes f) then take (length (rf_bytes f) - k) (rf_bytes f) else rf_bytes f)) \<and>
    (rf_ok (snd (recvframe_push f (int k))) \<and>
      (\<exists>h. rf_bytes (snd (recvframe_push f (int k))) = h @ rf_bytes f \<and>
         length h = (if int k \<le> rf_data f then k else 0))) \<and>
    (rf_ok (snd (recvframe_put f (int k))) \<and>
      (\<exists>t. rf_bytes (snd (recvframe_put f (int k))) = rf_bytes f @ t \<and>
         length t = (if rf_tail f + int k \<le> int (length (rf_buf f)) then k else 0)))"
  using rf_ok_pull [OF assms] rf_ok_pull_tail [OF assms] rf_ok_push [OF assms] rf_ok_put [OF assms] by blast

definition demo_attr :: rx_attr where
  "demo_attr = \<lparr>at_hdrlen = 24, at_amsdu = 0, at_qos = 1, at_priority = 0, at_seq_num = 7, at_frag_num = 0,
     at_mfrag = 0, at_privacy = 0, at_bdecrypted = 1, at_encrypt = 0, at_iv_len = 0, at_icv_len = 0,
     at_eth_type = 0, at_dst = [1, 1, 1, 1, 1, 1], at_src = [2, 2, 2, 2, 2, 2],
     at_ta = [3, 3, 3, 3, 3, 3], at_ra = [4, 4, 4, 4, 4, 4], at_key_index = 0\<rparr>"

theorem recvframe_ops_ok_witness:
  "rf_ok (snd (recvframe_pull \<lparr>rf_id = 1, rf_attr = demo_attr, rf_len = 3, rf_buf = [1, 2, 3, 4, 5], rf_data = 1, rf_tail = 4\<rparr> (int 2)))"
  using recvframe_ops_ok [of "\<lparr>rf_id = 1, rf_attr = demo_attr, rf_len = 3, rf_buf = [1, 2, 3, 4, 5], rf_data = 1, rf_tail = 4\<rparr>" 2]
  by (simp add: rf_ok_def)

section \<open>From the 802.11 header to the Ethernet header\<close>

definition rtw_rfc1042_header :: bytes where
  "rtw_rfc1042_header = [0xaa, 0xaa, 0x03, 0x00, 0x00, 0x00]"

definition rtw_bridge_tunnel_header :: bytes where
  "rtw_bridge_tunnel_header = [0xaa, 0xaa, 0x03, 0x00, 0x00, 0xf8]"

definition SNAP_ETH_TYPE_IPX :: bytes where
  "SNAP_ETH_TYPE_IPX = [0x81, 0x37]"

definition SNAP_ETH_TYPE_APPLETALK_AARP :: bytes where
  "SNAP_ETH_TYPE_APPLETALK_AARP = [0x80, 0xf3]"

definition SNAP_SIZE :: nat where
  "SNAP_SIZE = 6"

definition be16_bytes :: "u16 \<Rightarrow> bytes" where
  "be16_bytes v = [ucast (drop_bit 8 v), ucast v]"

text \<open>The addresses, and the length if the header is not removed.\<close>

definition put_ethhdr :: "rx_attr \<Rightarrow> bool \<Rightarrow> u16 \<Rightarrow> int \<Rightarrow> bytes \<Rightarrow> bytes option" where
  "put_ethhdr a bsnaphdr len ptr buf = do {
     buf \<leftarrow> wri buf ptr (take 6 (at_dst a));
     buf \<leftarrow> wri buf (ptr + 6) (take 6 (at_src a));
     (if bsnaphdr then Some buf else wri buf (ptr + 12) (be16_bytes len))
   }"

text \<open>\<open>mp\<close>: the driver is in the state of the manufacturing test.\<close>

definition wlanhdr_to_ethhdr :: "bool \<Rightarrow> recv_hdr \<Rightarrow> (result \<times> recv_hdr) option" where
  "wlanhdr_to_ethhdr mp f =
     (let a = rf_attr f;
          ptr = rf_data f;
          f = (if at_encrypt a \<noteq> 0 then snd (recvframe_pull_tail f (uint (at_icv_len a))) else f);
          psnap = ptr + uint (at_hdrlen a) + uint (at_iv_len a)
      in do {
        snap \<leftarrow> rdi (rf_buf f) psnap SNAP_SIZE;
        snap_type \<leftarrow> rdi (rf_buf f) (psnap + int SNAP_SIZE) 2;
        let bsnaphdr = (snap = rtw_rfc1042_header \<and> snap_type \<noteq> SNAP_ETH_TYPE_IPX \<and>
                        snap_type \<noteq> SNAP_ETH_TYPE_APPLETALK_AARP \<or> snap = rtw_bridge_tunnel_header);
        let rmv_len = uint (at_hdrlen a) + uint (at_iv_len a) + (if bsnaphdr then int SNAP_SIZE else 0);
        let len = (ucast (rf_len f - word_of_int rmv_len) :: u16);
        ty \<leftarrow> rdi (rf_buf f) (ptr + rmv_len) 2;
        let f = f\<lparr>rf_attr := a\<lparr>at_eth_type := be16 (ty ! 0) (ty ! 1)\<rparr>\<rparr>;
        (if mp then do {
           buf \<leftarrow> wri (rf_buf f) (ptr + rmv_len) [0x87, 0x12];
           let (p, f) = recvframe_pull (f\<lparr>rf_buf := buf\<rparr>) (rmv_len - 14 + 2 - 24);
           (case p of
              None \<Rightarrow> Some (Fail, f)
            | Some ptr \<Rightarrow> do {
                st \<leftarrow> rdi (rf_buf f) 0 24;
                buf \<leftarrow> wri (rf_buf f) ptr st;
                buf \<leftarrow> put_ethhdr a bsnaphdr len (ptr + 24) buf;
                Some (Success, f\<lparr>rf_buf := buf\<rparr>)
              })
         }
         else (case recvframe_pull f (rmv_len - 14 + (if bsnaphdr then 2 else 0)) of
            (None, f) \<Rightarrow> Some (Fail, f)
          | (Some ptr, f) \<Rightarrow> do {
              buf \<leftarrow> put_ethhdr a bsnaphdr len ptr (rf_buf f);
              Some (Success, f\<lparr>rf_buf := buf\<rparr>)
            }))
      })"

text \<open>The encapsulations the code removes.\<close>

definition snap_encap :: "bytes \<Rightarrow> bool" where
  "snap_encap llc \<longleftrightarrow>
     take 6 llc = rtw_bridge_tunnel_header \<or>
     take 6 llc = rtw_rfc1042_header \<and> drop 6 llc \<notin> {SNAP_ETH_TYPE_IPX, SNAP_ETH_TYPE_APPLETALK_AARP}"

lemma rf_at_attr [simp]: "rf_at pre B post (f\<lparr>rf_attr := a\<rparr>) = rf_at pre B post f"
  by (simp add: rf_at_def)

lemma rf_at_buf: "rf_at pre B post f \<Longrightarrow> length B' = length B \<Longrightarrow> rf_at pre B' post (f\<lparr>rf_buf := pre @ B' @ post\<rparr>)"
  by (simp add: rf_at_def)

lemma rf_at_sel:
  assumes "rf_at pre B post f"
  shows "rf_buf f = pre @ B @ post" and "rf_data f = int (length pre)" and "rf_len f = of_nat (length B)"
  using assms by (simp_all add: rf_at_def)

lemma rdi_at': "p = int (length pre) + int k \<Longrightarrow> k + n \<le> length B \<Longrightarrow> rdi (pre @ B @ post) p n = Some (seg B k n)"
  by (simp only: rdi_at)

lemma wri_at':
  "p = int (length pre) + int k \<Longrightarrow> k + length src \<le> length B \<Longrightarrow>
   wri (pre @ B @ post) p src = Some (pre @ store B k src @ post)"
  by (simp only: wri_at)

lemma put_ethhdr_at:
  assumes "length (at_dst a) = 6" and "length (at_src a) = 6" and "14 \<le> length B"
  shows "put_ethhdr a bsnaphdr len (int (length pre)) (pre @ B @ post) =
    Some (pre @ (at_dst a @ at_src a @ (if bsnaphdr then drop 12 B else be16_bytes len @ drop 14 B)) @ post)"
proof -
  have l: "length (be16_bytes len) = 2" by (simp add: be16_bytes_def)
  let ?B1 = "store B 0 (at_dst a)" and ?B2 = "store (store B 0 (at_dst a)) 6 (at_src a)"
  have w1: "wri (pre @ B @ post) (int (length pre)) (at_dst a) = Some (pre @ ?B1 @ post)"
    using assms by (intro wri_at') simp_all
  have w2: "wri (pre @ ?B1 @ post) (int (length pre) + 6) (at_src a) = Some (pre @ ?B2 @ post)"
    using assms by (intro wri_at') simp_all
  have w3: "wri (pre @ ?B2 @ post) (int (length pre) + 12) (be16_bytes len) = Some (pre @ store ?B2 12 (be16_bytes len) @ post)"
    using assms l by (intro wri_at') simp_all
  have b2: "?B2 = at_dst a @ at_src a @ drop 12 B" using assms by (simp add: store_def)
  have b3: "store ?B2 12 (be16_bytes len) = at_dst a @ at_src a @ be16_bytes len @ drop 14 B"
    unfolding b2 using assms l by (simp add: store_def)
  show ?thesis using w1 w2 w3 assms b2 b3 by (simp add: put_ethhdr_def)
qed

lemma ucast_of_nat_16: "(ucast (of_nat m :: u32) :: u16) = of_nat m"
  by (rule bit_word_eqI) (simp add: bit_simps)

lemma length_ethhdr:
  "length D = 6 \<Longrightarrow> length S = 6 \<Longrightarrow> d + 14 \<le> length B \<Longrightarrow>
   length (D @ S @ (if e then drop 12 (drop d B) else be16_bytes l @ drop 14 (drop d B))) = length (drop d B)"
  by (auto simp: be16_bytes_def)

lemma length_append_take: "d \<le> length B \<Longrightarrow> length (pre @ take d B) = length pre + d"
  by simp

lemma wlanhdr_to_ethhdr_at:
  fixes f :: recv_hdr
  defines "a \<equiv> rf_attr f"
  assumes at: "rf_at pre (H @ llc @ body @ icv) post f"
    and H: "length H = unat (at_hdrlen a) + unat (at_iv_len a)" "14 \<le> length H" and llc: "length llc = 8"
    and icv: "length icv = (if at_encrypt a = 0 then 0 else unat (at_icv_len a))"
    and addr: "length (at_dst a) = 6" "length (at_src a) = 6"
  shows "\<exists>f' pre'. wlanhdr_to_ethhdr False f = Some (Success, f') \<and>
    rf_at pre' (at_dst a @ at_src a @ (if snap_encap llc then drop 6 llc @ body
       else be16_bytes (of_nat (8 + length body)) @ llc @ body)) (icv @ post) f'"
proof -
  define g where "g = (if at_encrypt a \<noteq> 0 then snd (recvframe_pull_tail f (uint (at_icv_len a))) else f)"
  let ?B = "H @ llc @ body" and ?e = "snap_encap llc"
  define n where "n = length H"
  have g: "rf_at pre ?B (icv @ post) g"
  proof (cases "at_encrypt a = 0")
    case False
    then have "rf_at pre ?B (icv @ post) (snd (recvframe_pull_tail f (int (length icv))))"
      using rf_at_pull_tail [OF at, of "length icv"] by simp
    then show ?thesis using False icv by (simp add: g_def)
  qed (use at icv in \<open>simp add: g_def\<close>)
  have buf: "rf_buf g = pre @ ?B @ icv @ post" and len: "rf_len g = of_nat (n + 8 + length body)"
    using rf_at_sel [OF g] llc by (simp_all add: n_def)
  have ptr: "rf_data f = int (length pre)" by (rule rf_at_sel(2) [OF at])
  have hl: "uint (at_hdrlen a) + uint (at_iv_len a) = int n" using H(1) by (simp add: n_def)
  have psnap: "int (length pre) + uint (at_hdrlen a) + uint (at_iv_len a) = int (length pre) + int n" using hl by simp
  define k where "k = (if ?e then n + 6 else n)"
  have rmv: "uint (at_hdrlen a) + uint (at_iv_len a) + (if ?e then int SNAP_SIZE else 0) = int k"
    using hl by (simp add: k_def SNAP_SIZE_def)
  have r1: "rdi (rf_buf g) (int (length pre) + int n) SNAP_SIZE = Some (take 6 llc)"
    unfolding buf using llc by (subst rdi_at' [where k = n]) (simp_all add: n_def SNAP_SIZE_def seg_def)
  have r2: "rdi (rf_buf g) (int (length pre) + int n + int SNAP_SIZE) 2 = Some (drop 6 llc)"
    unfolding buf using llc
    by (subst rdi_at' [where k = "n + 6"]) (simp_all add: n_def SNAP_SIZE_def seg_def)
  have e: "(take 6 llc = rtw_rfc1042_header \<and> drop 6 llc \<noteq> SNAP_ETH_TYPE_IPX \<and>
      drop 6 llc \<noteq> SNAP_ETH_TYPE_APPLETALK_AARP \<or> take 6 llc = rtw_bridge_tunnel_header) = ?e"
    by (auto simp: snap_encap_def)
  define ty where "ty = seg ?B k 2"
  have r3: "rdi (rf_buf g) (int (length pre) + int k) 2 = Some ty"
    unfolding buf ty_def using llc by (intro rdi_at') (auto simp: n_def k_def)
  define g' where "g' = g\<lparr>rf_attr := a\<lparr>at_eth_type := be16 (ty ! 0) (ty ! 1)\<rparr>\<rparr>"
  have g': "rf_at pre ?B (icv @ post) g'" using g by (simp add: g'_def)
  define d where "d = (if ?e then k - 12 else k - 14)"
  have d: "int k - 14 + (if ?e then 2 else 0) = int d" and dB: "d + 14 \<le> length ?B"
    using H(2) llc by (auto simp: d_def k_def n_def)
  define P where "P = recvframe_pull g' (int d)"
  have dB': "d \<le> length ?B" using dB by linarith
  note ld = length_append_take [OF dB', of pre]
  have P: "P = (Some (int (length (pre @ take d ?B))), snd P)" "rf_at (pre @ take d ?B) (drop d ?B) (icv @ post) (snd P)"
    unfolding P_def ld by (rule rf_at_pull [OF g' dB'])+
  define L where "L = (ucast (rf_len g - word_of_int (int k)) :: u16)"
  have L: "L = of_nat (8 + length body)" if "\<not> ?e"
  proof -
    have "rf_len g - word_of_int (int k) = of_nat (8 + length body)" using that by (simp add: len k_def)
    then show ?thesis by (simp only: L_def ucast_of_nat_16)
  qed
  let ?R = "at_dst a @ at_src a @ (if ?e then drop 12 (drop d ?B) else be16_bytes L @ drop 14 (drop d ?B))"
  have put: "put_ethhdr a ?e L (int (length (pre @ take d ?B))) (rf_buf (snd P)) = Some ((pre @ take d ?B) @ ?R @ (icv @ post))"
    unfolding rf_at_sel(1) [OF P(2)] using addr dB by (intro put_ethhdr_at) simp_all
  let ?f' = "(snd P)\<lparr>rf_buf := (pre @ take d ?B) @ ?R @ (icv @ post)\<rparr>"
  have "wlanhdr_to_ethhdr False f = Some (Success, ?f')"
    unfolding wlanhdr_to_ethhdr_def Let_def a_def [symmetric] g_def [symmetric] psnap r1 r2 bind.bind_lunit e rmv
      ptr r3 if_False d g'_def [symmetric] P_def [symmetric] L_def [symmetric]
    by (subst P(1)) (simp only: prod.case option.case put bind.bind_lunit)
  moreover have "rf_at (pre @ take d ?B) ?R (icv @ post) ?f'"
    using P(2) by (rule rf_at_buf) (rule length_ethhdr [OF addr dB])
  moreover have "?R = at_dst a @ at_src a @ (if ?e then drop 6 llc @ body
       else be16_bytes (of_nat (8 + length body)) @ llc @ body)"
    using H(2) llc L by (auto simp: d_def k_def n_def)
  ultimately show ?thesis by metis
qed

text \<open>A received data frame with an 802.11 header, an IV, at least eight bytes of payload and a
  trailer becomes the Ethernet frame of its payload: destination and source address, then the
  encapsulated type and data if the payload has an RFC 1042 or bridge tunnel header, and otherwise
  the length and the payload as it is. Header, IV and trailer are gone, and the frame's pointers
  stay inside its buffer.\<close>

lemma wlanhdr_to_ethhdr_frame:
  assumes "rf_ok f" and "rf_bytes f = H @ llc @ body @ icv" and "length llc = 8"
    and "length H = unat (at_hdrlen (rf_attr f)) + unat (at_iv_len (rf_attr f))" and "14 \<le> length H"
    and "length icv = (if at_encrypt (rf_attr f) = 0 then 0 else unat (at_icv_len (rf_attr f)))"
    and "length (at_dst (rf_attr f)) = 6" and "length (at_src (rf_attr f)) = 6"
  shows "\<exists>f'. wlanhdr_to_ethhdr False f = Some (Success, f') \<and> rf_ok f' \<and>
    rf_bytes f' = at_dst (rf_attr f) @ at_src (rf_attr f) @
      (if snap_encap llc then drop 6 llc @ body else be16_bytes (of_nat (8 + length body)) @ llc @ body)"
proof -
  obtain pre post where at: "rf_at pre (H @ llc @ body @ icv) post f"
    using rf_ok_obtain [OF assms(1)] assms(2) by metis
  show ?thesis using wlanhdr_to_ethhdr_at [OF at assms(4,5,3,6-8)] rf_at_ok by blast
qed

definition demo_eth :: recv_hdr where
  "demo_eth = \<lparr>rf_id = 1, rf_attr = demo_attr, rf_len = 34,
     rf_buf = replicate 26 9 @ [0xaa, 0xaa, 3, 0, 0, 0, 8, 0, 0x45, 0x46] @ [7, 7], rf_data = 2, rf_tail = 36\<rparr>"

lemma wlanhdr_to_ethhdr_frame_witness:
  "\<exists>f'. wlanhdr_to_ethhdr False demo_eth = Some (Success, f') \<and> rf_ok f' \<and>
    rf_bytes f' = [1, 1, 1, 1, 1, 1, 2, 2, 2, 2, 2, 2, 8, 0, 0x45, 0x46]"
proof -
  let ?llc = "[0xaa, 0xaa, 3, 0, 0, 0, 8, 0] :: bytes"
  have e: "snap_encap ?llc"
    by (simp add: snap_encap_def rtw_rfc1042_header_def SNAP_ETH_TYPE_IPX_def SNAP_ETH_TYPE_APPLETALK_AARP_def)
  show ?thesis
    using wlanhdr_to_ethhdr_frame [of demo_eth "replicate 24 9" ?llc "[0x45, 0x46]" "[]"] e
    by (simp add: demo_eth_def demo_attr_def rf_ok_def rf_bytes_def seg_def)
qed

section \<open>Splitting an A-MSDU\<close>

definition ETH_HLEN :: nat where
  "ETH_HLEN = 14"

definition MAX_SUBFRAME_COUNT :: nat where
  "MAX_SUBFRAME_COUNT = 64"

definition ETH_P_AARP :: u16 where
  "ETH_P_AARP = 0x80F3"

definition ETH_P_IPX :: u16 where
  "ETH_P_IPX = 0x8137"

text \<open>
  The packet made of the subframe at \<open>pdata\<close>. \<open>ok\<close> says whether the allocation succeeds; the
  result is \<open>Some None\<close> if it does not.
\<close>

definition rtw_os_alloc_msdu_pkt :: "bool \<Rightarrow> bytes \<Rightarrow> int \<Rightarrow> nat \<Rightarrow> bytes option option" where
  "rtw_os_alloc_msdu_pkt ok buf pdata n =
     (if \<not> ok then Some None
      else do {
        msdu \<leftarrow> rdi buf (pdata + int ETH_HLEN) n;
        ty \<leftarrow> rdi buf (pdata + int ETH_HLEN + 6) 2;
        dst \<leftarrow> rdi buf pdata 6;
        src \<leftarrow> rdi buf (pdata + 6) 6;
        let eth_type = be16 (ty ! 0) (ty ! 1);
        let encap = (8 \<le> n \<and> (take 6 msdu = rtw_rfc1042_header \<and> eth_type \<noteq> ETH_P_AARP \<and> eth_type \<noteq> ETH_P_IPX \<or>
                      take 6 msdu = rtw_bridge_tunnel_header));
        Some (Some (dst @ src @ (if encap then drop SNAP_SIZE msdu else be16_bytes (of_nat n) @ msdu)))
      })"

definition amsdu_pad :: "nat \<Rightarrow> nat" where
  "amsdu_pad n = (let padding_len = 4 - (n + ETH_HLEN) mod 4 in if padding_len = 4 then 0 else padding_len)"

text \<open>The loop over the subframes; \<open>alloc\<close> tells which allocations succeed.\<close>

function amsdu_loop :: "(nat \<Rightarrow> bool) \<Rightarrow> bytes \<Rightarrow> int \<Rightarrow> nat \<Rightarrow> nat \<Rightarrow> bytes list option" where
  "amsdu_loop alloc buf pdata a_len nr_subframes =
     (if a_len \<le> ETH_HLEN then Some []
      else (case rdi buf (pdata + 12) 2 of
        None \<Rightarrow> None
      | Some l \<Rightarrow>
          (let n = unat (be16 (l ! 0) (l ! 1)) in
           if a_len < 14 + n then Some []
           else (case rtw_os_alloc_msdu_pkt (alloc nr_subframes) buf pdata n of
               None \<Rightarrow> None
             | Some None \<Rightarrow> Some []
             | Some (Some pkt) \<Rightarrow>
                 if MAX_SUBFRAME_COUNT \<le> nr_subframes + 1 then Some [pkt]
                 else if a_len - 14 - n \<noteq> 0 \<and> a_len - 14 - n < amsdu_pad n then Some [pkt]
                 else (let pad = (if a_len - 14 - n \<noteq> 0 then amsdu_pad n else 0) in
                       map_option ((#) pkt)
                         (amsdu_loop alloc buf (pdata + 14 + int n + int pad) (a_len - 14 - n - pad) (nr_subframes + 1)))))))"
  by pat_completeness auto
termination
  by (relation "measure (\<lambda>(_, _, _, a_len, _). a_len)") (auto simp: ETH_HLEN_def)

declare amsdu_loop.simps [simp del]

text \<open>The packets indicated, and the frame as it is freed.\<close>

definition amsdu_to_msdu :: "(nat \<Rightarrow> bool) \<Rightarrow> recv_hdr \<Rightarrow> (bytes list \<times> recv_hdr) option" where
  "amsdu_to_msdu alloc f =
     (let a = rf_attr f;
          f = snd (recvframe_pull f (uint (at_hdrlen a)));
          f = (if at_iv_len a \<noteq> 0 then snd (recvframe_pull f (uint (at_iv_len a))) else f)
      in map_option (\<lambda>pkts. (pkts, f\<lparr>rf_len := 0\<rparr>)) (amsdu_loop alloc (rf_buf f) (rf_data f) (unat (rf_len f)) 0))"

text \<open>An aggregate: each subframe has addresses, length and data, and all but the last one are padded.\<close>

type_synonym msdu = "bytes \<times> bytes \<times> bytes"

fun msdu_ok :: "msdu \<Rightarrow> bool" where
  "msdu_ok (da, sa, d) \<longleftrightarrow> length da = 6 \<and> length sa = 6 \<and> 8 \<le> length d \<and> length d < 2 ^ 16"

fun msdu_subframe :: "msdu \<Rightarrow> bytes" where
  "msdu_subframe (da, sa, d) = da @ sa @ be16_bytes (of_nat (length d)) @ d"

text \<open>What \<open>n\<close> bytes need to the next multiple of four.\<close>

definition pad4 :: "nat \<Rightarrow> nat" where
  "pad4 n = (4 - n mod 4) mod 4"

fun amsdu_pack :: "msdu list \<Rightarrow> bytes" where
  "amsdu_pack [] = []"
| "amsdu_pack [m] = msdu_subframe m"
| "amsdu_pack (m # ms) = msdu_subframe m @ replicate (pad4 (length (msdu_subframe m))) 0 @ amsdu_pack ms"

fun msdu_eth :: "msdu \<Rightarrow> bytes" where
  "msdu_eth (da, sa, d) =
     da @ sa @ (if snap_encap (take 8 d) then drop 6 d else be16_bytes (of_nat (length d)) @ d)"

lemma be16_eq_iff: "be16 a b = be16 c d \<longleftrightarrow> a = c \<and> b = d"
proof
  assume e: "be16 a b = be16 c d"
  have "(ucast (be16 x y) :: u8) = y" "(ucast (drop_bit 8 (be16 x y)) :: u8) = x" for x y
    by (rule bit_word_eqI, auto simp: be16_def bit_simps dest: bit_imp_le_length)+
  with e show "a = c \<and> b = d" by metis
qed simp

lemma be16_bytes_be16: "be16 (be16_bytes v ! 0) (be16_bytes v ! 1) = v"
  by (rule bit_word_eqI) (auto simp: be16_def be16_bytes_def bit_simps)

lemma be16_ipx: "be16 a b = ETH_P_IPX \<longleftrightarrow> [a, b] = SNAP_ETH_TYPE_IPX"
  using be16_eq_iff [of a b "0x81" "0x37"] by (simp add: be16_def ETH_P_IPX_def SNAP_ETH_TYPE_IPX_def)

lemma be16_aarp: "be16 a b = ETH_P_AARP \<longleftrightarrow> [a, b] = SNAP_ETH_TYPE_APPLETALK_AARP"
  using be16_eq_iff [of a b "0x80" "0xf3"] by (simp add: be16_def ETH_P_AARP_def SNAP_ETH_TYPE_APPLETALK_AARP_def)

lemma msdu_pkt_at:
  assumes "msdu_ok m"
  shows "rdi (pre @ msdu_subframe m @ post) (int (length pre) + 12) 2 = Some (be16_bytes (of_nat (length (snd (snd m)))))"
    and "rtw_os_alloc_msdu_pkt True (pre @ msdu_subframe m @ post) (int (length pre)) (length (snd (snd m))) = Some (Some (msdu_eth m))"
proof -
  obtain da sa d where m: "m = (da, sa, d)" by (cases m)
  have l: "length da = 6" "length sa = 6" "8 \<le> length d" using assms by (simp_all add: m)
  let ?n = "of_nat (length d) :: u16"
  have b: "length (be16_bytes ?n) = 2" by (simp add: be16_bytes_def)
  have r: "rdi (pre @ msdu_subframe m @ post) (int (length pre) + int k) n = Some (seg (msdu_subframe m) k n)"
    if "k + n \<le> 14 + length d" for k n
    using that l b by (intro rdi_at) (simp add: m)
  show "rdi (pre @ msdu_subframe m @ post) (int (length pre) + 12) 2 = Some (be16_bytes (of_nat (length (snd (snd m)))))"
    using r [of 12 2] l b by (simp add: m seg_def)
  have msdu: "rdi (pre @ msdu_subframe m @ post) (int (length pre) + int ETH_HLEN) (length d) = Some d"
    using r [of 14 "length d"] l b by (simp add: m seg_def ETH_HLEN_def)
  have ty: "rdi (pre @ msdu_subframe m @ post) (int (length pre) + int ETH_HLEN + 6) 2 = Some [d ! 6, d ! 7]"
  proof -
    have "seg (msdu_subframe m) 20 2 = [d ! 6, d ! 7]"
      using l b by (intro nth_equalityI) (auto simp: m seg_def nth_append less_Suc_eq numeral_2_eq_2)
    then show ?thesis using r [of 20 2] l by (simp add: ETH_HLEN_def algebra_simps)
  qed
  have dst: "rdi (pre @ msdu_subframe m @ post) (int (length pre)) 6 = Some da"
    using r [of 0 6] l by (simp add: m seg_def)
  have src: "rdi (pre @ msdu_subframe m @ post) (int (length pre) + 6) 6 = Some sa"
    using r [of 6 6] l by (simp add: m seg_def)
  have "drop 6 (take 8 d) = [d ! 6, d ! 7]"
    using l(3) by (intro nth_equalityI) (auto simp: less_Suc_eq numeral_2_eq_2)
  moreover have "take 6 (take 8 d) = take 6 d" by simp
  ultimately have e: "snap_encap (take 8 d) \<longleftrightarrow>
      8 \<le> length d \<and> (take 6 d = rtw_rfc1042_header \<and> be16 (d ! 6) (d ! 7) \<noteq> ETH_P_AARP \<and>
        be16 (d ! 6) (d ! 7) \<noteq> ETH_P_IPX \<or> take 6 d = rtw_bridge_tunnel_header)"
    using l(3) by (auto simp: snap_encap_def be16_ipx be16_aarp)
  show "rtw_os_alloc_msdu_pkt True (pre @ msdu_subframe m @ post) (int (length pre)) (length (snd (snd m))) = Some (Some (msdu_eth m))"
    using msdu ty dst src by (auto simp: rtw_os_alloc_msdu_pkt_def m e SNAP_SIZE_def Let_def)
qed

lemma amsdu_pad_eq: "amsdu_pad n = pad4 (14 + n)"
proof -
  have "x = 0 \<or> 4 - x = (4 - x) mod 4 \<and> 4 - x \<noteq> 4" if "x < 4" for x :: nat using that by auto
  from this [of "(14 + n) mod 4"] show ?thesis
    unfolding amsdu_pad_def pad4_def ETH_HLEN_def Let_def add.commute [of n] by auto
qed

lemma length_msdu_subframe: "msdu_ok m \<Longrightarrow> length (msdu_subframe m) = 14 + length (snd (snd m))"
  by (cases m) (simp add: be16_bytes_def)

lemma amsdu_loop_step:
  assumes m: "msdu_ok m" and nr: "nr < 64"
    and a: "a_len = 14 + length (snd (snd m)) + r"
    and B: "pdata = int (length pre)"
  shows "amsdu_loop (\<lambda>_. True) (pre @ msdu_subframe m @ post) pdata a_len nr =
    (if nr = 63 \<or> r \<noteq> 0 \<and> r < amsdu_pad (length (snd (snd m))) then Some [msdu_eth m]
     else map_option ((#) (msdu_eth m))
       (amsdu_loop (\<lambda>_. True) (pre @ msdu_subframe m @ post)
          (pdata + 14 + int (length (snd (snd m))) + int (if r \<noteq> 0 then amsdu_pad (length (snd (snd m))) else 0))
          (r - (if r \<noteq> 0 then amsdu_pad (length (snd (snd m))) else 0)) (nr + 1)))"
proof -
  obtain da sa d where md: "m = (da, sa, d)" by (cases m)
  have n: "unat (be16 (be16_bytes (of_nat (length d) :: u16) ! 0) (be16_bytes (of_nat (length d) :: u16) ! 1)) = length d"
    using m by (simp only: be16_bytes_be16) (simp add: md unat_of_nat)
  have "0 < length d" using m by (auto simp: md)
  then show ?thesis
    using msdu_pkt_at [OF m, of pre post] n nr
    by (subst amsdu_loop.simps)
      (auto simp: a B md ETH_HLEN_def MAX_SUBFRAME_COUNT_def Let_def)
qed

lemma amsdu_loop_pack:
  assumes "list_all msdu_ok ms" and "ms \<noteq> []" and "nr + length ms \<le> 64" and "length tr \<le> 14"
  shows "amsdu_loop (\<lambda>_. True) (pre @ amsdu_pack ms @ tr @ post) (int (length pre)) (length (amsdu_pack ms) + length tr) nr =
    Some (map msdu_eth ms)"
  using assms
proof (induction ms arbitrary: pre nr rule: amsdu_pack.induct)
  case (2 m)
  have stop: "amsdu_loop al buf p (k - j) n = Some []" if "k \<le> 14" for al buf p k j n
  proof -
    have "k - j \<le> 14" using that by simp
    then show ?thesis by (subst amsdu_loop.simps) (simp add: ETH_HLEN_def)
  qed
  have len: "length (amsdu_pack [m]) + length tr = 14 + length (snd (snd m)) + length tr"
    using 2(1) by (simp add: length_msdu_subframe)
  show ?case
    using amsdu_loop_step [of m nr "14 + length (snd (snd m)) + length tr" "length tr" "int (length pre)" pre "tr @ post"] 2 len
    by (simp add: stop)
next
  case (3 m m' ms)
  let ?p = "amsdu_pad (length (snd (snd m)))" and ?rest = "amsdu_pack (m' # ms) @ tr @ post"
  let ?pre = "pre @ msdu_subframe m @ replicate ?p 0"
  have l: "length (msdu_subframe m) = 14 + length (snd (snd m))" using 3 by (simp add: length_msdu_subframe)
  have p: "pad4 (length (msdu_subframe m)) = ?p"
    by (simp only: l amsdu_pad_eq)
  have l': "0 < length (amsdu_pack (m' # ms))"
    using 3 length_msdu_subframe [of m'] by (cases ms) auto
  have IH: "amsdu_loop (\<lambda>_. True) (?pre @ amsdu_pack (m' # ms) @ tr @ post) (int (length ?pre))
      (length (amsdu_pack (m' # ms)) + length tr) (nr + 1) = Some (map msdu_eth (m' # ms))"
    using 3(2-) by (intro 3(1)) auto
  have buf: "pre @ amsdu_pack (m # m' # ms) @ tr @ post = pre @ msdu_subframe m @ replicate ?p 0 @ ?rest" by (simp add: p)
  have step: "amsdu_loop (\<lambda>_. True) (pre @ msdu_subframe m @ replicate ?p 0 @ ?rest) (int (length pre))
      (14 + length (snd (snd m)) + (?p + length (amsdu_pack (m' # ms)) + length tr)) nr =
    map_option ((#) (msdu_eth m)) (amsdu_loop (\<lambda>_. True) (pre @ msdu_subframe m @ replicate ?p 0 @ ?rest)
      (int (length pre) + 14 + int (length (snd (snd m))) + int ?p) (length (amsdu_pack (m' # ms)) + length tr) (nr + 1))"
    using amsdu_loop_step [of m nr _ "?p + length (amsdu_pack (m' # ms)) + length tr" "int (length pre)" pre "replicate ?p 0 @ ?rest", OF _ _ refl refl]
      3(2-) l' by simp
  have ptr: "int (length ?pre) = int (length pre) + 14 + int (length (snd (snd m))) + int ?p" using l by simp
  have len: "length (amsdu_pack (m # m' # ms)) + length tr = 14 + length (snd (snd m)) + (?p + length (amsdu_pack (m' # ms)) + length tr)"
    using l by (simp add: amsdu_pad_eq)
  have IH': "amsdu_loop (\<lambda>_. True) (pre @ msdu_subframe m @ replicate ?p 0 @ ?rest)
      (int (length pre) + 14 + int (length (snd (snd m))) + int ?p) (length (amsdu_pack (m' # ms)) + length tr) (nr + 1) =
    Some (map msdu_eth (m' # ms))"
    using IH unfolding ptr by (simp only: append_assoc)
  show ?case unfolding buf len step IH' by simp
qed simp

lemma unat_of_nat_u32: "n < 2 ^ 31 \<Longrightarrow> unat (of_nat n :: u32) = n"
  by (simp add: unat_of_nat)

text \<open>C9: An aggregate of at most 64 frames, each padded to a multiple of four bytes but the last,
  behind the 802.11 header and the IV and with at most 14 trailing bytes, is split into exactly
  those frames, in order, each with an Ethernet header.\<close>

theorem amsdu_roundtrip:
  assumes "rf_ok f" and "rf_bytes f = H @ iv @ amsdu_pack ms @ tr" and "length H = unat (at_hdrlen (rf_attr f))"
    and "length iv = unat (at_iv_len (rf_attr f))"
    and "list_all msdu_ok ms" and "ms \<noteq> []" and "length ms \<le> 64" and "length tr \<le> 14"
  shows "\<exists>f'. amsdu_to_msdu (\<lambda>_. True) f = Some (map msdu_eth ms, f') \<and> rf_len f' = 0"
proof -
  obtain pre post where at: "rf_at pre (H @ iv @ amsdu_pack ms @ tr) post f"
    using rf_ok_obtain [OF assms(1)] assms(2) by metis
  define f1 where "f1 = snd (recvframe_pull f (uint (at_hdrlen (rf_attr f))))"
  have f1: "rf_at (pre @ H) (iv @ amsdu_pack ms @ tr) post f1"
    using rf_at_pull(2) [OF at, of "length H"] assms(3) by (simp add: f1_def)
  define f2 where "f2 = (if at_iv_len (rf_attr f) \<noteq> 0 then snd (recvframe_pull f1 (uint (at_iv_len (rf_attr f)))) else f1)"
  have f2: "rf_at (pre @ H @ iv) (amsdu_pack ms @ tr) post f2"
  proof (cases "at_iv_len (rf_attr f) = 0")
    case False
    then show ?thesis using rf_at_pull(2) [OF f1, of "length iv"] assms(4) by (simp add: f2_def)
  qed (use f1 assms(4) in \<open>simp add: f2_def\<close>)
  have len: "unat (rf_len f2) = length (amsdu_pack ms) + length tr"
  proof -
    have "rf_len f2 = of_nat (length (amsdu_pack ms @ tr))" "length (amsdu_pack ms @ tr) < 2 ^ 31"
      using f2 by (simp_all add: rf_at_def)
    then have "unat (rf_len f2) = length (amsdu_pack ms @ tr)" by (simp only: unat_of_nat_u32)
    then show ?thesis by simp
  qed
  have "amsdu_loop (\<lambda>_. True) (rf_buf f2) (rf_data f2) (unat (rf_len f2)) 0 = Some (map msdu_eth ms)"
    unfolding len using amsdu_loop_pack [OF assms(5,6) _ assms(8), of 0 "pre @ H @ iv" post] assms(7) f2
    by (simp add: rf_at_def)
  then show ?thesis unfolding amsdu_to_msdu_def Let_def f1_def [symmetric] f2_def [symmetric] by simp
qed

definition demo_amsdu :: recv_hdr where
  "demo_amsdu = \<lparr>rf_id = 1, rf_attr = demo_attr\<lparr>at_amsdu := 1\<rparr>, rf_len = 73,
     rf_buf = replicate 24 9 @ amsdu_pack [(replicate 6 1, replicate 6 2, replicate 9 3), (replicate 6 4, replicate 6 5, replicate 8 6)] @ [0, 0, 0],
     rf_data = 0, rf_tail = 73\<rparr>"

theorem amsdu_roundtrip_witness:
  "\<exists>f'. amsdu_to_msdu (\<lambda>_. True) demo_amsdu =
     Some (map msdu_eth [(replicate 6 1, replicate 6 2, replicate 9 3), (replicate 6 4, replicate 6 5, replicate 8 6)], f') \<and> rf_len f' = 0"
proof -
  let ?ms = "[(replicate 6 1, replicate 6 2, replicate 9 3), (replicate 6 4, replicate 6 5, replicate 8 6)] :: msdu list"
  have l: "length (amsdu_pack ?ms) = 46" by (simp add: be16_bytes_def pad4_def)
  have "rf_bytes demo_amsdu = replicate 24 9 @ [] @ amsdu_pack ?ms @ [0, 0, 0]" and "rf_ok demo_amsdu"
    using l by (simp_all add: demo_amsdu_def rf_bytes_def rf_ok_def seg_def del: amsdu_pack.simps)
  then show ?thesis
    using amsdu_roundtrip [of demo_amsdu "replicate 24 9" "[]" ?ms "[0, 0, 0]"]
    by (simp add: demo_amsdu_def demo_attr_def del: amsdu_pack.simps msdu_eth.simps)
qed

end
