(* ===== verification/Defrag.thy ===== *)
theory Defrag
  imports RecvBuf Michael
begin

unbundle bit_operations_syntax

text \<open>
  Reassembly of fragmented frames and the check of the TKIP MIC over the whole
  (\<open>recvframe_defrag\<close>, \<open>recvframe_chk_defrag\<close> and \<open>recvframe_chkmic\<close> of \<open>core/rtw_recv.c\<close>), with
  the buffer \<open>rtw_os_alloc_recvframe\<close> of \<open>os_dep/recv_linux.c\<close> gives a frame.
\<close>

section \<open>The buffer of a frame\<close>

text \<open>A socket buffer as the kernel returns it: memory, offset of the data and its address.\<close>

record skb =
  sk_mem :: bytes
  sk_data :: nat
  sk_addr :: nat

definition recv_alloc_sz :: "rx_attr \<Rightarrow> nat \<Rightarrow> nat" where
  "recv_alloc_sz a skb_len =
     (if at_mfrag a = 1 \<and> at_frag_num a = 0 then (if skb_len \<le> 1650 then 1664 else skb_len + 14)
      else skb_len + 14)"

text \<open>
  \<open>alloc\<close> is the kernel's allocator, \<open>clone\<close> says whether the socket buffer that holds the packet
  exists and can be cloned; \<open>pdata\<close> is the memory from the packet on. The outer \<open>None\<close> is an access
  outside the memory.
\<close>

definition rtw_os_alloc_recvframe ::
  "(nat \<Rightarrow> skb option) \<Rightarrow> bool \<Rightarrow> recv_hdr \<Rightarrow> bytes option \<Rightarrow> nat \<Rightarrow> (result \<times> recv_hdr) option" where
  "rtw_os_alloc_recvframe alloc clone f pdata skb_len =
     (case pdata of
        None \<Rightarrow> Some (Fail, f)
      | Some pdata \<Rightarrow>
          (let a = rf_attr f;
               shift_sz = (if at_qos a \<noteq> 0 then 6 else 0);
               alloc_sz = recv_alloc_sz a skb_len
           in case alloc alloc_sz of
                Some s \<Rightarrow>
                  (let d = sk_data s + (8 - sk_addr s mod 8) + shift_sz in do {
                     src \<leftarrow> rdi pdata 0 skb_len;
                     mem \<leftarrow> wri (sk_mem s) (int d) src;
                     Some (Success, f\<lparr>rf_buf := take (sk_data s + alloc_sz) mem, rf_data := int d, rf_tail := int d\<rparr>)
                   })
              | None \<Rightarrow>
                  if at_mfrag a = 1 \<and> at_frag_num a = 0 then Some (Fail, f)
                  else if clone then Some (Success, f\<lparr>rf_buf := take alloc_sz pdata, rf_data := 0, rf_tail := 0\<rparr>)
                  else Some (Fail, f)))"

section \<open>Reassembly\<close>

text \<open>
  One turn of the loop: the payload of the next fragment \<open>n\<close> goes behind the frame \<open>f\<close>, whose
  trailer is cut. The code copies first and asks for the room afterwards.
\<close>

definition defrag_step :: "recv_hdr \<Rightarrow> recv_hdr \<Rightarrow> recv_hdr option" where
  "defrag_step f n =
     (let wlanhdr_offset = at_hdrlen (rf_attr n) + at_iv_len (rf_attr n);
          n = snd (recvframe_pull n (uint wlanhdr_offset));
          f = snd (recvframe_pull_tail f (uint (at_icv_len (rf_attr f))))
      in do {
        payload \<leftarrow> rdi (rf_buf n) (rf_data n) (unat (rf_len n));
        buf \<leftarrow> wri (rf_buf f) (rf_tail f) payload;
        let f = snd (recvframe_put (f\<lparr>rf_buf := buf\<rparr>) (uint (rf_len n)));
        Some (f\<lparr>rf_attr := (rf_attr f)\<lparr>at_icv_len := at_icv_len (rf_attr n)\<rparr>\<rparr>)
      })"

text \<open>The loop; the inner \<open>None\<close>: a fragment is missing.\<close>

fun defrag_loop :: "u8 \<Rightarrow> recv_hdr \<Rightarrow> recv_hdr list \<Rightarrow> recv_hdr option option" where
  "defrag_loop curfragnum f [] = Some (Some f)"
| "defrag_loop curfragnum f (n # ns) =
     (if curfragnum \<noteq> at_frag_num (rf_attr n) then Some None
      else (case defrag_step f n of
              None \<Rightarrow> None
            | Some f' \<Rightarrow> defrag_loop (curfragnum + 1) f' ns))"

text \<open>
  The reassembled frame or null, and the frames that went back to the free queue. The queue is
  empty afterwards in every case.
\<close>

definition recvframe_defrag :: "recv_hdr list \<Rightarrow> (recv_hdr option \<times> nat list) option" where
  "recvframe_defrag q =
     (case q of
        [] \<Rightarrow> None
      | f # ns \<Rightarrow>
          if 0 \<noteq> at_frag_num (rf_attr f) then Some (None, map rf_id q)
          else (case defrag_loop 1 f ns of
                  None \<Rightarrow> None
                | Some None \<Rightarrow> Some (None, map rf_id q)
                | Some (Some f') \<Rightarrow> Some (Some f', map rf_id ns)))"

section \<open>What reassembly computes\<close>

definition frag_ok :: "recv_hdr \<Rightarrow> bytes \<times> bytes \<Rightarrow> bool" where
  "frag_ok n = (\<lambda>(p, t). rf_ok n \<and> length t = unat (at_icv_len (rf_attr n)) \<and>
     (\<exists>H. rf_bytes n = H @ p @ t \<and> length H = unat (at_hdrlen (rf_attr n) + at_iv_len (rf_attr n))))"

text \<open>The fragments are numbered from \<open>k\<close> on.\<close>

fun frags_from :: "u8 \<Rightarrow> recv_hdr list \<Rightarrow> bool" where
  "frags_from k [] = True"
| "frags_from k (n # ns) \<longleftrightarrow> at_frag_num (rf_attr n) = k \<and> frags_from (k + 1) ns"

lemma rdi_of_at: "rf_at pre B post f \<Longrightarrow> rdi (rf_buf f) (rf_data f) (unat (rf_len f)) = Some B"
proof -
  assume at: "rf_at pre B post f"
  then have "unat (rf_len f) = length B" by (simp add: rf_at_def unat_of_nat_u32)
  then show ?thesis using rdi_at [of 0 "length B" B pre post] rf_at_sel [OF at] by simp
qed

lemma defrag_step_at:
  assumes at: "rf_at pre (B @ t) post f" and t: "length t = unat (at_icv_len (rf_attr f))"
    and n: "frag_ok n (p', t')" and room: "length p' + length t' \<le> length t + length post"
  shows "\<exists>f'. defrag_step f n = Some f' \<and> rf_at pre (B @ p' @ t') (drop (length (p' @ t')) (t @ post)) f' \<and>
    rf_attr f' = (rf_attr f)\<lparr>at_icv_len := at_icv_len (rf_attr n)\<rparr> \<and> rf_id f' = rf_id f"
proof -
  obtain H where H: "rf_ok n" "rf_bytes n = H @ p' @ t'" "length H = unat (at_hdrlen (rf_attr n) + at_iv_len (rf_attr n))"
    using n by (auto simp: frag_ok_def)
  obtain npre npost where nat: "rf_at npre (H @ p' @ t') npost n" using rf_ok_obtain [OF H(1)] H(2) by metis
  define n' where "n' = snd (recvframe_pull n (uint (at_hdrlen (rf_attr n) + at_iv_len (rf_attr n))))"
  have n': "rf_at (npre @ H) (p' @ t') npost n'"
    using rf_at_pull(2) [OF nat, of "length H"] H(3) by (simp add: n'_def)
  have attr: "rf_attr n' = rf_attr n" by (simp add: n'_def recvframe_pull_def Let_def)
  define f1 where "f1 = snd (recvframe_pull_tail f (uint (at_icv_len (rf_attr f))))"
  have f1: "rf_at pre B (t @ post) f1"
    using rf_at_pull_tail [OF at, of "length t"] t by (simp add: f1_def)
  have f1a: "rf_attr f1 = rf_attr f" "rf_id f1 = rf_id f"
    by (simp_all add: f1_def recvframe_pull_tail_def Let_def)
  let ?P = "p' @ t'" and ?post = "p' @ t' @ drop (length (p' @ t')) (t @ post)"
  have len: "rf_len n' = of_nat (length ?P)" "length ?P < 2 ^ 31" using n' by (simp_all add: rf_at_def)
  have w: "wri (rf_buf f1) (rf_tail f1) ?P = Some (pre @ B @ ?post)"
  proof -
    have "rf_tail f1 = int (length pre) + int (length B)" and "rf_buf f1 = pre @ B @ t @ post"
      using f1 by (simp_all add: rf_at_def)
    then show ?thesis using room by (simp add: wri_def store_def nat_add_distrib)
  qed
  have lp: "length ?post = length (t @ post)" using room by (simp only: length_append length_drop)
  then have "length (pre @ B @ ?post) = length (pre @ B @ t @ post)" by (simp only: length_append)
  then have f2: "rf_at pre B ?post (f1\<lparr>rf_buf := pre @ B @ ?post\<rparr>)"
    using f1 unfolding rf_at_def by (simp del: length_append)
  have u: "uint (rf_len n') = int (length ?P)"
    unfolding len(1) using len(2) unat_of_nat_u32 [of "length ?P"] by (simp only: uint_nat)
  define f3 where "f3 = snd (recvframe_put (f1\<lparr>rf_buf := pre @ B @ ?post\<rparr>) (uint (rf_len n')))"
  have f3: "rf_at pre (B @ ?P) (drop (length ?P) (t @ post)) f3"
    using rf_at_put [OF f2, of "length ?P"] by (simp add: f3_def u)
  have f3a: "rf_attr f3 = rf_attr f" "rf_id f3 = rf_id f" using f1a by (simp_all add: f3_def recvframe_put_def Let_def)
  have "defrag_step f n = Some (f3\<lparr>rf_attr := (rf_attr f3)\<lparr>at_icv_len := at_icv_len (rf_attr n')\<rparr>\<rparr>)"
    unfolding defrag_step_def Let_def n'_def [symmetric] f1_def [symmetric] rdi_of_at [OF n'] w bind.bind_lunit
      f3_def [symmetric] by simp
  then show ?thesis using f3 f3a attr by auto
qed

lemma defrag_loop_at:
  assumes "rf_at pre (B @ t) post f" and "length t = unat (at_icv_len (rf_attr f))"
    and "list_all2 frag_ok ns pts" and "frags_from k ns"
    and "\<forall>(p, t') \<in> set pts. length t' \<le> T"
    and "length (concat (map fst pts)) + T \<le> length t + length post"
  shows "\<exists>f' post'. defrag_loop k f ns = Some (Some f') \<and>
    rf_at pre (B @ concat (map fst pts) @ (if pts = [] then t else snd (last pts))) post' f' \<and>
    rf_attr f' = (rf_attr f)\<lparr>at_icv_len := of_nat (length (if pts = [] then t else snd (last pts)))\<rparr> \<and> rf_id f' = rf_id f"
  using assms(3) assms(1,2,4-)
proof (induction ns pts arbitrary: k f B t post rule: list_all2_induct)
  case Nil
  then show ?case by auto
next
  case (Cons n ns pt pts)
  obtain p' t' where pt: "pt = (p', t')" by (cases pt)
  have room: "length p' + length t' \<le> length t + length post" using Cons.prems pt by auto
  obtain f' where f': "defrag_step f n = Some f'" "rf_at pre ((B @ p') @ t') (drop (length (p' @ t')) (t @ post)) f'"
      "rf_attr f' = (rf_attr f)\<lparr>at_icv_len := at_icv_len (rf_attr n)\<rparr>" "rf_id f' = rf_id f"
    using defrag_step_at [OF Cons.prems(1,2) _ room] Cons.hyps(1) pt by auto
  have t': "length t' = unat (at_icv_len (rf_attr n))" using Cons.hyps(1) by (simp add: pt frag_ok_def)
  have room': "length (concat (map fst pts)) + T \<le> length t' + length (drop (length (p' @ t')) (t @ post))"
    using Cons.prems(5) pt by simp
  have "\<exists>g post'. defrag_loop (k + 1) f' ns = Some (Some g) \<and>
      rf_at pre ((B @ p') @ concat (map fst pts) @ (if pts = [] then t' else snd (last pts))) post' g \<and>
      rf_attr g = (rf_attr f')\<lparr>at_icv_len := of_nat (length (if pts = [] then t' else snd (last pts)))\<rparr> \<and> rf_id g = rf_id f'"
    using Cons.prems f'(2,3) t' room' by (intro Cons.IH) auto
  then show ?case using f' Cons.prems(3) by (auto simp: pt)
qed

text \<open>C6: If the queue holds the fragments of a frame in order, and its first buffer has room for the
  whole, reassembly returns one frame: the header of the first fragment, the payloads of all of
  them, and the trailer of the last one. The other fragments go back to the free queue.\<close>

theorem recvframe_defrag_reassembles:
  assumes "rf_ok f" and "rf_bytes f = H @ p @ t" and "length t = unat (at_icv_len (rf_attr f))"
    and "frags_from 0 (f # ns)" and "ns \<noteq> []" and "list_all2 frag_ok ns pts"
    and "\<forall>(p, t') \<in> set pts. length t' \<le> T"
    and "length (concat (map fst pts)) + T \<le> length t + (length (rf_buf f) - nat (rf_tail f))"
  shows "\<exists>f'. recvframe_defrag (f # ns) = Some (Some f', map rf_id ns) \<and> rf_ok f' \<and> rf_id f' = rf_id f \<and>
    rf_bytes f' = H @ p @ concat (map fst pts) @ snd (last pts) \<and>
    rf_attr f' = (rf_attr f)\<lparr>at_icv_len := of_nat (length (snd (last pts)))\<rparr>"
proof -
  have at: "rf_at (take (nat (rf_data f)) (rf_buf f)) ((H @ p) @ t) (drop (nat (rf_tail f)) (rf_buf f)) f"
    using rf_ok_at [OF assms(1)] by (simp add: assms(2))
  have pts: "pts \<noteq> []" using assms(5,6) by auto
  show ?thesis
    using defrag_loop_at [OF at assms(3,6) _ assms(7), of 1] assms(4,8) pts rf_at_ok
    by (fastforce simp: recvframe_defrag_def)
qed

lemma defrag_step_id: "defrag_step f n = Some f' \<Longrightarrow> rf_id f' = rf_id f"
  by (auto simp: defrag_step_def Let_def recvframe_put_def recvframe_pull_tail_def split: bind_splits if_splits)

lemma defrag_loop_id: "defrag_loop k f ns = Some (Some f') \<Longrightarrow> rf_id f' = rf_id f"
  by (induction k f ns rule: defrag_loop.induct) (auto split: if_splits option.splits dest: defrag_step_id)

lemma recvframe_defrag_conserves:
  "recvframe_defrag q = Some (r, freed) \<Longrightarrow>
   (case r of None \<Rightarrow> [] | Some f \<Rightarrow> [rf_id f]) @ freed = map rf_id q"
  by (auto simp: recvframe_defrag_def defrag_loop_id split: list.splits if_splits option.splits)

text \<open>C34: The code copies a fragment behind the frame before it asks whether there is room: two
  fragments in order whose payloads do not fit into the buffer of the first make it write behind
  the end of that buffer.\<close>

theorem defrag_writes_past_end:
  assumes "rf_ok f" and "unat (at_icv_len (rf_attr f)) \<le> length (rf_bytes f)"
    and "frags_from 0 [f, n]" and "frag_ok n (p, t)"
    and "unat (at_icv_len (rf_attr f)) + (length (rf_buf f) - nat (rf_tail f)) < length p + length t"
  shows "recvframe_defrag [f, n] = None"
proof -
  let ?k = "unat (at_icv_len (rf_attr f))"
  define f1 where "f1 = snd (recvframe_pull_tail f (uint (at_icv_len (rf_attr f))))"
  have at: "rf_at (take (nat (rf_data f)) (rf_buf f)) (rf_bytes f) (drop (nat (rf_tail f)) (rf_buf f)) f"
    by (rule rf_ok_at [OF assms(1)])
  have "rf_data f \<le> rf_tail f - int ?k" using at assms(2) unfolding rf_at_def by linarith
  then have t1: "rf_tail f1 = rf_tail f - int ?k" "rf_buf f1 = rf_buf f"
    by (simp_all add: f1_def recvframe_pull_tail_def Let_def)
  obtain H where H: "rf_ok n" "rf_bytes n = H @ p @ t" "length H = unat (at_hdrlen (rf_attr n) + at_iv_len (rf_attr n))"
    using assms(4) by (auto simp: frag_ok_def)
  obtain npre npost where nat: "rf_at npre (H @ p @ t) npost n" using rf_ok_obtain [OF H(1)] H(2) by metis
  define n' where "n' = snd (recvframe_pull n (uint (at_hdrlen (rf_attr n) + at_iv_len (rf_attr n))))"
  have n': "rf_at (npre @ H) (p @ t) npost n'"
    using rf_at_pull(2) [OF nat, of "length H"] H(3) by (simp add: n'_def)
  have "rf_tail f \<le> int (length (rf_buf f))" "0 \<le> rf_tail f" using assms(1) by (auto simp: rf_ok_def)
  then have "int (nat (rf_tail f)) = rf_tail f" "nat (rf_tail f) \<le> length (rf_buf f)" by simp_all
  then have "int (length (rf_buf f)) < rf_tail f - int ?k + int (length (p @ t))"
    using assms(5) unfolding length_append by linarith
  then have w: "wri (rf_buf f1) (rf_tail f1) (p @ t) = None" by (simp add: wri_def t1)
  have "defrag_step f n = None"
    unfolding defrag_step_def Let_def n'_def [symmetric] f1_def [symmetric] rdi_of_at [OF n'] bind.bind_lunit w by simp
  then show ?thesis using assms(3) by (simp add: recvframe_defrag_def)
qed

section \<open>The TKIP MIC\<close>

text \<open>
  What the check uses of \<open>struct security_priv\<close> and \<open>struct mlme_ext_info\<close>, and the number of times
  the MIC error handler was called.
\<close>

record mic_sec =
  dot118021XGrprxmickey :: "bytes list"
  ms_binstallGrpkey :: bool
  ms_bcheck_grpkey :: bool
  ms_key_index :: u32
  ms_mic_errs :: nat

text \<open>
  \<open>stainfo\<close> is the MIC key of the station, if it is known; \<open>stk\<close> is what the hash state on the stack
  holds before.
\<close>

definition recvframe_chkmic ::
  "mic_data \<Rightarrow> bytes option \<Rightarrow> mic_sec \<Rightarrow> recv_hdr \<Rightarrow> (result \<times> mic_sec \<times> recv_hdr) option" where
  "recvframe_chkmic stk stainfo s f =
     (let a = rf_attr f in
      if at_encrypt a \<noteq> TKIP then Some (Success, s, f)
      else (case stainfo of
          None \<Rightarrow> Some (Success, s, snd (recvframe_pull_tail f 8))
        | Some uncst \<Rightarrow>
            if IS_MCAST (at_ra a) \<and> \<not> ms_binstallGrpkey s then Some (Fail, s, f)
            else
              (let mickey = (if IS_MCAST (at_ra a) then dot118021XGrprxmickey s ! unat (at_key_index a) else uncst);
                   datalen = rf_len f - ucast (at_hdrlen a) - ucast (at_iv_len a) - ucast (at_icv_len a) - 8;
                   payload = rf_data f + uint (at_hdrlen a) + uint (at_iv_len a)
               in do {
                 hdr \<leftarrow> rdi (rf_buf f) (rf_data f) 30;
                 d \<leftarrow> rdi (rf_buf f) payload (unat datalen);
                 mic \<leftarrow> rdi (rf_buf f) (payload + uint datalen) 8;
                 let miccode = rtw_seccalctkipmic stk mickey hdr d (at_priority a);
                 let bmic_err = (take 8 miccode \<noteq> mic);
                 let brpt_micerror = \<not> (IS_MCAST (at_ra a) \<and> ucast (at_key_index a) \<noteq> ms_key_index s);
                 Some (if bmic_err
                       then (Fail, (if at_bdecrypted a = 1 \<and> brpt_micerror
                                    then s\<lparr>ms_mic_errs := ms_mic_errs s + 1\<rparr> else s), snd (recvframe_pull_tail f 8))
                       else (Success, (if \<not> ms_bcheck_grpkey s \<and> IS_MCAST (at_ra a)
                                       then s\<lparr>ms_bcheck_grpkey := True\<rparr> else s), snd (recvframe_pull_tail f 8)))
               })))"

section \<open>The queue of fragments\<close>

text \<open>
  The queue the frame goes to: that of its sender, or that of the broadcast station if the sender
  is not known and the frame is not a data frame.
\<close>

definition pick_defrag_q :: "recv_hdr list option \<Rightarrow> recv_hdr list \<Rightarrow> u16 \<Rightarrow> recv_hdr list option" where
  "pick_defrag_q sta_q bcmc_q type =
     (case sta_q of Some q \<Rightarrow> Some q | None \<Rightarrow> if type \<noteq> WIFI_DATA then Some bcmc_q else None)"

text \<open>The frame returned, the queue, and the frames freed, before the check of the MIC.\<close>

definition chk_defrag_queue ::
  "recv_hdr list option \<Rightarrow> recv_hdr \<Rightarrow> (recv_hdr option \<times> recv_hdr list option \<times> nat list) option" where
  "chk_defrag_queue defrag_q f =
     (let ismfrag = at_mfrag (rf_attr f); fragnum = at_frag_num (rf_attr f) in
      if ismfrag = 1 then
        (case defrag_q of
           Some q \<Rightarrow> (let (q, freed) = (if fragnum = 0 then ([], map rf_id q) else (q, []))
                      in Some (None, Some (q @ [f]), freed))
         | None \<Rightarrow> Some (None, None, [rf_id f]))
      else if ismfrag = 0 \<and> fragnum \<noteq> 0 then
        (case defrag_q of
           Some q \<Rightarrow> map_option (\<lambda>(r, freed). (r, Some [], freed)) (recvframe_defrag (q @ [f]))
         | None \<Rightarrow> Some (None, None, [rf_id f]))
      else if ismfrag = 0 then Some (Some f, defrag_q, [])
      else Some (None, defrag_q, []))"

definition recvframe_chk_defrag ::
  "mic_data \<Rightarrow> bytes option \<Rightarrow> mic_sec \<Rightarrow> recv_hdr list option \<Rightarrow> recv_hdr
   \<Rightarrow> (recv_hdr option \<times> mic_sec \<times> recv_hdr list option \<times> nat list) option" where
  "recvframe_chk_defrag stk stainfo s defrag_q f =
     (case chk_defrag_queue defrag_q f of
        None \<Rightarrow> None
      | Some (None, q, freed) \<Rightarrow> Some (None, s, q, freed)
      | Some (Some g, q, freed) \<Rightarrow>
          if at_privacy (rf_attr g) \<noteq> 0 then
            (case recvframe_chkmic stk stainfo s g of
               None \<Rightarrow> None
             | Some (Fail, s, g) \<Rightarrow> Some (None, s, q, freed @ [rf_id g])
             | Some (Success, s, g) \<Rightarrow> Some (Some g, s, q, freed))
          else Some (Some g, s, q, freed))"

lemma chkmic_at:
  fixes f :: recv_hdr
  defines "a \<equiv> rf_attr f"
  assumes at: "rf_at pre (Hd @ d @ mic @ icv) post f" and "at_encrypt a = TKIP" and "\<not> IS_MCAST (at_ra a)"
    and Hd: "length Hd = unat (at_hdrlen a) + unat (at_iv_len a)" and m: "length mic = 8"
    and icv: "length icv = unat (at_icv_len a)" and l30: "30 \<le> length (Hd @ d @ mic @ icv)"
  shows "recvframe_chkmic stk (Some key) s f =
    Some (if take 8 (rtw_seccalctkipmic stk key (take 30 (Hd @ d @ mic @ icv)) d (at_priority a)) = mic
          then (Success, s, snd (recvframe_pull_tail f 8))
          else (Fail, (if at_bdecrypted a = 1 then s\<lparr>ms_mic_errs := ms_mic_errs s + 1\<rparr> else s), snd (recvframe_pull_tail f 8)))"
proof -
  let ?B = "Hd @ d @ mic @ icv"
  note sel = rf_at_sel [OF at]
  have lB: "length ?B < 2 ^ 31" using at by (simp add: rf_at_def)
  have len: "rf_len f - ucast (at_hdrlen a) - ucast (at_iv_len a) - ucast (at_icv_len a) - 8 = of_nat (length d)"
    using sel(3) Hd m icv by simp
  have ud: "unat (of_nat (length d) :: u32) = length d" using lB by (intro unat_of_nat_u32) simp
  then have ud': "uint (of_nat (length d) :: u32) = int (length d)" by (metis uint_nat)
  have pay: "int (length pre) + uint (at_hdrlen a) + uint (at_iv_len a) = int (length pre) + int (length Hd)"
    using Hd by simp
  have r1: "rdi (rf_buf f) (int (length pre)) 30 = Some (take 30 ?B)"
    unfolding sel(1) using l30 by (subst rdi_at' [where k = 0]) (simp_all add: seg_def)
  have r2: "rdi (rf_buf f) (int (length pre) + int (length Hd)) (length d) = Some d"
    unfolding sel(1) by (subst rdi_at' [where k = "length Hd"]) (simp_all add: seg_def)
  have r3: "rdi (rf_buf f) (int (length pre) + int (length Hd) + int (length d)) 8 = Some mic"
    unfolding sel(1) using m by (subst rdi_at' [where k = "length (Hd @ d)"]) (simp_all add: seg_def)
  show ?thesis
    unfolding recvframe_chkmic_def Let_def a_def [symmetric] sel(2) pay len ud ud' r1 r2 r3
    using assms(3,4) by simp
qed

lemma chk_defrag_queue_ids:
  assumes "chk_defrag_queue defrag_q f = Some (r, q, freed)" and "at_mfrag (rf_attr f) \<in> {0, 1}"
  shows "mset (map rf_id (case r of None \<Rightarrow> [] | Some g \<Rightarrow> [g]) @ map rf_id (case q of None \<Rightarrow> [] | Some q \<Rightarrow> q) @ freed) =
    mset (rf_id f # map rf_id (case defrag_q of None \<Rightarrow> [] | Some q \<Rightarrow> q))"
  using assms recvframe_defrag_conserves [THEN arg_cong [where f = mset], of "the defrag_q @ [f]"]
  by (auto simp: chk_defrag_queue_def Let_def split: if_splits option.splits)

lemma chkmic_id: "recvframe_chkmic stk sta s f = Some (r, s', g) \<Longrightarrow> rf_id g = rf_id f"
  by (auto simp: recvframe_chkmic_def recvframe_pull_tail_def Let_def split: if_splits option.splits bind_splits)

text \<open>C7: The frames held for reassembly are accounted for: the incoming frame and those of the
  queue are afterwards in the queue, handed on, or back in the free queue, each exactly once.\<close>

theorem chk_defrag_conserves:
  assumes "recvframe_chk_defrag stk sta s defrag_q f = Some (r, s', q, freed)" and "at_mfrag (rf_attr f) \<in> {0, 1}"
  shows "mset (map rf_id (case r of None \<Rightarrow> [] | Some g \<Rightarrow> [g]) @ map rf_id (case q of None \<Rightarrow> [] | Some q \<Rightarrow> q) @ freed) =
    mset (rf_id f # map rf_id (case defrag_q of None \<Rightarrow> [] | Some q \<Rightarrow> q))"
proof -
  obtain r0 q0 fr0 where q: "chk_defrag_queue defrag_q f = Some (r0, q0, fr0)"
    using assms(1) by (cases "chk_defrag_queue defrag_q f") (auto simp: recvframe_chk_defrag_def)
  note ids = chk_defrag_queue_ids [OF q assms(2)]
  show ?thesis
    using assms(1) ids
    by (auto simp: recvframe_chk_defrag_def q split: option.splits if_splits result.splits dest!: chkmic_id)
qed

text \<open>C8: When the last fragment of a TKIP frame arrives and the queue holds the others in order, the
  MIC is checked over the reassembled payload. With the right MIC the frame is handed on, its
  bytes the first fragment's header, the payloads and the trailer without its last eight bytes;
  with a wrong one it is freed, and the error reported if the frame was decrypted. The queue is
  empty in both cases.\<close>

theorem tkip_fragments_mic:
  fixes f :: recv_hdr
  defines "a \<equiv> rf_attr f"
  defines "B \<equiv> \<lambda>p pts. p @ concat (map fst pts)"
  assumes "rf_ok f" and "rf_bytes f = Hd @ p @ t" and "length t = unat (at_icv_len a)"
    and "frags_from 0 (f # ms @ [n])" and "list_all2 frag_ok (ms @ [n]) pts"
    and "\<forall>(p, t') \<in> set pts. length t' \<le> T"
    and "length (concat (map fst pts)) + T \<le> length t + (length (rf_buf f) - nat (rf_tail f))"
    and "at_mfrag (rf_attr n) = 0" and "at_frag_num (rf_attr n) \<noteq> 0"
    and "at_privacy a \<noteq> 0" and "at_encrypt a = TKIP" and "\<not> IS_MCAST (at_ra a)"
    and "length Hd = unat (at_hdrlen a) + unat (at_iv_len a)" and "B p pts = d @ mic" and "length mic = 8"
    and "length (snd (last pts)) < 256" and "30 \<le> length (Hd @ d @ mic @ snd (last pts))"
  shows "\<exists>g. let ok = (take 8 (rtw_seccalctkipmic stk key (take 30 (Hd @ d @ mic @ snd (last pts))) d (at_priority a)) = mic) in
    recvframe_chk_defrag stk (Some key) s (Some (f # ms)) n =
      (if ok then Some (Some g, s, Some [], map rf_id (ms @ [n]))
       else Some (None, (if at_bdecrypted a = 1 then s\<lparr>ms_mic_errs := ms_mic_errs s + 1\<rparr> else s), Some [], map rf_id (ms @ [n]) @ [rf_id f])) \<and>
    (ok \<longrightarrow> rf_ok g \<and> rf_bytes g = take (length (Hd @ d @ snd (last pts))) (Hd @ d @ mic @ snd (last pts)))"
proof -
  obtain f' where f': "recvframe_defrag (f # ms @ [n]) = Some (Some f', map rf_id (ms @ [n]))" "rf_ok f'" "rf_id f' = rf_id f"
      "rf_bytes f' = Hd @ p @ concat (map fst pts) @ snd (last pts)"
      "rf_attr f' = (rf_attr f)\<lparr>at_icv_len := of_nat (length (snd (last pts)))\<rparr>"
    using recvframe_defrag_reassembles [OF assms(3,4) _ assms(6) _ assms(7-9)] assms(5) by (auto simp: a_def)
  let ?t = "snd (last pts)"
  have bytes: "rf_bytes f' = Hd @ d @ mic @ ?t" using f'(4) assms(16) by (simp add: B_def)
  obtain pre post where at: "rf_at pre (Hd @ d @ mic @ ?t) post f'" using rf_ok_obtain [OF f'(2)] bytes by metis
  have icv: "length ?t = unat (at_icv_len (rf_attr f'))" using assms(18) by (simp add: f'(5) unat_of_nat)
  define g where "g = snd (recvframe_pull_tail f' 8)"
  have g: "rf_ok g" "rf_bytes g = take (length (rf_bytes f') - 8) (rf_bytes f')" "rf_id g = rf_id f"
    using rf_ok_pull_tail [OF f'(2), of 8] assms(17) f'(3)
    by (auto simp: g_def bytes recvframe_pull_tail_def Let_def)
  have chk: "recvframe_chkmic stk (Some key) s f' =
    Some (if take 8 (rtw_seccalctkipmic stk key (take 30 (Hd @ d @ mic @ ?t)) d (at_priority a)) = mic
          then (Success, s, g)
          else (Fail, (if at_bdecrypted a = 1 then s\<lparr>ms_mic_errs := ms_mic_errs s + 1\<rparr> else s), g))"
    using chkmic_at [OF at _ _ _ assms(17) icv assms(19)] assms(13-15) by (simp add: f'(5) a_def g_def)
  have q: "chk_defrag_queue (Some (f # ms)) n = Some (Some f', Some [], map rf_id (ms @ [n]))"
    using f'(1) assms(10,11) by (simp add: chk_defrag_queue_def Let_def)
  have "at_privacy (rf_attr f') \<noteq> 0" using assms(12) by (simp add: f'(5) a_def)
  then show ?thesis
    using g assms(17) by (intro exI [of _ g]) (simp add: recvframe_chk_defrag_def q chk bytes Let_def)
qed

section \<open>Instances\<close>

definition demo_frag :: "u8 \<Rightarrow> u8 \<Rightarrow> nat \<Rightarrow> bytes \<Rightarrow> recv_hdr" where
  "demo_frag k mf sz p = \<lparr>rf_id = unat k, rf_attr = demo_attr\<lparr>at_frag_num := k, at_mfrag := mf\<rparr>,
     rf_len = of_nat (24 + length p), rf_buf = replicate 24 9 @ p @ replicate sz 0, rf_data = 0,
     rf_tail = int (24 + length p)\<rparr>"

lemma demo_frag_ok: "length p + sz < 1000 \<Longrightarrow> rf_ok (demo_frag k mf sz p) \<and> rf_bytes (demo_frag k mf sz p) = replicate 24 9 @ p"
  by (simp add: demo_frag_def rf_ok_def rf_bytes_def seg_def)

lemma demo_frag_frag: "length p + sz < 1000 \<Longrightarrow> frag_ok (demo_frag k mf sz p) (p, [])"
  using demo_frag_ok [of p sz k mf] by (simp add: frag_ok_def demo_frag_def demo_attr_def)

theorem recvframe_defrag_reassembles_witness:
  "\<exists>f'. recvframe_defrag [demo_frag 0 1 8 [1, 2], demo_frag 1 1 0 [3], demo_frag 2 0 0 [4, 5]] = Some (Some f', [1, 2]) \<and>
     rf_bytes f' = replicate 24 9 @ [1, 2, 3, 4, 5]"
  using recvframe_defrag_reassembles [of "demo_frag 0 1 8 [1, 2]" "replicate 24 9" "[1, 2]" "[]"
      "[demo_frag 1 1 0 [3], demo_frag 2 0 0 [4, 5]]" "[([3], []), ([4, 5], [])]" 0]
    demo_frag_ok [of "[1, 2]" 8 0 1] demo_frag_frag [of "[3]" 0 1 1] demo_frag_frag [of "[4, 5]" 0 2 0]
  by (auto simp: demo_frag_def demo_attr_def)

theorem defrag_writes_past_end_witness:
  "recvframe_defrag [demo_frag 0 1 2 [1, 2], demo_frag 1 0 0 [3, 4, 5]] = None"
  using demo_frag_ok [of "[1, 2]" 2 0 1] demo_frag_frag [of "[3, 4, 5]" 0 1 0]
  by (intro defrag_writes_past_end) (auto simp: demo_frag_def demo_attr_def)

definition demo_stk :: mic_data where
  "demo_stk = \<lparr>K0 = 0, K1 = 0, L = 0, R = 0, M = 0, nBytesInM = 0\<rparr>"

definition demo_mic_sec :: mic_sec where
  "demo_mic_sec = \<lparr>dot118021XGrprxmickey = [], ms_binstallGrpkey = False, ms_bcheck_grpkey = False,
     ms_key_index = 0, ms_mic_errs = 0\<rparr>"

theorem chk_defrag_conserves_witness:
  "recvframe_chk_defrag demo_stk None demo_mic_sec (Some [demo_frag 0 1 8 [1, 2], demo_frag 1 1 0 [3]]) (demo_frag 0 1 0 [3]) =
     Some (None, demo_mic_sec, Some [demo_frag 0 1 0 [3]], [0, 1]) \<and>
   mset ([] @ [0] @ [0, 1]) = mset [0, 0, 1 :: nat]"
proof -
  have r: "recvframe_chk_defrag demo_stk None demo_mic_sec (Some [demo_frag 0 1 8 [1, 2], demo_frag 1 1 0 [3]]) (demo_frag 0 1 0 [3]) =
     Some (None, demo_mic_sec, Some [demo_frag 0 1 0 [3]], [0, 1])"
    by (simp add: recvframe_chk_defrag_def chk_defrag_queue_def demo_frag_def demo_attr_def)
  show ?thesis using chk_defrag_conserves [OF r] r by (simp add: demo_frag_def demo_attr_def)
qed

text \<open>A TKIP frame in two fragments, with the right MIC.\<close>

definition demo_tkip_frag :: "u8 \<Rightarrow> u8 \<Rightarrow> nat \<Rightarrow> bytes \<Rightarrow> recv_hdr" where
  "demo_tkip_frag k mf sz p = \<lparr>rf_id = unat k,
     rf_attr = demo_attr\<lparr>at_frag_num := k, at_mfrag := mf, at_privacy := 1, at_encrypt := TKIP, at_iv_len := 8, at_icv_len := 4\<rparr>,
     rf_len = of_nat (36 + length p), rf_buf = replicate 32 9 @ p @ replicate 4 0 @ replicate sz 0, rf_data = 0,
     rf_tail = int (36 + length p)\<rparr>"

definition demo_mic :: bytes where
  "demo_mic = take 8 (rtw_seccalctkipmic demo_stk (replicate 8 5) (replicate 30 9) [1, 2] 0)"

lemma length_secmicput_loop [simp]: "length (secmicput_loop n v) = n"
  by (induction n arbitrary: v) simp_all

lemma length_demo_mic [simp]: "length demo_mic = 8"
  by (simp add: demo_mic_def rtw_seccalctkipmic_def rtw_secgetmic_def secmicputuint32_def Let_def)

lemma demo_tkip_frag_ok:
  "length p + sz < 1000 \<Longrightarrow> rf_ok (demo_tkip_frag k mf sz p) \<and>
   rf_bytes (demo_tkip_frag k mf sz p) = replicate 32 9 @ p @ replicate 4 0"
  by (simp add: demo_tkip_frag_def rf_ok_def rf_bytes_def seg_def)

lemma demo_tkip_frag_frag: "length p + sz < 1000 \<Longrightarrow> frag_ok (demo_tkip_frag k mf sz p) (p, replicate 4 0)"
  using demo_tkip_frag_ok [of p sz k mf] by (simp add: frag_ok_def demo_tkip_frag_def demo_attr_def)

lemma demo_tkip_frag_sel:
  "rf_id (demo_tkip_frag k mf sz p) = unat k" "length (rf_buf (demo_tkip_frag k mf sz p)) = 36 + length p + sz"
  "rf_tail (demo_tkip_frag k mf sz p) = int (36 + length p)"
  "rf_attr (demo_tkip_frag k mf sz p) =
     demo_attr\<lparr>at_frag_num := k, at_mfrag := mf, at_privacy := 1, at_encrypt := TKIP, at_iv_len := 8, at_icv_len := 4\<rparr>"
  by (simp_all add: demo_tkip_frag_def)

theorem tkip_fragments_mic_witness:
  "\<exists>g. recvframe_chk_defrag demo_stk (Some (replicate 8 5)) demo_mic_sec
      (Some [demo_tkip_frag 0 1 20 [1, 2]]) (demo_tkip_frag 1 0 0 demo_mic) =
    Some (Some g, demo_mic_sec, Some [], [1]) \<and> rf_bytes g = replicate 32 9 @ [1, 2] @ take 4 demo_mic"
proof -
  let ?f = "demo_tkip_frag 0 1 20 [1, 2]" and ?n = "demo_tkip_frag 1 0 0 demo_mic"
  have mic: "take 8 (rtw_seccalctkipmic demo_stk (replicate 8 5)
      (take 30 (replicate 32 9 @ [1, 2] @ demo_mic @ replicate 4 0)) [1, 2] 0) = demo_mic"
    by (simp add: demo_mic_def [symmetric])
  have cut: "take (length (replicate 32 (9 :: u8) @ [1, 2] @ replicate 4 0)) (replicate 32 9 @ [1, 2] @ demo_mic @ replicate 4 0) =
      replicate 32 9 @ [1, 2] @ take 4 demo_mic" by simp
  have sel: "unat (at_icv_len (rf_attr ?f)) = 4" "unat (at_hdrlen (rf_attr ?f)) + unat (at_iv_len (rf_attr ?f)) = 32"
    "at_priority (rf_attr ?f) = 0" "at_privacy (rf_attr ?f) \<noteq> 0" "at_encrypt (rf_attr ?f) = TKIP"
    "\<not> IS_MCAST (at_ra (rf_attr ?f))" "frags_from 0 (?f # [] @ [?n])" "at_mfrag (rf_attr ?n) = 0" "at_frag_num (rf_attr ?n) \<noteq> 0"
    "map rf_id ([] @ [?n]) = [1]"
    by (simp_all add: demo_tkip_frag_sel demo_attr_def IS_MCAST_def)
  have f: "rf_ok ?f" "rf_bytes ?f = replicate 32 9 @ [1, 2] @ replicate 4 0" using demo_tkip_frag_ok [of "[1, 2]" 20 0 1] by simp_all
  have n: "list_all2 frag_ok ([] @ [?n]) [(demo_mic, replicate 4 0)]" using demo_tkip_frag_frag [of demo_mic 0 1 0] by simp
  have room: "length (concat (map fst [(demo_mic, replicate 4 (0 :: u8))])) + 4 \<le> length (replicate 4 (0 :: u8)) + (length (rf_buf ?f) - nat (rf_tail ?f))"
    by (simp add: demo_tkip_frag_sel)
  show ?thesis
    using tkip_fragments_mic [of ?f "replicate 32 9" "[1, 2]" "replicate 4 0" "[]" ?n "[(demo_mic, replicate 4 0)]" 4
        "[1, 2]" demo_mic demo_stk "replicate 8 5" demo_mic_sec, OF f _ sel(7) n _ room] sel mic cut
    by (auto simp: Let_def simp del: take_append)
qed

end
