(* ===== verification/RecvCheck.thy ===== *)
theory RecvCheck
  imports RecvBuf
begin

unbundle bit_operations_syntax

text \<open>
  The checks of \<open>core/rtw_recv.c\<close> against duplicated and replayed frames: \<open>recv_decache\<close>,
  \<open>recv_ucast_pn_decache\<close> and \<open>recv_bcast_pn_decache\<close>. Array accesses the code makes with an
  index it has checked, or that is a 2-bit field, are list accesses.
\<close>

section \<open>Duplicates\<close>

record stainfo_rxcache =
  tid_rxseq :: "u16 list"
  rxc_iv :: "bytes list"
  last_tid :: u8

definition rx_seq_ctrl :: "rx_attr \<Rightarrow> u16" where
  "rx_seq_ctrl a = push_bit 4 (at_seq_num a AND 0xffff) OR (ucast (at_frag_num a) AND 0xf)"

text \<open>The second component counts the duplicates of the station.\<close>

definition recv_decache :: "rx_attr \<Rightarrow> stainfo_rxcache \<Rightarrow> nat \<Rightarrow> result \<times> stainfo_rxcache \<times> nat" where
  "recv_decache a c duplicate_cnt =
     (let tid = unat (at_priority a); seq_ctrl = rx_seq_ctrl a in
      if 15 < tid then (Fail, c, duplicate_cnt)
      else if seq_ctrl = tid_rxseq c ! tid then (Fail, c, duplicate_cnt + 1)
      else (Success, c\<lparr>tid_rxseq := (tid_rxseq c)[tid := seq_ctrl]\<rparr>, duplicate_cnt))"

lemma bit_below:
  assumes "unat (w :: 'a::len word) < 2 ^ k" and "bit w n"
  shows "n < k"
proof (rule ccontr)
  assume "\<not> n < k"
  then have "(2 :: nat) ^ k \<le> 2 ^ n" by simp
  with assms(1) have "unat w < 2 ^ n" by linarith
  then have "\<not> bit (unat w) n" by (simp add: bit_iff_odd)
  with assms(2) show False by (simp add: bit_unsigned_iff)
qed

lemma bit_rx_seq_ctrl:
  assumes "unat (at_seq_num a) < 2 ^ 12"
  shows "bit (rx_seq_ctrl a) n \<longleftrightarrow> (if n < 4 then bit (at_frag_num a) n else bit (at_seq_num a) (n - 4))"
proof -
  have "(0xffff :: u16) = - 1" by simp
  then have m0: "at_seq_num a AND 0xffff = at_seq_num a" by (simp only: and.right_neutral)
  have m: "(ucast (at_frag_num a) :: u16) AND 0xf = take_bit 4 (ucast (at_frag_num a))"
    by (simp_all add: take_bit_eq_mask mask_eq_exp_minus_1)
  show ?thesis
    using bit_below [OF assms, of "n - 4"] by (auto simp: rx_seq_ctrl_def m m0 bit_simps)
qed

lemma rx_seq_ctrl_eq:
  assumes "unat (at_seq_num a) < 2 ^ 12" and "unat (at_seq_num b) < 2 ^ 12" and "unat (at_frag_num a) < 2 ^ 4" and "unat (at_frag_num b) < 2 ^ 4"
  shows "rx_seq_ctrl a = rx_seq_ctrl b \<longleftrightarrow> at_seq_num a = at_seq_num b \<and> at_frag_num a = at_frag_num b"
proof (rule iffI)
  assume e: "rx_seq_ctrl a = rx_seq_ctrl b"
  have "bit (at_frag_num a) n = bit (at_frag_num b) n" for n
    using bit_rx_seq_ctrl [OF assms(1), of n] bit_rx_seq_ctrl [OF assms(2), of n] e
      bit_below [OF assms(3), of n] bit_below [OF assms(4), of n] by (cases "n < 4") auto
  moreover have "bit (at_seq_num a) n = bit (at_seq_num b) n" for n
    using bit_rx_seq_ctrl [OF assms(1), of "n + 4"] bit_rx_seq_ctrl [OF assms(2), of "n + 4"] e by simp
  ultimately show "at_seq_num a = at_seq_num b \<and> at_frag_num a = at_frag_num b" by (simp add: bit_eq_iff)
qed (simp add: rx_seq_ctrl_def)

text \<open>After a frame passed, a frame of the same traffic class is refused if and only if it has the
  same sequence and fragment number, and frames of other classes are not affected by it.\<close>

lemma recv_decache_refuses_duplicate:
  assumes "recv_decache a c dup = (Success, c', dup')" and "length (tid_rxseq c) = 16" and "at_priority b \<le> 15"
    and "unat (at_seq_num a) < 2 ^ 12" and "unat (at_seq_num b) < 2 ^ 12" and "unat (at_frag_num a) < 2 ^ 4" and "unat (at_frag_num b) < 2 ^ 4"
  shows "fst (recv_decache b c' dup') =
    (if at_priority b = at_priority a
     then (if at_seq_num b = at_seq_num a \<and> at_frag_num b = at_frag_num a then Fail else Success)
     else fst (recv_decache b c dup))"
proof -
  have pa: "unat (at_priority a) \<le> 15" and c': "c' = c\<lparr>tid_rxseq := (tid_rxseq c)[unat (at_priority a) := rx_seq_ctrl a]\<rparr>"
    using assms(1) by (auto simp: recv_decache_def Let_def split: if_splits)
  have pb: "unat (at_priority b) \<le> 15" using assms(3) by (simp add: word_le_nat_alt)
  have d: "fst (recv_decache b x n) = (if rx_seq_ctrl b = tid_rxseq x ! unat (at_priority b) then Fail else Success)" for x n
    using pb by (simp add: recv_decache_def Let_def)
  show ?thesis
  proof (cases "at_priority b = at_priority a")
    case True
    then have "tid_rxseq c' ! unat (at_priority b) = rx_seq_ctrl a" using pa assms(2) by (simp add: c')
    then show ?thesis using True rx_seq_ctrl_eq [OF assms(5,4,7,6)] by (simp add: d)
  next
    case False
    then have "unat (at_priority b) \<noteq> unat (at_priority a)" by (metis unsigned_word_eqI)
    then have "tid_rxseq c' ! unat (at_priority b) = tid_rxseq c ! unat (at_priority b)" by (simp add: c')
    then show ?thesis using False by (simp add: d)
  qed
qed

lemma recv_decache_refuses_duplicate_witness:
  "fst (recv_decache demo_attr \<lparr>tid_rxseq = (replicate 16 0)[0 := rx_seq_ctrl demo_attr], rxc_iv = [], last_tid = 0\<rparr> 0) = Fail"
proof -
  let ?c = "\<lparr>tid_rxseq = replicate 16 0, rxc_iv = [], last_tid = 0\<rparr>"
  have "rx_seq_ctrl demo_attr \<noteq> 0" by (simp add: rx_seq_ctrl_def demo_attr_def)
  then have r: "recv_decache demo_attr ?c 0 = (Success, ?c\<lparr>tid_rxseq := (replicate 16 0)[0 := rx_seq_ctrl demo_attr]\<rparr>, 0)"
    by (simp add: recv_decache_def Let_def demo_attr_def)
  show ?thesis using recv_decache_refuses_duplicate [OF r, of demo_attr] by (simp add: demo_attr_def)
qed

section \<open>Packet numbers\<close>

definition CCMPH_2_PN :: "u64 \<Rightarrow> u64" where
  "CCMPH_2_PN ch = (ch AND 0x000000000000ffff) OR drop_bit 16 (ch AND 0xffffffff00000000)"

definition CCMPH_2_KEYID :: "u64 \<Rightarrow> u64" where
  "CCMPH_2_KEYID ch = drop_bit 30 (ch AND 0x00000000c0000000)"

definition PN_LESS_CHK :: "u64 \<Rightarrow> u64 \<Rightarrow> bool" where
  "PN_LESS_CHK a b \<longleftrightarrow> (a - b) AND 0x800000000000 \<noteq> 0"

definition VALID_PN_CHK :: "u64 \<Rightarrow> u64 \<Rightarrow> bool" where
  "VALID_PN_CHK new old \<longleftrightarrow> old = 0 \<or> PN_LESS_CHK old new"

definition le64 :: "bytes \<Rightarrow> u64" where
  "le64 b = foldr (\<lambda>x v. push_bit 8 v OR ucast x) b 0"

definition le64_bytes :: "u64 \<Rightarrow> bytes" where
  "le64_bytes v = map (\<lambda>i. ucast (drop_bit (8 * i) v)) [0..<8]"

text \<open>\<open>None\<close>: the eight bytes behind the header are not all in the buffer.\<close>

definition recv_ucast_pn_decache :: "recv_hdr \<Rightarrow> stainfo_rxcache \<Rightarrow> (result \<times> stainfo_rxcache) option" where
  "recv_ucast_pn_decache f c =
     (let a = rf_attr f; tid = unat (at_priority a) in
      if 15 < tid then Some (Fail, c)
      else if at_encrypt a \<noteq> AES then Some (Success, c)
      else do {
        iv \<leftarrow> rdi (rf_buf f) (rf_data f + uint (at_hdrlen a)) 8;
        let pkt_pn = CCMPH_2_PN (le64 iv);
        let curr_pn = CCMPH_2_PN (le64 (rxc_iv c ! tid));
        let c = (if \<not> VALID_PN_CHK pkt_pn curr_pn then c else c);
        Some (Success, c\<lparr>last_tid := of_nat tid, rxc_iv := (rxc_iv c)[tid := iv]\<rparr>)
      })"

text \<open>\<open>station\<close>: the driver is a station; the second component is \<open>psecuritypriv->iv_seq\<close>.\<close>

definition recv_bcast_pn_decache :: "bool \<Rightarrow> recv_hdr \<Rightarrow> bytes list \<Rightarrow> (result \<times> bytes list) option" where
  "recv_bcast_pn_decache station f iv_seq =
     (let a = rf_attr f in
      if at_encrypt a \<noteq> AES then Some (Success, iv_seq)
      else if \<not> station then Some (Success, iv_seq)
      else do {
        iv \<leftarrow> rdi (rf_buf f) (rf_data f + uint (at_hdrlen a)) 8;
        let key_id = unat (CCMPH_2_KEYID (le64 iv));
        let pkt_pn = CCMPH_2_PN (le64 iv);
        let curr_pn = le64 (iv_seq ! key_id) AND 0x0000ffffffffffff;
        Some (if \<not> VALID_PN_CHK pkt_pn curr_pn then (Fail, iv_seq)
              else (Success, iv_seq[key_id := le64_bytes pkt_pn]))
      })"

lemma bit_le64: "length b \<le> 8 \<Longrightarrow> bit (le64 b) n \<longleftrightarrow> n div 8 < length b \<and> bit (b ! (n div 8)) (n mod 8)"
proof (induction b arbitrary: n)
  case (Cons x b)
  show ?case
  proof (cases "n < 8")
    case True
    then show ?thesis by (simp add: le64_def bit_simps)
  next
    case False
    then have q: "n div 8 = Suc ((n - 8) div 8)" "n mod 8 = (n - 8) mod 8" by (simp_all add: le_div_geq le_mod_geq)
    have "bit (le64 (x # b)) n \<longleftrightarrow> n < 64 \<and> bit (le64 b) (n - 8)"
      using False by (auto simp: le64_def bit_simps dest: bit_imp_le_length)
    moreover have "bit (le64 b) (n - 8) \<Longrightarrow> n < 64" using Cons by auto
    ultimately show ?thesis using Cons by (auto simp: q)
  qed
qed (simp add: le64_def)

lemma le64_le64_bytes [simp]: "le64 (le64_bytes v) = v"
proof (rule bit_word_eqI)
  fix n assume "n < LENGTH(64)"
  then have "n div 8 < 8" by simp
  then show "bit (le64 (le64_bytes v)) n = bit v n"
    by (subst bit_le64) (auto simp: le64_bytes_def bit_simps)
qed

text \<open>A 48-bit number below \<open>2 ^ 47\<close> compares as it should, unless the stored one is zero.\<close>

lemma PN_LESS_CHK_iff:
  assumes "unat a < 2 ^ 47" and "unat b < 2 ^ 47"
  shows "PN_LESS_CHK a b \<longleftrightarrow> a < b"
proof -
  have m: "(0x800000000000 :: u64) = 2 ^ 47" by simp
  have c: "PN_LESS_CHK a b \<longleftrightarrow> bit (a - b) 47"
    by (simp only: PN_LESS_CHK_def m and_exp_eq_0_iff_not_bit not_not)
  show ?thesis
  proof (cases "a < b")
    case True
    then have "unat (a - b) = 2 ^ 64 - (unat b - unat a)"
      by (subst unat_sub_if') (simp add: word_less_nat_alt)
    moreover have "0 < unat b - unat a" "unat b - unat a < 2 ^ 47" using True assms by (simp_all add: word_less_nat_alt)
    ultimately have "unat (a - b) div 2 ^ 47 = 2 ^ 17 - 1" by simp
    then have "bit (unat (a - b)) 47" by (simp add: bit_iff_odd)
    then show ?thesis using True c by (simp add: bit_unsigned_iff)
  next
    case False
    then have "unat (a - b) = unat a - unat b" by (subst unat_sub_if') (simp add: word_le_nat_alt word_less_nat_alt)
    then have "unat (a - b) < 2 ^ 47" using assms(1) by simp
    then have "\<not> bit (a - b) 47" using bit_below [of "a - b" 47 47] by auto
    then show ?thesis using False c by simp
  qed
qed

lemma CCMPH_2_PN_48: "CCMPH_2_PN ch AND 0x0000ffffffffffff = CCMPH_2_PN ch"
proof (rule bit_word_eqI)
  fix n assume "n < LENGTH(64)"
  have m: "(0x0000ffffffffffff :: u64) = mask 48" "(0x000000000000ffff :: u64) = mask 16" by (simp_all add: mask_eq_exp_minus_1)
  show "bit (CCMPH_2_PN ch AND 0x0000ffffffffffff) n = bit (CCMPH_2_PN ch) n"
    by (auto simp: CCMPH_2_PN_def m bit_simps dest: bit_imp_le_length)
qed

lemma VALID_PN_CHK_iff:
  "unat new < 2 ^ 47 \<Longrightarrow> unat old < 2 ^ 47 \<Longrightarrow> VALID_PN_CHK new old \<longleftrightarrow> old = 0 \<or> old < new"
  by (simp add: VALID_PN_CHK_def PN_LESS_CHK_iff)

section \<open>Replays\<close>

definition frame_iv :: "recv_hdr \<Rightarrow> u64" where
  "frame_iv f = le64 (seg (rf_buf f) (nat (rf_data f) + unat (at_hdrlen (rf_attr f))) 8)"

definition has_iv :: "recv_hdr \<Rightarrow> bool" where
  "has_iv f \<longleftrightarrow> 0 \<le> rf_data f \<and> nat (rf_data f) + unat (at_hdrlen (rf_attr f)) + 8 \<le> length (rf_buf f)"

lemma rdi_int: "m + n \<le> length buf \<Longrightarrow> rdi buf (int m) n = Some (seg buf m n)"
  by (simp add: rdi_def)

lemma has_iv_rdi:
  "has_iv f \<Longrightarrow> rdi (rf_buf f) (rf_data f + uint (at_hdrlen (rf_attr f))) 8 =
     Some (seg (rf_buf f) (nat (rf_data f) + unat (at_hdrlen (rf_attr f))) 8)"
proof -
  assume h: "has_iv f"
  then have e: "rf_data f + uint (at_hdrlen (rf_attr f)) = int (nat (rf_data f) + unat (at_hdrlen (rf_attr f)))"
    by (simp add: has_iv_def)
  show ?thesis unfolding e using h by (intro rdi_int) (simp add: has_iv_def)
qed

text \<open>The packet numbers accepted for group key \<open>k\<close> among a sequence of received frames.\<close>

fun bcast_accepted :: "nat \<Rightarrow> recv_hdr list \<Rightarrow> bytes list \<Rightarrow> u64 list" where
  "bcast_accepted k [] iv_seq = []"
| "bcast_accepted k (f # fs) iv_seq =
     (case recv_bcast_pn_decache True f iv_seq of
        None \<Rightarrow> bcast_accepted k fs iv_seq
      | Some (Fail, iv_seq) \<Rightarrow> bcast_accepted k fs iv_seq
      | Some (Success, iv_seq) \<Rightarrow>
          (if unat (CCMPH_2_KEYID (frame_iv f)) = k then [CCMPH_2_PN (frame_iv f)] else [])
          @ bcast_accepted k fs iv_seq)"

lemma bcast_step:
  assumes "has_iv f" and "at_encrypt (rf_attr f) = AES"
  shows "recv_bcast_pn_decache True f iv_seq =
    (let k = unat (CCMPH_2_KEYID (frame_iv f)); pn = CCMPH_2_PN (frame_iv f) in
     Some (if VALID_PN_CHK pn (le64 (iv_seq ! k) AND 0x0000ffffffffffff)
           then (Success, iv_seq[k := le64_bytes pn]) else (Fail, iv_seq)))"
  using assms by (simp add: recv_bcast_pn_decache_def has_iv_rdi frame_iv_def Let_def)

text \<open>C10: The group-addressed frames a station accepts under one key have strictly increasing packet
  numbers, all above the stored one: no frame is accepted twice and none out of order, as long as
  the stored number is not zero and all numbers are below \<open>2 ^ 47\<close>.\<close>

theorem bcast_pn_increasing:
  assumes "\<forall>f \<in> set fs. has_iv f \<and> at_encrypt (rf_attr f) = AES \<and> unat (CCMPH_2_PN (frame_iv f)) < 2 ^ 47"
    and "k < length iv_seq" and "le64 (iv_seq ! k) AND 0x0000ffffffffffff = p" and "p \<noteq> 0" and "unat p < 2 ^ 47"
  shows "sorted_wrt (<) (p # bcast_accepted k fs iv_seq)"
  using assms
proof (induction fs arbitrary: iv_seq p)
  case (Cons f fs)
  let ?k = "unat (CCMPH_2_KEYID (frame_iv f))" and ?pn = "CCMPH_2_PN (frame_iv f)"
  have step: "recv_bcast_pn_decache True f iv_seq =
     Some (if VALID_PN_CHK ?pn (le64 (iv_seq ! ?k) AND 0x0000ffffffffffff)
           then (Success, iv_seq[?k := le64_bytes ?pn]) else (Fail, iv_seq))"
    using bcast_step [of f iv_seq] Cons.prems(1) by (simp add: Let_def)
  show ?case
  proof (cases "VALID_PN_CHK ?pn (le64 (iv_seq ! ?k) AND 0x0000ffffffffffff)")
    case False
    then show ?thesis using Cons by (simp add: step)
  next
    case True
    show ?thesis
    proof (cases "?k = k")
      case ke: True
      have lt: "p < ?pn" and pn: "unat ?pn < 2 ^ 47"
        using True VALID_PN_CHK_iff [of ?pn p] Cons.prems ke by auto
      have "sorted_wrt (<) (?pn # bcast_accepted k fs (iv_seq[k := le64_bytes ?pn]))"
        using Cons.prems lt pn by (intro Cons.IH) (auto simp: CCMPH_2_PN_48)
      then show ?thesis using lt True ke by (auto simp: step)
    next
      case False
      have "sorted_wrt (<) (p # bcast_accepted k fs (iv_seq[?k := le64_bytes ?pn]))"
        using Cons.prems False by (intro Cons.IH) auto
      then show ?thesis using True False by (simp add: step)
    qed
  qed
qed simp

text \<open>The check of unicast frames refuses nothing: a frame with a packet number that was received
  before, or an older one, is accepted like any other (the return of the failure is commented out).\<close>

lemma ucast_pn_accepts_replays:
  assumes "has_iv f" and "at_encrypt (rf_attr f) = AES" and "at_priority (rf_attr f) \<le> 15"
  shows "\<exists>c'. recv_ucast_pn_decache f c = Some (Success, c') \<and> (\<exists>c''. recv_ucast_pn_decache f c' = Some (Success, c''))"
  using assms by (simp add: recv_ucast_pn_decache_def has_iv_rdi Let_def word_le_nat_alt)

definition demo_ccmp :: "u8 \<Rightarrow> recv_hdr" where
  "demo_ccmp n = \<lparr>rf_id = 1, rf_attr = demo_attr\<lparr>at_encrypt := AES\<rparr>, rf_len = 32,
     rf_buf = replicate 24 9 @ [n, 0, 0, 0x60, 0, 0, 0, 0], rf_data = 0, rf_tail = 32\<rparr>"

lemma demo_ccmp_iv: "has_iv (demo_ccmp n) \<and> frame_iv (demo_ccmp n) = push_bit 24 0x60 OR ucast n"
  by (simp add: demo_ccmp_def has_iv_def frame_iv_def demo_attr_def seg_def le64_def)

theorem bcast_pn_increasing_witness:
  "sorted_wrt (<) (3 # bcast_accepted 1 [demo_ccmp 5, demo_ccmp 5, demo_ccmp 4, demo_ccmp 7] (replicate 4 (le64_bytes 3)))"
proof -
  have e: "has_iv (demo_ccmp n) \<and> at_encrypt (rf_attr (demo_ccmp n)) = AES" for n
    using demo_ccmp_iv by (simp add: demo_ccmp_def)
  have pn: "CCMPH_2_PN (frame_iv (demo_ccmp 5)) = 5" "CCMPH_2_PN (frame_iv (demo_ccmp 4)) = 4"
    "CCMPH_2_PN (frame_iv (demo_ccmp 7)) = 7"
    by (simp_all add: demo_ccmp_iv CCMPH_2_PN_def)
  show ?thesis using e pn by (intro bcast_pn_increasing) auto
qed

lemma ucast_pn_accepts_replays_witness:
  "\<exists>c'. recv_ucast_pn_decache (demo_ccmp 5) \<lparr>tid_rxseq = [], rxc_iv = replicate 16 (replicate 8 0xff), last_tid = 0\<rparr> = Some (Success, c')"
  using ucast_pn_accepts_replays [of "demo_ccmp 5"] demo_ccmp_iv by (auto simp: demo_ccmp_def demo_attr_def)

end
