(* ===== verification/Reorder.thy ===== *)
theory Reorder
  imports RecvBuf "HOL-Library.Multiset"
begin

unbundle bit_operations_syntax

text \<open>
  The receive reordering of \<open>core/rtw_recv.c\<close>: \<open>check_indicate_seq\<close>, \<open>enqueue_reorder_recvframe\<close>,
  \<open>recv_indicatepkts_in_order\<close>, \<open>recv_indicatepkt_reorder\<close>, the timeout handler and
  \<open>process_recv_indicatepkts\<close>. The frames of a block acknowledgement session carry 12-bit
  sequence numbers; the code keeps a window of \<open>wsize_b\<close> numbers from \<open>indicate_seq\<close> on and a queue
  of the frames that wait for an earlier one. The theory relates it to an abstract receiver whose
  sequence numbers are unbounded integers.
\<close>

section \<open>The code\<close>

definition SN_LESS :: "u16 \<Rightarrow> u16 \<Rightarrow> bool" where
  "SN_LESS a b \<longleftrightarrow> (a - b) AND 0x800 \<noteq> 0"

definition SN_EQUAL :: "u16 \<Rightarrow> u16 \<Rightarrow> bool" where
  "SN_EQUAL a b \<longleftrightarrow> a = b"

text \<open>\<open>reorder_timer\<close>: the timer is pending. The counters belong to \<open>struct recv_priv\<close>.\<close>

record recv_reorder_ctrl =
  ro_enable :: bool
  indicate_seq :: u16
  wsize_b :: u8
  pending :: "recv_hdr list"
  reorder_timer :: bool
  bReorderWaiting :: bool
  ampdu_drop_count :: u64
  ampdu_forced_indicate_count :: u64
  ampdu_loss_count :: u64
  ampdu_window_shift_cnt :: u64
  ro_rx_drop :: u64

text \<open>
  What happens to a frame: it is indicated, given to \<open>amsdu_to_msdu\<close>, or taken off the queue and
  neither indicated nor freed.
\<close>

datatype rx_out = Indicate recv_hdr | Deaggregate recv_hdr | Leaked recv_hdr

abbreviation seq_of :: "recv_hdr \<Rightarrow> u16" where
  "seq_of f \<equiv> at_seq_num (rf_attr f)"

definition check_indicate_seq :: "recv_reorder_ctrl \<Rightarrow> u16 \<Rightarrow> bool \<times> recv_reorder_ctrl" where
  "check_indicate_seq c seq_num =
     (let wsize = (ucast (wsize_b c) :: u16);
          wend = (indicate_seq c + wsize - 1) AND 0xFFF;
          c = (if indicate_seq c = 0xFFFF then c\<lparr>indicate_seq := seq_num\<rparr> else c)
      in if SN_LESS seq_num (indicate_seq c) then (False, c)
         else if SN_EQUAL seq_num (indicate_seq c) then
           (True, c\<lparr>indicate_seq := (indicate_seq c + 1) AND 0xFFF\<rparr>)
         else if SN_LESS wend seq_num then
           (True, c\<lparr>indicate_seq := (if uint (wsize_b c) - 1 \<le> uint seq_num then seq_num + 1 - wsize
                                     else 0xFFF - (wsize - (seq_num + 1)) + 1),
                    ampdu_window_shift_cnt := ampdu_window_shift_cnt c + 1\<rparr>)
         else (True, c))"

text \<open>The queue with the frame inserted, or \<open>None\<close> if its number is there already.\<close>

fun enqueue_reorder_recvframe :: "recv_hdr list \<Rightarrow> recv_hdr \<Rightarrow> recv_hdr list option" where
  "enqueue_reorder_recvframe [] f = Some [f]"
| "enqueue_reorder_recvframe (n # ns) f =
     (if SN_LESS (seq_of n) (seq_of f) then map_option ((#) n) (enqueue_reorder_recvframe ns f)
      else if SN_EQUAL (seq_of n) (seq_of f) then None
      else Some (f # n # ns))"

text \<open>\<open>run\<close>: the driver has not been stopped (\<open>RTW_CANNOT_RUN\<close> is false).\<close>

definition indicate_out :: "bool \<Rightarrow> recv_hdr \<Rightarrow> rx_out" where
  "indicate_out run f =
     (if at_amsdu (rf_attr f) = 0 then (if run then Indicate f else Leaked f)
      else if at_amsdu (rf_attr f) = 1 then Deaggregate f else Leaked f)"

fun indicate_loop :: "bool \<Rightarrow> u16 \<Rightarrow> recv_hdr list \<Rightarrow> u16 \<times> recv_hdr list \<times> rx_out list" where
  "indicate_loop run ind [] = (ind, [], [])"
| "indicate_loop run ind (f # fs) =
     (if \<not> SN_LESS ind (seq_of f) then
        (let ind = (if SN_EQUAL ind (seq_of f) then (ind + 1) AND 0xFFF else ind);
             (i, p, o') = indicate_loop run ind fs
         in (i, p, indicate_out run f # o'))
      else (ind, f # fs, []))"

definition recv_indicatepkts_pkt_loss_cnt :: "recv_reorder_ctrl \<Rightarrow> u64 \<Rightarrow> u64 \<Rightarrow> recv_reorder_ctrl" where
  "recv_indicatepkts_pkt_loss_cnt c prev_seq current_seq =
     (let d = (if current_seq < prev_seq then 4096 + current_seq - prev_seq else current_seq - prev_seq)
      in c\<lparr>ampdu_loss_count := ampdu_loss_count c + d, ro_rx_drop := ro_rx_drop c + d\<rparr>)"

definition recv_indicatepkts_in_order ::
  "bool \<Rightarrow> recv_reorder_ctrl \<Rightarrow> bool \<Rightarrow> bool \<times> recv_reorder_ctrl \<times> rx_out list" where
  "recv_indicatepkts_in_order run c bforced =
     (let c = (if bforced then c\<lparr>ampdu_forced_indicate_count := ampdu_forced_indicate_count c + 1\<rparr> else c) in
      if bforced \<and> pending c = [] then (True, c, [])
      else
        (let c = (if bforced
                  then (recv_indicatepkts_pkt_loss_cnt c (ucast (indicate_seq c)) (ucast (seq_of (hd (pending c)))))
                         \<lparr>indicate_seq := seq_of (hd (pending c))\<rparr>
                  else c);
             (i, p, outs) = indicate_loop run (indicate_seq c) (pending c)
         in (p \<noteq> [], c\<lparr>indicate_seq := i, pending := p\<rparr>, outs)))"

text \<open>From the update of the window on, under the lock of the queue.\<close>

definition reorder_locked ::
  "bool \<Rightarrow> recv_reorder_ctrl \<Rightarrow> recv_hdr \<Rightarrow> result \<times> recv_reorder_ctrl \<times> rx_out list" where
  "reorder_locked run c f =
     (let (ok, c) = check_indicate_seq c (seq_of f) in
      if \<not> ok then (Fail, c\<lparr>ampdu_drop_count := ampdu_drop_count c + 1\<rparr>, [])
      else (case enqueue_reorder_recvframe (pending c) f of
              None \<Rightarrow> (Fail, c, [])
            | Some q \<Rightarrow>
                (let (inbuf, c, outs) = recv_indicatepkts_in_order run (c\<lparr>pending := q\<rparr>) False
                 in if inbuf
                    then (Success, (if \<not> bReorderWaiting c then c\<lparr>bReorderWaiting := True, reorder_timer := True\<rparr> else c), outs)
                    else (Success, c\<lparr>bReorderWaiting := False, reorder_timer := False\<rparr>, outs))))"

definition recv_indicatepkt_reorder ::
  "bool \<Rightarrow> bool \<Rightarrow> recv_reorder_ctrl \<Rightarrow> recv_hdr \<Rightarrow> (result \<times> recv_reorder_ctrl \<times> rx_out list) option" where
  "recv_indicatepkt_reorder run mp c f =
     (if at_amsdu (rf_attr f) = 0 then
        (case wlanhdr_to_ethhdr mp f of
           None \<Rightarrow> None
         | Some (Fail, f) \<Rightarrow> Some (Fail, c, [])
         | Some (Success, f) \<Rightarrow>
             if at_qos (rf_attr f) \<noteq> 1 then
               (if run then Some (Success, c, [Indicate f]) else Some (Fail, c, []))
             else if \<not> ro_enable c then
               Some (Success, c\<lparr>indicate_seq := (seq_of f + 1) AND 0xFFF\<rparr>, [Indicate f])
             else Some (reorder_locked run c f))
      else if at_amsdu (rf_attr f) = 1 \<and> \<not> ro_enable c then
        Some (Success, c\<lparr>indicate_seq := (seq_of f + 1) AND 0xFFF\<rparr>, [Deaggregate f])
      else Some (reorder_locked run c f))"

definition rtw_reordering_ctrl_timeout_handler ::
  "bool \<Rightarrow> recv_reorder_ctrl \<Rightarrow> recv_reorder_ctrl \<times> rx_out list" where
  "rtw_reordering_ctrl_timeout_handler run c =
     (let c = c\<lparr>reorder_timer := False\<rparr> in
      if \<not> run then (c, [])
      else
        (let (inbuf, c, outs) = recv_indicatepkts_in_order run (c\<lparr>bReorderWaiting := False\<rparr>) True
         in ((if inbuf then c\<lparr>reorder_timer := True\<rparr> else c), outs)))"

definition process_recv_indicatepkts ::
  "bool \<Rightarrow> bool \<Rightarrow> bool \<Rightarrow> recv_reorder_ctrl \<Rightarrow> recv_hdr \<Rightarrow> (result \<times> recv_reorder_ctrl \<times> rx_out list) option" where
  "process_recv_indicatepkts ht_option run mp c f =
     (if ht_option then
        (case recv_indicatepkt_reorder run mp c f of
           None \<Rightarrow> None
         | Some (Success, r) \<Rightarrow> Some (Success, r)
         | Some (Fail, r) \<Rightarrow> Some (if run then Fail else Success, r))
      else
        (case wlanhdr_to_ethhdr mp f of
           None \<Rightarrow> None
         | Some (Fail, f) \<Rightarrow> Some (Fail, c, [])
         | Some (Success, f) \<Rightarrow> if run then Some (Success, c, [Indicate f]) else Some (Fail, c, [])))"

section \<open>Sequence numbers\<close>

text \<open>The 12-bit number that stands for an integer.\<close>

definition sn12 :: "int \<Rightarrow> u16" where
  "sn12 x = word_of_int (x mod 4096)"

lemma uint_sn12 [simp]: "uint (sn12 x) = x mod 4096"
  by (simp add: sn12_def uint_word_of_int_eq take_bit_int_eq_self_iff) 

lemma sn12_eq_iff: "\<bar>a - b\<bar> < 4096 \<Longrightarrow> sn12 a = sn12 b \<longleftrightarrow> a = b"
proof -
  assume d: "\<bar>a - b\<bar> < 4096"
  have "a = b" if "sn12 a = sn12 b"
  proof -
    have "a mod 4096 = b mod 4096" using arg_cong [OF that, of uint] by simp
    then obtain k where k: "a - b = 4096 * k" by (auto simp: mod_eq_dvd_iff elim: dvdE)
    then have "k = 0" using d by linarith
    then show ?thesis using k by simp
  qed
  then show ?thesis by blast
qed

lemma SN_LESS_sn12:
  assumes "- 2048 \<le> a - b" and "a - b < 2048"
  shows "SN_LESS (sn12 a) (sn12 b) \<longleftrightarrow> a < b"
proof -
  define k where "k = a mod 4096 - b mod 4096"
  have w: "sn12 a - sn12 b = word_of_int k" by (simp add: sn12_def k_def)
  have m: "(0x800 :: u16) = 2 ^ 11" by simp
  have "SN_LESS (sn12 a) (sn12 b) \<longleftrightarrow> bit (word_of_int k :: u16) 11"
    by (simp only: SN_LESS_def m and_exp_eq_0_iff_not_bit not_not w)
  also have "\<dots> \<longleftrightarrow> odd (k div 2048)" by (simp add: bit_word_of_int_iff bit_iff_odd [of k])
  also have "\<dots> \<longleftrightarrow> a < b"
  proof -
    define q r where "q = k div 2048 mod 2" and "r = k mod 2048"
    have "k mod 4096 = (a - b) mod 4096" by (simp add: k_def mod_simps)
    moreover have "k mod 4096 = 2048 * q + r"
      using zmod_zmult2_eq [of 2 k 2048] by (simp add: q_def r_def)
    moreover have "(a - b) mod 4096 = (if a < b then a - b + 4096 else a - b)"
    proof (cases "a < b")
      case True
      then have "(a - b + 4096) mod 4096 = a - b + 4096" using assms by (intro mod_pos_pos_trivial) linarith+
      then show ?thesis using True by simp
    qed (use assms in simp)
    moreover have "0 \<le> r" "r < 2048" by (simp_all add: r_def)
    moreover have "q = 0 \<or> q = 1" unfolding q_def by linarith
    ultimately have "q = 1 \<longleftrightarrow> a < b" using assms by (auto split: if_splits)
    then show ?thesis by (simp add: q_def odd_iff_mod_2_eq_one)
  qed
  finally show ?thesis .
qed

lemma sn12_add: "(sn12 a + word_of_int k) AND 0xFFF = sn12 (a + k)"
proof (rule word_uint_eqI)
  have m: "(0xFFF :: u16) = mask 12" "(0xFFF :: int) = mask 12" by (simp_all add: mask_eq_exp_minus_1)
  have "uint ((sn12 a + word_of_int k) AND 0xFFF) = (uint (sn12 a + word_of_int k)) mod 4096"
    by (simp add: m(1) uint_and take_bit_eq_mask [symmetric] take_bit_eq_mod unsigned_take_bit_eq uint_mod_distrib)
  also have "uint (sn12 a + word_of_int k) = (a mod 4096 + k) mod 65536"
    by (simp only: sn12_def wi_hom_add uint_word_of_int_eq take_bit_eq_mod) simp
  also have "(a mod 4096 + k) mod 65536 mod 4096 = (a + k) mod 4096" by (simp add: mod_mod_cancel mod_simps)
  finally show "uint ((sn12 a + word_of_int k) AND 0xFFF) = uint (sn12 (a + k))" by simp
qed

text \<open>The window moved so that it ends at \<open>v\<close>.\<close>

lemma sn12_shift:
  assumes "w = uint (ws :: u8)" and "0 < w"
  shows "(if w - 1 \<le> uint (sn12 v) then sn12 v + 1 - ucast ws else 0xFFF - (ucast ws - (sn12 v + 1)) + 1) = sn12 (v + 1 - w)"
proof -
  have w: "w < 256" using assms(1) by (simp add: unsigned_less [of ws, simplified])
  have u: "(ucast ws :: u16) = word_of_int w" by (simp add: assms(1))
  let ?s = "v mod 4096"
  have s: "0 \<le> ?s" "?s < 4096" by simp_all
  show ?thesis
  proof (cases "w - 1 \<le> ?s")
    case True
    have "sn12 v + 1 - ucast ws = word_of_int (?s + 1 - w)" by (simp add: sn12_def u)
    moreover have "(v + 1 - w) mod 4096 = ?s + 1 - w"
    proof -
      have "v + 1 - w = (?s + 1 - w) + 4096 * (v div 4096)" using mult_div_mod_eq [of 4096 v] by linarith
      then have "(v + 1 - w) mod 4096 = (?s + 1 - w) mod 4096" by (simp only: mod_mult_self2)
      also have "\<dots> = ?s + 1 - w" using True w assms(2) s by (intro mod_pos_pos_trivial) linarith+
      finally show ?thesis .
    qed
    moreover have c: "w - 1 \<le> uint (sn12 v)" using True by simp
    ultimately show ?thesis unfolding if_P [OF c] by (simp only: sn12_def [of "v + 1 - w"])
  next
    case False
    have "0xFFF - (ucast ws - (sn12 v + 1)) + 1 = (word_of_int (0xFFF - (w - (?s + 1)) + 1) :: u16)" by (simp add: sn12_def u)
    moreover have "(v + 1 - w) mod 4096 = 0xFFF - (w - (?s + 1)) + 1"
    proof -
      have "v + 1 - w = (4096 + ?s + 1 - w) + 4096 * (v div 4096 - 1)" using mult_div_mod_eq [of 4096 v] by (simp add: algebra_simps)
      then have "(v + 1 - w) mod 4096 = (4096 + ?s + 1 - w) mod 4096" by (simp only: mod_mult_self2)
      also have "\<dots> = 4096 + ?s + 1 - w" using False w assms(2) s by (intro mod_pos_pos_trivial) linarith+
      finally show ?thesis by simp
    qed
    moreover have c: "\<not> w - 1 \<le> uint (sn12 v)" using False by simp
    ultimately show ?thesis unfolding if_not_P [OF c] by (simp only: sn12_def [of "v + 1 - w"])
  qed
qed

section \<open>The abstract receiver\<close>

text \<open>
  Sequence numbers are integers. \<open>next\<close> is the first number that was neither delivered nor given
  up (\<open>None\<close> before the first frame), \<open>buf\<close> the frames that wait, in order.
\<close>

type_synonym spec = "int option \<times> (int \<times> recv_hdr) list"

text \<open>Deliver what is not above \<open>n\<close>.\<close>

fun spec_release :: "int \<Rightarrow> (int \<times> recv_hdr) list \<Rightarrow> int \<times> (int \<times> recv_hdr) list \<times> (int \<times> recv_hdr) list" where
  "spec_release n [] = (n, [], [])"
| "spec_release n ((v, f) # b) =
     (if v \<le> n then (let (n', b', out) = spec_release (if v = n then n + 1 else n) b in (n', b', (v, f) # out))
      else (n, (v, f) # b, []))"

text \<open>The outcome says whether the frame was taken.\<close>

fun spec_receive :: "int \<Rightarrow> int \<Rightarrow> recv_hdr \<Rightarrow> spec \<Rightarrow> bool \<times> spec \<times> (int \<times> recv_hdr) list" where
  "spec_receive w v f (nx, b) =
     (let n = (case nx of None \<Rightarrow> v | Some n \<Rightarrow> n) in
      if v < n \<or> v \<in> fst ` set b then (False, (Some n, b), [])
      else (let n' = (if v = n then n + 1 else if n + w \<le> v then v + 1 - w else n);
                (n'', b', out) = spec_release n' (insort_key fst (v, f) b)
            in (True, (Some n'', b'), out)))"

fun spec_timeout :: "spec \<Rightarrow> spec \<times> (int \<times> recv_hdr) list" where
  "spec_timeout (nx, []) = ((nx, []), [])"
| "spec_timeout (nx, (v, f) # b) = (let (n', b', out) = spec_release v ((v, f) # b) in ((Some n', b'), out))"

text \<open>What waits is in order, above \<open>next\<close> and within the window.\<close>

fun spec_inv :: "int \<Rightarrow> spec \<Rightarrow> bool" where
  "spec_inv w (None, b) \<longleftrightarrow> b = []"
| "spec_inv w (Some n, b) \<longleftrightarrow> sorted_wrt (<) (map fst b) \<and> (\<forall>v \<in> fst ` set b. n < v \<and> v < n + w)"

lemma spec_release_all:
  assumes "spec_release n b = (n', b', out)" and "sorted_wrt (<) (map fst b)"
  shows "b = out @ b' \<and> n \<le> n' \<and> (\<forall>v \<in> fst ` set out. v < n') \<and> (\<forall>v \<in> fst ` set b'. n' < v) \<and>
    (\<forall>m. (\<forall>v \<in> fst ` set b. v < m) \<and> n < m \<longrightarrow> n' \<le> m)"
  using assms
proof (induction n b arbitrary: n' b' out rule: spec_release.induct)
  case (2 n v f b)
  show ?case
  proof (cases "v \<le> n")
    case True
    let ?n = "if v = n then n + 1 else n"
    obtain n1 b1 o1 where r: "spec_release ?n b = (n1, b1, o1)" by (cases "spec_release ?n b") auto
    have IH: "b = o1 @ b1" "?n \<le> n1" "\<forall>u \<in> fst ` set o1. u < n1" "\<forall>u \<in> fst ` set b1. n1 < u"
        "\<And>m. (\<forall>u \<in> fst ` set b. u < m) \<Longrightarrow> ?n < m \<Longrightarrow> n1 \<le> m"
      using "2.IH" [OF True r] "2.prems"(2) by auto
    have e: "n' = n1" "b' = b1" "out = (v, f) # o1" using "2.prems"(1) True r by auto
    have m: "n1 \<le> m" if "\<forall>u \<in> fst ` set ((v, f) # b). u < m" "n < m" for m
    proof (cases "?n < m")
      case True
      then show ?thesis using that IH(5) by auto
    next
      case False
      then have "m = n + 1" "v = n" using that(2) by (auto split: if_splits)
      then have "b = []" using that(1) "2.prems"(2) by (cases b) auto
      then show ?thesis using r \<open>m = n + 1\<close> \<open>v = n\<close> by simp
    qed
    show ?thesis using IH(1-4) m True unfolding e by (auto split: if_splits)
  next
    case False
    then show ?thesis using 2 by fastforce
  qed
qed auto

lemmas spec_release_props = spec_release_all [THEN conjunct1] spec_release_all [THEN conjunct2, THEN conjunct1]
  spec_release_all [THEN conjunct2, THEN conjunct2, THEN conjunct1]
  spec_release_all [THEN conjunct2, THEN conjunct2, THEN conjunct2, THEN conjunct1]
  spec_release_all [THEN conjunct2, THEN conjunct2, THEN conjunct2, THEN conjunct2]

lemma insort_new:
  assumes "sorted_wrt (<) (map fst b)" and "v \<notin> fst ` set b"
  shows "sorted_wrt (<) (map fst (insort_key fst (v :: int, f) b))"
  using assms
proof (induction b)
  case (Cons x b)
  then show ?case by (cases x) (auto simp: set_insort_key)
qed simp

lemma set_fst_insort: "fst ` set (insort_key fst (v :: int, f) b) = insert v (fst ` set b)"
  by (simp add: set_insort_key)

text \<open>One step of the abstract receiver: what it delivers lies between the old and the new \<open>next\<close>.\<close>

definition outs_between :: "int option \<Rightarrow> (int \<times> recv_hdr) list \<Rightarrow> int option \<Rightarrow> bool" where
  "outs_between nx out nx' \<longleftrightarrow> sorted_wrt (<) (map fst out) \<and>
     (\<forall>v \<in> fst ` set out. (\<forall>n. nx = Some n \<longrightarrow> n \<le> v) \<and> (\<exists>n'. nx' = Some n' \<and> v < n')) \<and>
     (\<forall>n. nx = Some n \<longrightarrow> (\<exists>n'. nx' = Some n' \<and> n \<le> n'))"

lemma sorted_prefix: "sorted_wrt (<) (map fst (out @ b)) \<Longrightarrow> sorted_wrt (<) (map fst out) \<and> sorted_wrt (<) (map fst b)"
  by (simp add: sorted_wrt_append)

lemma spec_receive_inv:
  assumes "spec_receive w v f (nx, b) = (ok, (nx', b'), out)" and "spec_inv w (nx, b)" and "0 < w"
  shows "spec_inv w (nx', b') \<and> outs_between nx out nx'"
proof -
  define n where "n = (case nx of None \<Rightarrow> v | Some n \<Rightarrow> n)"
  have b: "sorted_wrt (<) (map fst b)" "\<forall>u \<in> fst ` set b. n < u \<and> u < n + w"
    using assms(2) by (cases nx; simp add: n_def)+
  show ?thesis
  proof (cases "v < n \<or> v \<in> fst ` set b")
    case True
    then show ?thesis using assms b by (cases nx) (auto simp: n_def outs_between_def)
  next
    case False
    define n1 where "n1 = (if v = n then n + 1 else if n + w \<le> v then v + 1 - w else n)"
    let ?b = "insort_key fst (v, f) b"
    obtain n2 b2 o2 where r: "spec_release n1 ?b = (n2, b2, o2)" by (cases "spec_release n1 ?b") auto
    have e: "nx' = Some n2" "b' = b2" "out = o2"
      using assms(1) False r by (auto simp: n_def [symmetric] n1_def [symmetric] Let_def)
    have s: "sorted_wrt (<) (map fst ?b)" using b(1) False by (intro insort_new) auto
    note p = spec_release_props [OF r s]
    have n1: "n \<le> n1" "v < n1 + w" using False assms(3) by (auto simp: n1_def)
    have ub: "\<forall>u \<in> fst ` set ?b. n \<le> u \<and> u < n1 + w" using b(2) n1 False by (auto simp: set_fst_insort)
    have "sorted_wrt (<) (map fst o2)" "sorted_wrt (<) (map fst b2)" using s p(1) sorted_prefix [of o2 b2] by auto
    moreover have "\<forall>u \<in> fst ` set o2. n \<le> u \<and> u < n2" using ub p(1,3) by auto
    moreover have "\<forall>u \<in> fst ` set b2. n2 < u \<and> u < n2 + w" using ub p(1,2,4) by force
    ultimately show ?thesis using n1 p(2) by (cases nx) (auto simp: e outs_between_def n_def)
  qed
qed

lemma spec_timeout_inv:
  assumes "spec_timeout (nx, b) = ((nx', b'), out)" and "spec_inv w (nx, b)"
  shows "spec_inv w (nx', b') \<and> outs_between nx out nx'"
proof (cases b)
  case Nil
  then show ?thesis using assms by (cases nx) (auto simp: outs_between_def)
next
  case (Cons x c)
  obtain v f where x: "x = (v, f)" by (cases x)
  obtain n where nx: "nx = Some n" using assms(2) Cons by (cases nx) auto
  obtain n2 b2 o2 where r: "spec_release v b = (n2, b2, o2)" by (cases "spec_release v b") auto
  have e: "nx' = Some n2" "b' = b2" "out = o2" using assms(1) r by (auto simp: Cons x Let_def)
  have s: "sorted_wrt (<) (map fst b)" and b: "\<forall>u \<in> fst ` set b. n < u \<and> u < n + w" using assms(2) by (auto simp: nx)
  note p = spec_release_props [OF r s]
  have "n < v" using b by (simp add: Cons x)
  moreover have "sorted_wrt (<) (map fst o2)" "sorted_wrt (<) (map fst b2)" using s p(1) sorted_prefix [of o2 b2] by auto
  moreover have "\<forall>u \<in> fst ` set o2. n \<le> u \<and> u < n2" using b p(1,3) by force
  moreover have "\<forall>u \<in> fst ` set b2. n2 < u \<and> u < n2 + w" using b p(1,2,4) \<open>n < v\<close> by force
  ultimately show ?thesis using p(2) by (auto simp: e outs_between_def nx)
qed

section \<open>The code refines it\<close>

text \<open>
  The state of the code for a state of the abstract receiver. A frame that waits has the timer
  running.
\<close>

definition numbered :: "(int \<times> recv_hdr) list \<Rightarrow> bool" where
  "numbered b \<longleftrightarrow> (\<forall>(v, f) \<in> set b. seq_of f = sn12 v)"

definition ro_rel :: "recv_reorder_ctrl \<Rightarrow> spec \<Rightarrow> bool" where
  "ro_rel c = (\<lambda>(nx, b).
     indicate_seq c = (case nx of None \<Rightarrow> 0xFFFF | Some n \<Rightarrow> sn12 n) \<and> pending c = map snd b \<and> numbered b \<and>
     0 < uint (wsize_b c) \<and> spec_inv (uint (wsize_b c)) (nx, b) \<and>
     (reorder_timer c \<longleftrightarrow> b \<noteq> []) \<and> (bReorderWaiting c \<longrightarrow> reorder_timer c))"

lemma wsize_small: "uint (w :: u8) < 256"
  using unsigned_less [of w] by simp

lemma indicate_loop_refines:
  assumes "spec_release n b = (n', b', out)" and "sorted_wrt (<) (map fst b)" and "numbered b"
    and "\<forall>v \<in> fst ` set b. \<bar>v - n\<bar> < 2048"
  shows "indicate_loop run (sn12 n) (map snd b) = (sn12 n', map snd b', map (\<lambda>(v, f). indicate_out run f) out)"
  using assms
proof (induction n b arbitrary: n' b' out rule: spec_release.induct)
  case (2 n v f b)
  have f: "seq_of f = sn12 v" using "2.prems"(3) by (simp add: numbered_def)
  have d: "\<bar>v - n\<bar> < 2048" using "2.prems"(4) by simp
  have less: "SN_LESS (sn12 n) (sn12 v) \<longleftrightarrow> n < v" using d by (intro SN_LESS_sn12) linarith+
  have eq: "SN_EQUAL (sn12 n) (sn12 v) \<longleftrightarrow> n = v" using d unfolding SN_EQUAL_def by (intro sn12_eq_iff) linarith
  show ?case
  proof (cases "v \<le> n")
    case True
    let ?n = "if v = n then n + 1 else n"
    obtain n1 b1 o1 where r: "spec_release ?n b = (n1, b1, o1)" by (cases "spec_release ?n b") auto
    have "\<forall>u \<in> fst ` set b. \<bar>u - ?n\<bar> < 2048"
    proof
      fix u assume u: "u \<in> fst ` set b"
      then have "v < u" "\<bar>u - n\<bar> < 2048" using "2.prems"(2,4) by auto
      then show "\<bar>u - ?n\<bar> < 2048" by auto
    qed
    then have IH: "indicate_loop run (sn12 ?n) (map snd b) = (sn12 n1, map snd b1, map (\<lambda>(v, f). indicate_out run f) o1)"
      using "2.IH" [OF True r] "2.prems"(2,3) by (simp add: numbered_def)
    have upd: "(if SN_EQUAL (sn12 n) (sn12 v) then (sn12 n + 1) AND 0xFFF else sn12 n) = sn12 ?n"
      using eq sn12_add [of n 1] by auto
    have c1: "\<not> SN_LESS (sn12 n) (sn12 v)" using less True by simp
    have e: "n' = n1" "b' = b1" "out = (v, f) # o1" using "2.prems"(1) True r by auto
    show ?thesis
      unfolding e list.map snd_conv indicate_loop.simps f if_P [OF c1] Let_def upd IH by simp
  next
    case False
    then show ?thesis using "2.prems"(1) less by (auto simp: f)
  qed
qed auto

lemma enqueue_refines:
  assumes "sorted_wrt (<) (map fst b)" and "numbered b" and "seq_of f = sn12 v"
    and "\<forall>u \<in> fst ` set b. \<bar>u - v\<bar> < 2048"
  shows "enqueue_reorder_recvframe (map snd b) f =
    (if v \<in> fst ` set b then None else Some (map snd (insort_key fst (v, f) b)))"
  using assms
proof (induction b)
  case (Cons x b)
  obtain u g where x: "x = (u, g)" by (cases x)
  have g: "seq_of g = sn12 u" using Cons.prems(2) by (simp add: x numbered_def)
  have d: "\<bar>u - v\<bar> < 2048" using Cons.prems(4) by (simp add: x)
  have less: "SN_LESS (sn12 u) (sn12 v) \<longleftrightarrow> u < v" using d by (intro SN_LESS_sn12) linarith+
  have eq: "SN_EQUAL (sn12 u) (sn12 v) \<longleftrightarrow> u = v" using d unfolding SN_EQUAL_def by (intro sn12_eq_iff) linarith
  have IH: "enqueue_reorder_recvframe (map snd b) f =
      (if v \<in> fst ` set b then None else Some (map snd (insort_key fst (v, f) b)))"
    using Cons by (simp add: numbered_def)
  have tl: "\<forall>y \<in> fst ` set b. u < y" using Cons.prems(1) by (auto simp: x)
  consider "u < v" | "u = v" | "v < u" by linarith
  then show ?case
  proof cases
    case 3
    then have "v \<notin> fst ` set b" using tl by auto
    then show ?thesis using 3 less eq by (auto simp: x g assms(3))
  qed (use IH less eq assms(3) in \<open>auto simp: x g\<close>)
qed simp

text \<open>\<open>next\<close> after the window was moved for \<open>v\<close>.\<close>

definition shifted :: "int \<Rightarrow> int \<Rightarrow> int \<Rightarrow> int" where
  "shifted w n v = (if v = n then n + 1 else if n + w \<le> v then v + 1 - w else n)"

lemma check_window:
  "check_indicate_seq c s =
     (let i = (if indicate_seq c = 0xFFFF then s else indicate_seq c) in
      if SN_LESS s i then (False, c\<lparr>indicate_seq := i\<rparr>)
      else if SN_EQUAL s i then (True, c\<lparr>indicate_seq := (i + 1) AND 0xFFF\<rparr>)
      else if SN_LESS ((indicate_seq c + ucast (wsize_b c) - 1) AND 0xFFF) s then
        (True, c\<lparr>indicate_seq := (if uint (wsize_b c) - 1 \<le> uint s then s + 1 - ucast (wsize_b c)
                                   else 0xFFF - (ucast (wsize_b c) - (s + 1)) + 1),
                 ampdu_window_shift_cnt := ampdu_window_shift_cnt c + 1\<rparr>)
      else (True, c\<lparr>indicate_seq := i\<rparr>))"
  unfolding check_indicate_seq_def Let_def by (cases "indicate_seq c = 0xFFFF") simp_all

lemma check_refines:
  fixes c :: recv_reorder_ctrl
  defines "w \<equiv> uint (wsize_b c)"
  assumes nx: "indicate_seq c = (case nx of None \<Rightarrow> 0xFFFF | Some n \<Rightarrow> sn12 n)" and w: "0 < w"
    and n: "n = (case nx of None \<Rightarrow> v | Some n \<Rightarrow> n)" and d: "- 2048 \<le> v - n" "v - n < 2048"
  shows "\<exists>cnt. check_indicate_seq c (sn12 v) =
    (\<not> v < n, c\<lparr>indicate_seq := sn12 (if v < n then n else shifted w n v), ampdu_window_shift_cnt := cnt\<rparr>)"
proof -
  have FF: "sn12 x \<noteq> 0xFFFF" for x
  proof
    assume "sn12 x = 0xFFFF"
    from arg_cong [OF this, of uint] have "x mod 4096 = 0xFFFF" by simp
    moreover have "x mod 4096 < 4096" by simp
    ultimately show False by simp
  qed
  have w256: "w < 256" unfolding w_def by (rule wsize_small)
  have u: "(ucast (wsize_b c) :: u16) = word_of_int w" by (simp add: w_def)
  have ind: "(if indicate_seq c = 0xFFFF then sn12 v else indicate_seq c) = sn12 n"
    using nx n FF by (cases nx) auto
  have less: "SN_LESS (sn12 v) (sn12 n) \<longleftrightarrow> v < n" using d by (intro SN_LESS_sn12)
  have eq: "SN_EQUAL (sn12 v) (sn12 n) \<longleftrightarrow> v = n" using d unfolding SN_EQUAL_def by (intro sn12_eq_iff) linarith
  have inc: "(sn12 n + 1) AND 0xFFF = sn12 (n + 1)" using sn12_add [of n 1] by simp
  have wend: "SN_LESS ((indicate_seq c + ucast (wsize_b c) - 1) AND 0xFFF) (sn12 v) \<longleftrightarrow> n + w \<le> v" if "n < v"
  proof -
    from n that have "nx \<noteq> None" by (cases nx) (simp_all del: not_None_eq)
    then obtain n' where "nx = Some n'" by blast
    then have i: "indicate_seq c = sn12 n" using nx n by simp
    have "(indicate_seq c + ucast (wsize_b c) - 1) AND 0xFFF = sn12 (n + (w - 1))"
      unfolding sn12_add [symmetric] by (simp add: i u add_diff_eq)
    moreover have "SN_LESS (sn12 (n + (w - 1))) (sn12 v) \<longleftrightarrow> n + (w - 1) < v"
      using that d w w256 by (intro SN_LESS_sn12) linarith+
    ultimately show ?thesis by auto
  qed
  have sh: "(if w - 1 \<le> uint (sn12 v) then sn12 v + 1 - ucast (wsize_b c) else 0xFFF - (ucast (wsize_b c) - (sn12 v + 1)) + 1) = sn12 (v + 1 - w)"
    using w by (intro sn12_shift) (simp_all add: w_def)
  have self: "c\<lparr>indicate_seq := x\<rparr> = c\<lparr>indicate_seq := x, ampdu_window_shift_cnt := ampdu_window_shift_cnt c\<rparr>" for x
    by simp
  note chk = check_window [of c "sn12 v", unfolded ind Let_def less eq sh [unfolded w_def]]
  consider "v < n" | "v = n" | "n < v" "n + w \<le> v" | "n < v" "v < n + w" by linarith
  then show ?thesis
  proof cases
    case 1
    then show ?thesis by (intro exI [of _ "ampdu_window_shift_cnt c"]) (simp add: chk)
  next
    case 2
    show ?thesis unfolding chk using 2 inc by (intro exI [of _ "ampdu_window_shift_cnt c"]) (simp add: shifted_def)
  next
    case 3
    then have "\<not> v < n" "v \<noteq> n" by simp_all
    then show ?thesis using wend [OF 3(1)] 3(2) sh
      by (intro exI [of _ "ampdu_window_shift_cnt c + 1"]) (simp add: chk shifted_def w_def)
  next
    case 4
    then have "\<not> v < n" "v \<noteq> n" "\<not> n + w \<le> v" by simp_all
    then show ?thesis using wend [OF 4(1)]
      by (intro exI [of _ "ampdu_window_shift_cnt c"]) (simp add: chk shifted_def)
  qed
qed

lemma in_order_refines:
  assumes "spec_release n b = (n', b', out)" and "sorted_wrt (<) (map fst b)" and "numbered b"
    and "\<forall>v \<in> fst ` set b. \<bar>v - n\<bar> < 2048" and "indicate_seq c = sn12 n" and "pending c = map snd b"
  shows "recv_indicatepkts_in_order run c False =
    (b' \<noteq> [], c\<lparr>indicate_seq := sn12 n', pending := map snd b'\<rparr>, map (\<lambda>(v, f). indicate_out run f) out)"
  using indicate_loop_refines [OF assms(1-4), of run] assms(5,6) by (simp add: recv_indicatepkts_in_order_def Let_def)

lemma numbered_part: "numbered (a @ b) \<longleftrightarrow> numbered a \<and> numbered b"
  by (auto simp: numbered_def)

lemma reorder_locked_refines:
  fixes c :: recv_reorder_ctrl
  defines "w \<equiv> uint (wsize_b c)"
  assumes rel: "ro_rel c (nx, b)" and f: "seq_of f = sn12 v"
    and n: "n = (case nx of None \<Rightarrow> v | Some n \<Rightarrow> n)" and d: "- 2048 \<le> v - n" "v - n < 2048"
    and spec: "spec_receive w v f (nx, b) = (ok, s, out)"
  shows "\<exists>c'. reorder_locked run c f = (if ok then Success else Fail, c', map (\<lambda>(v, f). indicate_out run f) out) \<and>
    ro_rel c' s \<and> wsize_b c' = wsize_b c"
proof -
  have r: "indicate_seq c = (case nx of None \<Rightarrow> 0xFFFF | Some n \<Rightarrow> sn12 n)" "pending c = map snd b" "numbered b"
      "0 < w" "spec_inv w (nx, b)" "reorder_timer c \<longleftrightarrow> b \<noteq> []" "bReorderWaiting c \<longrightarrow> reorder_timer c"
    using rel by (auto simp: ro_rel_def w_def)
  obtain nx' b' where s: "s = (nx', b')" by (cases s)
  have inv': "spec_inv w (nx', b')" using spec_receive_inv [OF spec [unfolded s] r(5,4)] ..
  have b: "sorted_wrt (<) (map fst b)" "\<forall>u \<in> fst ` set b. n < u \<and> u < n + w"
    using r(5) by (cases nx; simp add: n)+
  have w: "w < 256" unfolding w_def by (rule wsize_small)
  obtain cnt where chk: "check_indicate_seq c (seq_of f) =
      (\<not> v < n, c\<lparr>indicate_seq := sn12 (if v < n then n else shifted w n v), ampdu_window_shift_cnt := cnt\<rparr>)"
    using check_refines [OF r(1) r(4) [unfolded w_def] n d, folded w_def] unfolding f by blast
  have nb: "\<forall>u \<in> fst ` set b. \<bar>u - v\<bar> < 2048" if "\<not> v < n"
  proof
    fix u assume "u \<in> fst ` set b"
    then have "n < u" "u < n + w" using b(2) by blast+
    then show "\<bar>u - v\<bar> < 2048" using d w that by linarith
  qed
  show ?thesis
  proof (cases "v < n \<or> v \<in> fst ` set b")
    case True
    have e: "ok = False" "nx' = Some n" "b' = b" "out = []"
      using spec True by (auto simp: s n Let_def)
    have "shifted w n v = n" if "\<not> v < n" using True b(2) that by (auto simp: shifted_def)
    moreover have "enqueue_reorder_recvframe (map snd b) f = None" if "\<not> v < n"
      using enqueue_refines [OF b(1) r(3) f nb [OF that]] True that by simp
    ultimately show ?thesis using r inv' True
      by (auto simp: reorder_locked_def chk e s ro_rel_def w_def)
  next
    case False
    let ?b = "insort_key fst (v, f) b" and ?n = "shifted w n v"
    obtain n2 b2 o2 where rl: "spec_release ?n ?b = (n2, b2, o2)" by (cases "spec_release ?n ?b") auto
    have e: "ok" "nx' = Some n2" "b' = b2" "out = o2"
      using spec False rl by (auto simp: s n [symmetric] shifted_def [symmetric] Let_def)
    have srt: "sorted_wrt (<) (map fst ?b)" using b(1) False by (intro insort_new) auto
    have num: "numbered ?b" using r(3) f by (auto simp: numbered_def set_insort_key)
    have "numbered b2" using num spec_release_props(1) [OF rl srt] numbered_part by metis
    have near: "\<forall>u \<in> fst ` set ?b. \<bar>u - ?n\<bar> < 2048"
      using b(2) d w r(4) False by (auto simp: set_fst_insort shifted_def)
    have enq: "enqueue_reorder_recvframe (map snd b) f = Some (map snd ?b)"
      using enqueue_refines [OF b(1) r(3) f nb] False by simp
    have ord: "recv_indicatepkts_in_order run (c\<lparr>indicate_seq := sn12 ?n, ampdu_window_shift_cnt := cnt, pending := map snd ?b\<rparr>) False =
        (b2 \<noteq> [], c\<lparr>indicate_seq := sn12 n2, ampdu_window_shift_cnt := cnt, pending := map snd b2\<rparr>, map (\<lambda>(v, f). indicate_out run f) o2)"
      by (subst in_order_refines [OF rl srt num near]) simp_all
    show ?thesis using False r(4,7) inv' \<open>numbered b2\<close>
      by (auto simp: reorder_locked_def chk e s ro_rel_def w_def r(2) enq ord [unfolded w_def])
  qed
qed

lemma timeout_refines:
  fixes c :: recv_reorder_ctrl
  defines "w \<equiv> uint (wsize_b c)"
  assumes rel: "ro_rel c (nx, b)" and "reorder_timer c" and spec: "spec_timeout (nx, b) = (s, out)"
  shows "\<exists>c'. rtw_reordering_ctrl_timeout_handler True c = (c', map (\<lambda>(v, f). indicate_out True f) out) \<and>
    ro_rel c' s \<and> wsize_b c' = wsize_b c"
proof -
  have r: "pending c = map snd b" "numbered b" "0 < w" "spec_inv w (nx, b)" "b \<noteq> []"
    using rel assms(3) by (auto simp: ro_rel_def w_def)
  obtain nx' b' where s: "s = (nx', b')" by (cases s)
  have inv': "spec_inv w (nx', b')" using spec_timeout_inv [OF spec [unfolded s] r(4)] ..
  obtain v f bs where b: "b = (v, f) # bs" using r(5) by (cases b) auto
  obtain n where nx: "nx = Some n" using r(4) b by (cases nx) auto
  obtain n2 b2 o2 where rl: "spec_release v b = (n2, b2, o2)" by (cases "spec_release v b") auto
  have e: "nx' = Some n2" "b' = b2" "out = o2" using spec rl by (auto simp: s b Let_def)
  have srt: "sorted_wrt (<) (map fst b)" using r(4) by (simp add: nx)
  have f: "seq_of f = sn12 v" using r(2) by (simp add: b numbered_def)
  have w: "w < 256" unfolding w_def by (rule wsize_small)
  have near: "\<forall>u \<in> fst ` set b. \<bar>u - v\<bar> < 2048" using r(4) w by (auto simp: nx b)
  have "numbered b2" using r(2) spec_release_props(1) [OF rl srt] numbered_part by metis
  have loop: "indicate_loop True (sn12 v) (map snd b) = (sn12 n2, map snd b2, map (\<lambda>(v, f). indicate_out True f) o2)"
    by (rule indicate_loop_refines [OF rl srt r(2) near])
  have hd: "hd (map snd b) = f" by (simp add: b)
  show ?thesis using r(3,5) inv' \<open>numbered b2\<close>
    by (auto simp: rtw_reordering_ctrl_timeout_handler_def recv_indicatepkts_in_order_def
        recv_indicatepkts_pkt_loss_cnt_def Let_def e s r(1) hd f loop ro_rel_def w_def)
qed

section \<open>Histories\<close>

text \<open>
  The control block of a new station (\<open>_rtw_alloc_stainfo\<close>), and its change when the station
  answers a block acknowledgement request.
\<close>

definition init_reorder_ctrl :: recv_reorder_ctrl where
  "init_reorder_ctrl = \<lparr>ro_enable = False, indicate_seq = 0xffff, wsize_b = 64, pending = [], reorder_timer = False,
     bReorderWaiting = False, ampdu_drop_count = 0, ampdu_forced_indicate_count = 0, ampdu_loss_count = 0,
     ampdu_window_shift_cnt = 0, ro_rx_drop = 0\<rparr>"

definition add_ba_rsp_hdl :: "u8 \<Rightarrow> recv_reorder_ctrl \<Rightarrow> recv_reorder_ctrl" where
  "add_ba_rsp_hdl status c =
     (let c = c\<lparr>indicate_seq := 0xffff\<rparr>
      in if status = 0 then c\<lparr>ro_enable := True\<rparr> else if status = 37 then c\<lparr>ro_enable := False\<rparr> else c)"

text \<open>
  What reaches the control block: a frame, whose sequence number stands for \<open>v\<close>, or the expiry of
  the timer, which needs the timer to be pending.
\<close>

datatype ro_event = Arrive int recv_hdr | Expire

fun ro_step :: "recv_reorder_ctrl \<Rightarrow> ro_event \<Rightarrow> recv_reorder_ctrl \<times> rx_out list" where
  "ro_step c (Arrive v f) = snd (reorder_locked True c f)"
| "ro_step c Expire = (if reorder_timer c then rtw_reordering_ctrl_timeout_handler True c else (c, []))"

fun ro_run :: "recv_reorder_ctrl \<Rightarrow> ro_event list \<Rightarrow> recv_reorder_ctrl \<times> rx_out list" where
  "ro_run c [] = (c, [])"
| "ro_run c (e # es) = (let (c, o1) = ro_step c e; (c, o2) = ro_run c es in (c, o1 @ o2))"

fun spec_step :: "int \<Rightarrow> spec \<Rightarrow> ro_event \<Rightarrow> spec \<times> (int \<times> recv_hdr) list" where
  "spec_step w s (Arrive v f) = snd (spec_receive w v f s)"
| "spec_step w s Expire = spec_timeout s"

fun spec_run :: "int \<Rightarrow> spec \<Rightarrow> ro_event list \<Rightarrow> spec \<times> (int \<times> recv_hdr) list" where
  "spec_run w s [] = (s, [])"
| "spec_run w s (e # es) = (let (s, o1) = spec_step w s e; (s, o2) = spec_run w s es in (s, o1 @ o2))"

text \<open>No frame is half the number space away from the window.\<close>

fun near_event :: "spec \<Rightarrow> ro_event \<Rightarrow> bool" where
  "near_event (nx, b) (Arrive v f) \<longleftrightarrow> seq_of f = sn12 v \<and>
     (case nx of None \<Rightarrow> True | Some n \<Rightarrow> - 2048 \<le> v - n \<and> v - n < 2048)"
| "near_event s Expire \<longleftrightarrow> True"

fun near_run :: "int \<Rightarrow> spec \<Rightarrow> ro_event list \<Rightarrow> bool" where
  "near_run w s [] \<longleftrightarrow> True"
| "near_run w s (e # es) \<longleftrightarrow> near_event s e \<and> near_run w (fst (spec_step w s e)) es"

abbreviation outs_of :: "(int \<times> recv_hdr) list \<Rightarrow> rx_out list" where
  "outs_of \<equiv> map (\<lambda>(v, f). indicate_out True f)"

lemma ro_step_refines:
  assumes "ro_rel c s" and "near_event s e" and "spec_step (uint (wsize_b c)) s e = (s', out)"
  shows "\<exists>c'. ro_step c e = (c', outs_of out) \<and> ro_rel c' s' \<and> wsize_b c' = wsize_b c"
proof -
  obtain nx b where s: "s = (nx, b)" by (cases s)
  show ?thesis
  proof (cases e)
    case (Arrive v f)
    obtain ok where r: "spec_receive (uint (wsize_b c)) v f (nx, b) = (ok, s', out)"
      using assms(3) by (cases "spec_receive (uint (wsize_b c)) v f (nx, b)") (auto simp: Arrive s simp del: spec_receive.simps)
    define n where "n = (case nx of None \<Rightarrow> v | Some n \<Rightarrow> n)"
    have "seq_of f = sn12 v" "- 2048 \<le> v - n" "v - n < 2048"
      using assms(2) by (simp_all add: Arrive s n_def split: option.splits)
    from reorder_locked_refines [OF assms(1) [unfolded s] this(1) n_def this(2,3) r, of True]
    show ?thesis by (auto simp: Arrive)
  next
    case Expire
    show ?thesis
    proof (cases "reorder_timer c")
      case True
      show ?thesis using timeout_refines [OF assms(1) [unfolded s] True] assms(3) True
        by (auto simp: Expire s simp del: spec_timeout.simps)
    next
      case False
      then have "b = []" using assms(1) by (auto simp: s ro_rel_def)
      then show ?thesis using assms(1,3) False by (auto simp: Expire s)
    qed
  qed
qed

lemma ro_run_refines:
  assumes "ro_rel c s" and "near_run (uint (wsize_b c)) s es" and "spec_run (uint (wsize_b c)) s es = (s', out)"
  shows "\<exists>c'. ro_run c es = (c', outs_of out) \<and> ro_rel c' s' \<and> wsize_b c' = wsize_b c"
  using assms
proof (induction es arbitrary: c s s' out)
  case (Cons e es)
  obtain s1 o1 where s1: "spec_step (uint (wsize_b c)) s e = (s1, o1)" by (cases "spec_step (uint (wsize_b c)) s e")
  obtain c1 where c1: "ro_step c e = (c1, outs_of o1)" "ro_rel c1 s1" "wsize_b c1 = wsize_b c"
    using ro_step_refines [OF Cons.prems(1) _ s1] Cons.prems(2) by auto
  obtain s2 o2 where s2: "spec_run (uint (wsize_b c)) s1 es = (s2, o2)" by (cases "spec_run (uint (wsize_b c)) s1 es")
  have e: "s' = s2" "out = o1 @ o2" using Cons.prems(3) by (auto simp: s1 s2)
  have "near_run (uint (wsize_b c1)) s1 es" using Cons.prems(2) by (simp add: s1 c1(3))
  then obtain c2 where "ro_run c1 es = (c2, outs_of o2)" "ro_rel c2 s2" "wsize_b c2 = wsize_b c1"
    using Cons.IH [OF c1(2)] s2 c1(3) by metis
  then show ?case by (auto simp: e c1 Let_def)
qed auto

lemma spec_step_inv:
  assumes "spec_step w (nx, b) e = ((nx', b'), out)" and "spec_inv w (nx, b)" and "0 < w"
  shows "spec_inv w (nx', b') \<and> outs_between nx out nx'"
proof (cases e)
  case (Arrive v f)
  then obtain ok where "spec_receive w v f (nx, b) = (ok, (nx', b'), out)"
    using assms(1) by (cases "spec_receive w v f (nx, b)") (auto simp del: spec_receive.simps)
  from spec_receive_inv [OF this assms(2,3)] show ?thesis .
next
  case Expire
  then show ?thesis using spec_timeout_inv [OF _ assms(2)] assms(1) by simp
qed

lemma outs_between_append:
  assumes "outs_between a o1 b" and "outs_between b o2 c"
  shows "outs_between a (o1 @ o2) c"
proof (cases b)
  case None
  have "o1 = []" using assms(1) None by (cases o1) (auto simp: outs_between_def)
  moreover have "a = None" using assms(1) None by (cases a) (auto simp: outs_between_def)
  ultimately show ?thesis using assms(2) None by (simp add: outs_between_def)
next
  case (Some m)
  then obtain n where c: "c = Some n" "m \<le> n" using assms(2) by (auto simp: outs_between_def)
  have m: "u < m" if "u \<in> fst ` set o1" for u using that assms(1) by (auto simp: outs_between_def Some)
  have n: "m \<le> u" "u < n" if "u \<in> fst ` set o2" for u using that assms(2) c by (auto simp: outs_between_def Some)
  have s: "sorted_wrt (<) (map fst (o1 @ o2))"
  proof -
    have "\<forall>x \<in> set (map fst o1). \<forall>y \<in> set (map fst o2). x < y" using m n(1) by (force simp del: ball_simps)
    then show ?thesis using assms by (simp only: map_append sorted_wrt_append outs_between_def)
  qed
  have k: "k \<le> m" if "a = Some k" for k using assms(1) that by (auto simp: outs_between_def Some)
  have l: "k \<le> u" if "a = Some k" "u \<in> fst ` set (o1 @ o2)" for k u
  proof (cases "u \<in> fst ` set o1")
    case True
    then show ?thesis using assms(1) that(1) by (auto simp: outs_between_def)
  next
    case False
    then have "u \<in> fst ` set o2" using that(2) by auto
    then show ?thesis using n(1) k [OF that(1)] by force
  qed
  have r: "u < n" if "u \<in> fst ` set (o1 @ o2)" for u
  proof -
    have "u \<in> fst ` set o1 \<or> u \<in> fst ` set o2" using that by auto
    then show ?thesis using m [of u] n(2) [of u] c(2) by linarith
  qed
  show ?thesis unfolding outs_between_def
  proof (intro conjI ballI allI impI)
    show "sorted_wrt (<) (map fst (o1 @ o2))" by (rule s)
  next
    fix u k assume "u \<in> fst ` set (o1 @ o2)" "a = Some k"
    then show "k \<le> u" by (intro l)
  next
    fix u assume "u \<in> fst ` set (o1 @ o2)"
    then show "\<exists>n'. c = Some n' \<and> u < n'" using r c(1) by blast
  next
    fix k assume "a = Some k"
    then have "k \<le> n" using k c(2) by force
    then show "\<exists>n'. c = Some n' \<and> k \<le> n'" using c(1) by blast
  qed
qed

lemma spec_run_inv:
  assumes "spec_run w (nx, b) es = ((nx', b'), out)" and "spec_inv w (nx, b)" and "0 < w"
  shows "spec_inv w (nx', b') \<and> outs_between nx out nx'"
  using assms
proof (induction es arbitrary: nx b out)
  case (Cons e es)
  obtain n1 b1 o1 where s1: "spec_step w (nx, b) e = ((n1, b1), o1)" by (cases "spec_step w (nx, b) e") auto
  obtain s2 o2 where s2: "spec_run w (n1, b1) es = (s2, o2)" by (cases "spec_run w (n1, b1) es") auto
  have e: "s2 = (nx', b')" "out = o1 @ o2" using Cons.prems(1) by (auto simp: s1 s2)
  have i: "spec_inv w (n1, b1)" "outs_between nx o1 n1" using spec_step_inv [OF s1 Cons.prems(2,3)] by auto
  show ?case using Cons.IH [OF s2 [unfolded e] i(1) Cons.prems(3)] outs_between_append [OF i(2)] by (auto simp: e)
qed (auto simp: outs_between_def)

lemma init_rel: "ro_rel init_reorder_ctrl (None, [])"
  by (simp add: ro_rel_def init_reorder_ctrl_def numbered_def)

lemma spec_run_from_start:
  assumes "near_run 64 (None, []) es"
  obtains c s out where "ro_run init_reorder_ctrl es = (c, outs_of out)" "spec_run 64 (None, []) es = (s, out)"
    "ro_rel c s" "wsize_b c = 64" "spec_inv 64 s" "sorted_wrt (<) (map fst out)"
proof -
  obtain nx b out where r: "spec_run 64 (None, []) es = ((nx, b), out)" by (cases "spec_run 64 (None, []) es") auto
  have w: "uint (wsize_b init_reorder_ctrl) = 64" by (simp add: init_reorder_ctrl_def)
  obtain c where "ro_run init_reorder_ctrl es = (c, outs_of out)" "ro_rel c (nx, b)" "wsize_b c = 64"
    using ro_run_refines [OF init_rel, of es "(nx, b)" out] assms r unfolding w by (auto simp: init_reorder_ctrl_def)
  then show ?thesis using that r spec_run_inv [OF r] by (auto simp: outs_between_def)
qed

fun arrivals :: "ro_event list \<Rightarrow> (int \<times> recv_hdr) list" where
  "arrivals [] = []"
| "arrivals (Arrive v f # es) = (v, f) # arrivals es"
| "arrivals (Expire # es) = arrivals es"

lemma spec_release_parts: "spec_release n b = (n', b', out) \<Longrightarrow> b = out @ b'"
proof (induction n b arbitrary: n' b' out rule: spec_release.induct)
  case (2 n v f b)
  show ?case
  proof (cases "v \<le> n")
    case True
    obtain n1 b1 o1 where r: "spec_release (if v = n then n + 1 else n) b = (n1, b1, o1)"
      by (cases "spec_release (if v = n then n + 1 else n) b") auto
    show ?thesis using "2.IH" [OF True r] "2.prems" True r by (simp add: Let_def)
  next
    case False
    then show ?thesis using "2.prems" by simp
  qed
qed simp

lemma spec_step_parts:
  assumes "spec_step w (nx, b) e = ((nx', b'), out)"
  shows "set out \<union> set b' \<subseteq> set b \<union> set (arrivals [e])"
proof (cases e)
  case (Arrive v f)
  define n where "n = (case nx of None \<Rightarrow> v | Some n \<Rightarrow> n)"
  show ?thesis
  proof (cases "v < n \<or> v \<in> fst ` set b")
    case True
    then show ?thesis using assms by (auto simp: Arrive n_def [symmetric] Let_def)
  next
    case False
    define n1 where "n1 = (if v = n then n + 1 else if n + w \<le> v then v + 1 - w else n)"
    obtain n2 b2 o2 where r: "spec_release n1 (insort_key fst (v, f) b) = (n2, b2, o2)"
      by (cases "spec_release n1 (insort_key fst (v, f) b)") auto
    have "b' = b2" "out = o2" using assms False r by (auto simp: Arrive n_def [symmetric] n1_def [symmetric] Let_def)
    moreover have "set o2 \<union> set b2 = insert (v, f) (set b)"
      using arg_cong [OF spec_release_parts [OF r], of set] by (simp add: set_insort_key)
    ultimately show ?thesis by (auto simp: Arrive)
  qed
next
  case Expire
  show ?thesis
  proof (cases b)
    case (Cons x c)
    obtain v f where x: "x = (v, f)" by (cases x)
    obtain n2 b2 o2 where r: "spec_release v b = (n2, b2, o2)" by (cases "spec_release v b") auto
    have "b' = b2" "out = o2" using assms r by (auto simp: Expire Cons x)
    then show ?thesis using arg_cong [OF spec_release_parts [OF r], of set] by (auto simp: Expire)
  qed (use assms Expire in simp)
qed

lemma spec_run_arrivals:
  "spec_run w (nx, b) es = ((nx', b'), out) \<Longrightarrow> set out \<union> set b' \<subseteq> set b \<union> set (arrivals es)"
proof (induction es arbitrary: nx b out)
  case (Cons e es)
  obtain n1 b1 o1 where s1: "spec_step w (nx, b) e = ((n1, b1), o1)" by (cases "spec_step w (nx, b) e") auto
  obtain s2 o2 where s2: "spec_run w (n1, b1) es = (s2, o2)" by (cases "spec_run w (n1, b1) es") auto
  have e: "s2 = (nx', b')" "out = o1 @ o2" using Cons.prems by (auto simp: s1 s2)
  have "set (arrivals (e # es)) = set (arrivals [e]) \<union> set (arrivals es)" by (cases e) auto
  then show ?case using Cons.IH [OF s2 [unfolded e]] spec_step_parts [OF s1] by (auto simp: e)
qed auto

text \<open>C1: Whatever order the frames of a session come in and whenever the timer fires, the driver
  hands the frames up in strictly increasing order of the sequence numbers, counted without wrap
  around, hence none twice, and each is one that came in.
\<close>

theorem reorder_in_order:
  assumes "near_run 64 (None, []) es"
  shows "\<exists>vs. snd (ro_run init_reorder_ctrl es) = outs_of vs \<and> sorted_wrt (<) (map fst vs) \<and> set vs \<subseteq> set (arrivals es)"
proof -
  obtain c s out where r: "ro_run init_reorder_ctrl es = (c, outs_of out)" "spec_run 64 (None, []) es = (s, out)"
      "sorted_wrt (<) (map fst out)"
    using spec_run_from_start [OF assms] by metis
  obtain nx b where "s = (nx, b)" by (cases s)
  then show ?thesis using r spec_run_arrivals [of 64 None "[]" es nx b out] by auto
qed

definition demo_seq :: "u16 \<Rightarrow> recv_hdr" where
  "demo_seq n = demo_eth\<lparr>rf_attr := demo_attr\<lparr>at_seq_num := n\<rparr>\<rparr>"

lemma seq_of_demo [simp]: "seq_of (demo_seq n) = n" "at_amsdu (rf_attr (demo_seq n)) = 0"
  by (simp_all add: demo_seq_def demo_attr_def)

theorem reorder_in_order_witness:
  "\<exists>vs. snd (ro_run init_reorder_ctrl
      [Arrive 4094 (demo_seq 4094), Arrive 4096 (demo_seq 0), Arrive 4095 (demo_seq 4095), Arrive 4098 (demo_seq 2), Expire]) = outs_of vs \<and>
    sorted_wrt (<) (map fst vs) \<and> set vs \<subseteq> {(4094, demo_seq 4094), (4096, demo_seq 0), (4095, demo_seq 4095), (4098, demo_seq 2)}"
  using reorder_in_order [of "[Arrive 4094 (demo_seq 4094), Arrive 4096 (demo_seq 0), Arrive 4095 (demo_seq 4095), Arrive 4098 (demo_seq 2), Expire]"]
  by (simp add: sn12_def Let_def)

text \<open>C2: No frame is stuck. When frames wait for a missing one, the timer is pending, and when
  it fires the handler gives up the missing one and hands up the first frame that waits.
\<close>

theorem reorder_timer_progress:
  assumes "near_run 64 (None, []) es" and "ro_run init_reorder_ctrl es = (c, outs)" and "pending c \<noteq> []"
  shows "reorder_timer c \<and> (\<exists>c' rest. rtw_reordering_ctrl_timeout_handler True c = (c', indicate_out True (hd (pending c)) # rest) \<and>
    length (pending c') < length (pending c))"
proof -
  obtain s where rel: "ro_rel c s" and inv: "spec_inv 64 s" using spec_run_from_start [OF assms(1)] assms(2) by (metis Pair_inject)
  obtain nx b where s: "s = (nx, b)" by (cases s)
  have p: "pending c = map snd b" "reorder_timer c" using rel assms(3) by (auto simp: s ro_rel_def)
  obtain v f bs where b: "b = (v, f) # bs" using p assms(3) by (cases b) auto
  obtain n' b' out where r: "spec_release v b = (n', b', out)" by (cases "spec_release v b") auto
  have t: "spec_timeout (nx, b) = ((Some n', b'), out)" using r by (simp add: b Let_def)
  obtain c' where c': "rtw_reordering_ctrl_timeout_handler True c = (c', outs_of out)" "ro_rel c' (Some n', b')"
    using timeout_refines [OF rel [unfolded s] p(2) t] by blast
  obtain o' where o: "out = (v, f) # o'" using r by (auto simp: b split: prod.splits)
  have "length b' < length b" using spec_release_parts [OF r] by (simp add: o)
  then show ?thesis using p c' by (auto simp: o b ro_rel_def)
qed

theorem reorder_timer_progress_witness:
  "reorder_timer (fst (ro_run init_reorder_ctrl [Arrive 1 (demo_seq 1), Arrive 3 (demo_seq 3)]))"
proof -
  let ?es = "[Arrive 1 (demo_seq 1), Arrive 3 (demo_seq 3)]"
  let ?c = "fst (ro_run init_reorder_ctrl ?es)"
  have "near_run 64 (None, []) ?es" by (simp add: sn12_def Let_def)
  moreover have "pending ?c \<noteq> []"
    by (simp add: reorder_locked_def check_indicate_seq_def init_reorder_ctrl_def SN_LESS_def SN_EQUAL_def Let_def
        recv_indicatepkts_in_order_def)
  ultimately show ?thesis
    using reorder_timer_progress [of ?es ?c "snd (ro_run init_reorder_ctrl ?es)"] by simp
qed

section \<open>No frame is lost or doubled\<close>

text \<open>
  What the code does with the frame it takes off the queue: the upper layer gets it, split up first if it
  is an A-MSDU. A driver that has been stopped (\<open>RTW_CANNOT_RUN\<close>) still splits A-MSDUs, but loses the other
  frames. The bit \<open>amsdu\<close> comes from one bit of the QoS field, so it is 0 or 1.
\<close>

definition amsdu_known :: "recv_hdr \<Rightarrow> bool" where
  "amsdu_known f \<longleftrightarrow> at_amsdu (rf_attr f) = 0 \<or> at_amsdu (rf_attr f) = 1"

definition to_stack :: "recv_hdr \<Rightarrow> rx_out" where
  "to_stack f = (if at_amsdu (rf_attr f) = 1 then Deaggregate f else Indicate f)"

definition stopped_out :: "recv_hdr \<Rightarrow> rx_out" where
  "stopped_out f = (if at_amsdu (rf_attr f) = 1 then Deaggregate f else Leaked f)"

lemma indicate_out_known:
  "amsdu_known f \<Longrightarrow> indicate_out run f = (if run then to_stack f else stopped_out f)"
  by (auto simp: amsdu_known_def indicate_out_def to_stack_def stopped_out_def)

lemma indicate_loop_parts:
  "indicate_loop run i q = (i', p, outs) \<Longrightarrow> \<exists>rel. q = rel @ p \<and> outs = map (indicate_out run) rel"
proof (induction run i q arbitrary: i' p outs rule: indicate_loop.induct)
  case (2 run ind f fs)
  show ?case
  proof (cases "SN_LESS ind (seq_of f)")
    case False
    let ?i = "if SN_EQUAL ind (seq_of f) then (ind + 1) AND 0xFFF else ind"
    obtain i1 p1 o1 where r: "indicate_loop run ?i fs = (i1, p1, o1)" by (cases "indicate_loop run ?i fs") auto
    then obtain rel where "fs = rel @ p1" "o1 = map (indicate_out run) rel" using "2.IH" [OF False refl r] by blast
    then have "f # fs = (f # rel) @ p \<and> outs = map (indicate_out run) (f # rel)" using "2.prems" False r by (simp add: Let_def)
    then show ?thesis by blast
  qed (use "2.prems" in simp)
qed simp

lemma in_order_parts:
  "recv_indicatepkts_in_order run c forced = (b, c', outs) \<Longrightarrow> \<exists>rel. pending c = rel @ pending c' \<and> outs = map (indicate_out run) rel"
  by (auto simp: recv_indicatepkts_in_order_def Let_def recv_indicatepkts_pkt_loss_cnt_def
      dest!: indicate_loop_parts split: if_splits prod.splits)

lemma check_pending: "check_indicate_seq c s = (ok, c') \<Longrightarrow> pending c' = pending c"
  by (auto simp: check_indicate_seq_def Let_def split: if_splits)

text \<open>The place of a new frame: behind the frames with a smaller number, unless the next one has the same number.\<close>

lemma enqueue_place:
  "enqueue_reorder_recvframe q f =
    (let less = takeWhile (\<lambda>g. SN_LESS (seq_of g) (seq_of f)) q; rest = dropWhile (\<lambda>g. SN_LESS (seq_of g) (seq_of f)) q
     in if rest \<noteq> [] \<and> seq_of (hd rest) = seq_of f then None else Some (less @ f # rest))"
  by (induction q) (auto simp: SN_EQUAL_def Let_def)

text \<open>The frame is taken: its number is not behind the window, and it does not wait already.\<close>

definition taken :: "recv_reorder_ctrl \<Rightarrow> recv_hdr \<Rightarrow> bool" where
  "taken c f \<longleftrightarrow> \<not> SN_LESS (seq_of f) (if indicate_seq c = 0xFFFF then seq_of f else indicate_seq c) \<and>
     (let rest = dropWhile (\<lambda>g. SN_LESS (seq_of g) (seq_of f)) (pending c) in rest = [] \<or> seq_of (hd rest) \<noteq> seq_of f)"

lemma check_ok:
  "fst (check_indicate_seq c s) \<longleftrightarrow> \<not> SN_LESS s (if indicate_seq c = 0xFFFF then s else indicate_seq c)"
  unfolding check_window by (simp add: Let_def)

lemma reorder_locked_parts:
  assumes "reorder_locked run c f = (r, c', outs)"
  shows "if taken c f
    then r = Success \<and> (\<exists>less rest rel. pending c = less @ rest \<and> less @ f # rest = rel @ pending c' \<and> outs = map (indicate_out run) rel)
    else r = Fail \<and> pending c' = pending c \<and> outs = []"
proof -
  obtain ok c1 where c1: "check_indicate_seq c (seq_of f) = (ok, c1)" by (cases "check_indicate_seq c (seq_of f)")
  note p1 = check_pending [OF c1]
  have taken: "taken c f \<longleftrightarrow> ok \<and> enqueue_reorder_recvframe (pending c1) f \<noteq> None"
    using check_ok [of c "seq_of f"] c1 by (auto simp: taken_def enqueue_place p1 Let_def)
  show ?thesis
  proof (cases "taken c f")
    case True
    define less rest where "less = takeWhile (\<lambda>g. SN_LESS (seq_of g) (seq_of f)) (pending c)"
      and "rest = dropWhile (\<lambda>g. SN_LESS (seq_of g) (seq_of f)) (pending c)"
    have q: "ok" "enqueue_reorder_recvframe (pending c1) f = Some (less @ f # rest)" "pending c = less @ rest"
      using True taken by (auto simp: enqueue_place p1 Let_def less_def rest_def split: if_splits)
    obtain b c2 o2 where i: "recv_indicatepkts_in_order run (c1\<lparr>pending := less @ f # rest\<rparr>) False = (b, c2, o2)"
      by (cases "recv_indicatepkts_in_order run (c1\<lparr>pending := less @ f # rest\<rparr>) False") auto
    have "r = Success" "pending c' = pending c2" "outs = o2"
      using assms c1 q i by (auto simp: reorder_locked_def Let_def split: if_splits)
    then show ?thesis using in_order_parts [OF i] q(3) True by auto
  next
    case False
    then have "\<not> ok \<or> enqueue_reorder_recvframe (pending c1) f = None" using taken by blast
    then have "r = Fail \<and> pending c' = pending c \<and> outs = []"
      using assms c1 p1 by (cases ok) (auto simp: reorder_locked_def)
    then show ?thesis using False by simp
  qed
qed

lemma timeout_parts:
  assumes "rtw_reordering_ctrl_timeout_handler run c = (c', outs)"
  shows "\<exists>rel. pending c = rel @ pending c' \<and> outs = map (indicate_out run) rel \<and> (\<not> run \<longrightarrow> rel = [])"
proof (cases run)
  case True
  obtain b c2 o2 where i: "recv_indicatepkts_in_order run (c\<lparr>reorder_timer := False, bReorderWaiting := False\<rparr>) True = (b, c2, o2)"
    by (cases "recv_indicatepkts_in_order run (c\<lparr>reorder_timer := False, bReorderWaiting := False\<rparr>) True") auto
  then have "pending c' = pending c2 \<and> outs = o2"
    using assms True by (auto simp: rtw_reordering_ctrl_timeout_handler_def Let_def split: if_splits)
  then show ?thesis using in_order_parts [OF i] True by auto
qed (use assms in \<open>auto simp: rtw_reordering_ctrl_timeout_handler_def Let_def\<close>)

text \<open>C3: The reordering loses no frame and doubles none while the driver runs, whatever the sequence numbers and
  the window are. A frame is taken exactly when its number is not behind the window and is not that of a frame
  that waits in its place; a refused frame leaves the queue alone. A frame that is taken enters the queue at one
  place; what leaves the queue leaves it from the front, and all of it is handed up in that order, A-MSDUs to be split
  up. The timer hands up frames from the front likewise. A driver that has been stopped does lose frames: of
  those that leave the queue only the A-MSDUs are handed up, and its timer takes none. The flag \<open>amsdu\<close> of a frame is
  taken to be 0 or 1, as the receive path sets it.\<close>

theorem reorder_conserves:
  assumes "\<forall>g \<in> insert f (set (pending c)). amsdu_known g"
    and "reorder_locked run c f = (r, c1, outs)" and "rtw_reordering_ctrl_timeout_handler run c = (c2, late)"
  shows "(r = Success \<longleftrightarrow> taken c f) \<and>
    (\<exists>less rest rel. pending c = less @ rest \<and> (if taken c f then less @ f # rest else less @ rest) = rel @ pending c1 \<and>
      outs = map (if run then to_stack else stopped_out) rel \<and> (\<not> taken c f \<longrightarrow> rel = [])) \<and>
    (\<exists>rel. pending c = rel @ pending c2 \<and> late = map to_stack rel \<and> (\<not> run \<longrightarrow> rel = []))"
proof (intro conjI)
  note R = reorder_locked_parts [OF assms(2)]
  have out: "map (indicate_out run) rel = map (if run then to_stack else stopped_out) rel"
    if "set rel \<subseteq> insert f (set (pending c))" for rel
    using that assms(1) indicate_out_known by (auto simp: map_eq_conv)
  show "r = Success \<longleftrightarrow> taken c f" using R by (simp split: if_splits)
  show "\<exists>less rest rel. pending c = less @ rest \<and> (if taken c f then less @ f # rest else less @ rest) = rel @ pending c1 \<and>
      outs = map (if run then to_stack else stopped_out) rel \<and> (\<not> taken c f \<longrightarrow> rel = [])"
  proof (cases "taken c f")
    case True
    then obtain less rest rel where q: "pending c = less @ rest" "less @ f # rest = rel @ pending c1" "outs = map (indicate_out run) rel"
      using R by auto
    have "set rel \<subseteq> set (less @ f # rest)" unfolding q(2) by simp
    then have "outs = map (if run then to_stack else stopped_out) rel" using q(1,3) out [of rel] by auto
    then show ?thesis using True q(1,2) by (intro exI [of _ less] exI [of _ rest] exI [of _ rel]) simp
  next
    case False
    then show ?thesis using R by auto
  qed
  obtain rel where l: "pending c = rel @ pending c2" "late = map (indicate_out run) rel" "\<not> run \<longrightarrow> rel = []"
    using timeout_parts [OF assms(3)] by blast
  have "set rel \<subseteq> insert f (set (pending c))" by (subst l(1)) auto
  then show "\<exists>rel. pending c = rel @ pending c2 \<and> late = map to_stack rel \<and> (\<not> run \<longrightarrow> rel = [])"
    using l out [of rel] by (cases run) auto
qed

definition demo_waiting :: recv_reorder_ctrl where
  "demo_waiting = init_reorder_ctrl\<lparr>indicate_seq := 2, pending := [demo_seq 3, demo_seq 5], reorder_timer := True, bReorderWaiting := True\<rparr>"

text \<open>The missing frame 2 lets 3 go too, a second 5 is refused, and a stopped driver loses 2 and 3.\<close>

theorem reorder_conserves_witness:
  "(\<exists>c1 less rest rel. reorder_locked True demo_waiting (demo_seq 2) = (Success, c1, [Indicate (demo_seq 2), Indicate (demo_seq 3)]) \<and>
     [demo_seq 3, demo_seq 5] = less @ rest \<and> less @ demo_seq 2 # rest = rel @ pending c1 \<and> rel = [demo_seq 2, demo_seq 3]) \<and>
   fst (reorder_locked True demo_waiting (demo_seq 5)) = Fail \<and>
   snd (snd (reorder_locked False demo_waiting (demo_seq 2))) = [Leaked (demo_seq 2), Leaked (demo_seq 3)]"
proof -
  have known: "amsdu_known (demo_seq n)" for n by (simp add: amsdu_known_def)
  have p: "pending demo_waiting = [demo_seq 3, demo_seq 5]" by (simp add: demo_waiting_def)
  have run: "snd (snd (reorder_locked True demo_waiting (demo_seq 2))) = [Indicate (demo_seq 2), Indicate (demo_seq 3)]"
    "snd (snd (reorder_locked False demo_waiting (demo_seq 2))) = [Leaked (demo_seq 2), Leaked (demo_seq 3)]"
    by (simp_all add: demo_waiting_def init_reorder_ctrl_def reorder_locked_def check_indicate_seq_def SN_LESS_def SN_EQUAL_def Let_def
        recv_indicatepkts_in_order_def indicate_out_def)
  have t: "taken demo_waiting (demo_seq 2)" "\<not> taken demo_waiting (demo_seq 5)"
    by (simp_all add: taken_def demo_waiting_def init_reorder_ctrl_def SN_LESS_def)
  obtain r1 c1 o1 where L: "reorder_locked True demo_waiting (demo_seq 2) = (r1, c1, o1)" by (cases "reorder_locked True demo_waiting (demo_seq 2)")
  obtain r2 c2 o2 where M: "reorder_locked True demo_waiting (demo_seq 5) = (r2, c2, o2)" by (cases "reorder_locked True demo_waiting (demo_seq 5)")
  obtain c3 o3 where T: "rtw_reordering_ctrl_timeout_handler True demo_waiting = (c3, o3)" by (cases "rtw_reordering_ctrl_timeout_handler True demo_waiting")
  have k: "\<forall>g \<in> insert (demo_seq n) (set (pending demo_waiting)). amsdu_known g" for n using known p by simp
  have "to_stack (demo_seq n) = Indicate (demo_seq n)" for n by (simp add: to_stack_def)
  then have inj: "map to_stack rel = [Indicate (demo_seq 2), Indicate (demo_seq 3)] \<Longrightarrow> set rel \<subseteq> demo_seq ` {2, 3, 5} \<Longrightarrow> rel = [demo_seq 2, demo_seq 3]" for rel
    by (auto simp: map_eq_Cons_conv)
  from reorder_conserves [OF k L T] obtain less rest rel where q: "r1 = Success" "[demo_seq 3, demo_seq 5] = less @ rest"
      "less @ demo_seq 2 # rest = rel @ pending c1" "o1 = map to_stack rel" using t(1) p by auto
  have "set rel \<subseteq> insert (demo_seq 2) (set (less @ rest))" using arg_cong [OF q(3), of set] by auto
  then have "rel = [demo_seq 2, demo_seq 3]" using inj [of rel] q(4) L run(1) unfolding q(2) [symmetric] by auto
  then show ?thesis using reorder_conserves [OF k M T] t(2) L M q run by (cases r2) auto
qed

text \<open>The answer to a block acknowledgement request restarts the window while a frame of the
  old session may still wait. When the timer gives that frame up, the window falls back to it, and the
  frames of the new session are refused.
\<close>

lemma add_ba_rsp_hdl_window_falls_back:
  "(let c = fst (ro_run init_reorder_ctrl [Arrive 8 (demo_seq 8), Arrive 10 (demo_seq 10)]);
        c = fst (ro_run (add_ba_rsp_hdl 0 c) [Arrive 3000 (demo_seq 3000), Expire])
    in indicate_seq c = 11 \<and> fst (reorder_locked True c (demo_seq 3001)) = Fail)"
  by (simp add: reorder_locked_def check_indicate_seq_def init_reorder_ctrl_def SN_LESS_def SN_EQUAL_def Let_def
      recv_indicatepkts_in_order_def add_ba_rsp_hdl_def rtw_reordering_ctrl_timeout_handler_def
      recv_indicatepkts_pkt_loss_cnt_def)

end
