(* ===== verification/PwrSeq.thy ===== *)
theory PwrSeq
  imports Frames
begin

unbundle bit_operations_syntax

text \<open>
  The power sequences of the chip: the interpreter of \<open>hal/HalPwrSeqCmd.c\<close>, the tables of
  \<open>include/Hal8723BPwrSeq.h\<close> and \<open>hal/rtl8723b/Hal8723BPwrSeq.c\<close>, and \<open>CardEnable\<close> of
  \<open>hal/rtl8723b/sdio/sdio_halinit.c\<close>. The chip is a parameter: its state and what reads, writes and
  delays do to it.
\<close>

section \<open>Commands\<close>

type_synonym u4 = "4 word"

definition PWR_CMD_READ :: u4 where "PWR_CMD_READ = 0x00"
definition PWR_CMD_WRITE :: u4 where "PWR_CMD_WRITE = 0x01"
definition PWR_CMD_POLLING :: u4 where "PWR_CMD_POLLING = 0x02"
definition PWR_CMD_DELAY :: u4 where "PWR_CMD_DELAY = 0x03"
definition PWR_CMD_END :: u4 where "PWR_CMD_END = 0x04"
definition PWR_BASEADDR_MAC :: u4 where "PWR_BASEADDR_MAC = 0x00"
definition PWR_BASEADDR_SDIO :: u4 where "PWR_BASEADDR_SDIO = 0x03"
definition PWR_INTF_SDIO :: u4 where "PWR_INTF_SDIO = 1"
definition PWR_INTF_USB :: u4 where "PWR_INTF_USB = 2"
definition PWR_INTF_PCI :: u4 where "PWR_INTF_PCI = 4"
definition PWR_INTF_ALL :: u4 where "PWR_INTF_ALL = 15"
definition PWRSEQ_DELAY_US :: u8 where "PWRSEQ_DELAY_US = 0"
definition PWRSEQ_DELAY_MS :: u8 where "PWRSEQ_DELAY_MS = 1"

lemmas pwr_consts = PWR_CMD_READ_def PWR_CMD_WRITE_def PWR_CMD_POLLING_def PWR_CMD_DELAY_def PWR_CMD_END_def
  PWR_BASEADDR_MAC_def PWR_BASEADDR_SDIO_def PWR_INTF_SDIO_def PWR_INTF_USB_def PWR_INTF_PCI_def PWR_INTF_ALL_def
  PWRSEQ_DELAY_US_def PWRSEQ_DELAY_MS_def

record wlan_pwr_cfg =
  pc_offset :: u16
  pc_cut_msk :: u8
  pc_fab_msk :: u4
  pc_interface_msk :: u4
  pc_base :: u4
  pc_cmd :: u4
  pc_msk :: u8
  pc_value :: u8

definition pwr_cfg :: "u16 \<Rightarrow> u8 \<Rightarrow> u4 \<Rightarrow> u4 \<Rightarrow> u4 \<Rightarrow> u4 \<Rightarrow> u8 \<Rightarrow> u8 \<Rightarrow> wlan_pwr_cfg" where
  "pwr_cfg off cv fab intf base cmd msk val = \<lparr>pc_offset = off, pc_cut_msk = cv, pc_fab_msk = fab,
     pc_interface_msk = intf, pc_base = base, pc_cmd = cmd, pc_msk = msk, pc_value = val\<rparr>"

section \<open>The tables\<close>

definition TRANS_CARDEMU_TO_ACT :: "wlan_pwr_cfg list" where
  "TRANS_CARDEMU_TO_ACT =
    [pwr_cfg 0x20 0xff 0xF (PWR_INTF_USB OR PWR_INTF_SDIO) PWR_BASEADDR_MAC PWR_CMD_WRITE 1 1,
     pwr_cfg 0x67 0xff 0xF (PWR_INTF_USB OR PWR_INTF_SDIO) PWR_BASEADDR_MAC PWR_CMD_WRITE 0x10 0,
     pwr_cfg 0x1 0xff 0xF (PWR_INTF_USB OR PWR_INTF_SDIO) PWR_BASEADDR_MAC PWR_CMD_DELAY 1 PWRSEQ_DELAY_MS,
     pwr_cfg 0x0 0xff 0xF (PWR_INTF_USB OR PWR_INTF_SDIO) PWR_BASEADDR_MAC PWR_CMD_WRITE 0x20 0,
     pwr_cfg 0x5 0xff 0xF PWR_INTF_ALL PWR_BASEADDR_MAC PWR_CMD_WRITE 0x1c 0,
     pwr_cfg 0x75 0xff 0xF PWR_INTF_PCI PWR_BASEADDR_MAC PWR_CMD_WRITE 1 1,
     pwr_cfg 0x6 0xff 0xF PWR_INTF_ALL PWR_BASEADDR_MAC PWR_CMD_POLLING 0x2 0x2,
     pwr_cfg 0x75 0xff 0xF PWR_INTF_PCI PWR_BASEADDR_MAC PWR_CMD_WRITE 1 0,
     pwr_cfg 0x6 0xff 0xF PWR_INTF_ALL PWR_BASEADDR_MAC PWR_CMD_WRITE 1 1,
     pwr_cfg 0x5 0xff 0xF PWR_INTF_ALL PWR_BASEADDR_MAC PWR_CMD_WRITE 0x80 0,
     pwr_cfg 0x5 0xff 0xF PWR_INTF_ALL PWR_BASEADDR_MAC PWR_CMD_WRITE 0x18 0,
     pwr_cfg 0x5 0xff 0xF PWR_INTF_ALL PWR_BASEADDR_MAC PWR_CMD_WRITE 1 1,
     pwr_cfg 0x5 0xff 0xF PWR_INTF_ALL PWR_BASEADDR_MAC PWR_CMD_POLLING 1 0,
     pwr_cfg 0x10 0xff 0xF PWR_INTF_ALL PWR_BASEADDR_MAC PWR_CMD_WRITE 0x40 0x40,
     pwr_cfg 0x49 0xff 0xF PWR_INTF_ALL PWR_BASEADDR_MAC PWR_CMD_WRITE 0x2 0x2,
     pwr_cfg 0x63 0xff 0xF PWR_INTF_ALL PWR_BASEADDR_MAC PWR_CMD_WRITE 0x2 0x2,
     pwr_cfg 0x62 0xff 0xF PWR_INTF_ALL PWR_BASEADDR_MAC PWR_CMD_WRITE 0x2 0,
     pwr_cfg 0x58 0xff 0xF PWR_INTF_ALL PWR_BASEADDR_MAC PWR_CMD_WRITE 1 1,
     pwr_cfg 0x5a 0xff 0xF PWR_INTF_ALL PWR_BASEADDR_MAC PWR_CMD_WRITE 0x2 0x2,
     pwr_cfg 0x68 0x1 0xF PWR_INTF_ALL PWR_BASEADDR_MAC PWR_CMD_WRITE 0x8 0x8,
     pwr_cfg 0x69 0xff 0xF PWR_INTF_ALL PWR_BASEADDR_MAC PWR_CMD_WRITE 0x40 0x40]"

definition TRANS_ACT_TO_CARDEMU :: "wlan_pwr_cfg list" where
  "TRANS_ACT_TO_CARDEMU =
    [pwr_cfg 0x1f 0xff 0xF PWR_INTF_ALL PWR_BASEADDR_MAC PWR_CMD_WRITE 0xff 0,
     pwr_cfg 0x49 0xff 0xF PWR_INTF_ALL PWR_BASEADDR_MAC PWR_CMD_WRITE 0x2 0,
     pwr_cfg 0x6 0xff 0xF PWR_INTF_ALL PWR_BASEADDR_MAC PWR_CMD_WRITE 1 1,
     pwr_cfg 0x5 0xff 0xF PWR_INTF_ALL PWR_BASEADDR_MAC PWR_CMD_WRITE 0x2 0x2,
     pwr_cfg 0x5 0xff 0xF PWR_INTF_ALL PWR_BASEADDR_MAC PWR_CMD_POLLING 0x2 0,
     pwr_cfg 0x10 0xff 0xF PWR_INTF_ALL PWR_BASEADDR_MAC PWR_CMD_WRITE 0x40 0,
     pwr_cfg 0x0 0xff 0xF (PWR_INTF_USB OR PWR_INTF_SDIO) PWR_BASEADDR_MAC PWR_CMD_WRITE 0x20 0x20,
     pwr_cfg 0x20 0xff 0xF (PWR_INTF_USB OR PWR_INTF_SDIO) PWR_BASEADDR_MAC PWR_CMD_WRITE 1 0]"

definition TRANS_CARDEMU_TO_SUS :: "wlan_pwr_cfg list" where
  "TRANS_CARDEMU_TO_SUS =
    [pwr_cfg 0x5 0xff 0xF PWR_INTF_PCI PWR_BASEADDR_MAC PWR_CMD_WRITE 0x18 0x18,
     pwr_cfg 0x5 0xff 0xF (PWR_INTF_USB OR PWR_INTF_SDIO) PWR_BASEADDR_MAC PWR_CMD_WRITE 0x18 0x8,
     pwr_cfg 0x23 0xff 0xF PWR_INTF_SDIO PWR_BASEADDR_MAC PWR_CMD_WRITE 0x10 0x10,
     pwr_cfg 0x7 0xff 0xF PWR_INTF_SDIO PWR_BASEADDR_MAC PWR_CMD_WRITE 0xff 0x20,
     pwr_cfg 0x5 0xff 0xF PWR_INTF_PCI PWR_BASEADDR_MAC PWR_CMD_WRITE 0x18 0x18,
     pwr_cfg 0x86 0xff 0xF PWR_INTF_SDIO PWR_BASEADDR_SDIO PWR_CMD_WRITE 1 1,
     pwr_cfg 0x86 0xff 0xF PWR_INTF_SDIO PWR_BASEADDR_SDIO PWR_CMD_POLLING 0x2 0]"

definition TRANS_SUS_TO_CARDEMU :: "wlan_pwr_cfg list" where
  "TRANS_SUS_TO_CARDEMU =
    [pwr_cfg 0x5 0xff 0xF PWR_INTF_ALL PWR_BASEADDR_MAC PWR_CMD_WRITE 0x88 0,
     pwr_cfg 0x86 0xff 0xF PWR_INTF_SDIO PWR_BASEADDR_SDIO PWR_CMD_WRITE 1 0,
     pwr_cfg 0x86 0xff 0xF PWR_INTF_SDIO PWR_BASEADDR_SDIO PWR_CMD_POLLING 0x2 0x2,
     pwr_cfg 0x23 0xff 0xF PWR_INTF_SDIO PWR_BASEADDR_MAC PWR_CMD_WRITE 0x10 0,
     pwr_cfg 0x5 0xff 0xF PWR_INTF_ALL PWR_BASEADDR_MAC PWR_CMD_WRITE 0x18 0]"

definition TRANS_CARDEMU_TO_CARDDIS :: "wlan_pwr_cfg list" where
  "TRANS_CARDEMU_TO_CARDDIS =
    [pwr_cfg 0x7 0xff 0xF PWR_INTF_SDIO PWR_BASEADDR_MAC PWR_CMD_WRITE 0xff 0x20,
     pwr_cfg 0x5 0xff 0xF (PWR_INTF_USB OR PWR_INTF_SDIO) PWR_BASEADDR_MAC PWR_CMD_WRITE 0x18 0x8,
     pwr_cfg 0x5 0xff 0xF PWR_INTF_PCI PWR_BASEADDR_MAC PWR_CMD_WRITE 0x4 0x4,
     pwr_cfg 0x4a 0xff 0xF PWR_INTF_USB PWR_BASEADDR_MAC PWR_CMD_WRITE 1 1,
     pwr_cfg 0x23 0xff 0xF PWR_INTF_SDIO PWR_BASEADDR_MAC PWR_CMD_WRITE 0x10 0x10,
     pwr_cfg 0x86 0xff 0xF PWR_INTF_SDIO PWR_BASEADDR_SDIO PWR_CMD_WRITE 1 1,
     pwr_cfg 0x86 0xff 0xF PWR_INTF_SDIO PWR_BASEADDR_SDIO PWR_CMD_POLLING 0x2 0]"

definition TRANS_CARDDIS_TO_CARDEMU :: "wlan_pwr_cfg list" where
  "TRANS_CARDDIS_TO_CARDEMU =
    [pwr_cfg 0x5 0xff 0xF PWR_INTF_ALL PWR_BASEADDR_MAC PWR_CMD_WRITE 0x88 0,
     pwr_cfg 0x86 0xff 0xF PWR_INTF_SDIO PWR_BASEADDR_SDIO PWR_CMD_WRITE 1 0,
     pwr_cfg 0x86 0xff 0xF PWR_INTF_SDIO PWR_BASEADDR_SDIO PWR_CMD_POLLING 0x2 0x2,
     pwr_cfg 0x4a 0xff 0xF PWR_INTF_USB PWR_BASEADDR_MAC PWR_CMD_WRITE 1 0,
     pwr_cfg 0x5 0xff 0xF PWR_INTF_ALL PWR_BASEADDR_MAC PWR_CMD_WRITE 0x18 0,
     pwr_cfg 0x23 0xff 0xF PWR_INTF_SDIO PWR_BASEADDR_MAC PWR_CMD_WRITE 0x10 0,
     pwr_cfg 0x301 0xff 0xF PWR_INTF_PCI PWR_BASEADDR_MAC PWR_CMD_WRITE 0xff 0]"

definition TRANS_CARDEMU_TO_PDN :: "wlan_pwr_cfg list" where
  "TRANS_CARDEMU_TO_PDN =
    [pwr_cfg 0x23 0xff 0xF PWR_INTF_SDIO PWR_BASEADDR_MAC PWR_CMD_WRITE 0x10 0x10,
     pwr_cfg 0x7 0xff 0xF (PWR_INTF_USB OR PWR_INTF_SDIO) PWR_BASEADDR_MAC PWR_CMD_WRITE 0xff 0x20,
     pwr_cfg 0x6 0xff 0xF PWR_INTF_ALL PWR_BASEADDR_MAC PWR_CMD_WRITE 1 0,
     pwr_cfg 0x5 0xff 0xF PWR_INTF_ALL PWR_BASEADDR_MAC PWR_CMD_WRITE 0x80 0x80]"

definition TRANS_PDN_TO_CARDEMU :: "wlan_pwr_cfg list" where
  "TRANS_PDN_TO_CARDEMU =
    [pwr_cfg 0x5 0xff 0xF PWR_INTF_ALL PWR_BASEADDR_MAC PWR_CMD_WRITE 0x80 0]"

definition TRANS_ACT_TO_LPS :: "wlan_pwr_cfg list" where
  "TRANS_ACT_TO_LPS =
    [pwr_cfg 0x301 0xff 0xF PWR_INTF_PCI PWR_BASEADDR_MAC PWR_CMD_WRITE 0xff 0xff,
     pwr_cfg 0x522 0xff 0xF PWR_INTF_ALL PWR_BASEADDR_MAC PWR_CMD_WRITE 0xff 0xff,
     pwr_cfg 0x5f8 0xff 0xF PWR_INTF_ALL PWR_BASEADDR_MAC PWR_CMD_POLLING 0xff 0,
     pwr_cfg 0x5f9 0xff 0xF PWR_INTF_ALL PWR_BASEADDR_MAC PWR_CMD_POLLING 0xff 0,
     pwr_cfg 0x5fa 0xff 0xF PWR_INTF_ALL PWR_BASEADDR_MAC PWR_CMD_POLLING 0xff 0,
     pwr_cfg 0x5fb 0xff 0xF PWR_INTF_ALL PWR_BASEADDR_MAC PWR_CMD_POLLING 0xff 0,
     pwr_cfg 0x2 0xff 0xF PWR_INTF_ALL PWR_BASEADDR_MAC PWR_CMD_WRITE 1 0,
     pwr_cfg 0x2 0xff 0xF PWR_INTF_ALL PWR_BASEADDR_MAC PWR_CMD_DELAY 0 PWRSEQ_DELAY_US,
     pwr_cfg 0x2 0xff 0xF PWR_INTF_ALL PWR_BASEADDR_MAC PWR_CMD_WRITE 0x2 0,
     pwr_cfg 0x100 0xff 0xF PWR_INTF_ALL PWR_BASEADDR_MAC PWR_CMD_WRITE 0xff 0x3,
     pwr_cfg 0x101 0xff 0xF PWR_INTF_ALL PWR_BASEADDR_MAC PWR_CMD_WRITE 0x2 0,
     pwr_cfg 0x93 0xff 0xF PWR_INTF_SDIO PWR_BASEADDR_MAC PWR_CMD_WRITE 0xff 0,
     pwr_cfg 0x553 0xff 0xF PWR_INTF_ALL PWR_BASEADDR_MAC PWR_CMD_WRITE 0x20 0x20]"

definition TRANS_LPS_TO_ACT :: "wlan_pwr_cfg list" where
  "TRANS_LPS_TO_ACT =
    [pwr_cfg 0x80 0xff 0xF PWR_INTF_SDIO PWR_BASEADDR_SDIO PWR_CMD_WRITE 0xff 0x84,
     pwr_cfg 0xfe58 0xff 0xF PWR_INTF_USB PWR_BASEADDR_MAC PWR_CMD_WRITE 0xff 0x84,
     pwr_cfg 0x361 0xff 0xF PWR_INTF_PCI PWR_BASEADDR_MAC PWR_CMD_WRITE 0xff 0x84,
     pwr_cfg 0x2 0xff 0xF PWR_INTF_ALL PWR_BASEADDR_MAC PWR_CMD_DELAY 0 PWRSEQ_DELAY_MS,
     pwr_cfg 0x8 0xff 0xF PWR_INTF_ALL PWR_BASEADDR_MAC PWR_CMD_WRITE 0x10 0,
     pwr_cfg 0x109 0xff 0xF PWR_INTF_ALL PWR_BASEADDR_MAC PWR_CMD_POLLING 0x80 0,
     pwr_cfg 0x29 0xff 0xF PWR_INTF_ALL PWR_BASEADDR_MAC PWR_CMD_WRITE 0xc0 0,
     pwr_cfg 0x101 0xff 0xF PWR_INTF_ALL PWR_BASEADDR_MAC PWR_CMD_WRITE 0x2 0x2,
     pwr_cfg 0x100 0xff 0xF PWR_INTF_ALL PWR_BASEADDR_MAC PWR_CMD_WRITE 0xff 0xff,
     pwr_cfg 0x2 0xff 0xF PWR_INTF_ALL PWR_BASEADDR_MAC PWR_CMD_WRITE 0x3 0x3,
     pwr_cfg 0x522 0xff 0xF PWR_INTF_ALL PWR_BASEADDR_MAC PWR_CMD_WRITE 0xff 0]"

definition TRANS_ACT_TO_SWLPS :: "wlan_pwr_cfg list" where
  "TRANS_ACT_TO_SWLPS =
    [pwr_cfg 0x194 0xff 0xF PWR_INTF_SDIO PWR_BASEADDR_MAC PWR_CMD_WRITE 1 1,
     pwr_cfg 0x2 0xff 0xF PWR_INTF_SDIO PWR_BASEADDR_MAC PWR_CMD_WRITE 1 0,
     pwr_cfg 0x2 0xff 0xF PWR_INTF_SDIO PWR_BASEADDR_MAC PWR_CMD_WRITE 1 1,
     pwr_cfg 0x2 0xff 0xF PWR_INTF_SDIO PWR_BASEADDR_MAC PWR_CMD_WRITE 1 0,
     pwr_cfg 0x2 0xff 0xF PWR_INTF_SDIO PWR_BASEADDR_MAC PWR_CMD_WRITE 1 1,
     pwr_cfg 0x2 0xff 0xF PWR_INTF_SDIO PWR_BASEADDR_MAC PWR_CMD_WRITE 1 0,
     pwr_cfg 0x100 0xff 0xF PWR_INTF_SDIO PWR_BASEADDR_MAC PWR_CMD_WRITE 0xff 0x3f,
     pwr_cfg 0x101 0xff 0xF PWR_INTF_SDIO PWR_BASEADDR_MAC PWR_CMD_WRITE 0x2 0,
     pwr_cfg 0x93 0xff 0xF PWR_INTF_SDIO PWR_BASEADDR_MAC PWR_CMD_WRITE 0xff 0x40,
     pwr_cfg 0x553 0xff 0xF PWR_INTF_SDIO PWR_BASEADDR_MAC PWR_CMD_WRITE 0x20 0x20,
     pwr_cfg 0x3 0xff 0xF PWR_INTF_SDIO PWR_BASEADDR_MAC PWR_CMD_WRITE 0x4 0,
     pwr_cfg 0x80 0xff 0xF PWR_INTF_SDIO PWR_BASEADDR_MAC PWR_CMD_WRITE 0xff 0,
     pwr_cfg 0x1d 0xff 0xF PWR_INTF_SDIO PWR_BASEADDR_MAC PWR_CMD_WRITE 1 0,
     pwr_cfg 0x1d 0xff 0xF PWR_INTF_SDIO PWR_BASEADDR_MAC PWR_CMD_WRITE 1 1,
     pwr_cfg 0x287 0xff 0xF PWR_INTF_SDIO PWR_BASEADDR_MAC PWR_CMD_POLLING 0xff 0,
     pwr_cfg 0x286 0xff 0xF PWR_INTF_SDIO PWR_BASEADDR_MAC PWR_CMD_POLLING 0x2 0x2,
     pwr_cfg 0x13d 0xff 0xF PWR_INTF_SDIO PWR_BASEADDR_MAC PWR_CMD_WRITE 1 1,
     pwr_cfg 0x139 0xff 0xF PWR_INTF_SDIO PWR_BASEADDR_MAC PWR_CMD_WRITE 1 1,
     pwr_cfg 0x8 0xff 0xF PWR_INTF_SDIO PWR_BASEADDR_MAC PWR_CMD_WRITE 0x10 0x10,
     pwr_cfg 0x109 0xff 0xF PWR_INTF_SDIO PWR_BASEADDR_MAC PWR_CMD_WRITE 0x80 0x80,
     pwr_cfg 0x90 0xff 0xF PWR_INTF_SDIO PWR_BASEADDR_MAC PWR_CMD_WRITE 1 1,
     pwr_cfg 0x90 0xff 0xF PWR_INTF_SDIO PWR_BASEADDR_MAC PWR_CMD_POLLING 1 0]"

definition TRANS_SWLPS_TO_ACT :: "wlan_pwr_cfg list" where
  "TRANS_SWLPS_TO_ACT =
    [pwr_cfg 0x8 0xff 0xF PWR_INTF_SDIO PWR_BASEADDR_MAC PWR_CMD_WRITE 0x10 0,
     pwr_cfg 0x109 0xff 0xF PWR_INTF_SDIO PWR_BASEADDR_MAC PWR_CMD_WRITE 0x80 0,
     pwr_cfg 0x101 0xff 0xF PWR_INTF_SDIO PWR_BASEADDR_MAC PWR_CMD_WRITE 0x2 0x2,
     pwr_cfg 0x100 0xff 0xF PWR_INTF_SDIO PWR_BASEADDR_MAC PWR_CMD_WRITE 0xff 0xff,
     pwr_cfg 0x6b7 0xff 0xF PWR_INTF_SDIO PWR_BASEADDR_MAC PWR_CMD_WRITE 0xff 0x9,
     pwr_cfg 0x6b4 0xff 0xF PWR_INTF_SDIO PWR_BASEADDR_MAC PWR_CMD_WRITE 0xff 0x86,
     pwr_cfg 0x80 0xff 0xF PWR_INTF_SDIO PWR_BASEADDR_MAC PWR_CMD_WRITE 0x2 0x2,
     pwr_cfg 0x1d 0xff 0xF PWR_INTF_SDIO PWR_BASEADDR_MAC PWR_CMD_WRITE 1 0,
     pwr_cfg 0x3 0xff 0xF PWR_INTF_SDIO PWR_BASEADDR_MAC PWR_CMD_WRITE 0x4 0,
     pwr_cfg 0x1d 0xff 0xF PWR_INTF_SDIO PWR_BASEADDR_MAC PWR_CMD_WRITE 1 1,
     pwr_cfg 0x3 0xff 0xF PWR_INTF_SDIO PWR_BASEADDR_MAC PWR_CMD_WRITE 0x4 0x4,
     pwr_cfg 0x80 0xff 0xF PWR_INTF_SDIO PWR_BASEADDR_MAC PWR_CMD_POLLING 0x80 0x80,
     pwr_cfg 0x80 0xff 0xF PWR_INTF_SDIO PWR_BASEADDR_MAC PWR_CMD_POLLING 0x40 0x40,
     pwr_cfg 0x2 0xff 0xF PWR_INTF_SDIO PWR_BASEADDR_MAC PWR_CMD_WRITE 1 1,
     pwr_cfg 0x522 0xff 0xF PWR_INTF_SDIO PWR_BASEADDR_MAC PWR_CMD_WRITE 0xff 0]"

definition TRANS_END :: "wlan_pwr_cfg list" where
  "TRANS_END =
    [pwr_cfg 0xffff 0xff 0xF PWR_INTF_ALL PWR_BASEADDR_MAC PWR_CMD_END 0 0]"


definition rtl8723B_power_on_flow :: "wlan_pwr_cfg list" where
  "rtl8723B_power_on_flow = TRANS_CARDEMU_TO_ACT @ TRANS_END"

definition rtl8723B_radio_off_flow :: "wlan_pwr_cfg list" where
  "rtl8723B_radio_off_flow = TRANS_ACT_TO_CARDEMU @ TRANS_END"

definition rtl8723B_card_disable_flow :: "wlan_pwr_cfg list" where
  "rtl8723B_card_disable_flow = TRANS_ACT_TO_CARDEMU @ TRANS_CARDEMU_TO_CARDDIS @ TRANS_END"

definition rtl8723B_card_enable_flow :: "wlan_pwr_cfg list" where
  "rtl8723B_card_enable_flow = TRANS_CARDDIS_TO_CARDEMU @ TRANS_CARDEMU_TO_ACT @ TRANS_END"

definition rtl8723B_suspend_flow :: "wlan_pwr_cfg list" where
  "rtl8723B_suspend_flow = TRANS_ACT_TO_CARDEMU @ TRANS_CARDEMU_TO_SUS @ TRANS_END"

definition rtl8723B_resume_flow :: "wlan_pwr_cfg list" where
  "rtl8723B_resume_flow = TRANS_SUS_TO_CARDEMU @ TRANS_CARDEMU_TO_ACT @ TRANS_END"

definition rtl8723B_hwpdn_flow :: "wlan_pwr_cfg list" where
  "rtl8723B_hwpdn_flow = TRANS_ACT_TO_CARDEMU @ TRANS_CARDEMU_TO_PDN @ TRANS_END"

definition rtl8723B_enter_lps_flow :: "wlan_pwr_cfg list" where
  "rtl8723B_enter_lps_flow = TRANS_ACT_TO_LPS @ TRANS_END"

definition rtl8723B_leave_lps_flow :: "wlan_pwr_cfg list" where
  "rtl8723B_leave_lps_flow = TRANS_LPS_TO_ACT @ TRANS_END"

definition rtl8723B_enter_swlps_flow :: "wlan_pwr_cfg list" where
  "rtl8723B_enter_swlps_flow = TRANS_ACT_TO_SWLPS @ TRANS_END"

definition rtl8723B_leave_swlps_flow :: "wlan_pwr_cfg list" where
  "rtl8723B_leave_swlps_flow = TRANS_SWLPS_TO_ACT @ TRANS_END"

definition rtl8723B_flows :: "wlan_pwr_cfg list list" where
  "rtl8723B_flows = [rtl8723B_power_on_flow, rtl8723B_radio_off_flow, rtl8723B_card_disable_flow,
     rtl8723B_card_enable_flow, rtl8723B_suspend_flow, rtl8723B_resume_flow, rtl8723B_hwpdn_flow,
     rtl8723B_enter_lps_flow, rtl8723B_leave_lps_flow, rtl8723B_enter_swlps_flow, rtl8723B_leave_swlps_flow]"

section \<open>The interpreter\<close>

text \<open>
  The chip: reading and writing a system register (\<open>rtw_read8\<close>, \<open>rtw_write8\<close>) and a register of the SDIO
  block (\<open>SdioLocalCmd52Read1Byte\<close>, \<open>SdioLocalCmd52Write1Byte\<close>), waiting some microseconds, and
  the answers to \<open>HW_VAR_PWR_CMD\<close> and \<open>IS_HARDWARE_TYPE_8723DE\<close>.
\<close>

record 'w pwr_io =
  io_read8 :: "u32 \<Rightarrow> 'w \<Rightarrow> u8 \<times> 'w"
  io_write8 :: "u32 \<Rightarrow> u8 \<Rightarrow> 'w \<Rightarrow> 'w"
  cmd52_read :: "u32 \<Rightarrow> 'w \<Rightarrow> u8 \<times> 'w"
  cmd52_write :: "u32 \<Rightarrow> u8 \<Rightarrow> 'w \<Rightarrow> 'w"
  io_udelay :: "u32 \<Rightarrow> 'w \<Rightarrow> 'w"
  hwic_support :: bool
  is_8723de :: bool

definition pwr_read :: "'w pwr_io \<Rightarrow> wlan_pwr_cfg \<Rightarrow> 'w \<Rightarrow> u8 \<times> 'w" where
  "pwr_read io e = (if pc_base e = PWR_BASEADDR_SDIO then cmd52_read io (ucast (pc_offset e)) else io_read8 io (ucast (pc_offset e)))"

definition pwr_write :: "'w pwr_io \<Rightarrow> wlan_pwr_cfg \<Rightarrow> 'w \<Rightarrow> 'w" where
  "pwr_write io e w =
     (let (value, w) = pwr_read io e w;
          value = value AND NOT (pc_msk e);
          value = value OR (pc_value e AND pc_msk e)
      in (if pc_base e = PWR_BASEADDR_SDIO then cmd52_write io else io_write8 io) (ucast (pc_offset e)) value w)"

definition max_polling_cnt :: "'w pwr_io \<Rightarrow> wlan_pwr_cfg \<Rightarrow> u32" where
  "max_polling_cnt io e = (if hwic_support io \<and> pc_offset e = 0x06 then 100000 else 5000)"

text \<open>The toggling of \<open>0x04[3]\<close> after a timeout.\<close>

definition pwr_toggle :: "'w pwr_io \<Rightarrow> 'w \<Rightarrow> 'w" where
  "pwr_toggle io w =
     (let upd = (\<lambda>off f w. let (v, w) = io_read8 io off w in io_write8 io off (f v) w);
          w = (if is_8723de io then upd 0x40 (\<lambda>v. v AND NOT 8) w else w);
          w = upd 0x04 (\<lambda>v. v OR 8) w;
          w = upd 0x04 (\<lambda>v. v AND NOT 8) w
      in if is_8723de io then upd 0x40 (\<lambda>v. v OR 8) w else w)"

text \<open>
  The polling loop: whether the value was seen, \<open>pollingCount\<close> and \<open>flag\<close> afterwards. The number of
  polls is checked after the value, whether it was the right one or not.
\<close>

function pwr_poll :: "'w pwr_io \<Rightarrow> wlan_pwr_cfg \<Rightarrow> u8 \<Rightarrow> u32 \<Rightarrow> 'w \<Rightarrow> bool \<times> u32 \<times> u8 \<times> 'w" where
  "pwr_poll io e flag cnt w =
     (let (value, w) = pwr_read io e w;
          hit = (value AND pc_msk e = pc_value e AND pc_msk e);
          w = (if hit then w else io_udelay io 10 w)
      in if max_polling_cnt io e < cnt then
           (if hwic_support io \<and> pc_offset e = 0x06 \<and> flag = 0 then
              (if hit then (True, 0, 1, pwr_toggle io w) else pwr_poll io e 1 0 (pwr_toggle io w))
            else (False, cnt + 1, flag, w))
         else if hit then (True, cnt + 1, flag, w)
         else pwr_poll io e flag (cnt + 1) w)"
  by pat_completeness auto
termination
proof (relation "measures [\<lambda>(_, _, flag, _, _). if flag = 0 then 1 else 0, \<lambda>(_, _, _, cnt, _). 100001 - unat cnt]", goal_cases)
  case (3 io e flag cnt w x v w' hit w'')
  then have "unat cnt \<le> unat (max_polling_cnt io e)" by (simp add: word_le_nat_alt not_less)
  also have "\<dots> \<le> 100000" by (simp add: max_polling_cnt_def)
  finally show ?case by (simp add: unat_word_ariths)
qed auto

declare pwr_poll.simps [simp del]

definition pwr_match :: "u8 \<Rightarrow> u8 \<Rightarrow> u8 \<Rightarrow> wlan_pwr_cfg \<Rightarrow> bool" where
  "pwr_match cv fab intf e \<longleftrightarrow> ucast (pc_fab_msk e) AND fab \<noteq> 0 \<and> pc_cut_msk e AND cv \<noteq> 0 \<and>
     ucast (pc_interface_msk e) AND intf \<noteq> 0"

text \<open>The loop over the table; \<open>None\<close>: it runs past the end.\<close>

fun pwr_seq :: "'w pwr_io \<Rightarrow> u8 \<Rightarrow> u8 \<Rightarrow> u8 \<Rightarrow> wlan_pwr_cfg list \<Rightarrow> u8 \<Rightarrow> u32 \<Rightarrow> 'w \<Rightarrow> (bool \<times> 'w) option" where
  "pwr_seq io cv fab intf [] flag cnt w = None"
| "pwr_seq io cv fab intf (e # es) flag cnt w =
     (if \<not> pwr_match cv fab intf e then pwr_seq io cv fab intf es flag cnt w
      else if pc_cmd e = PWR_CMD_WRITE then pwr_seq io cv fab intf es flag cnt (pwr_write io e w)
      else if pc_cmd e = PWR_CMD_POLLING then
        (let flag = (if hwic_support io \<and> pc_offset e = 0x06 then 0 else flag);
             (ok, cnt, flag, w) = pwr_poll io e flag cnt w
         in if ok then pwr_seq io cv fab intf es flag cnt w else Some (False, w))
      else if pc_cmd e = PWR_CMD_DELAY then
        pwr_seq io cv fab intf es flag cnt
          (io_udelay io (if pc_value e = PWRSEQ_DELAY_US then ucast (pc_offset e) else ucast (pc_offset e) * 1000) w)
      else if pc_cmd e = PWR_CMD_END then Some (True, w)
      else pwr_seq io cv fab intf es flag cnt w)"

definition HalPwrSeqCmdParsing :: "'w pwr_io \<Rightarrow> u8 \<Rightarrow> u8 \<Rightarrow> u8 \<Rightarrow> wlan_pwr_cfg list \<Rightarrow> 'w \<Rightarrow> (bool \<times> 'w) option" where
  "HalPwrSeqCmdParsing io CutVersion FabVersion InterfaceType PwrSeqCmd w =
     pwr_seq io CutVersion FabVersion InterfaceType PwrSeqCmd 0 0 w"

text \<open>\<open>bMacPwrCtrlOn\<close> is the answer to \<open>HW_VAR_APFM_ON_MAC\<close>.\<close>

definition REG_RSV_CTRL :: u32 where
  "REG_RSV_CTRL = 0x001C"

definition CardEnable :: "'w pwr_io \<Rightarrow> bool \<Rightarrow> 'w \<Rightarrow> (result \<times> bool \<times> 'w) option" where
  "CardEnable io bMacPwrCtrlOn w =
     (if \<not> bMacPwrCtrlOn then
        (case HalPwrSeqCmdParsing io 0xFF 15 1 rtl8723B_card_enable_flow (io_write8 io REG_RSV_CTRL 0 w) of
           None \<Rightarrow> None
         | Some (True, w) \<Rightarrow> Some (Success, True, w)
         | Some (False, w) \<Rightarrow> Some (Fail, False, w))
      else Some (Success, True, w))"

section \<open>The interpreter returns\<close>

text \<open>The chip with a counter of the reads of system registers and SDIO registers.\<close>

definition counted :: "'w pwr_io \<Rightarrow> ('w \<times> nat) pwr_io" where
  "counted io = \<lparr>io_read8 = (\<lambda>off (w, n). let (v, w) = io_read8 io off w in (v, w, n + 1)),
     io_write8 = (\<lambda>off v (w, n). (io_write8 io off v w, n)),
     cmd52_read = (\<lambda>off (w, n). let (v, w) = cmd52_read io off w in (v, w, n + 1)),
     cmd52_write = (\<lambda>off v (w, n). (cmd52_write io off v w, n)),
     io_udelay = (\<lambda>d (w, n). (io_udelay io d w, n)),
     hwic_support = hwic_support io, is_8723de = is_8723de io\<rparr>"

lemma counted_simps [simp]:
  "io_read8 (counted io) off (w, n) = (case io_read8 io off w of (v, w) \<Rightarrow> (v, w, Suc n))"
  "cmd52_read (counted io) off (w, n) = (case cmd52_read io off w of (v, w) \<Rightarrow> (v, w, Suc n))"
  "io_write8 (counted io) off v (w, n) = (io_write8 io off v w, n)"
  "cmd52_write (counted io) off v (w, n) = (cmd52_write io off v w, n)"
  "io_udelay (counted io) d (w, n) = (io_udelay io d w, n)"
  "hwic_support (counted io) = hwic_support io" "is_8723de (counted io) = is_8723de io"
  by (simp_all add: counted_def)

lemma pwr_read_counted: "pwr_read (counted io) e (w, n) = (case pwr_read io e w of (v, w) \<Rightarrow> (v, w, Suc n))"
  by (simp add: pwr_read_def)

lemma pwr_write_counted: "pwr_write (counted io) e (w, n) = (pwr_write io e w, Suc n)"
  by (simp add: pwr_write_def pwr_read_counted split: prod.splits)

lemma max_polling_no_hwic: "\<not> hwic_support io \<Longrightarrow> max_polling_cnt io e = 5000"
  by (simp add: max_polling_cnt_def)

text \<open>One turn of the polling loop on a chip that does not ask for the retry.\<close>

lemma pwr_poll_step:
  assumes "\<not> hwic_support io"
  shows "pwr_poll io e flag cnt w =
    (let (value, w) = pwr_read io e w; hit = (value AND pc_msk e = pc_value e AND pc_msk e);
         w = (if hit then w else io_udelay io 10 w)
     in if 5000 < cnt then (False, cnt + 1, flag, w)
        else if hit then (True, cnt + 1, flag, w) else pwr_poll io e flag (cnt + 1) w)"
  using assms by (subst pwr_poll.simps) (simp add: max_polling_no_hwic Let_def split: prod.splits)

lemma unat_polls: "unat (cnt :: u32) \<le> 5001 \<Longrightarrow> unat (cnt + 1) = unat cnt + 1"
  by (simp add: unat_word_ariths)

lemma polls_left: "5000 < (cnt :: u32) \<longleftrightarrow> 5000 < unat cnt"
  by (simp add: word_less_nat_alt)

lemma pwr_poll_counts:
  assumes "\<not> hwic_support io" and "unat cnt \<le> 5001" and "pwr_poll (counted io) e flag cnt (w, n) = (ok, cnt', flag', w', n')"
  shows "n' + unat cnt = n + unat cnt' \<and> unat cnt' \<le> (if ok then 5001 else 5002)"
  using assms
proof (induction "5001 - unat cnt" arbitrary: cnt w n rule: less_induct)
  case less
  obtain v w1 where r: "pwr_read io e w = (v, w1)" by (cases "pwr_read io e w")
  have h: "\<not> hwic_support (counted io)" using less.prems(1) by simp
  note u = unat_polls [OF less.prems(2)]
  let ?hit = "v AND pc_msk e = pc_value e AND pc_msk e"
  have s: "pwr_poll (counted io) e flag cnt (w, n) =
     (if 5000 < unat cnt then (False, cnt + 1, flag, if ?hit then w1 else io_udelay io 10 w1, Suc n)
      else if ?hit then (True, cnt + 1, flag, w1, Suc n) else pwr_poll (counted io) e flag (cnt + 1) (io_udelay io 10 w1, Suc n))"
    by (subst pwr_poll_step [OF h]) (simp add: r pwr_read_counted polls_left Let_def)
  show ?case
  proof (cases "5000 < unat cnt \<or> ?hit")
    case True
    then show ?thesis using less.prems(2,3) u unfolding s by (auto split: if_splits)
  next
    case False
    then have p: "pwr_poll (counted io) e flag (cnt + 1) (io_udelay io 10 w1, Suc n) = (ok, cnt', flag', w', n')"
      using less.prems(3) unfolding s by simp
    have "5001 - unat (cnt + 1) < 5001 - unat cnt" "unat (cnt + 1) \<le> 5001" using False u by linarith+
    from less.hyps [OF this(1) less.prems(1) this(2) p] u show ?thesis by simp
  qed
qed

text \<open>A table that ends, for the arguments of the call.\<close>

definition pwr_ends :: "u8 \<Rightarrow> u8 \<Rightarrow> u8 \<Rightarrow> wlan_pwr_cfg list \<Rightarrow> bool" where
  "pwr_ends cv fab intf es \<longleftrightarrow> list_ex (\<lambda>e. pwr_match cv fab intf e \<and> pc_cmd e = PWR_CMD_END) es"

lemma pwr_seq_total: "pwr_ends cv fab intf es \<Longrightarrow> pwr_seq io cv fab intf es flag cnt w \<noteq> None"
proof (induction es arbitrary: flag cnt w)
  case (Cons e es)
  show ?case
  proof (cases "pwr_match cv fab intf e \<and> pc_cmd e = PWR_CMD_END")
    case True
    then show ?thesis by (simp add: pwr_consts)
  next
    case False
    then have "pwr_ends cv fab intf es" using Cons.prems by (auto simp: pwr_ends_def)
    note IH = Cons.IH [OF this]
    show ?thesis
      using IH False by (cases "pwr_poll io e (if hwic_support io \<and> pc_offset e = 0x06 then 0 else flag) cnt w") (simp add: Let_def del: not_None_eq)
  qed
qed (simp add: pwr_ends_def)

lemma pwr_seq_counts:
  assumes "\<not> hwic_support io" and "unat cnt \<le> 5001" and "pwr_seq (counted io) cv fab intf es flag cnt (w, n) = Some (r, w', n')"
  shows "n' + unat cnt \<le> n + length es + 5002"
  using assms
proof (induction es arbitrary: flag cnt w n)
  case (Cons e es)
  show ?case
  proof (cases "pwr_match cv fab intf e \<and> pc_cmd e = PWR_CMD_POLLING")
    case True
    then have neq: "pc_cmd e \<noteq> PWR_CMD_WRITE" by (simp add: pwr_consts)
    obtain ok cnt1 flag1 w1 n1 where p: "pwr_poll (counted io) e flag cnt (w, n) = (ok, cnt1, flag1, w1, n1)"
      by (cases "pwr_poll (counted io) e flag cnt (w, n)") auto
    have c: "n1 + unat cnt = n + unat cnt1" "unat cnt1 \<le> (if ok then 5001 else 5002)"
      using pwr_poll_counts [OF Cons.prems(1,2) p] by auto
    show ?thesis
    proof (cases ok)
      case True
      then have s: "pwr_seq (counted io) cv fab intf es flag1 cnt1 (w1, n1) = Some (r, w', n')"
        using Cons.prems(1,3) \<open>pwr_match cv fab intf e \<and> _\<close> neq p by (simp add: Let_def)
      have "unat cnt1 \<le> 5001" using c(2) True by simp
      from Cons.IH [OF Cons.prems(1) this s] c(1) show ?thesis by simp
    next
      case False
      then have "n' = n1"
        using Cons.prems(1,3) \<open>pwr_match cv fab intf e \<and> _\<close> neq p by (simp add: Let_def)
      then show ?thesis using c False by simp
    qed
  next
    case False
    then show ?thesis using Cons.prems Cons.IH [OF Cons.prems(1,2)]
      by (fastforce simp: pwr_write_counted split: if_splits)
  qed
qed simp

lemma flows_end: "es \<in> set rtl8723B_flows \<Longrightarrow> pwr_ends 0xFF 15 1 es"
  by (auto simp: rtl8723B_flows_def rtl8723B_power_on_flow_def rtl8723B_radio_off_flow_def rtl8723B_card_disable_flow_def
      rtl8723B_card_enable_flow_def rtl8723B_suspend_flow_def rtl8723B_resume_flow_def rtl8723B_hwpdn_flow_def
      rtl8723B_enter_lps_flow_def rtl8723B_leave_lps_flow_def rtl8723B_enter_swlps_flow_def rtl8723B_leave_swlps_flow_def
      pwr_ends_def pwr_match_def TRANS_END_def pwr_cfg_def pwr_consts)

text \<open>C28: Whatever the chip does, each power sequence of the driver comes to its end or to a
  timeout, never past the table; a chip without the retry is read at most 5002 times more than the table is long.\<close>

theorem pwr_flows_return:
  assumes "es \<in> set rtl8723B_flows"
  shows "\<exists>r w' n. HalPwrSeqCmdParsing (counted io) 0xFF 15 1 es (w, 0) = Some (r, w', n) \<and>
    (hwic_support io \<or> n \<le> length es + 5002)"
proof -
  obtain r w' n where s: "HalPwrSeqCmdParsing (counted io) 0xFF 15 1 es (w, 0) = Some (r, w', n)"
    using pwr_seq_total [OF flows_end [OF assms], of "counted io" 0 0 "(w, 0)"] by (auto simp: HalPwrSeqCmdParsing_def)
  moreover have "n \<le> length es + 5002" if "\<not> hwic_support io"
    using pwr_seq_counts [OF that _ s [unfolded HalPwrSeqCmdParsing_def]] by simp
  ultimately show ?thesis by blast
qed

theorem pwr_flows_return_witness:
  "\<exists>r w' n. HalPwrSeqCmdParsing (counted \<lparr>io_read8 = (\<lambda>off w. (0, w)), io_write8 = (\<lambda>off v w. w), cmd52_read = (\<lambda>off w. (0, w)),
      cmd52_write = (\<lambda>off v w. w), io_udelay = (\<lambda>d w. w + d), hwic_support = False, is_8723de = False\<rparr>)
      0xFF 15 1 rtl8723B_card_enable_flow (0 :: u32, 0) = Some (r, w', n) \<and> n \<le> length rtl8723B_card_enable_flow + 5002"
  using pwr_flows_return [of rtl8723B_card_enable_flow "\<lparr>io_read8 = (\<lambda>off w. (0, w)), io_write8 = (\<lambda>off v w. w),
      cmd52_read = (\<lambda>off w. (0, w)), cmd52_write = (\<lambda>off v w. w), io_udelay = (\<lambda>d w. w + d), hwic_support = False, is_8723de = False\<rparr>" 0]
  by (simp add: rtl8723B_flows_def)

section \<open>What polling decides\<close>

text \<open>The value the \<open>k\<close>-th poll sees, when those before it did not see the right one.\<close>

definition poll_next :: "'w pwr_io \<Rightarrow> wlan_pwr_cfg \<Rightarrow> 'w \<Rightarrow> 'w" where
  "poll_next io e w = io_udelay io 10 (snd (pwr_read io e w))"

definition poll_hit :: "'w pwr_io \<Rightarrow> wlan_pwr_cfg \<Rightarrow> 'w \<Rightarrow> nat \<Rightarrow> bool" where
  "poll_hit io e w k \<longleftrightarrow> fst (pwr_read io e ((poll_next io e ^^ k) w)) AND pc_msk e = pc_value e AND pc_msk e"

lemma poll_hit_Suc: "poll_hit io e (poll_next io e w) k = poll_hit io e w (Suc k)"
  by (simp add: poll_hit_def funpow_swap1)

lemma pwr_poll_hit:
  assumes "\<not> hwic_support io" and "unat cnt \<le> 5001"
  shows "pwr_poll io e flag cnt w =
    (if 5000 < unat cnt then (False, cnt + 1, flag, if poll_hit io e w 0 then snd (pwr_read io e w) else poll_next io e w)
     else if poll_hit io e w 0 then (True, cnt + 1, flag, snd (pwr_read io e w))
     else pwr_poll io e flag (cnt + 1) (poll_next io e w))"
  by (subst pwr_poll_step [OF assms(1)]) (simp add: polls_left Let_def poll_hit_def poll_next_def split: prod.splits)

text \<open>A polling command succeeds exactly if the chip shows the awaited value in one of the
  polls that are left: of the 5001 polls of a whole sequence, less those of earlier commands.\<close>

lemma pwr_poll_iff:
  assumes "\<not> hwic_support io" and "unat cnt \<le> 5001"
  shows "fst (pwr_poll io e flag cnt w) \<longleftrightarrow> (\<exists>k. unat cnt + k \<le> 5000 \<and> poll_hit io e w k)"
  using assms(2)
proof (induction "5001 - unat cnt" arbitrary: cnt w rule: less_induct)
  case less
  note s = pwr_poll_hit [OF assms(1) less.prems]
  show ?case
  proof (cases "5000 < unat cnt \<or> poll_hit io e w 0")
    case True
    then show ?thesis unfolding s by (auto intro: exI [of _ 0])
  next
    case False
    note u = unat_polls [OF less.prems]
    have "5001 - unat (cnt + 1) < 5001 - unat cnt" "unat (cnt + 1) \<le> 5001" using False u by linarith+
    from less.hyps [OF this, of "poll_next io e w"]
    have "fst (pwr_poll io e flag cnt w) \<longleftrightarrow> (\<exists>k. unat cnt + Suc k \<le> 5000 \<and> poll_hit io e w (Suc k))"
      using False unfolding s by (simp add: u poll_hit_Suc)
    also have "\<dots> \<longleftrightarrow> (\<exists>k. unat cnt + k \<le> 5000 \<and> poll_hit io e w k)"
      using False by (metis not0_implies_Suc)
    finally show ?thesis .
  qed
qed

lemma pwr_poll_iff_witness:
  "fst (pwr_poll \<lparr>io_read8 = (\<lambda>off w. (1, w)), io_write8 = (\<lambda>off v w. w), cmd52_read = (\<lambda>off w. (0, w)),
      cmd52_write = (\<lambda>off v w. w), io_udelay = (\<lambda>d w. w), hwic_support = False, is_8723de = False\<rparr>
      (pwr_cfg 5 0xff 15 15 0 2 1 1) 0 5000 ())"
  by (subst pwr_poll_iff) (auto intro!: exI [of _ 0] simp: poll_hit_def pwr_read_def pwr_cfg_def pwr_consts)

lemma pwr_poll_first:
  assumes "\<not> hwic_support io" and "unat cnt + k \<le> 5000" and "poll_hit io e w k" and "\<forall>j<k. \<not> poll_hit io e w j"
  shows "pwr_poll io e flag cnt w = (True, cnt + of_nat k + 1, flag, snd (pwr_read io e ((poll_next io e ^^ k) w)))"
  using assms(2-)
proof (induction k arbitrary: cnt w)
  case 0
  then show ?case by (subst pwr_poll_hit [OF assms(1)]) simp_all
next
  case (Suc k)
  have "\<not> poll_hit io e w 0" using Suc.prems(3) by simp
  then have "pwr_poll io e flag cnt w = pwr_poll io e flag (cnt + 1) (poll_next io e w)"
    using Suc.prems(1) by (subst pwr_poll_hit [OF assms(1)]) simp_all
  also have "\<dots> = (True, cnt + 1 + of_nat k + 1, flag, snd (pwr_read io e ((poll_next io e ^^ k) (poll_next io e w))))"
    using Suc.prems unat_polls [of cnt] by (intro Suc.IH) (auto simp: poll_hit_Suc)
  finally show ?case by (simp add: funpow_swap1 algebra_simps)
qed

text \<open>A chip with two registers, each of which shows its value from its 3001st poll on.\<close>

definition late_io :: "(nat \<times> nat) pwr_io" where
  "late_io = \<lparr>io_read8 = (\<lambda>off (a, b). if off = 0 then (if 3000 \<le> a then 1 else 0, a + 1, b)
                                      else (if 3000 \<le> b then 1 else 0, a, b + 1)),
     io_write8 = (\<lambda>off v w. w), cmd52_read = (\<lambda>off w. (0, w)), cmd52_write = (\<lambda>off v w. w),
     io_udelay = (\<lambda>d w. w), hwic_support = False, is_8723de = False\<rparr>"

definition late_poll :: "u16 \<Rightarrow> wlan_pwr_cfg" where
  "late_poll off = pwr_cfg off 0xff 15 15 PWR_BASEADDR_MAC PWR_CMD_POLLING 1 1"

lemma late_read:
  "pwr_read late_io (late_poll 0) (a, b) = (if 3000 \<le> a then 1 else 0, a + 1, b)"
  "pwr_read late_io (late_poll 1) (a, b) = (if 3000 \<le> b then 1 else 0, a, b + 1)"
  "io_udelay late_io d w = w"
  by (simp_all add: pwr_read_def late_poll_def pwr_cfg_def pwr_consts late_io_def)

lemma late_next:
  "(poll_next late_io (late_poll 0) ^^ k) (a, b) = (a + k, b)" "(poll_next late_io (late_poll 1) ^^ k) (a, b) = (a, b + k)"
  by (induction k) (simp_all add: poll_next_def late_read)

lemma late_hit:
  "poll_hit late_io (late_poll 0) (a, b) k \<longleftrightarrow> 3000 \<le> a + k" "poll_hit late_io (late_poll 1) (a, b) k \<longleftrightarrow> 3000 \<le> b + k"
  by (simp_all add: poll_hit_def late_next late_read) (simp_all add: late_poll_def pwr_cfg_def)

text \<open>The number of polls is not reset between the polling commands of a sequence: two registers
  that each become ready within the limit are given up when they are polled one after the other.\<close>

lemma polling_budget_shared:
  "fst (pwr_poll late_io (late_poll 0) 0 0 (0, 0)) \<and> fst (pwr_poll late_io (late_poll 1) 0 0 (0, 0)) \<and>
   map_option fst (HalPwrSeqCmdParsing late_io 0xFF 15 1 ([late_poll 0, late_poll 1] @ TRANS_END) (0, 0)) = Some False"
proof -
  have h: "\<not> hwic_support late_io" by (simp add: late_io_def)
  have "fst (pwr_poll late_io (late_poll off) 0 0 (0, 0))" if "off = 0 \<or> off = 1" for off
    using that by (subst pwr_poll_iff [OF h]) (auto simp: late_hit intro!: exI [of _ 3000])
  moreover have p1: "pwr_poll late_io (late_poll 0) 0 0 (0, 0) = (True, 3001, 0, (3001, 0))"
    by (subst pwr_poll_first [OF h, of _ 3000]) (simp_all add: late_hit late_next late_read)
  moreover have p2: "\<not> fst (pwr_poll late_io (late_poll 1) 0 3001 (3001, 0))"
    by (subst pwr_poll_iff [OF h]) (auto simp: late_hit)
  moreover have "pwr_match 0xFF 15 1 (late_poll off)" "pc_cmd (late_poll off) = PWR_CMD_POLLING" for off
    by (simp_all add: pwr_match_def late_poll_def pwr_cfg_def)
  ultimately show ?thesis
    using h by (auto simp: HalPwrSeqCmdParsing_def pwr_consts Let_def split: prod.splits)
qed

section \<open>Powering on\<close>

text \<open>
  A chip whose registers hold what is written to them, but for the bits \<open>sc\<close>, which clear themselves
  once they have been read. The first component of an address tells the SDIO registers.
\<close>

type_synonym regs = "bool \<times> u32 \<Rightarrow> u8"

definition reg_io :: "regs \<Rightarrow> regs pwr_io" where
  "reg_io sc = \<lparr>io_read8 = (\<lambda>off w. (w (False, off), w((False, off) := w (False, off) AND NOT (sc (False, off))))),
     io_write8 = (\<lambda>off v w. w((False, off) := v)),
     cmd52_read = (\<lambda>off w. (w (True, off), w((True, off) := w (True, off) AND NOT (sc (True, off))))),
     cmd52_write = (\<lambda>off v w. w((True, off) := v)),
     io_udelay = (\<lambda>d w. w), hwic_support = False, is_8723de = False\<rparr>"

definition pwr_addr :: "wlan_pwr_cfg \<Rightarrow> bool \<times> u32" where
  "pwr_addr e = (pc_base e = PWR_BASEADDR_SDIO, ucast (pc_offset e))"

lemma reg_sel [simp]:
  "io_udelay (reg_io sc) d w = w" "\<not> hwic_support (reg_io sc)"
  "io_write8 (reg_io sc) off v w = w((False, off) := v)"
  by (simp_all add: reg_io_def)

lemma reg_read:
  "pwr_read (reg_io sc) e w = (w (pwr_addr e), w(pwr_addr e := w (pwr_addr e) AND NOT (sc (pwr_addr e))))"
  by (simp add: pwr_read_def reg_io_def pwr_addr_def)

lemma reg_write: "pwr_write (reg_io sc) e w = w(pwr_addr e := w (pwr_addr e) AND NOT (pc_msk e) OR (pc_value e AND pc_msk e))"
  by (simp add: pwr_write_def pwr_read_def reg_io_def pwr_addr_def Let_def)

lemma reg_poll:
  "pwr_poll (reg_io sc) e flag cnt w =
     (let a = pwr_addr e; w' = w(a := w a AND NOT (sc a)); hit = (w a AND pc_msk e = pc_value e AND pc_msk e)
      in if 5000 < unat cnt then (False, cnt + 1, flag, w')
         else if hit then (True, cnt + 1, flag, w') else pwr_poll (reg_io sc) e flag (cnt + 1) w')"
  by (subst pwr_poll_step) (simp_all add: reg_read Let_def polls_left)

lemma reg_poll_hit0:
  assumes "w (pwr_addr e) AND pc_msk e = pc_value e AND pc_msk e" and "unat cnt \<le> 5000"
  shows "pwr_poll (reg_io sc) e flag cnt w = (True, cnt + 1, flag, w(pwr_addr e := w (pwr_addr e) AND NOT (sc (pwr_addr e))))"
  using assms by (subst reg_poll) (simp add: Let_def)

text \<open>The read that comes first clears the bit.\<close>

lemma reg_poll_hit1:
  assumes "w (pwr_addr e) AND pc_msk e \<noteq> pc_value e AND pc_msk e" and "unat cnt < 5000"
    and "(w (pwr_addr e) AND NOT (sc (pwr_addr e))) AND pc_msk e = pc_value e AND pc_msk e"
  shows "pwr_poll (reg_io sc) e flag cnt w = (True, cnt + 2, flag, w(pwr_addr e := w (pwr_addr e) AND NOT (sc (pwr_addr e))))"
proof -
  let ?a = "pwr_addr e"
  let ?w = "w(?a := w ?a AND NOT (sc ?a))"
  have "pwr_poll (reg_io sc) e flag cnt w = pwr_poll (reg_io sc) e flag (cnt + 1) ?w"
    using assms(1,2) by (subst reg_poll) (simp add: Let_def)
  also have "\<dots> = (True, cnt + 1 + 1, flag, ?w(?a := ?w ?a AND NOT (sc ?a)))"
    using assms(2,3) unat_polls [of cnt] by (intro reg_poll_hit0) simp_all
  also have "?w(?a := ?w ?a AND NOT (sc ?a)) = ?w" by (simp add: and.assoc)
  finally show ?thesis by (simp add: add.assoc del: fun_upd_apply)
qed

text \<open>The steps of a sequence on that chip.\<close>

lemma seq_skip:
  "\<not> pwr_match cv fab intf (pwr_cfg off c f i b cmd m v) \<Longrightarrow>
    pwr_seq io cv fab intf (pwr_cfg off c f i b cmd m v # es) flag cnt w = pwr_seq io cv fab intf es flag cnt w"
  by simp

lemma seq_write:
  "pwr_match cv fab intf (pwr_cfg off c f i b PWR_CMD_WRITE m v) \<Longrightarrow>
    pwr_seq (reg_io sc) cv fab intf (pwr_cfg off c f i b PWR_CMD_WRITE m v # es) flag cnt w =
    pwr_seq (reg_io sc) cv fab intf es flag cnt (w((b = PWR_BASEADDR_SDIO, ucast off) := w (b = PWR_BASEADDR_SDIO, ucast off) AND NOT m OR (v AND m)))"
  by (simp add: reg_write pwr_addr_def) (simp add: pwr_cfg_def)

lemma seq_poll:
  assumes "pwr_match cv fab intf (pwr_cfg off c f i b PWR_CMD_POLLING m v)" and "unat cnt < 5000"
  shows "w (b = PWR_BASEADDR_SDIO, ucast off) AND m = v AND m \<Longrightarrow>
      pwr_seq (reg_io sc) cv fab intf (pwr_cfg off c f i b PWR_CMD_POLLING m v # es) flag cnt w =
      pwr_seq (reg_io sc) cv fab intf es flag (cnt + 1)
        (w((b = PWR_BASEADDR_SDIO, ucast off) := w (b = PWR_BASEADDR_SDIO, ucast off) AND NOT (sc (b = PWR_BASEADDR_SDIO, ucast off))))"
    and "w (b = PWR_BASEADDR_SDIO, ucast off) AND m \<noteq> v AND m \<Longrightarrow>
      (w (b = PWR_BASEADDR_SDIO, ucast off) AND NOT (sc (b = PWR_BASEADDR_SDIO, ucast off))) AND m = v AND m \<Longrightarrow>
      pwr_seq (reg_io sc) cv fab intf (pwr_cfg off c f i b PWR_CMD_POLLING m v # es) flag cnt w =
      pwr_seq (reg_io sc) cv fab intf es flag (cnt + 2)
        (w((b = PWR_BASEADDR_SDIO, ucast off) := w (b = PWR_BASEADDR_SDIO, ucast off) AND NOT (sc (b = PWR_BASEADDR_SDIO, ucast off))))"
proof -
  let ?e = "pwr_cfg off c f i b PWR_CMD_POLLING m v"
  have e: "pwr_addr ?e = (b = PWR_BASEADDR_SDIO, ucast off)" "pc_msk ?e = m" "pc_value ?e = v" "pc_cmd ?e = PWR_CMD_POLLING"
    by (simp_all add: pwr_addr_def pwr_cfg_def)
  have neq: "PWR_CMD_POLLING \<noteq> PWR_CMD_WRITE" by (simp add: pwr_consts)
  show "pwr_seq (reg_io sc) cv fab intf (?e # es) flag cnt w = pwr_seq (reg_io sc) cv fab intf es flag (cnt + 1)
        (w((b = PWR_BASEADDR_SDIO, ucast off) := w (b = PWR_BASEADDR_SDIO, ucast off) AND NOT (sc (b = PWR_BASEADDR_SDIO, ucast off))))"
    if "w (b = PWR_BASEADDR_SDIO, ucast off) AND m = v AND m"
    using reg_poll_hit0 [of w ?e cnt sc flag] assms that neq by (simp add: e Let_def)
  show "pwr_seq (reg_io sc) cv fab intf (?e # es) flag cnt w = pwr_seq (reg_io sc) cv fab intf es flag (cnt + 2)
        (w((b = PWR_BASEADDR_SDIO, ucast off) := w (b = PWR_BASEADDR_SDIO, ucast off) AND NOT (sc (b = PWR_BASEADDR_SDIO, ucast off))))"
    if "w (b = PWR_BASEADDR_SDIO, ucast off) AND m \<noteq> v AND m"
      "(w (b = PWR_BASEADDR_SDIO, ucast off) AND NOT (sc (b = PWR_BASEADDR_SDIO, ucast off))) AND m = v AND m"
    using reg_poll_hit1 [of w ?e cnt sc flag] assms that neq by (simp add: e Let_def)
qed

lemma seq_delay:
  "pwr_match cv fab intf (pwr_cfg off c f i b PWR_CMD_DELAY m v) \<Longrightarrow>
    pwr_seq (reg_io sc) cv fab intf (pwr_cfg off c f i b PWR_CMD_DELAY m v # es) flag cnt w = pwr_seq (reg_io sc) cv fab intf es flag cnt w"
  by (simp add: pwr_cfg_def pwr_consts)

lemma seq_end:
  "pwr_match cv fab intf (pwr_cfg off c f i b PWR_CMD_END m v) \<Longrightarrow>
    pwr_seq io cv fab intf (pwr_cfg off c f i b PWR_CMD_END m v # es) flag cnt w = Some (True, w)"
  by (simp add: pwr_cfg_def pwr_consts)

lemma sdio_match: "pwr_match 0xFF 15 1 (pwr_cfg off c f i b cmd m v) \<longleftrightarrow>
    (ucast f :: u8) AND 15 \<noteq> 0 \<and> c AND 0xFF \<noteq> 0 \<and> (ucast i :: u8) AND 1 \<noteq> 0"
  by (simp add: pwr_match_def pwr_cfg_def)

lemmas seq_steps = seq_skip seq_write seq_delay seq_end sdio_match
declare pwr_seq.simps(2) [simp del]

definition self_clear_05 :: regs where
  "self_clear_05 = (\<lambda>_. 0)((False, 0x05) := 1)"

lemma sc_sel [simp]: "self_clear_05 (True, a) = 0" "a \<noteq> 5 \<Longrightarrow> self_clear_05 (False, a) = 0" "self_clear_05 (False, 5) = 1"
  by (simp_all add: self_clear_05_def)

lemma mask_byte: "(x AND 98 OR 1) AND 254 = x AND (98 :: u8)" "x AND 254 OR 1 = x OR (1 :: u8)"
  by (rule bit_word_eqI, auto simp: bit_simps less_Suc_eq numeral_eq_Suc)+

text \<open>On such a chip, if it is awake and its power is ready, \<open>CardEnable\<close> succeeds, and power-down,
  suspend and software power saving are off, the reset is released and the LDO is on.\<close>

lemma card_enable_powers_on:
  assumes "w (True, 0x86) AND 2 = 2" and "w (False, 0x06) AND 2 = 2"
  shows "\<exists>w'. CardEnable (reg_io self_clear_05) False w = Some (Success, True, w') \<and>
    w' (False, 0x05) = w (False, 0x05) AND 0x62 \<and> w' (False, 0x06) = w (False, 0x06) OR 1 \<and>
    w' (False, 0x20) = w (False, 0x20) OR 1 \<and> w' (True, 0x86) = w (True, 0x86) AND 0xFE"
proof -
  have n1: "(- 158 :: u8) = 98" and n2: "(- 2 :: u8) = 254" by simp_all
  show ?thesis
    unfolding CardEnable_def HalPwrSeqCmdParsing_def rtl8723B_card_enable_flow_def TRANS_CARDDIS_TO_CARDEMU_def
    TRANS_CARDEMU_TO_ACT_def TRANS_END_def append_Cons append_Nil
  by (simp add: seq_steps seq_poll PWR_BASEADDR_MAC_def PWR_BASEADDR_SDIO_def PWR_INTF_SDIO_def PWR_INTF_USB_def PWR_INTF_PCI_def PWR_INTF_ALL_def
    REG_RSV_CTRL_def assms and.assoc n1 n2 mask_byte)
qed

lemma card_enable_powers_on_witness:
  "\<exists>w'. CardEnable (reg_io self_clear_05) False (\<lambda>_. 0xFF) = Some (Success, True, w') \<and> w' (False, 0x05) = 0x62"
  using card_enable_powers_on [of "\<lambda>_. 0xFF"] by auto

end
