(* ===== verification/MacId.thy ===== *)
theory MacId
  imports Frames
begin

unbundle bit_operations_syntax

text \<open>
  The allocation of MAC ids of \<open>core/rtw_wlan_util.c\<close>: the bitmaps of ids in use, of group ids and of the
  ids of the interface, the table of the stations, and the bitmap of the entries of the security
  CAM, which the broadcast station shares. There are 32 ids and one interface.
\<close>

section \<open>Bitmaps\<close>

definition MACID_NUM_SW_LIMIT :: nat where
  "MACID_NUM_SW_LIMIT = 32"

definition INVALID_SEC_MAC_CAM_ID :: u8 where
  "INVALID_SEC_MAC_CAM_ID = 0xFF"

definition BITW :: "u8 \<Rightarrow> u32" where
  "BITW x = push_bit (unat x) 1"

definition rtw_macid_is_set :: "u32 \<Rightarrow> u8 \<Rightarrow> bool" where
  "rtw_macid_is_set bmp mid = (if mid < 32 then bmp AND BITW mid \<noteq> 0 else False)"

definition rtw_macid_map_set :: "u32 \<Rightarrow> u8 \<Rightarrow> u32" where
  "rtw_macid_map_set bmp mid = (if mid < 32 then bmp OR BITW mid else bmp)"

definition rtw_macid_map_clr :: "u32 \<Rightarrow> u8 \<Rightarrow> u32" where
  "rtw_macid_map_clr bmp mid = (if mid < 32 then bmp AND NOT (BITW mid) else bmp)"

definition rtw_sec_camid_is_set :: "u32 \<Rightarrow> u8 \<Rightarrow> bool" where
  "rtw_sec_camid_is_set bmp mid = (if mid < 32 then bmp AND BITW mid \<noteq> 0 else False)"

definition rtw_sec_cam_map_set :: "u32 \<Rightarrow> u8 \<Rightarrow> u32" where
  "rtw_sec_cam_map_set bmp mid = (if mid < 32 then bmp OR BITW mid else bmp)"

definition rtw_sec_cam_map_clr :: "u32 \<Rightarrow> u8 \<Rightarrow> u32" where
  "rtw_sec_cam_map_clr bmp mid = (if mid < 32 then bmp AND NOT (BITW mid) else bmp)"

lemma bit_BITW: "mid < 32 \<Longrightarrow> bit (BITW mid) n \<longleftrightarrow> n = unat mid"
  by (auto simp: BITW_def bit_simps word_less_nat_alt)

lemma macid_bit: "rtw_macid_is_set m mid \<longleftrightarrow> mid < 32 \<and> bit m (unat mid)"
proof (cases "mid < 32")
  case True
  then have "BITW mid = 2 ^ unat mid" by (simp add: BITW_def push_bit_eq_mult)
  then show ?thesis using True by (simp add: rtw_macid_is_set_def and_exp_eq_0_iff_not_bit)
qed (simp add: rtw_macid_is_set_def)

lemma macid_set [simp]: "rtw_macid_is_set (rtw_macid_map_set m i) j \<longleftrightarrow> rtw_macid_is_set m j \<or> i < 32 \<and> j = i"
  by (auto simp: macid_bit rtw_macid_map_set_def bit_or_iff bit_BITW word_less_nat_alt word_unat_eq_iff [of j i])

lemma macid_clr [simp]: "rtw_macid_is_set (rtw_macid_map_clr m i) j \<longleftrightarrow> rtw_macid_is_set m j \<and> j \<noteq> i"
  by (auto simp: macid_bit rtw_macid_map_clr_def bit_and_iff bit_not_iff bit_BITW word_less_nat_alt word_unat_eq_iff [of j i])

lemma macid_empty [simp]: "\<not> rtw_macid_is_set 0 i"
  by (simp add: macid_bit)

section \<open>Allocation\<close>

record macid_ctl =
  mc_num :: u8
  mc_used :: u32
  mc_bmc :: u32
  mc_if_g :: u32
  mc_iface_bmc :: u8
  mc_ch_g :: "u32 list"
  mc_h2c_msr :: "u8 list"
  mc_bw :: "u8 list"
  mc_vht_en :: "u8 list"
  mc_rate_bmp0 :: "u32 list"
  mc_rate_bmp1 :: "u32 list"
  mc_sta :: "nat option list"

record cam_ctl =
  cam_sec_cap :: u8
  cam_flags :: u32
  cam_num :: u8
  cam_used :: u32

definition bc_addr :: bytes where
  "bc_addr = [0xff, 0xff, 0xff, 0xff, 0xff, 0xff]"

text \<open>The zeroed structure with the number of ids that \<open>rtw_hal_read_chip_info\<close> sets.\<close>

definition init_macid_ctl :: macid_ctl where
  "init_macid_ctl = \<lparr>mc_num = 32, mc_used = 0, mc_bmc = 0, mc_if_g = 0, mc_iface_bmc = 0, mc_ch_g = [0, 0],
     mc_h2c_msr = replicate MACID_NUM_SW_LIMIT 0, mc_bw = replicate MACID_NUM_SW_LIMIT 0,
     mc_vht_en = replicate MACID_NUM_SW_LIMIT 0, mc_rate_bmp0 = replicate MACID_NUM_SW_LIMIT 0,
     mc_rate_bmp1 = replicate MACID_NUM_SW_LIMIT 0, mc_sta = replicate MACID_NUM_SW_LIMIT None\<rparr>"

text \<open>
  \<open>own\<close> is the address of the adapter, \<open>psta\<close> the station and \<open>addr\<close> its address; the first component
  of the result is its new \<open>cmn.mac_id\<close>.
\<close>

definition rtw_alloc_macid :: "bytes \<Rightarrow> nat \<Rightarrow> bytes \<Rightarrow> macid_ctl \<Rightarrow> cam_ctl \<Rightarrow> u8 \<times> macid_ctl \<times> cam_ctl" where
  "rtw_alloc_macid own psta addr m c =
     (if addr = own then (mc_num m, m, c)
      else
        (let is_bc_sta = (addr = bc_addr);
             m = (if is_bc_sta then m\<lparr>mc_iface_bmc := INVALID_SEC_MAC_CAM_ID\<rparr> else m)
         in case List.find (\<lambda>i. \<not> rtw_macid_is_set (mc_used m) i \<and> (is_bc_sta \<longrightarrow> \<not> rtw_sec_camid_is_set (cam_used c) i))
                   (map of_nat [0..<unat (mc_num m)]) of
              None \<Rightarrow> (mc_num m, m, c)
            | Some i \<Rightarrow>
                (let m = m\<lparr>mc_used := rtw_macid_map_set (mc_used m) i\<rparr>;
                     (m, c) = (if is_bc_sta then (m\<lparr>mc_bmc := rtw_macid_map_set (mc_bmc m) i, mc_iface_bmc := i\<rparr>,
                                                  c\<lparr>cam_used := rtw_sec_cam_map_set (cam_used c) i\<rparr>)
                               else (m, c))
                 in (i, m\<lparr>mc_if_g := rtw_macid_map_set (mc_if_g m) i, mc_sta := (mc_sta m)[unat i := Some psta]\<rparr>, c))))"

text \<open>\<open>mac_id\<close> is that of the station.\<close>

definition rtw_release_macid :: "bytes \<Rightarrow> bytes \<Rightarrow> u8 \<Rightarrow> macid_ctl \<Rightarrow> cam_ctl \<Rightarrow> u8 \<times> macid_ctl \<times> cam_ctl" where
  "rtw_release_macid own addr mac_id m c =
     (if addr = own then (mac_id, m, c)
      else
        (let is_bc_sta = (addr = bc_addr) in
         if mac_id < mc_num m then
           (let m = m\<lparr>mc_used := rtw_macid_map_clr (mc_used m) mac_id, mc_bmc := rtw_macid_map_clr (mc_bmc m) mac_id\<rparr>;
                (m, c) = (if is_bc_sta then
                            (let mid = mc_iface_bmc m;
                                 c = (if mid \<noteq> INVALID_SEC_MAC_CAM_ID \<and> mid < cam_num c
                                      then c\<lparr>cam_used := rtw_sec_cam_map_clr (cam_used c) mid\<rparr> else c)
                             in (m\<lparr>mc_iface_bmc := INVALID_SEC_MAC_CAM_ID\<rparr>, c))
                          else (m, c))
            in (mc_num m, m\<lparr>mc_if_g := rtw_macid_map_clr (mc_if_g m) mac_id,
                            mc_ch_g := map (\<lambda>g. rtw_macid_map_clr g mac_id) (mc_ch_g m),
                            mc_sta := (mc_sta m)[unat mac_id := None]\<rparr>, c))
         else (mc_num m, m, c)))"

section \<open>Queries and attributes\<close>

definition rtw_macid_is_used :: "macid_ctl \<Rightarrow> u8 \<Rightarrow> bool" where
  "rtw_macid_is_used m i = rtw_macid_is_set (mc_used m) i"

definition rtw_macid_is_bmc :: "macid_ctl \<Rightarrow> u8 \<Rightarrow> bool" where
  "rtw_macid_is_bmc m i = rtw_macid_is_set (mc_bmc m) i"

text \<open>The interface, and the channel group, an id belongs to; -1 for none.\<close>

definition rtw_macid_get_if_g :: "macid_ctl \<Rightarrow> u8 \<Rightarrow> int" where
  "rtw_macid_get_if_g m i = (if rtw_macid_is_set (mc_if_g m) i then 0 else -1)"

definition rtw_macid_get_ch_g :: "macid_ctl \<Rightarrow> u8 \<Rightarrow> int" where
  "rtw_macid_get_ch_g m i =
     (if rtw_macid_is_set (mc_ch_g m ! 0) i then 0 else if rtw_macid_is_set (mc_ch_g m ! 1) i then 1 else -1)"

text \<open>The largest id in use, or 0: the loop runs down from \<open>num - 1\<close>, so that without ids -1 is left.\<close>

definition rtw_search_max_mac_id :: "macid_ctl \<Rightarrow> u8" where
  "rtw_search_max_mac_id m =
     (if mc_num m = 0 then 0xff
      else case List.find (rtw_macid_is_used m) (rev (map of_nat [1..<unat (mc_num m)])) of Some i \<Rightarrow> i | None \<Rightarrow> 0)"

definition rtw_macid_ctl_set_h2c_msr :: "u8 \<Rightarrow> u8 \<Rightarrow> macid_ctl \<Rightarrow> macid_ctl" where
  "rtw_macid_ctl_set_h2c_msr i h2c_msr m = (if mc_num m \<le> i then m else m\<lparr>mc_h2c_msr := (mc_h2c_msr m)[unat i := h2c_msr]\<rparr>)"

definition rtw_macid_ctl_set_bw :: "u8 \<Rightarrow> u8 \<Rightarrow> macid_ctl \<Rightarrow> macid_ctl" where
  "rtw_macid_ctl_set_bw i bw m = (if mc_num m \<le> i then m else m\<lparr>mc_bw := (mc_bw m)[unat i := bw]\<rparr>)"

definition rtw_macid_ctl_set_vht_en :: "u8 \<Rightarrow> u8 \<Rightarrow> macid_ctl \<Rightarrow> macid_ctl" where
  "rtw_macid_ctl_set_vht_en i en m = (if mc_num m \<le> i then m else m\<lparr>mc_vht_en := (mc_vht_en m)[unat i := en]\<rparr>)"

definition rtw_macid_ctl_set_rate_bmp0 :: "u8 \<Rightarrow> u32 \<Rightarrow> macid_ctl \<Rightarrow> macid_ctl" where
  "rtw_macid_ctl_set_rate_bmp0 i bmp m = (if mc_num m \<le> i then m else m\<lparr>mc_rate_bmp0 := (mc_rate_bmp0 m)[unat i := bmp]\<rparr>)"

definition rtw_macid_ctl_set_rate_bmp1 :: "u8 \<Rightarrow> u32 \<Rightarrow> macid_ctl \<Rightarrow> macid_ctl" where
  "rtw_macid_ctl_set_rate_bmp1 i bmp m = (if mc_num m \<le> i then m else m\<lparr>mc_rate_bmp1 := (mc_rate_bmp1 m)[unat i := bmp]\<rparr>)"

section \<open>What is allocated\<close>

text \<open>The table and the bitmap agree.\<close>

definition macid_ok :: "macid_ctl \<Rightarrow> bool" where
  "macid_ok m \<longleftrightarrow> unat (mc_num m) \<le> 32 \<and> length (mc_sta m) = 32 \<and>
     (\<forall>i. rtw_macid_is_set (mc_used m) i \<longleftrightarrow> i < mc_num m \<and> mc_sta m ! unat i \<noteq> None)"

lemma macid_okD:
  "macid_ok m \<Longrightarrow> i < mc_num m \<Longrightarrow> rtw_macid_is_set (mc_used m) i \<longleftrightarrow> mc_sta m ! unat i \<noteq> None"
  "macid_ok m \<Longrightarrow> i < mc_num m \<Longrightarrow> unat i < 32 \<and> i < 32"
  "macid_ok m \<Longrightarrow> length (mc_sta m) = 32"
  by (auto simp: macid_ok_def word_less_nat_alt)

text \<open>The station gets an mid that nobody has, or none, and nobody else loses his.\<close>

lemma alloc_macid_cases:
  assumes "macid_ok m" and "rtw_alloc_macid own psta addr m c = (mid, m', c')"
  shows "macid_ok m' \<and> mc_num m' = mc_num m \<and>
    (mid < mc_num m \<and> mc_sta m ! unat mid = None \<and> mc_sta m' = (mc_sta m)[unat mid := Some psta] \<and> addr \<noteq> own \<or>
     mid = mc_num m \<and> mc_sta m' = mc_sta m)"
proof (cases "addr = own")
  case True
  then show ?thesis using assms by (auto simp: rtw_alloc_macid_def)
next
  case False
  let ?m = "if addr = bc_addr then m\<lparr>mc_iface_bmc := INVALID_SEC_MAC_CAM_ID\<rparr> else m"
  let ?P = "\<lambda>i. \<not> rtw_macid_is_set (mc_used m) i \<and> (addr = bc_addr \<longrightarrow> \<not> rtw_sec_camid_is_set (cam_used c) i)"
  let ?f = "List.find ?P (map of_nat [0..<unat (mc_num m)])"
  have sel: "mc_used ?m = mc_used m" "mc_num ?m = mc_num m" "mc_sta ?m = mc_sta m" by simp_all
  show ?thesis
  proof (cases ?f)
    case None
    have "mid = mc_num m" "m' = ?m" using assms(2) False None unfolding rtw_alloc_macid_def Let_def sel by simp_all
    then show ?thesis using assms(1) by (simp add: macid_ok_def)
  next
    case (Some i)
    then obtain n where n: "n < unat (mc_num m)" "i = of_nat n" "?P i" by (auto simp: find_Some_iff)
    have i: "i < mc_num m" "unat i < 32" "i < 32"
      using n(1,2) assms(1) by (auto simp: macid_ok_def word_less_nat_alt unat_of_nat)
    have e: "mid = i" "mc_used m' = rtw_macid_map_set (mc_used m) i" "mc_num m' = mc_num m" "mc_sta m' = (mc_sta m)[unat i := Some psta]"
      using assms(2) False Some unfolding rtw_alloc_macid_def Let_def sel by (auto split: if_splits)
    have "mc_sta m ! unat i = None" using n(3) i(1) macid_okD(1) [OF assms(1)] by auto
    moreover have "macid_ok m'"
      using assms(1) i by (auto simp: macid_ok_def e nth_list_update word_unat_eq_iff [symmetric])
    ultimately show ?thesis using e i False by simp
  qed
qed

text \<open>An mid is refused only if all are in use, to a station that is not the broadcast station.\<close>

lemma alloc_macid_full:
  assumes "macid_ok m" and "addr \<noteq> own" and "addr \<noteq> bc_addr" and "fst (rtw_alloc_macid own psta addr m c) = mc_num m"
    and "i < mc_num m"
  shows "mc_sta m ! unat i \<noteq> None"
proof (rule ccontr)
  assume "\<not> mc_sta m ! unat i \<noteq> None"
  then have u: "\<not> rtw_macid_is_set (mc_used m) i" using assms(1,5) macid_okD(1) by blast
  have mem: "i \<in> set (map of_nat [0..<unat (mc_num m)])"
    using assms(5) by (auto simp: word_less_nat_alt image_iff intro!: bexI [of _ "unat i"])
  have "List.find (\<lambda>i. \<not> rtw_macid_is_set (mc_used m) i) (map of_nat [0..<unat (mc_num m)]) \<noteq> None"
    using u mem by (auto simp: find_None_iff)
  then obtain j where j: "List.find (\<lambda>i. \<not> rtw_macid_is_set (mc_used m) i) (map of_nat [0..<unat (mc_num m)]) = Some j" by blast
  then have "fst (rtw_alloc_macid own psta addr m c) = j" using assms(2,3) by (simp add: rtw_alloc_macid_def Let_def)
  moreover obtain n where "n < unat (mc_num m)" "j = of_nat n" using j by (auto simp: find_Some_iff)
  then have "j < mc_num m" using assms(1) by (simp add: macid_ok_def word_less_nat_alt unat_of_nat)
  ultimately show False using assms(4) by simp
qed

text \<open>The search finds the largest id in use.\<close>

lemma search_max_mac_id:
  assumes "macid_ok m" and "rtw_macid_is_used m i"
  shows "i \<le> rtw_search_max_mac_id m"
proof (cases "i = 0")
  case False
  have "i < mc_num m" using assms by (simp add: macid_ok_def rtw_macid_is_used_def)
  then have i: "unat i \<in> set [1..<unat (mc_num m)]"
    using False by (simp add: word_less_nat_alt unat_gt_0 Suc_le_eq)
  let ?xs = "rev (map of_nat [1..<unat (mc_num m)]) :: u8 list"
  have len: "length ?xs = unat (mc_num m) - 1" by simp
  have nth: "?xs ! j = of_nat (unat (mc_num m) - 1 - j)" if "j < unat (mc_num m) - 1" for j
    using that by (simp add: rev_nth)
  have small: "unat (mc_num m) \<le> 32" using assms(1) by (simp add: macid_ok_def)
  have "i \<in> set ?xs" using i by (auto simp: image_iff intro!: bexI [of _ "unat i"])
  then obtain k where k: "List.find (rtw_macid_is_used m) ?xs = Some k"
    using assms(2) by (cases "List.find (rtw_macid_is_used m) ?xs") (auto simp: find_None_iff)
  then obtain j where j: "j < unat (mc_num m) - 1" "k = ?xs ! j" "\<forall>n<j. \<not> rtw_macid_is_used m (?xs ! n)"
    by (auto simp: find_Some_iff)
  have "unat i \<le> unat (mc_num m) - 1 - j"
  proof (rule ccontr)
    assume n: "\<not> unat i \<le> unat (mc_num m) - 1 - j"
    let ?n = "unat (mc_num m) - 1 - unat i"
    have "?n < j" "?n < unat (mc_num m) - 1" "unat (mc_num m) - 1 - ?n = unat i" using n i j(1) by auto
    then have "?xs ! ?n = i" "\<not> rtw_macid_is_used m (?xs ! ?n)" using nth [of ?n] j(3) by auto
    then show False using assms(2) by simp
  qed
  then have "i \<le> k" unfolding j(2) nth [OF j(1)] using small by (simp add: word_le_nat_alt unat_of_nat)
  moreover have "mc_num m \<noteq> 0" using \<open>i < mc_num m\<close> by auto
  ultimately show ?thesis unfolding rtw_search_max_mac_id_def k by simp
qed (simp add: word_le_nat_alt)

lemma release_macid_ok:
  assumes "macid_ok m" and "rtw_release_macid own addr mid m c = (mid', m', c')"
  shows "macid_ok m' \<and> mc_num m' = mc_num m \<and>
    mc_sta m' = (if addr \<noteq> own \<and> mid < mc_num m then (mc_sta m)[unat mid := None] else mc_sta m)"
proof (cases "addr \<noteq> own \<and> mid < mc_num m")
  case True
  then have i: "unat mid < 32" "mid < 32" using macid_okD(2) [OF assms(1)] by auto
  have e: "mc_used m' = rtw_macid_map_clr (mc_used m) mid" "mc_num m' = mc_num m" "mc_sta m' = (mc_sta m)[unat mid := None]"
    using assms(2) True by (auto simp: rtw_release_macid_def Let_def split: if_splits)
  show ?thesis using True assms(1) i by (auto simp: macid_ok_def e nth_list_update word_unat_eq_iff [symmetric])
next
  case False
  then have "mc_sta m' = mc_sta m \<and> m' = m"
    using assms(2) by (cases "addr = own") (simp_all add: rtw_release_macid_def Let_def)
  then show ?thesis using False assms(1) by auto
qed

end
