(* ===== verification/StaMgt.thy ===== *)
theory StaMgt
  imports MacId RecvCheck Reorder
begin

unbundle bit_operations_syntax

text \<open>
  The station table of \<open>core/rtw_sta_mgt.c\<close>: 32 station structures, those in use on 32 hash chains, the
  others on the free queue. A structure is named by its offset in the array. The lists are lists of
  offsets; deleting an element from the list it is on is removing it from wherever it is.
\<close>

section \<open>The table\<close>

definition NUM_STA :: nat where
  "NUM_STA = MACID_NUM_SW_LIMIT"

record tx_servq =
  tx_pending :: bool
  sta_pending :: "nat list"
  qcnt :: int

text \<open>
  What allocation, release and authentication touch of \<open>struct sta_info\<close>. \<open>on_auth_list\<close> and
  \<open>on_asoc_list\<close>: the structure is on the list of authenticating or of associated stations; frames are
  named by numbers.
\<close>

record sta_info =
  mac_addr :: bytes
  mac_id :: u8
  sta_state :: u32
  sleep_q :: "nat list"
  sleepq_len :: u32
  vo_q :: tx_servq
  vi_q :: tx_servq
  be_q :: tx_servq
  bk_q :: tx_servq
  rxcache :: stainfo_rxcache
  defrag_q :: "recv_hdr list"
  recvreorder_ctrl :: "recv_reorder_ctrl list"
  addba_retry_timer :: bool
  RxMgmtFrameSeqNum :: u16
  on_auth_list :: bool
  on_asoc_list :: bool
  auth_seq :: u32
  authalg :: u32
  chg_txt :: bytes
  sta_aid_no :: u16
  expire_to :: u32
  sleepq_ac_len :: u32
  uapsd :: "u8 list"
  has_legacy_ac :: u8
  tracker_q :: "nat list"

text \<open>
  \<open>sta_hash_lock\<close> counts how often the lock is taken; \<open>accnt\<close> are the counters of the four hardware
  queues of \<open>struct xmit_priv\<close>.
\<close>

record sta_priv =
  stainfo_buf :: "sta_info list"
  free_sta_queue :: "nat list"
  sta_hash :: "nat list list"
  asoc_sta_count :: int
  sta_hash_lock :: int
  sp_macid :: macid_ctl
  sp_cam :: cam_ctl
  auth_list_cnt :: u8
  asoc_list_cnt :: u8
  auth_to :: u32
  assoc_to :: u32
  sta_aid :: "nat option list"
  sta_dz_bitmap :: u16
  tim_bitmap :: u16
  accnt :: "int list"

definition wifi_mac_hash :: "bytes \<Rightarrow> u32" where
  "wifi_mac_hash mac =
     (let x = ucast (mac ! 0);
          x = push_bit 2 x XOR ucast (mac ! 1);
          x = push_bit 2 x XOR ucast (mac ! 2);
          x = push_bit 2 x XOR ucast (mac ! 3);
          x = push_bit 2 x XOR ucast (mac ! 4);
          x = push_bit 2 x XOR ucast (mac ! 5);
          x = x XOR drop_bit 8 x
      in x AND (of_nat NUM_STA - 1))"

definition init_txservq :: tx_servq where
  "init_txservq = \<lparr>tx_pending = False, sta_pending = [], qcnt = 0\<rparr>"

text \<open>The structure cleared (\<open>_rtw_init_stainfo\<close>).\<close>

definition init_stainfo :: sta_info where
  "init_stainfo = \<lparr>mac_addr = replicate 6 0, mac_id = 0, sta_state = 0, sleep_q = [], sleepq_len = 0,
     vo_q = init_txservq, vi_q = init_txservq, be_q = init_txservq, bk_q = init_txservq,
     rxcache = \<lparr>tid_rxseq = replicate 16 0, rxc_iv = replicate 16 (replicate 8 0), last_tid = 0\<rparr>, defrag_q = [],
     recvreorder_ctrl = [], addba_retry_timer = False, RxMgmtFrameSeqNum = 0, on_auth_list = False, on_asoc_list = False,
     auth_seq = 0, authalg = 0, chg_txt = replicate 128 0, sta_aid_no = 0,
     expire_to = 0, sleepq_ac_len = 0, uapsd = replicate 6 0, has_legacy_ac = 0, tracker_q = []\<rparr>"

text \<open>The table after \<open>_rtw_init_sta_priv\<close>.\<close>

definition init_sta_priv :: "macid_ctl \<Rightarrow> cam_ctl \<Rightarrow> sta_priv" where
  "init_sta_priv m c = \<lparr>stainfo_buf = replicate NUM_STA init_stainfo, free_sta_queue = [0..<NUM_STA],
     sta_hash = replicate NUM_STA [], asoc_sta_count = 0, sta_hash_lock = 0, sp_macid = m, sp_cam = c,
     auth_list_cnt = 0, asoc_list_cnt = 0, auth_to = 3, assoc_to = 3, sta_aid = replicate NUM_STA None, sta_dz_bitmap = 0, tim_bitmap = 0, accnt = replicate 4 0\<rparr>"

section \<open>Operations\<close>

abbreviation lock_hash :: "sta_priv \<Rightarrow> sta_priv" where
  "lock_hash p \<equiv> p\<lparr>sta_hash_lock := sta_hash_lock p + 1\<rparr>"

abbreviation unlock_hash :: "sta_priv \<Rightarrow> sta_priv" where
  "unlock_hash p \<equiv> p\<lparr>sta_hash_lock := sta_hash_lock p - 1\<rparr>"

text \<open>What \<open>rtw_alloc_stainfo\<close> sets in the cleared structure.\<close>

definition fresh_stainfo :: "bytes \<Rightarrow> u8 \<Rightarrow> sta_info" where
  "fresh_stainfo hwaddr mid = init_stainfo\<lparr>mac_addr := take 6 hwaddr, mac_id := mid,
     rxcache := \<lparr>tid_rxseq = replicate 16 0xffff, rxc_iv = replicate 16 (replicate 8 0), last_tid = 0\<rparr>,
     recvreorder_ctrl := replicate 16 init_reorder_ctrl, RxMgmtFrameSeqNum := 0xffff\<rparr>"

definition rtw_alloc_stainfo :: "bytes \<Rightarrow> bytes \<Rightarrow> sta_priv \<Rightarrow> nat option \<times> sta_priv" where
  "rtw_alloc_stainfo own hwaddr p =
     (let p = lock_hash p in
      case free_sta_queue p of
        [] \<Rightarrow> (None, unlock_hash (unlock_hash p))
      | psta # rest \<Rightarrow>
          (let p = p\<lparr>free_sta_queue := rest\<rparr>;
               index = unat (wifi_mac_hash hwaddr)
           in if NUM_STA \<le> index then (None, unlock_hash p)
              else
                (let p = p\<lparr>sta_hash := (sta_hash p)[index := sta_hash p ! index @ [psta]],
                           asoc_sta_count := asoc_sta_count p + 1\<rparr>;
                     (mid, m, c) = rtw_alloc_macid own psta (take 6 hwaddr) (sp_macid p) (sp_cam p);
                     p = p\<lparr>stainfo_buf := (stainfo_buf p)[psta := fresh_stainfo hwaddr mid], sp_macid := m, sp_cam := c\<rparr>
                 in (Some psta, unlock_hash p))))"

text \<open>\<open>None\<close> as address is the null pointer.\<close>

definition rtw_get_stainfo :: "sta_priv \<Rightarrow> bytes option \<Rightarrow> nat option" where
  "rtw_get_stainfo p hwaddr =
     (case hwaddr of
        None \<Rightarrow> None
      | Some hwaddr \<Rightarrow>
          (let addr = (if IS_MCAST hwaddr then bc_addr else hwaddr)
           in List.find (\<lambda>psta. mac_addr (stainfo_buf p ! psta) = take 6 addr) (sta_hash p ! unat (wifi_mac_hash addr))))"

definition rtw_get_bcmc_stainfo :: "sta_priv \<Rightarrow> nat option" where
  "rtw_get_bcmc_stainfo p = rtw_get_stainfo p (Some bc_addr)"

definition rtw_init_bcmc_stainfo :: "bytes \<Rightarrow> sta_priv \<Rightarrow> result \<times> sta_priv" where
  "rtw_init_bcmc_stainfo own p = (Success, snd (rtw_alloc_stainfo own bc_addr p))"

text \<open>One of the four queues of frames to transmit, emptied.\<close>

definition free_servq :: "tx_servq \<Rightarrow> tx_servq" where
  "free_servq q = q\<lparr>sta_pending := [], tx_pending := False, qcnt := 0\<rparr>"

definition bit_of_aid :: "u16 \<Rightarrow> u16" where
  "bit_of_aid a = push_bit (unat a) 1"

text \<open>
  The release of a station. \<open>ap\<close>: \<open>pmlmeinfo->state\<close> is \<open>_HW_STATE_AP_\<close>. The results are the frames to
  transmit and the received frames that go back to their free queues.
\<close>

definition release_fields :: "sta_info \<Rightarrow> u8 \<Rightarrow> u16 \<Rightarrow> sta_info" where
  "release_fields s mid aid_no = s\<lparr>mac_id := mid, sta_state := sta_state s AND NOT 1, sleep_q := [], sleepq_len := 0,
     vo_q := free_servq (vo_q s), vi_q := free_servq (vi_q s), be_q := free_servq (be_q s), bk_q := free_servq (bk_q s),
     recvreorder_ctrl := map (\<lambda>r. r\<lparr>reorder_timer := False, pending := []\<rparr>) (recvreorder_ctrl s),
     addba_retry_timer := False, on_auth_list := False, sta_aid_no := aid_no, expire_to := 0,
     sleepq_ac_len := 0, uapsd := replicate 6 0, has_legacy_ac := 0, tracker_q := []\<rparr>"

definition rtw_free_stainfo :: "bytes \<Rightarrow> bool \<Rightarrow> nat option \<Rightarrow> sta_priv \<Rightarrow> sta_priv \<times> nat list \<times> recv_hdr list" where
  "rtw_free_stainfo own ap psta p =
     (case psta of
        None \<Rightarrow> (p, [], [])
      | Some psta \<Rightarrow>
          (let s = stainfo_buf p ! psta;
               xmit = sleep_q s @ sta_pending (vo_q s) @ sta_pending (vi_q s) @ sta_pending (be_q s) @ sta_pending (bk_q s);
               recv = concat (map pending (recvreorder_ctrl s));
               (mid, m, c) = rtw_release_macid own (mac_addr s) (mac_id s) (sp_macid p) (sp_cam p);
               a = sta_aid_no s;
               mine = (ap \<and> 0 < a \<and> sta_aid p ! (unat a - 1) = Some psta);
               p = p\<lparr>sta_hash := map (removeAll psta) (sta_hash p), asoc_sta_count := asoc_sta_count p - 1,
                     accnt := [accnt p ! 0 - qcnt (vo_q s), accnt p ! 1 - qcnt (vi_q s),
                               accnt p ! 2 - qcnt (be_q s), accnt p ! 3 - qcnt (bk_q s)],
                     sp_macid := m, sp_cam := c,
                     auth_list_cnt := (if on_auth_list s then auth_list_cnt p - 1 else auth_list_cnt p),
                     sta_dz_bitmap := (if ap then sta_dz_bitmap p AND NOT (bit_of_aid a) else sta_dz_bitmap p),
                     tim_bitmap := (if ap then tim_bitmap p AND NOT (bit_of_aid a) else tim_bitmap p),
                     sta_aid := (if mine then (sta_aid p)[unat a - 1 := None] else sta_aid p),
                     stainfo_buf := (stainfo_buf p)[psta := release_fields s mid (if mine then 0 else a)],
                     free_sta_queue := free_sta_queue p @ [psta]\<rparr>
           in (p, xmit, recv)))"

text \<open>All stations but the one for broadcast: first they are taken off the chains, then released.\<close>

definition free_sta_list :: "sta_priv \<Rightarrow> nat list" where
  "free_sta_list p = filter (\<lambda>psta. rtw_get_bcmc_stainfo p \<noteq> Some psta) (concat (sta_hash p))"

definition rtw_free_all_stainfo :: "bytes \<Rightarrow> bool \<Rightarrow> sta_priv \<Rightarrow> sta_priv" where
  "rtw_free_all_stainfo own ap p =
     (if asoc_sta_count p = 1 then p
      else
        (let l = free_sta_list p;
             p = p\<lparr>sta_hash := map (filter (\<lambda>psta. psta \<notin> set l)) (sta_hash p)\<rparr>
         in fold (\<lambda>psta p. fst (rtw_free_stainfo own ap (Some psta) p)) l p))"

lemma wifi_mac_hash_less [simp]: "unat (wifi_mac_hash a) < 32"
proof -
  have "wifi_mac_hash a \<le> 31"
    by (simp add: wifi_mac_hash_def Let_def NUM_STA_def MACID_NUM_SW_LIMIT_def word_and_le1)
  then show ?thesis by (simp add: word_le_nat_alt)
qed

section \<open>The invariant\<close>

text \<open>
  Every structure is free or on exactly one chain, the chain of its address, and the count is that
  of the structures on chains.
\<close>

definition hashed :: "sta_priv \<Rightarrow> nat list" where
  "hashed p = concat (sta_hash p)"

definition chains_ok :: "sta_priv \<Rightarrow> bool" where
  "chains_ok p \<longleftrightarrow> length (sta_hash p) = 32 \<and> length (stainfo_buf p) = 32 \<and>
     distinct (free_sta_queue p @ hashed p) \<and> set (free_sta_queue p @ hashed p) = {0..<32} \<and>
     (\<forall>i < 32. \<forall>k \<in> set (sta_hash p ! i). unat (wifi_mac_hash (mac_addr (stainfo_buf p ! k))) = i \<and> length (mac_addr (stainfo_buf p ! k)) = 6) \<and>
     asoc_sta_count p = int (length (hashed p))"

text \<open>
  The MAC ids in use are those of the stations on chains; a station without one has the number of
  ids instead.
\<close>

definition macids_ok :: "bytes \<Rightarrow> sta_priv \<Rightarrow> bool" where
  "macids_ok own p \<longleftrightarrow> macid_ok (sp_macid p) \<and>
     (\<forall>i k. i < mc_num (sp_macid p) \<longrightarrow> mc_sta (sp_macid p) ! unat i = Some k \<longrightarrow>
        k \<in> set (hashed p) \<and> mac_id (stainfo_buf p ! k) = i) \<and>
     (\<forall>k \<in> set (hashed p). mac_id (stainfo_buf p ! k) < mc_num (sp_macid p) \<longrightarrow>
        mac_addr (stainfo_buf p ! k) \<noteq> own \<and> mc_sta (sp_macid p) ! unat (mac_id (stainfo_buf p ! k)) = Some k)"

definition sta_inv :: "bytes \<Rightarrow> sta_priv \<Rightarrow> bool" where
  "sta_inv own p \<longleftrightarrow> chains_ok p \<and> macids_ok own p"

lemma hashed_update:
  "i < length (sta_hash p) \<Longrightarrow> mset (concat ((sta_hash p)[i := sta_hash p ! i @ [k]])) = add_mset k (mset (hashed p))"
proof -
  assume i: "i < length (sta_hash p)"
  have e: "sta_hash p = take i (sta_hash p) @ [sta_hash p ! i] @ drop (Suc i) (sta_hash p)" using i by (simp add: id_take_nth_drop)
  have "mset (concat (take i (sta_hash p) @ [sta_hash p ! i @ [k]] @ drop (Suc i) (sta_hash p))) =
      add_mset k (mset (concat (take i (sta_hash p) @ [sta_hash p ! i] @ drop (Suc i) (sta_hash p))))"
    by simp
  then show ?thesis using i unfolding hashed_def by (simp add: upd_conv_take_nth_drop e [symmetric] del: append_Cons append_Nil)
qed

lemma chains_okD:
  assumes "chains_ok p"
  shows "length (sta_hash p) = 32" "length (stainfo_buf p) = 32" "distinct (free_sta_queue p)" "distinct (hashed p)"
    "set (free_sta_queue p) \<inter> set (hashed p) = {}" "set (free_sta_queue p) \<union> set (hashed p) = {0..<32}"
  using assms by (auto simp: chains_ok_def)

text \<open>What an allocation does when a structure is free.\<close>

lemma alloc_stainfo_eq:
  assumes "free_sta_queue p = psta # rest" and "length hwaddr = 6"
    and "rtw_alloc_macid own psta hwaddr (sp_macid p) (sp_cam p) = (mid, m, c)"
  shows "rtw_alloc_stainfo own hwaddr p = (Some psta, p\<lparr>free_sta_queue := rest,
     sta_hash := (sta_hash p)[unat (wifi_mac_hash hwaddr) := sta_hash p ! unat (wifi_mac_hash hwaddr) @ [psta]],
     asoc_sta_count := asoc_sta_count p + 1,
     stainfo_buf := (stainfo_buf p)[psta := fresh_stainfo hwaddr mid], sp_macid := m, sp_cam := c\<rparr>)"
proof -
  have "\<not> NUM_STA \<le> unat (wifi_mac_hash hwaddr)" by (simp add: NUM_STA_def MACID_NUM_SW_LIMIT_def not_le)
  then show ?thesis using assms by (simp add: rtw_alloc_stainfo_def Let_def)
qed

lemma alloc_chains:
  assumes "chains_ok p" and "free_sta_queue p = psta # rest" and "length hwaddr = 6"
    and p': "free_sta_queue p' = rest"
      "sta_hash p' = (sta_hash p)[unat (wifi_mac_hash hwaddr) := sta_hash p ! unat (wifi_mac_hash hwaddr) @ [psta]]"
      "asoc_sta_count p' = asoc_sta_count p + 1" "stainfo_buf p' = (stainfo_buf p)[psta := fresh_stainfo hwaddr mid]"
  shows "chains_ok p' \<and> set (hashed p') = insert psta (set (hashed p)) \<and> psta \<notin> set (hashed p)"
proof -
  let ?i = "unat (wifi_mac_hash hwaddr)"
  note c = chains_okD [OF assms(1)]
  have h: "mset (hashed p') = add_mset psta (mset (hashed p))"
    using hashed_update [of ?i p psta] c(1) by (simp add: hashed_def p')
  then have m: "mset (free_sta_queue p' @ hashed p') = mset (free_sta_queue p @ hashed p)" by (simp add: p' assms(2))
  have d: "distinct (free_sta_queue p' @ hashed p')" "set (free_sta_queue p' @ hashed p') = {0..<32}"
    using assms(1) mset_eq_imp_distinct_iff [OF m] mset_eq_setD [OF m] by (simp_all add: chains_ok_def)
  have psta: "psta < 32" "psta \<notin> set (hashed p)" using c(5,6) by (auto simp: assms(2))
  have sh: "set (hashed p') = insert psta (set (hashed p))" using mset_eq_setD [of "hashed p'" "psta # hashed p"] h by simp
  have "unat (wifi_mac_hash (mac_addr (stainfo_buf p' ! k))) = i \<and> length (mac_addr (stainfo_buf p' ! k)) = 6"
    if "i < 32" "k \<in> set (sta_hash p' ! i)" for i k
  proof (cases "k = psta")
    case True
    have "i = ?i"
    proof (rule ccontr)
      assume "i \<noteq> ?i"
      then have "psta \<in> set (sta_hash p ! i)" using that True by (simp add: p')
      then show False using psta(2) that(1) c(1) by (auto simp: hashed_def)
    qed
    then show ?thesis using psta(1) c(2) assms(3) True by (simp add: p' fresh_stainfo_def)
  next
    case False
    then have "k \<in> set (sta_hash p ! i)" using that c(1) by (auto simp: p' nth_list_update split: if_splits)
    then show ?thesis using False that(1) assms(1) by (simp add: p' chains_ok_def)
  qed
  moreover have "length (hashed p') = Suc (length (hashed p))" using arg_cong [OF h, of size] by simp
  moreover have "asoc_sta_count p = int (length (hashed p))" using assms(1) by (simp add: chains_ok_def)
  ultimately show ?thesis using d c(1,2) psta(2) sh by (simp add: chains_ok_def p'(3)) (simp add: p')
qed

lemma macids_okD:
  assumes "macids_ok own p"
  shows "macid_ok (sp_macid p)"
    "i < mc_num (sp_macid p) \<Longrightarrow> mc_sta (sp_macid p) ! unat i = Some k \<Longrightarrow> k \<in> set (hashed p) \<and> mac_id (stainfo_buf p ! k) = i"
    "k \<in> set (hashed p) \<Longrightarrow> mac_id (stainfo_buf p ! k) < mc_num (sp_macid p) \<Longrightarrow>
      mac_addr (stainfo_buf p ! k) \<noteq> own \<and> mc_sta (sp_macid p) ! unat (mac_id (stainfo_buf p ! k)) = Some k"
  using assms unfolding macids_ok_def by blast+

lemma alloc_macids:
  assumes "macids_ok own p" and "psta \<notin> set (hashed p)" and "psta < length (stainfo_buf p)" and "length hwaddr = 6"
    and a: "rtw_alloc_macid own psta hwaddr (sp_macid p) (sp_cam p) = (mid, m, c)"
    and p': "stainfo_buf p' = (stainfo_buf p)[psta := fresh_stainfo hwaddr mid]" "sp_macid p' = m"
      "set (hashed p') = insert psta (set (hashed p))"
  shows "macids_ok own p'"
proof -
  have ok: "macid_ok (sp_macid p)" using assms(1) by (simp add: macids_ok_def)
  have new: "mac_id (stainfo_buf p' ! psta) = mid" "mac_addr (stainfo_buf p' ! psta) = hwaddr"
    using assms(3,4) by (simp_all add: p' fresh_stainfo_def)
  have old: "stainfo_buf p' ! k = stainfo_buf p ! k" if "k \<in> set (hashed p)" for k
    using that assms(2) by (metis p'(1) nth_list_update_neq)
  note c = alloc_macid_cases [OF ok a]
  note M = macids_okD [OF assms(1)]
  from c consider "mid < mc_num (sp_macid p)" "mc_sta (sp_macid p) ! unat mid = None"
      "mc_sta m = (mc_sta (sp_macid p))[unat mid := Some psta]" "hwaddr \<noteq> own"
    | "mid = mc_num (sp_macid p)" "mc_sta m = mc_sta (sp_macid p)" by metis
  then show ?thesis
  proof cases
    case 1
    have l: "unat mid < length (mc_sta (sp_macid p))" using macid_okD(2,3) [OF ok] 1(1) by auto
    show ?thesis unfolding macids_ok_def
    proof (intro conjI allI impI ballI)
      show "macid_ok (sp_macid p')" using c by (simp add: p')
    next
      fix i k assume i: "i < mc_num (sp_macid p')" "mc_sta (sp_macid p') ! unat i = Some k"
      show "k \<in> set (hashed p')" "mac_id (stainfo_buf p' ! k) = i"
      proof (atomize (full), cases "i = mid")
        case True
        then have "k = psta" using i 1(3) l by (simp add: p'(2))
        then show "k \<in> set (hashed p') \<and> mac_id (stainfo_buf p' ! k) = i" using True new(1) p'(3) by simp
      next
        case False
        then have "unat mid \<noteq> unat i" by (metis word_unat_eq_iff)
        then have "mc_sta (sp_macid p) ! unat i = Some k" "i < mc_num (sp_macid p)" using i 1(3) c by (simp_all add: p')
        from M(2) [OF this(2,1)] show "k \<in> set (hashed p') \<and> mac_id (stainfo_buf p' ! k) = i" using old by (simp add: p'(3))
      qed
    next
      fix k assume k: "k \<in> set (hashed p')" "mac_id (stainfo_buf p' ! k) < mc_num (sp_macid p')"
      show "mac_addr (stainfo_buf p' ! k) \<noteq> own" "mc_sta (sp_macid p') ! unat (mac_id (stainfo_buf p' ! k)) = Some k"
      proof (atomize (full), cases "k = psta")
        case True
        then show "mac_addr (stainfo_buf p' ! k) \<noteq> own \<and> mc_sta (sp_macid p') ! unat (mac_id (stainfo_buf p' ! k)) = Some k"
          using 1(3,4) l by (simp add: new) (simp add: p')
      next
        case False
        then have h: "k \<in> set (hashed p)" using k(1) p'(3) by auto
        then have *: "mac_addr (stainfo_buf p ! k) \<noteq> own" "mc_sta (sp_macid p) ! unat (mac_id (stainfo_buf p ! k)) = Some k"
          using M(3) [OF h] k(2) c old [OF h] by (simp_all add: p'(2))
        then have "unat (mac_id (stainfo_buf p ! k)) \<noteq> unat mid" using 1(2) by auto
        then show "mac_addr (stainfo_buf p' ! k) \<noteq> own \<and> mc_sta (sp_macid p') ! unat (mac_id (stainfo_buf p' ! k)) = Some k"
          using * 1(3) old [OF h] by (simp add: p'(2))
      qed
    qed
  next
    case 2
    have n: "mc_num m = mc_num (sp_macid p)" "macid_ok m" using c by auto
    show ?thesis unfolding macids_ok_def p'(2)
    proof (intro conjI allI impI ballI n(2))
      fix i k assume i: "i < mc_num m" "mc_sta m ! unat i = Some k"
      then have "k \<in> set (hashed p) \<and> mac_id (stainfo_buf p ! k) = i" using M(2) n 2(2) by simp
      then show "k \<in> set (hashed p')" "mac_id (stainfo_buf p' ! k) = i" using old p'(3) by simp_all
    next
      fix k assume k: "k \<in> set (hashed p')" "mac_id (stainfo_buf p' ! k) < mc_num m"
      have "k \<noteq> psta" using k(2) n new 2(1) by auto
      then have h: "k \<in> set (hashed p)" using k(1) p'(3) by simp
      then show "mac_addr (stainfo_buf p' ! k) \<noteq> own" "mc_sta m ! unat (mac_id (stainfo_buf p' ! k)) = Some k"
        using M(3) [OF h] k(2) old [OF h] n 2(2) by simp_all
    qed
  qed
qed

lemma alloc_inv:
  assumes "sta_inv own p" and "length hwaddr = 6" and "rtw_alloc_stainfo own hwaddr p = (Some psta, p')"
  shows "sta_inv own p' \<and> sta_hash_lock p' = sta_hash_lock p"
proof -
  note ch = assms(1) [unfolded sta_inv_def, THEN conjunct1]
  obtain k rest where f: "free_sta_queue p = k # rest"
    using assms(3) by (cases "free_sta_queue p") (auto simp: rtw_alloc_stainfo_def Let_def)
  obtain mid m c where a: "rtw_alloc_macid own k hwaddr (sp_macid p) (sp_cam p) = (mid, m, c)"
    by (cases "rtw_alloc_macid own k hwaddr (sp_macid p) (sp_cam p)")
  note e = alloc_stainfo_eq [OF f assms(2) a]
  have p': "free_sta_queue p' = rest" "sta_hash p' = (sta_hash p)[unat (wifi_mac_hash hwaddr) := sta_hash p ! unat (wifi_mac_hash hwaddr) @ [k]]"
      "asoc_sta_count p' = asoc_sta_count p + 1" "stainfo_buf p' = (stainfo_buf p)[k := fresh_stainfo hwaddr mid]"
      "sp_macid p' = m" "sta_hash_lock p' = sta_hash_lock p"
    using e assms(3) by auto
  note A = alloc_chains [OF ch f assms(2) p'(1-4)]
  have "k < length (stainfo_buf p)" using chains_okD(2,6) [OF ch] f by auto
  then have "macids_ok own p'"
    using alloc_macids [OF _ _ _ assms(2) a p'(4,5)] A assms(1) by (simp add: sta_inv_def)
  then show ?thesis using A p'(6) by (simp add: sta_inv_def)
qed

text \<open>What a release does.\<close>

lemma free_stainfo_sel:
  assumes "rtw_free_stainfo own ap (Some psta) p = (p', x, r)"
    and "rtw_release_macid own (mac_addr (stainfo_buf p ! psta)) (mac_id (stainfo_buf p ! psta)) (sp_macid p) (sp_cam p) = (mid, m, c)"
  shows "sta_hash p' = map (removeAll psta) (sta_hash p)" "asoc_sta_count p' = asoc_sta_count p - 1"
    "sp_macid p' = m" "free_sta_queue p' = free_sta_queue p @ [psta]" "sta_hash_lock p' = sta_hash_lock p"
    "\<exists>a. stainfo_buf p' = (stainfo_buf p)[psta := release_fields (stainfo_buf p ! psta) mid a]"
  using assms(1) [unfolded rtw_free_stainfo_def Let_def option.case assms(2) prod.case prod.inject] by auto

lemma concat_removeAll: "concat (map (removeAll k) xss) = removeAll k (concat xss)"
  by (induction xss) simp_all

lemma nth_removeAll: "i < length xss \<Longrightarrow> x \<in> set (map (removeAll k) xss ! i) \<longleftrightarrow> x \<in> set (xss ! i) \<and> x \<noteq> k"
  by auto

lemma distinct_removeAll_mset: "distinct xs \<Longrightarrow> k \<in> set xs \<Longrightarrow> mset xs = add_mset k (mset (removeAll k xs))"
  by (metis distinct_remove1_removeAll mset_remove1 insert_DiffM set_mset_mset)

lemma free_chains:
  assumes "chains_ok p" and "psta \<in> set (hashed p)"
    and p': "sta_hash p' = map (removeAll psta) (sta_hash p)" "asoc_sta_count p' = asoc_sta_count p - 1"
      "free_sta_queue p' = free_sta_queue p @ [psta]" "stainfo_buf p' = (stainfo_buf p)[psta := release_fields (stainfo_buf p ! psta) mid a]"
  shows "chains_ok p' \<and> set (hashed p') = set (hashed p) - {psta}"
proof -
  note c = chains_okD [OF assms(1)]
  have h: "hashed p' = removeAll psta (hashed p)" by (simp add: hashed_def p' concat_removeAll)
  note ms = distinct_removeAll_mset [OF c(4) assms(2)]
  have m: "mset (free_sta_queue p' @ hashed p') = mset (free_sta_queue p @ hashed p)"
    using ms by (simp add: p' h)
  have d: "distinct (free_sta_queue p' @ hashed p')" "set (free_sta_queue p' @ hashed p') = {0..<32}"
    using assms(1) mset_eq_imp_distinct_iff [OF m] mset_eq_setD [OF m] by (simp_all add: chains_ok_def)
  have l: "length (hashed p) = Suc (length (hashed p'))" using arg_cong [OF ms, of size] by (simp add: h)
  have "unat (wifi_mac_hash (mac_addr (stainfo_buf p' ! k))) = i \<and> length (mac_addr (stainfo_buf p' ! k)) = 6"
    if "i < 32" "k \<in> set (sta_hash p' ! i)" for i k
  proof -
    have "k \<in> set (sta_hash p ! i)" "k \<noteq> psta" using that c(1) by (simp_all add: p')
    then show ?thesis using assms(1) that(1) by (simp add: p' chains_ok_def)
  qed
  moreover have "asoc_sta_count p = int (length (hashed p))" using assms(1) by (simp add: chains_ok_def)
  ultimately show ?thesis using d c(1,2) l by (simp add: chains_ok_def p'(2)) (simp add: p' h)
qed

lemma free_macids:
  assumes M: "macids_ok own p" and "psta \<in> set (hashed p)" and "psta < length (stainfo_buf p)"
    and r: "rtw_release_macid own (mac_addr (stainfo_buf p ! psta)) (mac_id (stainfo_buf p ! psta)) (sp_macid p) (sp_cam p) = (mid, m, c)"
    and p': "sp_macid p' = m" "stainfo_buf p' = (stainfo_buf p)[psta := release_fields (stainfo_buf p ! psta) mid a]"
      "set (hashed p') = set (hashed p) - {psta}"
  shows "macids_ok own p'"
proof -
  let ?s = "stainfo_buf p ! psta"
  note M = macids_okD [OF M]
  note ok = M(1)
  note rel = release_macid_ok [OF ok r]
  have old: "stainfo_buf p' ! k = stainfo_buf p ! k" if "k \<noteq> psta" for k using that by (simp add: p')
  have own: "mac_id ?s < mc_num (sp_macid p) \<Longrightarrow> mac_addr ?s \<noteq> own" using M(3) [OF assms(2)] by simp
  show ?thesis unfolding macids_ok_def
  proof (intro conjI allI impI ballI)
    show "macid_ok (sp_macid p')" using rel by (simp add: p')
  next
    fix i k assume i: "i < mc_num (sp_macid p')" "mc_sta (sp_macid p') ! unat i = Some k"
    have "mc_sta (sp_macid p) ! unat i = Some k" "i \<noteq> mac_id ?s"
    proof (atomize (full), cases "mac_id ?s < mc_num (sp_macid p)")
      case True
      then have e: "mc_sta m = (mc_sta (sp_macid p))[unat (mac_id ?s) := None]" using rel own by simp
      have l: "unat (mac_id ?s) < length (mc_sta (sp_macid p))" using macid_okD(2,3) [OF ok] True by auto
      show "mc_sta (sp_macid p) ! unat i = Some k \<and> i \<noteq> mac_id ?s"
        using i(2) l by (auto simp: p'(1) e nth_list_update split: if_splits)
    next
      case False
      then show "mc_sta (sp_macid p) ! unat i = Some k \<and> i \<noteq> mac_id ?s" using i rel by (auto simp: p'(1))
    qed
    moreover from this have k: "k \<in> set (hashed p)" "mac_id (stainfo_buf p ! k) = i" using M(2) [of i k] i(1) rel by (simp_all add: p'(1))
    ultimately have "k \<noteq> psta" by auto
    then show "k \<in> set (hashed p')" "mac_id (stainfo_buf p' ! k) = i" using k old by (simp_all add: p'(3))
  next
    fix k assume k: "k \<in> set (hashed p')" "mac_id (stainfo_buf p' ! k) < mc_num (sp_macid p')"
    then have ne: "k \<noteq> psta" and h: "k \<in> set (hashed p)" by (simp_all add: p'(3))
    have *: "mac_addr (stainfo_buf p ! k) \<noteq> own" "mc_sta (sp_macid p) ! unat (mac_id (stainfo_buf p ! k)) = Some k"
      using M(3) [OF h] k(2) old [OF ne] rel by (simp_all add: p'(1))
    have "mc_sta m ! unat (mac_id (stainfo_buf p ! k)) = Some k"
    proof (cases "mac_addr ?s \<noteq> own \<and> mac_id ?s < mc_num (sp_macid p)")
      case True
      then have "mc_sta (sp_macid p) ! unat (mac_id ?s) = Some psta" using M(3) [OF assms(2)] by simp
      then have "unat (mac_id (stainfo_buf p ! k)) \<noteq> unat (mac_id ?s)" using * ne by auto
      then show ?thesis using rel * True by simp
    next
      case False
      then show ?thesis using rel *(2) by presburger
    qed
    then show "mac_addr (stainfo_buf p' ! k) \<noteq> own" "mc_sta (sp_macid p') ! unat (mac_id (stainfo_buf p' ! k)) = Some k"
      using * old [OF ne] by (simp_all add: p'(1))
  qed
qed

lemma free_inv:
  assumes "sta_inv own p" and "psta \<in> set (hashed p)" and "rtw_free_stainfo own ap (Some psta) p = (p', x, r)"
  shows "sta_inv own p' \<and> set (hashed p') = set (hashed p) - {psta} \<and> sta_hash_lock p' = sta_hash_lock p"
proof -
  note ch = assms(1) [unfolded sta_inv_def, THEN conjunct1]
  obtain mid m c where a: "rtw_release_macid own (mac_addr (stainfo_buf p ! psta)) (mac_id (stainfo_buf p ! psta)) (sp_macid p) (sp_cam p) = (mid, m, c)"
    by (cases "rtw_release_macid own (mac_addr (stainfo_buf p ! psta)) (mac_id (stainfo_buf p ! psta)) (sp_macid p) (sp_cam p)")
  note s = free_stainfo_sel [OF assms(3) a]
  then obtain b where b: "stainfo_buf p' = (stainfo_buf p)[psta := release_fields (stainfo_buf p ! psta) mid b]" by blast
  note F = free_chains [OF ch assms(2) s(1,2,4) b]
  have "psta < length (stainfo_buf p)" using chains_okD(2,6) [OF ch] assms(2) by auto
  then have "macids_ok own p'"
    using free_macids [OF _ assms(2) _ a s(3) b] F assms(1) by (simp add: sta_inv_def)
  then show ?thesis using F s(5) by (simp add: sta_inv_def)
qed

section \<open>Looking up\<close>

text \<open>Stations have unicast addresses, but for the broadcast station.\<close>

definition tab_addr :: "bytes \<Rightarrow> bool" where
  "tab_addr a \<longleftrightarrow> length a = 6 \<and> (IS_MCAST a \<longrightarrow> a = bc_addr)"

definition sta_uniq :: "sta_priv \<Rightarrow> bool" where
  "sta_uniq p \<longleftrightarrow> inj_on (\<lambda>k. mac_addr (stainfo_buf p ! k)) (set (hashed p)) \<and>
     (\<forall>k \<in> set (hashed p). tab_addr (mac_addr (stainfo_buf p ! k)))"

lemma get_stainfo_iff:
  assumes "chains_ok p" and "sta_uniq p" and "tab_addr a"
  shows "rtw_get_stainfo p (Some a) = Some k \<longleftrightarrow> k \<in> set (hashed p) \<and> mac_addr (stainfo_buf p ! k) = a"
proof -
  let ?chain = "sta_hash p ! unat (wifi_mac_hash a)"
  have len: "length (sta_hash p) = 32" by (rule chains_okD(1) [OF assms(1)])
  have addr: "(if IS_MCAST a then bc_addr else a) = a" "take 6 a = a" using assms(3) by (auto simp: tab_addr_def)
  have e: "rtw_get_stainfo p (Some a) = List.find (\<lambda>k. mac_addr (stainfo_buf p ! k) = a) ?chain"
    unfolding rtw_get_stainfo_def option.case addr Let_def ..
  have sub: "set ?chain \<subseteq> set (hashed p)"
  proof -
    have "?chain \<in> set (sta_hash p)" using len by (intro nth_mem) simp
    then show ?thesis unfolding hashed_def set_concat by blast
  qed
  have chain: "j \<in> set ?chain" if h: "j \<in> set (hashed p)" "mac_addr (stainfo_buf p ! j) = a" for j
  proof -
    obtain xs where "xs \<in> set (sta_hash p)" "j \<in> set xs" using h(1) by (auto simp: hashed_def)
    then obtain i where "i < 32" "j \<in> set (sta_hash p ! i)" using len by (metis in_set_conv_nth)
    moreover from this have "unat (wifi_mac_hash (mac_addr (stainfo_buf p ! j))) = i" using assms(1) by (simp add: chains_ok_def)
    ultimately show ?thesis using h(2) by simp
  qed
  show ?thesis
  proof
    assume "rtw_get_stainfo p (Some a) = Some k"
    then show "k \<in> set (hashed p) \<and> mac_addr (stainfo_buf p ! k) = a"
      using sub unfolding e by (auto simp: find_Some_iff)
  next
    assume k: "k \<in> set (hashed p) \<and> mac_addr (stainfo_buf p ! k) = a"
    then have "List.find (\<lambda>k. mac_addr (stainfo_buf p ! k) = a) ?chain \<noteq> None" using chain by (auto simp: find_None_iff)
    then obtain j where j: "List.find (\<lambda>k. mac_addr (stainfo_buf p ! k) = a) ?chain = Some j" by blast
    then have "j \<in> set (hashed p)" "mac_addr (stainfo_buf p ! j) = a" using sub by (auto simp: find_Some_iff)
    then have "j = k" using k assms(2) by (auto simp: sta_uniq_def dest: inj_onD)
    then show "rtw_get_stainfo p (Some a) = Some k" using j e by simp
  qed
qed

lemma get_stainfo_None:
  assumes "chains_ok p" and "sta_uniq p" and "tab_addr a"
  shows "rtw_get_stainfo p (Some a) = None \<longleftrightarrow> (\<forall>k \<in> set (hashed p). mac_addr (stainfo_buf p ! k) \<noteq> a)"
  using get_stainfo_iff [OF assms] by (metis not_Some_eq)

lemma option_eqI: "(\<And>k. x = Some k \<longleftrightarrow> y = Some k) \<Longrightarrow> x = y"
  by (cases x; cases y) auto

section \<open>The table as a map\<close>

text \<open>
  What the driver relies on: it looks a station up, allocates it if it is not there, and releases it
  if it is. \<open>cap\<close> is the number of stations there is room for.
\<close>

locale station_table =
  fixes inv :: "'s \<Rightarrow> bool" and lookup :: "'s \<Rightarrow> 'a \<Rightarrow> nat option" and valid :: "'a \<Rightarrow> bool"
    and insert_sta :: "'a \<Rightarrow> 's \<Rightarrow> nat option \<times> 's" and remove_sta :: "nat \<Rightarrow> 's \<Rightarrow> 's" and cap :: nat
  assumes finite_held: "inv s \<Longrightarrow> finite {a. valid a \<and> lookup s a \<noteq> None}"
    and insert_law: "inv s \<Longrightarrow> valid a \<Longrightarrow> lookup s a = None \<Longrightarrow> card {a. valid a \<and> lookup s a \<noteq> None} < cap \<Longrightarrow>
      \<exists>k s'. insert_sta a s = (Some k, s') \<and> inv s' \<and> (\<forall>b. valid b \<longrightarrow> lookup s' b = (if b = a then Some k else lookup s b))"
    and remove_law: "inv s \<Longrightarrow> valid a \<Longrightarrow> lookup s a = Some k \<Longrightarrow>
      inv (remove_sta k s) \<and> (\<forall>b. valid b \<longrightarrow> lookup (remove_sta k s) b = (if b = a then None else lookup s b))"

datatype 'a table_op = Join 'a | Leave 'a

text \<open>Stations that come and go.\<close>

fun table_step :: "('s \<Rightarrow> 'a \<Rightarrow> nat option) \<Rightarrow> ('a \<Rightarrow> 's \<Rightarrow> nat option \<times> 's) \<Rightarrow> (nat \<Rightarrow> 's \<Rightarrow> 's) \<Rightarrow> 'a table_op \<Rightarrow> 's \<Rightarrow> 's" where
  "table_step lk ins rm (Join a) s = (case lk s a of None \<Rightarrow> snd (ins a s) | Some k \<Rightarrow> s)"
| "table_step lk ins rm (Leave a) s = (case lk s a of None \<Rightarrow> s | Some k \<Rightarrow> rm k s)"

fun op_addr :: "'a table_op \<Rightarrow> 'a" where
  "op_addr (Join a) = a"
| "op_addr (Leave a) = a"

text \<open>Who is there, and whether there was room whenever somebody came.\<close>

fun present :: "'a table_op list \<Rightarrow> 'a set \<Rightarrow> 'a set" where
  "present [] S = S"
| "present (Join a # es) S = present es (insert a S)"
| "present (Leave a # es) S = present es (S - {a})"

fun room :: "nat \<Rightarrow> 'a table_op list \<Rightarrow> 'a set \<Rightarrow> bool" where
  "room cap [] S \<longleftrightarrow> True"
| "room cap (Join a # es) S \<longleftrightarrow> (a \<in> S \<or> card S < cap) \<and> room cap es (insert a S)"
| "room cap (Leave a # es) S \<longleftrightarrow> room cap es (S - {a})"

context station_table
begin

lemma run_present:
  assumes "inv s" and "\<forall>e \<in> set es. valid (op_addr e)" and "S = {a. valid a \<and> lookup s a \<noteq> None}" and "room cap es S"
  shows "inv (fold (table_step lookup insert_sta remove_sta) es s) \<and>
    {a. valid a \<and> lookup (fold (table_step lookup insert_sta remove_sta) es s) a \<noteq> None} = present es S"
  using assms
proof (induction es arbitrary: s S)
  case (Cons e es)
  show ?case
  proof (cases e)
    case (Join a)
    have v: "valid a" using Cons.prems(2) by (simp add: Join)
    show ?thesis
    proof (cases "lookup s a")
      case None
      then have "card {a. valid a \<and> lookup s a \<noteq> None} < cap" using Cons.prems(3,4) by (simp add: Join)
      then obtain k s' where i: "insert_sta a s = (Some k, s')" "inv s'"
          "\<forall>b. valid b \<longrightarrow> lookup s' b = (if b = a then Some k else lookup s b)"
        using insert_law [OF Cons.prems(1) v None] by blast
      have "insert a S = {a. valid a \<and> lookup s' a \<noteq> None}" unfolding Cons.prems(3) using i(3) v by auto
      from Cons.IH [OF i(2) _ this] show ?thesis using Cons.prems(2,4) None i(1) by (simp add: Join)
    next
      case (Some k)
      have "insert a S = S" using Some v by (auto simp: Cons.prems(3))
      then show ?thesis using Cons.IH [OF Cons.prems(1) _ Cons.prems(3)] Cons.prems(2,4) Some by (simp add: Join)
    qed
  next
    case (Leave a)
    have v: "valid a" using Cons.prems(2) by (simp add: Leave)
    show ?thesis
    proof (cases "lookup s a")
      case None
      then have "S - {a} = S" by (auto simp: Cons.prems(3))
      then show ?thesis using Cons.IH [OF Cons.prems(1) _ Cons.prems(3)] Cons.prems(2,4) None by (simp add: Leave)
    next
      case (Some k)
      note r = remove_law [OF Cons.prems(1) v Some]
      have "S - {a} = {b. valid b \<and> lookup (remove_sta k s) b \<noteq> None}" unfolding Cons.prems(3) using r by (auto split: if_splits)
      from Cons.IH [OF _ _ this] show ?thesis using Cons.prems(2,4) Some r by (simp add: Leave)
    qed
  qed
qed simp

end

lemma inj_on_agree: "inj_on f A \<Longrightarrow> (\<And>j. j \<in> B \<Longrightarrow> g j = f j) \<Longrightarrow> B \<subseteq> A \<Longrightarrow> inj_on g B"
  by (metis inj_on_cong inj_on_subset)

lemma alloc_table:
  assumes inv: "sta_inv own p" and u: "sta_uniq p" and a: "tab_addr a" and none: "rtw_get_stainfo p (Some a) = None"
    and r: "rtw_alloc_stainfo own a p = (Some k, p')"
  shows "sta_uniq p' \<and> (\<forall>b. tab_addr b \<longrightarrow> rtw_get_stainfo p' (Some b) = (if b = a then Some k else rtw_get_stainfo p (Some b)))"
proof -
  have len: "length a = 6" using a by (simp add: tab_addr_def)
  note ch = inv [unfolded sta_inv_def, THEN conjunct1]
  obtain rest where f: "free_sta_queue p = k # rest"
    using r by (cases "free_sta_queue p") (auto simp: rtw_alloc_stainfo_def Let_def split: if_splits prod.splits)
  obtain mid m c where m: "rtw_alloc_macid own k a (sp_macid p) (sp_cam p) = (mid, m, c)"
    by (cases "rtw_alloc_macid own k a (sp_macid p) (sp_cam p)")
  have p': "free_sta_queue p' = rest" "sta_hash p' = (sta_hash p)[unat (wifi_mac_hash a) := sta_hash p ! unat (wifi_mac_hash a) @ [k]]"
      "asoc_sta_count p' = asoc_sta_count p + 1" "stainfo_buf p' = (stainfo_buf p)[k := fresh_stainfo a mid]"
    using alloc_stainfo_eq [OF f len m] r by auto
  note A = alloc_chains [OF ch f len p']
  have kl: "k < length (stainfo_buf p)" using chains_okD(2,6) [OF ch] f by auto
  have new: "mac_addr (stainfo_buf p' ! k) = a" using kl len by (simp add: p' fresh_stainfo_def)
  have old: "stainfo_buf p' ! j = stainfo_buf p ! j" if "j \<in> set (hashed p)" for j
    using that A by (metis p'(4) nth_list_update_neq)
  have fresh: "mac_addr (stainfo_buf p ! j) \<noteq> a" if "j \<in> set (hashed p)" for j
    using none that get_stainfo_None [OF ch u a] by blast
  have i: "inj_on (\<lambda>j. mac_addr (stainfo_buf p' ! j)) (set (hashed p))"
    by (rule inj_on_agree [of "\<lambda>j. mac_addr (stainfo_buf p ! j)" "set (hashed p)"]) (use u old in \<open>auto simp: sta_uniq_def\<close>)
  have n: "mac_addr (stainfo_buf p' ! k) \<notin> (\<lambda>j. mac_addr (stainfo_buf p' ! j)) ` (set (hashed p) - {k})"
    unfolding new using old fresh by auto
  have u': "sta_uniq p'"
    using u old new A a i n by (simp add: sta_uniq_def)
  have "rtw_get_stainfo p' (Some b) = (if b = a then Some k else rtw_get_stainfo p (Some b))" if b: "tab_addr b" for b
  proof (rule option_eqI)
    fix j
    have "rtw_get_stainfo p' (Some b) = Some j \<longleftrightarrow> j \<in> insert k (set (hashed p)) \<and> mac_addr (stainfo_buf p' ! j) = b"
      using get_stainfo_iff [of p' b j] A u' b by blast
    also have "\<dots> \<longleftrightarrow> j = k \<and> a = b \<or> j \<in> set (hashed p) \<and> mac_addr (stainfo_buf p ! j) = b"
      using new old A by auto
    also have "\<dots> \<longleftrightarrow> (if b = a then Some k else rtw_get_stainfo p (Some b)) = Some j"
      using get_stainfo_iff [OF ch u b, of j] fresh by auto
    finally show "rtw_get_stainfo p' (Some b) = Some j \<longleftrightarrow> (if b = a then Some k else rtw_get_stainfo p (Some b)) = Some j" .
  qed
  then show ?thesis using u' by blast
qed

lemma free_table:
  assumes inv: "sta_inv own p" and u: "sta_uniq p" and k: "k \<in> set (hashed p)"
    and r: "rtw_free_stainfo own ap (Some k) p = (p', x, y)"
  shows "sta_uniq p' \<and> (\<forall>b. tab_addr b \<longrightarrow> rtw_get_stainfo p' (Some b) =
    (if b = mac_addr (stainfo_buf p ! k) then None else rtw_get_stainfo p (Some b)))"
proof -
  note ch = inv [unfolded sta_inv_def, THEN conjunct1]
  note F = free_inv [OF inv k r]
  then have ch': "chains_ok p'" by (simp add: sta_inv_def)
  obtain mid m c where m: "rtw_release_macid own (mac_addr (stainfo_buf p ! k)) (mac_id (stainfo_buf p ! k)) (sp_macid p) (sp_cam p) = (mid, m, c)"
    by (cases "rtw_release_macid own (mac_addr (stainfo_buf p ! k)) (mac_id (stainfo_buf p ! k)) (sp_macid p) (sp_cam p)")
  have old: "stainfo_buf p' ! j = stainfo_buf p ! j" if "j \<noteq> k" for j
    using free_stainfo_sel(6) [OF r m] that by auto
  have "inj_on (\<lambda>j. mac_addr (stainfo_buf p' ! j)) (set (hashed p'))"
    by (rule inj_on_agree [of "\<lambda>j. mac_addr (stainfo_buf p ! j)" "set (hashed p)"]) (use u old F in \<open>auto simp: sta_uniq_def\<close>)
  then have u': "sta_uniq p'" using u F old by (simp add: sta_uniq_def)
  have "rtw_get_stainfo p' (Some b) = (if b = mac_addr (stainfo_buf p ! k) then None else rtw_get_stainfo p (Some b))"
    if b: "tab_addr b" for b
  proof (rule option_eqI)
    fix j
    have "rtw_get_stainfo p' (Some b) = Some j \<longleftrightarrow> j \<in> set (hashed p) - {k} \<and> mac_addr (stainfo_buf p ! j) = b"
      unfolding get_stainfo_iff [OF ch' u' b, of j] using F old [of j] by (cases "j = k") simp_all
    also have "\<dots> \<longleftrightarrow> (if b = mac_addr (stainfo_buf p ! k) then None else rtw_get_stainfo p (Some b)) = Some j"
    proof (cases "b = mac_addr (stainfo_buf p ! k)")
      case True
      have "j = k" if "j \<in> set (hashed p)" "mac_addr (stainfo_buf p ! j) = b"
        using u that k True by (auto simp: sta_uniq_def dest: inj_onD)
      then show ?thesis using True by auto
    next
      case False
      then show ?thesis using get_stainfo_iff [OF ch u b, of j] by auto
    qed
    finally show "rtw_get_stainfo p' (Some b) = Some j \<longleftrightarrow>
      (if b = mac_addr (stainfo_buf p ! k) then None else rtw_get_stainfo p (Some b)) = Some j" .
  qed
  then show ?thesis using u' by blast
qed

lemma held_hashed:
  assumes "chains_ok p" and "sta_uniq p"
  shows "{a. tab_addr a \<and> rtw_get_stainfo p (Some a) \<noteq> None} = (\<lambda>k. mac_addr (stainfo_buf p ! k)) ` set (hashed p)"
  using get_stainfo_iff [OF assms] assms(2) by (force simp: sta_uniq_def)

lemma alloc_room:
  assumes "chains_ok p" and "sta_uniq p" and "card {a. tab_addr a \<and> rtw_get_stainfo p (Some a) \<noteq> None} < 32"
  shows "free_sta_queue p \<noteq> []"
proof
  assume "free_sta_queue p = []"
  then have "set (hashed p) = {0..<32}" using chains_okD(6) [OF assms(1)] by simp
  moreover have "card {a. tab_addr a \<and> rtw_get_stainfo p (Some a) \<noteq> None} = card (set (hashed p))"
    unfolding held_hashed [OF assms(1,2)] using assms(2) by (intro card_image) (simp add: sta_uniq_def)
  ultimately show False using assms(3) by simp
qed

lemma alloc_Some:
  assumes "free_sta_queue p \<noteq> []" and "length a = 6"
  obtains k p' where "rtw_alloc_stainfo own a p = (Some k, p')"
proof -
  obtain k rest where f: "free_sta_queue p = k # rest" using assms(1) by (cases "free_sta_queue p") auto
  obtain mid m c where "rtw_alloc_macid own k a (sp_macid p) (sp_cam p) = (mid, m, c)"
    by (cases "rtw_alloc_macid own k a (sp_macid p) (sp_cam p)")
  from that [OF alloc_stainfo_eq [OF f assms(2) this]] show ?thesis .
qed

text \<open>The table of the driver is one.\<close>

definition get_sta :: "sta_priv \<Rightarrow> bytes \<Rightarrow> nat option" where
  "get_sta p a = rtw_get_stainfo p (Some a)"

definition drop_sta :: "bytes \<Rightarrow> bool \<Rightarrow> nat \<Rightarrow> sta_priv \<Rightarrow> sta_priv" where
  "drop_sta own ap k p = fst (rtw_free_stainfo own ap (Some k) p)"

interpretation sta: station_table "\<lambda>p. sta_inv own p \<and> sta_uniq p" get_sta tab_addr "rtw_alloc_stainfo own" "drop_sta own ap" 32
proof unfold_locales
  fix p assume "sta_inv own p \<and> sta_uniq p"
  then show "finite {a. tab_addr a \<and> get_sta p a \<noteq> None}" using held_hashed [of p] by (simp add: sta_inv_def get_sta_def)
next
  fix p a assume i: "sta_inv own p \<and> sta_uniq p" and a: "tab_addr a" "get_sta p a = None"
    and c: "card {a. tab_addr a \<and> get_sta p a \<noteq> None} < 32"
  have "free_sta_queue p \<noteq> []" using alloc_room [of p] i c by (simp add: sta_inv_def get_sta_def)
  then obtain k p' where r: "rtw_alloc_stainfo own a p = (Some k, p')" using alloc_Some a(1) by (metis tab_addr_def)
  then show "\<exists>k p'. rtw_alloc_stainfo own a p = (Some k, p') \<and> (sta_inv own p' \<and> sta_uniq p') \<and>
      (\<forall>b. tab_addr b \<longrightarrow> get_sta p' b = (if b = a then Some k else get_sta p b))"
    using alloc_inv [OF _ _ r] alloc_table [OF _ _ a(1) _ r] i a by (simp add: get_sta_def tab_addr_def)
next
  fix p a k assume i: "sta_inv own p \<and> sta_uniq p" and a: "tab_addr a" "get_sta p a = Some k"
  have k: "k \<in> set (hashed p)" "mac_addr (stainfo_buf p ! k) = a"
    using get_stainfo_iff [of p a k] i a by (simp_all add: sta_inv_def get_sta_def)
  obtain p' x y where r: "rtw_free_stainfo own ap (Some k) p = (p', x, y)" by (cases "rtw_free_stainfo own ap (Some k) p")
  show "(sta_inv own (drop_sta own ap k p) \<and> sta_uniq (drop_sta own ap k p)) \<and>
      (\<forall>b. tab_addr b \<longrightarrow> get_sta (drop_sta own ap k p) b = (if b = a then None else get_sta p b))"
    using free_inv [OF _ k(1) r] free_table [OF _ _ k(1) r] i k(2) by (simp add: drop_sta_def r get_sta_def)
qed

section \<open>What the table promises\<close>

lemma init_inv: "sta_inv own (init_sta_priv init_macid_ctl c) \<and> sta_uniq (init_sta_priv init_macid_ctl c)"
proof -
  have h: "hashed (init_sta_priv m c) = []" for m by (simp add: hashed_def init_sta_priv_def)
  have "macid_ok init_macid_ctl"
    by (auto simp: macid_ok_def init_macid_ctl_def MACID_NUM_SW_LIMIT_def nth_Cons' word_less_nat_alt)
  moreover have "mc_sta init_macid_ctl ! unat i = None" if "i < mc_num init_macid_ctl" for i
    using that by (simp add: init_macid_ctl_def MACID_NUM_SW_LIMIT_def word_less_nat_alt)
  ultimately show ?thesis
    by (auto simp: sta_inv_def chains_ok_def macids_ok_def sta_uniq_def h) 
      (auto simp: init_sta_priv_def NUM_STA_def MACID_NUM_SW_LIMIT_def)
qed

abbreviation sta_run :: "bytes \<Rightarrow> bool \<Rightarrow> cam_ctl \<Rightarrow> bytes table_op list \<Rightarrow> sta_priv" where
  "sta_run own ap c es \<equiv> fold (table_step get_sta (rtw_alloc_stainfo own) (drop_sta own ap)) es (init_sta_priv init_macid_ctl c)"

lemma sta_run_inv:
  assumes "\<forall>e \<in> set es. tab_addr (op_addr e)" and "room 32 es {}"
  shows "sta_inv own (sta_run own ap c es)" "sta_uniq (sta_run own ap c es)"
    "{a. tab_addr a \<and> get_sta (sta_run own ap c es) a \<noteq> None} = present es {}"
proof -
  have "get_sta (init_sta_priv init_macid_ctl c) a = None" for a
    by (simp add: get_sta_def rtw_get_stainfo_def init_sta_priv_def NUM_STA_def MACID_NUM_SW_LIMIT_def Let_def)
  then show "sta_inv own (sta_run own ap c es)" "sta_uniq (sta_run own ap c es)"
    "{a. tab_addr a \<and> get_sta (sta_run own ap c es) a \<noteq> None} = present es {}"
    using sta.run_present [OF init_inv [of own c] assms(1) _ assms(2), where ap = ap] by simp_all
qed

text \<open>C12: As stations come and go, never more than 32 at a time, the table holds exactly those that
  are there: a lookup finds a station if and only if it came and has not gone.\<close>

theorem sta_table_holds_present:
  assumes "\<forall>e \<in> set es. tab_addr (op_addr e)" and "room 32 es {}" and "tab_addr a"
  shows "rtw_get_stainfo (sta_run own ap c es) (Some a) \<noteq> None \<longleftrightarrow> a \<in> present es {}"
  using sta_run_inv(3) [OF assms(1,2), of own ap c] assms(3) by (auto simp: get_sta_def)

text \<open>C13: No two stations of the table share a MAC id, and the table of MAC ids points back at them.\<close>

theorem sta_macids_exclusive:
  assumes "\<forall>e \<in> set es. tab_addr (op_addr e)" and "room 32 es {}" and "p = sta_run own ap c es"
    and "rtw_get_stainfo p (Some a) = Some j" and "rtw_get_stainfo p (Some b) = Some k" and "tab_addr a" and "tab_addr b"
    and "mac_id (stainfo_buf p ! j) < mc_num (sp_macid p)"
  shows "mc_sta (sp_macid p) ! unat (mac_id (stainfo_buf p ! j)) = Some j \<and>
    (mac_id (stainfo_buf p ! j) = mac_id (stainfo_buf p ! k) \<longrightarrow> a = b)"
proof -
  have i: "chains_ok p" "macids_ok own p" "sta_uniq p"
    using sta_run_inv [OF assms(1,2), of own ap c] by (auto simp: assms(3) sta_inv_def)
  have j: "j \<in> set (hashed p)" "mac_addr (stainfo_buf p ! j) = a" using get_stainfo_iff [OF i(1,3) assms(6)] assms(4) by auto
  have k: "k \<in> set (hashed p)" "mac_addr (stainfo_buf p ! k) = b" using get_stainfo_iff [OF i(1,3) assms(7)] assms(5) by auto
  have "mc_sta (sp_macid p) ! unat (mac_id (stainfo_buf p ! j)) = Some j" using macids_okD(3) [OF i(2) j(1) assms(8)] ..
  moreover from this have "a = b" if e: "mac_id (stainfo_buf p ! j) = mac_id (stainfo_buf p ! k)"
  proof -
    have "mc_sta (sp_macid p) ! unat (mac_id (stainfo_buf p ! k)) = Some k"
      using macids_okD(3) [OF i(2) k(1)] assms(8) unfolding e by blast
    then have "j = k" using calculation unfolding e by (metis option.inject)
    then show ?thesis using j(2) k(2) by metis
  qed
  ultimately show ?thesis by blast
qed

section \<open>Releasing all\<close>

lemma free_hash_irrelevant:
  "rtw_free_stainfo own ap (Some k) (p\<lparr>sta_hash := H\<rparr>) =
    (case rtw_free_stainfo own ap (Some k) p of (q, x, y) \<Rightarrow> (q\<lparr>sta_hash := map (removeAll k) H\<rparr>, x, y))"
  by (simp add: rtw_free_stainfo_def Let_def split: prod.splits)

lemma free_all_fold:
  "set l \<subseteq> set (hashed p) \<Longrightarrow> distinct l \<Longrightarrow> sta_inv own p \<Longrightarrow> sta_uniq p \<Longrightarrow>
   \<exists>q. fold (\<lambda>k p. fst (rtw_free_stainfo own ap (Some k) p)) l (p\<lparr>sta_hash := map (filter (\<lambda>k. k \<notin> set l)) (sta_hash p)\<rparr>) = q \<and>
     sta_inv own q \<and> sta_uniq q \<and> set (hashed q) = set (hashed p) - set l \<and>
     (\<forall>j. j \<notin> set l \<longrightarrow> stainfo_buf q ! j = stainfo_buf p ! j)"
proof (induction l arbitrary: p)
  case (Cons k l)
  obtain p1 x y where r: "rtw_free_stainfo own ap (Some k) p = (p1, x, y)" by (cases "rtw_free_stainfo own ap (Some k) p")
  have k: "k \<in> set (hashed p)" using Cons.prems(1) by simp
  note F = free_inv [OF Cons.prems(3) k r]
  note T = free_table [OF Cons.prems(3,4) k r]
  obtain mid m c where m: "rtw_release_macid own (mac_addr (stainfo_buf p ! k)) (mac_id (stainfo_buf p ! k)) (sp_macid p) (sp_cam p) = (mid, m, c)"
    by (cases "rtw_release_macid own (mac_addr (stainfo_buf p ! k)) (mac_id (stainfo_buf p ! k)) (sp_macid p) (sp_cam p)")
  note S = free_stainfo_sel [OF r m]
  have "map (removeAll k) (map (filter (\<lambda>j. j \<notin> set (k # l))) (sta_hash p)) = map (filter (\<lambda>j. j \<notin> set l)) (sta_hash p1)"
    by (auto simp: S(1) removeAll_filter_not_eq intro!: filter_cong)
  then have step: "fst (rtw_free_stainfo own ap (Some k) (p\<lparr>sta_hash := map (filter (\<lambda>j. j \<notin> set (k # l))) (sta_hash p)\<rparr>)) =
      p1\<lparr>sta_hash := map (filter (\<lambda>j. j \<notin> set l)) (sta_hash p1)\<rparr>"
    by (simp only: free_hash_irrelevant r prod.case fst_conv)
  have "set l \<subseteq> set (hashed p1)" using Cons.prems(1,2) F by auto
  from Cons.IH [OF this _ _ T [THEN conjunct1]] obtain q where
    q: "fold (\<lambda>k p. fst (rtw_free_stainfo own ap (Some k) p)) l (p1\<lparr>sta_hash := map (filter (\<lambda>k. k \<notin> set l)) (sta_hash p1)\<rparr>) = q"
      "sta_inv own q" "sta_uniq q" "set (hashed q) = set (hashed p1) - set l"
      "\<forall>j. j \<notin> set l \<longrightarrow> stainfo_buf q ! j = stainfo_buf p1 ! j"
    using Cons.prems(2) F by auto
  have "\<forall>j. j \<notin> set (k # l) \<longrightarrow> stainfo_buf q ! j = stainfo_buf p ! j" using q(5) S(6) by auto
  moreover have "set (hashed q) = set (hashed p) - set (k # l)" using q(4) F by auto
  moreover have "fold (\<lambda>k p. fst (rtw_free_stainfo own ap (Some k) p)) (k # l)
      (p\<lparr>sta_hash := map (filter (\<lambda>j. j \<notin> set (k # l))) (sta_hash p)\<rparr>) = q"
    using q(1) step by (simp del: list.set)
  ultimately show ?case using q(2,3) by blast
next
  case Nil
  have "p\<lparr>sta_hash := map (filter (\<lambda>k. k \<notin> set [])) (sta_hash p)\<rparr> = p" by (simp add: map_idI)
  then show ?case using Nil by simp
qed

lemma free_all_stainfo_hashed:
  assumes "sta_inv own p" and "sta_uniq p" and "rtw_get_bcmc_stainfo p = Some b"
  shows "sta_inv own (rtw_free_all_stainfo own ap p) \<and> sta_uniq (rtw_free_all_stainfo own ap p) \<and>
    set (hashed (rtw_free_all_stainfo own ap p)) = {b} \<and> mac_addr (stainfo_buf (rtw_free_all_stainfo own ap p) ! b) = bc_addr"
proof -
  note ch = assms(1) [unfolded sta_inv_def, THEN conjunct1]
  have "tab_addr bc_addr" by (simp add: tab_addr_def bc_addr_def)
  then have b: "b \<in> set (hashed p)" "mac_addr (stainfo_buf p ! b) = bc_addr"
    using get_stainfo_iff [OF ch assms(2)] assms(3) by (simp_all add: rtw_get_bcmc_stainfo_def)
  show ?thesis
  proof (cases "asoc_sta_count p = 1")
    case True
    then have "length (hashed p) = 1" using ch by (simp add: chains_ok_def)
    then have "set (hashed p) = {b}" using b(1) by (auto simp: length_Suc_conv)
    then show ?thesis using b(2) assms(1,2) True by (simp add: rtw_free_all_stainfo_def)
  next
    case False
    let ?l = "free_sta_list p"
    have l: "set ?l = set (hashed p) - {b}" "distinct ?l"
      using assms(3) chains_okD(4) [OF ch] by (auto simp: free_sta_list_def hashed_def)
    have "set ?l \<subseteq> set (hashed p)" using l(1) by auto
    from free_all_fold [OF this l(2) assms(1,2), of ap] obtain q where q: "rtw_free_all_stainfo own ap p = q" "sta_inv own q" "sta_uniq q"
        "set (hashed q) = set (hashed p) - set ?l" "\<forall>j. j \<notin> set ?l \<longrightarrow> stainfo_buf q ! j = stainfo_buf p ! j"
      using False by (auto simp: rtw_free_all_stainfo_def Let_def)
    then show ?thesis using l(1) b by auto
  qed
qed

text \<open>\<open>rtw_free_all_stainfo\<close> releases every station but the one for broadcast, which keeps its
  structure, and leaves the table in order.\<close>

lemma free_all_stainfo_leaves_bcmc:
  assumes "sta_inv own p" and "sta_uniq p" and "rtw_get_bcmc_stainfo p = Some b"
  shows "sta_inv own (rtw_free_all_stainfo own ap p) \<and> rtw_get_bcmc_stainfo (rtw_free_all_stainfo own ap p) = Some b \<and>
    (\<forall>a. tab_addr a \<and> a \<noteq> bc_addr \<longrightarrow> rtw_get_stainfo (rtw_free_all_stainfo own ap p) (Some a) = None)"
proof -
  let ?q = "rtw_free_all_stainfo own ap p"
  note H = free_all_stainfo_hashed [OF assms, of ap]
  then have ch: "chains_ok ?q" and u: "sta_uniq ?q" by (simp_all add: sta_inv_def)
  have "tab_addr bc_addr" by (simp add: tab_addr_def bc_addr_def)
  from get_stainfo_iff [OF ch u this, of b] show ?thesis
    using get_stainfo_None [OF ch u] H by (auto simp: rtw_get_bcmc_stainfo_def)
qed

section \<open>Shortcomings\<close>

text \<open>The lock is released twice when no structure is free.\<close>

lemma alloc_stainfo_unlocks_twice:
  "free_sta_queue p = [] \<Longrightarrow> fst (rtw_alloc_stainfo own a p) = None \<and> sta_hash_lock (snd (rtw_alloc_stainfo own a p)) = sta_hash_lock p - 1"
  by (simp add: rtw_alloc_stainfo_def Let_def)

text \<open>The fragments that wait in the defragmentation queue of a station are lost when it is
  released: only the frames of the reorder queues go back to the free queue, and the next use of the
  structure clears the queue.\<close>

lemma free_stainfo_loses_fragments:
  assumes "k < length (stainfo_buf p)" and "free_sta_queue p = []" and "length a = 6" and "rtw_free_stainfo own ap (Some k) p = (p', x, r)"
  shows "r = concat (map pending (recvreorder_ctrl (stainfo_buf p ! k))) \<and>
    (\<exists>p''. rtw_alloc_stainfo own a p' = (Some k, p'') \<and> defrag_q (stainfo_buf p'' ! k) = [])"
proof -
  obtain mid m c where m: "rtw_release_macid own (mac_addr (stainfo_buf p ! k)) (mac_id (stainfo_buf p ! k)) (sp_macid p) (sp_cam p) = (mid, m, c)"
    by (cases "rtw_release_macid own (mac_addr (stainfo_buf p ! k)) (mac_id (stainfo_buf p ! k)) (sp_macid p) (sp_cam p)")
  note S = free_stainfo_sel [OF assms(4) m]
  have f: "free_sta_queue p' = k # []" using S(4) assms(2) by simp
  obtain mid' m' c' where "rtw_alloc_macid own k a (sp_macid p') (sp_cam p') = (mid', m', c')"
    by (cases "rtw_alloc_macid own k a (sp_macid p') (sp_cam p')")
  note A = alloc_stainfo_eq [OF f assms(3) this]
  have "length (stainfo_buf p') = length (stainfo_buf p)" using S(6) by auto
  then have "defrag_q (stainfo_buf (snd (rtw_alloc_stainfo own a p')) ! k) = []"
    using assms(1) by (simp add: A fresh_stainfo_def init_stainfo_def)
  moreover have "r = concat (map pending (recvreorder_ctrl (stainfo_buf p ! k)))"
    using assms(4) by (simp add: rtw_free_stainfo_def Let_def m)
  ultimately show ?thesis using A by simp
qed

section \<open>Examples\<close>

definition demo_a :: bytes where
  "demo_a = [2, 0, 0, 0, 0, 1]"

definition demo_b :: bytes where
  "demo_b = [2, 0, 0, 0, 0, 2]"

definition demo_own :: bytes where
  "demo_own = [2, 0, 0, 0, 0, 9]"

definition demo_cam :: cam_ctl where
  "demo_cam = \<lparr>cam_sec_cap = 0, cam_flags = 0, cam_num = 32, cam_used = 0\<rparr>"

definition demo_ops :: "bytes table_op list" where
  "demo_ops = [Join bc_addr, Join demo_a, Leave demo_a, Join demo_b, Join demo_a]"

lemma demo_ops_ok:
  "\<forall>e \<in> set demo_ops. tab_addr (op_addr e)" "room 32 demo_ops {}" "tab_addr demo_a" "tab_addr demo_b" "tab_addr bc_addr"
  "present demo_ops {} = {bc_addr, demo_b, demo_a}"
  by (auto simp: demo_ops_def tab_addr_def IS_MCAST_def bc_addr_def demo_a_def demo_b_def card_insert_if)

theorem sta_table_holds_present_witness:
  "rtw_get_stainfo (sta_run demo_own False demo_cam demo_ops) (Some demo_a) \<noteq> None"
  by (subst sta_table_holds_present [OF demo_ops_ok(1,2,3)]) (simp add: demo_ops_ok)

lemma free_all_stainfo_leaves_bcmc_witness:
  "rtw_get_stainfo (rtw_free_all_stainfo demo_own False (sta_run demo_own False demo_cam demo_ops)) (Some demo_a) = None"
proof -
  let ?p = "sta_run demo_own False demo_cam demo_ops"
  note i = sta_run_inv [OF demo_ops_ok(1,2), of demo_own False demo_cam]
  have "get_sta ?p bc_addr \<noteq> None" using i(3) demo_ops_ok(6) by auto
  then obtain b where b: "rtw_get_bcmc_stainfo ?p = Some b" by (auto simp: rtw_get_bcmc_stainfo_def get_sta_def)
  have "demo_a \<noteq> bc_addr" by (simp add: demo_a_def bc_addr_def)
  then show ?thesis using free_all_stainfo_leaves_bcmc [OF i(1,2) b, of False] demo_ops_ok(3) by blast
qed

lemma free_stainfo_loses_fragments_witness:
  "\<exists>p' x p''. rtw_free_stainfo demo_own False (Some 0) ((init_sta_priv init_macid_ctl demo_cam)\<lparr>free_sta_queue := []\<rparr>) = (p', x, []) \<and>
    rtw_alloc_stainfo demo_own demo_a p' = (Some 0, p'') \<and> defrag_q (stainfo_buf p'' ! 0) = []"
proof -
  let ?p = "(init_sta_priv init_macid_ctl demo_cam)\<lparr>free_sta_queue := []\<rparr>"
  obtain p' x r where r: "rtw_free_stainfo demo_own False (Some 0) ?p = (p', x, r)"
    by (cases "rtw_free_stainfo demo_own False (Some 0) ?p")
  have "0 < length (stainfo_buf ?p)" "free_sta_queue ?p = []" "length demo_a = 6"
    by (simp_all add: init_sta_priv_def NUM_STA_def MACID_NUM_SW_LIMIT_def demo_a_def)
  from free_stainfo_loses_fragments [OF this r]
  show ?thesis using r by (auto simp: init_sta_priv_def NUM_STA_def MACID_NUM_SW_LIMIT_def init_stainfo_def)
qed

lemma demo_run:
  "rtw_get_stainfo (sta_run demo_own False demo_cam demo_ops) (Some demo_a) = Some 3"
  "rtw_get_stainfo (sta_run demo_own False demo_cam demo_ops) (Some demo_b) = Some 2"
  "mac_id (stainfo_buf (sta_run demo_own False demo_cam demo_ops) ! 3) < mc_num (sp_macid (sta_run demo_own False demo_cam demo_ops))"
  by code_simp+

theorem sta_macids_exclusive_witness:
  "mac_id (stainfo_buf (sta_run demo_own False demo_cam demo_ops) ! 3) \<noteq> mac_id (stainfo_buf (sta_run demo_own False demo_cam demo_ops) ! 2)"
proof -
  have "demo_a \<noteq> demo_b" by (simp add: demo_a_def demo_b_def)
  then show ?thesis
    using sta_macids_exclusive [OF demo_ops_ok(1,2) refl demo_run(1,2) demo_ops_ok(3,4) demo_run(3)] by blast
qed

end
