(* ===== verification/Elements.thy ===== *)
theory Elements
  imports Frames
begin

unbundle bit_operations_syntax

text \<open>
  Information elements (\<open>core/rtw_ieee80211.c\<close>): writing them (\<open>rtw_set_ie\<close> and its
  wrappers, \<open>rtw_generate_ie\<close>), looking one up (\<open>rtw_get_ie\<close>, \<open>rtw_get_ie_ex\<close>), removing
  the matching ones in place (\<open>rtw_ies_remove_ie\<close>) and parsing a whole list
  (\<open>rtw_ieee802_11_parse_elems\<close>).

  Received elements are not trusted, so every read and write goes through \<open>rd\<close>,
  \<open>rd_block\<close> and \<open>wr_block\<close>: the operations return \<open>None\<close> as soon as the code would touch
  memory outside the array. A pointer into an array is an offset, a null pointer is \<open>None\<close>
  of an option, and lengths keep the width of the C type where they can wrap. A counter
  that only walks an array is a natural number: it is below the length of the array plus
  257, and arrays are shorter than \<open>2 ^ 31\<close> bytes.

  The contract of a walk over records of a type-length-value format is the locale
  \<open>tlv_walk\<close>; each of the loops here, and those over the attributes of the vendor elements
  in \<open>Attrs\<close>, is an interpretation of it.
\<close>

declare Option.bind_cong [fundef_cong]

lemma unat_of_nat_len: "n < 2 ^ LENGTH('a) \<Longrightarrow> unat (of_nat n :: 'a::len word) = n"
  by (simp add: unat_of_nat)

lemma seg_app_split:
  assumes "seg buf off (length (xs @ ys)) = xs @ ys"
  shows "seg buf off (length xs) = xs" "seg buf (off + length xs) (length ys) = ys"
proof -
  have "take (length xs) (seg buf off (length (xs @ ys))) = xs" "drop (length xs) (seg buf off (length (xs @ ys))) = ys"
    using assms by simp_all
  then show "seg buf off (length xs) = xs" "seg buf (off + length xs) (length ys) = ys"
    by (simp_all add: take_seg drop_seg)
qed

section \<open>Writing within bounds\<close>

definition wr_block :: "'a list \<Rightarrow> nat \<Rightarrow> 'a list \<Rightarrow> 'a list option" where
  "wr_block buf i src = (if i + length src \<le> length buf then Some (store buf i src) else None)"

lemma wr_block_in [simp]: "i + length src \<le> length buf \<Longrightarrow> wr_block buf i src = Some (store buf i src)"
  by (simp add: wr_block_def)

section \<open>Walks over type-length-value records\<close>

text \<open>The first record that matches, with its offset.\<close>

fun locate :: "('e \<Rightarrow> bytes) \<Rightarrow> ('e \<Rightarrow> bool) \<Rightarrow> nat \<Rightarrow> 'e list \<Rightarrow> (nat \<times> 'e) option" where
  "locate enc hit off [] = None"
| "locate enc hit off (e # es) =
     (if hit e then Some (off, e) else locate enc hit (off + length (enc e)) es)"

lemma locate_None: "locate enc hit off es = None \<longleftrightarrow> (\<forall>e\<in>set es. \<not> hit e)"
  by (induction es arbitrary: off) auto

lemma locate_append:
  "\<forall>u\<in>set us. \<not> hit u \<Longrightarrow>
   locate enc hit off (us @ vs) = locate enc hit (off + length (concat (map enc us))) vs"
  by (induction us arbitrary: off) (simp_all add: add.assoc)

lemma locate_SomeD:
  "locate enc hit off es = Some (k, e) \<Longrightarrow>
   \<exists>us vs. es = us @ e # vs \<and> (\<forall>u\<in>set us. \<not> hit u) \<and> hit e \<and> k = off + length (concat (map enc us))"
proof (induction es arbitrary: off)
  case (Cons a es)
  show ?case
  proof (cases "hit a")
    case True
    with Cons.prems show ?thesis by (intro exI [of _ "[]"] exI [of _ es]) simp
  next
    case False
    with Cons.prems have "locate enc hit (off + length (enc a)) es = Some (k, e)" by simp
    from Cons.IH [OF this] obtain us vs where "es = us @ e # vs" "\<forall>u\<in>set us. \<not> hit u" "hit e"
      "k = off + length (enc a) + length (concat (map enc us))" by blast
    with False show ?thesis by (intro exI [of _ "a # us"] exI [of _ vs]) simp
  qed
qed simp

text \<open>The laws of a loop that walks the records between an offset and a limit: at the limit it
  answers \<open>miss\<close>, in front of a record it stops or goes on behind it. \<open>room\<close> says for
  which offsets and limits the loop is meant.\<close>

locale tlv_walk =
  fixes enc :: "'e \<Rightarrow> bytes" and ok :: "'e \<Rightarrow> bool" and hit :: "'e \<Rightarrow> bool"
    and room :: "nat \<Rightarrow> nat \<Rightarrow> bool"
    and walk :: "bytes \<Rightarrow> nat \<Rightarrow> nat \<Rightarrow> 'r" and found :: "nat \<Rightarrow> 'e \<Rightarrow> 'r" and miss :: 'r
  assumes room_later: "room off lim \<Longrightarrow> off \<le> off' \<Longrightarrow> off' \<le> lim \<Longrightarrow> room off' lim"
    and walk_end: "room lim lim \<Longrightarrow> lim \<le> length buf \<Longrightarrow> walk buf lim lim = miss"
    and walk_hit: "ok e \<Longrightarrow> room off lim \<Longrightarrow> off + length (enc e) \<le> lim \<Longrightarrow> lim \<le> length buf \<Longrightarrow>
      seg buf off (length (enc e)) = enc e \<Longrightarrow> hit e \<Longrightarrow> walk buf off lim = found off e"
    and walk_next: "ok e \<Longrightarrow> room off lim \<Longrightarrow> off + length (enc e) \<le> lim \<Longrightarrow> lim \<le> length buf \<Longrightarrow>
      seg buf off (length (enc e)) = enc e \<Longrightarrow> \<not> hit e \<Longrightarrow>
      walk buf off lim = walk buf (off + length (enc e)) lim"
begin

definition answer :: "(nat \<times> 'e) option \<Rightarrow> 'r" where
  "answer r = (case r of None \<Rightarrow> miss | Some (k, e) \<Rightarrow> found k e)"

lemma walk_locate:
  assumes "list_all ok es" and "seg buf off (length (concat (map enc es))) = concat (map enc es)"
    and "lim = off + length (concat (map enc es))" and "lim \<le> length buf" and "room off lim"
  shows "walk buf off lim = answer (locate enc hit off es)"
  using assms
proof (induction es arbitrary: off)
  case Nil
  then show ?case by (simp add: walk_end answer_def)
next
  case (Cons e es)
  let ?n = "length (enc e)" and ?m = "length (concat (map enc es))"
  have s: "seg buf off (?n + ?m) = enc e @ concat (map enc es)"
    using Cons.prems(2) by simp
  have b: "off + ?n + ?m \<le> length buf" using Cons.prems(3,4) by simp
  have l: "length (seg buf off ?n) = ?n" using b by simp
  have e: "seg buf off ?n = enc e" and r: "seg buf (off + ?n) ?m = concat (map enc es)"
    using s l unfolding seg_append_split by simp_all
  have IH: "walk buf (off + ?n) lim = answer (locate enc hit (off + ?n) es)"
    using Cons.prems r room_later [of off lim "off + ?n"] by (intro Cons.IH) simp_all
  have k: "ok e" "room off lim" "off + ?n \<le> lim" using Cons.prems by simp_all
  show ?case
    using walk_hit [OF k Cons.prems(4) e] walk_next [OF k Cons.prems(4) e] IH
    by (cases "hit e") (simp_all add: answer_def)
qed

end

section \<open>Elements as data\<close>

text \<open>An element is its identifier and its body; on the air the length of the body stands
  between them.\<close>

type_synonym element = "u8 \<times> bytes"

definition elem_bytes :: "element \<Rightarrow> bytes" where
  "elem_bytes e = fst e # of_nat (length (snd e)) # snd e"

definition ie_ok :: "element \<Rightarrow> bool" where
  "ie_ok e = (length (snd e) < 256)"

definition ies_bytes :: "element list \<Rightarrow> bytes" where
  "ies_bytes es = concat (map elem_bytes es)"

lemma length_elem_bytes [simp, len_simps]: "length (elem_bytes e) = length (snd e) + 2"
  by (simp add: elem_bytes_def)

lemma ies_bytes_simps [simp]:
  "ies_bytes [] = []" "ies_bytes (e # es) = elem_bytes e @ ies_bytes es"
  "ies_bytes (es @ fs) = ies_bytes es @ ies_bytes fs"
  by (simp_all add: ies_bytes_def)

lemma unat_ie_len: "ie_ok e \<Longrightarrow> unat (of_nat (length (snd e)) :: u8) = length (snd e)"
  by (simp add: ie_ok_def unat_of_nat)

text \<open>The bytes of an element read one by one.\<close>

lemma seg_nthD: "seg buf off n = xs \<Longrightarrow> off + n \<le> length buf \<Longrightarrow> i < n \<Longrightarrow> buf ! (off + i) = xs ! i"
  by auto

lemma ie_read:
  assumes "ie_ok e" and "off + length (elem_bytes e) \<le> length buf"
    and "seg buf off (length (elem_bytes e)) = elem_bytes e"
  shows "buf ! off = fst e" "unat (buf ! Suc off) = length (snd e)"
    "seg buf (off + 2) (length (snd e)) = snd e"
proof -
  have i: "i < length (snd e) + 2 \<Longrightarrow> buf ! (off + i) = elem_bytes e ! i" for i
    using seg_nthD [OF assms(3), of i] assms(2) by simp
  show "buf ! off = fst e" using i [of 0] by (simp add: elem_bytes_def)
  show "unat (buf ! Suc off) = length (snd e)"
    using i [of 1] unat_ie_len [OF assms(1)] by (simp add: elem_bytes_def)
  have "drop 2 (seg buf off (length (snd e) + 2)) = drop 2 (elem_bytes e)"
    using assms(3) by simp
  then show "seg buf (off + 2) (length (snd e)) = snd e"
    by (simp add: drop_seg) (simp add: elem_bytes_def)
qed

section \<open>Looking an element up\<close>

text \<open>The loop of \<open>rtw_get_ie\<close>: the pointer, the count of bytes passed and the limit. The
  result is the pointer found with the length written to \<open>*len\<close>.\<close>

function rtw_get_ie_loop :: "bytes \<Rightarrow> int \<Rightarrow> nat \<Rightarrow> int \<Rightarrow> int \<Rightarrow> (nat option \<times> int) option" where
  "rtw_get_ie_loop buf index p i limit = do {
     id \<leftarrow> rd buf p;
     l \<leftarrow> rd buf (p + 1);
     if uint id = index then Some (Some p, uint l)
     else let tmp = uint l; p' = p + nat (tmp + 2); i' = i + (tmp + 2) in
       if limit \<le> i' then Some (None, 0) else rtw_get_ie_loop buf index p' i' limit }"
  by pat_completeness auto
termination
  by (relation "measure (\<lambda>(buf, index, p, i, limit). length buf - p)")
    (auto simp: rd_Some_iff intro!: diff_less_mono2 add_nonneg_pos)

declare rtw_get_ie_loop.simps [simp del]

text \<open>\<open>len0\<close> is the value \<open>*len\<close> had before.\<close>

definition rtw_get_ie :: "bytes \<Rightarrow> nat \<Rightarrow> int \<Rightarrow> int \<Rightarrow> int \<Rightarrow> (nat option \<times> int) option" where
  "rtw_get_ie buf pbuf index len0 limit =
     (if limit < 1 then Some (None, len0) else rtw_get_ie_loop buf index pbuf 0 limit)"

lemma rtw_get_ie_loop_shift:
  "rtw_get_ie_loop buf index p (i + k) (limit + k) = rtw_get_ie_loop buf index p i limit"
proof (induction buf index p i limit rule: rtw_get_ie_loop.induct)
  case (1 buf index p i limit)
  show ?case
    apply (subst (1 2) rtw_get_ie_loop.simps)
    apply (intro Option.bind_cong refl)
    apply (simp add: Let_def add.commute add.left_commute)
    apply (use 1 in \<open>simp add: algebra_simps\<close>)
    done
qed

definition get_ie_walk :: "int \<Rightarrow> bytes \<Rightarrow> nat \<Rightarrow> nat \<Rightarrow> (nat option \<times> int) option" where
  "get_ie_walk index buf off lim =
     (if lim \<le> off then Some (None, 0) else rtw_get_ie_loop buf index off 0 (int lim - int off))"

interpretation get_ie: tlv_walk elem_bytes ie_ok "\<lambda>e. uint (fst e) = index" "\<lambda>_ _. True" "get_ie_walk index"
    "\<lambda>k e. Some (Some k, int (length (snd e)))" "Some (None, 0)" for index
proof
  fix e :: element and off lim :: nat and buf :: bytes
  assume ok: "ie_ok e" and le: "off + length (elem_bytes e) \<le> lim" and lim: "lim \<le> length buf"
    and eq: "seg buf off (length (elem_bytes e)) = elem_bytes e"
  have b: "off + length (elem_bytes e) \<le> length buf" using le lim by simp
  note r = ie_read [OF ok b eq]
  have in1: "off < length buf" "Suc off < length buf" "off < lim" using b le by simp_all
  have l: "uint (buf ! Suc off) = int (length (snd e))" using r(2) by (metis uint_nat)
  show "get_ie_walk index buf off lim = Some (Some off, int (length (snd e)))" if "uint (fst e) = index"
    using that r in1 l by (subst get_ie_walk_def, subst rtw_get_ie_loop.simps) simp
  show "get_ie_walk index buf off lim = get_ie_walk index buf (off + length (elem_bytes e)) lim"
    if "uint (fst e) \<noteq> index"
  proof -
    let ?n = "length (snd e) + 2"
    have "rtw_get_ie_loop buf index off 0 (int lim - int off) =
      (if lim \<le> off + ?n then Some (None, 0)
       else rtw_get_ie_loop buf index (off + ?n) (int ?n) (int lim - int off))"
      using that r in1 l by (subst rtw_get_ie_loop.simps) (auto simp: nat_add_distrib add.commute [of 2])
    moreover have "rtw_get_ie_loop buf index (off + ?n) (int ?n) (int lim - int off) =
        rtw_get_ie_loop buf index (off + ?n) 0 (int lim - int (off + ?n))"
      using rtw_get_ie_loop_shift [of buf index "off + ?n" 0 "int ?n" "int lim - int (off + ?n)"]
      by (simp add: algebra_simps)
    ultimately show ?thesis using in1 by (simp add: get_ie_walk_def)
  qed
qed (simp_all add: get_ie_walk_def)

text \<open>On a list of elements the lookup answers the first one with the identifier; over
  arbitrary bytes it stays within the array when one byte more than the limit can be read.\<close>

lemma rtw_get_ie_locate:
  assumes "list_all ie_ok es" and "seg buf p (length (ies_bytes es)) = ies_bytes es"
    and "p + length (ies_bytes es) \<le> length buf" and "es \<noteq> []"
  shows "rtw_get_ie buf p index len0 (int (length (ies_bytes es))) =
    (case locate elem_bytes (\<lambda>e. uint (fst e) = index) p es of
       None \<Rightarrow> Some (None, 0) | Some (k, e) \<Rightarrow> Some (Some k, int (length (snd e))))"
proof -
  have "0 < length (ies_bytes es)" using assms(4) by (cases es) auto
  then have "rtw_get_ie buf p index len0 (int (length (ies_bytes es))) =
      get_ie_walk index buf p (p + length (ies_bytes es))"
    by (simp add: rtw_get_ie_def get_ie_walk_def)
  also have "\<dots> = get_ie.answer (locate elem_bytes (\<lambda>e. uint (fst e) = index) p es)"
    using assms by (intro get_ie.walk_locate) (simp_all add: ies_bytes_def)
  finally show ?thesis by (simp add: get_ie.answer_def)
qed

lemma rtw_get_ie_loop_safe:
  "i < limit \<Longrightarrow> int p + (limit - i) < int (length buf) \<Longrightarrow> rtw_get_ie_loop buf index p i limit \<noteq> None"
proof (induction buf index p i limit rule: rtw_get_ie_loop.induct)
  case (1 buf index p i limit)
  have in1: "p < length buf" "Suc p < length buf" using "1.prems" by linarith+
  have "0 \<le> uint (buf ! Suc p)" by simp
  then show ?case
    using 1 in1 by (subst rtw_get_ie_loop.simps) (auto simp: Let_def)
qed

lemma rtw_get_ie_safe:
  "int p + limit < int (length buf) \<Longrightarrow> rtw_get_ie buf p index len0 limit \<noteq> None"
  using rtw_get_ie_loop_safe [of 0 limit p buf index] by (simp add: rtw_get_ie_def)

lemma rtw_get_ie_reads_past_limit: "rtw_get_ie [7] 0 5 0 1 = None"
  by (simp add: rtw_get_ie_def rtw_get_ie_loop.simps rd_def)

text \<open>\<open>rtw_get_ie_ex\<close> also compares the first bytes of the body. Null pointers for \<open>oui\<close>
  and \<open>ie\<close> are \<open>None\<close>; the result holds the pointer found, the copy in \<open>ie\<close> and the value
  for \<open>*ielen\<close>.\<close>

definition oui_match :: "bytes \<Rightarrow> nat \<Rightarrow> bytes option \<Rightarrow> u8 \<Rightarrow> bool option" where
  "oui_match buf p oui oui_len = (case oui of None \<Rightarrow> Some True
     | Some o' \<Rightarrow> do { a \<leftarrow> rd_block buf p (unat oui_len); b \<leftarrow> rd_block o' 0 (unat oui_len); Some (a = b) })"

definition copy_out :: "bytes option \<Rightarrow> bytes \<Rightarrow> nat \<Rightarrow> nat \<Rightarrow> bytes option option" where
  "copy_out out buf p n = (case out of None \<Rightarrow> Some None
     | Some b \<Rightarrow> do { d \<leftarrow> rd_block buf p n; b' \<leftarrow> wr_block b 0 d; Some (Some b') })"

function rtw_get_ie_ex_loop :: "bytes \<Rightarrow> nat \<Rightarrow> nat \<Rightarrow> u8 \<Rightarrow> bytes option \<Rightarrow> u8 \<Rightarrow> bytes option \<Rightarrow> nat
    \<Rightarrow> (nat option \<times> bytes option \<times> u32) option" where
  "rtw_get_ie_ex_loop buf in_ie in_len eid oui oui_len ie cnt =
     (if in_len \<le> cnt then Some (None, ie, 0)
      else do {
        id \<leftarrow> rd buf (in_ie + cnt);
        m \<leftarrow> (if eid = id then oui_match buf (in_ie + cnt + 2) oui oui_len else Some False);
        l \<leftarrow> rd buf (in_ie + cnt + 1);
        if m then do {
          ie' \<leftarrow> copy_out ie buf (in_ie + cnt) (unat l + 2);
          Some (Some (in_ie + cnt), ie', ucast l + 2) }
        else rtw_get_ie_ex_loop buf in_ie in_len eid oui oui_len ie (cnt + unat l + 2) })"
  by pat_completeness auto
termination
  by (relation "measure (\<lambda>(buf, in_ie, in_len, eid, oui, oui_len, ie, cnt). in_len - cnt)") auto

declare rtw_get_ie_ex_loop.simps [simp del]

definition rtw_get_ie_ex :: "bytes \<Rightarrow> nat option \<Rightarrow> u32 \<Rightarrow> u8 \<Rightarrow> bytes option \<Rightarrow> u8 \<Rightarrow> bytes option
    \<Rightarrow> (nat option \<times> bytes option \<times> u32) option" where
  "rtw_get_ie_ex buf in_ie in_len eid oui oui_len ie = (case in_ie of
     None \<Rightarrow> Some (None, ie, 0)
   | Some p \<Rightarrow> if in_len \<le> 0 then Some (None, ie, 0)
       else rtw_get_ie_ex_loop buf p (unat in_len) eid oui oui_len ie 0)"

definition ex_hit :: "u8 \<Rightarrow> bytes option \<Rightarrow> u8 \<Rightarrow> element \<Rightarrow> bool" where
  "ex_hit eid oui oui_len e = (fst e = eid \<and>
     (case oui of None \<Rightarrow> True | Some o' \<Rightarrow> take (unat oui_len) (snd e) = take (unat oui_len) o'))"

text \<open>The comparison with the OUI stays inside an element whose body is not shorter than it.\<close>

definition ex_ok :: "u8 \<Rightarrow> bytes option \<Rightarrow> u8 \<Rightarrow> bytes option \<Rightarrow> element \<Rightarrow> bool" where
  "ex_ok eid oui oui_len ie e = (ie_ok e \<and>
     (case oui of None \<Rightarrow> True
      | Some o' \<Rightarrow> unat oui_len \<le> length o' \<and> (fst e = eid \<longrightarrow> unat oui_len \<le> length (snd e))) \<and>
     (case ie of None \<Rightarrow> True | Some b \<Rightarrow> length (elem_bytes e) \<le> length b))"

lemma rtw_get_ie_ex_loop_shift:
  "rtw_get_ie_ex_loop buf in_ie in_len eid oui oui_len ie cnt =
   rtw_get_ie_ex_loop buf 0 (in_ie + in_len) eid oui oui_len ie (in_ie + cnt)"
proof (induction buf in_ie in_len eid oui oui_len ie cnt rule: rtw_get_ie_ex_loop.induct)
  case (1 buf in_ie in_len eid oui oui_len ie cnt)
  show ?case
    apply (rule trans [OF rtw_get_ie_ex_loop.simps])
    apply (rule trans [OF _ rtw_get_ie_ex_loop.simps [symmetric]])
    unfolding add_0 add.assoc nat_add_left_cancel_le
    by (intro if_cong Option.bind_cong refl, rule 1 [unfolded add.assoc]) assumption+
qed

lemma rtw_get_ie_ex_step:
  assumes "cnt < in_len" and "Suc cnt < length buf" and "unat (buf ! Suc cnt) = n"
    and "(if eid = buf ! cnt then oui_match buf (cnt + 2) oui oui_len else Some False) = Some m"
    and "m \<Longrightarrow> copy_out ie buf cnt (n + 2) = Some ie'"
  shows "rtw_get_ie_ex_loop buf 0 in_len eid oui oui_len ie cnt =
    (if m then Some (Some cnt, ie', of_nat (n + 2))
     else rtw_get_ie_ex_loop buf 0 in_len eid oui oui_len ie (cnt + (n + 2)))"
proof -
  have r: "rd buf cnt = Some (buf ! cnt)" "rd buf (cnt + 1) = Some (buf ! Suc cnt)"
    "\<not> in_len \<le> cnt"
    using assms(1,2) by simp_all
  have "(ucast (buf ! Suc cnt) :: u32) = of_nat n"
    using assms(3) by (metis of_nat_unat)
  then have w: "ucast (buf ! Suc cnt) + 2 = (of_nat (n + 2) :: u32)" by simp
  show ?thesis
    by (subst rtw_get_ie_ex_loop.simps)
      (use assms(3,5) in \<open>simp only: add_0 r assms(4) Option.bind.bind_lunit if_False w add.assoc split: if_split\<close>, simp)
qed

lemma oui_match_body:
  assumes "ex_ok eid oui oui_len ie e" and "off + length (elem_bytes e) \<le> length buf"
    and "seg buf off (length (elem_bytes e)) = elem_bytes e" and "fst e = eid"
  shows "oui_match buf (off + 2) oui oui_len = Some (ex_hit eid oui oui_len e)"
proof (cases oui)
  case (Some o')
  have n: "unat oui_len \<le> length (snd e)" and o: "unat oui_len \<le> length o'" and k: "ie_ok e"
    using assms(1,4) Some by (simp_all add: ex_ok_def)
  have "take (unat oui_len) (seg buf (off + 2) (length (snd e))) = take (unat oui_len) (snd e)"
    using ie_read(3) [OF k assms(2,3)] by simp
  then have "seg buf (off + 2) (unat oui_len) = take (unat oui_len) (snd e)"
    using n by (simp add: take_seg)
  then show ?thesis
    using Some n o assms(2,4) by (simp add: oui_match_def ex_hit_def) (simp add: seg_def)
qed (simp add: oui_match_def ex_hit_def assms(4))

interpretation get_ie_ex: tlv_walk elem_bytes "ex_ok eid oui oui_len ie" "ex_hit eid oui oui_len" "\<lambda>_ _. True"
    "\<lambda>buf off lim. rtw_get_ie_ex_loop buf 0 lim eid oui oui_len ie off"
    "\<lambda>k e. Some (Some k, map_option (\<lambda>b. store b 0 (elem_bytes e)) ie, of_nat (length (elem_bytes e)))"
    "Some (None, ie, 0)" for eid oui oui_len ie
proof
  fix e :: element and off lim :: nat and buf :: bytes
  assume ok: "ex_ok eid oui oui_len ie e" and le: "off + length (elem_bytes e) \<le> lim"
    and lim: "lim \<le> length buf" and eq: "seg buf off (length (elem_bytes e)) = elem_bytes e"
  have b: "off + length (elem_bytes e) \<le> length buf" using le lim by simp
  have k: "ie_ok e" using ok by (simp add: ex_ok_def)
  note r = ie_read [OF k b eq]
  have in1: "off < length buf" "Suc off < length buf" "off < lim" using b le by simp_all
  have m: "(if eid = buf ! off then oui_match buf (off + 2) oui oui_len else Some False) =
      Some (ex_hit eid oui oui_len e)"
    using oui_match_body [OF ok b eq] r(1) by (auto simp: ex_hit_def)
  have c: "copy_out ie buf off (length (snd e) + 2) = Some (map_option (\<lambda>b. store b 0 (elem_bytes e)) ie)"
    using ok b eq by (cases ie) (simp_all add: copy_out_def ex_ok_def)
  have step: "rtw_get_ie_ex_loop buf 0 lim eid oui oui_len ie off =
    (if ex_hit eid oui oui_len e
     then Some (Some off, map_option (\<lambda>b. store b 0 (elem_bytes e)) ie, of_nat (length (elem_bytes e)))
     else rtw_get_ie_ex_loop buf 0 lim eid oui oui_len ie (off + length (elem_bytes e)))"
    unfolding length_elem_bytes by (rule rtw_get_ie_ex_step [OF in1(3,2) r(2) m c])
  show "rtw_get_ie_ex_loop buf 0 lim eid oui oui_len ie off =
      Some (Some off, map_option (\<lambda>b. store b 0 (elem_bytes e)) ie, of_nat (length (elem_bytes e)))"
    if "ex_hit eid oui oui_len e"
    using that step by (simp only: if_True)
  show "rtw_get_ie_ex_loop buf 0 lim eid oui oui_len ie off =
      rtw_get_ie_ex_loop buf 0 lim eid oui oui_len ie (off + length (elem_bytes e))"
    if "\<not> ex_hit eid oui oui_len e"
    using that step by (simp only: if_False)
qed (simp_all add: rtw_get_ie_ex_loop.simps)

lemma rtw_get_ie_ex_locate:
  assumes "list_all (ex_ok eid oui oui_len ie) es" and "seg buf p (length (ies_bytes es)) = ies_bytes es"
    and "p + length (ies_bytes es) \<le> length buf" and "length (ies_bytes es) = unat in_len"
  shows "rtw_get_ie_ex buf (Some p) in_len eid oui oui_len ie =
    (case locate elem_bytes (ex_hit eid oui oui_len) p es of
       None \<Rightarrow> Some (None, ie, 0)
     | Some (k, e) \<Rightarrow> Some (Some k, map_option (\<lambda>b. store b 0 (elem_bytes e)) ie, of_nat (length (elem_bytes e))))"
proof (cases "es = []")
  case True
  then have "in_len = 0" using assms(4) by (simp add: unsigned_eq_0_iff)
  with True show ?thesis by (simp add: rtw_get_ie_ex_def)
next
  case False
  then have "\<not> in_len \<le> 0" using assms(4) by (cases es) auto
  then have "rtw_get_ie_ex buf (Some p) in_len eid oui oui_len ie =
      rtw_get_ie_ex_loop buf 0 (p + length (ies_bytes es)) eid oui oui_len ie p"
    using rtw_get_ie_ex_loop_shift [of buf p "unat in_len" eid oui oui_len ie 0] assms(4)
    by (simp add: rtw_get_ie_ex_def)
  also have "\<dots> = get_ie_ex.answer ie (locate elem_bytes (ex_hit eid oui oui_len) p es)"
    using assms by (intro get_ie_ex.walk_locate) (simp_all add: ies_bytes_def)
  finally show ?thesis by (simp only: get_ie_ex.answer_def)
qed

section \<open>Removing elements\<close>

text \<open>The loop of \<open>rtw_ies_remove_ie\<close>: every element found is overwritten with what follows
  it. \<open>remain_len\<close> wraps when an element reaches beyond the searched bytes; the move then
  leaves the array.\<close>

partial_function (option) remove_ie_loop :: "u8 \<Rightarrow> bytes option \<Rightarrow> u8 \<Rightarrow> bytes \<Rightarrow> nat \<Rightarrow> u32 \<Rightarrow> u32 \<Rightarrow> result
    \<Rightarrow> (result \<times> bytes \<times> u32) option" where
  "remove_ie_loop eid oui oui_len buf start search_len ies_len ret = do {
     r \<leftarrow> rtw_get_ie_ex buf (Some start) search_len eid oui oui_len None;
     (case r of (target_ie, _, target_ielen) \<Rightarrow>
       case target_ie of None \<Rightarrow> Some (ret, buf, ies_len)
       | Some target \<Rightarrow>
         if target_ielen = 0 then Some (ret, buf, ies_len)
         else do {
           let remain_ies = target + unat target_ielen;
           let remain_len = search_len - of_nat (remain_ies - start);
           d \<leftarrow> rd_block buf remain_ies (unat remain_len);
           buf' \<leftarrow> wr_block buf target d;
           remove_ie_loop eid oui oui_len buf' target remain_len (ies_len - target_ielen) Success }) }"

definition rtw_ies_remove_ie :: "bytes \<Rightarrow> nat option \<Rightarrow> u32 option \<Rightarrow> u32 \<Rightarrow> u8 \<Rightarrow> bytes option \<Rightarrow> u8
    \<Rightarrow> (result \<times> bytes \<times> u32 option) option" where
  "rtw_ies_remove_ie buf ies ies_len offset eid oui oui_len = (case (ies, ies_len) of
     (Some p, Some n) \<Rightarrow>
       if n \<le> offset then Some (Fail, buf, ies_len)
       else map_option (\<lambda>(ret, b, l). (ret, b, Some l))
         (remove_ie_loop eid oui oui_len buf (p + unat offset) (n - offset) n Fail)
   | _ \<Rightarrow> Some (Fail, buf, ies_len))"

lemma length_ies_filter: "length (ies_bytes (filter P es)) \<le> length (ies_bytes es)"
  by (induction es) auto

lemma remove_ie_loop_filter:
  assumes "list_all (ex_ok eid oui oui_len None) es" and "seg buf start (length (ies_bytes es)) = ies_bytes es"
    and "start + length (ies_bytes es) \<le> length buf" and "unat search_len = length (ies_bytes es)"
  shows "\<exists>buf'. remove_ie_loop eid oui oui_len buf start search_len ies_len ret =
      Some (if \<exists>e\<in>set es. ex_hit eid oui oui_len e then Success else ret, buf',
        ies_len - of_nat (length (ies_bytes es) - length (ies_bytes (filter (\<lambda>e. \<not> ex_hit eid oui oui_len e) es)))) \<and>
    length buf' = length buf \<and> take start buf' = take start buf \<and>
    seg buf' start (length (ies_bytes (filter (\<lambda>e. \<not> ex_hit eid oui oui_len e) es))) =
      ies_bytes (filter (\<lambda>e. \<not> ex_hit eid oui oui_len e) es) \<and>
    drop (start + length (ies_bytes es)) buf' = drop (start + length (ies_bytes es)) buf"
  using assms
proof (induction es arbitrary: buf start search_len ies_len ret rule: length_induct)
  case (1 es)
  let ?hit = "ex_hit eid oui oui_len"
  let ?get = "rtw_get_ie_ex buf (Some start) search_len eid oui oui_len None"
  have get: "?get = (case locate elem_bytes ?hit start es of None \<Rightarrow> Some (None, None, 0)
     | Some (k, e) \<Rightarrow> Some (Some k, None, of_nat (length (elem_bytes e))))"
    using rtw_get_ie_ex_locate [OF "1.prems"(1,2,3) "1.prems"(4) [symmetric]] by (simp only: option.map)
  show ?case
  proof (cases "locate elem_bytes ?hit start es")
    case None
    then have no: "\<forall>e\<in>set es. \<not> ?hit e" by (simp only: locate_None)
    then have f: "filter (\<lambda>e. \<not> ?hit e) es = es" by simp
    have "remove_ie_loop eid oui oui_len buf start search_len ies_len ret = Some (ret, buf, ies_len)"
      using get None by (subst remove_ie_loop.simps) simp
    then show ?thesis using no "1.prems"(2) unfolding f by (intro exI [of _ buf]) auto
  next
    case (Some x)
    obtain k e where x: "x = (k, e)" by (cases x)
    obtain us vs where es: "es = us @ e # vs" and us: "\<forall>u\<in>set us. \<not> ?hit u" and e: "?hit e"
      and k: "k = start + length (ies_bytes us)"
      using locate_SomeD [OF Some [unfolded x]] unfolding ies_bytes_def by blast
    let ?fs = "filter (\<lambda>e. \<not> ?hit e) vs"
    let ?n = "length (elem_bytes e)" and ?m = "length (ies_bytes vs)"
    have fes: "filter (\<lambda>e. \<not> ?hit e) es = us @ ?fs" using us e by (simp add: es filter_id_conv)
    have len: "length (ies_bytes es) = length (ies_bytes us) + (?n + ?m)" by (simp add: es)
    have "ie_ok e" using "1.prems"(1) by (simp add: es ex_ok_def)
    then have n: "?n \<le> 257" by (simp add: ie_ok_def)
    then have un: "unat (of_nat ?n :: u32) = ?n" by (intro unat_of_nat_len) simp
    have n0: "(of_nat ?n :: u32) \<noteq> 0"
    proof
      assume "(of_nat ?n :: u32) = 0"
      then have "?n = 0" using un by simp
      then show False by simp
    qed
    have b: "k + ?n + ?m \<le> length buf" using "1.prems"(3) len k by simp
    have b': "k + length (ies_bytes vs) \<le> length buf" using b by simp
    have sl: "search_len = of_nat (length (ies_bytes us) + ?n) + of_nat ?m"
      using "1.prems"(4) len by (metis add.assoc of_nat_add of_nat_unat ucast_id)
    have "k + ?n - start = length (ies_bytes us) + ?n" using k by simp
    then have rl: "search_len - of_nat (k + ?n - start) = of_nat ?m" using sl by simp
    have "?m < 2 ^ 32"
      using "1.prems"(4) len unsigned_less [where 'a = nat, of search_len] by simp
    then have um: "unat (of_nat ?m :: u32) = ?m" by (intro unat_of_nat_len) simp
    have all: "seg buf start (length (ies_bytes us) + (?n + ?m)) = ies_bytes us @ elem_bytes e @ ies_bytes vs"
      using "1.prems"(2) by (simp add: es)
    have lu: "length (seg buf start (length (ies_bytes us))) = length (ies_bytes us)"
      "length (seg buf k ?n) = ?n" using b k by simp_all
    have su: "seg buf start (length (ies_bytes us)) = ies_bytes us"
      and sv: "seg buf (k + ?n) ?m = ies_bytes vs"
      using all lu unfolding seg_append_split k [symmetric] by simp_all
    let ?buf = "store buf k (ies_bytes vs)"
    have "remove_ie_loop eid oui oui_len buf start search_len ies_len ret =
        remove_ie_loop eid oui oui_len ?buf k (of_nat ?m) (ies_len - of_nat ?n) Success"
      using get Some x n0 b
      by (subst remove_ie_loop.simps) (simp only: option.case prod.case Option.bind.bind_lunit if_False
          Let_def un rl um rd_block_in wr_block_in [OF b'] sv)
    moreover have "\<exists>buf'. remove_ie_loop eid oui oui_len ?buf k (of_nat ?m) (ies_len - of_nat ?n) Success =
      Some (if \<exists>e\<in>set vs. ?hit e then Success else Success, buf',
        ies_len - of_nat ?n - of_nat (?m - length (ies_bytes ?fs))) \<and>
      length buf' = length ?buf \<and> take k buf' = take k ?buf \<and>
      seg buf' k (length (ies_bytes ?fs)) = ies_bytes ?fs \<and> drop (k + ?m) buf' = drop (k + ?m) ?buf"
      using "1.prems"(1) b um
      by (intro "1.IH" [rule_format]) (simp_all add: es)
    ultimately obtain buf' where loop: "remove_ie_loop eid oui oui_len buf start search_len ies_len ret =
        Some (Success, buf', ies_len - of_nat ?n - of_nat (?m - length (ies_bytes ?fs)))"
      and l': "length buf' = length ?buf" and t': "take k buf' = take k ?buf"
      and s': "seg buf' k (length (ies_bytes ?fs)) = ies_bytes ?fs"
      and d': "drop (k + ?m) buf' = drop (k + ?m) ?buf" by auto
    let ?fl = "length (ies_bytes ?fs)"
    have fl: "?fl \<le> ?m" by (rule length_ies_filter)
    have len': "length (ies_bytes es) - length (ies_bytes (us @ ?fs)) = ?n + (?m - ?fl)"
      using len fl by simp
    have mid: "seg zs start (length (ies_bytes us)) = drop start (take k zs)" for zs :: bytes
      unfolding seg_def by (simp add: k drop_take)
    have "take k ?buf = take k buf" using b by (intro take_store_before) simp_all
    then have t: "take k buf' = take k buf" using t' by simp
    have "take start buf' = take start (take k buf')" using k by simp
    also have "\<dots> = take start buf" using t k by simp
    finally have T: "take start buf' = take start buf" .
    have S: "seg buf' start (length (ies_bytes (us @ ?fs))) = ies_bytes (us @ ?fs)"
      using s' su unfolding ies_bytes_simps length_append seg_append_split k [symmetric] mid t by simp
    have "drop (k + ?m + ?n) buf' = drop ?n (drop (k + ?m) buf')" by (simp add: add.commute)
    also have "\<dots> = drop (k + ?m + ?n) ?buf" using d' by (simp add: add.commute)
    also have "\<dots> = drop (k + ?m + ?n) buf" using b by (intro drop_store_after) simp_all
    finally have D: "drop (start + length (ies_bytes es)) buf' = drop (start + length (ies_bytes es)) buf"
      using len k by (simp add: add.assoc add.left_commute add.commute)
    have L: "length buf' = length buf" using l' b by simp
    have h: "\<exists>e\<in>set es. ?hit e" using e es by auto
    show ?thesis
      using loop L T S D h len' unfolding fes by (intro exI [of _ buf']) (simp add: diff_diff_eq)
  qed
qed

text \<open>Removal deletes exactly the matching elements: the others keep their order, nothing outside
  the searched bytes changes, and the new length is that of what is left.\<close>

lemma rtw_ies_remove_ie_filter:
  assumes "list_all (ex_ok eid oui oui_len None) es"
    and "seg buf (p + unat offset) (length (ies_bytes es)) = ies_bytes es"
    and "p + unat n \<le> length buf" and "unat n = unat offset + length (ies_bytes es)"
  shows "\<exists>buf'. rtw_ies_remove_ie buf (Some p) (Some n) offset eid oui oui_len =
      Some (if \<exists>e\<in>set es. ex_hit eid oui oui_len e then Success else Fail, buf',
        Some (offset + of_nat (length (ies_bytes (filter (\<lambda>e. \<not> ex_hit eid oui oui_len e) es))))) \<and>
    length buf' = length buf \<and> take (p + unat offset) buf' = take (p + unat offset) buf \<and>
    seg buf' (p + unat offset) (length (ies_bytes (filter (\<lambda>e. \<not> ex_hit eid oui oui_len e) es))) =
      ies_bytes (filter (\<lambda>e. \<not> ex_hit eid oui oui_len e) es) \<and>
    drop (p + unat n) buf' = drop (p + unat n) buf"
proof (cases "es = []")
  case True
  then have "n = offset" using assms(4) by (simp add: word_unat_eq_iff)
  then show ?thesis using True by (simp add: rtw_ies_remove_ie_def)
next
  case False
  let ?fs = "filter (\<lambda>e. \<not> ex_hit eid oui oui_len e) es"
  have n: "n = offset + of_nat (length (ies_bytes es))"
    using assms(4) by (metis of_nat_add of_nat_unat ucast_id)
  have no: "\<not> n \<le> offset"
    using False assms(4) by (cases es) (simp_all add: word_le_nat_alt)
  have d: "unat (n - offset) = length (ies_bytes es)"
  proof -
    have "length (ies_bytes es) < 2 ^ LENGTH(32)"
      using assms(4) unsigned_less [where 'a = nat, of n] by simp
    then show ?thesis using n by (simp add: unat_of_nat)
  qed
  have e: "n - of_nat (length (ies_bytes es) - length (ies_bytes ?fs)) = offset + of_nat (length (ies_bytes ?fs))"
    using n length_ies_filter [of _ es] by (simp add: of_nat_diff)
  have b: "p + unat offset + length (ies_bytes es) \<le> length buf" using assms(3,4) by simp
  from remove_ie_loop_filter [OF assms(1,2) b d, of n Fail] show ?thesis
    unfolding e using no assms(4) by (auto simp: rtw_ies_remove_ie_def add.assoc)
qed

section \<open>Parsing a list of elements\<close>

text \<open>Every pointer of the structure comes with its length; null pointers are \<open>None\<close>.\<close>

record rtw_ieee802_11_elems =
  el_ssid :: "(nat \<times> u8) option"
  el_supp_rates :: "(nat \<times> u8) option"
  el_fh_params :: "(nat \<times> u8) option"
  el_ds_params :: "(nat \<times> u8) option"
  el_cf_params :: "(nat \<times> u8) option"
  el_tim :: "(nat \<times> u8) option"
  el_ibss_params :: "(nat \<times> u8) option"
  el_challenge :: "(nat \<times> u8) option"
  el_erp_info :: "(nat \<times> u8) option"
  el_ext_supp_rates :: "(nat \<times> u8) option"
  el_wpa_ie :: "(nat \<times> u8) option"
  el_rsn_ie :: "(nat \<times> u8) option"
  el_wme :: "(nat \<times> u8) option"
  el_wme_tspec :: "(nat \<times> u8) option"
  el_wps_ie :: "(nat \<times> u8) option"
  el_power_cap :: "(nat \<times> u8) option"
  el_supp_channels :: "(nat \<times> u8) option"
  el_mdie :: "(nat \<times> u8) option"
  el_ftie :: "(nat \<times> u8) option"
  el_timeout_int :: "(nat \<times> u8) option"
  el_ht_capabilities :: "(nat \<times> u8) option"
  el_ht_operation :: "(nat \<times> u8) option"
  el_vendor_ht_cap :: "(nat \<times> u8) option"
  el_vht_capabilities :: "(nat \<times> u8) option"
  el_vht_operation :: "(nat \<times> u8) option"
  el_vht_op_mode_notify :: "(nat \<times> u8) option"

definition elems0 :: rtw_ieee802_11_elems where
  "elems0 = \<lparr>el_ssid = None, el_supp_rates = None, el_fh_params = None, el_ds_params = None,
    el_cf_params = None, el_tim = None, el_ibss_params = None, el_challenge = None,
    el_erp_info = None, el_ext_supp_rates = None, el_wpa_ie = None, el_rsn_ie = None,
    el_wme = None, el_wme_tspec = None, el_wps_ie = None, el_power_cap = None,
    el_supp_channels = None, el_mdie = None, el_ftie = None, el_timeout_int = None,
    el_ht_capabilities = None, el_ht_operation = None, el_vendor_ht_cap = None, el_vht_capabilities = None,
    el_vht_operation = None, el_vht_op_mode_notify = None\<rparr>"

datatype ParseRes = ParseOK | ParseUnknown | ParseFailed

text \<open>The first component of the result is the value the function returns.\<close>

definition rtw_ieee802_11_parse_vendor_specific ::
    "bytes \<Rightarrow> nat \<Rightarrow> u8 \<Rightarrow> rtw_ieee802_11_elems \<Rightarrow> (int \<times> rtw_ieee802_11_elems) option" where
  "rtw_ieee802_11_parse_vendor_specific buf pos elen elems =
    (if elen < 4 then Some (-1, elems)
     else do {
       o0 \<leftarrow> rd buf pos; o1 \<leftarrow> rd buf (pos + 1); o2 \<leftarrow> rd buf (pos + 2); ty \<leftarrow> rd buf (pos + 3);
       if [o0, o1, o2] = [0x00, 0x50, 0xf2] then
         if ty = 1 then Some (0, elems\<lparr>el_wpa_ie := Some (pos, elen)\<rparr>)
         else if ty = 2 then
           if elen < 5 then Some (-1, elems)
           else do {
             sub \<leftarrow> rd buf (pos + 4);
             if sub = 0 \<or> sub = 1 then Some (0, elems\<lparr>el_wme := Some (pos, elen)\<rparr>)
             else if sub = 2 then Some (0, elems\<lparr>el_wme_tspec := Some (pos, elen)\<rparr>)
             else Some (-1, elems) }
         else if ty = 4 then Some (0, elems\<lparr>el_wps_ie := Some (pos, elen)\<rparr>)
         else Some (-1, elems)
       else if [o0, o1, o2] = [0x00, 0x90, 0x4c] then
         if ty = 0x33 then Some (0, elems\<lparr>el_vendor_ht_cap := Some (pos, elen)\<rparr>)
         else Some (-1, elems)
       else Some (-1, elems) })"

text \<open>The switch on the identifier; the first component is what is added to \<open>unknown\<close>.\<close>

definition parse_elem :: "bytes \<Rightarrow> u8 \<Rightarrow> nat \<Rightarrow> u8 \<Rightarrow> rtw_ieee802_11_elems
    \<Rightarrow> (nat \<times> rtw_ieee802_11_elems) option" where
  "parse_elem buf eid pos elen elems =
    (if eid = 0 then Some (0, elems\<lparr>el_ssid := Some (pos, elen)\<rparr>)
     else if eid = 1 then Some (0, elems\<lparr>el_supp_rates := Some (pos, elen)\<rparr>)
     else if eid = 2 then Some (0, elems\<lparr>el_fh_params := Some (pos, elen)\<rparr>)
     else if eid = 3 then Some (0, elems\<lparr>el_ds_params := Some (pos, elen)\<rparr>)
     else if eid = 4 then Some (0, elems\<lparr>el_cf_params := Some (pos, elen)\<rparr>)
     else if eid = 5 then Some (0, elems\<lparr>el_tim := Some (pos, elen)\<rparr>)
     else if eid = 6 then Some (0, elems\<lparr>el_ibss_params := Some (pos, elen)\<rparr>)
     else if eid = 16 then Some (0, elems\<lparr>el_challenge := Some (pos, elen)\<rparr>)
     else if eid = 42 then Some (0, elems\<lparr>el_erp_info := Some (pos, elen)\<rparr>)
     else if eid = 50 then Some (0, elems\<lparr>el_ext_supp_rates := Some (pos, elen)\<rparr>)
     else if eid = 221 then do {
      r \<leftarrow> rtw_ieee802_11_parse_vendor_specific buf pos elen elems;
      Some (if fst r \<noteq> 0 then 1 else 0, snd r) }
     else if eid = 48 then Some (0, elems\<lparr>el_rsn_ie := Some (pos, elen)\<rparr>)
     else if eid = 33 then Some (0, elems\<lparr>el_power_cap := Some (pos, elen)\<rparr>)
     else if eid = 36 then Some (0, elems\<lparr>el_supp_channels := Some (pos, elen)\<rparr>)
     else if eid = 54 then Some (0, elems\<lparr>el_mdie := Some (pos, elen)\<rparr>)
     else if eid = 55 then Some (0, elems\<lparr>el_ftie := Some (pos, elen)\<rparr>)
     else if eid = 56 then Some (0, elems\<lparr>el_timeout_int := Some (pos, elen)\<rparr>)
     else if eid = 45 then Some (0, elems\<lparr>el_ht_capabilities := Some (pos, elen)\<rparr>)
     else if eid = 61 then Some (0, elems\<lparr>el_ht_operation := Some (pos, elen)\<rparr>)
     else if eid = 191 then Some (0, elems\<lparr>el_vht_capabilities := Some (pos, elen)\<rparr>)
     else if eid = 192 then Some (0, elems\<lparr>el_vht_operation := Some (pos, elen)\<rparr>)
     else if eid = 199 then Some (0, elems\<lparr>el_vht_op_mode_notify := Some (pos, elen)\<rparr>)
     else Some (1, elems))"

function parse_elems_loop :: "bytes \<Rightarrow> nat \<Rightarrow> nat \<Rightarrow> nat \<Rightarrow> rtw_ieee802_11_elems
    \<Rightarrow> (ParseRes \<times> rtw_ieee802_11_elems) option" where
  "parse_elems_loop buf pos left unknown elems =
     (if 2 \<le> left then do {
        id \<leftarrow> rd buf pos;
        elen \<leftarrow> rd buf (pos + 1);
        if left - 2 < unat elen then Some (ParseFailed, elems)
        else do {
          r \<leftarrow> parse_elem buf id (pos + 2) elen elems;
          parse_elems_loop buf (pos + 2 + unat elen) (left - 2 - unat elen) (unknown + fst r) (snd r) } }
      else if left \<noteq> 0 then Some (ParseFailed, elems)
      else Some (if unknown \<noteq> 0 then ParseUnknown else ParseOK, elems))"
  by pat_completeness auto
termination
  by (relation "measure (\<lambda>(buf, pos, left, unknown, elems). left)") auto

declare parse_elems_loop.simps [simp del]

definition rtw_ieee802_11_parse_elems :: "bytes \<Rightarrow> nat \<Rightarrow> u32 \<Rightarrow> (ParseRes \<times> rtw_ieee802_11_elems) option" where
  "rtw_ieee802_11_parse_elems buf start len = parse_elems_loop buf start (unat len) 0 elems0"

text \<open>What an element is, told from its identifier and, for the vendor elements, from its body.\<close>

datatype ie_slot =
    S_ssid | S_supp_rates | S_fh_params | S_ds_params | S_cf_params | S_tim | S_ibss_params |
    S_challenge | S_erp_info | S_ext_supp_rates | S_wpa_ie | S_rsn_ie | S_wme | S_wme_tspec |
    S_wps_ie | S_power_cap | S_supp_channels | S_mdie | S_ftie | S_timeout_int |
    S_ht_capabilities | S_ht_operation | S_vendor_ht_cap | S_vht_capabilities |
    S_vht_operation | S_vht_op_mode_notify

primrec elems_get :: "ie_slot \<Rightarrow> rtw_ieee802_11_elems \<Rightarrow> (nat \<times> u8) option" where
  "elems_get S_ssid el = el_ssid el"
| "elems_get S_supp_rates el = el_supp_rates el"
| "elems_get S_fh_params el = el_fh_params el"
| "elems_get S_ds_params el = el_ds_params el"
| "elems_get S_cf_params el = el_cf_params el"
| "elems_get S_tim el = el_tim el"
| "elems_get S_ibss_params el = el_ibss_params el"
| "elems_get S_challenge el = el_challenge el"
| "elems_get S_erp_info el = el_erp_info el"
| "elems_get S_ext_supp_rates el = el_ext_supp_rates el"
| "elems_get S_wpa_ie el = el_wpa_ie el"
| "elems_get S_rsn_ie el = el_rsn_ie el"
| "elems_get S_wme el = el_wme el"
| "elems_get S_wme_tspec el = el_wme_tspec el"
| "elems_get S_wps_ie el = el_wps_ie el"
| "elems_get S_power_cap el = el_power_cap el"
| "elems_get S_supp_channels el = el_supp_channels el"
| "elems_get S_mdie el = el_mdie el"
| "elems_get S_ftie el = el_ftie el"
| "elems_get S_timeout_int el = el_timeout_int el"
| "elems_get S_ht_capabilities el = el_ht_capabilities el"
| "elems_get S_ht_operation el = el_ht_operation el"
| "elems_get S_vendor_ht_cap el = el_vendor_ht_cap el"
| "elems_get S_vht_capabilities el = el_vht_capabilities el"
| "elems_get S_vht_operation el = el_vht_operation el"
| "elems_get S_vht_op_mode_notify el = el_vht_op_mode_notify el"

definition ie_slots :: "(u8 \<times> ie_slot) list" where
  "ie_slots = [(0, S_ssid), (1, S_supp_rates), (2, S_fh_params), (3, S_ds_params), (4, S_cf_params),
    (5, S_tim), (6, S_ibss_params), (16, S_challenge), (42, S_erp_info), (50,
    S_ext_supp_rates), (48, S_rsn_ie), (33, S_power_cap), (36, S_supp_channels), (54,
    S_mdie), (55, S_ftie), (56, S_timeout_int), (45, S_ht_capabilities), (61,
    S_ht_operation), (191, S_vht_capabilities), (192, S_vht_operation), (199,
    S_vht_op_mode_notify)]"

definition vendor_slot :: "bytes \<Rightarrow> ie_slot option" where
  "vendor_slot d =
     (if take 4 d = [0x00, 0x50, 0xf2, 1] then Some S_wpa_ie
      else if take 5 d = [0x00, 0x50, 0xf2, 2, 0] \<or> take 5 d = [0x00, 0x50, 0xf2, 2, 1] then Some S_wme
      else if take 5 d = [0x00, 0x50, 0xf2, 2, 2] then Some S_wme_tspec
      else if take 4 d = [0x00, 0x50, 0xf2, 4] then Some S_wps_ie
      else if take 4 d = [0x00, 0x90, 0x4c, 0x33] then Some S_vendor_ht_cap
      else None)"

definition slot_of :: "element \<Rightarrow> ie_slot option" where
  "slot_of e = (if fst e = 221 then vendor_slot (snd e) else map_of ie_slots (fst e))"

lemma elems_get_upd:
  "elems_get s (el\<lparr>el_ssid := v\<rparr>) = (if s = S_ssid then v else elems_get s el)"
  "elems_get s (el\<lparr>el_supp_rates := v\<rparr>) = (if s = S_supp_rates then v else elems_get s el)"
  "elems_get s (el\<lparr>el_fh_params := v\<rparr>) = (if s = S_fh_params then v else elems_get s el)"
  "elems_get s (el\<lparr>el_ds_params := v\<rparr>) = (if s = S_ds_params then v else elems_get s el)"
  "elems_get s (el\<lparr>el_cf_params := v\<rparr>) = (if s = S_cf_params then v else elems_get s el)"
  "elems_get s (el\<lparr>el_tim := v\<rparr>) = (if s = S_tim then v else elems_get s el)"
  "elems_get s (el\<lparr>el_ibss_params := v\<rparr>) = (if s = S_ibss_params then v else elems_get s el)"
  "elems_get s (el\<lparr>el_challenge := v\<rparr>) = (if s = S_challenge then v else elems_get s el)"
  "elems_get s (el\<lparr>el_erp_info := v\<rparr>) = (if s = S_erp_info then v else elems_get s el)"
  "elems_get s (el\<lparr>el_ext_supp_rates := v\<rparr>) = (if s = S_ext_supp_rates then v else elems_get s el)"
  "elems_get s (el\<lparr>el_wpa_ie := v\<rparr>) = (if s = S_wpa_ie then v else elems_get s el)"
  "elems_get s (el\<lparr>el_rsn_ie := v\<rparr>) = (if s = S_rsn_ie then v else elems_get s el)"
  "elems_get s (el\<lparr>el_wme := v\<rparr>) = (if s = S_wme then v else elems_get s el)"
  "elems_get s (el\<lparr>el_wme_tspec := v\<rparr>) = (if s = S_wme_tspec then v else elems_get s el)"
  "elems_get s (el\<lparr>el_wps_ie := v\<rparr>) = (if s = S_wps_ie then v else elems_get s el)"
  "elems_get s (el\<lparr>el_power_cap := v\<rparr>) = (if s = S_power_cap then v else elems_get s el)"
  "elems_get s (el\<lparr>el_supp_channels := v\<rparr>) = (if s = S_supp_channels then v else elems_get s el)"
  "elems_get s (el\<lparr>el_mdie := v\<rparr>) = (if s = S_mdie then v else elems_get s el)"
  "elems_get s (el\<lparr>el_ftie := v\<rparr>) = (if s = S_ftie then v else elems_get s el)"
  "elems_get s (el\<lparr>el_timeout_int := v\<rparr>) = (if s = S_timeout_int then v else elems_get s el)"
  "elems_get s (el\<lparr>el_ht_capabilities := v\<rparr>) = (if s = S_ht_capabilities then v else elems_get s el)"
  "elems_get s (el\<lparr>el_ht_operation := v\<rparr>) = (if s = S_ht_operation then v else elems_get s el)"
  "elems_get s (el\<lparr>el_vendor_ht_cap := v\<rparr>) = (if s = S_vendor_ht_cap then v else elems_get s el)"
  "elems_get s (el\<lparr>el_vht_capabilities := v\<rparr>) = (if s = S_vht_capabilities then v else elems_get s el)"
  "elems_get s (el\<lparr>el_vht_operation := v\<rparr>) = (if s = S_vht_operation then v else elems_get s el)"
  "elems_get s (el\<lparr>el_vht_op_mode_notify := v\<rparr>) = (if s = S_vht_op_mode_notify then v else elems_get s el)"
  by (cases s; simp)+

lemma parse_vendor_ok:
  assumes "pos + length d \<le> length buf" and "seg buf pos (length d) = d" and "length d < 256"
  shows "\<exists>k el'. rtw_ieee802_11_parse_vendor_specific buf pos (of_nat (length d)) el = Some (k, el') \<and>
    (k = 0 \<longleftrightarrow> vendor_slot d \<noteq> None) \<and>
    (\<forall>s. elems_get s el' = (if vendor_slot d = Some s then Some (pos, of_nat (length d)) else elems_get s el))"
proof -
  have lt: "(of_nat (length d) :: u8) < 4 \<longleftrightarrow> length d < 4" "(of_nat (length d) :: u8) < 5 \<longleftrightarrow> length d < 5"
    using assms(3) by (simp_all add: word_less_nat_alt unat_of_nat)
  have nth: "i < length d \<Longrightarrow> buf ! (pos + i) = d ! i" for i
    using seg_nthD [OF assms(2,1)] by simp
  consider "length d < 4" | "length d = 4" | "5 \<le> length d" by linarith
  then show ?thesis
  proof cases
    case 1
    then have "take 4 d \<noteq> [x0, x1, x2, x3]" "take 5 d \<noteq> [x0, x1, x2, x3, x4]" for x0 x1 x2 x3 x4
      by (auto dest!: arg_cong [where f = length])
    with 1 lt show ?thesis
      by (simp add: rtw_ieee802_11_parse_vendor_specific_def vendor_slot_def)
  next
    case 2
    then obtain a b c e where d: "d = [a, b, c, e]" by (auto simp: numeral_eq_Suc length_Suc_conv)
    have "rd buf pos = Some a" "rd buf (pos + 1) = Some b" "rd buf (pos + 2) = Some c" "rd buf (pos + 3) = Some e"
      using nth [of 0] nth [of 1] nth [of 2] nth [of 3] assms(1) by (simp_all add: d)
    with lt show ?thesis
      by (simp add: rtw_ieee802_11_parse_vendor_specific_def vendor_slot_def elems_get_upd d)
  next
    case 3
    then obtain a b c e f ds where d: "d = a # b # c # e # f # ds"
      by (auto simp: numeral_eq_Suc Suc_le_length_iff)
    have "rd buf pos = Some a" "rd buf (pos + 1) = Some b" "rd buf (pos + 2) = Some c"
      "rd buf (pos + 3) = Some e" "rd buf (pos + 4) = Some f"
      using nth [of 0] nth [of 1] nth [of 2] nth [of 3] nth [of 4] assms(1) by (simp_all add: d)
    with 3 lt show ?thesis
      by (simp add: rtw_ieee802_11_parse_vendor_specific_def vendor_slot_def elems_get_upd d)
  qed
qed

lemma parse_elem_ok:
  assumes "ie_ok e" and "pos + length (snd e) \<le> length buf" and "seg buf pos (length (snd e)) = snd e"
  shows "\<exists>k el'. parse_elem buf (fst e) pos (of_nat (length (snd e))) el = Some (k, el') \<and>
    (k = 0 \<longleftrightarrow> slot_of e \<noteq> None) \<and>
    (\<forall>s. elems_get s el' = (if slot_of e = Some s then Some (pos, of_nat (length (snd e))) else elems_get s el))"
proof (cases "fst e = 221")
  case True
  obtain k el' where v: "rtw_ieee802_11_parse_vendor_specific buf pos (of_nat (length (snd e))) el = Some (k, el')"
    "k = 0 \<longleftrightarrow> vendor_slot (snd e) \<noteq> None"
    "\<forall>s. elems_get s el' = (if vendor_slot (snd e) = Some s then Some (pos, of_nat (length (snd e))) else elems_get s el)"
    using parse_vendor_ok [OF assms(2,3)] assms(1) unfolding ie_ok_def by blast
  then show ?thesis
    using True by (intro exI [of _ "if k \<noteq> 0 then 1 else 0"] exI [of _ el']) (simp add: parse_elem_def slot_of_def)
next
  case False
  then show ?thesis
    by (simp add: parse_elem_def slot_of_def ie_slots_def elems_get_upd)
qed

text \<open>The last element of every kind is the one the structure points to.\<close>

fun last_slot :: "ie_slot \<Rightarrow> nat \<Rightarrow> element list \<Rightarrow> (nat \<times> u8) option" where
  "last_slot s pos [] = None"
| "last_slot s pos (e # es) = (case last_slot s (pos + length (elem_bytes e)) es of
     Some x \<Rightarrow> Some x
   | None \<Rightarrow> if slot_of e = Some s then Some (pos + 2, of_nat (length (snd e))) else None)"

lemma parse_elems_loop_ok:
  assumes "list_all ie_ok es" and "seg buf pos (length (ies_bytes es)) = ies_bytes es"
    and "pos + length (ies_bytes es) \<le> length buf"
  shows "\<exists>el'. parse_elems_loop buf pos (length (ies_bytes es)) unknown el =
      Some (if unknown = 0 \<and> (\<forall>e\<in>set es. slot_of e \<noteq> None) then ParseOK else ParseUnknown, el') \<and>
    (\<forall>s. elems_get s el' = (case last_slot s pos es of None \<Rightarrow> elems_get s el | Some x \<Rightarrow> Some x))"
  using assms
proof (induction es arbitrary: pos unknown el)
  case Nil
  then show ?case by (simp add: parse_elems_loop.simps)
next
  case (Cons e es)
  let ?n = "length (snd e) + 2" and ?m = "length (ies_bytes es)"
  have ok: "ie_ok e" using Cons.prems(1) by simp
  have b: "pos + (?n + ?m) \<le> length buf" using Cons.prems(3) by simp
  have "seg buf pos (length (elem_bytes e @ ies_bytes es)) = elem_bytes e @ ies_bytes es"
    using Cons.prems(2) by simp
  note split = seg_app_split [OF this]
  have e: "seg buf pos (length (elem_bytes e)) = elem_bytes e" by (rule split(1))
  have r: "seg buf (pos + ?n) ?m = ies_bytes es" using split(2) by simp
  have be: "pos + length (elem_bytes e) \<le> length buf" using b by simp
  note rd3 = ie_read [OF ok be e]
  obtain k el1 where k: "parse_elem buf (fst e) (pos + 2) (of_nat (length (snd e))) el = Some (k, el1)"
    and k0: "k = 0 \<longleftrightarrow> slot_of e \<noteq> None"
    and g1: "\<forall>s. elems_get s el1 =
      (if slot_of e = Some s then Some (pos + 2, of_nat (length (snd e))) else elems_get s el)"
    using parse_elem_ok [OF ok _ rd3(3), of el] b by auto
  have ln: "buf ! Suc pos = of_nat (length (snd e))"
    using rd3(2) by (metis of_nat_unat ucast_id)
  have "rd buf pos = Some (fst e)" "rd buf (pos + 1) = Some (of_nat (length (snd e)))"
    using b rd3(1) ln by simp_all
  then have step: "parse_elems_loop buf pos (length (ies_bytes (e # es))) unknown el =
      parse_elems_loop buf (pos + ?n) ?m (unknown + k) el1"
    using k unat_ie_len [OF ok] by (subst parse_elems_loop.simps) (simp add: add.assoc)
  obtain el' where loop: "parse_elems_loop buf (pos + ?n) ?m (unknown + k) el1 =
      Some (if unknown + k = 0 \<and> (\<forall>e\<in>set es. slot_of e \<noteq> None) then ParseOK else ParseUnknown, el')"
    and g: "\<forall>s. elems_get s el' = (case last_slot s (pos + ?n) es of None \<Rightarrow> elems_get s el1 | Some x \<Rightarrow> Some x)"
    using Cons.IH [of "pos + ?n" "unknown + k" el1] Cons.prems(1) b r by auto
  have "elems_get s el' = (case last_slot s pos (e # es) of None \<Rightarrow> elems_get s el | Some x \<Rightarrow> Some x)" for s
    using g [rule_format, of s] g1 [rule_format, of s] by (simp split: option.split)
  with loop step k0 show ?case by (intro exI [of _ el']) auto
qed

lemma parse_vendor_total:
  "pos + unat elen \<le> length buf \<Longrightarrow> rtw_ieee802_11_parse_vendor_specific buf pos elen el \<noteq> None"
  by (auto simp: rtw_ieee802_11_parse_vendor_specific_def rd_def word_less_nat_alt)

lemma parse_elem_total: "pos + unat elen \<le> length buf \<Longrightarrow> parse_elem buf eid pos elen el \<noteq> None"
  using parse_vendor_total [of pos elen buf el] by (auto simp: parse_elem_def)

lemma parse_elems_loop_total:
  "pos + left \<le> length buf \<Longrightarrow> \<exists>r el'. parse_elems_loop buf pos left unknown el = Some (r, el') \<and>
     (r = ParseFailed \<or> (\<exists>es. list_all ie_ok es \<and> seg buf pos left = ies_bytes es))"
proof (induction buf pos left unknown el rule: parse_elems_loop.induct)
  case (1 buf pos left unknown el)
  show ?case
  proof (cases "2 \<le> left")
    case False
    then show ?thesis
      by (cases left) (auto simp: parse_elems_loop.simps intro!: exI [of _ "[]"])
  next
    case True
    let ?n = "unat (buf ! Suc pos)"
    have rds: "rd buf pos = Some (buf ! pos)" "rd buf (pos + 1) = Some (buf ! Suc pos)"
      using True "1.prems" by simp_all
    show ?thesis
    proof (cases "left - 2 < ?n")
      case True
      with \<open>2 \<le> left\<close> rds show ?thesis by (subst parse_elems_loop.simps) simp
    next
      case False
      then have b: "pos + 2 + ?n \<le> length buf" using True "1.prems" by linarith
      obtain r where r: "parse_elem buf (buf ! pos) (pos + 2) (buf ! Suc pos) el = Some r"
        using parse_elem_total [OF b] by blast
      have step: "parse_elems_loop buf pos left unknown el =
          parse_elems_loop buf (pos + 2 + ?n) (left - 2 - ?n) (unknown + fst r) (snd r)"
        using True False rds r by (subst parse_elems_loop.simps) simp
      have "pos + 2 + ?n + (left - 2 - ?n) \<le> length buf" using True False "1.prems" by linarith
      from "1.IH" [OF True rds False r this] obtain res el' where
        res: "parse_elems_loop buf (pos + 2 + ?n) (left - 2 - ?n) (unknown + fst r) (snd r) = Some (res, el')"
        and d: "res = ParseFailed \<or> (\<exists>es. list_all ie_ok es \<and> seg buf (pos + 2 + ?n) (left - 2 - ?n) = ies_bytes es)"
        by blast
      have "\<exists>es. list_all ie_ok es \<and> seg buf pos left = ies_bytes es"
        if es: "list_all ie_ok es" "seg buf (pos + 2 + ?n) (left - 2 - ?n) = ies_bytes es" for es
      proof (intro exI conjI)
        let ?e = "(buf ! pos, seg buf (pos + 2) ?n)"
        have l: "length (seg buf (pos + 2) ?n) = ?n" using b by simp
        show "list_all ie_ok (?e # es)" using es(1) l by (simp add: ie_ok_def)
        have two: "seg buf pos 2 = [buf ! pos, buf ! Suc pos]"
          using b by (intro nth_equalityI) (auto simp: less_Suc_eq numeral_2_eq_2)
        have "2 + (?n + (left - 2 - ?n)) = left" using True False by linarith
        then have "seg buf pos left = seg buf pos (2 + (?n + (left - 2 - ?n)))" by (simp only:)
        also have "\<dots> = seg buf pos 2 @ seg buf (pos + 2) ?n @ seg buf (pos + 2 + ?n) (left - 2 - ?n)"
          unfolding seg_append_split ..
        finally show "seg buf pos left = ies_bytes (?e # es)"
          using es(2) two l by (simp add: elem_bytes_def)
      qed
      with d step res show ?thesis by auto
    qed
  qed
qed

lemma elems_get0: "elems_get s elems0 = None"
  by (cases s) (simp_all add: elems0_def)

lemma parse_elems_ok:
  assumes "list_all ie_ok es" and "seg buf start (length (ies_bytes es)) = ies_bytes es"
    and "start + length (ies_bytes es) \<le> length buf" and "unat len = length (ies_bytes es)"
  shows "\<exists>el. rtw_ieee802_11_parse_elems buf start len =
      Some (if \<forall>e\<in>set es. slot_of e \<noteq> None then ParseOK else ParseUnknown, el) \<and>
    (\<forall>s. elems_get s el = last_slot s start es)"
proof -
  have o: "(case x of None \<Rightarrow> None | Some y \<Rightarrow> Some y) = x" for x :: "(nat \<times> u8) option"
    by (cases x) simp_all
  show ?thesis
    using parse_elems_loop_ok [OF assms(1-3), of 0 elems0]
    unfolding elems_get0 o rtw_ieee802_11_parse_elems_def assms(4) by simp
qed

text \<open>C23: Parsing never reads outside the given bytes. It fails exactly when they are not a sequence
  of complete elements; otherwise every pointer of the result designates the last element of its kind
  (or is null when there is none), and \<open>ParseOK\<close> says that every element was known.\<close>

theorem parse_elems_iff:
  assumes "start + unat len \<le> length buf"
  shows "\<exists>r el. rtw_ieee802_11_parse_elems buf start len = Some (r, el) \<and>
    (r = ParseFailed \<longleftrightarrow> \<not> (\<exists>es. list_all ie_ok es \<and> seg buf start (unat len) = ies_bytes es)) \<and>
    (\<forall>es. list_all ie_ok es \<and> seg buf start (unat len) = ies_bytes es \<longrightarrow>
      (r = ParseOK \<longleftrightarrow> (\<forall>e\<in>set es. slot_of e \<noteq> None)) \<and> (\<forall>s. elems_get s el = last_slot s start es))"
proof -
  obtain r el where run: "rtw_ieee802_11_parse_elems buf start len = Some (r, el)"
    and fail: "r = ParseFailed \<or> (\<exists>es. list_all ie_ok es \<and> seg buf start (unat len) = ies_bytes es)"
    using parse_elems_loop_total [OF assms, of 0 elems0] unfolding rtw_ieee802_11_parse_elems_def by blast
  have good: "r = (if \<forall>e\<in>set es. slot_of e \<noteq> None then ParseOK else ParseUnknown) \<and>
      (\<forall>s. elems_get s el = last_slot s start es)"
    if ok: "list_all ie_ok es" and s: "seg buf start (unat len) = ies_bytes es" for es
  proof -
    have "length (seg buf start (unat len)) = unat len" using assms by simp
    then have len: "unat len = length (ies_bytes es)" using s by simp
    obtain el' where "rtw_ieee802_11_parse_elems buf start len =
        Some (if \<forall>e\<in>set es. slot_of e \<noteq> None then ParseOK else ParseUnknown, el')"
      "\<forall>s. elems_get s el' = last_slot s start es"
      using parse_elems_ok [OF ok _ _ len, of buf start] s assms unfolding len by blast
    with run show ?thesis by simp
  qed
  have "r = ParseFailed \<longleftrightarrow> \<not> (\<exists>es. list_all ie_ok es \<and> seg buf start (unat len) = ies_bytes es)"
    using fail good by (metis ParseRes.distinct(3,5))
  moreover have "(r = ParseOK \<longleftrightarrow> (\<forall>e\<in>set es. slot_of e \<noteq> None)) \<and> (\<forall>s. elems_get s el = last_slot s start es)"
    if "list_all ie_ok es" "seg buf start (unat len) = ies_bytes es" for es
    using good [OF that] by (metis ParseRes.distinct(1))
  ultimately show ?thesis using run by (intro exI conjI allI impI) auto
qed

lemma parse_elems_iff_witness:
  "\<exists>r el. rtw_ieee802_11_parse_elems [0, 2, 65, 66, 3, 1, 6] 0 7 = Some (r, el) \<and> r = ParseOK \<and>
     el_ssid el = Some (2, 2) \<and> el_ds_params el = Some (6, 1)"
proof -
  let ?buf = "[0, 2, 65, 66, 3, 1, 6] :: bytes" and ?es = "[(0, [65, 66]), (3, [6])] :: element list"
  obtain r el where *: "rtw_ieee802_11_parse_elems ?buf 0 7 = Some (r, el)"
    "\<forall>es. list_all ie_ok es \<and> seg ?buf 0 (unat (7 :: u32)) = ies_bytes es \<longrightarrow>
      (r = ParseOK \<longleftrightarrow> (\<forall>e\<in>set es. slot_of e \<noteq> None)) \<and> (\<forall>s. elems_get s el = last_slot s 0 es)"
    using parse_elems_iff [of 0 7 ?buf] by auto
  have e: "list_all ie_ok ?es" "seg ?buf 0 (unat (7 :: u32)) = ies_bytes ?es"
    by (simp_all add: ie_ok_def seg_def elem_bytes_def)
  have "\<forall>e\<in>set ?es. slot_of e \<noteq> None" by (simp add: slot_of_def ie_slots_def)
  moreover have "last_slot S_ssid 0 ?es = Some (2, 2)" "last_slot S_ds_params 0 ?es = Some (6, 1)"
    by (simp_all add: slot_of_def ie_slots_def)
  moreover have "el_ssid el = elems_get S_ssid el" "el_ds_params el = elems_get S_ds_params el" by simp_all
  ultimately show ?thesis using * e by metis
qed

end
