(* ===== verification/BuildIe.thy ===== *)
theory BuildIe
  imports Elements
begin

unbundle bit_operations_syntax

text \<open>
  Writing information elements (\<open>core/rtw_ieee80211.c\<close>): \<open>rtw_set_fixed_ie\<close>, \<open>rtw_set_ie\<close>
  and its wrappers, the rate sets, and \<open>rtw_generate_ie\<close>, which writes the elements of the
  network an ad-hoc station announces. The lemmas relate what is written to the element
  lists of \<open>Elements\<close>, so that the parser of that theory reads it back.
\<close>

section \<open>Elements\<close>

text \<open>Each writer returns the array, the pointer behind the element and the frame length.\<close>

definition rtw_set_fixed_ie :: "bytes \<Rightarrow> nat \<Rightarrow> u32 \<Rightarrow> bytes \<Rightarrow> u32 \<Rightarrow> (bytes \<times> nat \<times> u32) option" where
  "rtw_set_fixed_ie buf pbuf len source frlen = do {
     d \<leftarrow> rd_block source 0 (unat len);
     buf' \<leftarrow> wr_block buf pbuf d;
     Some (buf', pbuf + unat len, frlen + len) }"

definition rtw_set_ie :: "bytes \<Rightarrow> nat \<Rightarrow> int \<Rightarrow> u32 \<Rightarrow> bytes \<Rightarrow> u32 \<Rightarrow> (bytes \<times> nat \<times> u32) option" where
  "rtw_set_ie buf pbuf index len source frlen = do {
     b1 \<leftarrow> wr_block buf pbuf [of_int index];
     b2 \<leftarrow> wr_block b1 (pbuf + 1) [ucast len];
     b3 \<leftarrow> (if 0 < len then do { d \<leftarrow> rd_block source 0 (unat len); wr_block b2 (pbuf + 2) d } else Some b2);
     Some (b3, pbuf + unat len + 2, frlen + (len + 2)) }"

definition rtw_set_ie_ch_switch :: "bytes \<Rightarrow> nat \<Rightarrow> u32 \<Rightarrow> u8 \<Rightarrow> u8 \<Rightarrow> u8 \<Rightarrow> (bytes \<times> nat \<times> u32) option" where
  "rtw_set_ie_ch_switch buf p buf_len ch_switch_mode new_ch ch_switch_cnt =
     rtw_set_ie buf p 37 3 [ch_switch_mode, new_ch, ch_switch_cnt] buf_len"

text \<open>\<open>SCN\<close>, \<open>SCA\<close> and \<open>SCB\<close> are 0, 1 and 3; \<open>HAL_PRIME_CHNL_OFFSET_LOWER\<close> is 1, \<open>UPPER\<close> is 2.\<close>

definition secondary_ch_offset_to_hal_ch_offset :: "u8 \<Rightarrow> u8" where
  "secondary_ch_offset_to_hal_ch_offset ch_offset =
     (if ch_offset = 0 then 0 else if ch_offset = 1 then 2 else if ch_offset = 3 then 1 else 0)"

definition hal_ch_offset_to_secondary_ch_offset :: "u8 \<Rightarrow> u8" where
  "hal_ch_offset_to_secondary_ch_offset ch_offset =
     (if ch_offset = 0 then 0 else if ch_offset = 1 then 3 else if ch_offset = 2 then 1 else 0)"

definition rtw_set_ie_secondary_ch_offset :: "bytes \<Rightarrow> nat \<Rightarrow> u32 \<Rightarrow> u8 \<Rightarrow> (bytes \<times> nat \<times> u32) option" where
  "rtw_set_ie_secondary_ch_offset buf p buf_len secondary_ch_offset =
     rtw_set_ie buf p 62 1 [secondary_ch_offset] buf_len"

definition put_le16 :: "u16 \<Rightarrow> bytes" where
  "put_le16 v = [ucast v, ucast (drop_bit 8 v)]"

definition rtw_set_ie_mesh_ch_switch_parm ::
    "bytes \<Rightarrow> nat \<Rightarrow> u32 \<Rightarrow> u8 \<Rightarrow> u8 \<Rightarrow> u16 \<Rightarrow> u16 \<Rightarrow> (bytes \<times> nat \<times> u32) option" where
  "rtw_set_ie_mesh_ch_switch_parm buf p buf_len ttl flags reason precedence =
     rtw_set_ie buf p 0x118 6 ([ttl, flags] @ put_le16 reason @ put_le16 precedence) buf_len"

lemma hal_secondary_roundtrip:
  "o' \<in> {0, 1, 3} \<Longrightarrow> hal_ch_offset_to_secondary_ch_offset (secondary_ch_offset_to_hal_ch_offset o') = o'"
  by (auto simp: hal_ch_offset_to_secondary_ch_offset_def secondary_ch_offset_to_hal_ch_offset_def)

lemma rtw_set_ie_store:
  assumes "pbuf + unat len + 2 \<le> length buf" and "unat len \<le> length source" and "unat len < 256"
  shows "rtw_set_ie buf pbuf index len source frlen =
    Some (store buf pbuf (elem_bytes (of_int index, take (unat len) source)), pbuf + unat len + 2, frlen + (len + 2))"
proof -
  have c: "(ucast len :: u8) = of_nat (unat len)" by simp
  have l: "0 < len \<longleftrightarrow> 0 < unat len" by (simp add: word_less_nat_alt)
  let ?b1 = "store buf pbuf [of_int index]" and ?l = "[of_nat (unat len)] :: bytes"
  have m: "min (length source) (unat len) = unat len" using assms(2) by simp
  have s1: "store ?b1 (pbuf + 1) ?l = store buf pbuf [of_int index, of_nat (unat len)]"
    using assms(1) by (subst store_append) simp_all
  show ?thesis
  proof (cases "0 < unat len")
    case True
    have d: "rd_block source 0 (unat len) = Some (take (unat len) source)"
      using assms(2) by (simp add: seg_def)
    have s2: "store (store buf pbuf [of_int index, of_nat (unat len)]) (pbuf + 2) (take (unat len) source) =
        store buf pbuf ([of_int index, of_nat (unat len)] @ take (unat len) source)"
      using assms(1,2) by (intro store_append) simp_all
    show ?thesis
      using assms True l m s2 s1 d unfolding rtw_set_ie_def c by (simp add: elem_bytes_def)
  next
    case False
    then show ?thesis
      using assms l m s1 unfolding rtw_set_ie_def c by (simp add: elem_bytes_def)
  qed
qed

text \<open>The identifier is cut to eight bits: the mesh element gets the identifier 24, not 118.\<close>

lemma mesh_ch_switch_parm_id:
  "p + 8 \<le> length buf \<Longrightarrow>
   \<exists>buf' n l. rtw_set_ie_mesh_ch_switch_parm buf p buf_len ttl flags reason precedence = Some (buf', n, l) \<and> buf' ! p = 24"
  by (simp add: rtw_set_ie_mesh_ch_switch_parm_def rtw_set_ie_store put_le16_def nth_store elem_bytes_def)

section \<open>Rates\<close>

definition WIFI_CCKRATES :: bytes where
  "WIFI_CCKRATES = [0x02 OR 0x80, 0x04 OR 0x80, 0x0B OR 0x80, 0x16 OR 0x80]"

definition WIFI_OFDMRATES :: bytes where
  "WIFI_OFDMRATES = [0x0C, 0x12, 0x18, 0x24, 0x30, 0x48, 0x60, 0x6C]"

text \<open>Modes are sets of bits: 1 is 11b, 2 is 11g, 4 is 11a, 8 and 16 are 11n in the two bands, 64
  is 11ac. The array of rates has sixteen entries.\<close>

definition rtw_set_supported_rate :: "u32 \<Rightarrow> bytes" where
  "rtw_set_supported_rate mode =
     (let r0 = replicate 16 0 in
      if mode = 1 then store r0 0 WIFI_CCKRATES
      else if mode \<in> {2, 4, 16, 4 OR 16, 4 OR 64} then store r0 0 WIFI_OFDMRATES
      else if mode \<in> {1 OR 2, 2 OR 8, 8, 1 OR 2 OR 8}
      then store (store r0 0 WIFI_CCKRATES) 4 WIFI_OFDMRATES
      else r0)"

function rateset_len_loop :: "bytes \<Rightarrow> nat \<Rightarrow> nat option" where
  "rateset_len_loop rateset i = do {
     r \<leftarrow> rd rateset i;
     if r = 0 then Some i else if 12 < i then Some i else rateset_len_loop rateset (i + 1) }"
  by pat_completeness auto
termination by (relation "measure (\<lambda>(r, i). 14 - i)") auto

declare rateset_len_loop.simps [simp del]

definition rtw_get_rateset_len :: "bytes \<Rightarrow> nat option" where
  "rtw_get_rateset_len rateset = rateset_len_loop rateset 0"

lemma rate_arrays:
  "store (replicate 16 0) 0 WIFI_CCKRATES = WIFI_CCKRATES @ replicate 12 0"
  "store (replicate 16 0) 0 WIFI_OFDMRATES = WIFI_OFDMRATES @ replicate 8 0"
  "store (WIFI_CCKRATES @ replicate 12 0) 4 WIFI_OFDMRATES = WIFI_CCKRATES @ WIFI_OFDMRATES @ replicate 4 0"
  by code_simp+

lemma rate_lens:
  "rtw_get_rateset_len (WIFI_CCKRATES @ replicate 12 0) = Some 4"
  "rtw_get_rateset_len (WIFI_OFDMRATES @ replicate 8 0) = Some 8"
  "rtw_get_rateset_len (WIFI_CCKRATES @ WIFI_OFDMRATES @ replicate 4 0) = Some 12"
  "rtw_get_rateset_len (replicate 16 0) = Some 0"
  by code_simp+

lemma supported_rate_cases:
  obtains rs k where "rtw_set_supported_rate mode = rs @ replicate k 0" and "length rs + k = 16"
    and "rtw_get_rateset_len (rs @ replicate k 0) = Some (length rs)" and "length rs \<in> {0, 4, 8, 12}"
proof -
  note d = rtw_set_supported_rate_def [of mode, unfolded Let_def rate_arrays]
  have l: "length WIFI_CCKRATES = 4" "length WIFI_OFDMRATES = 8"
    by (simp_all add: WIFI_CCKRATES_def WIFI_OFDMRATES_def)
  consider "rtw_set_supported_rate mode = WIFI_CCKRATES @ replicate 12 0"
    | "rtw_set_supported_rate mode = WIFI_OFDMRATES @ replicate 8 0"
    | "rtw_set_supported_rate mode = (WIFI_CCKRATES @ WIFI_OFDMRATES) @ replicate 4 0"
    | "rtw_set_supported_rate mode = [] @ replicate 16 0"
    unfolding d append.simps append_assoc by argo
  then show thesis
  proof cases
    case 1 show thesis by (rule that [OF 1]) (use l rate_lens in simp_all)
  next
    case 2 show thesis by (rule that [OF 2]) (use l rate_lens in simp_all)
  next
    case 3 show thesis by (rule that [OF 3]) (use l rate_lens in simp_all)
  next
    case 4 show thesis by (rule that [OF 4]) (use rate_lens in simp_all)
  qed
qed

section \<open>The elements of an ad-hoc network\<close>

record wlan_bssid_ex =
  bss_Ssid :: bytes
  bss_SsidLength :: u32
  bss_Privacy :: u32
  bss_BeaconPeriod :: u32
  bss_ATIMWindow :: u32
  bss_DSConfig :: u32
  bss_SupportedRates :: bytes
  bss_IELength :: u32
  bss_IEs :: bytes

record registry_priv =
  reg_wireless_mode :: u8
  reg_preamble :: u8
  reg_dev_network :: wlan_bssid_ex

definition or_le16 :: "bytes \<Rightarrow> nat \<Rightarrow> u16 \<Rightarrow> bytes option" where
  "or_le16 buf p v = do { a \<leftarrow> rd buf p; b \<leftarrow> rd buf (p + 1); wr_block buf p (put_le16 (le16 a b OR v)) }"

definition generate_ie_mode :: "u8 \<Rightarrow> u32 \<Rightarrow> u8" where
  "generate_ie_mode m dsconfig =
     (if m = 0x1f then (if 14 < dsconfig then 4 OR 16 else 1 OR 2 OR 8)
      else if m = 0x5f then (if 14 < dsconfig then 4 OR 64 else 1 OR 2 OR 8)
      else m)"

definition generate_fixed_fields :: "registry_priv \<Rightarrow> bytes option" where
  "generate_fixed_fields reg =
     (let n = reg_dev_network reg in
      do {
        b1 \<leftarrow> wr_block (bss_IEs n) 8 (put_le16 (ucast (bss_BeaconPeriod n)));
        b2 \<leftarrow> wr_block b1 10 (put_le16 0);
        b3 \<leftarrow> or_le16 b2 10 2;
        b4 \<leftarrow> (if reg_preamble reg = 3 then or_le16 b3 10 0x20 else Some b3);
        if bss_Privacy n \<noteq> 0 then or_le16 b4 10 0x10 else Some b4 })"

definition rtw_generate_ie :: "registry_priv \<Rightarrow> (u32 \<times> registry_priv) option" where
  "rtw_generate_ie reg =
     (let n = reg_dev_network reg in
      do {
        b5 \<leftarrow> generate_fixed_fields reg;
        (b6, p6, sz6) \<leftarrow> rtw_set_ie b5 12 0 (bss_SsidLength n) (bss_Ssid n) 12;
        let rates = rtw_set_supported_rate (ucast (generate_ie_mode (reg_wireless_mode reg) (bss_DSConfig n)));
        rateLen \<leftarrow> rtw_get_rateset_len rates;
        (b7, p7, sz7) \<leftarrow> (if 8 < rateLen then rtw_set_ie b6 p6 1 8 rates sz6
                            else rtw_set_ie b6 p6 1 (of_nat rateLen) rates sz6);
        (b8, p8, sz8) \<leftarrow> rtw_set_ie b7 p7 3 1 (le32_bytes (bss_DSConfig n)) sz7;
        (b9, p9, sz9) \<leftarrow> rtw_set_ie b8 p8 6 2 (le32_bytes (bss_ATIMWindow n)) sz8;
        (b10, p10, sz10) \<leftarrow> (if 8 < rateLen then rtw_set_ie b9 p9 50 (of_nat (rateLen - 8)) (drop 8 rates) sz9
                               else Some (b9, p9, sz9));
        Some (sz10, reg\<lparr>reg_dev_network := n\<lparr>bss_SupportedRates := rates, bss_IEs := b10\<rparr>\<rparr>) })"

text \<open>Writing one more element behind those already written.\<close>

lemma rtw_set_ie_snoc:
  assumes "q = p + length (ies_bytes es)" and "q + unat len + 2 \<le> length buf"
    and "unat len \<le> length source" and "unat len < 256" and "e = (of_int index, take (unat len) source)"
  shows "rtw_set_ie (store buf p (ies_bytes es)) q index len source frlen =
    Some (store buf p (ies_bytes (es @ [e])), p + length (ies_bytes (es @ [e])), frlen + of_nat (length (elem_bytes e)))"
proof -
  have l: "length (elem_bytes e) = unat len + 2" using assms(3,5) by simp
  have w: "len + 2 = (of_nat (length (elem_bytes e)) :: u32)" unfolding l by simp
  have s: "store (store buf p (ies_bytes es)) q (elem_bytes e) = store buf p (ies_bytes (es @ [e]))"
    using assms(1,2) l by (simp add: store_append)
  have "rtw_set_ie (store buf p (ies_bytes es)) q index len source frlen =
      Some (store (store buf p (ies_bytes es)) q (elem_bytes e), q + unat len + 2, frlen + (len + 2))"
    unfolding assms(5) using assms(1-4) by (intro rtw_set_ie_store) simp_all
  then show ?thesis unfolding s w using assms(1) l by simp
qed

text \<open>The elements of the announced network.\<close>

definition generated_rates :: "registry_priv \<Rightarrow> bytes" where
  "generated_rates reg = (let rates = rtw_set_supported_rate
       (ucast (generate_ie_mode (reg_wireless_mode reg) (bss_DSConfig (reg_dev_network reg)))) in
     take (the (rtw_get_rateset_len rates)) rates)"

definition generated_elements :: "registry_priv \<Rightarrow> element list" where
  "generated_elements reg = (let n = reg_dev_network reg; rs = generated_rates reg in
     [(0, take (unat (bss_SsidLength n)) (bss_Ssid n)), (1, take 8 rs),
      (3, [ucast (bss_DSConfig n)]), (6, take 2 (le32_bytes (bss_ATIMWindow n)))] @
     (if 8 < length rs then [(50, drop 8 rs)] else []))"

lemma or_le16_length: "or_le16 buf p v = Some b \<Longrightarrow> length b = length buf"
  by (auto simp: or_le16_def wr_block_def put_le16_def Option.bind_eq_Some_conv split: if_splits)

lemma or_le16_Some: "p + 2 \<le> length buf \<Longrightarrow> \<exists>b. or_le16 buf p v = Some b"
  by (simp add: or_le16_def wr_block_def put_le16_def)

lemma or_le16_if:
  assumes "p + 2 \<le> length buf"
  shows "\<exists>b. (if c then or_le16 buf p v else Some buf) = Some b \<and> length b = length buf"
proof (cases c)
  case True
  obtain b where "or_le16 buf p v = Some b" using or_le16_Some [OF assms, of v] by blast
  then show ?thesis using True or_le16_length by auto
qed simp

lemma generate_fixed_fields_ok:
  assumes "length (bss_IEs (reg_dev_network reg)) = 768"
  shows "\<exists>b. generate_fixed_fields reg = Some b \<and> length b = 768"
proof -
  let ?n = "reg_dev_network reg"
  let ?b1 = "store (bss_IEs ?n) 8 (put_le16 (ucast (bss_BeaconPeriod ?n)))"
  let ?b2 = "store ?b1 10 (put_le16 0)"
  have w: "wr_block (bss_IEs ?n) 8 (put_le16 (ucast (bss_BeaconPeriod ?n))) = Some ?b1"
    "wr_block ?b1 10 (put_le16 0) = Some ?b2" and l2: "length ?b2 = 768"
    using assms by (simp_all add: put_le16_def)
  obtain b3 where b3: "or_le16 ?b2 10 2 = Some b3" using or_le16_Some [of 10 ?b2] l2 by auto
  have l3: "length b3 = 768" using or_le16_length [OF b3] l2 by simp
  obtain b4 where b4: "(if reg_preamble reg = 3 then or_le16 b3 10 0x20 else Some b3) = Some b4"
    and l4: "length b4 = 768"
    using or_le16_if [of 10 b3 "reg_preamble reg = 3" "0x20"] l3 by auto
  obtain b where "(if bss_Privacy ?n \<noteq> 0 then or_le16 b4 10 0x10 else Some b4) = Some b" "length b = 768"
    using or_le16_if [of 10 b4 "bss_Privacy ?n \<noteq> 0" "0x10"] l4 by auto
  then show ?thesis
    unfolding generate_fixed_fields_def Let_def w Option.bind.bind_lunit b3 b4 by blast
qed

lemma generate_ie_writes:
  assumes "unat (bss_SsidLength n) \<le> 32" and "length (bss_Ssid n) = 32" and "length (bss_IEs n) = 768"
    and "n = reg_dev_network reg"
  shows "\<exists>buf reg'. rtw_generate_ie reg = Some (12 + of_nat (length (ies_bytes (generated_elements reg))), reg') \<and>
    bss_IEs (reg_dev_network reg') = store buf 12 (ies_bytes (generated_elements reg)) \<and> length buf = 768"
proof -
  obtain b5 where b5: "generate_fixed_fields reg = Some b5" and l5: "length b5 = 768"
    using generate_fixed_fields_ok assms(3,4) by blast
  let ?mode = "ucast (generate_ie_mode (reg_wireless_mode reg) (bss_DSConfig n)) :: u32"
  obtain rs k where rates: "rtw_set_supported_rate ?mode = rs @ replicate k 0" and rk: "length rs + k = 16"
    and rl: "rtw_get_rateset_len (rs @ replicate k 0) = Some (length rs)" and r4: "length rs \<in> {0, 4, 8, 12}"
    by (rule supported_rate_cases)
  have gr: "generated_rates reg = rs"
    using rates rl assms(4) by (simp add: generated_rates_def Let_def)
  let ?rates = "rs @ replicate k 0"
  let ?e0 = "(0, take (unat (bss_SsidLength n)) (bss_Ssid n)) :: element"
  let ?e1 = "(1, take 8 rs) :: element" and ?e3 = "(3, [ucast (bss_DSConfig n)]) :: element"
  let ?e6 = "(6, take 2 (le32_bytes (bss_ATIMWindow n))) :: element" and ?e50 = "(50, drop 8 rs) :: element"
  have ge: "generated_elements reg = [?e0, ?e1, ?e3, ?e6] @ (if 8 < length rs then [?e50] else [])"
    by (simp only: generated_elements_def Let_def gr assms(4) [symmetric])
  let ?S = "\<lambda>es. store b5 12 (ies_bytes es)" and ?P = "\<lambda>es. 12 + length (ies_bytes es)"
  let ?Z = "\<lambda>es. 12 + of_nat (length (ies_bytes es)) :: u32"
  have l0: "length (snd ?e0) \<le> 32" using assms(1) by simp
  have s0: "rtw_set_ie b5 12 0 (bss_SsidLength n) (bss_Ssid n) 12 = Some (?S [?e0], ?P [?e0], ?Z [?e0])"
    using rtw_set_ie_snoc [where es = "[]" and p = 12 and q = 12 and e = ?e0] assms(1,2) l5 by simp
  have s1: "(if 8 < length rs then rtw_set_ie (?S [?e0]) (?P [?e0]) 1 8 ?rates (?Z [?e0])
      else rtw_set_ie (?S [?e0]) (?P [?e0]) 1 (of_nat (length rs)) ?rates (?Z [?e0])) =
      Some (?S [?e0, ?e1], ?P [?e0, ?e1], ?Z [?e0, ?e1])"
    using rtw_set_ie_snoc [where es = "[?e0]" and p = 12 and q = "?P [?e0]" and e = ?e1 and buf = b5
        and source = ?rates and index = 1 and frlen = "?Z [?e0]"
        and len = "if 8 < length rs then 8 else of_nat (length rs)"] l0 l5 rk r4
    by (auto simp: unat_of_nat add.assoc)
  have s3: "rtw_set_ie (?S [?e0, ?e1]) (?P [?e0, ?e1]) 3 1 (le32_bytes (bss_DSConfig n)) (?Z [?e0, ?e1]) =
      Some (?S [?e0, ?e1, ?e3], ?P [?e0, ?e1, ?e3], ?Z [?e0, ?e1, ?e3])"
    using rtw_set_ie_snoc [where es = "[?e0, ?e1]" and p = 12 and q = "?P [?e0, ?e1]" and e = ?e3 and buf = b5
        and source = "le32_bytes (bss_DSConfig n)" and index = 3 and frlen = "?Z [?e0, ?e1]" and len = 1] l0 l5
    by (simp add: le32_bytes_def add.assoc)
  have s6: "rtw_set_ie (?S [?e0, ?e1, ?e3]) (?P [?e0, ?e1, ?e3]) 6 2 (le32_bytes (bss_ATIMWindow n)) (?Z [?e0, ?e1, ?e3]) =
      Some (?S [?e0, ?e1, ?e3, ?e6], ?P [?e0, ?e1, ?e3, ?e6], ?Z [?e0, ?e1, ?e3, ?e6])"
    using rtw_set_ie_snoc [where es = "[?e0, ?e1, ?e3]" and p = 12 and q = "?P [?e0, ?e1, ?e3]" and e = ?e6 and buf = b5
        and source = "le32_bytes (bss_ATIMWindow n)" and index = 6 and frlen = "?Z [?e0, ?e1, ?e3]" and len = 2] l0 l5
    by (simp add: add.assoc)
  have s50: "(if 8 < length rs then rtw_set_ie (?S [?e0, ?e1, ?e3, ?e6]) (?P [?e0, ?e1, ?e3, ?e6]) 50
        (of_nat (length rs - 8)) (drop 8 ?rates) (?Z [?e0, ?e1, ?e3, ?e6])
      else Some (?S [?e0, ?e1, ?e3, ?e6], ?P [?e0, ?e1, ?e3, ?e6], ?Z [?e0, ?e1, ?e3, ?e6])) =
      Some (?S (generated_elements reg), ?P (generated_elements reg), ?Z (generated_elements reg))"
  proof (cases "8 < length rs")
    case True
    then have r: "length rs = 12" "k = 4" using r4 rk by auto
    show ?thesis
      using rtw_set_ie_snoc [where es = "[?e0, ?e1, ?e3, ?e6]" and p = 12 and q = "?P [?e0, ?e1, ?e3, ?e6]"
          and e = ?e50 and buf = b5 and source = "drop 8 ?rates" and index = 50
          and frlen = "?Z [?e0, ?e1, ?e3, ?e6]" and len = 4] l0 l5 r
      unfolding ge by (simp add: add.assoc)
  qed (simp add: ge)
  show ?thesis
    using l5
    by (simp only: rtw_generate_ie_def Let_def assms(4) [symmetric] b5 rates rl s0 s1 s3 s6 s50
        Option.bind.bind_lunit prod.case) (intro exI [of _ b5], simp)
qed

text \<open>The bodies the parser hands out.\<close>

definition el_body :: "bytes \<Rightarrow> (nat \<times> u8) option \<Rightarrow> bytes option" where
  "el_body buf x = map_option (\<lambda>(p, n). seg buf p (unat n)) x"

fun last_body :: "ie_slot \<Rightarrow> element list \<Rightarrow> bytes option" where
  "last_body s [] = None"
| "last_body s (e # es) = (case last_body s es of
     Some d \<Rightarrow> Some d | None \<Rightarrow> if slot_of e = Some s then Some (snd e) else None)"

lemma last_slot_body:
  "list_all ie_ok es \<Longrightarrow> seg buf pos (length (ies_bytes es)) = ies_bytes es \<Longrightarrow>
   pos + length (ies_bytes es) \<le> length buf \<Longrightarrow> el_body buf (last_slot s pos es) = last_body s es"
proof (induction es arbitrary: pos)
  case (Cons e es)
  have ok: "ie_ok e" using Cons.prems(1) by simp
  have be: "pos + length (elem_bytes e) \<le> length buf" using Cons.prems(3) by simp
  have "seg buf pos (length (elem_bytes e @ ies_bytes es)) = elem_bytes e @ ies_bytes es"
    using Cons.prems(2) by simp
  note split = seg_app_split [OF this]
  have IH: "el_body buf (last_slot s (pos + length (elem_bytes e)) es) = last_body s es"
    using Cons.prems split(2) by (intro Cons.IH) simp_all
  have "seg buf (pos + 2) (unat (of_nat (length (snd e)) :: u8)) = snd e"
    using ie_read(3) [OF ok be split(1)] by (simp only: unat_ie_len [OF ok])
  then show ?case
    using IH by (auto simp: el_body_def split: option.splits)
qed (simp add: el_body_def)

lemma length_generated_rates: "length (generated_rates reg) \<le> 12"
proof -
  obtain rs k where "rtw_set_supported_rate (ucast (generate_ie_mode (reg_wireless_mode reg)
      (bss_DSConfig (reg_dev_network reg)))) = rs @ replicate k 0"
    "rtw_get_rateset_len (rs @ replicate k 0) = Some (length rs)" "length rs \<in> {0, 4, 8, 12}"
    by (rule supported_rate_cases)
  then show ?thesis by (auto simp: generated_rates_def Let_def)
qed

text \<open>C24: What \<open>rtw_generate_ie\<close> writes for an ad-hoc network is read back by the parser: the
  elements parse without error, and their bodies are the name of the network, its rates (split over two
  elements when there are more than eight) and its channel.\<close>

theorem generate_ie_roundtrip:
  assumes "unat (bss_SsidLength (reg_dev_network reg)) \<le> 32" and "length (bss_Ssid (reg_dev_network reg)) = 32"
    and "length (bss_IEs (reg_dev_network reg)) = 768"
  shows "\<exists>sz reg' el. rtw_generate_ie reg = Some (sz, reg') \<and>
    rtw_ieee802_11_parse_elems (bss_IEs (reg_dev_network reg')) 12 (sz - 12) = Some (ParseOK, el) \<and>
    el_body (bss_IEs (reg_dev_network reg')) (el_ssid el) =
      Some (take (unat (bss_SsidLength (reg_dev_network reg))) (bss_Ssid (reg_dev_network reg))) \<and>
    el_body (bss_IEs (reg_dev_network reg')) (el_supp_rates el) = Some (take 8 (generated_rates reg)) \<and>
    el_body (bss_IEs (reg_dev_network reg')) (el_ext_supp_rates el) =
      (if 8 < length (generated_rates reg) then Some (drop 8 (generated_rates reg)) else None) \<and>
    el_body (bss_IEs (reg_dev_network reg')) (el_ds_params el) = Some [ucast (bss_DSConfig (reg_dev_network reg))]"
proof -
  let ?es = "generated_elements reg" and ?n = "reg_dev_network reg"
  obtain buf reg' where run: "rtw_generate_ie reg = Some (12 + of_nat (length (ies_bytes ?es)), reg')"
    and ies: "bss_IEs (reg_dev_network reg') = store buf 12 (ies_bytes ?es)" and lb: "length buf = 768"
    using generate_ie_writes [OF assms refl] by blast
  note r12 = length_generated_rates [of reg]
  have ok: "list_all ie_ok ?es"
    using assms(1,2) r12 by (auto simp: generated_elements_def Let_def ie_ok_def)
  have len: "length (ies_bytes ?es) \<le> 100"
    using assms(1,2) r12 by (auto simp: generated_elements_def Let_def)
  let ?b = "store buf 12 (ies_bytes ?es)"
  have seg: "seg ?b 12 (length (ies_bytes ?es)) = ies_bytes ?es" using len lb by simp
  have le: "12 + length (ies_bytes ?es) \<le> length ?b" using len lb by simp
  have sz: "unat (12 + of_nat (length (ies_bytes ?es)) - 12 :: u32) = length (ies_bytes ?es)"
    using len by (simp add: unat_of_nat)
  obtain el where el: "rtw_ieee802_11_parse_elems ?b 12 (12 + of_nat (length (ies_bytes ?es)) - 12) =
      Some (if \<forall>e\<in>set ?es. slot_of e \<noteq> None then ParseOK else ParseUnknown, el)"
    and get: "\<forall>s. elems_get s el = last_slot s 12 ?es"
    using parse_elems_ok [OF ok seg le sz] by blast
  have known: "\<forall>e\<in>set ?es. slot_of e \<noteq> None"
    by (auto simp: generated_elements_def Let_def slot_of_def ie_slots_def)
  have body: "el_body ?b (elems_get s el) = last_body s ?es" for s
    using last_slot_body [OF ok seg le, of s] get by simp
  have "rtw_ieee802_11_parse_elems ?b 12 (12 + of_nat (length (ies_bytes ?es)) - 12) = Some (ParseOK, el)"
    using el known by (simp only: if_P)
  moreover have "el_body ?b (el_ssid el) = last_body S_ssid ?es" "el_body ?b (el_supp_rates el) = last_body S_supp_rates ?es"
    "el_body ?b (el_ext_supp_rates el) = last_body S_ext_supp_rates ?es"
    "el_body ?b (el_ds_params el) = last_body S_ds_params ?es"
    using body [of S_ssid] body [of S_supp_rates] body [of S_ext_supp_rates] body [of S_ds_params] by simp_all
  ultimately show ?thesis
    using run unfolding ies by (intro exI conjI) (auto simp: generated_elements_def Let_def slot_of_def ie_slots_def ies)
qed

text \<open>An 802.11b/g network called \<open>ABC\<close> on channel 6, as the witness of the property.\<close>

definition demo_registry :: registry_priv where
  "demo_registry = \<lparr>reg_wireless_mode = 3, reg_preamble = 3, reg_dev_network =
     \<lparr>bss_Ssid = [65, 66, 67] @ replicate 29 0, bss_SsidLength = 3, bss_Privacy = 0, bss_BeaconPeriod = 100,
      bss_ATIMWindow = 0, bss_DSConfig = 6, bss_SupportedRates = replicate 16 0, bss_IELength = 0,
      bss_IEs = replicate 768 0\<rparr>\<rparr>"

lemma demo_registry_rates: "generated_rates demo_registry = WIFI_CCKRATES @ WIFI_OFDMRATES"
  unfolding demo_registry_def by (simp add: generated_rates_def generate_ie_mode_def rtw_set_supported_rate_def rate_arrays
      rate_lens) (simp add: WIFI_CCKRATES_def WIFI_OFDMRATES_def)

theorem generate_ie_roundtrip_witness:
  "\<exists>sz reg' el. rtw_generate_ie demo_registry = Some (sz, reg') \<and>
    rtw_ieee802_11_parse_elems (bss_IEs (reg_dev_network reg')) 12 (sz - 12) = Some (ParseOK, el) \<and>
    el_body (bss_IEs (reg_dev_network reg')) (el_ssid el) = Some [65, 66, 67] \<and>
    el_body (bss_IEs (reg_dev_network reg')) (el_supp_rates el) =
      Some [0x82, 0x84, 0x8b, 0x96, 0x0c, 0x12, 0x18, 0x24] \<and>
    el_body (bss_IEs (reg_dev_network reg')) (el_ds_params el) = Some [6]"
proof -
  have a: "unat (bss_SsidLength (reg_dev_network demo_registry)) \<le> 32"
    "length (bss_Ssid (reg_dev_network demo_registry)) = 32"
    "length (bss_IEs (reg_dev_network demo_registry)) = 768"
    "take (unat (bss_SsidLength (reg_dev_network demo_registry))) (bss_Ssid (reg_dev_network demo_registry)) = [65, 66, 67]"
    "bss_DSConfig (reg_dev_network demo_registry) = 6"
    by (simp_all add: demo_registry_def)
  show ?thesis
    using generate_ie_roundtrip [OF a(1-3)] unfolding a(4-5) demo_registry_rates
    by (elim exE conjE) (intro exI conjI, assumption, assumption, assumption, simp_all add: WIFI_CCKRATES_def WIFI_OFDMRATES_def)
qed

end
