(* ===== verification/SecIes.thy ===== *)
theory SecIes
  imports BuildIe
begin

unbundle bit_operations_syntax

text \<open>
  The security elements of beacons and probe responses (\<open>core/rtw_ieee80211.c\<close>):
  \<open>rtw_get_wpa_ie\<close>, \<open>rtw_parse_wpa_ie\<close>, \<open>rtw_parse_wpa2_ie\<close>, \<open>rtw_get_sec_ie\<close>,
  \<open>rtw_get_wapi_ie\<close>, \<open>rtw_get_cipher_info\<close> and \<open>rtw_get_bcn_info\<close>, which fills the summary
  the scan results show. Pointers, null pointers and reads are as in \<open>Elements\<close>.
\<close>

section \<open>The WPA element\<close>

lemma rtw_get_ie_loop_bounds:
  "rtw_get_ie_loop buf index p i limit = Some (Some q, l) \<Longrightarrow> p \<le> q \<and> Suc q < length buf \<and> l = uint (buf ! Suc q)"
proof (induction buf index p i limit rule: rtw_get_ie_loop.induct)
  case (1 buf index p i limit)
  show ?case
  proof (cases "Suc p < length buf")
    case True
    have r: "rd buf p = Some (buf ! p)" "rd buf (p + 1) = Some (buf ! Suc p)" using True by simp_all
    show ?thesis
    proof (cases "uint (buf ! p) = index")
      case hit: True
      then have "rtw_get_ie_loop buf index p i limit = Some (Some p, uint (buf ! Suc p))"
        using r by (subst rtw_get_ie_loop.simps) simp
      then show ?thesis using "1.prems" True by simp
    next
      case False
      let ?p = "p + nat (uint (buf ! Suc p) + 2)" and ?i = "i + (uint (buf ! Suc p) + 2)"
      have "rtw_get_ie_loop buf index p i limit =
          (if limit \<le> ?i then Some (None, 0) else rtw_get_ie_loop buf index ?p ?i limit)"
        using r False by (subst rtw_get_ie_loop.simps) (simp add: Let_def)
      then have "\<not> limit \<le> ?i" and "rtw_get_ie_loop buf index ?p ?i limit = Some (Some q, l)"
        using "1.prems" by (auto split: if_splits)
      from "1.IH" [OF r False refl refl refl this] show ?thesis by simp
    qed
  next
    case False
    then have "rd buf (p + 1) = None" by (simp add: rd_def)
    then have "rtw_get_ie_loop buf index p i limit = None"
      by (subst rtw_get_ie_loop.simps) (simp add: Option.bind_eq_None_conv rd_def)
    with "1.prems" show ?thesis by simp
  qed
qed

lemma rtw_get_ie_bounds:
  "rtw_get_ie buf p index len0 limit = Some (Some q, l) \<Longrightarrow>
   p \<le> q \<and> Suc q < length buf \<and> l = uint (buf ! Suc q)"
  by (auto simp: rtw_get_ie_def split: if_splits dest: rtw_get_ie_loop_bounds)

definition WPA_OUI_TYPE :: bytes where
  "WPA_OUI_TYPE = [0x00, 0x50, 0xf2, 1]"

function get_wpa_ie_loop :: "bytes \<Rightarrow> nat \<Rightarrow> int \<Rightarrow> nat \<Rightarrow> int \<Rightarrow> (nat option \<times> int) option" where
  "get_wpa_ie_loop buf pie limit pbuf limit_new =
     (case rtw_get_ie buf pbuf 0xdd 0 limit_new of
        None \<Rightarrow> None
      | Some (None, len) \<Rightarrow> Some (None, 0)
      | Some (Some q, len) \<Rightarrow> do {
          oui \<leftarrow> rd_block buf (q + 2) 4;
          version \<leftarrow> (if oui = WPA_OUI_TYPE then map_option (\<lambda>v. v = [1, 0]) (rd_block buf (q + 6) 2) else Some False);
          if version then Some (Some q, uint (buf ! (q + 1)))
          else let limit_new' = limit - int (q - pie) - 2 - len in
            if limit_new' \<le> 0 then Some (None, 0)
            else get_wpa_ie_loop buf pie limit (q + nat (2 + len)) limit_new' })"
  by pat_completeness auto
termination
  by (relation "measure (\<lambda>(buf, pie, limit, pbuf, limit_new). length buf - pbuf)")
    (auto dest!: rtw_get_ie_bounds simp: nat_add_distrib)

declare get_wpa_ie_loop.simps [simp del]

definition rtw_get_wpa_ie :: "bytes \<Rightarrow> nat \<Rightarrow> int \<Rightarrow> (nat option \<times> int) option" where
  "rtw_get_wpa_ie buf pie limit = get_wpa_ie_loop buf pie limit pie limit"

definition rtw_get_wpa2_ie :: "bytes \<Rightarrow> nat \<Rightarrow> int \<Rightarrow> int \<Rightarrow> (nat option \<times> int) option" where
  "rtw_get_wpa2_ie buf pie len0 limit = rtw_get_ie buf pie 0x30 len0 limit"

definition wpa_hit :: "element \<Rightarrow> bool" where
  "wpa_hit e = (fst e = 0xdd \<and> take 6 (snd e) = WPA_OUI_TYPE @ [1, 0])"

definition wpa_ok :: "element \<Rightarrow> bool" where
  "wpa_ok e = (ie_ok e \<and> (fst e = 0xdd \<longrightarrow> 4 \<le> length (snd e) \<and>
     (take 4 (snd e) = WPA_OUI_TYPE \<longrightarrow> 6 \<le> length (snd e))))"

lemma get_wpa_ie_loop_shift:
  "pie \<le> pbuf \<Longrightarrow> get_wpa_ie_loop buf pie limit pbuf ln = get_wpa_ie_loop buf 0 (limit + int pie) pbuf ln"
proof (induction buf pie limit pbuf ln rule: get_wpa_ie_loop.induct)
  case (1 buf pie limit pbuf ln)
  show ?case
  proof (cases "rtw_get_ie buf pbuf 0xdd 0 ln")
    case None
    then show ?thesis by (simp add: get_wpa_ie_loop.simps)
  next
    case (Some r)
    obtain qo len where r: "r = (qo, len)" by (cases r)
    show ?thesis
    proof (cases qo)
      case None
      with Some r show ?thesis by (simp add: get_wpa_ie_loop.simps)
    next
      case (Some q)
      note get = \<open>rtw_get_ie buf pbuf 0xdd 0 ln = Some r\<close> [unfolded r Some]
      have q: "pie \<le> q" "pbuf \<le> q + nat (2 + len)" using rtw_get_ie_bounds [OF get] "1.prems" by simp_all
      then have l: "limit + int pie - int (q - 0) - 2 - len = limit - int (q - pie) - 2 - len"
        by (simp add: of_nat_diff)
      show ?thesis
        apply (rule trans [OF get_wpa_ie_loop.simps])
        apply (rule trans [OF _ get_wpa_ie_loop.simps [symmetric]])
        unfolding get option.case prod.case Let_def l
        apply (intro Option.bind_cong if_cong refl)
        apply (rule "1.IH" [OF get refl refl])
        using q "1.prems" by auto
    qed
  qed
qed

definition get_wpa_walk :: "bytes \<Rightarrow> nat \<Rightarrow> nat \<Rightarrow> (nat option \<times> int) option" where
  "get_wpa_walk buf off lim =
     (if lim \<le> off then Some (None, 0) else get_wpa_ie_loop buf 0 (int lim) off (int lim - int off))"

lemma get_wpa_walk_unfold:
  "get_wpa_walk buf off lim = (case get_ie_walk 0xdd buf off lim of
     None \<Rightarrow> None
   | Some (None, len) \<Rightarrow> Some (None, 0)
   | Some (Some q, len) \<Rightarrow> do {
       oui \<leftarrow> rd_block buf (q + 2) 4;
       version \<leftarrow> (if oui = WPA_OUI_TYPE then map_option (\<lambda>v. v = [1, 0]) (rd_block buf (q + 6) 2) else Some False);
       if version then Some (Some q, uint (buf ! (q + 1))) else get_wpa_walk buf (q + nat (2 + len)) lim })"
  (is "_ = ?r")
proof (cases "off < lim")
  case True
  have get: "rtw_get_ie buf off 0xdd 0 (int lim - int off) = get_ie_walk 0xdd buf off lim"
    using True by (simp add: rtw_get_ie_def get_ie_walk_def)
  have rest: "(let l' = int lim - int (q - 0) - 2 - len in
      if l' \<le> 0 then Some (None, 0) else get_wpa_ie_loop buf 0 (int lim) (q + nat (2 + len)) l') =
      get_wpa_walk buf (q + nat (2 + len)) lim"
    if "get_ie_walk 0xdd buf off lim = Some (Some q, len)" for q len
  proof -
    have "0 \<le> len" using rtw_get_ie_bounds [of buf off "0xdd" 0 "int lim - int off" q len] that get by simp
    then obtain n where n: "len = int n" by (rule nonneg_int_cases)
    have m: "nat (2 + int n) = n + 2" by simp
    show ?thesis unfolding n m by (auto simp: get_wpa_walk_def Let_def algebra_simps)
  qed
  have "get_wpa_walk buf off lim = get_wpa_ie_loop buf 0 (int lim) off (int lim - int off)"
    using True by (simp add: get_wpa_walk_def)
  also have "\<dots> = ?r"
  proof (cases "get_ie_walk 0xdd buf off lim")
    case (Some r)
    then obtain qo len where r: "get_ie_walk 0xdd buf off lim = Some (qo, len)" by (cases r) simp
    show ?thesis
    proof (cases qo)
      case None
      then show ?thesis by (subst get_wpa_ie_loop.simps) (simp add: get r)
    next
      case (Some q)
      show ?thesis
        unfolding get_wpa_ie_loop.simps [of buf 0 "int lim" off] get r option.case prod.case Some
          rest [OF r [unfolded Some]] ..
    qed
  qed (simp add: get get_wpa_ie_loop.simps)
  finally show ?thesis .
qed (simp add: get_wpa_walk_def get_ie_walk_def)

lemma take6_WPA: "6 \<le> length d \<Longrightarrow> take 6 d = WPA_OUI_TYPE @ [1, 0] \<longleftrightarrow> take 4 d = WPA_OUI_TYPE \<and> seg d 4 2 = [1, 0]"
proof -
  assume "6 \<le> length d"
  then have "length (take 4 d) = length WPA_OUI_TYPE" by (simp add: WPA_OUI_TYPE_def)
  moreover have "take 6 d = take 4 d @ seg d 4 2" using take_add [of 4 2 d] by (simp add: seg_def)
  ultimately show ?thesis by simp
qed

interpretation wpa: tlv_walk elem_bytes wpa_ok wpa_hit "\<lambda>_ _. True" get_wpa_walk
    "\<lambda>k e. Some (Some k, int (length (snd e)))" "Some (None, 0)"
proof
  fix e :: element and off lim :: nat and buf :: bytes
  assume ok: "wpa_ok e" and le: "off + length (elem_bytes e) \<le> lim" and lim: "lim \<le> length buf"
    and eq: "seg buf off (length (elem_bytes e)) = elem_bytes e"
  have b: "off + length (elem_bytes e) \<le> length buf" using le lim by simp
  have k: "ie_ok e" using ok by (simp add: wpa_ok_def)
  note r = ie_read [OF k b eq]
  let ?d = "snd e"
  have dd: "get_wpa_walk buf off lim = (if wpa_hit e then Some (Some off, int (length ?d))
      else get_wpa_walk buf (off + length (elem_bytes e)) lim)" if "fst e = 0xdd"
  proof -
    have n4: "4 \<le> length ?d" "take 4 ?d = WPA_OUI_TYPE \<Longrightarrow> 6 \<le> length ?d"
      using ok that by (simp_all add: wpa_ok_def)
    have "get_ie_walk 0xdd buf off lim = Some (Some off, int (length ?d))"
      using get_ie.walk_hit [OF k TrueI le lim eq, of "0xdd"] that by simp
    moreover have "rd_block buf (off + 2) 4 = Some (take 4 ?d)"
      using r(3) n4(1) b take_seg [of 4 "length ?d" buf "off + 2"] by simp
    moreover have "rd_block buf (off + 6) 2 = Some (seg ?d 4 2)" if "6 \<le> length ?d"
      using r(3) that b seg_seg [of 4 2 "length ?d" buf "off + 2"] by (simp add: add.commute [of off 6])
    moreover have "uint (buf ! Suc off) = int (length ?d)" using r(2) by (metis uint_nat)
    moreover have "nat (2 + int (length ?d)) = length ?d + 2" by simp
    moreover have "take 6 ?d = WPA_OUI_TYPE @ [1, 0] \<Longrightarrow> take 4 ?d = WPA_OUI_TYPE"
      by (drule arg_cong [of _ _ "take 4"]) (simp add: WPA_OUI_TYPE_def)
    ultimately show ?thesis
      using n4 that take6_WPA [of ?d]
      by (subst get_wpa_walk_unfold) (auto simp: wpa_hit_def add.assoc)
  qed
  have other: "get_wpa_walk buf off lim = get_wpa_walk buf (off + length (elem_bytes e)) lim" if "fst e \<noteq> 0xdd"
  proof -
    have "uint (fst e) \<noteq> 221" using that by (simp add: word_uint_eq_iff)
    then have "get_ie_walk 0xdd buf off lim = get_ie_walk 0xdd buf (off + length (elem_bytes e)) lim"
      using get_ie.walk_next [OF k TrueI le lim eq, of "0xdd"] by simp
    then show ?thesis by (simp only: get_wpa_walk_unfold [of buf off] get_wpa_walk_unfold [of buf "off + length (elem_bytes e)"])
  qed
  show "get_wpa_walk buf off lim = Some (Some off, int (length ?d))" if "wpa_hit e"
    using dd that by (simp add: wpa_hit_def)
  show "get_wpa_walk buf off lim = get_wpa_walk buf (off + length (elem_bytes e)) lim" if "\<not> wpa_hit e"
    using dd other that by (cases "fst e = 0xdd") simp_all
qed (simp_all add: get_wpa_walk_def)

lemma rtw_get_wpa_ie_locate:
  assumes "list_all wpa_ok es" and "seg buf p (length (ies_bytes es)) = ies_bytes es"
    and "p + length (ies_bytes es) \<le> length buf"
  shows "rtw_get_wpa_ie buf p (int (length (ies_bytes es))) =
    (case locate elem_bytes wpa_hit p es of
       None \<Rightarrow> Some (None, 0) | Some (k, e) \<Rightarrow> Some (Some k, int (length (snd e))))"
proof (cases "es = []")
  case True
  then show ?thesis by (simp add: rtw_get_wpa_ie_def get_wpa_ie_loop.simps rtw_get_ie_def)
next
  case False
  then have "0 < length (ies_bytes es)" by (cases es) auto
  then have "rtw_get_wpa_ie buf p (int (length (ies_bytes es))) =
      get_wpa_walk buf p (p + length (ies_bytes es))"
    using get_wpa_ie_loop_shift [of p p] by (simp add: rtw_get_wpa_ie_def get_wpa_walk_def add.commute)
  also have "\<dots> = wpa.answer (locate elem_bytes wpa_hit p es)"
    using assms by (intro wpa.walk_locate) (simp_all add: ies_bytes_def)
  finally show ?thesis by (simp only: wpa.answer_def)
qed

section \<open>Cipher suites\<close>

text \<open>The bits \<open>WPA_CIPHER_NONE\<close>, \<open>WEP40\<close>, \<open>WEP104\<close>, \<open>TKIP\<close> and \<open>CCMP\<close>.\<close>

definition rtw_get_wpa_cipher_suite :: "bytes \<Rightarrow> int" where
  "rtw_get_wpa_cipher_suite s =
     (if s = [0x00, 0x50, 0xf2, 0] then 1 else if s = [0x00, 0x50, 0xf2, 1] then 2
      else if s = [0x00, 0x50, 0xf2, 2] then 8 else if s = [0x00, 0x50, 0xf2, 4] then 16
      else if s = [0x00, 0x50, 0xf2, 5] then 4 else 0)"

definition rtw_get_wpa2_cipher_suite :: "bytes \<Rightarrow> int" where
  "rtw_get_wpa2_cipher_suite s =
     (if s = [0x00, 0x0f, 0xac, 0] then 1 else if s = [0x00, 0x0f, 0xac, 1] then 2
      else if s = [0x00, 0x0f, 0xac, 2] then 8 else if s = [0x00, 0x0f, 0xac, 4] then 16
      else if s = [0x00, 0x0f, 0xac, 5] then 4 else 0)"

text \<open>The integers the callers pass by reference; \<open>is_8021x\<close> may be a null pointer.\<close>

record cipher_info =
  group_cipher :: int
  pairwise_cipher :: int
  is_8021x :: "int option"

primrec pairwise_loop :: "(bytes \<Rightarrow> int) \<Rightarrow> bytes \<Rightarrow> nat \<Rightarrow> nat \<Rightarrow> int \<Rightarrow> int option" where
  "pairwise_loop suite buf pos 0 acc = Some acc"
| "pairwise_loop suite buf pos (Suc n) acc = do {
     s \<leftarrow> rd_block buf pos 4;
     pairwise_loop suite buf (pos + 4) n (acc OR suite s) }"

text \<open>From the group cipher on, the two parsers run the same code over \<open>left\<close> bytes at \<open>pos\<close>,
  with their own suites.\<close>

definition parse_key_mgmt :: "bytes \<Rightarrow> bytes \<Rightarrow> nat \<Rightarrow> int \<Rightarrow> cipher_info \<Rightarrow> (result \<times> cipher_info) option" where
  "parse_key_mgmt suite_1x buf pos left c =
     (case is_8021x c of
        None \<Rightarrow> Some (Success, c)
      | Some _ \<Rightarrow>
        if 6 \<le> left then do {
          s \<leftarrow> rd_block buf (pos + 2) 4;
          Some (Success, if s = suite_1x then c\<lparr>is_8021x := Some 1\<rparr> else c) }
        else Some (Success, c))"

definition parse_pairwise :: "(bytes \<Rightarrow> int) \<Rightarrow> bytes \<Rightarrow> bytes \<Rightarrow> nat \<Rightarrow> int \<Rightarrow> cipher_info
    \<Rightarrow> (result \<times> cipher_info) option" where
  "parse_pairwise suite suite_1x buf pos left c =
     (if 2 \<le> left then do {
        b \<leftarrow> rd_block buf pos 2;
        let count = unat (le16 (b ! 0) (b ! 1));
        if count = 0 \<or> left - 2 < int count * 4 then Some (Fail, c)
        else do {
          pw \<leftarrow> pairwise_loop suite buf (pos + 2) count (pairwise_cipher c);
          parse_key_mgmt suite_1x buf (pos + 2 + count * 4) (left - 2 - int count * 4)
            (c\<lparr>pairwise_cipher := pw\<rparr>) } }
      else if left = 1 then Some (Fail, c)
      else parse_key_mgmt suite_1x buf pos left c)"

definition parse_group :: "(bytes \<Rightarrow> int) \<Rightarrow> bytes \<Rightarrow> bytes \<Rightarrow> nat \<Rightarrow> int \<Rightarrow> cipher_info
    \<Rightarrow> (result \<times> cipher_info) option" where
  "parse_group suite suite_1x buf pos left c =
     (if 4 \<le> left then do {
        s \<leftarrow> rd_block buf pos 4;
        parse_pairwise suite suite_1x buf (pos + 4) (left - 4) (c\<lparr>group_cipher := suite s\<rparr>) }
      else if 0 < left then Some (Fail, c)
      else parse_pairwise suite suite_1x buf pos left c)"

definition rtw_parse_wpa_ie :: "bytes \<Rightarrow> nat \<Rightarrow> int \<Rightarrow> cipher_info \<Rightarrow> (result \<times> cipher_info) option" where
  "rtw_parse_wpa_ie buf wpa_ie wpa_ie_len c =
     (if wpa_ie_len \<le> 0 then Some (Fail, c)
      else do {
        eid \<leftarrow> rd buf wpa_ie;
        bad \<leftarrow> (if eid \<noteq> 0xdd then Some True
                else do {
                  l \<leftarrow> rd buf (wpa_ie + 1);
                  if l \<noteq> of_int (wpa_ie_len - 2) then Some True
                  else map_option (\<lambda>s. s \<noteq> WPA_OUI_TYPE) (rd_block buf (wpa_ie + 2) 4) });
        if bad then Some (Fail, c)
        else parse_group rtw_get_wpa_cipher_suite [0x00, 0x50, 0xf2, 1] buf (wpa_ie + 8) (wpa_ie_len - 8) c })"

definition rtw_parse_wpa2_ie :: "bytes \<Rightarrow> nat \<Rightarrow> int \<Rightarrow> cipher_info \<Rightarrow> (result \<times> cipher_info) option" where
  "rtw_parse_wpa2_ie buf rsn_ie rsn_ie_len c =
     (if rsn_ie_len \<le> 0 then Some (Fail, c)
      else do {
        eid \<leftarrow> rd buf rsn_ie;
        bad \<leftarrow> (if eid \<noteq> 0x30 then Some True
                else map_option (\<lambda>l. l \<noteq> of_int (rsn_ie_len - 2)) (rd buf (rsn_ie + 1)));
        if bad then Some (Fail, c)
        else parse_group rtw_get_wpa2_cipher_suite [0x00, 0x0f, 0xac, 0x01] buf (rsn_ie + 4) (rsn_ie_len - 4) c })"

text \<open>An element as the standard lays it out: the version, the group suite, and two counted lists
  of suites, for the pairwise ciphers and for the key management.\<close>

definition suites_bytes :: "bytes list \<Rightarrow> bytes" where
  "suites_bytes ss = put_le16 (of_nat (length ss)) @ concat ss"

definition rsn_body :: "bytes \<Rightarrow> bytes \<Rightarrow> bytes list \<Rightarrow> bytes list \<Rightarrow> bytes \<Rightarrow> bytes" where
  "rsn_body version gsuite pw akm rest = version @ gsuite @ suites_bytes pw @ suites_bytes akm @ rest"

lemma le16_put: "le16 (put_le16 v ! 0) (put_le16 v ! 1) = v"
  by (simp add: put_le16_def le16_def) (rule bit_word_eqI, auto simp: bit_simps)

lemma pairwise_loop_fold:
  "\<forall>s\<in>set ss. length s = 4 \<Longrightarrow> seg buf pos (4 * length ss) = concat ss \<Longrightarrow> pos + 4 * length ss \<le> length buf \<Longrightarrow>
   pairwise_loop suite buf pos (length ss) acc = Some (fold (\<lambda>s a. a OR suite s) ss acc)"
proof (induction ss arbitrary: pos acc)
  case (Cons s ss)
  have l: "length (concat ss) = 4 * length ss" using Cons.prems(1) by (induction ss) auto
  have "seg buf pos (length (s @ concat ss)) = s @ concat ss" using Cons.prems(1,2) l by simp
  note split = seg_app_split [OF this]
  have "rd_block buf pos 4 = Some s" using split(1) Cons.prems(1,3) by simp
  moreover have "pairwise_loop suite buf (pos + 4) (length ss) (acc OR suite s) =
      Some (fold (\<lambda>s a. a OR suite s) ss (acc OR suite s))"
    using Cons.prems split(2) l by (intro Cons.IH) simp_all
  ultimately show ?case by simp
qed simp

definition parsed_cipher :: "(bytes \<Rightarrow> int) \<Rightarrow> bytes \<Rightarrow> bytes \<Rightarrow> bytes list \<Rightarrow> bytes list \<Rightarrow> cipher_info \<Rightarrow> cipher_info" where
  "parsed_cipher suite suite_1x gsuite pw akm c =
     \<lparr>group_cipher = suite gsuite, pairwise_cipher = fold (\<lambda>s a. a OR suite s) pw (pairwise_cipher c),
      is_8021x = map_option (\<lambda>x. if hd akm = suite_1x then 1 else x) (is_8021x c)\<rparr>"

lemma length_concat4: "\<forall>s\<in>set ss. length s = 4 \<Longrightarrow> length (concat ss) = 4 * length ss"
  by (induction ss) auto

lemma parse_key_mgmt_ok:
  assumes "seg buf pos (length (suites_bytes akm @ rest)) = suites_bytes akm @ rest"
    and "pos + length (suites_bytes akm @ rest) \<le> length buf" and "akm \<noteq> []" and "\<forall>s\<in>set akm. length s = 4"
  shows "parse_key_mgmt suite_1x buf pos (int (length (suites_bytes akm @ rest))) c =
    Some (Success, c\<lparr>is_8021x := map_option (\<lambda>x. if hd akm = suite_1x then 1 else x) (is_8021x c)\<rparr>)"
proof -
  obtain a as where akm: "akm = a # as" using assms(3) by (cases akm) simp
  have a: "length a = 4" using assms(4) akm by simp
  let ?n = "put_le16 (of_nat (length akm))"
  have l: "length ?n = 2" by (simp add: put_le16_def)
  have e: "suites_bytes akm @ rest = (?n @ a) @ (concat as @ rest)" by (simp add: suites_bytes_def akm)
  have "drop 2 (seg buf pos (length (?n @ a))) = a" using seg_app_split(1) [OF assms(1) [unfolded e]] l by simp
  then have s: "seg buf (pos + 2) 4 = a" using l a by (simp add: drop_seg)
  have len: "6 \<le> length (suites_bytes akm @ rest)" using l a unfolding e by simp
  then have "rd_block buf (pos + 2) 4 = Some a" using s assms(2) by simp
  then show ?thesis
    using len akm by (cases "is_8021x c") (simp_all add: parse_key_mgmt_def)
qed

lemma parse_group_ok:
  assumes "seg buf pos (length (rsn_body [] g pw akm rest)) = rsn_body [] g pw akm rest"
    and "pos + length (rsn_body [] g pw akm rest) \<le> length buf" and "length (rsn_body [] g pw akm rest) < 256"
    and "length g = 4" and "pw \<noteq> []" and "akm \<noteq> []" and "\<forall>s\<in>set (pw @ akm). length s = 4"
  shows "parse_group suite suite_1x buf pos (int (length (rsn_body [] g pw akm rest))) c =
    Some (Success, parsed_cipher suite suite_1x g pw akm c)"
proof -
  let ?tail = "suites_bytes akm @ rest" and ?n = "put_le16 (of_nat (length pw))"
  have l2: "length ?n = 2" by (simp add: put_le16_def)
  have lp: "length (concat pw) = 4 * length pw" using assms(7) by (intro length_concat4) simp
  have e: "rsn_body [] g pw akm rest = g @ (?n @ (concat pw @ ?tail))" by (simp add: rsn_body_def suites_bytes_def)
  have len: "length (rsn_body [] g pw akm rest) = 4 + (2 + (4 * length pw + length ?tail))"
    unfolding e using l2 lp assms(4) by simp
  note s0 = seg_app_split [OF assms(1) [unfolded e]]
  note s1 = seg_app_split [OF s0(2)]
  note s2 = seg_app_split [OF s1(2)]
  have b: "pos + 4 + 2 + 4 * length pw + length ?tail \<le> length buf" using assms(2) len by simp
  have g: "rd_block buf pos 4 = Some g" using s0(1) assms(4) b by simp
  have n: "rd_block buf (pos + 4) 2 = Some ?n" using s1(1) assms(4) l2 b by simp
  have count: "unat (le16 (?n ! 0) (?n ! 1)) = length pw"
    unfolding le16_put using assms(3) len by (simp add: unat_of_nat)
  let ?c1 = "c\<lparr>group_cipher := suite g\<rparr>"
  let ?f = "fold (\<lambda>s a. a OR suite s) pw (pairwise_cipher c)"
  have pl: "pairwise_loop suite buf (pos + 4 + 2) (length pw) (pairwise_cipher ?c1) = Some ?f"
    using pairwise_loop_fold [of pw buf "pos + 4 + 2" suite "pairwise_cipher ?c1"] s2(1) assms(4,7) l2 lp b by simp
  have km: "parse_key_mgmt suite_1x buf (pos + 4 + 2 + length pw * 4) (int (length ?tail)) (?c1\<lparr>pairwise_cipher := ?f\<rparr>) =
      Some (Success, ?c1\<lparr>pairwise_cipher := ?f,
        is_8021x := map_option (\<lambda>x. if hd akm = suite_1x then 1 else x) (is_8021x c)\<rparr>)"
    using parse_key_mgmt_ok [of buf "pos + 4 + 2 + length pw * 4" akm rest suite_1x "?c1\<lparr>pairwise_cipher := ?f\<rparr>"]
      s2(2) assms(4,6,7) l2 lp b by (simp add: mult.commute)
  have left: "int (length (rsn_body [] g pw akm rest)) - 4 = int (2 + (4 * length pw + length ?tail))"
    unfolding len by simp
  have left2: "int (2 + (4 * length pw + length ?tail)) - 2 - int (length pw) * 4 = int (length ?tail)" by simp
  have big: "\<not> (length pw = 0 \<or> int (2 + (4 * length pw + length ?tail)) - 2 < int (length pw) * 4)"
    using assms(5) by simp
  have pp: "parse_pairwise suite suite_1x buf (pos + 4) (int (2 + (4 * length pw + length ?tail))) ?c1 =
      Some (Success, parsed_cipher suite suite_1x g pw akm c)"
  proof -
    have two: "2 \<le> int (2 + (4 * length pw + length ?tail))" by simp
    have "parse_pairwise suite suite_1x buf (pos + 4) (int (2 + (4 * length pw + length ?tail))) ?c1 =
        Some (Success, ?c1\<lparr>pairwise_cipher := ?f,
          is_8021x := map_option (\<lambda>x. if hd akm = suite_1x then 1 else x) (is_8021x c)\<rparr>)"
      unfolding parse_pairwise_def if_P [OF two] n Option.bind.bind_lunit Let_def count if_not_P [OF big] left2 pl km ..
    then show ?thesis by (simp add: parsed_cipher_def)
  qed
  have "4 \<le> int (length (rsn_body [] g pw akm rest))" unfolding len by simp
  then show ?thesis unfolding parse_group_def left by (simp only: if_P g Option.bind.bind_lunit pp)
qed

text \<open>Both parsers read back the elements the standard describes.\<close>

lemma parse_wpa2_ie_ok:
  assumes "seg buf p (length (elem_bytes (0x30, rsn_body [1, 0] g pw akm rest))) = elem_bytes (0x30, rsn_body [1, 0] g pw akm rest)"
    and "p + length (elem_bytes (0x30, rsn_body [1, 0] g pw akm rest)) \<le> length buf"
    and "length (rsn_body [1, 0] g pw akm rest) < 256"
    and "length g = 4" and "pw \<noteq> []" and "akm \<noteq> []" and "\<forall>s\<in>set (pw @ akm). length s = 4"
  shows "rtw_parse_wpa2_ie buf p (int (length (rsn_body [1, 0] g pw akm rest)) + 2) c =
    Some (Success, parsed_cipher rtw_get_wpa2_cipher_suite [0x00, 0x0f, 0xac, 0x01] g pw akm c)"
proof -
  let ?d = "rsn_body [1, 0] g pw akm rest" and ?r = "rsn_body [] g pw akm rest"
  have d: "?d = [1, 0] @ ?r" by (simp add: rsn_body_def)
  have ok: "ie_ok (0x30, ?d)" using assms(3) by (simp add: ie_ok_def)
  note r = ie_read [OF ok assms(2,1), simplified]
  have b: "p + 2 + length ?d \<le> length buf" using assms(2) by simp
  have "seg buf (p + 2) (length ([1, 0] @ ?r)) = [1, 0] @ ?r" using r(3) unfolding d [symmetric] by simp
  from seg_app_split(2) [OF this] have s: "seg buf (p + 4) (length ?r) = ?r"
    by (simp add: numeral_eq_Suc)
  have g: "parse_group rtw_get_wpa2_cipher_suite [0x00, 0x0f, 0xac, 0x01] buf (p + 4) (int (length ?r)) c =
      Some (Success, parsed_cipher rtw_get_wpa2_cipher_suite [0x00, 0x0f, 0xac, 0x01] g pw akm c)"
    using assms b by (intro parse_group_ok s) (simp_all add: d)
  have "(of_nat (length ?d) :: u8) = buf ! Suc p" using r(2) by (metis of_nat_unat ucast_id)
  then have l: "(of_int (int (length ?d) + 2 - 2) :: u8) = buf ! Suc p" by simp
  have rds: "rd buf p = Some 0x30" "rd buf (p + 1) = Some (buf ! Suc p)" using r(1) b by simp_all
  have left: "int (length ?d) + 2 - 4 = int (length ?r)" by (simp add: d)
  show ?thesis
    unfolding rtw_parse_wpa2_ie_def rds l left using g by simp
qed

lemma parse_wpa_ie_ok:
  assumes "seg buf p (length (elem_bytes (0xdd, WPA_OUI_TYPE @ rsn_body [1, 0] g pw akm rest))) =
      elem_bytes (0xdd, WPA_OUI_TYPE @ rsn_body [1, 0] g pw akm rest)"
    and "p + length (elem_bytes (0xdd, WPA_OUI_TYPE @ rsn_body [1, 0] g pw akm rest)) \<le> length buf"
    and "length (WPA_OUI_TYPE @ rsn_body [1, 0] g pw akm rest) < 256"
    and "length g = 4" and "pw \<noteq> []" and "akm \<noteq> []" and "\<forall>s\<in>set (pw @ akm). length s = 4"
  shows "rtw_parse_wpa_ie buf p (int (length (WPA_OUI_TYPE @ rsn_body [1, 0] g pw akm rest)) + 2) c =
    Some (Success, parsed_cipher rtw_get_wpa_cipher_suite [0x00, 0x50, 0xf2, 1] g pw akm c)"
proof -
  let ?d = "WPA_OUI_TYPE @ rsn_body [1, 0] g pw akm rest" and ?r = "rsn_body [] g pw akm rest"
  have d: "?d = WPA_OUI_TYPE @ ([1, 0] @ ?r)" by (simp add: rsn_body_def)
  have w4: "length WPA_OUI_TYPE = 4" by (simp add: WPA_OUI_TYPE_def)
  have ok: "ie_ok (0xdd, ?d)" using assms(3) by (simp add: ie_ok_def)
  note r = ie_read [OF ok assms(2,1), unfolded fst_conv snd_conv]
  have b: "p + 2 + length ?d \<le> length buf" using assms(2) by simp
  have "seg buf (p + 2) (length (WPA_OUI_TYPE @ ([1, 0] @ ?r))) = WPA_OUI_TYPE @ ([1, 0] @ ?r)"
    using r(3) unfolding d [symmetric] .
  note split = seg_app_split [OF this]
  from seg_app_split(2) [OF split(2)] have s: "seg buf (p + 8) (length ?r) = ?r"
    by (simp add: w4 add.commute [of p 8])
  have g: "parse_group rtw_get_wpa_cipher_suite [0x00, 0x50, 0xf2, 1] buf (p + 8) (int (length ?r)) c =
      Some (Success, parsed_cipher rtw_get_wpa_cipher_suite [0x00, 0x50, 0xf2, 1] g pw akm c)"
    using assms b by (intro parse_group_ok s) (simp_all add: d w4)
  have "(of_nat (length ?d) :: u8) = buf ! Suc p" using r(2) by (metis of_nat_unat ucast_id)
  then have l: "(of_int (int (length ?d) + 2 - 2) :: u8) = buf ! Suc p" by simp
  have "rd_block buf (p + 2) 4 = Some WPA_OUI_TYPE" using split(1) b w4 by simp
  moreover have "rd buf p = Some 0xdd" "rd buf (p + 1) = Some (buf ! Suc p)" using r(1) b by simp_all
  moreover have left: "int (length ?d) + 2 - 8 = int (length ?r)" by (simp add: d w4)
  ultimately show ?thesis
    unfolding rtw_parse_wpa_ie_def l using g by simp
qed

section \<open>What a beacon says\<close>

record bcn_info =
  bi_encryp_protocol :: u8
  bi_group_cipher :: int
  bi_pairwise_cipher :: int
  bi_is_8021x :: int
  bi_ht_cap_info :: u16
  bi_ht_info_infos_0 :: u8

record wlan_network =
  wn_network :: wlan_bssid_ex
  wn_BcnInfo :: bcn_info

text \<open>Lengths are unsigned: \<open>IELength - 12\<close> wraps below 12 and is then read as a C \<open>int\<close>.\<close>

definition put_cipher :: "cipher_info \<Rightarrow> wlan_network \<Rightarrow> wlan_network" where
  "put_cipher c n = n\<lparr>wn_BcnInfo := (wn_BcnInfo n)\<lparr>bi_group_cipher := group_cipher c,
     bi_pairwise_cipher := pairwise_cipher c, bi_is_8021x := the (is_8021x c)\<rparr>\<rparr>"

definition cipher0 :: cipher_info where
  "cipher0 = \<lparr>group_cipher = 0, pairwise_cipher = 0, is_8021x = Some 0\<rparr>"

definition keep_parsed :: "wlan_network \<Rightarrow> result \<times> cipher_info \<Rightarrow> result \<times> wlan_network" where
  "keep_parsed n r = (if fst r = Success then (Success, put_cipher (snd r) n) else (Fail, n))"

definition cipher_from_rsn :: "wlan_network \<Rightarrow> int \<Rightarrow> int \<Rightarrow> (result \<times> wlan_network) option" where
  "cipher_from_rsn n len0 limit =
     (let ies = bss_IEs (wn_network n) in
      do {
        (pbuf, rsn_ielen) \<leftarrow> rtw_get_wpa2_ie ies 12 len0 limit;
        case pbuf of
          Some p \<Rightarrow> if 0 < rsn_ielen then map_option (keep_parsed n) (rtw_parse_wpa2_ie ies p (rsn_ielen + 2) cipher0)
                    else Some (Fail, n)
        | None \<Rightarrow> Some (Fail, n) })"

definition rtw_get_cipher_info :: "wlan_network \<Rightarrow> (result \<times> wlan_network) option" where
  "rtw_get_cipher_info n =
     (let ies = bss_IEs (wn_network n); limit = sint (bss_IELength (wn_network n) - 12) in
      do {
        (pbuf, wpa_ielen) \<leftarrow> rtw_get_wpa_ie ies 12 limit;
        case pbuf of
          Some p \<Rightarrow> if 0 < wpa_ielen then map_option (keep_parsed n) (rtw_parse_wpa_ie ies p (wpa_ielen + 2) cipher0)
                    else cipher_from_rsn n wpa_ielen limit
        | None \<Rightarrow> cipher_from_rsn n wpa_ielen limit })"

text \<open>\<open>rtw_get_sec_ie\<close> copies the last WPA and the last RSN element it meets; the lengths it is
  given are kept when there is none.\<close>

definition sec_elem_next :: "bytes \<Rightarrow> nat \<Rightarrow> bytes option \<times> u16 \<times> bytes option \<times> u16
    \<Rightarrow> (nat \<times> bytes option \<times> u16 \<times> bytes option \<times> u16) option" where
  "sec_elem_next in_ie cnt = (\<lambda>(rsn_ie, rsn_len, wpa_ie, wpa_len). do {
     authmode \<leftarrow> rd in_ie cnt;
     wpa \<leftarrow> (if authmode = 0xdd then map_option (\<lambda>s. s = WPA_OUI_TYPE) (rd_block in_ie (cnt + 2) 4) else Some False);
     l \<leftarrow> rd in_ie (cnt + 1);
     if wpa then do {
       wpa_ie' \<leftarrow> copy_out wpa_ie in_ie cnt (unat l + 2);
       Some (cnt + unat l + 2, rsn_ie, rsn_len, wpa_ie', ucast l + 2) }
     else if authmode = 0x30 then do {
       rsn_ie' \<leftarrow> copy_out rsn_ie in_ie cnt (unat l + 2);
       Some (cnt + unat l + 2, rsn_ie', ucast l + 2, wpa_ie, wpa_len) }
     else Some (cnt + unat l + 2, rsn_ie, rsn_len, wpa_ie, wpa_len) })"

lemma sec_elem_next_less: "sec_elem_next in_ie cnt st = Some (cnt', st') \<Longrightarrow> cnt < cnt'"
  by (auto simp: sec_elem_next_def Option.bind_eq_Some_conv split: prod.splits if_splits)

function get_sec_ie_loop :: "bytes \<Rightarrow> nat \<Rightarrow> nat \<Rightarrow> bytes option \<times> u16 \<times> bytes option \<times> u16
    \<Rightarrow> (bytes option \<times> u16 \<times> bytes option \<times> u16) option" where
  "get_sec_ie_loop in_ie in_len cnt st =
     (if cnt < in_len then
        (case sec_elem_next in_ie cnt st of None \<Rightarrow> None
         | Some r \<Rightarrow> get_sec_ie_loop in_ie in_len (fst r) (snd r))
      else Some st)"
  by pat_completeness auto
termination
  by (relation "measure (\<lambda>(in_ie, in_len, cnt, st). in_len - cnt)")
    (auto dest: sec_elem_next_less intro: diff_less_mono2)

declare get_sec_ie_loop.simps [simp del]

definition rtw_get_sec_ie :: "bytes \<Rightarrow> u32 \<Rightarrow> bytes option \<times> u16 \<times> bytes option \<times> u16
    \<Rightarrow> (int \<times> bytes option \<times> u16 \<times> bytes option \<times> u16) option" where
  "rtw_get_sec_ie in_ie in_len st =
     map_option (\<lambda>st'. (uint (fst (snd st')) + uint (snd (snd (snd st'))), st'))
       (get_sec_ie_loop in_ie (unat in_len) 12 st)"

text \<open>\<open>rtw_get_wapi_ie\<close> looks for its OUI four bytes further.\<close>

function get_wapi_ie_loop :: "bytes \<Rightarrow> nat \<Rightarrow> nat \<Rightarrow> bytes option \<times> u16 \<Rightarrow> (bytes option \<times> u16) option" where
  "get_wapi_ie_loop in_ie in_len cnt st =
     (if cnt < in_len then do {
        authmode \<leftarrow> rd in_ie cnt;
        hit \<leftarrow> (if authmode = 68 then map_option (\<lambda>s. s = [0x0, 0x14, 0x72, 0x01] \<or> s = [0x0, 0x14, 0x72, 0x02])
                  (rd_block in_ie (cnt + 6) 4) else Some False);
        l \<leftarrow> rd in_ie (cnt + 1);
        st' \<leftarrow> (if hit then map_option (\<lambda>b. (b, ucast l + 2)) (copy_out (fst st) in_ie cnt (unat l + 2)) else Some st);
        get_wapi_ie_loop in_ie in_len (cnt + unat l + 2) st' }
      else Some st)"
  by pat_completeness auto
termination by (relation "measure (\<lambda>(in_ie, in_len, cnt, st). in_len - cnt)") auto

declare get_wapi_ie_loop.simps [simp del]

definition rtw_get_wapi_ie :: "bytes option \<Rightarrow> u32 \<Rightarrow> bytes option \<Rightarrow> (u16 \<times> bytes option) option" where
  "rtw_get_wapi_ie in_ie in_len wapi_ie = (case in_ie of None \<Rightarrow> Some (0, wapi_ie)
   | Some b \<Rightarrow> if in_len \<le> 0 then Some (0, wapi_ie)
       else map_option (\<lambda>(b, l). (l, b)) (get_wapi_ie_loop b (unat in_len) 12 (wapi_ie, 0)))"

definition BcnInfo_upd :: "(bcn_info \<Rightarrow> bcn_info) \<Rightarrow> wlan_network \<Rightarrow> wlan_network" where
  "BcnInfo_upd f n = n\<lparr>wn_BcnInfo := f (wn_BcnInfo n)\<rparr>"

text \<open>The pointers of the two HT elements are read through structures: the capability word are the
  first two bytes of the body, \<open>infos[0]\<close> is its second byte.\<close>

definition bcn_protocol :: "wlan_network \<Rightarrow> wlan_network option" where
  "bcn_protocol n = do {
     b \<leftarrow> rd_block (bss_IEs (wn_network n)) 10 2;
     let bencrypt = (le16 (b ! 0) (b ! 1) AND 0x10 \<noteq> 0);
     let n1 = (if bencrypt then n\<lparr>wn_network := (wn_network n)\<lparr>bss_Privacy := 1\<rparr>\<rparr>
               else BcnInfo_upd (bi_encryp_protocol_update (\<lambda>_. 0)) n);
     (_, _, rsn_len, _, wpa_len) \<leftarrow> rtw_get_sec_ie (bss_IEs (wn_network n1)) (bss_IELength (wn_network n1)) (None, 0, None, 0);
     Some (if 0 < rsn_len then BcnInfo_upd (bi_encryp_protocol_update (\<lambda>_. 3)) n1
           else if 0 < wpa_len then BcnInfo_upd (bi_encryp_protocol_update (\<lambda>_. 2)) n1
           else if bencrypt then BcnInfo_upd (bi_encryp_protocol_update (\<lambda>_. 1)) n1 else n1) }"

definition bcn_ht_cap :: "wlan_network \<Rightarrow> wlan_network option" where
  "bcn_ht_cap n =
     (let ies = bss_IEs (wn_network n); limit = sint (bss_IELength (wn_network n) - 12) in
      do {
        (p, len) \<leftarrow> rtw_get_ie ies 12 45 0 limit;
        case p of
          Some q \<Rightarrow> if 0 < len then map_option (\<lambda>b. BcnInfo_upd (bi_ht_cap_info_update (\<lambda>_. le16 (b ! 0) (b ! 1))) n)
                                  (rd_block ies (q + 2) 2)
                    else Some (BcnInfo_upd (bi_ht_cap_info_update (\<lambda>_. 0)) n)
        | None \<Rightarrow> Some (BcnInfo_upd (bi_ht_cap_info_update (\<lambda>_. 0)) n) })"

definition bcn_ht_info :: "wlan_network \<Rightarrow> wlan_network option" where
  "bcn_ht_info n =
     (let ies = bss_IEs (wn_network n); limit = sint (bss_IELength (wn_network n) - 12) in
      do {
        (p, len) \<leftarrow> rtw_get_ie ies 12 61 0 limit;
        case p of
          Some q \<Rightarrow> if 0 < len then map_option (\<lambda>v. BcnInfo_upd (bi_ht_info_infos_0_update (\<lambda>_. v)) n) (rd ies (q + 3))
                    else Some (BcnInfo_upd (bi_ht_info_infos_0_update (\<lambda>_. 0)) n)
        | None \<Rightarrow> Some (BcnInfo_upd (bi_ht_info_infos_0_update (\<lambda>_. 0)) n) })"

definition rtw_get_bcn_info :: "wlan_network \<Rightarrow> wlan_network option" where
  "rtw_get_bcn_info n = do {
     n1 \<leftarrow> bcn_protocol n;
     (_, n2) \<leftarrow> rtw_get_cipher_info n1;
     n3 \<leftarrow> bcn_ht_cap n2;
     bcn_ht_info n3 }"

section \<open>Networks made of elements\<close>

definition wpa4 :: "element \<Rightarrow> bool" where
  "wpa4 e = (fst e = 0xdd \<and> take 4 (snd e) = WPA_OUI_TYPE)"

lemma sec_elem_next_elem:
  assumes "wpa_ok e" and "off + length (elem_bytes e) \<le> length buf" and "seg buf off (length (elem_bytes e)) = elem_bytes e"
  shows "sec_elem_next buf off (None, r, None, w) = Some (off + length (elem_bytes e),
    if wpa4 e then (None, r, None, of_nat (length (elem_bytes e)))
    else if fst e = 0x30 then (None, of_nat (length (elem_bytes e)), None, w) else (None, r, None, w))"
proof -
  let ?d = "snd e"
  have k: "ie_ok e" using assms(1) by (simp add: wpa_ok_def)
  note rr = ie_read [OF k assms(2,3)]
  have rds: "rd buf off = Some (fst e)" "rd buf (off + 1) = Some (buf ! Suc off)" using assms(2) rr(1) by simp_all
  have l: "(ucast (buf ! Suc off) :: u16) + 2 = of_nat (length (elem_bytes e))"
  proof -
    have "(ucast (buf ! Suc off) :: u16) = of_nat (unat (buf ! Suc off))" by simp
    then show ?thesis using rr(2) by simp
  qed
  have o: "rd_block buf (off + 2) 4 = Some (take 4 ?d)" if "fst e = 0xdd"
  proof -
    have "4 \<le> length ?d" using assms(1) that by (simp add: wpa_ok_def)
    then show ?thesis using rr(3) assms(2) take_seg [of 4 "length ?d" buf "off + 2"] by simp
  qed
  have w: "(if fst e = 0xdd then map_option (\<lambda>s. s = WPA_OUI_TYPE) (rd_block buf (off + 2) 4) else Some False) = Some (wpa4 e)"
    using o by (simp add: wpa4_def)
  show ?thesis
    unfolding sec_elem_next_def prod.case rds Option.bind.bind_lunit w l rr(2)
    by (simp add: copy_out_def wpa4_def add.assoc)
qed

lemma get_sec_ie_loop_elems:
  assumes "list_all wpa_ok es" and "seg buf off (length (ies_bytes es)) = ies_bytes es"
    and "lim = off + length (ies_bytes es)" and "lim \<le> length buf"
  shows "\<exists>r' w'. get_sec_ie_loop buf lim off (None, r, None, w) = Some (None, r', None, w') \<and>
    (r' = 0 \<longleftrightarrow> r = 0 \<and> (\<forall>e\<in>set es. fst e \<noteq> 0x30)) \<and> (w' = 0 \<longleftrightarrow> w = 0 \<and> (\<forall>e\<in>set es. \<not> wpa4 e))"
  using assms
proof (induction es arbitrary: off r w)
  case Nil
  then show ?case by (simp add: get_sec_ie_loop.simps)
next
  case (Cons e es)
  have ok: "wpa_ok e" using Cons.prems(1) by simp
  have "seg buf off (length (elem_bytes e @ ies_bytes es)) = elem_bytes e @ ies_bytes es"
    using Cons.prems(2) by simp
  note split = seg_app_split [OF this]
  have b: "off + length (elem_bytes e) \<le> length buf" "off < lim" using Cons.prems(3,4) by simp_all
  have nz: "(of_nat (length (elem_bytes e)) :: u16) \<noteq> 0"
  proof
    assume z: "(of_nat (length (elem_bytes e)) :: u16) = 0"
    have "length (elem_bytes e) < 258" using ok by (simp add: wpa_ok_def ie_ok_def)
    then have "unat (of_nat (length (elem_bytes e)) :: u16) = length (elem_bytes e)" by (intro unat_of_nat_len) simp
    then show False using z by simp
  qed
  obtain r1 w1 where n: "sec_elem_next buf off (None, r, None, w) = Some (off + length (elem_bytes e), None, r1, None, w1)"
    and z: "r1 = 0 \<longleftrightarrow> r = 0 \<and> fst e \<noteq> 0x30" "w1 = 0 \<longleftrightarrow> w = 0 \<and> \<not> wpa4 e"
    using sec_elem_next_elem [OF ok b(1) split(1), of r w] nz by (auto simp: wpa4_def split: if_splits)
  have step: "get_sec_ie_loop buf lim off (None, r, None, w) =
      get_sec_ie_loop buf lim (off + length (elem_bytes e)) (None, r1, None, w1)"
    using b(2) n by (subst get_sec_ie_loop.simps) simp
  have IH: "\<exists>r' w'. get_sec_ie_loop buf lim (off + length (elem_bytes e)) (None, r1, None, w1) = Some (None, r', None, w') \<and>
    (r' = 0 \<longleftrightarrow> r1 = 0 \<and> (\<forall>e\<in>set es. fst e \<noteq> 0x30)) \<and> (w' = 0 \<longleftrightarrow> w1 = 0 \<and> (\<forall>e\<in>set es. \<not> wpa4 e))"
    using Cons.prems split(2) by (intro Cons.IH) simp_all
  show ?case using IH unfolding step z by (simp only: list.set ball_simps) blast
qed

text \<open>The network announces these elements behind the twelve fixed bytes.\<close>

definition announces :: "wlan_network \<Rightarrow> element list \<Rightarrow> bool" where
  "announces n es = (let b = wn_network n in
     length (bss_IEs b) = 768 \<and> unat (bss_IELength b) = 12 + length (ies_bytes es) \<and>
     length (ies_bytes es) \<le> 750 \<and> seg (bss_IEs b) 12 (length (ies_bytes es)) = ies_bytes es \<and>
     list_all wpa_ok es)"

lemma announces_limit:
  assumes "announces n es"
  shows "sint (bss_IELength (wn_network n) - 12) = int (length (ies_bytes es))"
proof -
  let ?l = "bss_IELength (wn_network n)" and ?m = "length (ies_bytes es)"
  have u: "unat ?l = 12 + ?m" and m: "?m \<le> 750" using assms by (simp_all add: announces_def Let_def)
  have "?l = 12 + of_nat ?m" using u by (metis of_nat_add of_nat_numeral of_nat_unat ucast_id)
  then have d: "?l - 12 = of_nat ?m" by simp
  show ?thesis unfolding d using m by (simp add: signed_of_nat signed_take_bit_int_eq_self)
qed

lemma announces_cong:
  "wn_network n' = wn_network n \<Longrightarrow> announces n' es = announces n es"
  by (simp add: announces_def)

lemma BcnInfo_upd_network [simp]: "wn_network (BcnInfo_upd f n) = wn_network n"
  by (simp add: BcnInfo_upd_def)

lemma BcnInfo_upd_info [simp]: "wn_BcnInfo (BcnInfo_upd f n) = f (wn_BcnInfo n)"
  by (simp add: BcnInfo_upd_def)

text \<open>The HT fields only change themselves; the lookup of their element never leaves the array.\<close>

lemma announces_get_ie:
  assumes "announces n es" and "es \<noteq> []"
  shows "rtw_get_ie (bss_IEs (wn_network n)) 12 index len0 (sint (bss_IELength (wn_network n) - 12)) =
    (case locate elem_bytes (\<lambda>e. uint (fst e) = index) 12 es of
       None \<Rightarrow> Some (None, 0) | Some (k, e) \<Rightarrow> Some (Some k, int (length (snd e))))"
    and "locate elem_bytes (\<lambda>e. uint (fst e) = index) 12 es = Some (k, e) \<Longrightarrow> k + length (elem_bytes e) \<le> 762"
proof -
  have ok: "list_all ie_ok es" using assms(1) by (auto simp: announces_def Let_def wpa_ok_def list_all_iff)
  show "rtw_get_ie (bss_IEs (wn_network n)) 12 index len0 (sint (bss_IELength (wn_network n) - 12)) =
    (case locate elem_bytes (\<lambda>e. uint (fst e) = index) 12 es of
       None \<Rightarrow> Some (None, 0) | Some (k, e) \<Rightarrow> Some (Some k, int (length (snd e))))"
    unfolding announces_limit [OF assms(1)]
    using assms by (intro rtw_get_ie_locate ok) (simp_all add: announces_def Let_def)
  show "k + length (elem_bytes e) \<le> 762" if loc: "locate elem_bytes (\<lambda>e. uint (fst e) = index) 12 es = Some (k, e)"
  proof -
    obtain us vs where "es = us @ e # vs" "k = 12 + length (ies_bytes us)"
      using locate_SomeD [OF loc] unfolding ies_bytes_def by blast
    then show ?thesis using assms(1) by (simp add: announces_def Let_def)
  qed
qed

lemma bcn_ht_fields:
  assumes "announces n es" and "es \<noteq> []"
  shows "\<exists>v. bcn_ht_cap n = Some (BcnInfo_upd (bi_ht_cap_info_update (\<lambda>_. v)) n)"
    and "\<exists>w. bcn_ht_info n = Some (BcnInfo_upd (bi_ht_info_infos_0_update (\<lambda>_. w)) n)"
proof -
  have l: "length (bss_IEs (wn_network n)) = 768" using assms(1) by (simp add: announces_def Let_def)
  note get = announces_get_ie [OF assms]
  have nonneg: "k + 2 \<le> 762" if "locate elem_bytes (\<lambda>e. uint (fst e) = index) 12 es = Some (k, e)" for k e index
    using get(2) [OF that] by simp
  show "\<exists>v. bcn_ht_cap n = Some (BcnInfo_upd (bi_ht_cap_info_update (\<lambda>_. v)) n)"
  proof (cases "locate elem_bytes (\<lambda>e. uint (fst e) = 45) 12 es")
    case None
    then show ?thesis by (auto simp: bcn_ht_cap_def Let_def get(1))
  next
    case (Some x)
    then obtain k e where x: "locate elem_bytes (\<lambda>e. uint (fst e) = 45) 12 es = Some (k, e)" by (cases x) simp
    have "rd_block (bss_IEs (wn_network n)) (k + 2) 2 = Some (seg (bss_IEs (wn_network n)) (k + 2) 2)"
      using nonneg [OF x] l by simp
    then show ?thesis by (cases "snd e") (auto simp: bcn_ht_cap_def Let_def get(1) x)
  qed
  show "\<exists>w. bcn_ht_info n = Some (BcnInfo_upd (bi_ht_info_infos_0_update (\<lambda>_. w)) n)"
  proof (cases "locate elem_bytes (\<lambda>e. uint (fst e) = 61) 12 es")
    case None
    then show ?thesis by (auto simp: bcn_ht_info_def Let_def get(1))
  next
    case (Some x)
    then obtain k e where x: "locate elem_bytes (\<lambda>e. uint (fst e) = 61) 12 es = Some (k, e)" by (cases x) simp
    have "rd (bss_IEs (wn_network n)) (k + 3) = Some (bss_IEs (wn_network n) ! (k + 3))"
      using nonneg [OF x] l by simp
    then show ?thesis by (cases "snd e") (auto simp: bcn_ht_info_def Let_def get(1) x)
  qed
qed

lemma bcn_protocol_rsn:
  assumes "announces n es" and "\<exists>e\<in>set es. fst e = 0x30"
  shows "\<exists>n'. bcn_protocol n = Some n' \<and> announces n' es \<and> bi_encryp_protocol (wn_BcnInfo n') = 3"
proof -
  let ?b = "bss_IEs (wn_network n)"
  have a: "length ?b = 768" "unat (bss_IELength (wn_network n)) = 12 + length (ies_bytes es)"
    "list_all wpa_ok es" "seg ?b 12 (length (ies_bytes es)) = ies_bytes es" "length (ies_bytes es) \<le> 750"
    using assms(1) by (simp_all add: announces_def Let_def)
  obtain r' w' where "get_sec_ie_loop ?b (12 + length (ies_bytes es)) 12 (None, 0, None, 0) = Some (None, r', None, w')"
    and r': "r' \<noteq> 0"
    using get_sec_ie_loop_elems [OF a(3,4) refl, of 0 0] a(1,5) assms(2) by auto
  then have sec: "rtw_get_sec_ie ?b (bss_IELength (wn_network n)) (None, 0, None, 0) =
      Some (uint r' + uint w', None, r', None, w')"
    by (simp add: rtw_get_sec_ie_def a(2))
  have "rd_block ?b 10 2 = Some (seg ?b 10 2)" using a(1) by simp
  moreover have "0 < r'" using r' by (simp add: word_neq_0_conv)
  ultimately show ?thesis
    using sec assms(1) by (simp add: bcn_protocol_def Let_def announces_def)
qed

lemma cipher_info_rsn:
  assumes "announces n es" and "\<forall>e\<in>set es. \<not> wpa_hit e"
    and "es = us @ (0x30, rsn_body [1, 0] g pw akm rest) # vs" and "\<forall>u\<in>set us. fst u \<noteq> 0x30"
    and "length g = 4" and "pw \<noteq> []" and "akm \<noteq> []" and "\<forall>s\<in>set (pw @ akm). length s = 4"
  shows "rtw_get_cipher_info n =
    Some (Success, put_cipher (parsed_cipher rtw_get_wpa2_cipher_suite [0x00, 0x0f, 0xac, 0x01] g pw akm cipher0) n)"
proof -
  let ?b = "bss_IEs (wn_network n)" and ?e = "(0x30, rsn_body [1, 0] g pw akm rest) :: element"
  have a: "length ?b = 768" "list_all wpa_ok es" "seg ?b 12 (length (ies_bytes es)) = ies_bytes es"
    "length (ies_bytes es) \<le> 750"
    using assms(1) by (simp_all add: announces_def Let_def)
  have "locate elem_bytes wpa_hit 12 es = None" using assms(2) by (simp add: locate_None)
  then have wpa: "rtw_get_wpa_ie ?b 12 (int (length (ies_bytes es))) = Some (None, 0)"
    using rtw_get_wpa_ie_locate [OF a(2,3)] a(1,4) by simp
  have u: "\<forall>u\<in>set us. uint (fst u) \<noteq> 0x30" using assms(4) by (auto simp: word_uint_eq_iff)
  have loc: "locate elem_bytes (\<lambda>e. uint (fst e) = 0x30) 12 es = Some (12 + length (ies_bytes us), ?e)"
    unfolding assms(3) using locate_append [OF u, of elem_bytes 12 "?e # vs"] by (simp add: ies_bytes_def)
  have ne: "es \<noteq> []" using assms(3) by simp
  let ?p = "12 + length (ies_bytes us)"
  have rsn: "rtw_get_wpa2_ie ?b 12 0 (int (length (ies_bytes es))) = Some (Some ?p, int (length (snd ?e)))"
    using announces_get_ie(1) [OF assms(1) ne, of "0x30" 0] loc announces_limit [OF assms(1)]
    by (simp add: rtw_get_wpa2_ie_def)
  have "seg ?b 12 (length (ies_bytes us @ (elem_bytes ?e @ ies_bytes vs))) = ies_bytes us @ (elem_bytes ?e @ ies_bytes vs)"
    using a(3) by (simp add: assms(3))
  from seg_app_split(1) [OF seg_app_split(2) [OF this]] have s: "seg ?b ?p (length (elem_bytes ?e)) = elem_bytes ?e" .
  have bd: "?p + length (elem_bytes ?e) \<le> length ?b" using a(1,4) by (simp add: assms(3))
  have l: "length (rsn_body [1, 0] g pw akm rest) < 256"
    using a(2) by (simp add: assms(3) wpa_ok_def ie_ok_def)
  have "0 < int (length (snd ?e))" by (simp add: rsn_body_def)
  then show ?thesis
    using parse_wpa2_ie_ok [OF s bd l assms(5-8), of cipher0] rsn wpa
    by (simp add: rtw_get_cipher_info_def Let_def announces_limit [OF assms(1)] cipher_from_rsn_def keep_parsed_def)
qed

text \<open>What a scan shows of a WPA2 network is what its beacon says: when a beacon carries an RSN
  element (and no older WPA element), \<open>rtw_get_bcn_info\<close> records WPA2, the group cipher, all pairwise
  ciphers, and whether the first key management suite is 802.1X.\<close>

lemma bcn_info_of_wpa2_network:
  assumes "announces n es" and "\<forall>e\<in>set es. \<not> wpa_hit e"
    and "es = us @ (0x30, rsn_body [1, 0] g pw akm rest) # vs" and "\<forall>u\<in>set us. fst u \<noteq> 0x30"
    and "length g = 4" and "pw \<noteq> []" and "akm \<noteq> []" and "\<forall>s\<in>set (pw @ akm). length s = 4"
  shows "\<exists>n'. rtw_get_bcn_info n = Some n' \<and> bi_encryp_protocol (wn_BcnInfo n') = 3 \<and>
    bi_group_cipher (wn_BcnInfo n') = rtw_get_wpa2_cipher_suite g \<and>
    bi_pairwise_cipher (wn_BcnInfo n') = fold (\<lambda>s a. a OR rtw_get_wpa2_cipher_suite s) pw 0 \<and>
    bi_is_8021x (wn_BcnInfo n') = (if hd akm = [0x00, 0x0f, 0xac, 0x01] then 1 else 0)"
proof -
  obtain n1 where n1: "bcn_protocol n = Some n1" "announces n1 es" "bi_encryp_protocol (wn_BcnInfo n1) = 3"
    using bcn_protocol_rsn [OF assms(1)] assms(3) by auto
  let ?c = "parsed_cipher rtw_get_wpa2_cipher_suite [0x00, 0x0f, 0xac, 0x01] g pw akm cipher0"
  have n2: "rtw_get_cipher_info n1 = Some (Success, put_cipher ?c n1)"
    by (rule cipher_info_rsn [OF n1(2) assms(2-8)])
  have ne: "es \<noteq> []" using assms(3) by simp
  have a2: "announces (put_cipher ?c n1) es"
    using n1(2) by (simp add: announces_def put_cipher_def)
  obtain v where v: "bcn_ht_cap (put_cipher ?c n1) = Some (BcnInfo_upd (bi_ht_cap_info_update (\<lambda>_. v)) (put_cipher ?c n1))"
    using bcn_ht_fields(1) [OF a2 ne] by blast
  let ?n3 = "BcnInfo_upd (bi_ht_cap_info_update (\<lambda>_. v)) (put_cipher ?c n1)"
  have a3: "announces ?n3 es" using a2 by (simp add: announces_def)
  obtain w where w: "bcn_ht_info ?n3 = Some (BcnInfo_upd (bi_ht_info_infos_0_update (\<lambda>_. w)) ?n3)"
    using bcn_ht_fields(2) [OF a3 ne] by blast
  have "rtw_get_bcn_info n = Some (BcnInfo_upd (bi_ht_info_infos_0_update (\<lambda>_. w)) ?n3)"
    by (simp add: rtw_get_bcn_info_def n1(1) n2 v w)
  then show ?thesis
    using n1(3) by (simp add: put_cipher_def parsed_cipher_def cipher0_def)
qed

lemma seg_middle: "length xs = p \<Longrightarrow> length ys = n \<Longrightarrow> seg (xs @ ys @ zs) p n = ys"
  by (simp add: seg_def)

lemma bcn_info_of_wpa2_network_witness:
  "\<exists>n n'. rtw_get_bcn_info n = Some n' \<and> bi_encryp_protocol (wn_BcnInfo n') = 3 \<and>
     bi_group_cipher (wn_BcnInfo n') = 8 \<and> bi_pairwise_cipher (wn_BcnInfo n') = 24 \<and> bi_is_8021x (wn_BcnInfo n') = 0"
proof -
  let ?s = "\<lambda>n. [0x00, 0x0f, 0xac, n] :: bytes"
  let ?e = "(0x30, rsn_body [1, 0] (?s 2) [?s 4, ?s 2] [?s 2] []) :: element"
  let ?es = "[(0, [65]), ?e] :: element list"
  let ?n = "\<lparr>wn_network = \<lparr>bss_Ssid = replicate 32 0, bss_SsidLength = 0, bss_Privacy = 0, bss_BeaconPeriod = 0,
      bss_ATIMWindow = 0, bss_DSConfig = 0, bss_SupportedRates = replicate 16 0, bss_IELength = 39,
      bss_IEs = replicate 12 0 @ ies_bytes ?es @ replicate 729 0\<rparr>,
    wn_BcnInfo = \<lparr>bi_encryp_protocol = 0, bi_group_cipher = 0, bi_pairwise_cipher = 0, bi_is_8021x = 0,
      bi_ht_cap_info = 0, bi_ht_info_infos_0 = 0\<rparr>\<rparr>"
  have ll: "length (rsn_body [1, 0] (?s 2) [?s 4, ?s 2] [?s 2] []) = 22"
    by (simp add: rsn_body_def suites_bytes_def put_le16_def)
  then have l: "length (ies_bytes ?es) = 27" by simp
  have "seg (replicate 12 0 @ ies_bytes ?es @ replicate 729 0) 12 (length (ies_bytes ?es)) = ies_bytes ?es"
    by (rule seg_middle) simp_all
  moreover have "list_all wpa_ok ?es" using ll by (simp add: wpa_ok_def ie_ok_def)
  ultimately have a: "announces ?n ?es"
    using l by (simp only: announces_def Let_def wlan_network.simps wlan_bssid_ex.simps) (simp del: ies_bytes_simps)
  have h: "\<forall>e\<in>set ?es. \<not> wpa_hit e" by (simp add: wpa_hit_def)
  have s: "?es = [(0, [65])] @ ?e # []" and u: "\<forall>u\<in>set [(0, [65]) :: element]. fst u \<noteq> 0x30" by simp_all
  have c: "fold (\<lambda>s a. a OR rtw_get_wpa2_cipher_suite s) [?s 4, ?s 2] 0 = 24" "rtw_get_wpa2_cipher_suite (?s 2) = 8"
    by (simp_all add: rtw_get_wpa2_cipher_suite_def)
  have p: "length (?s 2) = 4" "[?s 4, ?s 2] \<noteq> []" "[?s 2] \<noteq> []" "\<forall>s\<in>set ([?s 4, ?s 2] @ [?s 2]). length s = 4"
    "hd [?s 2] \<noteq> [0x00, 0x0f, 0xac, 0x01]" by simp_all
  show ?thesis
    using bcn_info_of_wpa2_network [OF a h s u p(1-4)] unfolding c if_not_P [OF p(5)] by (rule exI [of _ ?n])
qed

text \<open>C36: \<open>rtw_get_sec_ie\<close> does not check the room its caller has. The scan results are translated with
  arrays of 255 bytes; the copy of an RSN element leaves such an array exactly when the body of the
  received element has 254 or 255 bytes.\<close>

theorem get_sec_ie_overflows_scan_buffer:
  assumes "seg buf 12 (length (elem_bytes (0x30, d))) = elem_bytes (0x30, d)" and "length d < 256"
    and "12 + length (elem_bytes (0x30, d)) \<le> length buf" and "unat in_len = 12 + length (elem_bytes (0x30, d))"
    and "length rsn_ie = 255"
  shows "rtw_get_sec_ie buf in_len (Some rsn_ie, rsn_len, wpa_ie, wpa_len) = None \<longleftrightarrow> 254 \<le> length d"
proof -
  let ?e = "(0x30, d) :: element"
  have ok: "ie_ok ?e" using assms(2) by (simp add: ie_ok_def)
  note r = ie_read [OF ok assms(3,1), unfolded fst_conv snd_conv]
  have rds: "rd buf 12 = Some 0x30" "rd buf (12 + 1) = Some (buf ! Suc 12)" using assms(3) r(1) by simp_all
  have blk: "rd_block buf 12 (length d + 2) = Some (elem_bytes ?e)" using assms(1,3) by simp
  have n: "sec_elem_next buf 12 (Some rsn_ie, rsn_len, wpa_ie, wpa_len) =
    (if length d + 2 \<le> 255 then Some (12 + length d + 2, Some (store rsn_ie 0 (elem_bytes ?e)), ucast (buf ! Suc 12) + 2, wpa_ie, wpa_len)
     else None)"
    unfolding sec_elem_next_def prod.case rds Option.bind.bind_lunit
    using r(2) blk assms(5) by (simp add: copy_out_def wr_block_def)
  show ?thesis
    using assms(4) n
    by (simp add: rtw_get_sec_ie_def get_sec_ie_loop.simps [of buf _ 12])
      (simp add: get_sec_ie_loop.simps)
qed

lemma get_sec_ie_overflows_scan_buffer_witness:
  "rtw_get_sec_ie (replicate 12 0 @ elem_bytes (0x30, replicate 255 0)) 269 (Some (replicate 255 0), 0, None, 0) = None"
  using get_sec_ie_overflows_scan_buffer [of "replicate 12 0 @ elem_bytes (0x30, replicate 255 0)" "replicate 255 0" 269
      "replicate 255 0" 0 None 0]
  by (simp add: seg_def)

end
