(* ===== verification/Attrs.thy ===== *)
theory Attrs
  imports BuildIe
begin

unbundle bit_operations_syntax

text \<open>
  The vendor elements of Wi-Fi Protected Setup, Wi-Fi Direct and Wi-Fi Display
  (\<open>core/rtw_ieee80211.c\<close>): finding the element (\<open>rtw_get_wps_ie\<close>, \<open>rtw_get_p2p_ie\<close>,
  \<open>rtw_get_wfd_ie\<close>), finding an attribute in it (\<open>rtw_get_wps_attr\<close>, \<open>rtw_get_p2p_attr\<close>,
  \<open>rtw_get_wfd_attr\<close> and the \<open>_content\<close> functions), writing one
  (\<open>rtw_set_p2p_attr_content\<close>), deleting elements and attributes, and merging several P2P
  elements into one.

  The loops over attributes need not end, because the length of an attribute is computed in
  sixteen bits and can come out as 0. Their result is an option of an option: \<open>None\<close> when
  the code does not return, \<open>Some None\<close> when it leaves the array, \<open>Some (Some r)\<close> when it
  returns \<open>r\<close>. Otherwise the conventions are those of \<open>Elements\<close>.
\<close>

section \<open>Vendor elements\<close>

definition wps_oui :: bytes where "wps_oui = [0x00, 0x50, 0xf2, 0x04]"
definition p2p_oui :: bytes where "p2p_oui = [0x50, 0x6F, 0x9A, 0x09]"
definition wfd_oui :: bytes where "wfd_oui = [0x50, 0x6F, 0x9A, 0x0A]"

text \<open>The three lookups differ in the OUI only. \<open>MAX_IE_SZ\<close> is 768.\<close>

function vendor_ie_loop :: "bytes \<Rightarrow> bytes \<Rightarrow> nat \<Rightarrow> nat \<Rightarrow> bytes option \<Rightarrow> nat
    \<Rightarrow> (nat option \<times> bytes option \<times> u32) option" where
  "vendor_ie_loop oui buf in_ie in_len ie cnt =
     (if cnt + 1 + 4 < in_len then do {
        eid \<leftarrow> rd buf (in_ie + cnt);
        if 768 \<le> cnt + 1 + 4 then Some (None, ie, 0)
        else do {
          hit \<leftarrow> (if eid = 221 then map_option (\<lambda>s. s = oui) (rd_block buf (in_ie + cnt + 2) 4) else Some False);
          l \<leftarrow> rd buf (in_ie + cnt + 1);
          if hit then do {
            ie' \<leftarrow> copy_out ie buf (in_ie + cnt) (unat l + 2);
            Some (Some (in_ie + cnt), ie', ucast l + 2) }
          else vendor_ie_loop oui buf in_ie in_len ie (cnt + unat l + 2) } }
      else Some (None, ie, 0))"
  by pat_completeness auto
termination by (relation "measure (\<lambda>(oui, buf, in_ie, in_len, ie, cnt). in_len - cnt)") auto

declare vendor_ie_loop.simps [simp del]

definition rtw_get_wps_ie :: "bytes \<Rightarrow> nat option \<Rightarrow> u32 \<Rightarrow> bytes option \<Rightarrow> (nat option \<times> bytes option \<times> u32) option" where
  "rtw_get_wps_ie buf in_ie in_len wps_ie = (case in_ie of
     None \<Rightarrow> Some (None, wps_ie, 0)
   | Some p \<Rightarrow> if in_len \<le> 0 then Some (None, wps_ie, 0)
       else vendor_ie_loop wps_oui buf p (unat in_len) wps_ie 0)"

text \<open>The other two take a signed length.\<close>

definition rtw_get_p2p_ie :: "bytes \<Rightarrow> nat option \<Rightarrow> int \<Rightarrow> bytes option \<Rightarrow> (nat option \<times> bytes option \<times> u32) option" where
  "rtw_get_p2p_ie buf in_ie in_len p2p_ie = (case in_ie of
     None \<Rightarrow> Some (None, p2p_ie, 0)
   | Some p \<Rightarrow> if in_len \<le> 0 then Some (None, p2p_ie, 0)
       else vendor_ie_loop p2p_oui buf p (nat in_len) p2p_ie 0)"

definition rtw_get_wfd_ie :: "bytes \<Rightarrow> nat option \<Rightarrow> int \<Rightarrow> bytes option \<Rightarrow> (nat option \<times> bytes option \<times> u32) option" where
  "rtw_get_wfd_ie buf in_ie in_len wfd_ie = (case in_ie of
     None \<Rightarrow> Some (None, wfd_ie, 0)
   | Some p \<Rightarrow> if in_len \<le> 0 then Some (None, wfd_ie, 0)
       else vendor_ie_loop wfd_oui buf p (nat in_len) wfd_ie 0)"

definition rtw_is_wps_ie :: "bytes \<Rightarrow> nat option \<Rightarrow> (bool \<times> u32 option) option" where
  "rtw_is_wps_ie buf ie_ptr = (case ie_ptr of None \<Rightarrow> Some (False, None)
   | Some p \<Rightarrow> do {
       eid \<leftarrow> rd buf p;
       hit \<leftarrow> (if eid = 0xdd then map_option (\<lambda>s. s = wps_oui) (rd_block buf (p + 2) 4) else Some False);
       if hit then do { l \<leftarrow> rd buf (p + 1); Some (True, Some (ucast l + 2)) } else Some (False, None) })"

text \<open>Frames a scan result can come from; the fixed fields in front of the elements are skipped. The
  subtraction wraps for a beacon shorter than its fixed fields.\<close>

datatype bss_type = BSS_TYPE_UNDEF | BSS_TYPE_BCN | BSS_TYPE_PROB_REQ | BSS_TYPE_PROB_RSP

definition rtw_get_wps_ie_from_scan_queue :: "bytes \<Rightarrow> nat \<Rightarrow> u32 \<Rightarrow> bytes option \<Rightarrow> bss_type
    \<Rightarrow> (nat option \<times> bytes option \<times> u32 option) option" where
  "rtw_get_wps_ie_from_scan_queue buf in_ie in_len wps_ie frame_type =
     (let set_len = map_option (\<lambda>(p, ie, l). (p, ie, Some l)) in
      case frame_type of
        BSS_TYPE_BCN \<Rightarrow> set_len (rtw_get_wps_ie buf (Some (in_ie + 12)) (in_len - 12) wps_ie)
      | BSS_TYPE_PROB_RSP \<Rightarrow> set_len (rtw_get_wps_ie buf (Some (in_ie + 12)) (in_len - 12) wps_ie)
      | BSS_TYPE_PROB_REQ \<Rightarrow> set_len (rtw_get_wps_ie buf (Some in_ie) in_len wps_ie)
      | BSS_TYPE_UNDEF \<Rightarrow> Some (None, wps_ie, None))"

section \<open>Attributes\<close>

partial_function (option) wps_attr_loop :: "bytes \<Rightarrow> nat \<Rightarrow> nat \<Rightarrow> u16 \<Rightarrow> nat \<Rightarrow> (nat \<times> u16) option option option" where
  "wps_attr_loop buf wps_ie wps_ielen target attr_ptr =
     (if attr_ptr - wps_ie < wps_ielen then
        (case rd_block buf attr_ptr 4 of
           None \<Rightarrow> Some None
         | Some h \<Rightarrow>
           let attr_id = be16 (h ! 0) (h ! 1); attr_len = be16 (h ! 2) (h ! 3) + 4 in
           if attr_id = target then Some (Some (Some (attr_ptr, attr_len)))
           else wps_attr_loop buf wps_ie wps_ielen target (attr_ptr + unat attr_len))
      else Some (Some None))"

text \<open>What the caller gets: the pointer, the copy and the length; \<open>bind_run\<close> goes on with a
  result that was returned.\<close>

definition bind_run :: "'a option option \<Rightarrow> ('a \<Rightarrow> 'b option option) \<Rightarrow> 'b option option" where
  "bind_run r f = (case r of None \<Rightarrow> None | Some None \<Rightarrow> Some None | Some (Some x) \<Rightarrow> f x)"

definition hand_out :: "bytes \<Rightarrow> bytes option \<Rightarrow> (nat \<times> u16) option \<Rightarrow> (nat option \<times> bytes option \<times> u32) option" where
  "hand_out buf out r = (case r of
     None \<Rightarrow> Some (None, out, 0)
   | Some (p, n) \<Rightarrow> map_option (\<lambda>out'. (Some p, out', ucast n)) (copy_out out buf p (unat n)))"

definition rtw_get_wps_attr :: "bytes \<Rightarrow> nat \<Rightarrow> u32 \<Rightarrow> u16 \<Rightarrow> bytes option
    \<Rightarrow> (nat option \<times> bytes option \<times> u32) option option" where
  "rtw_get_wps_attr buf wps_ie wps_ielen target buf_attr =
     bind_run (Some (do { eid \<leftarrow> rd buf wps_ie;
                 if eid \<noteq> 221 then Some False else map_option (\<lambda>s. s = wps_oui) (rd_block buf (wps_ie + 2) 4) }))
       (\<lambda>ok. if ok then bind_run (wps_attr_loop buf wps_ie (unat wps_ielen) target (wps_ie + 6))
                       (\<lambda>r. Some (hand_out buf buf_attr r))
             else Some (Some (None, buf_attr, 0)))"

text \<open>The content of an attribute is what follows its header, of \<open>k\<close> bytes.\<close>

definition hand_content :: "nat \<Rightarrow> bytes \<Rightarrow> bytes option \<Rightarrow> nat option \<times> bytes option \<times> u32
    \<Rightarrow> (nat option \<times> bytes option \<times> u32) option" where
  "hand_content k buf out = (\<lambda>(attr_ptr, _, attr_len). case attr_ptr of
     None \<Rightarrow> Some (None, out, 0)
   | Some p \<Rightarrow> if attr_len = 0 then Some (None, out, 0)
       else map_option (\<lambda>out'. (Some (p + k), out', attr_len - of_nat k))
         (copy_out out buf (p + k) (unat (attr_len - of_nat k))))"

definition rtw_get_wps_attr_content :: "bytes \<Rightarrow> nat \<Rightarrow> u32 \<Rightarrow> u16 \<Rightarrow> bytes option
    \<Rightarrow> (nat option \<times> bytes option \<times> u32) option option" where
  "rtw_get_wps_attr_content buf wps_ie wps_ielen target buf_content =
     bind_run (rtw_get_wps_attr buf wps_ie wps_ielen target None)
       (\<lambda>r. Some (hand_content 4 buf buf_content r))"

text \<open>P2P and WFD attributes have an identifier of one byte; the length is little-endian in the
  former, big-endian in the latter.\<close>

partial_function (option) attr3_loop :: "(u8 \<Rightarrow> u8 \<Rightarrow> u16) \<Rightarrow> bytes \<Rightarrow> nat \<Rightarrow> nat \<Rightarrow> u8 \<Rightarrow> nat
    \<Rightarrow> (nat \<times> u16) option option option" where
  "attr3_loop get16 buf ie ielen target attr_ptr =
     (if attr_ptr - ie + 3 \<le> ielen then
        (case rd_block buf attr_ptr 3 of
           None \<Rightarrow> Some None
         | Some h \<Rightarrow>
           let attr_len = get16 (h ! 1) (h ! 2) + 3 in
           if ielen < attr_ptr - ie + unat attr_len then Some (Some None)
           else if h ! 0 = target then Some (Some (Some (attr_ptr, attr_len)))
           else attr3_loop get16 buf ie ielen target (attr_ptr + unat attr_len))
      else Some (Some None))"

definition get_attr3 :: "bytes \<Rightarrow> (u8 \<Rightarrow> u8 \<Rightarrow> u16) \<Rightarrow> bytes \<Rightarrow> nat option \<Rightarrow> u32 \<Rightarrow> u8 \<Rightarrow> bytes option
    \<Rightarrow> (nat option \<times> bytes option \<times> u32) option option" where
  "get_attr3 oui get16 buf ie ielen target buf_attr = (case ie of
     None \<Rightarrow> Some (Some (None, buf_attr, 0))
   | Some p \<Rightarrow>
     bind_run (Some (if ielen \<le> 6 then Some False
                     else do { eid \<leftarrow> rd buf p;
                       if eid \<noteq> 221 then Some False else map_option (\<lambda>s. s = oui) (rd_block buf (p + 2) 4) }))
       (\<lambda>ok. if ok then bind_run (attr3_loop get16 buf p (unat ielen) target (p + 6))
                       (\<lambda>r. Some (hand_out buf buf_attr r))
             else Some (Some (None, buf_attr, 0))))"

definition rtw_get_p2p_attr :: "bytes \<Rightarrow> nat option \<Rightarrow> u32 \<Rightarrow> u8 \<Rightarrow> bytes option
    \<Rightarrow> (nat option \<times> bytes option \<times> u32) option option" where
  "rtw_get_p2p_attr = get_attr3 p2p_oui le16"

definition rtw_get_wfd_attr :: "bytes \<Rightarrow> nat option \<Rightarrow> u32 \<Rightarrow> u8 \<Rightarrow> bytes option
    \<Rightarrow> (nat option \<times> bytes option \<times> u32) option option" where
  "rtw_get_wfd_attr = get_attr3 wfd_oui be16"

definition rtw_get_p2p_attr_content :: "bytes \<Rightarrow> nat option \<Rightarrow> u32 \<Rightarrow> u8 \<Rightarrow> bytes option
    \<Rightarrow> (nat option \<times> bytes option \<times> u32) option option" where
  "rtw_get_p2p_attr_content buf p2p_ie p2p_ielen target buf_content =
     bind_run (rtw_get_p2p_attr buf p2p_ie p2p_ielen target None) (\<lambda>r. Some (hand_content 3 buf buf_content r))"

definition rtw_get_wfd_attr_content :: "bytes \<Rightarrow> nat option \<Rightarrow> u32 \<Rightarrow> u8 \<Rightarrow> bytes option
    \<Rightarrow> (nat option \<times> bytes option \<times> u32) option option" where
  "rtw_get_wfd_attr_content buf wfd_ie wfd_ielen target buf_content =
     bind_run (rtw_get_wfd_attr buf wfd_ie wfd_ielen target None) (\<lambda>r. Some (hand_content 3 buf buf_content r))"

text \<open>The result is the array and the number of bytes written, computed in \<open>u32\<close>.\<close>

definition rtw_set_p2p_attr_content :: "bytes \<Rightarrow> nat \<Rightarrow> u8 \<Rightarrow> u16 \<Rightarrow> bytes option \<Rightarrow> (bytes \<times> u32) option" where
  "rtw_set_p2p_attr_content buf pbuf attr_id attr_len pdata_attr = do {
     b1 \<leftarrow> wr_block buf pbuf [attr_id];
     b2 \<leftarrow> wr_block b1 (pbuf + 1) (put_le16 attr_len);
     b3 \<leftarrow> (case pdata_attr of None \<Rightarrow> Some b2
            | Some d \<Rightarrow> do { x \<leftarrow> rd_block d 0 (unat attr_len); wr_block b2 (pbuf + 3) x });
     Some (b3, ucast attr_len + 3) }"

section \<open>Deleting\<close>

text \<open>What follows is moved over the deleted bytes, and the room this leaves at the end is zeroed.\<close>

definition cut_out :: "bytes \<Rightarrow> nat \<Rightarrow> nat \<Rightarrow> nat \<Rightarrow> bytes option" where
  "cut_out buf target target_len remain_len = do {
     d \<leftarrow> rd_block buf (target + target_len) remain_len;
     b \<leftarrow> wr_block buf target d;
     wr_block b (target + remain_len) (replicate target_len 0) }"

text \<open>The functions return the new array and the new length. The loop over elements makes progress,
  so \<open>None\<close> says for it, as in \<open>Elements\<close>, that the code leaves the array.\<close>

partial_function (option) del_ie_loop :: "(bytes \<Rightarrow> nat option \<Rightarrow> int \<Rightarrow> bytes option \<Rightarrow> (nat option \<times> bytes option \<times> u32) option)
    \<Rightarrow> bytes \<Rightarrow> nat \<Rightarrow> u32 \<Rightarrow> (bytes \<times> u32) option" where
  "del_ie_loop get_ie buf ies ies_len =
     (case get_ie buf (Some ies) (sint ies_len) None of
        None \<Rightarrow> None
      | Some (None, _, target_ie_len) \<Rightarrow> Some (buf, ies_len)
      | Some (Some target, _, target_ie_len) \<Rightarrow>
          if target_ie_len = 0 then Some (buf, ies_len)
          else
            let remain_len = ies_len - of_nat (target + unat target_ie_len - ies) in
            do { buf' \<leftarrow> cut_out buf target (unat target_ie_len) (unat remain_len);
                 del_ie_loop get_ie buf' ies (ies_len - target_ie_len) })"

definition rtw_del_p2p_ie :: "bytes \<Rightarrow> nat \<Rightarrow> u32 \<Rightarrow> (bytes \<times> u32) option" where
  "rtw_del_p2p_ie = del_ie_loop rtw_get_p2p_ie"

definition rtw_del_wfd_ie :: "bytes \<Rightarrow> nat \<Rightarrow> u32 \<Rightarrow> (bytes \<times> u32) option" where
  "rtw_del_wfd_ie = del_ie_loop rtw_get_wfd_ie"

text \<open>Deleting attributes also takes their length off the length byte of the element.\<close>

partial_function (option) del_attr_loop :: "(bytes \<Rightarrow> nat option \<Rightarrow> u32 \<Rightarrow> u8 \<Rightarrow> bytes option
      \<Rightarrow> (nat option \<times> bytes option \<times> u32) option option)
    \<Rightarrow> bytes \<Rightarrow> nat \<Rightarrow> u32 \<Rightarrow> u8 \<Rightarrow> (bytes \<times> u32) option option" where
  "del_attr_loop get_attr buf ie ielen attr_id =
     (case get_attr buf (Some ie) ielen attr_id None of
        None \<Rightarrow> None
      | Some None \<Rightarrow> Some None
      | Some (Some (None, _, target_attr_len)) \<Rightarrow> Some (Some (buf, ielen))
      | Some (Some (Some target, _, target_attr_len)) \<Rightarrow>
          if target_attr_len = 0 then Some (Some (buf, ielen))
          else
            let remain_len = ielen - of_nat (target + unat target_attr_len - ie) in
            (case do { b \<leftarrow> cut_out buf target (unat target_attr_len) (unat remain_len);
                       l \<leftarrow> rd b (ie + 1);
                       wr_block b (ie + 1) [l - ucast target_attr_len] } of
               None \<Rightarrow> Some None
             | Some buf' \<Rightarrow> del_attr_loop get_attr buf' ie (ielen - target_attr_len) attr_id))"

definition rtw_del_p2p_attr :: "bytes \<Rightarrow> nat \<Rightarrow> u32 \<Rightarrow> u8 \<Rightarrow> (bytes \<times> u32) option option" where
  "rtw_del_p2p_attr = del_attr_loop rtw_get_p2p_attr"

definition rtw_del_wfd_attr :: "bytes \<Rightarrow> nat \<Rightarrow> u32 \<Rightarrow> u8 \<Rightarrow> (bytes \<times> u32) option option" where
  "rtw_del_wfd_attr = del_attr_loop rtw_get_wfd_attr"

text \<open>On the description of a network, whose elements start behind \<open>fixed\<close> bytes (none in a probe
  request, twelve otherwise).\<close>

definition bss_fixed_offset :: "bss_type \<Rightarrow> nat" where
  "bss_fixed_offset t = (if t = BSS_TYPE_PROB_REQ then 0 else 12)"

definition rtw_bss_ex_del_p2p_ie :: "bss_type \<Rightarrow> wlan_bssid_ex \<Rightarrow> wlan_bssid_ex option" where
  "rtw_bss_ex_del_p2p_ie t b =
     (let ies_len_ori = bss_IELength b - of_nat (bss_fixed_offset t) in
      map_option (\<lambda>(buf, ies_len). b\<lparr>bss_IEs := buf, bss_IELength := bss_IELength b - (ies_len_ori - ies_len)\<rparr>)
        (rtw_del_p2p_ie (bss_IEs b) (bss_fixed_offset t) ies_len_ori))"

definition rtw_bss_ex_del_wfd_ie :: "bss_type \<Rightarrow> wlan_bssid_ex \<Rightarrow> wlan_bssid_ex option" where
  "rtw_bss_ex_del_wfd_ie t b =
     (let ies_len_ori = bss_IELength b - of_nat (bss_fixed_offset t) in
      map_option (\<lambda>(buf, ies_len). b\<lparr>bss_IEs := buf, bss_IELength := bss_IELength b - (ies_len_ori - ies_len)\<rparr>)
        (rtw_del_wfd_ie (bss_IEs b) (bss_fixed_offset t) ies_len_ori))"

text \<open>Deleting an attribute from every element of the network: \<open>ies\<close> and \<open>ies_len\<close> are what is
  still to be searched.\<close>

partial_function (option) bss_del_attr_loop :: "(bytes \<Rightarrow> nat option \<Rightarrow> int \<Rightarrow> bytes option \<Rightarrow> (nat option \<times> bytes option \<times> u32) option)
    \<Rightarrow> (bytes \<Rightarrow> nat \<Rightarrow> u32 \<Rightarrow> u8 \<Rightarrow> (bytes \<times> u32) option option)
    \<Rightarrow> u8 \<Rightarrow> bytes \<Rightarrow> u32 \<Rightarrow> nat \<Rightarrow> u32 \<Rightarrow> (bytes \<times> u32) option option" where
  "bss_del_attr_loop get_ie del_attr attr_id buf IELength ies ies_len =
     (case get_ie buf (Some ies) (sint ies_len) None of
        None \<Rightarrow> Some None
      | Some (None, _, _) \<Rightarrow> Some (Some (buf, IELength))
      | Some (Some ie, _, ie_len_ori) \<Rightarrow>
          let next_ie_ori = ie + unat ie_len_ori; remain_len = IELength - of_nat next_ie_ori in
          (case del_attr buf ie ie_len_ori attr_id of
             None \<Rightarrow> None
           | Some None \<Rightarrow> Some None
           | Some (Some (buf1, ie_len)) \<Rightarrow>
               if ie_len \<noteq> ie_len_ori then
                 (case cut_out buf1 (ie + unat ie_len) (unat (ie_len_ori - ie_len)) (unat remain_len) of
                    None \<Rightarrow> Some None
                  | Some buf2 \<Rightarrow> bss_del_attr_loop get_ie del_attr attr_id buf2
                      (IELength - (ie_len_ori - ie_len)) (ie + unat ie_len) remain_len)
               else bss_del_attr_loop get_ie del_attr attr_id buf1 IELength next_ie_ori remain_len))"

definition rtw_bss_ex_del_p2p_attr :: "bss_type \<Rightarrow> wlan_bssid_ex \<Rightarrow> u8 \<Rightarrow> wlan_bssid_ex option option" where
  "rtw_bss_ex_del_p2p_attr t b attr_id =
     map_option (map_option (\<lambda>(buf, l). b\<lparr>bss_IEs := buf, bss_IELength := l\<rparr>))
       (bss_del_attr_loop rtw_get_p2p_ie rtw_del_p2p_attr attr_id (bss_IEs b) (bss_IELength b)
         (bss_fixed_offset t) (bss_IELength b - of_nat (bss_fixed_offset t)))"

definition rtw_bss_ex_del_wfd_attr :: "bss_type \<Rightarrow> wlan_bssid_ex \<Rightarrow> u8 \<Rightarrow> wlan_bssid_ex option option" where
  "rtw_bss_ex_del_wfd_attr t b attr_id =
     map_option (map_option (\<lambda>(buf, l). b\<lparr>bss_IEs := buf, bss_IELength := l\<rparr>))
       (bss_del_attr_loop rtw_get_wfd_ie rtw_del_wfd_attr attr_id (bss_IEs b) (bss_IELength b)
         (bss_fixed_offset t) (bss_IELength b - of_nat (bss_fixed_offset t)))"

section \<open>Merging\<close>

text \<open>Both functions walk all elements; the sum of the lengths is an \<open>int\<close> in the first and a
  \<open>u8\<close> in the second.\<close>

definition p2p_element :: "bytes \<Rightarrow> nat \<Rightarrow> (bool \<times> u8) option" where
  "p2p_element buf p = do {
     eid \<leftarrow> rd buf p;
     hit \<leftarrow> (if eid = 221 then map_option (\<lambda>s. s = p2p_oui) (rd_block buf (p + 2) 4) else Some False);
     l \<leftarrow> rd buf (p + 1);
     Some (hit, l) }"

function merged_len_loop :: "bytes \<Rightarrow> nat \<Rightarrow> nat \<Rightarrow> nat \<Rightarrow> int \<Rightarrow> int option" where
  "merged_len_loop buf in_ie in_len i len =
     (if i < in_len then
        (case p2p_element buf (in_ie + i) of
           None \<Rightarrow> None
         | Some (hit, l) \<Rightarrow> merged_len_loop buf in_ie in_len (i + unat l + 2) (if hit then len + uint l - 4 else len))
      else Some len)"
  by pat_completeness auto
termination by (relation "measure (\<lambda>(buf, in_ie, in_len, i, len). in_len - i)") auto

declare merged_len_loop.simps [simp del]

definition rtw_get_p2p_merged_ies_len :: "bytes \<Rightarrow> nat \<Rightarrow> u32 \<Rightarrow> u32 option" where
  "rtw_get_p2p_merged_ies_len buf in_ie in_len =
     map_option (\<lambda>len. of_int (len + 4)) (merged_len_loop buf in_ie (unat in_len) 0 0)"

text \<open>The copy of \<open>Length - 4\<close> bytes has a huge size when an element is shorter than its OUI.\<close>

function merge_loop :: "bytes \<Rightarrow> nat \<Rightarrow> nat \<Rightarrow> bytes \<Rightarrow> nat \<Rightarrow> nat \<Rightarrow> u8 \<Rightarrow> (bytes \<times> u8) option" where
  "merge_loop buf in_ie in_len merge merge_ie i len =
     (if i < in_len then
        (case p2p_element buf (in_ie + i) of
           None \<Rightarrow> None
         | Some (hit, l) \<Rightarrow>
             if hit then
               if l < 4 then None
               else do {
                 d \<leftarrow> rd_block buf (in_ie + i + 2 + 4) (unat l - 4);
                 merge' \<leftarrow> wr_block merge merge_ie d;
                 merge_loop buf in_ie in_len merge' (merge_ie + unat l - 4) (i + unat l + 2) (len + (l - 4)) }
             else merge_loop buf in_ie in_len merge merge_ie (i + unat l + 2) len)
      else Some (merge, len))"
  by pat_completeness auto
termination by (relation "measure (\<lambda>(buf, in_ie, in_len, merge, merge_ie, i, len). in_len - i)") auto

declare merge_loop.simps [simp del]

definition rtw_p2p_merge_ies :: "bytes \<Rightarrow> nat \<Rightarrow> u32 \<Rightarrow> bytes option \<Rightarrow> (bytes option \<times> int) option" where
  "rtw_p2p_merge_ies buf in_ie in_len merge_ie = (case merge_ie of
     None \<Rightarrow> Some (None, 0)
   | Some m \<Rightarrow> do {
       m1 \<leftarrow> wr_block m 0 ([0xDD, 0x00] @ p2p_oui);
       r \<leftarrow> merge_loop buf in_ie (unat in_len) m1 6 0 0;
       Some (Some (fst r), uint (snd r) + 4) })"

section \<open>Finding elements\<close>

definition vendor_hit :: "bytes \<Rightarrow> element \<Rightarrow> bool" where
  "vendor_hit oui e = (fst e = 221 \<and> take 4 (snd e) = oui)"

definition vendor_ok :: "bytes option \<Rightarrow> element \<Rightarrow> bool" where
  "vendor_ok ie e = (ie_ok e \<and> (fst e = 221 \<longrightarrow> 4 \<le> length (snd e)) \<and>
     (case ie of None \<Rightarrow> True | Some b \<Rightarrow> length (elem_bytes e) \<le> length b))"

lemma vendor_ie_loop_stop: "in_len \<le> cnt + 5 \<Longrightarrow> vendor_ie_loop oui buf in_ie in_len ie cnt = Some (None, ie, 0)"
  by (simp add: vendor_ie_loop.simps)

lemma vendor_ie_loop_step:
  assumes "vendor_ok ie e" and "off + length (elem_bytes e) \<le> length buf"
    and "seg buf off (length (elem_bytes e)) = elem_bytes e" and "base \<le> off"
    and "off - base + 5 < in_len" and "in_len \<le> 768"
  shows "vendor_ie_loop oui buf base in_len ie (off - base) =
    (if vendor_hit oui e then Some (Some off, map_option (\<lambda>b. store b 0 (elem_bytes e)) ie, of_nat (length (elem_bytes e)))
     else vendor_ie_loop oui buf base in_len ie (off + length (elem_bytes e) - base))"
proof -
  let ?d = "snd e"
  have k: "ie_ok e" using assms(1) by (simp add: vendor_ok_def)
  note r = ie_read [OF k assms(2,3)]
  have rds: "rd buf off = Some (fst e)" "rd buf (off + 1) = Some (buf ! Suc off)" using assms(2) r(1) by simp_all
  have w: "(ucast (buf ! Suc off) :: u32) + 2 = of_nat (length (elem_bytes e))"
  proof -
    have "(ucast (buf ! Suc off) :: u32) = of_nat (unat (buf ! Suc off))" by simp
    then show ?thesis using r(2) by simp
  qed
  have h: "(if fst e = 221 then map_option (\<lambda>s. s = oui) (rd_block buf (off + 2) 4) else Some False) = Some (vendor_hit oui e)"
  proof (cases "fst e = 221")
    case True
    then have "4 \<le> length ?d" using assms(1) by (simp add: vendor_ok_def)
    then have "rd_block buf (off + 2) 4 = Some (take 4 ?d)"
      using r(3) assms(2) take_seg [of 4 "length ?d" buf "off + 2"] by simp
    with True show ?thesis by (simp add: vendor_hit_def)
  qed (simp add: vendor_hit_def)
  have c: "copy_out ie buf off (length ?d + 2) = Some (map_option (\<lambda>b. store b 0 (elem_bytes e)) ie)"
    using assms(1-3) by (cases ie) (simp_all add: copy_out_def vendor_ok_def)
  have b: "base + (off - base) = off" "off - base + 1 + 4 < in_len" "\<not> 768 \<le> off - base + 1 + 4"
    "off - base + length ?d + 2 = off + length (elem_bytes e) - base"
    using assms(4-6) by simp_all
  show ?thesis
    unfolding vendor_ie_loop.simps [of oui buf base in_len ie "off - base"]
    by (simp only: b if_True if_False rds h c w r(2) Option.bind.bind_lunit split: if_split)
qed

interpretation vendor: tlv_walk elem_bytes "vendor_ok ie" "vendor_hit oui" "\<lambda>off lim. base \<le> off \<and> lim - base \<le> 768"
    "\<lambda>buf off lim. vendor_ie_loop oui buf base (lim - base) ie (off - base)"
    "\<lambda>k e. Some (Some k, map_option (\<lambda>b. store b 0 (elem_bytes e)) ie, of_nat (length (elem_bytes e)))"
    "Some (None, ie, 0)" for ie oui base
proof
  fix e :: element and off lim :: nat and buf :: bytes
  assume ok: "vendor_ok ie e" and room: "base \<le> off \<and> lim - base \<le> 768"
    and le: "off + length (elem_bytes e) \<le> lim" and lim: "lim \<le> length buf"
    and eq: "seg buf off (length (elem_bytes e)) = elem_bytes e"
  have b: "off + length (elem_bytes e) \<le> length buf" using le lim by simp
  show "vendor_ie_loop oui buf base (lim - base) ie (off - base) =
      Some (Some off, map_option (\<lambda>b. store b 0 (elem_bytes e)) ie, of_nat (length (elem_bytes e)))" if "vendor_hit oui e"
  proof -
    have "4 \<le> length (snd e)" using ok that by (simp add: vendor_ok_def vendor_hit_def)
    then have "off - base + 5 < lim - base" using room le by auto
    then show ?thesis using vendor_ie_loop_step [OF ok b eq] room that by (simp only: if_True)
  qed
  show "vendor_ie_loop oui buf base (lim - base) ie (off - base) =
      vendor_ie_loop oui buf base (lim - base) ie (off + length (elem_bytes e) - base)" if "\<not> vendor_hit oui e"
  proof (cases "off - base + 5 < lim - base")
    case True
    then show ?thesis using vendor_ie_loop_step [OF ok b eq] room that by (simp only: if_False)
  next
    case False
    then show ?thesis using room by (simp add: vendor_ie_loop_stop)
  qed
qed (auto simp: vendor_ie_loop_stop)

lemma vendor_ie_locate:
  assumes "list_all (vendor_ok ie) es" and "seg buf p (length (ies_bytes es)) = ies_bytes es"
    and "p + length (ies_bytes es) \<le> length buf" and "length (ies_bytes es) \<le> 768"
  shows "vendor_ie_loop oui buf p (length (ies_bytes es)) ie 0 =
    (case locate elem_bytes (vendor_hit oui) p es of
       None \<Rightarrow> Some (None, ie, 0)
     | Some (k, e) \<Rightarrow> Some (Some k, map_option (\<lambda>b. store b 0 (elem_bytes e)) ie, of_nat (length (elem_bytes e))))"
proof -
  have "vendor_ie_loop oui buf p (length (ies_bytes es)) ie 0 = vendor.answer ie (locate elem_bytes (vendor_hit oui) p es)"
    using vendor.walk_locate [of ie es buf p "p + length (ies_bytes es)" p oui] assms by (simp add: ies_bytes_def)
  then show ?thesis by (simp only: vendor.answer_def)
qed

section \<open>Finding attributes\<close>

text \<open>An attribute is its identifier and its data.\<close>

definition put_be16 :: "u16 \<Rightarrow> bytes" where
  "put_be16 v = [ucast (drop_bit 8 v), ucast v]"

definition wps_bytes :: "u16 \<times> bytes \<Rightarrow> bytes" where
  "wps_bytes a = put_be16 (fst a) @ put_be16 (of_nat (length (snd a))) @ snd a"

definition wps_ok :: "u16 \<times> bytes \<Rightarrow> bool" where
  "wps_ok a = (length (snd a) < 65532)"

definition attr3_bytes :: "(u16 \<Rightarrow> bytes) \<Rightarrow> u8 \<times> bytes \<Rightarrow> bytes" where
  "attr3_bytes put16 a = fst a # put16 (of_nat (length (snd a))) @ snd a"

text \<open>The two functions that read and write a length belong together.\<close>

definition attr3_ok :: "(u8 \<Rightarrow> u8 \<Rightarrow> u16) \<Rightarrow> (u16 \<Rightarrow> bytes) \<Rightarrow> u8 \<times> bytes \<Rightarrow> bool" where
  "attr3_ok get16 put16 a = (length (snd a) < 65533 \<and>
     (let n = of_nat (length (snd a)) in length (put16 n) = 2 \<and> get16 (put16 n ! 0) (put16 n ! 1) = n))"

lemma be16_put: "be16 (put_be16 v ! 0) (put_be16 v ! 1) = v"
  by (simp add: put_be16_def be16_def) (rule bit_word_eqI, auto simp: bit_simps)

lemma length_put_be16 [simp]: "length (put_be16 v) = 2"
  by (simp add: put_be16_def)

lemma length_put_le16 [simp]: "length (put_le16 v) = 2"
  by (simp add: put_le16_def)

lemma le16_put_le16: "le16 (put_le16 v ! 0) (put_le16 v ! 1) = v"
  by (simp add: put_le16_def le16_def) (rule bit_word_eqI, auto simp: bit_simps)

lemma length_wps_bytes [simp]: "length (wps_bytes a) = length (snd a) + 4"
  by (simp add: wps_bytes_def)

lemma length_attr3_bytes: "attr3_ok get16 put16 a \<Longrightarrow> length (attr3_bytes put16 a) = length (snd a) + 3"
  by (simp add: attr3_bytes_def attr3_ok_def Let_def)

lemma attr3_ok_le: "length (snd a) < 65533 \<Longrightarrow> attr3_ok le16 put_le16 a"
  by (simp only: attr3_ok_def Let_def le16_put_le16 length_put_le16)

lemma attr3_ok_be: "length (snd a) < 65533 \<Longrightarrow> attr3_ok be16 put_be16 a"
  by (simp only: attr3_ok_def Let_def be16_put length_put_be16)

lemma len16: "k + n < 65536 \<Longrightarrow> (of_nat n :: u16) + of_nat k = of_nat (n + k)" "n < 65536 \<Longrightarrow> unat (of_nat n :: u16) = n"
  by (simp_all add: unat_of_nat)

lemma wps_attr_loop_step:
  assumes "wps_ok a" and "off + length (wps_bytes a) \<le> length buf"
    and "seg buf off (length (wps_bytes a)) = wps_bytes a" and "off - base < ielen"
  shows "wps_attr_loop buf base ielen target off =
    (if fst a = target then Some (Some (Some (off, of_nat (length (wps_bytes a)))))
     else wps_attr_loop buf base ielen target (off + length (wps_bytes a)))"
proof -
  let ?h = "put_be16 (fst a) @ put_be16 (of_nat (length (snd a)))"
  have "seg buf off 4 = take 4 (wps_bytes a)" using assms(3) take_seg [of 4 "length (wps_bytes a)" buf off] by simp
  also have "\<dots> = ?h" by (simp add: wps_bytes_def)
  finally have h: "rd_block buf off 4 = Some ?h" using assms(2) by simp
  have i: "be16 (?h ! 0) (?h ! 1) = fst a" "be16 (?h ! 2) (?h ! 3) = of_nat (length (snd a))"
    using be16_put [of "fst a"] be16_put [of "of_nat (length (snd a))"] by (simp_all add: put_be16_def)
  have n: "(of_nat (length (snd a)) :: u16) + 4 = of_nat (length (wps_bytes a))" by simp
  have u: "unat (of_nat (length (wps_bytes a)) :: u16) = length (wps_bytes a)"
    using assms(1) by (intro len16(2)) (simp add: wps_ok_def)
  show ?thesis
    by (subst wps_attr_loop.simps) (simp only: assms(4) if_True h option.case Let_def i n u)
qed

interpretation wps_attr: tlv_walk wps_bytes wps_ok "\<lambda>a. fst a = target" "\<lambda>off lim. base \<le> off"
    "\<lambda>buf off lim. wps_attr_loop buf base (lim - base) target off"
    "\<lambda>k a. Some (Some (Some (k, of_nat (length (wps_bytes a)))))" "Some (Some None)" for base target
proof
  fix a :: "u16 \<times> bytes" and off lim :: nat and buf :: bytes
  assume ok: "wps_ok a" and room: "base \<le> off" and le: "off + length (wps_bytes a) \<le> lim" and lim: "lim \<le> length buf"
    and eq: "seg buf off (length (wps_bytes a)) = wps_bytes a"
  have b: "off + length (wps_bytes a) \<le> length buf" using le lim by simp
  have o: "off - base < lim - base" using room le by (simp add: less_diff_conv)
  note step = wps_attr_loop_step [OF ok b eq o, of target]
  show "wps_attr_loop buf base (lim - base) target off = Some (Some (Some (off, of_nat (length (wps_bytes a)))))"
    if "fst a = target" using step unfolding if_P [OF that] .
  show "wps_attr_loop buf base (lim - base) target off = wps_attr_loop buf base (lim - base) target (off + length (wps_bytes a))"
    if "fst a \<noteq> target" using step unfolding if_not_P [OF that] .
qed (auto simp: wps_attr_loop.simps)

lemma attr3_loop_step:
  assumes "attr3_ok get16 put16 a" and "off + length (attr3_bytes put16 a) \<le> length buf"
    and "seg buf off (length (attr3_bytes put16 a)) = attr3_bytes put16 a"
    and "off - base + length (attr3_bytes put16 a) \<le> ielen"
  shows "attr3_loop get16 buf base ielen target off =
    (if fst a = target then Some (Some (Some (off, of_nat (length (attr3_bytes put16 a)))))
     else attr3_loop get16 buf base ielen target (off + length (attr3_bytes put16 a)))"
proof -
  let ?n = "of_nat (length (snd a)) :: u16"
  have l: "length (attr3_bytes put16 a) = length (snd a) + 3" by (rule length_attr3_bytes [OF assms(1)])
  have p: "length (put16 ?n) = 2" "get16 (put16 ?n ! 0) (put16 ?n ! 1) = ?n" and m: "length (snd a) < 65533"
    using assms(1) by (simp_all add: attr3_ok_def Let_def)
  let ?h = "fst a # put16 ?n"
  have "seg buf off 3 = take 3 (attr3_bytes put16 a)" using assms(3) l take_seg [of 3 "length (attr3_bytes put16 a)" buf off] by simp
  also have "\<dots> = ?h" using p(1) by (simp add: attr3_bytes_def)
  finally have h: "rd_block buf off 3 = Some ?h" using assms(2) l by simp
  have i: "?h ! 0 = fst a" "get16 (?h ! 1) (?h ! 2) = ?n" using p(2) by simp_all
  have n: "?n + 3 = of_nat (length (attr3_bytes put16 a))" unfolding l by simp
  have u: "unat (of_nat (length (attr3_bytes put16 a)) :: u16) = length (attr3_bytes put16 a)"
    using m l by (intro len16(2)) simp
  have o: "off - base + 3 \<le> ielen" "\<not> ielen < off - base + length (attr3_bytes put16 a)" using assms(4) l by simp_all
  show ?thesis
    by (subst attr3_loop.simps) (simp only: o if_True if_False h option.case Let_def i n u)
qed

interpretation attr3: tlv_walk "attr3_bytes put16" "attr3_ok get16 put16" "\<lambda>a. fst a = target" "\<lambda>off lim. base \<le> off"
    "\<lambda>buf off lim. attr3_loop get16 buf base (lim - base) target off"
    "\<lambda>k a. Some (Some (Some (k, of_nat (length (attr3_bytes put16 a)))))" "Some (Some None)" for base target get16 put16
proof
  fix a :: "u8 \<times> bytes" and off lim :: nat and buf :: bytes
  assume ok: "attr3_ok get16 put16 a" and room: "base \<le> off" and le: "off + length (attr3_bytes put16 a) \<le> lim"
    and lim: "lim \<le> length buf" and eq: "seg buf off (length (attr3_bytes put16 a)) = attr3_bytes put16 a"
  have b: "off + length (attr3_bytes put16 a) \<le> length buf" using le lim by simp
  have o: "off - base + length (attr3_bytes put16 a) \<le> lim - base" using room le by simp
  note step = attr3_loop_step [OF ok b eq o, of target]
  show "attr3_loop get16 buf base (lim - base) target off = Some (Some (Some (off, of_nat (length (attr3_bytes put16 a)))))"
    if "fst a = target" using step unfolding if_P [OF that] .
  show "attr3_loop get16 buf base (lim - base) target off =
      attr3_loop get16 buf base (lim - base) target (off + length (attr3_bytes put16 a))"
    if "fst a \<noteq> target" using step unfolding if_not_P [OF that] .
qed (auto simp: attr3_loop.simps)

text \<open>The lookups over a whole element whose body is the OUI and a list of attributes.\<close>

lemma elem_head:
  assumes "seg buf p (length (elem_bytes (221, oui @ d))) = elem_bytes (221, oui @ d)"
    and "p + length (elem_bytes (221, oui @ d)) \<le> length buf" and "length oui = 4"
  shows "rd buf p = Some 221" "rd_block buf (p + 2) 4 = Some oui" "seg buf (p + 6) (length d) = d"
proof -
  have "elem_bytes (221, oui @ d) = [221, of_nat (length (oui @ d))] @ (oui @ d)" by (simp add: elem_bytes_def)
  note s1 = seg_app_split [OF assms(1) [unfolded this]]
  note s2 = seg_app_split [OF s1(2)]
  have "buf ! (p + 0) = [221, of_nat (length (oui @ d))] ! 0"
    using assms(2) by (intro seg_nthD [OF s1(1)]) simp_all
  then show "rd buf p = Some 221" using assms(2) by simp
  show "rd_block buf (p + 2) 4 = Some oui" using s2(1) assms(2,3) by (simp add: numeral_eq_Suc)
  show "seg buf (p + 6) (length d) = d" using s2(2) assms(3) by (simp add: add.commute [of p 6])
qed

lemma wps_attr_locate:
  assumes "rd buf p = Some 221" and "rd_block buf (p + 2) 4 = Some wps_oui"
    and "seg buf (p + 6) (length (concat (map wps_bytes as))) = concat (map wps_bytes as)"
    and "unat ielen = 6 + length (concat (map wps_bytes as))" and "p + unat ielen \<le> length buf" and "list_all wps_ok as"
  shows "rtw_get_wps_attr buf p ielen target out =
    Some (hand_out buf out (map_option (\<lambda>(k, a). (k, of_nat (length (wps_bytes a))))
      (locate wps_bytes (\<lambda>a. fst a = target) (p + 6) as)))"
proof -
  let ?lim = "p + 6 + length (concat (map wps_bytes as))"
  have l: "unat ielen = ?lim - p" using assms(4) by simp
  have "?lim \<le> length buf" using assms(4,5) by simp
  then have "wps_attr_loop buf p (unat ielen) target (p + 6) =
      wps_attr.answer (locate wps_bytes (\<lambda>a. fst a = target) (p + 6) as)"
    unfolding l using assms by (intro wps_attr.walk_locate) simp_all
  also have "\<dots> = Some (Some (map_option (\<lambda>(k, a). (k, of_nat (length (wps_bytes a))))
      (locate wps_bytes (\<lambda>a. fst a = target) (p + 6) as)))"
    unfolding wps_attr.answer_def by (simp add: case_prod_unfold split: option.split)
  finally show ?thesis
    using assms(1,2) by (simp add: rtw_get_wps_attr_def bind_run_def)
qed

lemma attr3_locate:
  assumes "rd buf p = Some 221" and "rd_block buf (p + 2) 4 = Some oui"
    and "seg buf (p + 6) (length (concat (map (attr3_bytes put16) as))) = concat (map (attr3_bytes put16) as)"
    and "unat ielen = 6 + length (concat (map (attr3_bytes put16) as))" and "p + unat ielen \<le> length buf"
    and "list_all (attr3_ok get16 put16) as"
  shows "get_attr3 oui get16 buf (Some p) ielen target out =
    Some (hand_out buf out (map_option (\<lambda>(k, a). (k, of_nat (length (attr3_bytes put16 a))))
      (locate (attr3_bytes put16) (\<lambda>a. fst a = target) (p + 6) as)))"
proof -
  let ?L = "locate (attr3_bytes put16) (\<lambda>a. fst a = target) (p + 6) as"
  let ?lim = "p + 6 + length (concat (map (attr3_bytes put16) as))"
  have l: "unat ielen = ?lim - p" using assms(4) by simp
  have lb: "?lim \<le> length buf" using assms(4,5) by simp
  show ?thesis
  proof (cases "as = []")
    case True
    then have "unat ielen = 6" using l by simp
    then have "ielen \<le> 6" by (simp add: word_le_nat_alt)
    with True show ?thesis by (simp add: get_attr3_def bind_run_def hand_out_def)
  next
    case False
    then obtain a bs where as: "as = a # bs" by (cases as) simp
    have "attr3_bytes put16 a \<noteq> []" by (simp add: attr3_bytes_def)
    then have "6 < unat ielen" using l as by simp
    then have g: "\<not> ielen \<le> 6" by (simp add: word_le_nat_alt)
    have "attr3_loop get16 buf p (unat ielen) target (p + 6) = attr3.answer put16 ?L"
      unfolding l using assms lb by (intro attr3.walk_locate) simp_all
    also have "\<dots> = Some (Some (map_option (\<lambda>(k, a). (k, of_nat (length (attr3_bytes put16 a)))) ?L))"
      unfolding attr3.answer_def by (simp add: case_prod_unfold split: option.split)
    finally show ?thesis
      using assms(1,2) g by (simp add: get_attr3_def bind_run_def)
  qed
qed

lemma locate_find: "find hit es = map_option snd (locate enc hit off es)"
  by (induction es arbitrary: off) auto

text \<open>The content is handed out with its offset.\<close>

definition found_content :: "nat \<Rightarrow> bytes option \<Rightarrow> (nat \<times> 'i \<times> bytes) option \<Rightarrow> nat option \<times> bytes option \<times> u32" where
  "found_content k out r = (case r of None \<Rightarrow> (None, out, 0)
     | Some (p, a) \<Rightarrow> (Some (p + k), map_option (\<lambda>b. store b 0 (snd a)) out, of_nat (length (snd a))))"

lemma hand_content_located:
  assumes "locate enc hit off as = Some (q, a)" and "seg buf off (length (concat (map enc as))) = concat (map enc as)"
    and "off + length (concat (map enc as)) \<le> length buf" and "drop k (enc a) = snd a" and "length (enc a) = length (snd a) + k"
    and "length (snd a) + k < 65536" and "0 < k"
    and "case out of None \<Rightarrow> True | Some b \<Rightarrow> length (snd a) \<le> length b"
  shows "hand_content k buf out (Some q, None, ucast (of_nat (length (enc a)) :: u16)) =
    Some (found_content k out (Some (q, a)))"
proof -
  obtain us vs where as: "as = us @ a # vs" and q: "q = off + length (concat (map enc us))"
    using locate_SomeD [OF assms(1)] by blast
  have "seg buf off (length (concat (map enc us) @ (enc a @ concat (map enc vs)))) = concat (map enc us) @ (enc a @ concat (map enc vs))"
    using assms(2) by (simp add: as)
  from seg_app_split(1) [OF seg_app_split(2) [OF this]] have e: "seg buf q (length (enc a)) = enc a" by (simp add: q)
  have b: "q + length (enc a) \<le> length buf" using assms(3) by (simp add: as q)
  let ?n = "length (snd a)"
  have w: "(ucast (of_nat (length (enc a)) :: u16) :: u32) = of_nat (?n + k)"
    using len16(2) [of "?n + k"] assms(5,6) by (metis of_nat_unat)
  have u: "unat (of_nat ?n :: u32) = ?n" "unat (of_nat (?n + k) :: u32) = ?n + k"
    using assms(6) by (intro unat_of_nat_len, simp)+
  then have nz: "(of_nat (?n + k) :: u32) \<noteq> 0" using assms(7) by (metis add_is_0 not_gr0 unsigned_0)
  have m: "(of_nat (?n + k) :: u32) - of_nat k = of_nat ?n" by simp
  have "drop k (seg buf q (length (enc a))) = snd a" using e assms(4) by simp
  then have "seg buf (q + k) ?n = snd a" using assms(5) by (simp add: drop_seg)
  then have "copy_out out buf (q + k) ?n = Some (map_option (\<lambda>b. store b 0 (snd a)) out)"
    using assms(8) b assms(5) by (cases out) (simp_all add: copy_out_def)
  then show ?thesis
    unfolding w using nz m u by (simp only: hand_content_def prod.case option.case if_False found_content_def) simp
qed

lemma attr3_content:
  assumes "rd buf p = Some 221" and "rd_block buf (p + 2) 4 = Some oui"
    and "seg buf (p + 6) (length (concat (map (attr3_bytes put16) as))) = concat (map (attr3_bytes put16) as)"
    and "unat ielen = 6 + length (concat (map (attr3_bytes put16) as))" and "p + unat ielen \<le> length buf"
    and "list_all (attr3_ok get16 put16) as"
    and "\<forall>b a. out = Some b \<longrightarrow> find (\<lambda>a. fst a = target) as = Some a \<longrightarrow> length (snd a) \<le> length b"
  shows "bind_run (get_attr3 oui get16 buf (Some p) ielen target None) (\<lambda>r. Some (hand_content 3 buf out r)) =
    Some (Some (found_content 3 out (locate (attr3_bytes put16) (\<lambda>a. fst a = target) (p + 6) as)))"
proof (cases "locate (attr3_bytes put16) (\<lambda>a. fst a = target) (p + 6) as")
  case None
  then show ?thesis
    using attr3_locate [OF assms(1-6), of target None]
    by (simp add: bind_run_def hand_out_def hand_content_def found_content_def)
next
  case (Some x)
  obtain q a where x: "x = (q, a)" by (cases x)
  have L: "locate (attr3_bytes put16) (\<lambda>a. fst a = target) (p + 6) as = Some (q, a)" using Some x by simp
  have f: "find (\<lambda>a. fst a = target) as = Some a"
    using locate_find [of "\<lambda>a. fst a = target" as "attr3_bytes put16" "p + 6"] L by simp
  have "a \<in> set as" using locate_SomeD [OF L] by auto
  then have ok: "attr3_ok get16 put16 a" using assms(6) by (simp add: list_all_iff)
  then have n: "length (snd a) < 65533" and p2: "length (put16 (of_nat (length (snd a)))) = 2"
    by (simp_all add: attr3_ok_def Let_def)
  have "hand_content 3 buf out (Some q, None, ucast (of_nat (length (attr3_bytes put16 a)) :: u16)) =
      Some (found_content 3 out (Some (q, a)))"
  proof (rule hand_content_located [OF L assms(3)])
    show "drop 3 (attr3_bytes put16 a) = snd a" using p2 by (simp add: attr3_bytes_def)
    show "case out of None \<Rightarrow> True | Some b \<Rightarrow> length (snd a) \<le> length b"
      using assms(7) f by (auto split: option.split)
  qed (use assms(4,5) n length_attr3_bytes [OF ok] in simp_all)
  then show ?thesis
    using attr3_locate [OF assms(1-6), of target None] L
    by (simp add: bind_run_def hand_out_def copy_out_def)
qed

lemma wps_content:
  assumes "rd buf p = Some 221" and "rd_block buf (p + 2) 4 = Some wps_oui"
    and "seg buf (p + 6) (length (concat (map wps_bytes as))) = concat (map wps_bytes as)"
    and "unat ielen = 6 + length (concat (map wps_bytes as))" and "p + unat ielen \<le> length buf" and "list_all wps_ok as"
    and "\<forall>b a. out = Some b \<longrightarrow> find (\<lambda>a. fst a = target) as = Some a \<longrightarrow> length (snd a) \<le> length b"
  shows "rtw_get_wps_attr_content buf p ielen target out =
    Some (Some (found_content 4 out (locate wps_bytes (\<lambda>a. fst a = target) (p + 6) as)))"
proof (cases "locate wps_bytes (\<lambda>a. fst a = target) (p + 6) as")
  case None
  then show ?thesis
    using wps_attr_locate [OF assms(1-6), of target None]
    by (simp add: rtw_get_wps_attr_content_def bind_run_def hand_out_def hand_content_def found_content_def)
next
  case (Some x)
  obtain q a where x: "x = (q, a)" by (cases x)
  have L: "locate wps_bytes (\<lambda>a. fst a = target) (p + 6) as = Some (q, a)" using Some x by simp
  have f: "find (\<lambda>a. fst a = target) as = Some a"
    using locate_find [of "\<lambda>a. fst a = target" as wps_bytes "p + 6"] L by simp
  have "a \<in> set as" using locate_SomeD [OF L] by auto
  then have n: "length (snd a) < 65532" using assms(6) by (auto simp: list_all_iff wps_ok_def)
  have "hand_content 4 buf out (Some q, None, ucast (of_nat (length (wps_bytes a)) :: u16)) =
      Some (found_content 4 out (Some (q, a)))"
  proof (rule hand_content_located [OF L assms(3)])
    show "drop 4 (wps_bytes a) = snd a" by (simp add: wps_bytes_def)
    show "case out of None \<Rightarrow> True | Some b \<Rightarrow> length (snd a) \<le> length b"
      using assms(7) f by (auto split: option.split)
  qed (use assms(4,5) n in simp_all)
  then show ?thesis
    using wps_attr_locate [OF assms(1-6), of target None] L
    by (simp add: rtw_get_wps_attr_content_def bind_run_def hand_out_def copy_out_def)
qed

section \<open>Lookups that do not return\<close>

lemma wrap16: "(65536 :: u16) = 0"
  by (simp add: word_uint_eq_iff)

lemma wps_attr_loop_stuck:
  assumes "off - base < ielen" and "rd_block buf off 4 = Some h" and "be16 (h ! 2) (h ! 3) = 0xFFFC"
    and "be16 (h ! 0) (h ! 1) \<noteq> target"
  shows "wps_attr_loop buf base ielen target off = None"
proof (rule ccontr)
  assume "wps_attr_loop buf base ielen target off \<noteq> None"
  then obtain y where y: "wps_attr_loop buf base ielen target off = Some y" by blast
  have "\<not> (off - base < ielen \<and> rd_block buf off 4 = Some h \<and> be16 (h ! 2) (h ! 3) = 0xFFFC \<and>
      be16 (h ! 0) (h ! 1) \<noteq> target)"
    by (rule wps_attr_loop.raw_induct [OF _ y, of "\<lambda>buf base ielen target off y.
      \<not> (off - base < ielen \<and> rd_block buf off 4 = Some h \<and> be16 (h ! 2) (h ! 3) = 0xFFFC \<and>
      be16 (h ! 0) (h ! 1) \<noteq> target)"]) (auto simp: Let_def wrap16 split: if_splits)
  with assms show False by simp
qed

lemma attr3_loop_stuck:
  assumes "off - base + 3 \<le> ielen" and "rd_block buf off 3 = Some h" and "get16 (h ! 1) (h ! 2) = 0xFFFD"
    and "h ! 0 \<noteq> target"
  shows "attr3_loop get16 buf base ielen target off = None"
proof (rule ccontr)
  assume "attr3_loop get16 buf base ielen target off \<noteq> None"
  then obtain y where y: "attr3_loop get16 buf base ielen target off = Some y" by blast
  have "\<not> (off - base + 3 \<le> ielen \<and> rd_block buf off 3 = Some h \<and> get16 (h ! 1) (h ! 2) = 0xFFFD \<and> h ! 0 \<noteq> target)"
    by (rule attr3_loop.raw_induct [OF _ y, of "\<lambda>get16 buf base ielen target off y.
      \<not> (off - base + 3 \<le> ielen \<and> rd_block buf off 3 = Some h \<and> get16 (h ! 1) (h ! 2) = 0xFFFD \<and> h ! 0 \<noteq> target)"])
      (auto simp: Let_def wrap16 split: if_splits)
  with assms show False by simp
qed

text \<open>C35: An attribute whose length field is 0xFFFD (0xFFFC for WPS) makes the lookup of any other
  attribute behind it run forever: its total length is computed in sixteen bits and comes out as 0, so the
  pointer never advances. One such attribute in a received frame suffices.\<close>

theorem p2p_attr_lookup_hangs:
  assumes "rd buf p = Some 221" and "rd_block buf (p + 2) 4 = Some p2p_oui" and "p + 9 \<le> length buf"
    and "9 \<le> unat ielen" and "seg buf (p + 6) 3 = [attr_id, 0xFD, 0xFF]" and "attr_id \<noteq> target"
  shows "rtw_get_p2p_attr_content buf (Some p) ielen target out = None"
proof -
  have "le16 0xFD 0xFF = 0xFFFD" by (simp add: le16_def)
  then have "attr3_loop le16 buf p (unat ielen) target (p + 6) = None"
    using assms by (intro attr3_loop_stuck [where h = "[attr_id, 0xFD, 0xFF]"]) simp_all
  moreover have "\<not> ielen \<le> 6" using assms(4) by (simp add: word_le_nat_alt)
  ultimately show ?thesis
    using assms(1,2) by (simp add: rtw_get_p2p_attr_content_def rtw_get_p2p_attr_def get_attr3_def bind_run_def)
qed

lemma p2p_attr_lookup_hangs_witness:
  "rtw_get_p2p_attr_content ([221, 7] @ p2p_oui @ [9, 0xFD, 0xFF]) (Some 0) 9 2 None = None"
  by (rule p2p_attr_lookup_hangs [where attr_id = 9]) (simp_all add: p2p_oui_def seg_def rd_block_def rd_def)

lemma wps_attr_lookup_hangs:
  assumes "rd buf p = Some 221" and "rd_block buf (p + 2) 4 = Some wps_oui" and "p + 10 \<le> length buf"
    and "6 < unat ielen" and "seg buf (p + 6) 4 = put_be16 attr_id @ [0xFF, 0xFC]" and "attr_id \<noteq> target"
  shows "rtw_get_wps_attr_content buf p ielen target out = None"
proof -
  have "be16 0xFF 0xFC = 0xFFFC" by (simp add: be16_def)
  moreover have "be16 ((put_be16 attr_id @ [0xFF, 0xFC]) ! 0) ((put_be16 attr_id @ [0xFF, 0xFC]) ! 1) = attr_id"
    using be16_put [of attr_id] by (simp add: put_be16_def)
  ultimately have "wps_attr_loop buf p (unat ielen) target (p + 6) = None"
    using assms by (intro wps_attr_loop_stuck [where h = "put_be16 attr_id @ [0xFF, 0xFC]"])
      (simp_all add: put_be16_def)
  then show ?thesis
    using assms(1,2) by (simp add: rtw_get_wps_attr_content_def rtw_get_wps_attr_def bind_run_def)
qed

section \<open>Written attributes are found\<close>

lemma set_p2p_attr_store:
  assumes "q + length (snd a) + 3 \<le> length buf" and "length (snd a) < 65533"
  shows "rtw_set_p2p_attr_content buf q (fst a) (of_nat (length (snd a))) (Some (snd a)) =
    Some (store buf q (attr3_bytes put_le16 a), of_nat (length (snd a) + 3))"
proof -
  let ?n = "of_nat (length (snd a)) :: u16"
  have u: "unat ?n = length (snd a)" using assms(2) by (intro len16(2)) simp
  have w: "(ucast ?n :: u32) + 3 = of_nat (length (snd a) + 3)"
  proof -
    have "(ucast ?n :: u32) = of_nat (length (snd a))" using u by (metis of_nat_unat)
    then show ?thesis by simp
  qed
  have b: "q + length [fst a] \<le> length buf" "q + 1 + length (put_le16 ?n) \<le> length (store buf q [fst a])"
    using assms(1) by simp_all
  have s1: "store (store buf q [fst a]) (q + 1) (put_le16 ?n) = store buf q ([fst a] @ put_le16 ?n)"
    using assms(1) by (intro store_append) simp_all
  have b3: "q + 3 + length (snd a) \<le> length (store buf q ([fst a] @ put_le16 ?n))" using assms(1) by simp
  have s2: "store (store buf q ([fst a] @ put_le16 ?n)) (q + 3) (snd a) = store buf q (([fst a] @ put_le16 ?n) @ snd a)"
    using assms(1) by (intro store_append) simp_all
  have e: "([fst a] @ put_le16 ?n) @ snd a = attr3_bytes put_le16 a" by (simp add: attr3_bytes_def)
  have d: "rd_block (snd a) 0 (unat ?n) = Some (snd a)" by (simp add: u)
  show ?thesis
    unfolding rtw_set_p2p_attr_content_def
    by (simp only: wr_block_in [OF b(1)] wr_block_in [OF b(2)] s1 option.case d wr_block_in [OF b3] s2 e w Option.bind.bind_lunit)
qed

text \<open>The callers write attribute behind attribute and add up the lengths.\<close>

fun write_p2p_attrs :: "bytes \<Rightarrow> nat \<Rightarrow> (u8 \<times> bytes) list \<Rightarrow> bytes option" where
  "write_p2p_attrs buf q [] = Some buf"
| "write_p2p_attrs buf q (a # as) = do {
     (b, n) \<leftarrow> rtw_set_p2p_attr_content buf q (fst a) (of_nat (length (snd a))) (Some (snd a));
     write_p2p_attrs b (q + unat n) as }"

lemma write_p2p_attrs_store:
  "list_all (\<lambda>a. length (snd a) < 65533) as \<Longrightarrow> q + length (concat (map (attr3_bytes put_le16) as)) \<le> length buf \<Longrightarrow>
   write_p2p_attrs buf q as = Some (store buf q (concat (map (attr3_bytes put_le16) as)))"
proof (induction as arbitrary: buf q)
  case (Cons a as)
  have ok: "attr3_ok le16 put_le16 a" using Cons.prems(1) by (intro attr3_ok_le) simp
  note l = length_attr3_bytes [OF ok]
  have m: "length (snd a) < 65533" using Cons.prems(1) by simp
  have u: "unat (of_nat (length (snd a) + 3) :: u32) = length (snd a) + 3" using m by (intro unat_of_nat_len) simp
  have s: "rtw_set_p2p_attr_content buf q (fst a) (of_nat (length (snd a))) (Some (snd a)) =
    Some (store buf q (attr3_bytes put_le16 a), of_nat (length (snd a) + 3))"
    using Cons.prems(2) l m by (intro set_p2p_attr_store) simp_all
  let ?b = "store buf q (attr3_bytes put_le16 a)"
  have "length ?b = length buf" using Cons.prems(2) by simp
  then have "write_p2p_attrs ?b (q + length (attr3_bytes put_le16 a)) as =
      Some (store ?b (q + length (attr3_bytes put_le16 a)) (concat (map (attr3_bytes put_le16) as)))"
    using Cons.prems by (intro Cons.IH) simp_all
  also have "store ?b (q + length (attr3_bytes put_le16 a)) (concat (map (attr3_bytes put_le16) as)) =
      store buf q (attr3_bytes put_le16 a @ concat (map (attr3_bytes put_le16) as))"
    using Cons.prems(2) by (intro store_append) simp_all
  finally show ?case using s u l by simp
qed simp

text \<open>C25: Attributes written with \<open>rtw_set_p2p_attr_content\<close> are found by
  \<open>rtw_get_p2p_attr_content\<close>: it hands out the data of the first attribute with the identifier, and
  nothing when there is none.\<close>

theorem p2p_attr_roundtrip:
  assumes "rd buf p = Some 221" and "rd_block buf (p + 2) 4 = Some p2p_oui"
    and "list_all (\<lambda>a. length (snd a) < 65533) as"
    and "unat ielen = 6 + length (concat (map (attr3_bytes put_le16) as))" and "p + unat ielen \<le> length buf"
    and "\<forall>a\<in>set as. length (snd a) \<le> length out"
  shows "\<exists>buf'. write_p2p_attrs buf (p + 6) as = Some buf' \<and>
    map_option (map_option snd) (rtw_get_p2p_attr_content buf' (Some p) ielen target (Some out)) =
      Some (Some (case find (\<lambda>a. fst a = target) as of None \<Rightarrow> (Some out, 0)
        | Some a \<Rightarrow> (Some (store out 0 (snd a)), of_nat (length (snd a)))))"
proof -
  let ?c = "concat (map (attr3_bytes put_le16) as)"
  let ?b = "store buf (p + 6) ?c"
  have room: "p + 6 + length ?c \<le> length buf" using assms(4,5) by simp
  have w: "write_p2p_attrs buf (p + 6) as = Some ?b" using room by (intro write_p2p_attrs_store assms(3))
  have lb: "length ?b = length buf" using room by simp
  have p1: "rd ?b p = Some 221"
    using assms(1) room lb by (simp add: rd_def nth_store split: if_splits)
  have "seg ?b (p + 2) 4 = seg buf (p + 2) 4" using room by (intro seg_store_before) simp_all
  then have p2: "rd_block ?b (p + 2) 4 = Some p2p_oui"
    using assms(2) lb by (simp add: rd_block_def split: if_splits)
  have p3: "seg ?b (p + 6) (length ?c) = ?c" using room by simp
  have ok: "list_all (attr3_ok le16 put_le16) as"
    using assms(3) by (simp add: list_all_iff attr3_ok_le)
  have out: "\<forall>b a. Some out = Some b \<longrightarrow> find (\<lambda>a. fst a = target) as = Some a \<longrightarrow> length (snd a) \<le> length b"
    using assms(6) by (auto simp: find_Some_iff in_set_conv_nth) (metis nth_mem snd_conv)
  have "rtw_get_p2p_attr_content ?b (Some p) ielen target (Some out) =
      Some (Some (found_content 3 (Some out) (locate (attr3_bytes put_le16) (\<lambda>a. fst a = target) (p + 6) as)))"
    unfolding rtw_get_p2p_attr_content_def rtw_get_p2p_attr_def
    using attr3_content [OF p1 p2 p3 assms(4) _ ok out] assms(5) lb by simp
  then show ?thesis
    using w unfolding locate_find [of _ as "attr3_bytes put_le16" "p + 6"]
    by (auto simp: found_content_def split: option.split)
qed

lemma p2p_attr_roundtrip_witness:
  "\<exists>buf'. write_p2p_attrs ([221, 0] @ p2p_oui @ replicate 8 0) 6 [(2, [37]), (5, [1])] = Some buf' \<and>
    map_option (map_option snd) (rtw_get_p2p_attr_content buf' (Some 0) 14 5 (Some [0])) = Some (Some (Some [1], 1))"
  using p2p_attr_roundtrip [of "[221, 0] @ p2p_oui @ replicate 8 0" 0 "[(2, [37]), (5, [1])]" 14 "[0]" 5]
  by (simp add: p2p_oui_def rd_def rd_block_def seg_def attr3_bytes_def put_le16_def store_def)

section \<open>What deletion leaves\<close>

lemma store_split:
  "length X = length A \<Longrightarrow> p + length (A @ B) \<le> length buf \<Longrightarrow> store (store buf p (A @ B)) p X = store buf p (X @ B)"
  by (simp add: store_def)

lemma cut_middle:
  assumes "seg buf p (length (x @ y @ z)) = x @ y @ z" and "p + length (x @ y @ z) \<le> length buf"
  shows "cut_out buf (p + length x) (length y) (length z) = Some (store buf p (x @ z @ replicate (length y) 0))"
proof -
  note s1 = seg_app_split [OF assms(1)]
  note s2 = seg_app_split [OF s1(2)]
  let ?b1 = "store buf (p + length x) z"
  have r: "rd_block buf (p + length x + length y) (length z) = Some z" using s2(2) assms(2) by simp
  have w1: "wr_block buf (p + length x) z = Some ?b1" using assms(2) by simp
  have w2: "wr_block ?b1 (p + length x + length z) (replicate (length y) 0) =
      Some (store ?b1 (p + length x + length z) (replicate (length y) 0))" using assms(2) by simp
  have "store ?b1 (p + length x + length z) (replicate (length y) 0) = store buf (p + length x) (z @ replicate (length y) 0)"
    using assms(2) by (intro store_append) simp_all
  also have "\<dots> = store (store buf p x) (p + length x) (z @ replicate (length y) 0)"
    using s1(1) assms(2) store_seg_id [of p "length x" buf] by simp
  also have "\<dots> = store buf p (x @ z @ replicate (length y) 0)"
    using assms(2) by (intro store_append) simp_all
  finally show ?thesis unfolding cut_out_def by (simp only: r w1 w2 Option.bind.bind_lunit)
qed

text \<open>The loop over elements, for a lookup that finds the first element with a property.\<close>

lemma del_ie_loop_filter:
  assumes get: "\<And>buf es. list_all (vendor_ok None) es \<Longrightarrow> seg buf p (length (ies_bytes es)) = ies_bytes es \<Longrightarrow>
      p + length (ies_bytes es) \<le> length buf \<Longrightarrow> length (ies_bytes es) \<le> 768 \<Longrightarrow>
      get_ie buf (Some p) (int (length (ies_bytes es))) None =
        (case locate elem_bytes hit p es of None \<Rightarrow> Some (None, None, 0)
         | Some (k, e) \<Rightarrow> Some (Some k, None, of_nat (length (elem_bytes e))))"
    and "list_all (vendor_ok None) es" and "seg buf p (length (ies_bytes es)) = ies_bytes es"
    and "p + length (ies_bytes es) \<le> length buf" and "length (ies_bytes es) \<le> 768"
  shows "del_ie_loop get_ie buf p (of_nat (length (ies_bytes es))) =
    (let fs = filter (\<lambda>e. \<not> hit e) es in
     Some (store buf p (ies_bytes fs @ replicate (length (ies_bytes es) - length (ies_bytes fs)) 0), of_nat (length (ies_bytes fs))))"
  using assms(2-)
proof (induction es arbitrary: buf rule: measure_induct_rule [of length])
  case (less es)
  let ?n = "length (ies_bytes es)"
  have si: "sint (of_nat ?n :: u32) = int ?n"
    using less.prems(4) by (simp add: signed_of_nat signed_take_bit_int_eq_self)
  note g = get [OF less.prems]
  show ?case
  proof (cases "locate elem_bytes hit p es")
    case None
    then have f: "filter (\<lambda>e. \<not> hit e) es = es" by (simp add: locate_None)
    have "store buf p (ies_bytes es) = buf" using less.prems(2,3) store_seg_id [of p ?n buf] by simp
    then show ?thesis
      unfolding f Let_def using g None by (subst del_ie_loop.simps) (simp add: si)
  next
    case (Some x)
    obtain k e where x: "x = (k, e)" by (cases x)
    obtain us vs where es: "es = us @ e # vs" and us: "\<forall>u\<in>set us. \<not> hit u" and e: "hit e"
      and k: "k = p + length (ies_bytes us)"
      using locate_SomeD [OF Some [unfolded x]] unfolding ies_bytes_def by blast
    let ?e = "length (elem_bytes e)" and ?v = "length (ies_bytes vs)" and ?es = "us @ vs"
    have n: "?n = length (ies_bytes us) + ?e + ?v" by (simp add: es)
    have e257: "?e < 2 ^ 32" "0 < ?e" using less.prems(4) n by simp_all
    have u: "unat (of_nat ?e :: u32) = ?e" using e257 by (intro unat_of_nat_len) simp
    have nz: "(of_nat ?e :: u32) \<noteq> 0" using u e257 by (metis less_irrefl unsigned_0)
    have "k + ?e - p = length (ies_bytes us) + ?e" using k by simp
    then have rl: "of_nat ?n - of_nat (k + ?e - p) = (of_nat ?v :: u32)" using n by simp
    have uv: "unat (of_nat ?v :: u32) = ?v" using less.prems(4) n by (intro unat_of_nat_len) simp
    have il: "of_nat ?n - of_nat ?e = (of_nat (length (ies_bytes ?es)) :: u32)" using n by simp
    let ?b = "store buf p (ies_bytes us @ ies_bytes vs @ replicate ?e 0)"
    have cut: "cut_out buf k ?e ?v = Some ?b"
      unfolding k using less.prems(2,3) by (intro cut_middle) (simp_all add: es)
    have "del_ie_loop get_ie buf p (of_nat ?n) = del_ie_loop get_ie ?b p (of_nat (length (ies_bytes ?es)))"
      using g Some x nz
      by (subst del_ie_loop.simps) (simp only: si option.case prod.case if_False u Let_def rl uv cut Option.bind.bind_lunit il)
    also have "\<dots> = (let fs = filter (\<lambda>e. \<not> hit e) ?es in
       Some (store ?b p (ies_bytes fs @ replicate (length (ies_bytes ?es) - length (ies_bytes fs)) 0), of_nat (length (ies_bytes fs))))"
    proof (rule less.IH)
      show "length ?es < length es" by (simp add: es)
      show "list_all (vendor_ok None) ?es" using less.prems(1) by (simp add: es)
      have "?b = store buf p (ies_bytes ?es @ replicate ?e 0)" by simp
      then show "seg ?b p (length (ies_bytes ?es)) = ies_bytes ?es"
        using less.prems(3) n by (simp only:) (intro seg_store_head, simp_all)
      show "p + length (ies_bytes ?es) \<le> length ?b" "length (ies_bytes ?es) \<le> 768"
        using less.prems(3,4) n by simp_all
    qed
    finally have r: "del_ie_loop get_ie buf p (of_nat ?n) = \<dots>" .
    let ?fs = "filter (\<lambda>e. \<not> hit e) es"
    have f: "filter (\<lambda>e. \<not> hit e) ?es = ?fs" using e by (simp add: es)
    have lf: "length (ies_bytes ?fs) \<le> length (ies_bytes ?es)" unfolding f [symmetric] by (rule length_ies_filter)
    have "store ?b p (ies_bytes ?fs @ replicate (length (ies_bytes ?es) - length (ies_bytes ?fs)) 0) =
        store buf p ((ies_bytes ?fs @ replicate (length (ies_bytes ?es) - length (ies_bytes ?fs)) 0) @ replicate ?e 0)"
      using lf less.prems(3) n store_split [of "ies_bytes ?fs @ replicate (length (ies_bytes ?es) - length (ies_bytes ?fs)) 0"
          "ies_bytes ?es" p "replicate ?e 0" buf] by simp
    also have "(ies_bytes ?fs @ replicate (length (ies_bytes ?es) - length (ies_bytes ?fs)) 0) @ replicate ?e 0 =
        ies_bytes ?fs @ replicate (?n - length (ies_bytes ?fs)) 0"
    proof -
      have "?n - length (ies_bytes ?fs) = (length (ies_bytes ?es) - length (ies_bytes ?fs)) + ?e"
        using lf n by simp
      then show ?thesis by (simp only: replicate_add append_assoc)
    qed
    finally show ?thesis using r unfolding f Let_def by simp
  qed
qed

lemma del_p2p_ie_filter:
  assumes "list_all (vendor_ok None) es" and "seg buf p (length (ies_bytes es)) = ies_bytes es"
    and "p + length (ies_bytes es) \<le> length buf" and "length (ies_bytes es) \<le> 768"
  shows "rtw_del_p2p_ie buf p (of_nat (length (ies_bytes es))) =
    (let fs = filter (\<lambda>e. \<not> vendor_hit p2p_oui e) es in
     Some (store buf p (ies_bytes fs @ replicate (length (ies_bytes es) - length (ies_bytes fs)) 0), of_nat (length (ies_bytes fs))))"
  unfolding rtw_del_p2p_ie_def
proof (rule del_ie_loop_filter [OF _ assms])
  fix buf :: bytes and es :: "element list"
  assume a: "list_all (vendor_ok None) es" "seg buf p (length (ies_bytes es)) = ies_bytes es"
    "p + length (ies_bytes es) \<le> length buf" "length (ies_bytes es) \<le> 768"
  show "rtw_get_p2p_ie buf (Some p) (int (length (ies_bytes es))) None =
      (case locate elem_bytes (vendor_hit p2p_oui) p es of None \<Rightarrow> Some (None, None, 0)
       | Some (k, e) \<Rightarrow> Some (Some k, None, of_nat (length (elem_bytes e))))"
  proof (cases "es = []")
    case True
    then show ?thesis by (simp add: rtw_get_p2p_ie_def)
  next
    case False
    then have "\<not> int (length (ies_bytes es)) \<le> 0" by (cases es) simp_all
    then show ?thesis
      unfolding rtw_get_p2p_ie_def option.case nat_int vendor_ie_locate [OF a, of p2p_oui] option.map by (rule if_not_P)
  qed
qed

text \<open>Deleting the P2P elements of a network keeps all its other elements in order, moves them up,
  zeroes the room that becomes free, and takes exactly the deleted bytes off the length.\<close>

lemma bss_ex_del_p2p_ie_filters:
  assumes "list_all (vendor_ok None) es"
    and "seg (bss_IEs b) (bss_fixed_offset t) (length (ies_bytes es)) = ies_bytes es"
    and "length (bss_IEs b) = 768" and "unat (bss_IELength b) = bss_fixed_offset t + length (ies_bytes es)"
    and "unat (bss_IELength b) \<le> 768"
  shows "rtw_bss_ex_del_p2p_ie t b =
    (let fs = filter (\<lambda>e. \<not> vendor_hit p2p_oui e) es in
     Some (b\<lparr>bss_IEs := store (bss_IEs b) (bss_fixed_offset t)
         (ies_bytes fs @ replicate (length (ies_bytes es) - length (ies_bytes fs)) 0),
       bss_IELength := of_nat (bss_fixed_offset t + length (ies_bytes fs))\<rparr>))"
proof -
  have l: "bss_IELength b = of_nat (bss_fixed_offset t) + of_nat (length (ies_bytes es))"
    using assms(4) by (metis of_nat_add of_nat_unat ucast_id)
  then have o: "bss_IELength b - of_nat (bss_fixed_offset t) = of_nat (length (ies_bytes es))" by simp
  have d: "rtw_del_p2p_ie (bss_IEs b) (bss_fixed_offset t) (of_nat (length (ies_bytes es))) =
    (let fs = filter (\<lambda>e. \<not> vendor_hit p2p_oui e) es in
     Some (store (bss_IEs b) (bss_fixed_offset t) (ies_bytes fs @ replicate (length (ies_bytes es) - length (ies_bytes fs)) 0),
       of_nat (length (ies_bytes fs))))"
    using assms by (intro del_p2p_ie_filter) simp_all
  have e: "bss_IELength b - (of_nat (length (ies_bytes es)) - of_nat n) = of_nat (bss_fixed_offset t + n)" for n
    unfolding l by simp
  show ?thesis
    unfolding rtw_bss_ex_del_p2p_ie_def Let_def o d [unfolded Let_def] option.map prod.case e ..
qed

lemma bss_ex_del_p2p_ie_filters_witness:
  "\<exists>b b'. rtw_bss_ex_del_p2p_ie BSS_TYPE_BCN b = Some b' \<and> unat (bss_IELength b) = 22 \<and> unat (bss_IELength b') = 15"
proof -
  let ?es = "[(221, p2p_oui @ [9]), (3, [6])] :: element list"
  let ?b = "\<lparr>bss_Ssid = [], bss_SsidLength = 0, bss_Privacy = 0, bss_BeaconPeriod = 0, bss_ATIMWindow = 0,
    bss_DSConfig = 0, bss_SupportedRates = [], bss_IELength = 22,
    bss_IEs = replicate 12 0 @ ies_bytes ?es @ replicate 746 0\<rparr>"
  have o4: "length p2p_oui = 4" by (simp add: p2p_oui_def)
  have "take (length (ies_bytes ?es)) (drop 12 (replicate 12 0 @ ies_bytes ?es @ replicate 746 0)) = ies_bytes ?es" by simp
  then have s: "seg (bss_IEs ?b) (bss_fixed_offset BSS_TYPE_BCN) (length (ies_bytes ?es)) = ies_bytes ?es"
    unfolding seg_def bss_fixed_offset_def by simp
  have v: "list_all (vendor_ok None) ?es" using o4 by (simp add: vendor_ok_def ie_ok_def)
  have f: "filter (\<lambda>e. \<not> vendor_hit p2p_oui e) ?es = [(3, [6])]" using o4 by (simp add: vendor_hit_def)
  have l: "length (bss_IEs ?b) = 768" "unat (bss_IELength ?b) = bss_fixed_offset BSS_TYPE_BCN + length (ies_bytes ?es)"
    "unat (bss_IELength ?b) \<le> 768"
    using o4 by (simp_all add: bss_fixed_offset_def)
  show ?thesis
    using bss_ex_del_p2p_ie_filters [OF v s l] unfolding f Let_def
    by (intro exI [of _ ?b] exI conjI) (assumption, simp, simp add: bss_fixed_offset_def)
qed

section \<open>What merging writes\<close>

definition merged_data :: "element list \<Rightarrow> bytes" where
  "merged_data es = concat (map (\<lambda>e. drop 4 (snd e)) (filter (vendor_hit p2p_oui) es))"

lemma merged_data_simps [simp]:
  "merged_data [] = []"
  "merged_data (e # es) = (if vendor_hit p2p_oui e then drop 4 (snd e) else []) @ merged_data es"
  by (simp_all add: merged_data_def)

lemma p2p_element_read:
  assumes "vendor_ok None e" and "off + length (elem_bytes e) \<le> length buf"
    and "seg buf off (length (elem_bytes e)) = elem_bytes e"
  shows "p2p_element buf off = Some (vendor_hit p2p_oui e, of_nat (length (snd e)))"
    and "vendor_hit p2p_oui e \<Longrightarrow> 4 \<le> length (snd e) \<and> rd_block buf (off + 2 + 4) (length (snd e) - 4) = Some (drop 4 (snd e))"
proof -
  have k: "ie_ok e" using assms(1) by (simp add: vendor_ok_def)
  note r = ie_read [OF k assms(2,3)]
  have o: "rd_block buf (off + 2) 4 = Some (take 4 (snd e))" if "4 \<le> length (snd e)"
    using that r(3) assms(2) take_seg [of 4 "length (snd e)" buf "off + 2"] by simp
  have "buf ! Suc off = of_nat (length (snd e))" using r(2) by (metis of_nat_unat ucast_id)
  moreover have "(if fst e = 221 then map_option (\<lambda>s. s = p2p_oui) (rd_block buf (off + 2) 4) else Some False) =
      Some (vendor_hit p2p_oui e)"
  proof (cases "fst e = 221")
    case True
    then have "4 \<le> length (snd e)" using assms(1) by (simp add: vendor_ok_def)
    from o [OF this] True show ?thesis by (simp only: if_True option.map vendor_hit_def simp_thms)
  qed (simp add: vendor_hit_def)
  moreover have "rd buf off = Some (fst e)" "rd buf (off + 1) = Some (buf ! Suc off)" using assms(2) r(1) by simp_all
  ultimately show "p2p_element buf off = Some (vendor_hit p2p_oui e, of_nat (length (snd e)))"
    by (simp only: p2p_element_def Option.bind.bind_lunit)
  show "4 \<le> length (snd e) \<and> rd_block buf (off + 2 + 4) (length (snd e) - 4) = Some (drop 4 (snd e))"
    if "vendor_hit p2p_oui e"
  proof -
    have n: "4 \<le> length (snd e)" using assms(1) that by (simp add: vendor_ok_def vendor_hit_def)
    then show ?thesis using r(3) assms(2) drop_seg [of 4 buf "off + 2" "length (snd e)"] by simp
  qed
qed

lemma merge_loop_data:
  assumes "list_all (vendor_ok None) es" and "seg buf (p + i) (length (ies_bytes es)) = ies_bytes es"
    and "lim = i + length (ies_bytes es)" and "p + lim \<le> length buf" and "q + length (merged_data es) \<le> length m"
  shows "merge_loop buf p lim m q i len = Some (store m q (merged_data es), len + of_nat (length (merged_data es)))"
  using assms
proof (induction es arbitrary: m q i len)
  case Nil
  then show ?case by (simp add: merge_loop.simps)
next
  case (Cons e es)
  have ok: "vendor_ok None e" using Cons.prems(1) by simp
  have "seg buf (p + i) (length (elem_bytes e @ ies_bytes es)) = elem_bytes e @ ies_bytes es" using Cons.prems(2) by simp
  note split = seg_app_split [OF this]
  have b: "p + i + length (elem_bytes e) \<le> length buf" "i < lim" using Cons.prems(3,4) by simp_all
  note r = p2p_element_read [OF ok b(1) split(1)]
  have u: "unat (of_nat (length (snd e)) :: u8) = length (snd e)" using ok by (intro unat_ie_len) (simp add: vendor_ok_def)
  show ?case
  proof (cases "vendor_hit p2p_oui e")
    case False
    have "merge_loop buf p lim m q i len = merge_loop buf p lim m q (i + length (elem_bytes e)) len"
      using b(2) r(1) False u by (subst merge_loop.simps) (simp add: add.assoc)
    also have "\<dots> = Some (store m q (merged_data es), len + of_nat (length (merged_data es)))"
      using Cons.prems split(2) False by (intro Cons.IH) (simp_all add: add.assoc)
    finally show ?thesis using False by simp
  next
    case True
    let ?d = "drop 4 (snd e)"
    have n: "4 \<le> length (snd e)" and rb: "rd_block buf (p + i + 2 + 4) (length (snd e) - 4) = Some ?d" using r(2) True by simp_all
    have n4: "\<not> (of_nat (length (snd e)) :: u8) < 4" using n u by (simp add: word_less_nat_alt)
    have w: "wr_block m q ?d = Some (store m q ?d)" using Cons.prems(5) True by simp
    have ql: "q + length (snd e) - 4 = q + length ?d" using n by simp
    have ln: "len + (of_nat (length (snd e)) - 4) = len + of_nat (length ?d)" using n by (simp add: of_nat_diff)
    have "merge_loop buf p lim m q i len =
        merge_loop buf p lim (store m q ?d) (q + length ?d) (i + length (elem_bytes e)) (len + of_nat (length ?d))"
      using b(2) r(1) True
      by (subst merge_loop.simps) (simp only: if_True if_False n4 option.case prod.case u rb w ql ln Option.bind.bind_lunit
          length_elem_bytes, simp add: add.assoc)
    also have "\<dots> = Some (store (store m q ?d) (q + length ?d) (merged_data es),
        len + of_nat (length ?d) + of_nat (length (merged_data es)))"
      using Cons.prems split(2) True by (intro Cons.IH) (simp_all add: add.assoc)
    also have "store (store m q ?d) (q + length ?d) (merged_data es) = store m q (?d @ merged_data es)"
      using Cons.prems(5) True by (intro store_append) simp_all
    finally show ?thesis using True by (simp add: add.assoc)
  qed
qed

lemma merge_ies_data:
  assumes "list_all (vendor_ok None) es" and "seg buf p (length (ies_bytes es)) = ies_bytes es"
    and "unat in_len = length (ies_bytes es)" and "p + unat in_len \<le> length buf" and "6 + length (merged_data es) \<le> length m"
  shows "rtw_p2p_merge_ies buf p in_len (Some m) =
    Some (Some (store m 0 (([0xDD, 0x00] @ p2p_oui) @ merged_data es)), int (length (merged_data es) mod 256) + 4)"
proof -
  let ?h = "[0xDD, 0x00] @ p2p_oui"
  have h6: "length ?h = 6" by (simp add: p2p_oui_def)
  have "merge_loop buf p (unat in_len) (store m 0 ?h) 6 0 0 =
      Some (store (store m 0 ?h) 6 (merged_data es), 0 + of_nat (length (merged_data es)))"
    using assms h6 by (intro merge_loop_data) simp_all
  moreover have "store (store m 0 ?h) 6 (merged_data es) = store m 0 (?h @ merged_data es)"
    using assms(5) h6 by (intro store_append) simp_all
  moreover have "wr_block m 0 ?h = Some (store m 0 ?h)" using assms(5) h6 by simp
  moreover have "uint (of_nat (length (merged_data es)) :: u8) = int (length (merged_data es) mod 256)"
    by (simp add: uint_nat unat_of_nat)
  ultimately show ?thesis by (simp add: rtw_p2p_merge_ies_def)
qed

lemma attr3_loop_skip:
  assumes "list_all (attr3_ok get16 put16) bs" and "\<forall>b\<in>set bs. fst b \<noteq> target"
    and "seg buf off (length (concat (map (attr3_bytes put16) bs))) = concat (map (attr3_bytes put16) bs)"
    and "off + length (concat (map (attr3_bytes put16) bs)) \<le> length buf" and "base \<le> off"
    and "off - base + length (concat (map (attr3_bytes put16) bs)) \<le> ielen"
  shows "attr3_loop get16 buf base ielen target off =
    attr3_loop get16 buf base ielen target (off + length (concat (map (attr3_bytes put16) bs)))"
  using assms
proof (induction bs arbitrary: off)
  case (Cons a bs)
  have "seg buf off (length (attr3_bytes put16 a @ concat (map (attr3_bytes put16) bs))) =
      attr3_bytes put16 a @ concat (map (attr3_bytes put16) bs)" using Cons.prems(3) by simp
  note split = seg_app_split [OF this]
  have "attr3_loop get16 buf base ielen target off =
      attr3_loop get16 buf base ielen target (off + length (attr3_bytes put16 a))"
    using attr3_loop_step [OF _ _ split(1), of get16 base ielen target] Cons.prems by simp
  also have "\<dots> = attr3_loop get16 buf base ielen target
      (off + length (attr3_bytes put16 a) + length (concat (map (attr3_bytes put16) bs)))"
    using Cons.prems split(2) by (intro Cons.IH) simp_all
  finally show ?case by (simp add: add.assoc)
qed simp

text \<open>Merging the P2P elements of a frame loses an attribute. \<open>rtw_p2p_merge_ies\<close> puts the OUI and
  the data of all elements behind a header of two bytes, but returns a length without these two bytes, so the
  lookup of the last attribute in the merged element finds nothing.\<close>

lemma merged_last_p2p_attribute_lost:
  assumes "list_all (vendor_ok None) es" and "seg buf p (length (ies_bytes es)) = ies_bytes es"
    and "unat in_len = length (ies_bytes es)" and "p + unat in_len \<le> length buf" and "6 + length (merged_data es) \<le> length m"
    and "merged_data es = concat (map (attr3_bytes put_le16) (bs @ [a]))" and "length (merged_data es) \<le> 251"
    and "\<forall>b\<in>set bs. fst b \<noteq> fst a"
  shows "\<exists>m' n. rtw_p2p_merge_ies buf p in_len (Some m) = Some (Some m', n) \<and>
    rtw_get_p2p_attr_content m' (Some 0) (of_int n) (fst a) out = Some (Some (None, out, 0))"
proof -
  let ?D = "merged_data es" and ?h = "[0xDD, 0x00] @ p2p_oui"
  let ?m = "store m 0 (?h @ ?D)"
  have p4: "length p2p_oui = 4" by (simp add: p2p_oui_def)
  have "length ?D mod 256 = length ?D" using assms(7) by simp
  then have run: "rtw_p2p_merge_ies buf p in_len (Some m) = Some (Some ?m, int (length ?D) + 4)"
    using merge_ies_data [OF assms(1-5)] by simp
  have D: "?D = concat (map (attr3_bytes put_le16) bs) @ attr3_bytes put_le16 a" using assms(6) by simp
  have ok: "attr3_ok le16 put_le16 b" if "b \<in> set (bs @ [a])" for b
  proof -
    have "length (attr3_bytes put_le16 b) \<le> length (concat (map (attr3_bytes put_le16) (bs @ [a])))"
      using that by (auto simp: in_set_conv_decomp)
    then show ?thesis using assms(6,7) by (intro attr3_ok_le) (simp add: attr3_bytes_def)
  qed
  have la: "length (attr3_bytes put_le16 a) = length (snd a) + 3" by (rule length_attr3_bytes [OF ok]) simp
  let ?B = "concat (map (attr3_bytes put_le16) bs)"
  have lm: "6 + length ?D \<le> length ?m" using assms(5) p4 by simp
  have il: "unat (of_int (int (length ?D) + 4) :: u32) = length ?D + 4"
  proof -
    have "(of_int (int (length ?D) + 4) :: u32) = of_nat (length ?D + 4)" by simp
    then show ?thesis using assms(7) by (simp only:) (intro unat_of_nat_len, simp)
  qed
  have "seg ?m 0 (length (?h @ (?B @ attr3_bytes put_le16 a))) = ?h @ (?B @ attr3_bytes put_le16 a)"
    using assms(5) p4 unfolding D by (intro seg_store_same) simp_all
  note s1 = seg_app_split [OF this]
  note s2 = seg_app_split [OF s1(2)]
  have sB: "seg ?m 6 (length ?B) = ?B" and sA: "seg ?m (6 + length ?B) (length (attr3_bytes put_le16 a)) = attr3_bytes put_le16 a"
    using s2 p4 by simp_all
  have "seg ?m 0 (length ([0xDD, 0x00] @ p2p_oui)) = [0xDD, 0x00] @ p2p_oui" using s1(1) .
  note s3 = seg_app_split [OF this]
  have "?m ! (0 + 0) = [0xDD, 0x00] ! 0" using lm by (intro seg_nthD [OF s3(1)]) simp_all
  then have "?m ! 0 = 221" by simp
  moreover have "0 < length ?m" using lm by linarith
  ultimately have r1: "rd ?m 0 = Some 221" by (simp only: rd_in)
  have r2: "rd_block ?m (0 + 2) 4 = Some p2p_oui" using s3(2) lm p4 by (simp add: numeral_eq_Suc)
  have skip: "attr3_loop le16 ?m 0 (length ?D + 4) (fst a) 6 = attr3_loop le16 ?m 0 (length ?D + 4) (fst a) (6 + length ?B)"
    using ok assms(8) sB lm la by (intro attr3_loop_skip) (simp_all add: list_all_iff D)
  have stop: "attr3_loop le16 ?m 0 (length ?D + 4) (fst a) (6 + length ?B) = Some (Some None)"
  proof (cases "6 + length ?B - 0 + 3 \<le> length ?D + 4")
    case False
    then show ?thesis by (subst attr3_loop.simps) (simp only: if_False)
  next
    case True
    let ?n = "of_nat (length (snd a)) :: u16"
    have "seg ?m (6 + length ?B) 3 = take 3 (attr3_bytes put_le16 a)"
      using sA la take_seg [of 3 "length (attr3_bytes put_le16 a)" ?m "6 + length ?B"] by simp
    then have h: "rd_block ?m (6 + length ?B) 3 = Some (fst a # put_le16 ?n)"
      using lm la by (simp add: D attr3_bytes_def)
    have i: "le16 ((fst a # put_le16 ?n) ! 1) ((fst a # put_le16 ?n) ! 2) = ?n" using le16_put_le16 [of ?n] by simp
    have "length (snd a) < 65533" using ok [of a] by (simp add: attr3_ok_def)
    then have u: "unat (?n + 3) = length (snd a) + 3" using len16(2) [of "length (snd a) + 3"] by simp
    have big: "length ?D + 4 < 6 + length ?B - 0 + (length (snd a) + 3)" using la by (simp add: D)
    show ?thesis by (subst attr3_loop.simps) (simp only: True if_True h option.case Let_def i u big)
  qed
  have "\<not> (of_int (int (length ?D) + 4) :: u32) \<le> 6"
    using il la by (simp add: word_le_nat_alt D)
  then have "rtw_get_p2p_attr_content ?m (Some 0) (of_int (int (length ?D) + 4)) (fst a) out = Some (Some (None, out, 0))"
    using r1 r2 il skip stop
    by (simp add: rtw_get_p2p_attr_content_def rtw_get_p2p_attr_def get_attr3_def bind_run_def hand_out_def hand_content_def)
  then show ?thesis using run by blast
qed

lemma merged_last_p2p_attribute_lost_witness:
  "\<exists>buf m' n. rtw_p2p_merge_ies buf 0 11 (Some (replicate 11 0)) = Some (Some m', n) \<and>
     rtw_get_p2p_attr_content m' (Some 0) (of_int n) 7 None = Some (Some (None, None, 0)) \<and>
     length buf = 11"
proof -
  let ?es = "[(221, p2p_oui @ [7, 2, 0, 1, 1])] :: element list"
  have h: "vendor_hit p2p_oui (221, p2p_oui @ [7, 2, 0, 1, 1])" by (simp add: vendor_hit_def p2p_oui_def)
  have "length p2p_oui = 4" by (simp add: p2p_oui_def)
  then have l: "length (ies_bytes ?es) = 11" and d: "merged_data ?es = [7, 2, 0, 1, 1]" and v: "list_all (vendor_ok None) ?es"
    using h by (simp_all add: vendor_ok_def ie_ok_def)
  have a: "[7, 2, 0, 1, 1] = concat (map (attr3_bytes put_le16) ([] @ [(7, [1, 1])]))"
    by (simp add: attr3_bytes_def put_le16_def)
  have s: "seg (ies_bytes ?es) 0 (length (ies_bytes ?es)) = ies_bytes ?es" by (rule seg_0_all)
  have u: "unat (11 :: u32) = length (ies_bytes ?es)" unfolding l by simp
  have "\<exists>m' n. rtw_p2p_merge_ies (ies_bytes ?es) 0 11 (Some (replicate 11 0)) = Some (Some m', n) \<and>
      rtw_get_p2p_attr_content m' (Some 0) (of_int n) 7 None = Some (Some (None, None, 0))"
    using merged_last_p2p_attribute_lost [OF v s u, of "replicate 11 0" "[]" "(7, [1, 1])" None] l
    unfolding d a [symmetric] by simp
  with l show ?thesis by blast
qed

end
