(* ===== verification/Cam.thy ===== *)
theory Cam
  imports MacId
begin

unbundle bit_operations_syntax

text \<open>
  The security CAM: the access to the chip of \<open>hal/hal_com.c\<close> (\<open>rtw_sec_write_cam\<close> and its callers), and
  the copy of its entries with the bitmap of those in use of \<open>core/rtw_wlan_util.c\<close>. The driver allocates
  entries, moves them and searches them in the copy; the chip searches the CAM. The locks are not
  modelled: each function is one step.
\<close>

section \<open>The chip\<close>

text \<open>
  Register access, the test \<open>rtw_is_surprise_removed\<close> and the clock of \<open>rtw_get_current_time\<close> in
  milliseconds; writing 32 bits reports whether the transfer succeeded. All of it belongs to the
  chip and the SDIO bus and is a parameter.
\<close>

record 'w chip_io =
  chip_rd8 :: "u32 \<Rightarrow> 'w \<Rightarrow> u8 \<times> 'w"
  chip_rd16 :: "u32 \<Rightarrow> 'w \<Rightarrow> u16 \<times> 'w"
  chip_rd32 :: "u32 \<Rightarrow> 'w \<Rightarrow> u32 \<times> 'w"
  chip_wr8 :: "u32 \<Rightarrow> u8 \<Rightarrow> 'w \<Rightarrow> 'w"
  chip_wr16 :: "u32 \<Rightarrow> u16 \<Rightarrow> 'w \<Rightarrow> 'w"
  chip_wr32 :: "u32 \<Rightarrow> u32 \<Rightarrow> 'w \<Rightarrow> bool \<times> 'w"
  chip_removed :: "'w \<Rightarrow> bool"
  chip_clock :: "'w \<Rightarrow> int"

definition REG_CAMCMD :: u32 where "REG_CAMCMD = 0x0670"
definition REG_CAMWRITE :: u32 where "REG_CAMWRITE = 0x0674"
definition REG_CAMREAD :: u32 where "REG_CAMREAD = 0x0678"
definition REG_SECCFG :: u32 where "REG_SECCFG = 0x0680"
definition CAM_WRITE :: u32 where "CAM_WRITE = 0x10000"
definition CAM_POLLINIG :: u32 where "CAM_POLLINIG = 0x80000000"
definition SEC_CAM_ACCESS_TIMEOUT_MS :: int where "SEC_CAM_ACCESS_TIMEOUT_MS = 200"

text \<open>The wait for the end of a command. \<open>None\<close>: it does not end.\<close>

partial_function (option) cam_wait :: "'w chip_io \<Rightarrow> int \<Rightarrow> 'w \<Rightarrow> 'w option" where
  "cam_wait io start w =
     (if chip_removed io w then Some w
      else (let (v, w) = chip_rd32 io REG_CAMCMD w
            in if v AND CAM_POLLINIG = 0 then Some w
               else if SEC_CAM_ACCESS_TIMEOUT_MS < chip_clock io w - start then Some w
               else cam_wait io start w))"

definition rtw_sec_read_cam :: "'w chip_io \<Rightarrow> u8 \<Rightarrow> 'w \<Rightarrow> (u32 \<times> 'w) option" where
  "rtw_sec_read_cam io addr w =
     (let w = snd (chip_wr32 io REG_CAMCMD (CAM_POLLINIG OR ucast addr) w)
      in map_option (chip_rd32 io REG_CAMREAD) (cam_wait io (chip_clock io w) w))"

definition rtw_sec_write_cam :: "'w chip_io \<Rightarrow> u8 \<Rightarrow> u32 \<Rightarrow> 'w \<Rightarrow> 'w option" where
  "rtw_sec_write_cam io addr wdata w =
     (let w = snd (chip_wr32 io REG_CAMWRITE wdata w);
          w = snd (chip_wr32 io REG_CAMCMD (CAM_POLLINIG OR CAM_WRITE OR ucast addr) w)
      in cam_wait io (chip_clock io w) w)"

text \<open>The eight words of an entry, written from the last to the first.\<close>

definition word4 :: "u8 \<Rightarrow> u8 \<Rightarrow> u8 \<Rightarrow> u8 \<Rightarrow> u32" where
  "word4 a b c d = ucast a OR push_bit 8 (ucast b) OR push_bit 16 (ucast c) OR push_bit 24 (ucast d)"

definition cam_wdata :: "u16 \<Rightarrow> bytes \<Rightarrow> bytes \<Rightarrow> nat \<Rightarrow> u32" where
  "cam_wdata ctrl mac key j =
     (if j = 0 then ucast ctrl OR push_bit 16 (ucast (mac ! 0)) OR push_bit 24 (ucast (mac ! 1))
      else if j = 1 then word4 (mac ! 2) (mac ! 3) (mac ! 4) (mac ! 5)
      else if j = 6 \<or> j = 7 then 0
      else (let i = (j - 2) * 4 in word4 (key ! i) (key ! (i + 1)) (key ! (i + 2)) (key ! (i + 3))))"

primrec write_cam_words :: "'w chip_io \<Rightarrow> u8 \<Rightarrow> (nat \<Rightarrow> u32) \<Rightarrow> nat \<Rightarrow> 'w \<Rightarrow> 'w option" where
  "write_cam_words io i wdata 0 w = Some w"
| "write_cam_words io i wdata (Suc j) w =
     Option.bind (rtw_sec_write_cam io (push_bit 3 i + of_nat j) (wdata j) w) (write_cam_words io i wdata j)"

definition rtw_sec_write_cam_ent :: "'w chip_io \<Rightarrow> u8 \<Rightarrow> u16 \<Rightarrow> bytes \<Rightarrow> bytes \<Rightarrow> 'w \<Rightarrow> 'w option" where
  "rtw_sec_write_cam_ent io i ctrl mac key w = write_cam_words io i (cam_wdata ctrl mac key) 8 w"

definition rtw_sec_clr_cam_ent :: "'w chip_io \<Rightarrow> u8 \<Rightarrow> 'w \<Rightarrow> 'w option" where
  "rtw_sec_clr_cam_ent io i w = rtw_sec_write_cam io (push_bit 3 i) 0 w"

text \<open>
  Reading an entry: \<open>want_ctrl\<close>, \<open>want_mac\<close> and \<open>want_key\<close> say which of the three pointers are given. The
  words from \<open>begin\<close> to \<open>end\<close> are read and their bytes distributed.
\<close>

primrec read_cam_words :: "'w chip_io \<Rightarrow> u8 \<Rightarrow> nat \<Rightarrow> nat \<Rightarrow> 'w \<Rightarrow> (u32 list \<times> 'w) option" where
  "read_cam_words io i from 0 w = Some ([], w)"
| "read_cam_words io i from (Suc n) w =
     do { (v, w) \<leftarrow> rtw_sec_read_cam io (push_bit 3 i OR of_nat from) w;
          (vs, w) \<leftarrow> read_cam_words io i (from + 1) n w;
          Some (v # vs, w) }"

record cam_read_ent =
  cr_ctrl :: "u16 option"
  cr_mac :: "bytes option"
  cr_key :: "bytes option"

definition rtw_sec_read_cam_ent :: "'w chip_io \<Rightarrow> u8 \<Rightarrow> bool \<Rightarrow> bool \<Rightarrow> bool \<Rightarrow> 'w \<Rightarrow> (cam_read_ent \<times> 'w) option" where
  "rtw_sec_read_cam_ent io i want_ctrl want_mac want_key w =
     (if \<not> want_ctrl \<and> \<not> want_mac \<and> \<not> want_key then Some (\<lparr>cr_ctrl = None, cr_mac = None, cr_key = None\<rparr>, w)
      else (let first = (if \<not> want_ctrl \<and> \<not> want_mac then 2 else 0);
                last = (if \<not> want_key \<and> \<not> want_mac then 0 else if \<not> want_key then 2 else 5)
            in do { (vs, w) \<leftarrow> read_cam_words io i first (last + 1 - first) w;
                    let bs = concat (map le32_bytes vs);
                    Some (\<lparr>cr_ctrl = (if want_ctrl then Some (le16 (bs ! 0) (bs ! 1)) else None),
                           cr_mac = (if want_mac then Some (seg bs 2 6) else None),
                           cr_key = (if want_key then Some (seg bs (8 - 4 * first) 16) else None)\<rparr>, w) }))"

definition rtw_sec_read_cam_is_gk :: "'w chip_io \<Rightarrow> u8 \<Rightarrow> 'w \<Rightarrow> (bool \<times> 'w) option" where
  "rtw_sec_read_cam_is_gk io i w =
     map_option (\<lambda>(e, w). (the (cr_ctrl e) AND 0x40 \<noteq> 0, w)) (rtw_sec_read_cam_ent io i True False False w)"

section \<open>The driver's copy\<close>

record sec_cam_ent =
  ce_ctrl :: u16
  ce_mac :: bytes
  ce_key :: bytes

text \<open>Of the driver: the bitmap with its number of entries, the copy, and \<open>ReceiveConfig\<close>; of the station
  side \<open>key_index\<close> and \<open>enc_algo\<close>; last the chip.\<close>

record 'w cam_st =
  cs_ctl :: cam_ctl
  cs_cache :: "sec_cam_ent list"
  cs_rcr :: u32
  cs_key_index :: u8
  cs_enc_algo :: u8
  cs_chip :: 'w

definition cam_ent0 :: sec_cam_ent where
  "cam_ent0 = \<lparr>ce_ctrl = 0, ce_mac = replicate 6 0, ce_key = replicate 16 0\<rparr>"

definition rtw_sec_cam_map_clr_all :: "u32 \<Rightarrow> u32" where
  "rtw_sec_cam_map_clr_all m = 0"

abbreviation upd_ctl :: "(cam_ctl \<Rightarrow> cam_ctl) \<Rightarrow> 'w cam_st \<Rightarrow> 'w cam_st" where
  "upd_ctl f s \<equiv> s\<lparr>cs_ctl := f (cs_ctl s)\<rparr>"

definition on_chip :: "('w \<Rightarrow> 'w option) \<Rightarrow> 'w cam_st \<Rightarrow> 'w cam_st option" where
  "on_chip f s = map_option (\<lambda>w. s\<lparr>cs_chip := w\<rparr>) (f (cs_chip s))"

text \<open>\<open>HW_VAR_CAM_INVALID_ALL\<close> writes bits 31 and 30 of the command register.\<close>

definition invalidate_cam_all :: "'w chip_io \<Rightarrow> 'w cam_st \<Rightarrow> 'w cam_st" where
  "invalidate_cam_all io s =
     s\<lparr>cs_chip := snd (chip_wr32 io REG_CAMCMD 0xC0000000 (cs_chip s)),
       cs_ctl := (cs_ctl s)\<lparr>cam_used := rtw_sec_cam_map_clr_all (cam_used (cs_ctl s))\<rparr>,
       cs_cache := replicate 32 cam_ent0\<rparr>"

text \<open>\<open>HW_VAR_CAM_EMPTY_ENTRY\<close>: eight words, the first with the algorithm but not the valid bit, without
  waiting in between.\<close>

definition CAM_empty_entry :: "'w chip_io \<Rightarrow> u8 \<Rightarrow> 'w cam_st \<Rightarrow> 'w cam_st" where
  "CAM_empty_entry io ucIndex s = s\<lparr>cs_chip := fold (\<lambda>i w.
     (let ulContent = (if i = 0 then (ucast ucIndex AND 0x03) OR push_bit 2 4 else 0);
          ulCommand = (8 * ucast ucIndex + of_nat i) OR CAM_POLLINIG OR CAM_WRITE;
          w = snd (chip_wr32 io REG_CAMWRITE ulContent w)
      in snd (chip_wr32 io REG_CAMCMD ulCommand w))) [0..<8] (cs_chip s)\<rparr>"

text \<open>Writing the copy out of its bounds is undefined.\<close>

definition put_cache :: "u8 \<Rightarrow> sec_cam_ent \<Rightarrow> 'w cam_st \<Rightarrow> 'w cam_st option" where
  "put_cache i e s = (if unat i < length (cs_cache s) then Some (s\<lparr>cs_cache := (cs_cache s)[unat i := e]\<rparr>) else None)"

definition write_cam_cache :: "u8 \<Rightarrow> u16 \<Rightarrow> bytes \<Rightarrow> bytes \<Rightarrow> 'w cam_st \<Rightarrow> 'w cam_st option" where
  "write_cam_cache i ctrl mac key = put_cache i \<lparr>ce_ctrl = ctrl, ce_mac = take 6 mac, ce_key = take 16 key\<rparr>"

definition clear_cam_cache :: "u8 \<Rightarrow> 'w cam_st \<Rightarrow> 'w cam_st option" where
  "clear_cam_cache i = put_cache i cam_ent0"

definition clear_cam_entry_hw :: "'w chip_io \<Rightarrow> u8 \<Rightarrow> 'w cam_st \<Rightarrow> 'w cam_st option" where
  "clear_cam_entry_hw io i = on_chip (rtw_sec_write_cam_ent io i 0 (replicate 6 0) (replicate 16 0))"

definition write_cam :: "'w chip_io \<Rightarrow> u8 \<Rightarrow> u16 \<Rightarrow> bytes \<Rightarrow> bytes \<Rightarrow> 'w cam_st \<Rightarrow> 'w cam_st option" where
  "write_cam io i ctrl mac key s =
     Option.bind (on_chip (rtw_sec_write_cam_ent io i ctrl mac key) s) (write_cam_cache i ctrl mac key)"

definition clear_cam_entry :: "'w chip_io \<Rightarrow> u8 \<Rightarrow> 'w cam_st \<Rightarrow> 'w cam_st option" where
  "clear_cam_entry io i s = Option.bind (clear_cam_entry_hw io i s) (clear_cam_cache i)"

definition write_cam_from_cache :: "'w chip_io \<Rightarrow> u8 \<Rightarrow> 'w cam_st \<Rightarrow> 'w cam_st option" where
  "write_cam_from_cache io i s =
     (if unat i < length (cs_cache s) then
        (let e = cs_cache s ! unat i in on_chip (rtw_sec_write_cam_ent io i (ce_ctrl e) (ce_mac e) (ce_key e)) s)
      else None)"

section \<open>Capabilities, flags and the bitmap\<close>

definition rtw_camctl_chk_cap :: "u8 \<Rightarrow> cam_ctl \<Rightarrow> bool" where
  "rtw_camctl_chk_cap cap c = (cam_sec_cap c AND cap \<noteq> 0)"

definition rtw_camctl_set_flags :: "u32 \<Rightarrow> cam_ctl \<Rightarrow> cam_ctl" where
  "rtw_camctl_set_flags flags c = c\<lparr>cam_flags := cam_flags c OR flags\<rparr>"

definition rtw_camctl_clr_flags :: "u32 \<Rightarrow> cam_ctl \<Rightarrow> cam_ctl" where
  "rtw_camctl_clr_flags flags c = c\<lparr>cam_flags := cam_flags c AND NOT flags\<rparr>"

definition rtw_camctl_chk_flags :: "u32 \<Rightarrow> cam_ctl \<Rightarrow> bool" where
  "rtw_camctl_chk_flags flags c = (cam_flags c AND flags \<noteq> 0)"

text \<open>The entries 4 to 11, and those from 32 on; only test code would ask.\<close>

definition rtw_sec_camid_is_drv_forbid :: "u8 \<Rightarrow> bool" where
  "rtw_sec_camid_is_drv_forbid i = (if i < 32 then (0x00000ff0 :: u32) AND BITW i \<noteq> 0 else True)"

definition rtw_sec_camid_is_used :: "cam_ctl \<Rightarrow> u8 \<Rightarrow> bool" where
  "rtw_sec_camid_is_used c i = (if cam_num c \<le> i then False else rtw_sec_camid_is_set (cam_used c) i)"

definition cam_ids :: "cam_ctl \<Rightarrow> u8 list" where
  "cam_ids c = map of_nat [0..<unat (cam_num c)]"

definition rtw_get_sec_camid :: "cam_ctl \<Rightarrow> u8 \<Rightarrow> u8 list" where
  "rtw_get_sec_camid c max_bk_key_num =
     (let used = filter (rtw_sec_camid_is_used c) (cam_ids c)
      in if max_bk_key_num = 0 then used else take (unat max_bk_key_num) used)"

definition rtw_camid_is_gk :: "'w cam_st \<Rightarrow> u8 \<Rightarrow> bool" where
  "rtw_camid_is_gk s i = (rtw_sec_camid_is_used (cs_ctl s) i \<and> ce_ctrl (cs_cache s ! unat i) AND 0x40 \<noteq> 0)"

text \<open>\<open>addr\<close> may be null, \<open>kid\<close> and \<open>gk\<close> negative: then they are not compared.\<close>

definition cam_cache_chk :: "'w cam_st \<Rightarrow> u8 \<Rightarrow> bytes option \<Rightarrow> int \<Rightarrow> int \<Rightarrow> bool" where
  "cam_cache_chk s i addr kid gk =
     (let e = cs_cache s ! unat i
      in \<not> (case addr of None \<Rightarrow> False | Some a \<Rightarrow> ce_mac e \<noteq> take 6 a) \<and>
         \<not> (0 \<le> kid \<and> kid \<noteq> uint (ce_ctrl e AND 0x03)) \<and>
         \<not> (gk \<noteq> -1 \<and> (gk \<noteq> 0) \<noteq> rtw_camid_is_gk s i))"

definition rtw_camid_search :: "'w cam_st \<Rightarrow> bytes option \<Rightarrow> int \<Rightarrow> int \<Rightarrow> u8 option" where
  "rtw_camid_search s addr kid gk = List.find (\<lambda>i. cam_cache_chk s i addr kid gk) (cam_ids (cs_ctl s))"

section \<open>Allocation\<close>

definition SEC_CAP_CHK_BMC :: u8 where "SEC_CAP_CHK_BMC = 1"

text \<open>\<open>sta\<close>: the key is for a station, so not a group key.\<close>

definition rtw_get_camid :: "'w cam_st \<Rightarrow> bool \<Rightarrow> bytes option \<Rightarrow> int \<Rightarrow> u8 option" where
  "rtw_get_camid s sta addr kid =
     (case addr of None \<Rightarrow> None
      | Some a \<Rightarrow>
         (case (if rtw_camctl_chk_cap SEC_CAP_CHK_BMC (cs_ctl s) then rtw_camid_search s (Some a) kid (if sta then 0 else 1)
                else rtw_camid_search s (Some a) kid (-1)) of
            Some i \<Rightarrow> Some i
          | None \<Rightarrow> List.find (\<lambda>i. \<not> i < 4 \<and> \<not> rtw_sec_camid_is_used (cs_ctl s) i) (cam_ids (cs_ctl s))))"

text \<open>
  \<open>mstate\<close> is \<open>mlmext_info.state\<close>, whose low bits are 2 for a station and 3 for an access point, and
  whose bit 14 says that the station is associated; \<open>sta\<close> is the address of the station and \<open>bssid\<close> that of
  the network. The second result is \<open>*used\<close>.
\<close>

definition WIFI_FW_AP_STATE :: u32 where "WIFI_FW_AP_STATE = 3"
definition WIFI_FW_STATION_STATE :: u32 where "WIFI_FW_STATION_STATE = 2"
definition WIFI_FW_ADHOC_STATE :: u32 where "WIFI_FW_ADHOC_STATE = 1"
definition WIFI_FW_ASSOC_SUCCESS :: u32 where "WIFI_FW_ASSOC_SUCCESS = 0x4000"

definition rtw_camid_alloc :: "u32 \<Rightarrow> bytes \<Rightarrow> bytes option \<Rightarrow> u8 \<Rightarrow> 'w cam_st \<Rightarrow> u8 option \<times> bool \<times> 'w cam_st" where
  "rtw_camid_alloc mstate bssid sta kid s =
     (let cam_id =
        (if (mstate AND 3 = WIFI_FW_AP_STATE \<or> mstate AND 3 = WIFI_FW_ADHOC_STATE) \<and> sta = None
         then (if 3 < kid then None else Some kid)
         else if sta = None \<and> mstate AND WIFI_FW_ASSOC_SUCCESS = 0 then None
         else rtw_get_camid s (sta \<noteq> None) (Some (case sta of Some a \<Rightarrow> a | None \<Rightarrow> bssid)) (uint kid))
      in case cam_id of None \<Rightarrow> (None, False, s)
         | Some i \<Rightarrow> (Some i, rtw_sec_camid_is_used (cs_ctl s) i,
                    upd_ctl (\<lambda>c. c\<lparr>cam_used := rtw_sec_cam_map_set (cam_used c) i\<rparr>) s))"

definition rtw_camid_set :: "u8 \<Rightarrow> 'w cam_st \<Rightarrow> 'w cam_st" where
  "rtw_camid_set i s = (if i < cam_num (cs_ctl s) then upd_ctl (\<lambda>c. c\<lparr>cam_used := rtw_sec_cam_map_set (cam_used c) i\<rparr>) s else s)"

definition rtw_camid_free :: "u8 \<Rightarrow> 'w cam_st \<Rightarrow> 'w cam_st" where
  "rtw_camid_free i s = (if i < cam_num (cs_ctl s) then upd_ctl (\<lambda>c. c\<lparr>cam_used := rtw_sec_cam_map_clr (cam_used c) i\<rparr>) s else s)"

section \<open>Moving entries\<close>

definition free_and_clear :: "'w chip_io \<Rightarrow> bool \<Rightarrow> u8 \<Rightarrow> 'w cam_st \<Rightarrow> 'w cam_st option" where
  "free_and_clear io was_used i s = (if was_used then clear_cam_entry io i (rtw_camid_free i s) else Some s)"

definition write_and_set :: "'w chip_io \<Rightarrow> bool \<Rightarrow> u8 \<Rightarrow> sec_cam_ent \<Rightarrow> 'w cam_st \<Rightarrow> 'w cam_st option" where
  "write_and_set io was_used i e s =
     (if was_used then map_option (rtw_camid_set i) (write_cam io i (ce_ctrl e) (ce_mac e) (ce_key e) s) else Some s)"

definition rtw_sec_cam_swap :: "'w chip_io \<Rightarrow> u8 \<Rightarrow> u8 \<Rightarrow> 'w cam_st \<Rightarrow> 'w cam_st option" where
  "rtw_sec_cam_swap io a b s =
     (if a = b then Some s
      else (let a_used = rtw_sec_camid_is_used (cs_ctl s) a; b_used = rtw_sec_camid_is_used (cs_ctl s) b;
                cache_a = cs_cache s ! unat a; cache_b = cs_cache s ! unat b
            in do { s \<leftarrow> free_and_clear io a_used a s;
                    s \<leftarrow> free_and_clear io b_used b s;
                    s \<leftarrow> write_and_set io a_used b cache_a s;
                    write_and_set io b_used a cache_b s }))"

definition rtw_get_empty_cam_entry :: "cam_ctl \<Rightarrow> u8 \<Rightarrow> u8 option" where
  "rtw_get_empty_cam_entry c start_camid = List.find (\<lambda>i. start_camid \<le> i \<and> \<not> rtw_sec_camid_is_used c i) (cam_ids c)"

fun clean_dk :: "'w chip_io \<Rightarrow> u8 list \<Rightarrow> 'w cam_st \<Rightarrow> 'w cam_st option" where
  "clean_dk io [] s = Some s"
| "clean_dk io (i # is) s =
     (if rtw_sec_camid_is_used (cs_ctl s) i then
        (case rtw_get_empty_cam_entry (cs_ctl s) 4 of
           Some e \<Rightarrow> (if 0 < e then Option.bind (rtw_sec_cam_swap io i e s) (clean_dk io is) else clean_dk io is s)
         | None \<Rightarrow> clean_dk io is s)
      else clean_dk io is s)"

definition rtw_clean_dk_section :: "'w chip_io \<Rightarrow> 'w cam_st \<Rightarrow> 'w cam_st option" where
  "rtw_clean_dk_section io = clean_dk io [0, 1, 2, 3]"

definition rtw_clean_hw_dk_cam :: "'w chip_io \<Rightarrow> 'w cam_st \<Rightarrow> 'w cam_st option" where
  "rtw_clean_hw_dk_cam io s = on_chip (\<lambda>w.
     do { w \<leftarrow> rtw_sec_clr_cam_ent io 0 w; w \<leftarrow> rtw_sec_clr_cam_ent io 1 w;
          w \<leftarrow> rtw_sec_clr_cam_ent io 2 w; rtw_sec_clr_cam_ent io 3 w }) s"

section \<open>What the chip is expected to do\<close>

text \<open>Command complete after \<open>k\<close> polls that find the chip busy, before the time is up.\<close>

fun cam_completes :: "'w chip_io \<Rightarrow> nat \<Rightarrow> int \<Rightarrow> 'w \<Rightarrow> 'w \<Rightarrow> bool" where
  "cam_completes io k start w w' =
     (\<not> chip_removed io w \<and>
      (let (v, w1) = chip_rd32 io REG_CAMCMD w
       in case k of
            0 \<Rightarrow> v AND CAM_POLLINIG = 0 \<and> w1 = w'
          | Suc k \<Rightarrow> v AND CAM_POLLINIG \<noteq> 0 \<and> chip_clock io w1 - start \<le> SEC_CAM_ACCESS_TIMEOUT_MS \<and>
              cam_completes io k start w1 w'))"

declare cam_completes.simps [simp del]

text \<open>
  \<open>mem\<close> reads the words of the CAM off the state of the chip: a write command stores \<open>REG_CAMWRITE\<close> at its
  address, a read command brings a word to \<open>REG_CAMREAD\<close>, both in time; bits 31 and 30 clear everything;
  the other registers have nothing to do with the CAM.
\<close>

definition cam_chip :: "'w chip_io \<Rightarrow> ('w \<Rightarrow> u8 \<Rightarrow> u32) \<Rightarrow> bool" where
  "cam_chip io mem \<longleftrightarrow>
     (\<forall>w a d. let w2 = snd (chip_wr32 io REG_CAMCMD (CAM_POLLINIG OR CAM_WRITE OR ucast a)
                             (snd (chip_wr32 io REG_CAMWRITE d w)))
        in \<exists>k w'. cam_completes io k (chip_clock io w2) w2 w' \<and> mem w' = (mem w)(a := d)) \<and>
     (\<forall>w a. let w2 = snd (chip_wr32 io REG_CAMCMD (CAM_POLLINIG OR ucast a) w)
        in \<exists>k w'. cam_completes io k (chip_clock io w2) w2 w' \<and> fst (chip_rd32 io REG_CAMREAD w') = mem w a \<and>
             mem (snd (chip_rd32 io REG_CAMREAD w')) = mem w) \<and>
     (\<forall>w. mem (snd (chip_wr32 io REG_CAMCMD 0xC0000000 w)) = (\<lambda>_. 0)) \<and>
     (\<forall>w r v. r \<notin> {REG_CAMCMD, REG_CAMWRITE, REG_CAMREAD} \<longrightarrow>
        mem (snd (chip_wr32 io r v w)) = mem w \<and> mem (snd (chip_rd32 io r w)) = mem w) \<and>
     (\<forall>w v. mem (chip_wr16 io REG_SECCFG v w) = mem w \<and> mem (snd (chip_rd16 io REG_SECCFG w)) = mem w) \<and>
     (\<forall>w v. mem (chip_wr8 io REG_SECCFG v w) = mem w \<and> mem (snd (chip_rd8 io REG_SECCFG w)) = mem w)"

lemma cam_chipD:
  assumes "cam_chip io mem"
  shows "let w2 = snd (chip_wr32 io REG_CAMCMD (CAM_POLLINIG OR CAM_WRITE OR ucast a) (snd (chip_wr32 io REG_CAMWRITE d w)))
     in \<exists>k w'. cam_completes io k (chip_clock io w2) w2 w' \<and> mem w' = (mem w)(a := d)"
    and "let w2 = snd (chip_wr32 io REG_CAMCMD (CAM_POLLINIG OR ucast a) w)
     in \<exists>k w'. cam_completes io k (chip_clock io w2) w2 w' \<and> fst (chip_rd32 io REG_CAMREAD w') = mem w a \<and>
          mem (snd (chip_rd32 io REG_CAMREAD w')) = mem w"
    and "mem (snd (chip_wr32 io REG_CAMCMD 0xC0000000 w)) = (\<lambda>_. 0)"
    and "r \<notin> {REG_CAMCMD, REG_CAMWRITE, REG_CAMREAD} \<Longrightarrow> mem (snd (chip_wr32 io r v w)) = mem w"
    and "r \<notin> {REG_CAMCMD, REG_CAMWRITE, REG_CAMREAD} \<Longrightarrow> mem (snd (chip_rd32 io r w)) = mem w"
    and "mem (chip_wr16 io REG_SECCFG v16 w) = mem w" and "mem (snd (chip_rd16 io REG_SECCFG w)) = mem w"
    and "mem (chip_wr8 io REG_SECCFG v8 w) = mem w" and "mem (snd (chip_rd8 io REG_SECCFG w)) = mem w"
  using assms unfolding cam_chip_def by blast+

lemma cam_wait_completes: "cam_completes io k start w w' \<Longrightarrow> cam_wait io start w = Some w'"
proof (induction k arbitrary: w)
  case 0
  then show ?case by (subst cam_wait.simps) (auto simp: cam_completes.simps [of _ 0])
next
  case (Suc k)
  then show ?case by (subst cam_wait.simps) (auto simp: cam_completes.simps [of _ "Suc k"])
qed

text \<open>Whatever the chip answers, the wait ends if time passes while it is polled.\<close>

lemma cam_wait_ends:
  assumes "start + SEC_CAM_ACCESS_TIMEOUT_MS < chip_clock io (((\<lambda>w. snd (chip_rd32 io REG_CAMCMD w)) ^^ Suc n) w)"
  shows "\<exists>w'. cam_wait io start w = Some w'"
  using assms
proof (induction n arbitrary: w)
  case 0
  then show ?case by (subst cam_wait.simps) (auto split: prod.split)
next
  case (Suc n)
  have "\<exists>w'. cam_wait io start (snd (chip_rd32 io REG_CAMCMD w)) = Some w'"
    by (rule Suc.IH) (use Suc.prems in \<open>simp only: funpow_Suc_right [of "Suc n"] comp_apply\<close>)
  then show ?case by (subst cam_wait.simps) (auto split: prod.split)
qed

lemma write_cam_chip:
  assumes "cam_chip io mem"
  shows "\<exists>w'. rtw_sec_write_cam io a d w = Some w' \<and> mem w' = (mem w)(a := d)"
proof -
  let ?w2 = "snd (chip_wr32 io REG_CAMCMD (CAM_POLLINIG OR CAM_WRITE OR ucast a) (snd (chip_wr32 io REG_CAMWRITE d w)))"
  obtain k w' where "cam_completes io k (chip_clock io ?w2) ?w2 w'" "mem w' = (mem w)(a := d)"
    using cam_chipD(1) [OF assms, of a d w] unfolding Let_def by blast
  then show ?thesis unfolding rtw_sec_write_cam_def Let_def by (simp add: cam_wait_completes)
qed

lemma read_cam_chip:
  assumes "cam_chip io mem"
  shows "\<exists>w'. rtw_sec_read_cam io a w = Some (mem w a, w') \<and> mem w' = mem w"
proof -
  obtain k w' where "cam_completes io k (chip_clock io (snd (chip_wr32 io REG_CAMCMD (CAM_POLLINIG OR ucast a) w)))
      (snd (chip_wr32 io REG_CAMCMD (CAM_POLLINIG OR ucast a) w)) w'"
    and r: "fst (chip_rd32 io REG_CAMREAD w') = mem w a" "mem (snd (chip_rd32 io REG_CAMREAD w')) = mem w"
    using cam_chipD(2) [OF assms, of a w] unfolding Let_def by blast
  then show ?thesis
    unfolding rtw_sec_read_cam_def Let_def
    by (intro exI [of _ "snd (chip_rd32 io REG_CAMREAD w')"]) (simp add: cam_wait_completes prod_eq_iff)
qed

text \<open>The words of an entry are those at the eight addresses from \<open>8 i\<close> on.\<close>

lemma cam_addr: "i < 32 \<Longrightarrow> j < 8 \<Longrightarrow> unat (push_bit 3 i + of_nat j :: u8) = 8 * unat i + j"
proof -
  assume i: "i < 32" and j: "j < 8"
  then have u: "unat i < 32" by (simp add: word_less_nat_alt)
  have "push_bit 3 i = 8 * i" by (simp add: push_bit_eq_mult)
  then show ?thesis using u j by (simp add: unat_word_ariths unat_of_nat)
qed

lemma write_cam_words_chip:
  assumes "cam_chip io mem" and "i < 32" and "n \<le> 8"
  shows "\<exists>w'. write_cam_words io i f n w = Some w' \<and>
    mem w' = (\<lambda>a. if unat a div 8 = unat i \<and> unat a mod 8 < n then f (unat a mod 8) else mem w a)"
  using assms(3)
proof (induction n arbitrary: w)
  case (Suc n)
  obtain w1 where w1: "rtw_sec_write_cam io (push_bit 3 i + of_nat n) (f n) w = Some w1"
    "mem w1 = (mem w)(push_bit 3 i + of_nat n := f n)"
    using write_cam_chip [OF assms(1)] by blast
  obtain w2 where w2: "write_cam_words io i f n w1 = Some w2"
    "mem w2 = (\<lambda>a. if unat a div 8 = unat i \<and> unat a mod 8 < n then f (unat a mod 8) else mem w1 a)"
    using Suc.IH [of w1] Suc.prems by auto
  have eq: "a = push_bit 3 i + of_nat n \<longleftrightarrow> unat a div 8 = unat i \<and> unat a mod 8 = n" for a :: u8
  proof -
    have "x = 8 * y + n \<longleftrightarrow> x div 8 = y \<and> x mod 8 = n" for x y :: nat
    proof
      assume "x div 8 = y \<and> x mod 8 = n"
      then show "x = 8 * y + n" using div_mult_mod_eq [of x 8] by (metis mult.commute)
    qed (use Suc.prems in simp)
    moreover have "n < 8" using Suc.prems by simp
    ultimately show ?thesis unfolding word_unat_eq_iff cam_addr [OF assms(2) \<open>n < 8\<close>] by blast
  qed
  have "mem w2 a = (if unat a div 8 = unat i \<and> unat a mod 8 < Suc n then f (unat a mod 8) else mem w a)" for a
    using eq [of a] by (auto simp: w2(2) w1(2) less_Suc_eq)
  then show ?case using w1(1) w2(1) by auto
qed auto

lemma write_cam_ent_chip:
  assumes "cam_chip io mem" and "i < 32"
  shows "\<exists>w'. rtw_sec_write_cam_ent io i ctrl mac key w = Some w' \<and>
    mem w' = (\<lambda>a. if unat a div 8 = unat i then cam_wdata ctrl mac key (unat a mod 8) else mem w a)"
  using write_cam_words_chip [OF assms order_refl] unfolding rtw_sec_write_cam_ent_def by simp

section \<open>The copy mirrors the CAM\<close>

definition cam_ent_ok :: "sec_cam_ent \<Rightarrow> bool" where
  "cam_ent_ok e \<longleftrightarrow> length (ce_mac e) = 6 \<and> length (ce_key e) = 16"

definition cam_mirror :: "('w \<Rightarrow> u8 \<Rightarrow> u32) \<Rightarrow> 'w cam_st \<Rightarrow> bool" where
  "cam_mirror mem s \<longleftrightarrow> cam_num (cs_ctl s) = 32 \<and> length (cs_cache s) = 32 \<and> list_all cam_ent_ok (cs_cache s) \<and>
     (\<forall>a. mem (cs_chip s) a = (let e = cs_cache s ! (unat a div 8) in cam_wdata (ce_ctrl e) (ce_mac e) (ce_key e) (unat a mod 8)))"

lemma cam_mirrorD:
  assumes "cam_mirror mem s"
  shows "cam_num (cs_ctl s) = 32" and "length (cs_cache s) = 32" and "i < 32 \<Longrightarrow> cam_ent_ok (cs_cache s ! i)"
  using assms by (auto simp: cam_mirror_def list_all_length)

lemma cam_ent0_ok [simp]: "cam_ent_ok cam_ent0"
  by (simp add: cam_ent_ok_def cam_ent0_def)

lemma cam_ent_okD [simp]: "cam_ent_ok e \<Longrightarrow> \<lparr>ce_ctrl = ce_ctrl e, ce_mac = take 6 (ce_mac e), ce_key = take 16 (ce_key e)\<rparr> = e"
  by (simp add: cam_ent_ok_def)

lemma cam_wdata_0: "j < 8 \<Longrightarrow> cam_wdata 0 (replicate 6 0) (replicate 16 0) j = 0"
  by (auto simp: cam_wdata_def word4_def Let_def less_Suc_eq numeral_eq_Suc)

lemma unat_u8_div: "unat (a :: u8) div 8 < 32"
  using unat_u8_less [of a] by (simp add: div_less_iff_less_mult)

text \<open>The bitmap, and the number of the entry, are all the functions below change beside the entries.\<close>

lemma cam_mirror_cong:
  "cam_mirror mem s \<Longrightarrow> cam_num c = 32 \<Longrightarrow> cam_mirror mem (s\<lparr>cs_ctl := c\<rparr>)"
  "cam_mirror mem s \<Longrightarrow> mem w = mem (cs_chip s) \<Longrightarrow> cam_mirror mem (s\<lparr>cs_chip := w\<rparr>)"
  by (simp_all add: cam_mirror_def)

lemma cam_mirror_put:
  assumes "cam_mirror mem s" and "unat i < 32" and "cam_ent_ok e"
    and "mem w = (\<lambda>a. if unat a div 8 = unat i then cam_wdata (ce_ctrl e) (ce_mac e) (ce_key e) (unat a mod 8) else mem (cs_chip s) a)"
  shows "cam_mirror mem (s\<lparr>cs_chip := w, cs_cache := (cs_cache s)[unat i := e]\<rparr>)"
  using assms by (auto simp: cam_mirror_def list_all_length nth_list_update Let_def)

lemma write_cam_mirror:
  assumes "cam_chip io mem" and m: "cam_mirror mem s" and "i < 32" and "cam_ent_ok e"
  shows "\<exists>w. write_cam io i (ce_ctrl e) (ce_mac e) (ce_key e) s = Some (s\<lparr>cs_chip := w, cs_cache := (cs_cache s)[unat i := e]\<rparr>) \<and>
    cam_mirror mem (s\<lparr>cs_chip := w, cs_cache := (cs_cache s)[unat i := e]\<rparr>)"
proof -
  have i: "unat i < 32" using assms(3) by (simp add: word_less_nat_alt)
  obtain w where w: "rtw_sec_write_cam_ent io i (ce_ctrl e) (ce_mac e) (ce_key e) (cs_chip s) = Some w"
    "mem w = (\<lambda>a. if unat a div 8 = unat i then cam_wdata (ce_ctrl e) (ce_mac e) (ce_key e) (unat a mod 8) else mem (cs_chip s) a)"
    using write_cam_ent_chip [OF assms(1,3)] by blast
  have "write_cam io i (ce_ctrl e) (ce_mac e) (ce_key e) s = Some (s\<lparr>cs_chip := w, cs_cache := (cs_cache s)[unat i := e]\<rparr>)"
    using w(1) i cam_mirrorD(2) [OF m] assms(4) by (simp add: write_cam_def on_chip_def write_cam_cache_def put_cache_def)
  then show ?thesis using cam_mirror_put [OF m i assms(4) w(2)] by blast
qed

lemma clear_cam_entry_mirror:
  assumes "cam_chip io mem" and m: "cam_mirror mem s" and "i < 32"
  shows "\<exists>w. clear_cam_entry io i s = Some (s\<lparr>cs_chip := w, cs_cache := (cs_cache s)[unat i := cam_ent0]\<rparr>) \<and>
    cam_mirror mem (s\<lparr>cs_chip := w, cs_cache := (cs_cache s)[unat i := cam_ent0]\<rparr>)"
proof -
  have "clear_cam_entry io i s = write_cam io i (ce_ctrl cam_ent0) (ce_mac cam_ent0) (ce_key cam_ent0) s"
    by (simp add: clear_cam_entry_def clear_cam_entry_hw_def write_cam_def clear_cam_cache_def write_cam_cache_def cam_ent0_def)
  then show ?thesis using write_cam_mirror [OF assms cam_ent0_ok] by simp
qed

lemma invalidate_cam_all_mirror:
  assumes "cam_chip io mem" and "cam_num (cs_ctl s) = 32"
  shows "cam_mirror mem (invalidate_cam_all io s)"
proof -
  have "cam_wdata 0 (replicate 6 0) (replicate 16 0) (unat a mod 8) = 0" for a :: u8 by (rule cam_wdata_0) simp
  moreover have "mem (cs_chip (invalidate_cam_all io s)) = (\<lambda>_. 0)"
    using cam_chipD(3) [OF assms(1)] by (simp add: invalidate_cam_all_def)
  moreover have "cs_cache (invalidate_cam_all io s) = replicate 32 cam_ent0" "cam_num (cs_ctl (invalidate_cam_all io s)) = 32"
    using assms(2) by (simp_all add: invalidate_cam_all_def)
  ultimately show ?thesis
    using unat_u8_div by (simp add: cam_mirror_def list_all_length cam_ent0_def [symmetric]) (simp add: cam_ent0_def)
qed

lemma le32_word4: "le32_bytes (word4 a b c d) = [a, b, c, d]"
  unfolding le32_bytes_def word4_def
  by (intro arg_cong2 [where f = Cons] refl bit_word_eqI) (auto simp: bit_simps dest: bit_imp_le_length)

lemma le32_word0:
  "le32_bytes (ucast (c :: u16) OR push_bit 16 (ucast a) OR push_bit 24 (ucast b)) = [ucast c, ucast (drop_bit 8 c), a, b]"
  unfolding le32_bytes_def
  by (intro arg_cong2 [where f = Cons] refl bit_word_eqI) (auto simp: bit_simps dest: bit_imp_le_length)

lemma ent_bytes:
  assumes "cam_ent_ok e"
  shows "concat (map (\<lambda>j. le32_bytes (cam_wdata (ce_ctrl e) (ce_mac e) (ce_key e) j)) [0..<6]) =
    [ucast (ce_ctrl e), ucast (drop_bit 8 (ce_ctrl e))] @ ce_mac e @ ce_key e"
proof -
  have n: "xs = map ((!) xs) [0..<length xs]" for xs :: bytes by (simp add: map_nth)
  have m: "ce_mac e = map ((!) (ce_mac e)) [0..<6]" and k: "ce_key e = map ((!) (ce_key e)) [0..<16]"
    using assms n [of "ce_mac e"] n [of "ce_key e"] by (simp_all add: cam_ent_ok_def)
  have u: "[0..<6] = [0, 1, 2, 3, 4, 5 :: nat]" "[0..<16] = [0, 1, 2, 3, 4, 5, 6, 7, 8, 9, 10, 11, 12, 13, 14, 15 :: nat]"
    by (simp_all add: upt_rec)
  show ?thesis
    by (subst (2) m, subst (2) k) (simp add: u cam_wdata_def le32_word0 le32_word4 numeral_2_eq_2)
qed

lemma cam_addr_or: "i < 32 \<Longrightarrow> j < 8 \<Longrightarrow> push_bit 3 i OR of_nat j = (push_bit 3 i + of_nat j :: u8)"
proof -
  assume "i < 32" and j: "j < 8"
  have t: "take_bit 3 j = j" using j by (simp add: take_bit_nat_eq_self)
  have "\<not> bit j n" if "3 \<le> n" for n using that bit_take_bit_iff [of 3 j n] by (simp add: t)
  then have "push_bit 3 i AND of_nat j = (0 :: u8)" by (intro bit_word_eqI) (auto simp: bit_simps)
  then show ?thesis by (simp add: disjunctive_add_eq_or)
qed

lemma read_cam_words_chip:
  assumes "cam_chip io mem" and "i < 32" and "from + n \<le> 8"
  shows "\<exists>w'. read_cam_words io i from n w = Some (map (\<lambda>j. mem w (push_bit 3 i + of_nat j)) [from..<from + n], w') \<and> mem w' = mem w"
  using assms(3)
proof (induction n arbitrary: "from" w)
  case (Suc n)
  obtain w1 where w1: "rtw_sec_read_cam io (push_bit 3 i OR of_nat from) w = Some (mem w (push_bit 3 i OR of_nat from), w1)" "mem w1 = mem w"
    using read_cam_chip [OF assms(1)] by blast
  obtain w2 where "read_cam_words io i (from + 1) n w1 =
      Some (map (\<lambda>j. mem w1 (push_bit 3 i + of_nat j)) [from + 1..<from + 1 + n], w2)" "mem w2 = mem w1"
    using Suc.IH [of "from + 1" w1] Suc.prems by auto
  then show ?case using w1 cam_addr_or [OF assms(2), of "from"] Suc.prems by (simp add: upt_rec [of "from"])
qed auto

text \<open>Reading an entry of the CAM back gives what the copy holds.\<close>

lemma read_cam_ent_mirror:
  assumes "cam_chip io mem" and m: "cam_mirror mem s" and "i < 32"
  defines "e \<equiv> cs_cache s ! unat i"
  shows "\<exists>w. rtw_sec_read_cam_ent io i True True True (cs_chip s) =
    Some (\<lparr>cr_ctrl = Some (ce_ctrl e), cr_mac = Some (ce_mac e), cr_key = Some (ce_key e)\<rparr>, w) \<and> mem w = mem (cs_chip s)"
proof -
  have i: "unat i < 32" using assms(3) by (simp add: word_less_nat_alt)
  have ok: "cam_ent_ok e" using cam_mirrorD(3) [OF m i] by (simp add: e_def)
  obtain w where w: "read_cam_words io i 0 6 (cs_chip s) =
      Some (map (\<lambda>j. mem (cs_chip s) (push_bit 3 i + of_nat j)) [0..<6], w)" "mem w = mem (cs_chip s)"
    using read_cam_words_chip [OF assms(1,3), of 0 6] by auto
  have "mem (cs_chip s) (push_bit 3 i + of_nat j) = cam_wdata (ce_ctrl e) (ce_mac e) (ce_key e) j" if "j < 6" for j
  proof -
    have "unat (push_bit 3 i + of_nat j :: u8) = 8 * unat i + j" using cam_addr [OF assms(3)] that by simp
    then show ?thesis using m that by (simp add: cam_mirror_def Let_def e_def)
  qed
  then have bs: "concat (map le32_bytes (map (\<lambda>j. mem (cs_chip s) (push_bit 3 i + of_nat j)) [0..<6])) =
      [ucast (ce_ctrl e), ucast (drop_bit 8 (ce_ctrl e))] @ ce_mac e @ ce_key e"
    unfolding ent_bytes [OF ok, symmetric] map_map by (intro arg_cong [of _ _ concat] map_cong) auto
  have c: "le16 (ucast (ce_ctrl e)) (ucast (drop_bit 8 (ce_ctrl e))) = ce_ctrl e"
    unfolding le16_def by (rule bit_word_eqI) (auto simp: bit_simps)
  show ?thesis
    using w(2) ok c
    by (simp add: rtw_sec_read_cam_ent_def w(1) bs [unfolded map_map] Let_def seg_def cam_ent_ok_def)
qed

section \<open>The entries as slots\<close>

text \<open>What the driver knows of an entry: whether it is in use, and what it holds.\<close>

definition cam_slot :: "'w cam_st \<Rightarrow> u8 \<Rightarrow> bool \<times> sec_cam_ent" where
  "cam_slot s i = (if i < 32 then (rtw_sec_camid_is_used (cs_ctl s) i, cs_cache s ! unat i) else (False, cam_ent0))"

definition slot_chk :: "bytes option \<Rightarrow> int \<Rightarrow> int \<Rightarrow> bool \<times> sec_cam_ent \<Rightarrow> bool" where
  "slot_chk addr kid gk = (\<lambda>(u, e).
     (case addr of None \<Rightarrow> True | Some a \<Rightarrow> ce_mac e = take 6 a) \<and>
     (0 \<le> kid \<longrightarrow> kid = uint (ce_ctrl e AND 0x03)) \<and>
     (gk \<noteq> -1 \<longrightarrow> (gk \<noteq> 0) = (u \<and> ce_ctrl e AND 0x40 \<noteq> 0)))"

text \<open>All but the entries, their copy and the bitmap of those in use is left alone.\<close>

definition cam_frame :: "'w cam_st \<Rightarrow> 'w cam_st \<Rightarrow> bool" where
  "cam_frame s s' \<longleftrightarrow> cs_rcr s' = cs_rcr s \<and> cs_key_index s' = cs_key_index s \<and> cs_enc_algo s' = cs_enc_algo s \<and>
     (cs_ctl s')\<lparr>cam_used := 0\<rparr> = (cs_ctl s)\<lparr>cam_used := 0\<rparr>"

text \<open>The state \<open>s'\<close> mirrors the CAM like \<open>s\<close>, with the slots \<open>f\<close>.\<close>

definition cam_becomes :: "('w \<Rightarrow> u8 \<Rightarrow> u32) \<Rightarrow> 'w cam_st \<Rightarrow> 'w cam_st \<Rightarrow> (u8 \<Rightarrow> bool \<times> sec_cam_ent) \<Rightarrow> bool" where
  "cam_becomes mem s s' f \<longleftrightarrow> cam_mirror mem s' \<and> cam_frame s s' \<and> cam_slot s' = f"

lemma cam_becomesD:
  assumes "cam_becomes mem s s' f"
  shows "cam_mirror mem s'" and "cam_frame s s'" and "cam_slot s' = f"
  using assms by (simp_all add: cam_becomes_def)

lemma cam_frame_trans: "cam_frame s s' \<Longrightarrow> cam_frame s' s'' \<Longrightarrow> cam_frame s s''"
  by (simp add: cam_frame_def)

lemma cam_frameD:
  assumes "cam_frame s s'"
  shows "cam_sec_cap (cs_ctl s') = cam_sec_cap (cs_ctl s)" and "cam_flags (cs_ctl s') = cam_flags (cs_ctl s)"
    and "cam_num (cs_ctl s') = cam_num (cs_ctl s)"
  using assms unfolding cam_frame_def by (metis cam_ctl.surjective cam_ctl.update_convs(4) cam_ctl.select_convs)+

lemma cam_becomes_refl: "cam_mirror mem s \<Longrightarrow> cam_becomes mem s s (cam_slot s)"
  by (simp add: cam_becomes_def cam_frame_def)

lemma cam_becomes_trans: "cam_becomes mem s s' f \<Longrightarrow> cam_becomes mem s' s'' g \<Longrightarrow> cam_becomes mem s s'' g"
  by (auto simp: cam_becomes_def intro: cam_frame_trans)

lemma sec_cam_as_macid:
  "rtw_sec_camid_is_set = rtw_macid_is_set" "rtw_sec_cam_map_set = rtw_macid_map_set" "rtw_sec_cam_map_clr = rtw_macid_map_clr"
  by (simp_all add: fun_eq_iff rtw_sec_camid_is_set_def rtw_macid_is_set_def rtw_sec_cam_map_set_def rtw_macid_map_set_def
      rtw_sec_cam_map_clr_def rtw_macid_map_clr_def)

lemma slot_used:
  assumes "cam_num (cs_ctl s) = 32"
  shows "rtw_sec_camid_is_used (cs_ctl s) i = fst (cam_slot s i)"
  using assms by (auto simp: cam_slot_def rtw_sec_camid_is_used_def not_le)

lemma slot_is_set:
  assumes "cam_num (cs_ctl s) = 32"
  shows "fst (cam_slot s i) = rtw_macid_is_set (cam_used (cs_ctl s)) i"
  using assms by (auto simp: cam_slot_def rtw_sec_camid_is_used_def sec_cam_as_macid macid_bit not_le)

lemma slot_ent: "i < 32 \<Longrightarrow> snd (cam_slot s i) = cs_cache s ! unat i"
  by (simp add: cam_slot_def)

lemma cam_slot_out: "\<not> i < 32 \<Longrightarrow> cam_slot s i = (False, cam_ent0)"
  by (simp add: cam_slot_def)

lemma chk_slot:
  assumes "cam_num (cs_ctl s) = 32" and "i < 32"
  shows "cam_cache_chk s i addr kid gk = slot_chk addr kid gk (cam_slot s i)"
  using assms by (auto simp: cam_cache_chk_def slot_chk_def cam_slot_def rtw_camid_is_gk_def Let_def split: option.splits)

lemma cam_ids_find:
  assumes "cam_num c = 32"
  shows "List.find P (cam_ids c) = Some i \<Longrightarrow> i < 32 \<and> P i" and "List.find P (cam_ids c) = None \<longleftrightarrow> (\<forall>i<32. \<not> P i)"
proof -
  have set: "set (cam_ids c) = {i. i < 32}"
  proof -
    have "\<exists>n<32. i = of_nat n" if "i < 32" for i :: u8
      using that by (intro exI [of _ "unat i"]) (simp add: word_less_nat_alt)
    moreover have "(of_nat n :: u8) < 32" if "n < 32" for n
      using that by (simp add: word_less_nat_alt unat_of_nat)
    ultimately show ?thesis using assms by (auto simp: cam_ids_def image_iff Bex_def)
  qed
  show "List.find P (cam_ids c) = Some i \<Longrightarrow> i < 32 \<and> P i"
    using set by (metis (mono_tags) find_Some_iff nth_mem mem_Collect_eq)
  show "List.find P (cam_ids c) = None \<longleftrightarrow> (\<forall>i<32. \<not> P i)"
    using set by (auto simp: find_None_iff)
qed

lemma cam_ids_first:
  assumes "cam_num c = 32" and "i < 32" and "P i" and "\<forall>j<i. \<not> P j"
  shows "List.find P (cam_ids c) = Some i"
proof -
  have u: "unat i < 32" using assms(2) by (simp add: word_less_nat_alt)
  have "of_nat j < i" if "j < unat i" for j using that u by (simp add: word_less_nat_alt unat_of_nat)
  then have "\<not> P (cam_ids c ! j)" if "j < unat i" for j using assms(1,4) that u by (simp add: cam_ids_def)
  then show ?thesis
    unfolding find_Some_iff using assms(1,3) u by (intro exI [of _ "unat i"]) (simp add: cam_ids_def)
qed

lemma camid_search_slot:
  assumes "cam_num (cs_ctl s) = 32"
  shows "rtw_camid_search s addr kid gk = Some i \<Longrightarrow> i < 32 \<and> slot_chk addr kid gk (cam_slot s i)"
    and "rtw_camid_search s addr kid gk = None \<longleftrightarrow> (\<forall>i<32. \<not> slot_chk addr kid gk (cam_slot s i))"
proof -
  note f = cam_ids_find [OF assms, of "\<lambda>i. cam_cache_chk s i addr kid gk", folded rtw_camid_search_def]
  show "rtw_camid_search s addr kid gk = Some i \<Longrightarrow> i < 32 \<and> slot_chk addr kid gk (cam_slot s i)"
    using f(1) chk_slot [OF assms] by metis
  show "rtw_camid_search s addr kid gk = None \<longleftrightarrow> (\<forall>i<32. \<not> slot_chk addr kid gk (cam_slot s i))"
    unfolding f(2) using chk_slot [OF assms] by metis
qed

text \<open>The two compound steps: an entry is emptied, an entry is filled.\<close>

lemma becomes_put:
  assumes m: "cam_mirror mem (s\<lparr>cs_chip := w, cs_cache := (cs_cache s)[unat i := e]\<rparr>)" and i: "i < 32"
    and s': "s' = s\<lparr>cs_ctl := (cs_ctl s)\<lparr>cam_used := (if u then rtw_macid_map_set else rtw_macid_map_clr) (cam_used (cs_ctl s)) i\<rparr>,
      cs_chip := w, cs_cache := (cs_cache s)[unat i := e]\<rparr>"
  shows "cam_becomes mem s s' ((cam_slot s)(i := (u, e)))"
proof -
  have n: "cam_num (cs_ctl s) = 32" "length (cs_cache s) = 32" using cam_mirrorD(1,2) [OF m] by simp_all
  have u: "unat i < 32" using i by (simp add: word_less_nat_alt)
  have "unat i = unat j \<longleftrightarrow> i = j" for j by (simp add: word_unat_eq_iff)
  then have "cam_slot s' j = ((cam_slot s)(i := (u, e))) j" for j
    unfolding s' using n u i
    by (auto simp: cam_slot_def rtw_sec_camid_is_used_def sec_cam_as_macid nth_list_update not_le)
  moreover have "cam_mirror mem s'" using m n by (simp add: s' cam_mirror_def)
  ultimately show ?thesis by (simp add: cam_becomes_def fun_eq_iff cam_frame_def s')
qed

lemma camid_free_eq:
  assumes "cam_num (cs_ctl s) = 32" and "i < 32"
  shows "rtw_camid_free i s = s\<lparr>cs_ctl := (cs_ctl s)\<lparr>cam_used := rtw_macid_map_clr (cam_used (cs_ctl s)) i\<rparr>\<rparr>"
    and "rtw_camid_set i s = s\<lparr>cs_ctl := (cs_ctl s)\<lparr>cam_used := rtw_macid_map_set (cam_used (cs_ctl s)) i\<rparr>\<rparr>"
  using assms by (simp_all add: rtw_camid_free_def rtw_camid_set_def sec_cam_as_macid)

lemma clear_free_slot:
  assumes "cam_chip io mem" and m: "cam_mirror mem s" and i: "i < 32"
  obtains s1 where "clear_cam_entry io i s = Some s1"
    and "cam_becomes mem s (rtw_camid_free i s1) ((cam_slot s)(i := (False, cam_ent0)))"
proof -
  obtain w where w: "clear_cam_entry io i s = Some (s\<lparr>cs_chip := w, cs_cache := (cs_cache s)[unat i := cam_ent0]\<rparr>)"
    "cam_mirror mem (s\<lparr>cs_chip := w, cs_cache := (cs_cache s)[unat i := cam_ent0]\<rparr>)"
    using clear_cam_entry_mirror [OF assms] by blast
  have "cam_becomes mem s (rtw_camid_free i (s\<lparr>cs_chip := w, cs_cache := (cs_cache s)[unat i := cam_ent0]\<rparr>))
      ((cam_slot s)(i := (False, cam_ent0)))"
    by (rule becomes_put [OF w(2) i]) (use i cam_mirrorD(1) [OF m] in \<open>simp add: camid_free_eq\<close>)
  then show ?thesis using that w(1) by blast
qed

lemma free_clear_slot:
  assumes "cam_chip io mem" and m: "cam_mirror mem s" and i: "i < 32" and "\<not> u \<Longrightarrow> cam_slot s i = (False, cam_ent0)"
  obtains s1 where "free_and_clear io u i s = Some s1" and "cam_becomes mem s s1 ((cam_slot s)(i := (False, cam_ent0)))"
proof (cases u)
  case False
  then show ?thesis using that [of s] cam_becomes_refl [OF m] assms(4) by (simp add: free_and_clear_def fun_upd_idem)
next
  case True
  have n: "cam_num (cs_ctl s) = 32" using cam_mirrorD [OF m] by auto
  note f = camid_free_eq(1) [OF n i]
  have m': "cam_mirror mem (rtw_camid_free i s)" unfolding f using cam_mirror_cong(1) [OF m] n by simp
  obtain w where w: "clear_cam_entry io i (rtw_camid_free i s) =
      Some ((rtw_camid_free i s)\<lparr>cs_chip := w, cs_cache := (cs_cache s)[unat i := cam_ent0]\<rparr>)"
    and mw: "cam_mirror mem ((rtw_camid_free i s)\<lparr>cs_chip := w, cs_cache := (cs_cache s)[unat i := cam_ent0]\<rparr>)"
    using clear_cam_entry_mirror [OF assms(1) m' i] by (auto simp: f)
  have mw': "cam_mirror mem (s\<lparr>cs_chip := w, cs_cache := (cs_cache s)[unat i := cam_ent0]\<rparr>)"
    using mw n by (simp add: f cam_mirror_def)
  have "cam_becomes mem s ((rtw_camid_free i s)\<lparr>cs_chip := w, cs_cache := (cs_cache s)[unat i := cam_ent0]\<rparr>)
      ((cam_slot s)(i := (False, cam_ent0)))"
    by (rule becomes_put [OF mw' i]) (simp add: f)
  then show ?thesis using that w True by (simp add: free_and_clear_def)
qed

lemma write_set_slot:
  assumes "cam_chip io mem" and m: "cam_mirror mem s" and i: "i < 32" and e: "cam_ent_ok e"
    and "\<not> u \<Longrightarrow> cam_slot s i = (u, e)"
  obtains s1 where "write_and_set io u i e s = Some s1" and "cam_becomes mem s s1 ((cam_slot s)(i := (u, e)))"
proof (cases u)
  case False
  then show ?thesis using that [of s] cam_becomes_refl [OF m] assms(5) by (simp add: write_and_set_def fun_upd_idem)
next
  case True
  obtain w where w: "write_cam io i (ce_ctrl e) (ce_mac e) (ce_key e) s = Some (s\<lparr>cs_chip := w, cs_cache := (cs_cache s)[unat i := e]\<rparr>)"
    "cam_mirror mem (s\<lparr>cs_chip := w, cs_cache := (cs_cache s)[unat i := e]\<rparr>)"
    using write_cam_mirror [OF assms(1) m i e] by blast
  have "cam_becomes mem s (rtw_camid_set i (s\<lparr>cs_chip := w, cs_cache := (cs_cache s)[unat i := e]\<rparr>)) ((cam_slot s)(i := (u, e)))"
    by (rule becomes_put [OF w(2) i]) (use True i cam_mirrorD(1) [OF m] in \<open>simp add: camid_free_eq\<close>)
  then show ?thesis using that w(1) True by (simp add: write_and_set_def)
qed

text \<open>A key written without touching the bitmap.\<close>

lemma write_cam_slot:
  assumes "cam_chip io mem" and m: "cam_mirror mem s" and i: "i < 32" and e: "cam_ent_ok e"
  obtains s1 where "write_cam io i (ce_ctrl e) (ce_mac e) (ce_key e) s = Some s1"
    and "cam_becomes mem s s1 ((cam_slot s)(i := (fst (cam_slot s i), e)))"
proof -
  obtain w where w: "write_cam io i (ce_ctrl e) (ce_mac e) (ce_key e) s = Some (s\<lparr>cs_chip := w, cs_cache := (cs_cache s)[unat i := e]\<rparr>)"
    "cam_mirror mem (s\<lparr>cs_chip := w, cs_cache := (cs_cache s)[unat i := e]\<rparr>)"
    using write_cam_mirror [OF assms] by blast
  have n: "cam_num (cs_ctl s) = 32" using cam_mirrorD(1) [OF m] .
  have same: "(if fst (cam_slot s i) then rtw_macid_map_set else rtw_macid_map_clr) (cam_used (cs_ctl s)) i = cam_used (cs_ctl s)"
    using i by (auto simp: slot_is_set [OF n] macid_bit rtw_macid_map_set_def rtw_macid_map_clr_def intro!: bit_word_eqI
        simp: bit_simps bit_BITW)
  have "cam_becomes mem s (s\<lparr>cs_chip := w, cs_cache := (cs_cache s)[unat i := e]\<rparr>) ((cam_slot s)(i := (fst (cam_slot s i), e)))"
    by (rule becomes_put [OF w(2) i]) (simp add: same)
  then show ?thesis using that w(1) by blast
qed

section \<open>Moving and clearing\<close>

text \<open>Every entry that is not in use is empty.\<close>

definition cam_tidy :: "'w cam_st \<Rightarrow> bool" where
  "cam_tidy s \<longleftrightarrow> (\<forall>i. \<not> fst (cam_slot s i) \<longrightarrow> cam_slot s i = (False, cam_ent0))"

lemma cam_tidyD: "cam_tidy s \<Longrightarrow> \<not> fst (cam_slot s i) \<Longrightarrow> cam_slot s i = (False, cam_ent0)"
  by (simp add: cam_tidy_def)

lemma slot_ent_ok: "cam_mirror mem s \<Longrightarrow> cam_ent_ok (snd (cam_slot s i))"
  using cam_mirrorD(3) [of mem s "unat i"] by (simp add: cam_slot_def word_less_nat_alt)

lemma sec_cam_swap_slots:
  assumes c: "cam_chip io mem" and m: "cam_mirror mem s" and t: "cam_tidy s" and "a < 32" and "b < 32"
  shows "\<exists>s'. rtw_sec_cam_swap io a b s = Some s' \<and> cam_becomes mem s s' ((cam_slot s)(a := cam_slot s b, b := cam_slot s a))"
proof (cases "a = b")
  case True
  then show ?thesis using cam_becomes_refl [OF m] by (simp add: rtw_sec_cam_swap_def)
next
  case False
  have n: "cam_num (cs_ctl s) = 32" using cam_mirrorD(1) [OF m] .
  let ?z = "(False, cam_ent0)" and ?f = "cam_slot s"
  obtain s1 where s1: "free_and_clear io (fst (?f a)) a s = Some s1" "cam_becomes mem s s1 (?f(a := ?z))"
    using free_clear_slot [OF c m \<open>a < 32\<close>] cam_tidyD [OF t] by metis
  note m1 = cam_becomesD [OF s1(2)]
  have "\<not> fst (?f b) \<Longrightarrow> cam_slot s1 b = ?z" using cam_tidyD [OF t] by (simp add: m1(3))
  then obtain s2 where s2: "free_and_clear io (fst (?f b)) b s1 = Some s2" "cam_becomes mem s1 s2 ((cam_slot s1)(b := ?z))"
    using free_clear_slot [OF c m1(1) \<open>b < 32\<close>] by metis
  note m2 = cam_becomesD [OF s2(2)]
  have "\<not> fst (?f a) \<Longrightarrow> cam_slot s2 b = (fst (?f a), snd (?f a))" using cam_tidyD [OF t, of a] by (simp add: m2(3))
  then obtain s3 where s3: "write_and_set io (fst (?f a)) b (snd (?f a)) s2 = Some s3"
    "cam_becomes mem s2 s3 ((cam_slot s2)(b := (fst (?f a), snd (?f a))))"
    using write_set_slot [OF c m2(1) \<open>b < 32\<close> slot_ent_ok [OF m]] by metis
  note m3 = cam_becomesD [OF s3(2)]
  have "\<not> fst (?f b) \<Longrightarrow> cam_slot s3 a = (fst (?f b), snd (?f b))"
    using cam_tidyD [OF t, of b] False by (simp add: m3(3) m2(3) m1(3))
  then obtain s4 where s4: "write_and_set io (fst (?f b)) a (snd (?f b)) s3 = Some s4"
    "cam_becomes mem s3 s4 ((cam_slot s3)(a := (fst (?f b), snd (?f b))))"
    using write_set_slot [OF c m3(1) \<open>a < 32\<close> slot_ent_ok [OF m]] by metis
  have "rtw_sec_cam_swap io a b s = Some s4"
    using False s1(1) s2(1) s3(1) s4(1) slot_ent [of a s] slot_ent [of b s] assms(4,5)
    by (simp add: rtw_sec_cam_swap_def Let_def slot_used [OF n])
  moreover have "(cam_slot s3)(a := (fst (?f b), snd (?f b))) = ?f(a := ?f b, b := ?f a)"
    using False by (auto simp: m3(3) m2(3) m1(3) fun_eq_iff)
  ultimately show ?thesis
    using cam_becomes_trans [OF s1(2) cam_becomes_trans [OF s2(2) cam_becomes_trans [OF s3(2) s4(2)]]] by auto
qed

lemma swap_tidy:
  assumes "cam_tidy s" and "cam_slot s' = (cam_slot s)(a := cam_slot s b, b := cam_slot s a)"
  shows "cam_tidy s'"
  using assms by (auto simp: cam_tidy_def)

text \<open>The slots as a whole, whatever their numbers.\<close>

definition cam_slots :: "'w cam_st \<Rightarrow> (bool \<times> sec_cam_ent) multiset" where
  "cam_slots s = image_mset (cam_slot s) (mset_set UNIV)"

lemma swap_slots:
  assumes "cam_slot s' = (cam_slot s)(a := cam_slot s b, b := cam_slot s a)"
  shows "cam_slots s' = cam_slots s"
proof -
  let ?p = "\<lambda>i. if i = a then b else if i = b then a else i"
  have "cam_slot s' = cam_slot s \<circ> ?p" unfolding assms by (auto simp: fun_eq_iff)
  then have "cam_slots s' = image_mset (cam_slot s) (image_mset ?p (mset_set UNIV))"
    by (simp add: cam_slots_def multiset.map_comp)
  also have "image_mset ?p (mset_set UNIV) = mset_set (range ?p)"
    by (rule image_mset_mset_set) (auto simp: inj_on_def)
  also have "range ?p = UNIV" unfolding surj_def by metis
  finally show ?thesis by (simp add: cam_slots_def)
qed

definition upper_full :: "'w cam_st \<Rightarrow> bool" where
  "upper_full s \<longleftrightarrow> (\<forall>i. 4 \<le> i \<and> i < 32 \<longrightarrow> fst (cam_slot s i))"

lemma empty_entry:
  assumes n: "cam_num (cs_ctl s) = 32"
  shows "rtw_get_empty_cam_entry (cs_ctl s) 4 = Some e \<Longrightarrow> 4 \<le> e \<and> e < 32 \<and> \<not> fst (cam_slot s e)"
    and "rtw_get_empty_cam_entry (cs_ctl s) 4 = None \<longleftrightarrow> upper_full s"
  using cam_ids_find [OF n, of "\<lambda>i. 4 \<le> i \<and> \<not> rtw_sec_camid_is_used (cs_ctl s) i", folded rtw_get_empty_cam_entry_def]
  unfolding slot_used [OF n] upper_full_def by blast+

lemma clean_dk_full:
  assumes "cam_num (cs_ctl s) = 32" and "upper_full s"
  shows "clean_dk io is s = Some s"
  using empty_entry(2) [OF assms(1)] assms(2) by (induction "is") auto

lemma clean_dk_slots:
  assumes "cam_chip io mem"
  shows "cam_mirror mem s \<Longrightarrow> cam_tidy s \<Longrightarrow> \<forall>i\<in>set is. i < 4 \<Longrightarrow> distinct is \<Longrightarrow>
    \<exists>s'. clean_dk io is s = Some s' \<and> cam_mirror mem s' \<and> cam_frame s s' \<and> cam_tidy s' \<and> cam_slots s' = cam_slots s \<and>
      (upper_full s' \<or> (\<forall>i\<in>set is. \<not> fst (cam_slot s' i))) \<and> (\<forall>i<4. i \<notin> set is \<longrightarrow> cam_slot s' i = cam_slot s i)"
proof (induction "is" arbitrary: s)
  case Nil
  then show ?case by (auto simp: cam_frame_def)
next
  case (Cons i "is")
  note n = cam_mirrorD(1) [OF Cons.prems(1)]
  have i: "i < 4" "i < 32" "i \<notin> set is" using Cons.prems(3,4) by (auto simp: word_less_nat_alt)
  have rest: "\<forall>i\<in>set is. i < 4" "distinct is" using Cons.prems(3,4) by auto
  consider (free) "\<not> fst (cam_slot s i)" | (full) "fst (cam_slot s i)" "upper_full s"
    | (move) e where "fst (cam_slot s i)" "rtw_get_empty_cam_entry (cs_ctl s) 4 = Some e"
    using empty_entry(2) [OF n] by (cases "rtw_get_empty_cam_entry (cs_ctl s) 4") auto
  then show ?case
  proof cases
    case free
    obtain s' where s': "clean_dk io is s = Some s'" "cam_mirror mem s'" "cam_frame s s'" "cam_tidy s'" "cam_slots s' = cam_slots s"
      "upper_full s' \<or> (\<forall>i\<in>set is. \<not> fst (cam_slot s' i))" "\<forall>i<4. i \<notin> set is \<longrightarrow> cam_slot s' i = cam_slot s i"
      using Cons.IH [OF Cons.prems(1,2) rest] by blast
    then show ?thesis using free i by (intro exI [of _ s']) (auto simp: slot_used [OF n])
  next
    case full
    then show ?thesis using clean_dk_full [OF n, of io "i # is"] Cons.prems(1,2) by (auto simp: cam_frame_def)
  next
    case move
    have e: "4 \<le> e" "e < 32" "\<not> fst (cam_slot s e)" using empty_entry(1) [OF n move(2)] by auto
    then have "0 < e" using i(1) by (simp add: word_less_nat_alt word_le_nat_alt)
    obtain s1 where s1: "rtw_sec_cam_swap io i e s = Some s1"
      "cam_becomes mem s s1 ((cam_slot s)(i := cam_slot s e, e := cam_slot s i))"
      using sec_cam_swap_slots [OF assms Cons.prems(1,2) i(2) e(2)] by blast
    note b = cam_becomesD [OF s1(2)]
    obtain s' where s': "clean_dk io is s1 = Some s'" "cam_mirror mem s'" "cam_frame s1 s'" "cam_tidy s'" "cam_slots s' = cam_slots s1"
      "upper_full s' \<or> (\<forall>i\<in>set is. \<not> fst (cam_slot s' i))" "\<forall>i<4. i \<notin> set is \<longrightarrow> cam_slot s' i = cam_slot s1 i"
      using Cons.IH [OF b(1) swap_tidy [OF Cons.prems(2) b(3)] rest] by blast
    have run: "clean_dk io (i # is) s = Some s'"
      using move s1(1) s'(1) \<open>0 < e\<close> by (simp add: slot_used [OF n])
    have "e \<noteq> i" using e(3) move(1) by auto
    then have now: "\<not> fst (cam_slot s1 i)" using e(3) by (simp add: b(3))
    have "j \<noteq> e" if "j < 4" for j using that e(1) by auto
    then have other: "cam_slot s1 j = cam_slot s j" if "j < 4" "j \<noteq> i" for j using that by (simp add: b(3))
    show ?thesis
      using run s' now i other cam_frame_trans [OF b(2) s'(3)] swap_slots [OF b(3)] by (intro exI [of _ s']) auto
  qed
qed

text \<open>The loop that clears the keys of an address, in \<open>set_stakey_hdl\<close> and \<open>rtw_clearstakey_cmd\<close>.\<close>

partial_function (option) clear_keys :: "'w chip_io \<Rightarrow> bytes \<Rightarrow> int \<Rightarrow> 'w cam_st \<Rightarrow> 'w cam_st option" where
  "clear_keys io addr gk s =
     (case rtw_camid_search s (Some addr) (-1) gk of
        None \<Rightarrow> Some s
      | Some i \<Rightarrow> Option.bind (clear_cam_entry io i s) (\<lambda>s. clear_keys io addr gk (rtw_camid_free i s)))"

lemma clear_keys_slots:
  assumes c: "cam_chip io mem" and z: "take 6 addr \<noteq> replicate 6 0 \<or> gk = 1"
  shows "cam_mirror mem s \<Longrightarrow> \<exists>s'. clear_keys io addr gk s = Some s' \<and>
    cam_becomes mem s s' (\<lambda>i. if i < 32 \<and> slot_chk (Some addr) (-1) gk (cam_slot s i) then (False, cam_ent0) else cam_slot s i)"
proof (induction "card {i. i < 32 \<and> slot_chk (Some addr) (-1) gk (cam_slot s i)}" arbitrary: s rule: less_induct)
  case less
  let ?P = "\<lambda>s i. i < 32 \<and> slot_chk (Some addr) (-1) gk (cam_slot s i)"
  note n = cam_mirrorD(1) [OF less.prems]
  show ?case
  proof (cases "rtw_camid_search s (Some addr) (-1) gk")
    case None
    then have no: "\<not> ?P s i" for i using camid_search_slot(2) [OF n] by blast
    have "clear_keys io addr gk s = Some s" by (subst clear_keys.simps) (simp add: None)
    then show ?thesis using cam_becomes_refl [OF less.prems] no by (auto simp: if_not_P cong: if_cong)
  next
    case (Some i)
    then have i: "?P s i" using camid_search_slot(1) [OF n] by blast
    obtain s1 where s1: "clear_cam_entry io i s = Some s1"
      "cam_becomes mem s (rtw_camid_free i s1) ((cam_slot s)(i := (False, cam_ent0)))"
      using clear_free_slot [OF c less.prems] i by blast
    let ?s1 = "rtw_camid_free i s1"
    note b = cam_becomesD [OF s1(2)]
    have gone: "\<not> slot_chk (Some addr) (-1) gk (False, cam_ent0)"
      using z by (auto simp: slot_chk_def cam_ent0_def)
    then have sub: "?P ?s1 j \<longleftrightarrow> ?P s j \<and> j \<noteq> i" for j by (simp add: b(3))
    have "{j. ?P ?s1 j} \<subset> {j. ?P s j}" using i sub by blast
    then have "card {j. ?P ?s1 j} < card {j. ?P s j}" by (intro psubset_card_mono) auto
    then obtain s' where s': "clear_keys io addr gk ?s1 = Some s'"
      "cam_becomes mem ?s1 s' (\<lambda>j. if ?P ?s1 j then (False, cam_ent0) else cam_slot ?s1 j)"
      using less.hyps b(1) by blast
    have "clear_keys io addr gk s = Some s'" by (subst clear_keys.simps) (simp add: Some s1(1) s'(1))
    moreover have "(\<lambda>j. if ?P ?s1 j then (False, cam_ent0) else cam_slot ?s1 j) = (\<lambda>j. if ?P s j then (False, cam_ent0) else cam_slot s j)"
      unfolding sub using i by (auto simp: fun_eq_iff b(3))
    ultimately show ?thesis using cam_becomes_trans [OF s1(2) s'(2)] by (intro exI [of _ s'] conjI) simp_all
  qed
qed

text \<open>An empty entry has the null address: its keys are never all cleared.\<close>

section \<open>Allocating\<close>

lemma map_set_slot:
  assumes m: "cam_mirror mem s" and i: "i < 32"
  shows "cam_becomes mem s (upd_ctl (\<lambda>c. c\<lparr>cam_used := rtw_sec_cam_map_set (cam_used c) i\<rparr>) s)
    ((cam_slot s)(i := (True, snd (cam_slot s i))))"
proof -
  note n = cam_mirrorD(1,2) [OF m]
  have e: "(cs_cache s)[unat i := snd (cam_slot s i)] = cs_cache s" using i by (simp add: slot_ent)
  show ?thesis
    by (rule becomes_put [where w = "cs_chip s" and e = "snd (cam_slot s i)" and u = True])
      (use m i in \<open>simp_all add: e sec_cam_as_macid\<close>)
qed

lemma get_camid_slot:
  assumes n: "cam_num (cs_ctl s) = 32" and "cam_sec_cap (cs_ctl s) = 0"
  shows "rtw_get_camid s sta (Some a) kid = Some i \<Longrightarrow> i < 32 \<and> (slot_chk (Some a) kid (-1) (cam_slot s i) \<or>
      4 \<le> i \<and> \<not> fst (cam_slot s i) \<and> (\<forall>j<32. \<not> slot_chk (Some a) kid (-1) (cam_slot s j)))"
    and "rtw_get_camid s sta (Some a) kid = None \<longleftrightarrow> upper_full s \<and> (\<forall>j<32. \<not> slot_chk (Some a) kid (-1) (cam_slot s j))"
proof -
  have g: "rtw_get_camid s sta (Some a) kid = (case rtw_camid_search s (Some a) kid (-1) of Some i \<Rightarrow> Some i
      | None \<Rightarrow> List.find (\<lambda>i. \<not> i < 4 \<and> \<not> fst (cam_slot s i)) (cam_ids (cs_ctl s)))"
    unfolding rtw_get_camid_def slot_used [OF n] using assms(2) by (simp add: rtw_camctl_chk_cap_def)
  note f = cam_ids_find [OF n, of "\<lambda>i. \<not> i < 4 \<and> \<not> fst (cam_slot s i)"]
  note c = camid_search_slot [OF n, of "Some a" kid "-1"]
  show "rtw_get_camid s sta (Some a) kid = Some i \<Longrightarrow> i < 32 \<and> (slot_chk (Some a) kid (-1) (cam_slot s i) \<or>
      4 \<le> i \<and> \<not> fst (cam_slot s i) \<and> (\<forall>j<32. \<not> slot_chk (Some a) kid (-1) (cam_slot s j)))"
  proof (cases "rtw_camid_search s (Some a) kid (-1)")
    case None
    assume "rtw_get_camid s sta (Some a) kid = Some i"
    then have "List.find (\<lambda>i. \<not> i < 4 \<and> \<not> fst (cam_slot s i)) (cam_ids (cs_ctl s)) = Some i"
      unfolding g None by (simp only: option.case)
    then have "i < 32 \<and> \<not> i < 4 \<and> \<not> fst (cam_slot s i)" by (rule f(1))
    moreover have "\<forall>j<32. \<not> slot_chk (Some a) kid (-1) (cam_slot s j)" using c(2) None by blast
    ultimately show ?thesis unfolding not_less by blast
  next
    case (Some k)
    assume "rtw_get_camid s sta (Some a) kid = Some i"
    then show ?thesis using c(1) [OF Some] Some unfolding g by simp
  qed
  show "rtw_get_camid s sta (Some a) kid = None \<longleftrightarrow> upper_full s \<and> (\<forall>j<32. \<not> slot_chk (Some a) kid (-1) (cam_slot s j))"
  proof (cases "rtw_camid_search s (Some a) kid (-1)")
    case None
    have "rtw_get_camid s sta (Some a) kid = None \<longleftrightarrow> (\<forall>i<32. \<not> (\<not> i < 4 \<and> \<not> fst (cam_slot s i)))"
      unfolding g None option.case by (rule f(2))
    also have "\<dots> \<longleftrightarrow> upper_full s" unfolding upper_full_def not_less [symmetric] by blast
    finally show ?thesis using c(2) None by blast
  next
    case (Some k)
    then show ?thesis using c(1) [OF Some] unfolding g by (simp, blast)
  qed
qed

text \<open>\<open>rtw_clean_dk_section\<close> empties the section of the default keys, as far as there is room elsewhere:
  it ends, no key is lost or changed, and the copy still mirrors the CAM.\<close>

lemma clean_dk_section_moves_keys:
  assumes "cam_chip io mem" and "cam_mirror mem s" and "cam_tidy s"
  shows "\<exists>s'. rtw_clean_dk_section io s = Some s' \<and> cam_mirror mem s' \<and> cam_slots s' = cam_slots s \<and>
    (upper_full s' \<or> (\<forall>i<4. cam_slot s' i = (False, cam_ent0)))"
proof -
  have d: "\<forall>i\<in>set [0, 1, 2, 3 :: u8]. i < 4" "distinct [0, 1, 2, 3 :: u8]" by simp_all
  have four: "i \<in> set [0, 1, 2, 3]" if "i < 4" for i :: u8
  proof -
    have "unat i < 4" using that by (simp add: word_less_nat_alt)
    then have "unat i \<in> {0, 1, 2, 3}" by auto
    then show ?thesis by (auto simp: word_unat_eq_iff)
  qed
  show ?thesis
    using clean_dk_slots [OF assms d] four cam_tidyD unfolding rtw_clean_dk_section_def by metis
qed

section \<open>An example\<close>

text \<open>A chip that is busy for one poll after each command.\<close>

record demo_chip =
  dc_mem :: "u8 \<Rightarrow> u32"
  dc_wdata :: u32
  dc_rdata :: u32
  dc_busy :: bool
  dc_rcr :: u32
  dc_scr :: u16
  dc_time :: int

definition demo_command :: "u32 \<Rightarrow> demo_chip \<Rightarrow> demo_chip" where
  "demo_command v w =
     (if bit v 30 then w\<lparr>dc_mem := \<lambda>_. 0\<rparr>
      else if bit v 16 then w\<lparr>dc_mem := (dc_mem w)(ucast v := dc_wdata w), dc_busy := True\<rparr>
      else w\<lparr>dc_rdata := dc_mem w (ucast v), dc_busy := True\<rparr>)"

definition demo_io :: "demo_chip chip_io" where
  "demo_io = \<lparr>chip_rd8 = (\<lambda>r w. (ucast (dc_scr w), w)), chip_rd16 = (\<lambda>r w. (dc_scr w, w)),
     chip_rd32 = (\<lambda>r w. if r = REG_CAMCMD then (if dc_busy w then (CAM_POLLINIG, w\<lparr>dc_busy := False, dc_time := dc_time w + 1\<rparr>) else (0, w))
                       else if r = REG_CAMREAD then (dc_rdata w, w) else (dc_rcr w, w)),
     chip_wr8 = (\<lambda>r v w. w\<lparr>dc_scr := (dc_scr w AND 0xff00) OR ucast v\<rparr>), chip_wr16 = (\<lambda>r v w. w\<lparr>dc_scr := v\<rparr>),
     chip_wr32 = (\<lambda>r v w. (True, if r = REG_CAMCMD then demo_command v w
                                 else if r = REG_CAMWRITE then w\<lparr>dc_wdata := v\<rparr> else w\<lparr>dc_rcr := v\<rparr>)),
     chip_removed = (\<lambda>w. False), chip_clock = dc_time\<rparr>"

lemma demo_cmd_bits:
  "bit (CAM_POLLINIG OR CAM_WRITE OR ucast (a :: u8)) 30 = False" "bit (CAM_POLLINIG OR CAM_WRITE OR ucast (a :: u8)) 16"
  "bit (CAM_POLLINIG OR ucast (a :: u8)) 30 = False" "bit (CAM_POLLINIG OR ucast (a :: u8)) 16 = False"
  "ucast (CAM_POLLINIG OR CAM_WRITE OR ucast (a :: u8)) = a" "ucast (CAM_POLLINIG OR ucast (a :: u8)) = a"
proof -
  have c: "CAM_POLLINIG = push_bit 31 1" "CAM_WRITE = push_bit 16 1" by (simp_all add: CAM_POLLINIG_def CAM_WRITE_def)
  have b: "bit CAM_POLLINIG n \<longleftrightarrow> n = 31" "bit CAM_WRITE n \<longleftrightarrow> n = 16" for n
    unfolding c bit_push_bit_iff bit_1_iff by auto
  show "bit (CAM_POLLINIG OR CAM_WRITE OR ucast (a :: u8)) 30 = False" "bit (CAM_POLLINIG OR CAM_WRITE OR ucast (a :: u8)) 16"
    "bit (CAM_POLLINIG OR ucast (a :: u8)) 30 = False" "bit (CAM_POLLINIG OR ucast (a :: u8)) 16 = False"
    "ucast (CAM_POLLINIG OR CAM_WRITE OR ucast (a :: u8)) = a" "ucast (CAM_POLLINIG OR ucast (a :: u8)) = a"
    by (auto simp: bit_simps b intro!: bit_word_eqI dest: bit_imp_le_length)
qed

lemma demo_cam_chip: "cam_chip demo_io dc_mem"
proof -
  have r: "REG_CAMCMD \<noteq> REG_CAMWRITE" "REG_CAMREAD \<noteq> REG_CAMCMD"
    by (simp_all add: REG_CAMCMD_def REG_CAMWRITE_def REG_CAMREAD_def)
  have once: "cam_completes demo_io 1 (chip_clock demo_io w) w (w\<lparr>dc_busy := False, dc_time := dc_time w + 1\<rparr>)"
    if "dc_busy w" for w
    using that by (simp add: cam_completes.simps demo_io_def CAM_POLLINIG_def SEC_CAM_ACCESS_TIMEOUT_MS_def)
  have wr: "dc_busy (snd (chip_wr32 demo_io REG_CAMCMD (CAM_POLLINIG OR CAM_WRITE OR ucast a) (snd (chip_wr32 demo_io REG_CAMWRITE d w))))"
    "dc_mem (snd (chip_wr32 demo_io REG_CAMCMD (CAM_POLLINIG OR CAM_WRITE OR ucast a) (snd (chip_wr32 demo_io REG_CAMWRITE d w)))) =
      (dc_mem w)(a := d)" for a d w
    using r by (simp_all add: demo_io_def demo_command_def demo_cmd_bits)
  have rd: "dc_busy (snd (chip_wr32 demo_io REG_CAMCMD (CAM_POLLINIG OR ucast a) w))"
    "dc_mem (snd (chip_wr32 demo_io REG_CAMCMD (CAM_POLLINIG OR ucast a) w)) = dc_mem w"
    "dc_rdata (snd (chip_wr32 demo_io REG_CAMCMD (CAM_POLLINIG OR ucast a) w)) = dc_mem w a" for a w
    by (simp_all add: demo_io_def demo_command_def demo_cmd_bits)
  have rr: "chip_rd32 demo_io REG_CAMREAD w = (dc_rdata w, w)" for w using r by (simp add: demo_io_def)
  show ?thesis
    unfolding cam_chip_def Let_def
  proof (intro conjI allI impI)
    fix w a d
    show "\<exists>k w'. cam_completes demo_io k (chip_clock demo_io (snd (chip_wr32 demo_io REG_CAMCMD (CAM_POLLINIG OR CAM_WRITE OR ucast a)
        (snd (chip_wr32 demo_io REG_CAMWRITE d w))))) (snd (chip_wr32 demo_io REG_CAMCMD (CAM_POLLINIG OR CAM_WRITE OR ucast a)
        (snd (chip_wr32 demo_io REG_CAMWRITE d w)))) w' \<and> dc_mem w' = (dc_mem w)(a := d)"
      using once [OF wr(1)] wr(2) by (intro exI conjI) (assumption, simp)
    show "\<exists>k w'. cam_completes demo_io k (chip_clock demo_io (snd (chip_wr32 demo_io REG_CAMCMD (CAM_POLLINIG OR ucast a) w)))
        (snd (chip_wr32 demo_io REG_CAMCMD (CAM_POLLINIG OR ucast a) w)) w' \<and> fst (chip_rd32 demo_io REG_CAMREAD w') = dc_mem w a \<and>
        dc_mem (snd (chip_rd32 demo_io REG_CAMREAD w')) = dc_mem w"
      unfolding rr using once [OF rd(1)] rd(2,3) by (intro exI conjI) (assumption, simp_all)
  qed (auto simp: demo_io_def demo_command_def)
qed

text \<open>A state with some entries in use.\<close>

definition demo_ent :: "(u8 \<times> sec_cam_ent) list \<Rightarrow> u8 \<Rightarrow> sec_cam_ent" where
  "demo_ent es i = (case map_of es i of Some e \<Rightarrow> e | None \<Rightarrow> cam_ent0)"

definition demo_key_state :: "(u8 \<times> sec_cam_ent) list \<Rightarrow> demo_chip cam_st" where
  "demo_key_state es =
     \<lparr>cs_ctl = \<lparr>cam_sec_cap = 0, cam_flags = 0, cam_num = 32, cam_used = foldr (\<lambda>e m. rtw_sec_cam_map_set m (fst e)) es 0\<rparr>,
      cs_cache = map (\<lambda>i. demo_ent es (of_nat i)) [0..<32], cs_rcr = 0, cs_key_index = 0, cs_enc_algo = 0,
      cs_chip = \<lparr>dc_mem = \<lambda>a. (let e = demo_ent es (of_nat (unat a div 8)) in cam_wdata (ce_ctrl e) (ce_mac e) (ce_key e) (unat a mod 8)),
                dc_wdata = 0, dc_rdata = 0, dc_busy = False, dc_rcr = 0, dc_scr = 0, dc_time = 0\<rparr>\<rparr>"

lemma demo_key_state:
  assumes "\<forall>(i, e)\<in>set es. i < 32 \<and> cam_ent_ok e"
  shows "cam_mirror dc_mem (demo_key_state es)" and "cam_tidy (demo_key_state es)"
    and "cam_sec_cap (cs_ctl (demo_key_state es)) = 0"
    and "cam_slot (demo_key_state es) i = (map_of es i \<noteq> None, demo_ent es i)"
proof -
  have ok: "cam_ent_ok (demo_ent es i)" for i
    using assms by (auto simp: demo_ent_def split: option.splits dest: map_of_SomeD)
  show m: "cam_mirror dc_mem (demo_key_state es)"
    using ok unat_u8_div by (simp add: cam_mirror_def demo_key_state_def list_all_length)
  have set: "rtw_macid_is_set (foldr (\<lambda>e m. rtw_macid_map_set m (fst e)) es 0) i \<longleftrightarrow> map_of es i \<noteq> None" for i
    using assms by (induction es) auto
  have none: "map_of es i = None" if "\<not> i < 32" for i
    using assms that by (auto simp: map_of_eq_None_iff)
  show s: "cam_slot (demo_key_state es) i = (map_of es i \<noteq> None, demo_ent es i)" for i
  proof (rule prod_eqI)
    show "fst (cam_slot (demo_key_state es) i) = fst (map_of es i \<noteq> None, demo_ent es i)"
      unfolding slot_is_set [OF cam_mirrorD(1) [OF m]] using set by (simp add: demo_key_state_def sec_cam_as_macid)
    show "snd (cam_slot (demo_key_state es) i) = snd (map_of es i \<noteq> None, demo_ent es i)"
      using none [of i] by (cases "i < 32") (simp_all add: slot_ent cam_slot_out demo_key_state_def word_less_nat_alt demo_ent_def)
  qed
  show "cam_tidy (demo_key_state es)" unfolding cam_tidy_def s by (auto simp: demo_ent_def)
qed (simp add: demo_key_state_def)

definition demo_group_ent :: sec_cam_ent where
  "demo_group_ent = \<lparr>ce_ctrl = 0x8051, ce_mac = replicate 6 0, ce_key = replicate 16 7\<rparr>"

lemma clean_dk_section_moves_keys_witness:
  "\<exists>s'. rtw_clean_dk_section demo_io (demo_key_state [(1, demo_group_ent)]) = Some s' \<and> cam_mirror dc_mem s' \<and>
    cam_slots s' = cam_slots (demo_key_state [(1, demo_group_ent)]) \<and>
    (upper_full s' \<or> (\<forall>i<4. cam_slot s' i = (False, cam_ent0)))"
proof -
  have "\<forall>(i, e)\<in>set [(1 :: u8, demo_group_ent)]. i < 32 \<and> cam_ent_ok e"
    by (simp add: demo_group_ent_def cam_ent_ok_def)
  note d = demo_key_state [OF this]
  show ?thesis by (rule clean_dk_section_moves_keys [OF demo_cam_chip d(1,2)])
qed

end
