(* ===== verification/SetKey.thy ===== *)
theory SetKey
  imports StaMgt Cam
begin

unbundle bit_operations_syntax

text \<open>
  The commands that put keys into the security CAM: \<open>setkey_hdl\<close> for WEP and group keys, \<open>set_stakey_hdl\<close> for
  pairwise keys, \<open>rtw_ap_wep_pk_setting\<close> (\<open>core/rtw_mlme_ext.c\<close>), the part of \<open>rtw_clearstakey_cmd\<close> that does not
  go through the command queue, \<open>flush_all_cam_entry\<close>, and the registers they set (\<open>hal/hal_com.c\<close>).
\<close>

section \<open>Registers\<close>

definition REG_RCR :: u32 where "REG_RCR = 0x0608"
definition RCR_AM :: u32 where "RCR_AM = 4"
definition SEC_STATUS_STA_PK_GK_CONFLICT_DIS_BMC_SEARCH :: u32 where "SEC_STATUS_STA_PK_GK_CONFLICT_DIS_BMC_SEARCH = 1"

definition rtw_hal_rcr_add :: "'w chip_io \<Rightarrow> u32 \<Rightarrow> 'w cam_st \<Rightarrow> 'w cam_st" where
  "rtw_hal_rcr_add io add s =
     (let (v32, w) = chip_rd32 io REG_RCR (cs_chip s);
          s = s\<lparr>cs_chip := w, cs_rcr := v32\<rparr>;
          rcr = v32 OR add
      in if rcr \<noteq> cs_rcr s then
           (let (ok, w) = chip_wr32 io REG_RCR rcr (cs_chip s)
            in s\<lparr>cs_chip := w, cs_rcr := (if ok then rcr else cs_rcr s)\<rparr>)
         else s)"

definition rtw_hal_rcr_clear :: "'w chip_io \<Rightarrow> u32 \<Rightarrow> 'w cam_st \<Rightarrow> 'w cam_st" where
  "rtw_hal_rcr_clear io clear s =
     (let (v32, w) = chip_rd32 io REG_RCR (cs_chip s);
          s = s\<lparr>cs_chip := w, cs_rcr := v32\<rparr>;
          rcr = v32 AND NOT clear
      in if rcr \<noteq> cs_rcr s then
           (let (ok, w) = chip_wr32 io REG_RCR rcr (cs_chip s)
            in s\<lparr>cs_chip := w, cs_rcr := (if ok then rcr else cs_rcr s)\<rparr>)
         else s)"

definition hw_var_set_rcr_am :: "'w chip_io \<Rightarrow> bool \<Rightarrow> 'w cam_st \<Rightarrow> 'w cam_st" where
  "hw_var_set_rcr_am io enable = (if enable then rtw_hal_rcr_add io RCR_AM else rtw_hal_rcr_clear io RCR_AM)"

text \<open>\<open>HW_VAR_SEC_CFG\<close>: bits 8, 3, 2 are \<open>SCR_CHK_KEYID\<close>, \<open>SCR_RxDecEnable\<close> and \<open>SCR_TxEncEnable\<close>, 9 \<open>SCR_CHK_BMC\<close>, 5
  \<open>SCR_NoSKMC\<close>.\<close>

definition sec_cfg :: "'w chip_io \<Rightarrow> 'w cam_st \<Rightarrow> 'w cam_st" where
  "sec_cfg io s =
     (let (reg_scr_ori, w) = chip_rd16 io REG_SECCFG (cs_chip s);
          reg_scr = reg_scr_ori OR 0x100 OR 0x8 OR 0x4;
          reg_scr = (if rtw_camctl_chk_cap SEC_CAP_CHK_BMC (cs_ctl s) then reg_scr OR 0x200 else reg_scr);
          reg_scr = (if rtw_camctl_chk_flags SEC_STATUS_STA_PK_GK_CONFLICT_DIS_BMC_SEARCH (cs_ctl s) then reg_scr OR 0x20 else reg_scr)
      in s\<lparr>cs_chip := (if reg_scr \<noteq> reg_scr_ori then chip_wr16 io REG_SECCFG reg_scr w else w)\<rparr>)"

text \<open>\<open>HW_VAR_SEC_DK_CFG\<close>: bits 0, 1, 6, 7 are \<open>SCR_TxUseDK\<close>, \<open>SCR_RxUseDK\<close>, \<open>SCR_TXBCUSEDK\<close> and \<open>SCR_RXBCUSEDK\<close>;
  \<open>auth_8021x\<close> says that \<open>dot11AuthAlgrthm\<close> is \<open>dot11AuthAlgrthm_8021X\<close>.\<close>

definition sec_dk_cfg :: "'w chip_io \<Rightarrow> bool \<Rightarrow> bool \<Rightarrow> 'w cam_st \<Rightarrow> 'w cam_st" where
  "sec_dk_cfg io auth_8021x enable s =
     (let (reg_scr, w) = chip_rd8 io REG_SECCFG (cs_chip s);
          reg_scr = (if enable then (let r = reg_scr OR 0x40 in if auth_8021x then r else r OR (0x2 OR 0x1))
                     else reg_scr AND NOT (0x80 OR 0x40 OR 0x2 OR 0x1))
      in s\<lparr>cs_chip := chip_wr8 io REG_SECCFG reg_scr w\<rparr>)"

section \<open>The commands\<close>

text \<open>What the commands read: \<open>mlmext_info.state\<close>, the address of the network and of the adapter, the
  authentication algorithm, and the stations.\<close>

record key_env =
  ke_state :: u32
  ke_bssid :: bytes
  ke_own :: bytes
  ke_8021x :: bool
  ke_stations :: sta_priv

record setkey_parm =
  sk_algorithm :: u8
  sk_keyid :: u8
  sk_set_tx :: u8
  sk_key :: bytes

record set_stakey_parm =
  ss_addr :: bytes
  ss_algorithm :: u8
  ss_keyid :: u8
  ss_key :: bytes

datatype h2c_result = H2C_SUCCESS | H2C_SUCCESS_RSP | H2C_REJECTED

definition is_wep_enc :: "u8 \<Rightarrow> bool" where
  "is_wep_enc alg \<longleftrightarrow> alg = WEP40 \<or> alg = WEP104"

definition key_ctrl :: "u16 \<Rightarrow> u8 \<Rightarrow> u8 \<Rightarrow> u16" where
  "key_ctrl flags algorithm keyid = flags OR push_bit 2 (ucast algorithm) OR ucast keyid"

text \<open>The key of the other kind is in the way: the search of group keys is switched off, and the group keys
  of the address are cleared.\<close>

definition pk_gk_conflict :: "'w chip_io \<Rightarrow> bytes \<Rightarrow> 'w cam_st \<Rightarrow> 'w cam_st option" where
  "pk_gk_conflict io addr s =
     clear_keys io addr 1 (sec_cfg io (upd_ctl (rtw_camctl_set_flags SEC_STATUS_STA_PK_GK_CONFLICT_DIS_BMC_SEARCH) s))"

definition set_stakey_hdl :: "'w chip_io \<Rightarrow> key_env \<Rightarrow> set_stakey_parm \<Rightarrow> 'w cam_st \<Rightarrow> (h2c_result \<times> 'w cam_st) option" where
  "set_stakey_hdl io env p s =
     (if ss_algorithm p = 0 then map_option (Pair H2C_SUCCESS_RSP) (clear_keys io (ss_addr p) (-1) s)
      else case rtw_get_stainfo (ke_stations env) (Some (ss_addr p)) of
        None \<Rightarrow> Some (H2C_REJECTED, s)
      | Some psta \<Rightarrow>
          (let s = s\<lparr>cs_enc_algo := ss_algorithm p\<rparr>;
               kid = (if is_wep_enc (ss_algorithm p) then ss_keyid p else 0)
           in case rtw_camid_alloc (ke_state env) (ke_bssid env)
                    (Some (mac_addr (stainfo_buf (ke_stations env) ! psta))) kid s of
                (None, used, s) \<Rightarrow> Some (H2C_SUCCESS, s)
              | (Some cam_id, used, s) \<Rightarrow>
                  do { s \<leftarrow> (if used \<and> rtw_camid_is_gk s cam_id then pk_gk_conflict io (ss_addr p) s else Some s);
                       s \<leftarrow> write_cam io cam_id (key_ctrl 0x8000 (ss_algorithm p) (ss_keyid p)) (ss_addr p) (ss_key p) s;
                       Some (H2C_SUCCESS_RSP, s) }))"

definition setkey_hdl :: "'w chip_io \<Rightarrow> key_env \<Rightarrow> setkey_parm \<Rightarrow> 'w cam_st \<Rightarrow> (h2c_result \<times> 'w cam_st) option" where
  "setkey_hdl io env p s =
     (let s = (if sk_set_tx p \<noteq> 0 then s\<lparr>cs_key_index := sk_keyid p\<rparr> else s);
          enable_mc = (\<lambda>s. Some (H2C_SUCCESS, hw_var_set_rcr_am io True s))
      in case rtw_camid_alloc (ke_state env) (ke_bssid env) None (sk_keyid p) s of
           (None, used, s) \<Rightarrow> enable_mc s
         | (Some cam_id, used, s) \<Rightarrow>
             (let addr = (if cam_id \<le> 3 then replicate 6 0
                          else if ke_state env AND 3 = WIFI_FW_AP_STATE \<or> ke_state env AND 3 = WIFI_FW_ADHOC_STATE
                          then ke_own env else ke_bssid env)
              in if used \<and> \<not> rtw_camid_is_gk s cam_id then Option.bind (pk_gk_conflict io addr s) enable_mc
                 else do {
                   s \<leftarrow> write_cam io cam_id (key_ctrl 0x8040 (sk_algorithm p) (sk_keyid p)) addr (sk_key p) s;
                   let s = (if cam_id \<le> 3 then sec_dk_cfg io (ke_8021x env) True s else s);
                   s \<leftarrow> (if is_wep_enc (sk_algorithm p) \<and> ke_state env AND 3 = WIFI_FW_STATION_STATE \<and>
                           rtw_camctl_chk_cap SEC_CAP_CHK_BMC (cs_ctl s)
                         then map_option snd (set_stakey_hdl io env \<lparr>ss_addr = ke_bssid env, ss_algorithm = sk_algorithm p,
                                ss_keyid = sk_keyid p, ss_key = sk_key p\<rparr> s)
                         else Some s);
                   enable_mc s }))"

text \<open>\<open>alg\<close> is \<open>dot11PrivacyAlgrthm\<close>, \<open>key_mask\<close> the keys that are set, \<open>index\<close> \<open>dot11PrivacyKeyIndex\<close> and \<open>keys\<close> \<open>dot11DefKey\<close>; \<open>addr\<close> is the address
  of the station.\<close>

definition rtw_ap_wep_pk_setting :: "'w chip_io \<Rightarrow> key_env \<Rightarrow> u8 \<Rightarrow> u8 \<Rightarrow> u32 \<Rightarrow> bytes list \<Rightarrow> bytes \<Rightarrow> 'w cam_st \<Rightarrow> 'w cam_st option" where
  "rtw_ap_wep_pk_setting io env alg key_mask index keys addr s =
     (if \<not> is_wep_enc alg then Some s
      else fold (\<lambda>keyid r. Option.bind r (\<lambda>s.
             if key_mask AND push_bit keyid 1 \<noteq> 0 \<and> of_nat keyid = index
             then map_option snd (set_stakey_hdl io env
                    \<lparr>ss_addr = addr, ss_algorithm = alg, ss_keyid = of_nat keyid, ss_key = keys ! keyid\<rparr> s)
             else Some s)) [0..<4] (Some s))"

definition rtw_clearstakey :: "'w chip_io \<Rightarrow> bytes option \<Rightarrow> 'w cam_st \<Rightarrow> 'w cam_st option" where
  "rtw_clearstakey io sta s = (case sta of None \<Rightarrow> Some s | Some addr \<Rightarrow> clear_keys io addr (-1) s)"

definition flush_all_cam_entry :: "'w chip_io \<Rightarrow> 'w cam_st \<Rightarrow> 'w cam_st" where
  "flush_all_cam_entry io s = sec_dk_cfg io False False (invalidate_cam_all io s)"

section \<open>The registers do not touch the entries\<close>

text \<open>The copy mirrors the CAM as before, and no entry has changed.\<close>

definition cam_keeps :: "('w \<Rightarrow> u8 \<Rightarrow> u32) \<Rightarrow> 'w cam_st \<Rightarrow> 'w cam_st \<Rightarrow> bool" where
  "cam_keeps mem s s' \<longleftrightarrow> (cam_mirror mem s \<longrightarrow> cam_mirror mem s') \<and> cam_slot s' = cam_slot s \<and>
     cam_sec_cap (cs_ctl s') = cam_sec_cap (cs_ctl s)"

lemma cam_keepsD:
  assumes "cam_keeps mem s s'"
  shows "cam_mirror mem s \<Longrightarrow> cam_mirror mem s'" and "cam_slot s' = cam_slot s"
    and "cam_sec_cap (cs_ctl s') = cam_sec_cap (cs_ctl s)"
  using assms by (simp_all add: cam_keeps_def)

lemma cam_keepsI:
  assumes "mem (cs_chip s') = mem (cs_chip s)" and "cs_cache s' = cs_cache s"
    and "(cs_ctl s')\<lparr>cam_flags := 0\<rparr> = (cs_ctl s)\<lparr>cam_flags := 0\<rparr>"
  shows "cam_keeps mem s s'"
proof -
  have "cam_used (cs_ctl s') = cam_used (cs_ctl s)" "cam_num (cs_ctl s') = cam_num (cs_ctl s)"
    "cam_sec_cap (cs_ctl s') = cam_sec_cap (cs_ctl s)"
    using arg_cong [OF assms(3), of cam_used] arg_cong [OF assms(3), of cam_num] arg_cong [OF assms(3), of cam_sec_cap]
    by simp_all
  then show ?thesis
    using assms(1,2) by (simp add: cam_keeps_def cam_mirror_def cam_slot_def fun_eq_iff rtw_sec_camid_is_used_def)
qed

lemma rcr_not_cam: "REG_RCR \<notin> {REG_CAMCMD, REG_CAMWRITE, REG_CAMREAD}"
  by (simp add: REG_RCR_def REG_CAMCMD_def REG_CAMWRITE_def REG_CAMREAD_def)

lemma rcr_am_keeps:
  assumes "cam_chip io mem"
  shows "cam_keeps mem s (hw_var_set_rcr_am io enable s)"
proof -
  note c = cam_chipD(4,5) [OF assms rcr_not_cam]
  obtain v w where v: "chip_rd32 io REG_RCR (cs_chip s) = (v, w)" by (cases "chip_rd32 io REG_RCR (cs_chip s)")
  have w: "mem w = mem (cs_chip s)" using c(2) [of "cs_chip s"] v by simp
  have "mem w' = mem w" if "chip_wr32 io REG_RCR r w = (ok, w')" for r ok w'
    using c(1) [of r w] that by simp
  then show ?thesis
    using w by (intro cam_keepsI)
      (auto simp: hw_var_set_rcr_am_def rtw_hal_rcr_add_def rtw_hal_rcr_clear_def v Let_def split: prod.split)
qed

lemma sec_cfg_keeps:
  assumes "cam_chip io mem"
  shows "cam_keeps mem s (sec_cfg io s)"
proof (cases "chip_rd16 io REG_SECCFG (cs_chip s)")
  case (Pair v w)
  have "mem w = mem (cs_chip s)" using cam_chipD(7) [OF assms, of "cs_chip s"] Pair by simp
  then show ?thesis using cam_chipD(6) [OF assms] by (intro cam_keepsI) (simp_all add: sec_cfg_def Pair Let_def)
qed

lemma sec_dk_cfg_keeps:
  assumes "cam_chip io mem"
  shows "cam_keeps mem s (sec_dk_cfg io a e s)"
proof (cases "chip_rd8 io REG_SECCFG (cs_chip s)")
  case (Pair v w)
  have "mem w = mem (cs_chip s)" using cam_chipD(9) [OF assms, of "cs_chip s"] Pair by simp
  then show ?thesis using cam_chipD(8) [OF assms] by (intro cam_keepsI) (simp_all add: sec_dk_cfg_def Pair Let_def)
qed

lemma set_flags_keeps: "cam_keeps mem s (upd_ctl (rtw_camctl_set_flags f) s)"
  by (intro cam_keepsI) (simp_all add: rtw_camctl_set_flags_def)

lemma cam_keeps_trans: "cam_keeps mem s s' \<Longrightarrow> cam_keeps mem s' s'' \<Longrightarrow> cam_keeps mem s s''"
  by (simp add: cam_keeps_def)

lemma enc_algo_keeps: "cam_keeps mem s (s\<lparr>cs_enc_algo := a\<rparr>)" "cam_keeps mem s (s\<lparr>cs_key_index := k\<rparr>)"
  by (intro cam_keepsI; simp)+

section \<open>Allocation in the commands\<close>

lemma alloc_slot:
  assumes m: "cam_mirror mem s" and r: "rtw_camid_alloc st bssid sta kid s = (Some i, u, s1)"
  shows "i < 32 \<and> u = fst (cam_slot s i) \<and> cam_becomes mem s s1 ((cam_slot s)(i := (True, snd (cam_slot s i))))"
proof -
  note n = cam_mirrorD(1) [OF m]
  have get: "i < 32" if "rtw_get_camid s f (Some a) k = Some i" for f a k
    using that camid_search_slot(1) [OF n] cam_ids_find(1) [OF n]
    by (auto simp: rtw_get_camid_def split: option.splits if_splits)
  have "i < 32" using r get by (auto simp: rtw_camid_alloc_def Let_def not_less word_le_nat_alt word_less_nat_alt split: option.splits if_splits)
  moreover have "u = fst (cam_slot s i)" "s1 = upd_ctl (\<lambda>c. c\<lparr>cam_used := rtw_sec_cam_map_set (cam_used c) i\<rparr>) s"
    using r by (auto simp: rtw_camid_alloc_def Let_def slot_used [OF n] split: option.splits)
  ultimately show ?thesis using map_set_slot [OF m] by simp
qed

lemma alloc_sta:
  assumes m: "cam_mirror mem s" and c: "cam_sec_cap (cs_ctl s) = 0" and r: "rtw_camid_alloc st bssid (Some a) kid s = (x, u, s1)"
  shows "x = None \<longleftrightarrow> upper_full s \<and> (\<forall>j<32. \<not> slot_chk (Some a) (uint kid) (-1) (cam_slot s j))"
    and "x = None \<Longrightarrow> s1 = s"
    and "x = Some i \<Longrightarrow> fst (cam_slot s i) \<Longrightarrow> slot_chk (Some a) (uint kid) (-1) (cam_slot s i)"
proof -
  note n = cam_mirrorD(1) [OF m]
  have x: "x = rtw_get_camid s True (Some a) (uint kid)" "x = None \<Longrightarrow> s1 = s"
    using r by (auto simp: rtw_camid_alloc_def Let_def split: option.splits)
  show "x = None \<longleftrightarrow> upper_full s \<and> (\<forall>j<32. \<not> slot_chk (Some a) (uint kid) (-1) (cam_slot s j))"
    unfolding x(1) by (rule get_camid_slot(2) [OF n c])
  show "x = None \<Longrightarrow> s1 = s" by (rule x(2))
  show "x = Some i \<Longrightarrow> fst (cam_slot s i) \<Longrightarrow> slot_chk (Some a) (uint kid) (-1) (cam_slot s i)"
    using get_camid_slot(1) [OF n c, of True a "uint kid" i] x(1) by auto
qed

lemma stainfo_addr:
  assumes "rtw_get_stainfo p (Some a) = Some k" and "\<not> IS_MCAST a"
  shows "mac_addr (stainfo_buf p ! k) = take 6 a"
  using assms by (auto simp: rtw_get_stainfo_def find_Some_iff)

lemma conflict_slots:
  assumes c: "cam_chip io mem" and m: "cam_mirror mem s"
  shows "\<exists>s'. pk_gk_conflict io addr s = Some s' \<and> cam_mirror mem s' \<and> cam_sec_cap (cs_ctl s') = cam_sec_cap (cs_ctl s) \<and>
    cam_slot s' = (\<lambda>i. if i < 32 \<and> slot_chk (Some addr) (-1) 1 (cam_slot s i) then (False, cam_ent0) else cam_slot s i)"
proof -
  let ?s = "sec_cfg io (upd_ctl (rtw_camctl_set_flags SEC_STATUS_STA_PK_GK_CONFLICT_DIS_BMC_SEARCH) s)"
  have k: "cam_keeps mem s ?s" by (rule cam_keeps_trans [OF set_flags_keeps sec_cfg_keeps [OF c]])
  note k' = cam_keepsD [OF k]
  obtain s' where "clear_keys io addr 1 ?s = Some s'"
    "cam_becomes mem ?s s' (\<lambda>i. if i < 32 \<and> slot_chk (Some addr) (-1) 1 (cam_slot ?s i) then (False, cam_ent0) else cam_slot ?s i)"
    using clear_keys_slots [OF c, of addr 1 ?s] k'(1) [OF m] by auto
  then show ?thesis
    unfolding pk_gk_conflict_def k'(2) cam_becomes_def using cam_frameD(1) k'(3) by metis
qed

section \<open>Installing a pairwise key\<close>

definition stakey_ent :: "set_stakey_parm \<Rightarrow> sec_cam_ent" where
  "stakey_ent p = \<lparr>ce_ctrl = key_ctrl 0x8000 (ss_algorithm p) (ss_keyid p), ce_mac = ss_addr p, ce_key = ss_key p\<rparr>"

definition stakey_kid :: "set_stakey_parm \<Rightarrow> u8" where
  "stakey_kid p = (if is_wep_enc (ss_algorithm p) then ss_keyid p else 0)"

definition stakey_ok :: "key_env \<Rightarrow> set_stakey_parm \<Rightarrow> bool" where
  "stakey_ok env p \<longleftrightarrow> ss_algorithm p \<noteq> 0 \<and> length (ss_addr p) = 6 \<and> length (ss_key p) = 16 \<and> \<not> IS_MCAST (ss_addr p) \<and>
     rtw_get_stainfo (ke_stations env) (Some (ss_addr p)) \<noteq> None"

lemma stakey_ent_ok: "length (ss_addr p) = 6 \<Longrightarrow> length (ss_key p) = 16 \<Longrightarrow> cam_ent_ok (stakey_ent p)"
  by (simp add: stakey_ent_def cam_ent_ok_def)

lemma set_stakey_hdl_eq:
  assumes "stakey_ok env p"
  shows "set_stakey_hdl io env p s =
    (case rtw_camid_alloc (ke_state env) (ke_bssid env) (Some (ss_addr p)) (stakey_kid p) (s\<lparr>cs_enc_algo := ss_algorithm p\<rparr>) of
       (None, used, s) \<Rightarrow> Some (H2C_SUCCESS, s)
     | (Some i, used, s) \<Rightarrow>
         do { s \<leftarrow> (if used \<and> rtw_camid_is_gk s i then pk_gk_conflict io (ss_addr p) s else Some s);
              s \<leftarrow> write_cam io i (ce_ctrl (stakey_ent p)) (ce_mac (stakey_ent p)) (ce_key (stakey_ent p)) s;
              Some (H2C_SUCCESS_RSP, s) })"
proof -
  obtain psta where psta: "rtw_get_stainfo (ke_stations env) (Some (ss_addr p)) = Some psta"
    using assms by (auto simp: stakey_ok_def)
  have mac: "mac_addr (stainfo_buf (ke_stations env) ! psta) = ss_addr p"
    using stainfo_addr [OF psta] assms by (simp add: stakey_ok_def)
  have alg: "ss_algorithm p \<noteq> 0" using assms by (simp add: stakey_ok_def)
  have ent: "ce_ctrl (stakey_ent p) = key_ctrl 0x8000 (ss_algorithm p) (ss_keyid p)" "ce_mac (stakey_ent p) = ss_addr p"
    "ce_key (stakey_ent p) = ss_key p"
    by (simp_all add: stakey_ent_def)
  show ?thesis
    unfolding set_stakey_hdl_def psta mac Let_def stakey_kid_def ent option.case if_not_P [OF alg] by (rule refl)
qed

lemma gk_slot:
  assumes "cam_mirror mem s" and "i < 32"
  shows "rtw_camid_is_gk s i \<longleftrightarrow> fst (cam_slot s i) \<and> ce_ctrl (snd (cam_slot s i)) AND 0x40 \<noteq> 0"
  using assms by (simp add: rtw_camid_is_gk_def slot_used [OF cam_mirrorD(1) [OF assms(1)]] slot_ent)

text \<open>C27: When the station is known and there is room, or a key of the station with the same key id is there
  to be replaced, \<open>set_stakey_hdl\<close> reports \<open>H2C_SUCCESS_RSP\<close>; one entry of the CAM, read back, then holds the
  address, the key, the algorithm and the key id, it is in use, and all other entries are as before. If
  it was in use before, it held the key that is replaced. This is so unless a group key has been stored
  under the address.\<close>

theorem set_stakey_installs_key:
  assumes c: "cam_chip io mem" and m: "cam_mirror mem s" and t: "cam_tidy s" and cap: "cam_sec_cap (cs_ctl s) = 0"
    and ok: "stakey_ok env p"
    and room: "\<not> upper_full s \<or> (\<exists>i<32. slot_chk (Some (ss_addr p)) (uint (stakey_kid p)) (-1) (cam_slot s i))"
    and gk: "\<forall>i<32. \<not> slot_chk (Some (ss_addr p)) (-1) 1 (cam_slot s i)"
  shows "\<exists>s' i w. set_stakey_hdl io env p s = Some (H2C_SUCCESS_RSP, s') \<and> i < 32 \<and>
    rtw_sec_read_cam_ent io i True True True (cs_chip s') =
      Some (\<lparr>cr_ctrl = Some (key_ctrl 0x8000 (ss_algorithm p) (ss_keyid p)), cr_mac = Some (ss_addr p), cr_key = Some (ss_key p)\<rparr>, w) \<and>
    cam_slot s' = (cam_slot s)(i := (True, stakey_ent p)) \<and> cam_mirror mem s' \<and> cam_tidy s' \<and>
    (fst (cam_slot s i) \<longrightarrow> slot_chk (Some (ss_addr p)) (uint (stakey_kid p)) (-1) (cam_slot s i))"
proof -
  let ?s = "s\<lparr>cs_enc_algo := ss_algorithm p\<rparr>"
  note k = cam_keepsD [OF enc_algo_keeps(1) [of mem s "ss_algorithm p"]]
  note m0 = k(1) [OF m]
  obtain x u s1 where r: "rtw_camid_alloc (ke_state env) (ke_bssid env) (Some (ss_addr p)) (stakey_kid p) ?s = (x, u, s1)"
    by (cases "rtw_camid_alloc (ke_state env) (ke_bssid env) (Some (ss_addr p)) (stakey_kid p) ?s") auto
  note al = alloc_sta [OF m0 _ r, unfolded k(2)]
  have full: "upper_full ?s \<longleftrightarrow> upper_full s" by (simp add: upper_full_def k(2))
  then obtain i where x: "x = Some i" using al(1) room cap by auto
  have a: "i < 32" "u = fst (cam_slot s i)" "cam_becomes mem ?s s1 ((cam_slot s)(i := (True, snd (cam_slot s i))))"
    using alloc_slot [OF m0 r [unfolded x]] k(2) by auto
  note b = cam_becomesD [OF a(3)]
  have same: "fst (cam_slot s i) \<longrightarrow> slot_chk (Some (ss_addr p)) (uint (stakey_kid p)) (-1) (cam_slot s i)"
    using al(3) x cap by simp
  have nogk: "\<not> (u \<and> rtw_camid_is_gk s1 i)"
  proof
    assume g: "u \<and> rtw_camid_is_gk s1 i"
    then have "fst (cam_slot s i)" "ce_ctrl (snd (cam_slot s i)) AND 0x40 \<noteq> 0"
      using gk_slot [OF b(1) a(1)] a(2) by (auto simp: b(3))
    moreover have "ce_mac (snd (cam_slot s i)) = take 6 (ss_addr p)"
      using same calculation(1) by (simp add: slot_chk_def case_prod_beta)
    ultimately show False using gk a(1) by (simp add: slot_chk_def case_prod_beta)
  qed
  have e: "cam_ent_ok (stakey_ent p)" using ok by (simp add: stakey_ok_def stakey_ent_ok)
  obtain s2 where s2: "write_cam io i (ce_ctrl (stakey_ent p)) (ce_mac (stakey_ent p)) (ce_key (stakey_ent p)) s1 = Some s2"
    "cam_becomes mem s1 s2 ((cam_slot s1)(i := (fst (cam_slot s1 i), stakey_ent p)))"
    by (rule write_cam_slot [OF c b(1) a(1) e])
  note b2 = cam_becomesD [OF s2(2)]
  have run: "set_stakey_hdl io env p s = Some (H2C_SUCCESS_RSP, s2)"
    unfolding set_stakey_hdl_eq [OF ok] r x prod.case option.case if_not_P [OF nogk] by (simp add: s2(1))
  have sl: "cam_slot s2 = (cam_slot s)(i := (True, stakey_ent p))" unfolding b2(3) b(3) by simp
  have "cs_cache s2 ! unat i = stakey_ent p" using slot_ent [OF a(1), of s2] by (simp add: sl)
  then obtain w where "rtw_sec_read_cam_ent io i True True True (cs_chip s2) =
      Some (\<lparr>cr_ctrl = Some (key_ctrl 0x8000 (ss_algorithm p) (ss_keyid p)), cr_mac = Some (ss_addr p), cr_key = Some (ss_key p)\<rparr>, w)"
    using read_cam_ent_mirror [OF c b2(1) a(1)] by (auto simp: stakey_ent_def)
  moreover have "cam_tidy s2" using t by (simp add: cam_tidy_def sl)
  ultimately show ?thesis using run a(1) sl b2(1) same by blast
qed

text \<open>Without room the key is not installed, and the result is not the one of a rejected command.\<close>

lemma set_stakey_without_room:
  assumes m: "cam_mirror mem s" and cap: "cam_sec_cap (cs_ctl s) = 0" and ok: "stakey_ok env p" and full: "upper_full s"
    and none: "\<forall>i<32. \<not> slot_chk (Some (ss_addr p)) (uint (stakey_kid p)) (-1) (cam_slot s i)"
  shows "set_stakey_hdl io env p s = Some (H2C_SUCCESS, s\<lparr>cs_enc_algo := ss_algorithm p\<rparr>)"
proof -
  let ?s = "s\<lparr>cs_enc_algo := ss_algorithm p\<rparr>"
  note k = cam_keepsD [OF enc_algo_keeps(1) [of mem s "ss_algorithm p"]]
  obtain x u s1 where r: "rtw_camid_alloc (ke_state env) (ke_bssid env) (Some (ss_addr p)) (stakey_kid p) ?s = (x, u, s1)"
    by (cases "rtw_camid_alloc (ke_state env) (ke_bssid env) (Some (ss_addr p)) (stakey_kid p) ?s") auto
  note al = alloc_sta [OF k(1) [OF m] _ r, unfolded k(2)]
  have "upper_full ?s" using full by (simp add: upper_full_def k(2))
  then have "x = None" "s1 = ?s" using al(1,2) cap none by auto
  then show ?thesis unfolding set_stakey_hdl_eq [OF ok] r by simp
qed

text \<open>Where a group key is stored under the address of a station with the key id of the pairwise key, as
  after WEP, \<open>set_stakey_hdl\<close> frees the entry when it clears the group keys, and then writes the pairwise key
  into it all the same: the entry holds the key but counts as unused, and if all entries from 4 up to it
  are in use, the key of the next new station is put over it.\<close>

lemma stakey_conflict_leaves_entry_unmarked:
  assumes c: "cam_chip io mem" and m: "cam_mirror mem s" and cap: "cam_sec_cap (cs_ctl s) = 0"
    and ok: "stakey_ok env p"
    and i: "rtw_camid_search s (Some (ss_addr p)) (uint (stakey_kid p)) (-1) = Some i"
    and gk: "fst (cam_slot s i)" "ce_ctrl (snd (cam_slot s i)) AND 0x40 \<noteq> 0"
    and below: "4 \<le> i" "\<forall>j. 4 \<le> j \<and> j < i \<longrightarrow> fst (cam_slot s j) \<and> ce_mac (snd (cam_slot s j)) \<noteq> ss_addr p"
  shows "\<exists>s'. set_stakey_hdl io env p s = Some (H2C_SUCCESS_RSP, s') \<and> cam_slot s' i = (False, stakey_ent p) \<and>
    (\<forall>a kid. (\<forall>j<32. \<not> slot_chk (Some a) kid (-1) (cam_slot s' j)) \<longrightarrow> rtw_get_camid s' True (Some a) kid = Some i)"
proof -
  let ?s = "s\<lparr>cs_enc_algo := ss_algorithm p\<rparr>" and ?a = "ss_addr p"
  note k = cam_keepsD [OF enc_algo_keeps(1) [of mem s "ss_algorithm p"]]
  note m0 = k(1) [OF m] and n = cam_mirrorD(1) [OF m]
  have i32: "i < 32" and hit: "slot_chk (Some ?a) (uint (stakey_kid p)) (-1) (cam_slot s i)"
    using camid_search_slot(1) [OF n i] by auto
  have sr: "rtw_camid_search ?s (Some ?a) (uint (stakey_kid p)) (-1) = Some i"
    using i by (simp add: rtw_camid_search_def cam_cache_chk_def rtw_camid_is_gk_def)
  obtain u s1 where r: "rtw_camid_alloc (ke_state env) (ke_bssid env) (Some ?a) (stakey_kid p) ?s = (Some i, u, s1)"
    using sr cap by (simp add: rtw_camid_alloc_def rtw_get_camid_def rtw_camctl_chk_cap_def)
  have a: "u = fst (cam_slot s i)" "cam_becomes mem ?s s1 ((cam_slot s)(i := (True, snd (cam_slot s i))))"
    using alloc_slot [OF m0 r] k(2) by auto
  note b = cam_becomesD [OF a(2)]
  have g: "u \<and> rtw_camid_is_gk s1 i" using gk a(1) gk_slot [OF b(1) i32] by (simp add: b(3))
  obtain s2 where s2: "pk_gk_conflict io ?a s1 = Some s2" "cam_mirror mem s2"
    "cam_sec_cap (cs_ctl s2) = cam_sec_cap (cs_ctl s1)"
    "cam_slot s2 = (\<lambda>i. if i < 32 \<and> slot_chk (Some ?a) (-1) 1 (cam_slot s1 i) then (False, cam_ent0) else cam_slot s1 i)"
    using conflict_slots [OF c b(1)] by blast
  have s2i: "cam_slot s2 i = (False, cam_ent0)"
    unfolding s2(4) b(3) using i32 hit gk by (simp add: slot_chk_def case_prod_beta)
  have e: "cam_ent_ok (stakey_ent p)" using ok by (simp add: stakey_ok_def stakey_ent_ok)
  obtain s3 where s3: "write_cam io i (ce_ctrl (stakey_ent p)) (ce_mac (stakey_ent p)) (ce_key (stakey_ent p)) s2 = Some s3"
    "cam_becomes mem s2 s3 ((cam_slot s2)(i := (fst (cam_slot s2 i), stakey_ent p)))"
    by (rule write_cam_slot [OF c s2(2) i32 e])
  note b3 = cam_becomesD [OF s3(2)]
  have run: "set_stakey_hdl io env p s = Some (H2C_SUCCESS_RSP, s3)"
    unfolding set_stakey_hdl_eq [OF ok] r using g s2(1) s3(1) by simp
  have s3i: "cam_slot s3 i = (False, stakey_ent p)" by (simp add: b3(3) s2i)
  have low: "fst (cam_slot s3 j)" if "4 \<le> j" "j < i" for j
  proof -
    have "ce_mac (snd (cam_slot s j)) \<noteq> take 6 ?a" "fst (cam_slot s j)" using below(2) that ok by (auto simp: stakey_ok_def)
    moreover have "j \<noteq> i" using that(2) by auto
    ultimately show ?thesis by (simp add: b3(3) s2(4) b(3) slot_chk_def case_prod_beta)
  qed
  have cap3: "cam_sec_cap (cs_ctl s3) = 0"
    using cap cam_frameD(1) [OF b(2)] cam_frameD(1) [OF b3(2)] s2(3) by simp
  note n3 = cam_mirrorD(1) [OF b3(1)]
  have "rtw_get_camid s3 True (Some a) kid = Some i" if none: "\<forall>j<32. \<not> slot_chk (Some a) kid (-1) (cam_slot s3 j)" for a kid
  proof -
    have "rtw_camid_search s3 (Some a) kid (-1) = None" using camid_search_slot(2) [OF n3] none by blast
    moreover have "List.find (\<lambda>i. \<not> i < 4 \<and> \<not> rtw_sec_camid_is_used (cs_ctl s3) i) (cam_ids (cs_ctl s3)) = Some i"
      unfolding slot_used [OF n3] by (rule cam_ids_first [OF n3 i32]) (use below(1) s3i low not_le in auto)
    ultimately show ?thesis using cap3 by (simp add: rtw_get_camid_def rtw_camctl_chk_cap_def)
  qed
  then show ?thesis using run s3i by blast
qed

section \<open>The entry of the broadcast station\<close>

text \<open>\<open>rtw_alloc_macid\<close> marks the entry with the number of the MAC id of the broadcast station as used, and
  leaves it empty.\<close>

lemma bcmc_entry_slot:
  assumes m: "cam_mirror mem s0" and t: "cam_tidy s0" and o: "own \<noteq> bc_addr"
    and r: "rtw_alloc_macid own psta bc_addr mc (cs_ctl s0) = (kid, mc', c')" and k: "kid < 32" "kid < mc_num mc"
  shows "cam_mirror mem (s0\<lparr>cs_ctl := c'\<rparr>) \<and> cam_slot (s0\<lparr>cs_ctl := c'\<rparr>) kid = (True, cam_ent0)"
proof -
  note n = cam_mirrorD(1) [OF m]
  let ?f = "List.find (\<lambda>i. \<not> rtw_macid_is_set (mc_used mc) i \<and> \<not> rtw_sec_camid_is_set (cam_used (cs_ctl s0)) i)
    (map of_nat [0..<unat (mc_num mc)])"
  have f: "?f = Some kid" "c' = (cs_ctl s0)\<lparr>cam_used := rtw_sec_cam_map_set (cam_used (cs_ctl s0)) kid\<rparr>"
    using r o k(2) unfolding rtw_alloc_macid_def Let_def by (auto split: option.splits prod.splits if_splits)
  then have "\<not> rtw_macid_is_set (cam_used (cs_ctl s0)) kid"
    by (auto simp: find_Some_iff sec_cam_as_macid)
  then have "cam_slot s0 kid = (False, cam_ent0)" using cam_tidyD [OF t] slot_is_set [OF n] by blast
  then show ?thesis
    using cam_becomesD [OF map_set_slot [OF m k(1)]] unfolding f(2) by simp
qed

text \<open>As long as that entry has not been flushed, an access point cannot set the group key with its
  number: \<open>setkey_hdl\<close> takes the empty entry for a pairwise key, clears all group keys of the default section
  instead of writing the key, leaves the entry empty, and reports \<open>H2C_SUCCESS\<close>.\<close>

lemma setkey_refused_on_bcmc_entry:
  assumes c: "cam_chip io mem" and m: "cam_mirror mem s0" and t: "cam_tidy s0" and o: "own \<noteq> bc_addr"
    and r: "rtw_alloc_macid own psta bc_addr mc (cs_ctl s0) = (kid, mc', c')" and k: "kid \<le> 3" "kid < mc_num mc"
    and ap: "ke_state env AND 3 = WIFI_FW_AP_STATE" and p: "sk_keyid p = kid"
  shows "\<exists>s'. setkey_hdl io env p (s0\<lparr>cs_ctl := c'\<rparr>) = Some (H2C_SUCCESS, s') \<and> cam_slot s' kid = (True, cam_ent0) \<and>
    (\<forall>i<32. \<not> slot_chk (Some (replicate 6 0)) (-1) 1 (cam_slot s' i))"
proof -
  let ?s = "s0\<lparr>cs_ctl := c'\<rparr>"
  have k32: "kid < 32" using k(1) by (simp add: word_less_nat_alt word_le_nat_alt)
  note b = bcmc_entry_slot [OF m t o r k32 k(2)]
  let ?s1 = "if sk_set_tx p \<noteq> 0 then ?s\<lparr>cs_key_index := kid\<rparr> else ?s"
  have k1: "cam_keeps mem ?s ?s1" using enc_algo_keeps(2) [of mem ?s kid] by (auto simp: cam_keeps_def)
  note m1 = cam_keepsD(1) [OF k1] and sl1 = cam_keepsD(2) [OF k1]
  obtain s2 where al: "rtw_camid_alloc (ke_state env) (ke_bssid env) None kid ?s1 = (Some kid, True, s2)"
    and s2: "cam_becomes mem ?s1 s2 ((cam_slot ?s1)(kid := (True, snd (cam_slot ?s1 kid))))"
  proof -
    have "\<not> 3 < kid" using k(1) by (simp add: not_less)
    then have "\<exists>u s2. rtw_camid_alloc (ke_state env) (ke_bssid env) None kid ?s1 = (Some kid, u, s2)"
      using ap by (simp add: rtw_camid_alloc_def)
    then obtain u s2 where a: "rtw_camid_alloc (ke_state env) (ke_bssid env) None kid ?s1 = (Some kid, u, s2)" by blast
    have "cam_mirror mem ?s1" using m1 b by blast
    then show ?thesis using that [of s2] alloc_slot [OF _ a] a b by (simp add: sl1)
  qed
  note b2 = cam_becomesD [OF s2]
  have sk: "cam_slot s2 kid = (True, cam_ent0)" using b by (simp add: b2(3) sl1)
  have g: "True \<and> \<not> rtw_camid_is_gk s2 kid"
    using gk_slot [OF b2(1) k32] by (simp add: sk cam_ent0_def)
  obtain s3 where s3: "pk_gk_conflict io (replicate 6 0) s2 = Some s3" "cam_mirror mem s3"
    "cam_slot s3 = (\<lambda>i. if i < 32 \<and> slot_chk (Some (replicate 6 0)) (-1) 1 (cam_slot s2 i) then (False, cam_ent0) else cam_slot s2 i)"
    using conflict_slots [OF c b2(1)] by blast
  have no: "\<not> slot_chk (Some (replicate 6 0)) (-1) 1 (u, cam_ent0)" for u
    by (simp add: slot_chk_def cam_ent0_def)
  let ?s4 = "hw_var_set_rcr_am io True s3"
  note sl4 = cam_keepsD(2) [OF rcr_am_keeps [OF c, of s3 True]]
  have "setkey_hdl io env p ?s = Some (H2C_SUCCESS, ?s4)"
    unfolding setkey_hdl_def Let_def p al prod.case option.case if_P [OF g] if_P [OF k(1)] s3(1) by simp
  moreover have "cam_slot ?s4 kid = (True, cam_ent0)" using no sk by (simp add: sl4 s3(3))
  moreover have "\<forall>i<32. \<not> slot_chk (Some (replicate 6 0)) (-1) 1 (cam_slot ?s4 i)" using no by (simp add: sl4 s3(3))
  ultimately show ?thesis by blast
qed

section \<open>The copy under all commands\<close>

lemma write_cam_ent_mirror:
  assumes "cam_chip io mem" and "cam_mirror mem s" and "i < 32" and "length mac = 6" and "length key = 16"
  shows "\<exists>s'. write_cam io i ctrl mac key s = Some s' \<and> cam_mirror mem s'"
  using write_cam_mirror [OF assms(1-3), of "\<lparr>ce_ctrl = ctrl, ce_mac = mac, ce_key = key\<rparr>"] assms(4,5)
  by (auto simp: cam_ent_ok_def)

lemma set_stakey_mirror:
  assumes c: "cam_chip io mem" and m: "cam_mirror mem s" and l: "length (ss_addr p) = 6" "length (ss_key p) = 16"
    and z: "ss_algorithm p = 0 \<Longrightarrow> ss_addr p \<noteq> replicate 6 0"
  shows "\<exists>r s'. set_stakey_hdl io env p s = Some (r, s') \<and> cam_mirror mem s'"
proof (cases "ss_algorithm p = 0")
  case True
  then show ?thesis
    using clear_keys_slots [OF c _ m, of "ss_addr p" "-1"] z l by (auto simp: set_stakey_hdl_def dest: cam_becomesD(1))
next
  case False
  show ?thesis
  proof (cases "rtw_get_stainfo (ke_stations env) (Some (ss_addr p))")
    case None
    then show ?thesis using False m by (simp add: set_stakey_hdl_def)
  next
    case (Some psta)
    let ?a = "mac_addr (stainfo_buf (ke_stations env) ! psta)" and ?s = "s\<lparr>cs_enc_algo := ss_algorithm p\<rparr>"
    note m0 = cam_keepsD(1) [OF enc_algo_keeps(1) m, of "ss_algorithm p"]
    obtain x u s1 where r: "rtw_camid_alloc (ke_state env) (ke_bssid env) (Some ?a) (stakey_kid p) ?s = (x, u, s1)"
      by (cases "rtw_camid_alloc (ke_state env) (ke_bssid env) (Some ?a) (stakey_kid p) ?s") auto
    note eq = set_stakey_hdl_def [of io env p s, unfolded if_not_P [OF False] Some option.case Let_def stakey_kid_def [symmetric] r]
    show ?thesis
    proof (cases x)
      case None
      then have "s1 = ?s" using r by (auto simp: rtw_camid_alloc_def Let_def split: option.splits)
      then show ?thesis using eq None m0 by simp
    next
      case (Some i)
      note al = alloc_slot [OF m0 r [unfolded Some]]
      have m1: "cam_mirror mem s1" using al cam_becomesD(1) by blast
      have "\<exists>s2. (if u \<and> rtw_camid_is_gk s1 i then pk_gk_conflict io (ss_addr p) s1 else Some s1) = Some s2 \<and> cam_mirror mem s2"
        using conflict_slots [OF c m1] m1 by auto
      then obtain s2 where s2: "(if u \<and> rtw_camid_is_gk s1 i then pk_gk_conflict io (ss_addr p) s1 else Some s1) = Some s2"
        "cam_mirror mem s2" by blast
      obtain s3 where s3: "write_cam io i (key_ctrl 0x8000 (ss_algorithm p) (ss_keyid p)) (ss_addr p) (ss_key p) s2 = Some s3"
        "cam_mirror mem s3"
        using write_cam_ent_mirror [OF c s2(2) _ l] al by blast
      show ?thesis using eq s2 s3 unfolding Some by simp
    qed
  qed
qed

lemma setkey_mirror:
  assumes c: "cam_chip io mem" and m: "cam_mirror mem s" and l: "length (sk_key p) = 16"
    and e: "length (ke_bssid env) = 6" "length (ke_own env) = 6"
  shows "\<exists>r s'. setkey_hdl io env p s = Some (r, s') \<and> cam_mirror mem s'"
proof -
  let ?s = "if sk_set_tx p \<noteq> 0 then s\<lparr>cs_key_index := sk_keyid p\<rparr> else s"
  have m0: "cam_mirror mem ?s" using m cam_keepsD(1) [OF enc_algo_keeps(2) m] by simp
  note am = cam_keepsD(1) [OF rcr_am_keeps [OF c, of _ True]]
  obtain x u s1 where r: "rtw_camid_alloc (ke_state env) (ke_bssid env) None (sk_keyid p) ?s = (x, u, s1)"
    by (cases "rtw_camid_alloc (ke_state env) (ke_bssid env) None (sk_keyid p) ?s") auto
  note eq = setkey_hdl_def [of io env p s, unfolded Let_def, unfolded r]
  show ?thesis
  proof (cases x)
    case None
    then have "s1 = ?s" using r by (auto simp: rtw_camid_alloc_def Let_def split: option.splits)
    then show ?thesis using eq None am m0 by simp
  next
    case (Some i)
    note al = alloc_slot [OF m0 r [unfolded Some]]
    have m1: "cam_mirror mem s1" using al cam_becomesD(1) by blast
    let ?addr = "if i \<le> 3 then replicate 6 0
      else if ke_state env AND 3 = WIFI_FW_AP_STATE \<or> ke_state env AND 3 = WIFI_FW_ADHOC_STATE then ke_own env else ke_bssid env"
    let ?p = "\<lparr>ss_addr = ke_bssid env, ss_algorithm = sk_algorithm p, ss_keyid = sk_keyid p, ss_key = sk_key p\<rparr>"
    have la: "length ?addr = 6" using e by simp
    obtain sc where sc: "pk_gk_conflict io ?addr s1 = Some sc" "cam_mirror mem sc" using conflict_slots [OF c m1] by blast
    obtain s2 where s2: "write_cam io i (key_ctrl 0x8040 (sk_algorithm p) (sk_keyid p)) ?addr (sk_key p) s1 = Some s2"
      "cam_mirror mem s2"
      using write_cam_ent_mirror [OF c m1 _ la l] al by blast
    let ?s2 = "if i \<le> 3 then sec_dk_cfg io (ke_8021x env) True s2 else s2"
    have m2: "cam_mirror mem ?s2" using s2(2) cam_keepsD(1) [OF sec_dk_cfg_keeps [OF c]] by simp
    let ?again = "is_wep_enc (sk_algorithm p) \<and> ke_state env AND 3 = WIFI_FW_STATION_STATE \<and>
      rtw_camctl_chk_cap SEC_CAP_CHK_BMC (cs_ctl ?s2)"
    obtain s3 where s3: "(if ?again then map_option snd (set_stakey_hdl io env ?p ?s2) else Some ?s2) = Some s3" "cam_mirror mem s3"
    proof (cases ?again)
      case True
      then have "ss_algorithm ?p \<noteq> 0" by (auto simp: is_wep_enc_def)
      then obtain rc s3 where "set_stakey_hdl io env ?p ?s2 = Some (rc, s3)" "cam_mirror mem s3"
        using set_stakey_mirror [OF c m2, of ?p env] l e by auto
      then show ?thesis using that [of s3] True by simp
    next
      case False
      show ?thesis by (rule that [OF if_not_P [OF False] m2])
    qed
    show ?thesis
    proof (cases "u \<and> \<not> rtw_camid_is_gk s1 i")
      case True
      then show ?thesis using eq sc am unfolding Some by simp
    next
      case False
      show ?thesis using am [OF s3(2)] unfolding eq Some prod.case option.case if_not_P [OF False] s2(1) Option.bind.simps s3(1)
        by simp
    qed
  qed
qed

text \<open>Moving entries about needs no tidiness to keep the copy right.\<close>

lemma swap_mirror:
  assumes c: "cam_chip io mem" and m: "cam_mirror mem s" and a: "a < 32" and b: "b < 32"
  shows "\<exists>s'. rtw_sec_cam_swap io a b s = Some s' \<and> cam_mirror mem s'"
proof -
  have fc: "\<exists>s'. free_and_clear io u i s = Some s' \<and> cam_mirror mem s'" if "cam_mirror mem s" "i < 32" for u i and s
  proof -
    have "cam_mirror mem (rtw_camid_free i s)"
      unfolding camid_free_eq(1) [OF cam_mirrorD(1) [OF that(1)] that(2)]
      using cam_mirror_cong(1) [OF that(1)] cam_mirrorD(1) [OF that(1)] by simp
    then show ?thesis using clear_cam_entry_mirror [OF c _ that(2)] that(1) by (auto simp: free_and_clear_def)
  qed
  have ws: "\<exists>s'. write_and_set io u i e s = Some s' \<and> cam_mirror mem s'"
    if h: "cam_mirror mem s" "i < 32" "cam_ent_ok e" for u i e and s
  proof -
    obtain s1 where "write_cam io i (ce_ctrl e) (ce_mac e) (ce_key e) s = Some s1" "cam_mirror mem s1"
      using write_cam_mirror [OF c h] by blast
    moreover have "cam_mirror mem (rtw_camid_set i s1)" if "cam_mirror mem s1"
      unfolding camid_free_eq(2) [OF cam_mirrorD(1) [OF that] h(2)]
      using cam_mirror_cong(1) [OF that] cam_mirrorD(1) [OF that] by simp
    ultimately show ?thesis using h(1) by (simp add: write_and_set_def)
  qed
  have ent: "cam_ent_ok (cs_cache s ! unat i)" if "i < 32" for i :: u8 using cam_mirrorD(3) [OF m] that by (simp add: word_less_nat_alt)
  obtain s1 where s1: "free_and_clear io (rtw_sec_camid_is_used (cs_ctl s) a) a s = Some s1" "cam_mirror mem s1"
    using fc [OF m a] by blast
  obtain s2 where s2: "free_and_clear io (rtw_sec_camid_is_used (cs_ctl s) b) b s1 = Some s2" "cam_mirror mem s2"
    using fc [OF s1(2) b] by blast
  obtain s3 where s3: "write_and_set io (rtw_sec_camid_is_used (cs_ctl s) a) b (cs_cache s ! unat a) s2 = Some s3" "cam_mirror mem s3"
    using ws [OF s2(2) b ent [OF a]] by blast
  obtain s4 where s4: "write_and_set io (rtw_sec_camid_is_used (cs_ctl s) b) a (cs_cache s ! unat b) s3 = Some s4" "cam_mirror mem s4"
    using ws [OF s3(2) a ent [OF b]] by blast
  show ?thesis using m s1(1) s2(1) s3(1) s4 by (simp add: rtw_sec_cam_swap_def Let_def)
qed

lemma clean_dk_mirror:
  assumes "cam_chip io mem"
  shows "cam_mirror mem s \<Longrightarrow> \<forall>i\<in>set is. i < 32 \<Longrightarrow> \<exists>s'. clean_dk io is s = Some s' \<and> cam_mirror mem s'"
proof (induction "is" arbitrary: s)
  case (Cons i "is")
  note rest = Cons.IH [OF Cons.prems(1)]
  show ?case
  proof (cases "rtw_sec_camid_is_used (cs_ctl s) i \<and> rtw_get_empty_cam_entry (cs_ctl s) 4 \<noteq> None")
    case True
    then obtain e where e: "rtw_get_empty_cam_entry (cs_ctl s) 4 = Some e" by blast
    then have "4 \<le> e" "e < 32" using empty_entry(1) [OF cam_mirrorD(1) [OF Cons.prems(1)] e] by auto
    moreover obtain s1 where "rtw_sec_cam_swap io i e s = Some s1" "cam_mirror mem s1"
      using swap_mirror [OF assms Cons.prems(1) _ \<open>e < 32\<close>] Cons.prems(2) by auto
    moreover have "0 < e" using \<open>4 \<le> e\<close> by (simp add: word_less_nat_alt word_le_nat_alt)
    ultimately show ?thesis using Cons.IH [of s1] Cons.prems(2) True e by auto
  qed (use rest Cons.prems(2) in auto)
qed auto

text \<open>The commands, and the functions of the CAM that other parts call.\<close>

datatype key_op =
    SetKey setkey_parm
  | SetStaKey set_stakey_parm
  | ClearStaKey bytes
  | CamSwap u8 u8
  | CleanDk
  | FlushCam

fun key_step :: "'w chip_io \<Rightarrow> key_env \<Rightarrow> key_op \<Rightarrow> 'w cam_st \<Rightarrow> 'w cam_st option" where
  "key_step io env (SetKey p) s = map_option snd (setkey_hdl io env p s)"
| "key_step io env (SetStaKey p) s = map_option snd (set_stakey_hdl io env p s)"
| "key_step io env (ClearStaKey a) s = rtw_clearstakey io (Some a) s"
| "key_step io env (CamSwap a b) s = rtw_sec_cam_swap io a b s"
| "key_step io env CleanDk s = rtw_clean_dk_section io s"
| "key_step io env FlushCam s = Some (flush_all_cam_entry io s)"

fun key_run :: "'w chip_io \<Rightarrow> (key_env \<times> key_op) list \<Rightarrow> 'w cam_st \<Rightarrow> 'w cam_st option" where
  "key_run io [] s = Some s"
| "key_run io ((env, op) # ops) s = Option.bind (key_step io env op s) (key_run io ops)"

text \<open>The arrays have their lengths, entries exist, and the keys of the null address are not to be cleared.\<close>

fun key_op_ok :: "key_op \<Rightarrow> bool" where
  "key_op_ok (SetKey p) \<longleftrightarrow> length (sk_key p) = 16"
| "key_op_ok (SetStaKey p) \<longleftrightarrow> length (ss_addr p) = 6 \<and> length (ss_key p) = 16 \<and>
     (ss_algorithm p = 0 \<longrightarrow> ss_addr p \<noteq> replicate 6 0)"
| "key_op_ok (ClearStaKey a) \<longleftrightarrow> length a = 6 \<and> a \<noteq> replicate 6 0"
| "key_op_ok (CamSwap a b) \<longleftrightarrow> a < 32 \<and> b < 32"
| "key_op_ok _ \<longleftrightarrow> True"

definition key_env_ok :: "key_env \<Rightarrow> bool" where
  "key_env_ok env \<longleftrightarrow> length (ke_bssid env) = 6 \<and> length (ke_own env) = 6"

lemma key_step_mirror:
  assumes c: "cam_chip io mem" and m: "cam_mirror mem s" and "key_env_ok env" and ok: "key_op_ok op"
  shows "\<exists>s'. key_step io env op s = Some s' \<and> cam_mirror mem s'"
proof (cases op)
  case (SetKey p)
  then show ?thesis using setkey_mirror [OF c m, of p env] assms(3) ok by (auto simp: key_env_ok_def)
next
  case (SetStaKey p)
  then show ?thesis using set_stakey_mirror [OF c m, of p env] ok by auto
next
  case (ClearStaKey a)
  then show ?thesis
    using clear_keys_slots [OF c _ m, of a "-1"] ok by (auto simp: rtw_clearstakey_def dest: cam_becomesD(1))
next
  case (CamSwap a b)
  then show ?thesis using swap_mirror [OF c m] ok by simp
next
  case CleanDk
  have "\<forall>i\<in>set [0, 1, 2, 3 :: u8]. i < 32" by simp
  then show ?thesis unfolding CleanDk key_step.simps rtw_clean_dk_section_def by (rule clean_dk_mirror [OF c m])
next
  case FlushCam
  then show ?thesis
    using invalidate_cam_all_mirror [OF c cam_mirrorD(1) [OF m]] cam_keepsD(1) [OF sec_dk_cfg_keeps [OF c]]
    by (simp add: flush_all_cam_entry_def)
qed

text \<open>C26: Every sequence of key commands, moves and flushes ends, and then the copy of the driver holds for
  every word of the security CAM what the CAM holds.\<close>

theorem cam_copy_mirrors_chip:
  assumes "cam_chip io mem" and "cam_mirror mem s" and "\<forall>(env, op)\<in>set ops. key_env_ok env \<and> key_op_ok op"
  shows "\<exists>s'. key_run io ops s = Some s' \<and> (\<forall>a. mem (cs_chip s') a =
    (let e = cs_cache s' ! (unat a div 8) in cam_wdata (ce_ctrl e) (ce_mac e) (ce_key e) (unat a mod 8)))"
proof -
  have "\<exists>s'. key_run io ops s = Some s' \<and> cam_mirror mem s'"
    using assms(2,3)
  proof (induction ops arbitrary: s)
    case (Cons x ops)
    then obtain env op where x: "x = (env, op)" "key_env_ok env" "key_op_ok op" by auto
    then obtain s1 where "key_step io env op s = Some s1" "cam_mirror mem s1"
      using key_step_mirror [OF assms(1) Cons.prems(1)] by blast
    then show ?case using Cons.IH [of s1] Cons.prems(2) x(1) by auto
  qed simp
  then show ?thesis by (auto simp: cam_mirror_def)
qed

section \<open>Examples\<close>

definition demo_key_env :: key_env where
  "demo_key_env = \<lparr>ke_state = WIFI_FW_AP_STATE, ke_bssid = demo_own, ke_own = demo_own, ke_8021x = True,
     ke_stations = sta_run demo_own False demo_cam demo_ops\<rparr>"

definition demo_stakey :: "u8 \<Rightarrow> set_stakey_parm" where
  "demo_stakey alg = \<lparr>ss_addr = demo_a, ss_algorithm = alg, ss_keyid = 0, ss_key = replicate 16 9\<rparr>"

lemma demo_a_addr: "length demo_a = 6" "\<not> IS_MCAST demo_a" "demo_a \<noteq> replicate 6 0" "demo_a \<noteq> demo_b"
  by (simp_all add: demo_a_def demo_b_def IS_MCAST_def numeral_eq_Suc)

lemma demo_stakey_ok: "alg \<noteq> 0 \<Longrightarrow> stakey_ok demo_key_env (demo_stakey alg)"
  by (simp add: stakey_ok_def demo_stakey_def demo_key_env_def demo_run demo_a_addr)

definition demo_b_ent :: sec_cam_ent where
  "demo_b_ent = \<lparr>ce_ctrl = 0x8010, ce_mac = demo_b, ce_key = replicate 16 5\<rparr>"

text \<open>A WEP key that was stored as a group key under the address of station \<open>demo_a\<close>.\<close>

definition demo_wep_ent :: sec_cam_ent where
  "demo_wep_ent = \<lparr>ce_ctrl = 0x8044, ce_mac = demo_a, ce_key = replicate 16 9\<rparr>"

lemma demo_ents_ok:
  "\<forall>(i, e)\<in>set [(4 :: u8, demo_b_ent)]. i < 32 \<and> cam_ent_ok e"
  "\<forall>(i, e)\<in>set [(4 :: u8, demo_wep_ent)]. i < 32 \<and> cam_ent_ok e"
  by (simp_all add: demo_b_ent_def demo_wep_ent_def cam_ent_ok_def demo_a_def demo_b_def)

theorem set_stakey_installs_key_witness:
  "\<exists>s' i w. set_stakey_hdl demo_io demo_key_env (demo_stakey AES) (demo_key_state [(4, demo_b_ent)]) = Some (H2C_SUCCESS_RSP, s') \<and>
    rtw_sec_read_cam_ent demo_io i True True True (cs_chip s') =
      Some (\<lparr>cr_ctrl = Some (key_ctrl 0x8000 AES 0), cr_mac = Some demo_a, cr_key = Some (replicate 16 9)\<rparr>, w)"
proof -
  let ?s = "demo_key_state [(4, demo_b_ent)]"
  note d = demo_key_state [OF demo_ents_ok(1)]
  have "\<not> fst (cam_slot ?s 5)" unfolding d(4) by simp
  then have room: "\<not> upper_full ?s" unfolding upper_full_def by (auto intro!: exI [of _ 5])
  have gk: "\<forall>i<32. \<not> slot_chk (Some (ss_addr (demo_stakey AES))) (-1) 1 (cam_slot ?s i)"
    unfolding d(4) using demo_a_addr
    by (simp add: slot_chk_def demo_ent_def demo_b_ent_def demo_stakey_def cam_ent0_def)
  have "ss_addr (demo_stakey AES) = demo_a" "ss_key (demo_stakey AES) = replicate 16 9" "ss_keyid (demo_stakey AES) = 0"
    "ss_algorithm (demo_stakey AES) = AES"
    by (simp_all add: demo_stakey_def)
  then show ?thesis
    using set_stakey_installs_key [OF demo_cam_chip d(1,2,3) demo_stakey_ok disjI1 [OF room] gk] by auto
qed

lemma stakey_conflict_leaves_entry_unmarked_witness:
  "\<exists>s'. set_stakey_hdl demo_io demo_key_env (demo_stakey WEP40) (demo_key_state [(4, demo_wep_ent)]) = Some (H2C_SUCCESS_RSP, s') \<and>
    cam_slot s' 4 = (False, stakey_ent (demo_stakey WEP40))"
proof -
  let ?s = "demo_key_state [(4, demo_wep_ent)]" and ?p = "demo_stakey WEP40"
  note d = demo_key_state [OF demo_ents_ok(2)]
  have n: "cam_num (cs_ctl ?s) = 32" by (simp add: demo_key_state_def)
  have p: "ss_addr ?p = demo_a" "stakey_kid ?p = 0"
    by (simp_all add: demo_stakey_def stakey_kid_def)
  have chk: "cam_cache_chk ?s i (Some demo_a) 0 (-1) \<longleftrightarrow> i = 4" if "i < 32" for i
    unfolding chk_slot [OF n that] d(4)
    using demo_a_addr(1,3) by (auto simp: slot_chk_def demo_ent_def demo_wep_ent_def cam_ent0_def split: if_splits)
  have search: "rtw_camid_search ?s (Some (ss_addr ?p)) (uint (stakey_kid ?p)) (-1) = Some 4"
    unfolding p rtw_camid_search_def
  proof (rule cam_ids_first [OF n])
    show "\<forall>j<4. \<not> cam_cache_chk ?s j (Some demo_a) (uint (0 :: u8)) (-1)"
      using chk by (auto simp: word_less_nat_alt)
  qed (use chk in auto)
  have slot: "fst (cam_slot ?s 4)" "ce_ctrl (snd (cam_slot ?s 4)) AND 0x40 \<noteq> 0"
    unfolding d(4) by (simp_all add: demo_ent_def demo_wep_ent_def)
  have below: "\<forall>j. 4 \<le> j \<and> j < 4 \<longrightarrow> fst (cam_slot ?s j) \<and> ce_mac (snd (cam_slot ?s j)) \<noteq> ss_addr ?p" by auto
  show ?thesis
    using stakey_conflict_leaves_entry_unmarked [OF demo_cam_chip d(1,3) demo_stakey_ok search slot _ below] by auto
qed

definition demo_key_ops :: "(key_env \<times> key_op) list" where
  "demo_key_ops = map (Pair demo_key_env)
     [SetKey \<lparr>sk_algorithm = AES, sk_keyid = 1, sk_set_tx = 0, sk_key = replicate 16 3\<rparr>, SetStaKey (demo_stakey AES),
      CamSwap 1 7, CleanDk, ClearStaKey demo_a, FlushCam]"

theorem cam_copy_mirrors_chip_witness:
  "\<exists>s'. key_run demo_io demo_key_ops (demo_key_state [(4, demo_b_ent)]) = Some s' \<and> (\<forall>a. dc_mem (cs_chip s') a =
    (let e = cs_cache s' ! (unat a div 8) in cam_wdata (ce_ctrl e) (ce_mac e) (ce_key e) (unat a mod 8)))"
proof -
  have "\<forall>(env, op)\<in>set demo_key_ops. key_env_ok env \<and> key_op_ok op"
    by (simp add: demo_key_ops_def key_env_ok_def demo_key_env_def demo_stakey_def demo_own_def demo_a_addr)
  then show ?thesis by (rule cam_copy_mirrors_chip [OF demo_cam_chip demo_key_state(1) [OF demo_ents_ok(1)]])
qed

lemma setkey_refused_on_bcmc_entry_witness:
  "\<exists>s'. setkey_hdl demo_io demo_key_env \<lparr>sk_algorithm = WEP40, sk_keyid = 0, sk_set_tx = 0, sk_key = replicate 16 3\<rparr>
      ((demo_key_state [])\<lparr>cs_ctl := demo_cam\<lparr>cam_used := 1\<rparr>\<rparr>) = Some (H2C_SUCCESS, s') \<and> cam_slot s' 0 = (True, cam_ent0)"
proof -
  have d: "\<forall>(i, e)\<in>set ([] :: (u8 \<times> sec_cam_ent) list). i < 32 \<and> cam_ent_ok e" by simp
  have ctl: "cs_ctl (demo_key_state []) = demo_cam" by (simp add: demo_key_state_def demo_cam_def)
  have "rtw_alloc_macid demo_own 0 bc_addr init_macid_ctl demo_cam =
      (0, fst (snd (rtw_alloc_macid demo_own 0 bc_addr init_macid_ctl demo_cam)), demo_cam\<lparr>cam_used := 1\<rparr>)"
    by code_simp
  then have r: "rtw_alloc_macid demo_own 0 bc_addr init_macid_ctl (cs_ctl (demo_key_state [])) =
      (0, fst (snd (rtw_alloc_macid demo_own 0 bc_addr init_macid_ctl demo_cam)), demo_cam\<lparr>cam_used := 1\<rparr>)"
    unfolding ctl .
  have o: "demo_own \<noteq> bc_addr" by (simp add: demo_own_def bc_addr_def)
  have "(0 :: u8) < mc_num init_macid_ctl" "ke_state demo_key_env AND 3 = WIFI_FW_AP_STATE"
    by (simp_all add: init_macid_ctl_def demo_key_env_def WIFI_FW_AP_STATE_def)
  then show ?thesis
    using setkey_refused_on_bcmc_entry [OF demo_cam_chip demo_key_state(1,2) [OF d] o r,
        where p = "\<lparr>sk_algorithm = WEP40, sk_keyid = 0, sk_set_tx = 0, sk_key = replicate 16 3\<rparr>"] by auto
qed

end
