(* ===== verification/Acl.thy ===== *)
theory Acl
  imports Frames
begin

unbundle bit_operations_syntax

text \<open>
  The access control list of an access point (\<open>rtw_acl_add_sta\<close>, \<open>rtw_acl_remove_sta\<close>,
  \<open>rtw_set_macaddr_acl\<close> of \<open>core/rtw_ap.c\<close>, \<open>rtw_access_ctrl\<close> of \<open>core/rtw_sta_mgt.c\<close>): 16 nodes,
  those in use linked on a queue. A node is named by its index. The list is a set of at most 16
  addresses; its contract is the locale \<open>address_set\<close>, and a run of operations is refined to a mode and a
  set.
\<close>

section \<open>The code\<close>

definition NUM_ACL :: nat where
  "NUM_ACL = 16"

definition RTW_ACL_MODE_DISABLED :: int where
  "RTW_ACL_MODE_DISABLED = 0"

definition RTW_ACL_MODE_ACCEPT_UNLESS_LISTED :: int where
  "RTW_ACL_MODE_ACCEPT_UNLESS_LISTED = 1"

definition RTW_ACL_MODE_DENY_UNLESS_LISTED :: int where
  "RTW_ACL_MODE_DENY_UNLESS_LISTED = 2"

record rtw_wlan_acl_node =
  an_addr :: bytes
  an_valid :: bool

record wlan_acl_pool =
  acl_mode :: int
  acl_num :: int
  aclnode :: "rtw_wlan_acl_node list"
  acl_node_q :: "nat list"

definition rtw_macaddr_acl_init :: "wlan_acl_pool \<Rightarrow> wlan_acl_pool" where
  "rtw_macaddr_acl_init acl = acl\<lparr>acl_node_q := [], acl_num := 0, acl_mode := RTW_ACL_MODE_DISABLED,
     aclnode := map (\<lambda>n. n\<lparr>an_valid := False\<rparr>) (aclnode acl)\<rparr>"

text \<open>The body of the loops that release nodes, for the node \<open>i\<close>; \<open>hit\<close> is the test on its address.\<close>

definition acl_release :: "(bytes \<Rightarrow> bool) \<Rightarrow> nat \<Rightarrow> wlan_acl_pool \<Rightarrow> wlan_acl_pool" where
  "acl_release hit i acl =
     (if hit (an_addr (aclnode acl ! i)) \<and> an_valid (aclnode acl ! i)
      then acl\<lparr>aclnode := (aclnode acl)[i := (aclnode acl ! i)\<lparr>an_valid := False\<rparr>],
               acl_node_q := removeAll i (acl_node_q acl), acl_num := acl_num acl - 1\<rparr>
      else acl)"

definition rtw_macaddr_acl_deinit :: "wlan_acl_pool \<Rightarrow> wlan_acl_pool" where
  "rtw_macaddr_acl_deinit acl =
     (fold (acl_release (\<lambda>_. True)) (acl_node_q acl) acl)\<lparr>acl_mode := RTW_ACL_MODE_DISABLED\<rparr>"

definition rtw_set_macaddr_acl :: "int \<Rightarrow> wlan_acl_pool \<Rightarrow> wlan_acl_pool" where
  "rtw_set_macaddr_acl mode acl =
     (let acl = acl\<lparr>acl_mode := mode\<rparr>
      in if mode = RTW_ACL_MODE_DISABLED then rtw_macaddr_acl_deinit acl else acl)"

text \<open>A valid node with the address on the queue.\<close>

definition acl_listed :: "wlan_acl_pool \<Rightarrow> bytes \<Rightarrow> bool" where
  "acl_listed acl addr =
     list_ex (\<lambda>i. an_addr (aclnode acl ! i) = take 6 addr \<and> an_valid (aclnode acl ! i)) (acl_node_q acl)"

definition rtw_acl_add_sta :: "bytes \<Rightarrow> wlan_acl_pool \<Rightarrow> int \<times> wlan_acl_pool" where
  "rtw_acl_add_sta addr acl =
     (if acl_listed acl addr then (0, acl)
      else if int NUM_ACL \<le> acl_num acl then (-1, acl)
      else (case List.find (\<lambda>i. \<not> an_valid (aclnode acl ! i)) [0..<NUM_ACL] of
              None \<Rightarrow> (-1, acl)
            | Some i \<Rightarrow> (0, acl\<lparr>aclnode := (aclnode acl)[i := \<lparr>an_addr = take 6 addr, an_valid = True\<rparr>],
                                acl_node_q := acl_node_q acl @ [i], acl_num := acl_num acl + 1\<rparr>)))"

definition rtw_acl_remove_sta :: "bytes \<Rightarrow> wlan_acl_pool \<Rightarrow> int \<times> wlan_acl_pool" where
  "rtw_acl_remove_sta addr acl =
     (let is_baddr = is_broadcast_mac_addr addr
      in (0, fold (acl_release (\<lambda>a. is_baddr \<or> a = take 6 addr)) (acl_node_q acl) acl))"

definition rtw_access_ctrl :: "wlan_acl_pool \<Rightarrow> bytes \<Rightarrow> bool" where
  "rtw_access_ctrl acl mac_addr =
     (let match = acl_listed acl mac_addr in
      if acl_mode acl = RTW_ACL_MODE_ACCEPT_UNLESS_LISTED then \<not> match
      else if acl_mode acl = RTW_ACL_MODE_DENY_UNLESS_LISTED then match
      else True)"

section \<open>The invariant\<close>

text \<open>The queue holds the valid nodes, each once, their addresses differ and are counted.\<close>

definition acl_inv :: "wlan_acl_pool \<Rightarrow> bool" where
  "acl_inv acl \<longleftrightarrow> length (aclnode acl) = NUM_ACL \<and> distinct (acl_node_q acl) \<and>
     (\<forall>i. i \<in> set (acl_node_q acl) \<longleftrightarrow> i < NUM_ACL \<and> an_valid (aclnode acl ! i)) \<and>
     inj_on (\<lambda>i. an_addr (aclnode acl ! i)) (set (acl_node_q acl)) \<and>
     (\<forall>i \<in> set (acl_node_q acl). length (an_addr (aclnode acl ! i)) = 6) \<and>
     acl_num acl = int (length (acl_node_q acl))"

definition acl_addrs :: "wlan_acl_pool \<Rightarrow> bytes set" where
  "acl_addrs acl = (\<lambda>i. an_addr (aclnode acl ! i)) ` set (acl_node_q acl)"

lemma acl_invD:
  assumes "acl_inv acl"
  shows "length (aclnode acl) = NUM_ACL" "distinct (acl_node_q acl)"
    "i \<in> set (acl_node_q acl) \<longleftrightarrow> i < NUM_ACL \<and> an_valid (aclnode acl ! i)"
    "inj_on (\<lambda>i. an_addr (aclnode acl ! i)) (set (acl_node_q acl))"
    "i \<in> set (acl_node_q acl) \<Longrightarrow> length (an_addr (aclnode acl ! i)) = 6"
    "acl_num acl = int (length (acl_node_q acl))"
  using assms by (auto simp: acl_inv_def)

lemma acl_listed_addrs:
  "acl_inv acl \<Longrightarrow> length a = 6 \<Longrightarrow> acl_listed acl a \<longleftrightarrow> a \<in> acl_addrs acl"
  by (auto simp: acl_listed_def acl_addrs_def list_ex_iff acl_inv_def)

lemma acl_num_card: "acl_inv acl \<Longrightarrow> acl_num acl = int (card (acl_addrs acl))"
  unfolding acl_addrs_def by (simp add: acl_invD card_image distinct_card)

lemma acl_release:
  assumes inv: "acl_inv acl" and i: "i < NUM_ACL"
  shows "acl_inv (acl_release hit i acl)" "acl_mode (acl_release hit i acl) = acl_mode acl"
    "an_addr (aclnode (acl_release hit i acl) ! j) = an_addr (aclnode acl ! j)"
    "acl_addrs (acl_release hit i acl) = acl_addrs acl -
       (if i \<in> set (acl_node_q acl) \<and> hit (an_addr (aclnode acl ! i)) then {an_addr (aclnode acl ! i)} else {})"
    "set (acl_node_q (acl_release hit i acl)) =
       set (acl_node_q acl) - (if hit (an_addr (aclnode acl ! i)) then {i} else {})"
proof -
  note D = acl_invD [OF inv]
  have len: "length (acl_node_q acl) = Suc (length (removeAll i (acl_node_q acl)))" if "i \<in> set (acl_node_q acl)"
  proof -
    have "length (removeAll i (acl_node_q acl)) = length (remove1 i (acl_node_q acl))"
      by (metis D(2) distinct_remove1_removeAll)
    also have "\<dots> = length (acl_node_q acl) - 1" using that by (simp add: length_remove1)
    finally show ?thesis using length_pos_if_in_set [OF that] by linarith
  qed
  have v: "an_valid (aclnode acl ! i) \<longleftrightarrow> i \<in> set (acl_node_q acl)" using D(3) i by simp
  show addr: "an_addr (aclnode (acl_release hit i acl) ! j) = an_addr (aclnode acl ! j)" for j
    using D(1) i by (simp add: acl_release_def nth_list_update)
  show q: "set (acl_node_q (acl_release hit i acl)) =
      set (acl_node_q acl) - (if hit (an_addr (aclnode acl ! i)) then {i} else {})"
    using v by (auto simp: acl_release_def)
  show "acl_mode (acl_release hit i acl) = acl_mode acl" by (simp add: acl_release_def)
  have sub: "set (acl_node_q (acl_release hit i acl)) \<subseteq> set (acl_node_q acl)" unfolding q by auto
  have valid: "an_valid (aclnode (acl_release hit i acl) ! j) \<longleftrightarrow>
      an_valid (aclnode acl ! j) \<and> \<not> (j = i \<and> hit (an_addr (aclnode acl ! i)))" if "j < NUM_ACL" for j
    using D(1) i that by (auto simp: acl_release_def nth_list_update)
  show "acl_inv (acl_release hit i acl)"
    unfolding acl_inv_def
  proof (intro conjI allI ballI)
    show "length (aclnode (acl_release hit i acl)) = NUM_ACL" using D(1) by (simp add: acl_release_def)
    show "distinct (acl_node_q (acl_release hit i acl))"
      using D(2) by (simp add: acl_release_def distinct_removeAll)
    show "j \<in> set (acl_node_q (acl_release hit i acl)) \<longleftrightarrow> j < NUM_ACL \<and> an_valid (aclnode (acl_release hit i acl) ! j)" for j
      unfolding q using valid [of j] D(3) [of j] by auto
    show "inj_on (\<lambda>j. an_addr (aclnode (acl_release hit i acl) ! j)) (set (acl_node_q (acl_release hit i acl)))"
      unfolding addr by (rule inj_on_subset [OF D(4) sub])
    show "length (an_addr (aclnode (acl_release hit i acl) ! j)) = 6"
      if "j \<in> set (acl_node_q (acl_release hit i acl))" for j
      unfolding addr using D(5) sub that by blast
    show "acl_num (acl_release hit i acl) = int (length (acl_node_q (acl_release hit i acl)))"
      using D(6) len v by (auto simp: acl_release_def)
  qed
  show "acl_addrs (acl_release hit i acl) = acl_addrs acl -
      (if i \<in> set (acl_node_q acl) \<and> hit (an_addr (aclnode acl ! i)) then {an_addr (aclnode acl ! i)} else {})"
    unfolding acl_addrs_def addr q using D(4) by (auto dest: inj_onD)
qed

lemma acl_release_all:
  assumes "acl_inv acl" and "\<forall>i\<in>set is. i < NUM_ACL"
  shows "acl_inv (fold (acl_release hit) is acl) \<and> acl_mode (fold (acl_release hit) is acl) = acl_mode acl \<and>
    acl_addrs (fold (acl_release hit) is acl) =
      {a \<in> acl_addrs acl. \<not> (hit a \<and> (\<exists>i\<in>set is. i \<in> set (acl_node_q acl) \<and> an_addr (aclnode acl ! i) = a))}"
  using assms
proof (induction "is" arbitrary: acl)
  case (Cons i "is")
  have i: "i < NUM_ACL" using Cons.prems(2) by simp
  note r = acl_release [OF Cons.prems(1) i, of hit]
  have IH: "acl_inv (fold (acl_release hit) is (acl_release hit i acl)) \<and>
      acl_mode (fold (acl_release hit) is (acl_release hit i acl)) = acl_mode (acl_release hit i acl) \<and>
      acl_addrs (fold (acl_release hit) is (acl_release hit i acl)) =
      {a \<in> acl_addrs (acl_release hit i acl). \<not> (hit a \<and> (\<exists>j\<in>set is. j \<in> set (acl_node_q (acl_release hit i acl)) \<and>
         an_addr (aclnode (acl_release hit i acl) ! j) = a))}"
    using Cons.prems(2) by (intro Cons.IH r(1)) simp
  show ?case using IH unfolding r by (auto split: if_splits)
qed simp

lemma acl_release_queue:
  assumes "acl_inv acl"
  shows "acl_inv (fold (acl_release hit) (acl_node_q acl) acl)"
    "acl_mode (fold (acl_release hit) (acl_node_q acl) acl) = acl_mode acl"
    "acl_addrs (fold (acl_release hit) (acl_node_q acl) acl) = {a \<in> acl_addrs acl. \<not> hit a}"
proof -
  have "\<forall>i\<in>set (acl_node_q acl). i < NUM_ACL" using acl_invD(3) [OF assms] by blast
  note r = acl_release_all [OF assms this, of hit]
  show "acl_inv (fold (acl_release hit) (acl_node_q acl) acl)"
    "acl_mode (fold (acl_release hit) (acl_node_q acl) acl) = acl_mode acl"
    "acl_addrs (fold (acl_release hit) (acl_node_q acl) acl) = {a \<in> acl_addrs acl. \<not> hit a}"
    using r by (auto simp: acl_addrs_def)
qed

lemma acl_add_room:
  assumes inv: "acl_inv acl" and a: "length a = 6" "a \<notin> acl_addrs acl"
  shows "if card (acl_addrs acl) < NUM_ACL
    then fst (rtw_acl_add_sta a acl) = 0 \<and> acl_inv (snd (rtw_acl_add_sta a acl)) \<and>
      acl_mode (snd (rtw_acl_add_sta a acl)) = acl_mode acl \<and>
      acl_addrs (snd (rtw_acl_add_sta a acl)) = insert a (acl_addrs acl)
    else rtw_acl_add_sta a acl = (-1, acl)"
proof (cases "card (acl_addrs acl) < NUM_ACL")
  case True
  note D = acl_invD [OF inv]
  have nl: "\<not> acl_listed acl a" using acl_listed_addrs [OF inv a(1)] a(2) by simp
  have num: "\<not> int NUM_ACL \<le> acl_num acl" using True acl_num_card [OF inv] by simp
  have "card (set (acl_node_q acl)) < NUM_ACL" using True D(4) by (simp add: acl_addrs_def card_image)
  moreover have "set (acl_node_q acl) = {..<NUM_ACL}" if "\<forall>i<NUM_ACL. an_valid (aclnode acl ! i)"
    using that D(3) by blast
  ultimately have "\<exists>i\<in>set [0..<NUM_ACL]. \<not> an_valid (aclnode acl ! i)" by force
  then obtain i where f: "List.find (\<lambda>i. \<not> an_valid (aclnode acl ! i)) [0..<NUM_ACL] = Some i"
    by (metis find_None_iff not_Some_eq)
  then have i: "i < NUM_ACL" "\<not> an_valid (aclnode acl ! i)" by (auto simp: find_Some_iff)
  then have iq: "i \<notin> set (acl_node_q acl)" using D(3) by blast
  let ?acl = "acl\<lparr>aclnode := (aclnode acl)[i := \<lparr>an_addr = a, an_valid = True\<rparr>],
    acl_node_q := acl_node_q acl @ [i], acl_num := acl_num acl + 1\<rparr>"
  have r: "rtw_acl_add_sta a acl = (0, ?acl)" using nl num f a(1) by (simp add: rtw_acl_add_sta_def)
  have n: "aclnode ?acl ! j = (if j = i then \<lparr>an_addr = a, an_valid = True\<rparr> else aclnode acl ! j)" for j
    using D(1) i(1) by simp
  have e: "an_addr (aclnode ?acl ! j) = an_addr (aclnode acl ! j)" if "j \<in> set (acl_node_q acl)" for j
    using that iq n by auto
  have na: "an_addr (aclnode acl ! j) \<noteq> a" if "j \<in> set (acl_node_q acl)" for j using that a(2) by (auto simp: acl_addrs_def)
  have "acl_inv ?acl" unfolding acl_inv_def
  proof (intro conjI allI ballI)
    have "inj_on (\<lambda>j. an_addr (aclnode ?acl ! j)) (set (acl_node_q acl))"
      by (rule iffD2 [OF inj_on_cong D(4)]) (rule e)
    moreover have "an_addr (aclnode ?acl ! i) \<notin> (\<lambda>j. an_addr (aclnode ?acl ! j)) ` set (acl_node_q acl)"
      using na e n [of i] by (metis (no_types, lifting) image_iff rtw_wlan_acl_node.select_convs(1))
    ultimately show "inj_on (\<lambda>j. an_addr (aclnode ?acl ! j)) (set (acl_node_q ?acl))"
      using iq by (simp del: wlan_acl_pool.update_convs add: inj_on_insert)
    show "j \<in> set (acl_node_q ?acl) \<longleftrightarrow> j < NUM_ACL \<and> an_valid (aclnode ?acl ! j)" for j
      unfolding n using D(3) i(1) by auto
    show "length (an_addr (aclnode ?acl ! j)) = 6" if "j \<in> set (acl_node_q ?acl)" for j
      unfolding n using D(5) that a(1) by auto
    show "length (aclnode ?acl) = NUM_ACL" "distinct (acl_node_q ?acl)" "acl_num ?acl = int (length (acl_node_q ?acl))"
      using D(1,2,6) iq by simp_all
  qed
  moreover have "acl_addrs ?acl = insert a (acl_addrs acl)" using e n by (auto simp: acl_addrs_def)
  ultimately show ?thesis using True r by simp
next
  case False
  then show ?thesis using acl_listed_addrs [OF inv a(1)] a(2) acl_num_card [OF inv] by (simp add: rtw_acl_add_sta_def)
qed

section \<open>The list as a set\<close>

text \<open>
  A set of bounded size: adding answers whether the element is in the set now, and the released elements
  are those that the test names.
\<close>

locale address_set =
  fixes inv :: "'s \<Rightarrow> bool" and elems :: "'s \<Rightarrow> 'a set" and valid :: "'a \<Rightarrow> bool"
    and add_elem :: "'a \<Rightarrow> 's \<Rightarrow> bool \<times> 's" and release :: "('a \<Rightarrow> bool) \<Rightarrow> 's \<Rightarrow> 's" and cap :: nat
  assumes add_law: "inv s \<Longrightarrow> valid a \<Longrightarrow> inv (snd (add_elem a s)) \<and>
      elems (snd (add_elem a s)) = (if a \<in> elems s \<or> card (elems s) < cap then insert a (elems s) else elems s) \<and>
      (fst (add_elem a s) \<longleftrightarrow> a \<in> elems (snd (add_elem a s)))"
    and release_law: "inv s \<Longrightarrow> inv (release h s) \<and> elems (release h s) = {a \<in> elems s. \<not> h a}"
begin

lemma add_listed: "inv s \<Longrightarrow> valid a \<Longrightarrow> a \<in> elems s \<Longrightarrow> elems (snd (add_elem a s)) = elems s"
  using add_law by auto

lemma add_bounded:
  assumes "inv s" and "valid a" and "finite (elems s)" and "card (elems s) \<le> cap"
  shows "card (elems (snd (add_elem a s))) \<le> cap"
proof (cases "a \<in> elems s")
  case True
  then show ?thesis using add_listed [OF assms(1,2)] assms(4) by simp
next
  case False
  then show ?thesis using add_law [OF assms(1,2)] assms(3,4) by simp
qed

lemma release_one: "inv s \<Longrightarrow> elems (release (\<lambda>b. b = a) s) = elems s - {a}"
  using release_law by auto

lemma release_all: "inv s \<Longrightarrow> elems (release (\<lambda>_. True) s) = {}"
  using release_law by auto

end

interpretation acl: address_set acl_inv acl_addrs "\<lambda>a. length a = 6"
  "\<lambda>a s. (fst (rtw_acl_add_sta a s) = 0, snd (rtw_acl_add_sta a s))" "\<lambda>h s. fold (acl_release h) (acl_node_q s) s" NUM_ACL
proof unfold_locales
  fix s a assume inv: "acl_inv s" and a: "length (a :: bytes) = 6"
  show "acl_inv (snd (fst (rtw_acl_add_sta a s) = 0, snd (rtw_acl_add_sta a s))) \<and>
      acl_addrs (snd (fst (rtw_acl_add_sta a s) = 0, snd (rtw_acl_add_sta a s))) =
        (if a \<in> acl_addrs s \<or> card (acl_addrs s) < NUM_ACL then insert a (acl_addrs s) else acl_addrs s) \<and>
      (fst (fst (rtw_acl_add_sta a s) = 0, snd (rtw_acl_add_sta a s)) \<longleftrightarrow>
        a \<in> acl_addrs (snd (fst (rtw_acl_add_sta a s) = 0, snd (rtw_acl_add_sta a s))))"
  proof (cases "a \<in> acl_addrs s")
    case True
    then have "rtw_acl_add_sta a s = (0, s)" using acl_listed_addrs [OF inv a] by (simp add: rtw_acl_add_sta_def)
    then show ?thesis using True inv by (simp add: insert_absorb)
  next
    case False
    then show ?thesis using acl_add_room [OF inv a False] inv by (auto split: if_splits)
  qed
next
  fix s h assume "acl_inv s"
  then show "acl_inv (fold (acl_release h) (acl_node_q s) s) \<and>
      acl_addrs (fold (acl_release h) (acl_node_q s) s) = {a \<in> acl_addrs s. \<not> h a}"
    using acl_release_queue by simp
qed

section \<open>What the list promises\<close>

datatype acl_op = Acl_add bytes | Acl_remove bytes | Acl_mode int

fun acl_step :: "acl_op \<Rightarrow> wlan_acl_pool \<Rightarrow> wlan_acl_pool" where
  "acl_step (Acl_add a) acl = snd (rtw_acl_add_sta a acl)"
| "acl_step (Acl_remove a) acl = snd (rtw_acl_remove_sta a acl)"
| "acl_step (Acl_mode m) acl = rtw_set_macaddr_acl m acl"

text \<open>The same for a mode and a set; removing the broadcast address removes all.\<close>

fun acl_spec_step :: "acl_op \<Rightarrow> int \<times> bytes set \<Rightarrow> int \<times> bytes set" where
  "acl_spec_step (Acl_add a) (m, S) = (m, if a \<in> S \<or> card S < 16 then insert a S else S)"
| "acl_spec_step (Acl_remove a) (m, S) = (m, if is_broadcast_mac_addr a then {} else S - {a})"
| "acl_spec_step (Acl_mode m') (m, S) = (m', if m' = 0 then {} else S)"

fun acl_op_ok :: "acl_op \<Rightarrow> bool" where
  "acl_op_ok (Acl_add a) = (length a = 6)"
| "acl_op_ok (Acl_remove a) = (length a = 6)"
| "acl_op_ok (Acl_mode m) = True"

definition acl_abs :: "wlan_acl_pool \<Rightarrow> int \<times> bytes set" where
  "acl_abs acl = (acl_mode acl, acl_addrs acl)"

lemma acl_step_refines:
  assumes inv: "acl_inv acl" and ok: "acl_op_ok op"
  shows "acl_inv (acl_step op acl) \<and> acl_abs (acl_step op acl) = acl_spec_step op (acl_abs acl)"
proof (cases op)
  case (Acl_add a)
  then have a: "length a = 6" using ok by simp
  have "acl_mode (snd (rtw_acl_add_sta a acl)) = acl_mode acl"
    by (simp add: rtw_acl_add_sta_def split: option.split)
  then show ?thesis using acl.add_law [OF inv a] by (simp add: Acl_add acl_abs_def NUM_ACL_def)
next
  case (Acl_remove a)
  then have a: "take 6 a = a" using ok by simp
  show ?thesis
  proof (cases "is_broadcast_mac_addr a")
    case True
    then show ?thesis using acl_release_queue [OF inv, of "\<lambda>_. True"]
      by (simp add: Acl_remove acl_abs_def rtw_acl_remove_sta_def)
  next
    case False
    then show ?thesis using acl_release_queue [OF inv, of "\<lambda>b. b = a"] a acl.release_one [OF inv, of a]
      by (simp add: Acl_remove acl_abs_def rtw_acl_remove_sta_def)
  qed
next
  case (Acl_mode m)
  let ?acl = "acl\<lparr>acl_mode := m\<rparr>"
  have inv': "acl_inv ?acl" "acl_addrs ?acl = acl_addrs acl" using inv by (simp_all add: acl_inv_def acl_addrs_def)
  have d: "acl_inv (rtw_macaddr_acl_deinit ?acl)" "acl_addrs (rtw_macaddr_acl_deinit ?acl) = {}"
    "acl_mode (rtw_macaddr_acl_deinit ?acl) = 0"
    using acl_release_queue [OF inv'(1), of "\<lambda>_. True"]
    by (simp_all add: rtw_macaddr_acl_deinit_def acl_inv_def acl_addrs_def RTW_ACL_MODE_DISABLED_def)
  show ?thesis
  proof (cases "m = 0")
    case True
    then show ?thesis using d by (simp add: Acl_mode rtw_set_macaddr_acl_def acl_abs_def RTW_ACL_MODE_DISABLED_def)
  next
    case False
    then show ?thesis using inv' by (simp add: Acl_mode rtw_set_macaddr_acl_def acl_abs_def RTW_ACL_MODE_DISABLED_def)
  qed
qed

lemma acl_run_refines:
  assumes "acl_inv acl" and "list_all acl_op_ok ops"
  shows "acl_inv (fold acl_step ops acl) \<and> acl_abs (fold acl_step ops acl) = fold acl_spec_step ops (acl_abs acl)"
  using assms
proof (induction ops arbitrary: acl)
  case (Cons op ops)
  have s: "acl_inv (acl_step op acl)" "acl_abs (acl_step op acl) = acl_spec_step op (acl_abs acl)"
    using acl_step_refines [OF Cons.prems(1)] Cons.prems(2) by simp_all
  show ?case using Cons.IH [OF s(1)] Cons.prems(2) s(2) by simp
qed simp

lemma acl_init:
  assumes "length (aclnode acl) = NUM_ACL"
  shows "acl_inv (rtw_macaddr_acl_init acl) \<and> acl_abs (rtw_macaddr_acl_init acl) = (0, {})"
  using assms by (simp add: acl_inv_def acl_abs_def acl_addrs_def rtw_macaddr_acl_init_def RTW_ACL_MODE_DISABLED_def)

text \<open>C22: Whatever is added, removed and set after the initialisation, the access point admits a station as its
  mode and the set of the addresses added and not removed say, with room for 16 addresses; switching the
  list off clears it.\<close>

theorem acl_admits:
  assumes "length (aclnode acl) = NUM_ACL" and "list_all acl_op_ok ops" and "length a = 6"
  shows "rtw_access_ctrl (fold acl_step ops (rtw_macaddr_acl_init acl)) a =
    (let (mode, S) = fold acl_spec_step ops (0, {})
     in if mode = 1 then a \<notin> S else if mode = 2 then a \<in> S else True)"
proof -
  let ?s = "fold acl_step ops (rtw_macaddr_acl_init acl)"
  note i = acl_init [OF assms(1)]
  have r: "acl_inv ?s" "(acl_mode ?s, acl_addrs ?s) = fold acl_spec_step ops (0, {})"
    using acl_run_refines [OF i [THEN conjunct1] assms(2)] i by (simp_all add: acl_abs_def)
  show ?thesis unfolding r(2) [symmetric]
    using acl_listed_addrs [OF r(1) assms(3)]
    by (simp add: rtw_access_ctrl_def RTW_ACL_MODE_ACCEPT_UNLESS_LISTED_def RTW_ACL_MODE_DENY_UNLESS_LISTED_def Let_def)
qed

theorem acl_admits_witness:
  "rtw_access_ctrl (fold acl_step [Acl_add [2, 0, 0, 0, 0, 1], Acl_mode 2, Acl_add [2, 0, 0, 0, 0, 2], Acl_remove [2, 0, 0, 0, 0, 1]]
     (rtw_macaddr_acl_init \<lparr>acl_mode = 1, acl_num = 9, aclnode = replicate 16 \<lparr>an_addr = replicate 6 0, an_valid = True\<rparr>,
        acl_node_q = []\<rparr>)) [2, 0, 0, 0, 0, 1] = False"
  by (subst acl_admits) (simp_all add: NUM_ACL_def is_broadcast_mac_addr_def)

end
