(* ===== verification/AuthFrame.thy ===== *)
theory AuthFrame
  imports Wep BuildIe StaMgt Acl Cam
begin

unbundle bit_operations_syntax

text \<open>
  The state that authentication works on (\<open>struct mlme_ext_info\<close>, \<open>struct sta_priv\<close> and the keys of
  the adapter) and \<open>issue_auth\<close> of \<open>core/rtw_mlme_ext.c\<close>, which builds the authentication frames of the
  access point and of the client, the third one encrypted with WEP. The lemmas say which bytes go on the air.
\<close>

section \<open>The adapter\<close>

definition WIFI_FW_AUTH_NULL :: u32 where "WIFI_FW_AUTH_NULL = 0x100"
definition WIFI_FW_AUTH_STATE :: u32 where "WIFI_FW_AUTH_STATE = 0x200"
definition WIFI_FW_AUTH_SUCCESS :: u32 where "WIFI_FW_AUTH_SUCCESS = 0x400"
definition WIFI_FW_ASSOC_STATE :: u32 where "WIFI_FW_ASSOC_STATE = 0x2000"

lemmas fw_state_defs = WIFI_FW_AUTH_NULL_def WIFI_FW_AUTH_STATE_def WIFI_FW_AUTH_SUCCESS_def WIFI_FW_ASSOC_STATE_def
  WIFI_FW_ASSOC_SUCCESS_def WIFI_FW_AP_STATE_def WIFI_FW_STATION_STATE_def

definition dot11AuthAlgrthm_Open :: u32 where "dot11AuthAlgrthm_Open = 0"
definition dot11AuthAlgrthm_Shared :: u32 where "dot11AuthAlgrthm_Shared = 1"

text \<open>\<open>link_timer\<close> is the delay of the link timer, if it is pending.\<close>

record adapter =
  own_addr :: bytes
  mlme_state :: u32
  cur_bssid :: bytes
  auth_algo :: u32
  mi_auth_seq :: u32
  reauth_count :: u32
  reassoc_count :: u32
  link_count :: u32
  link_retry :: u32
  mi_key_index :: u32
  mi_iv :: u32
  mi_chg_txt :: bytes
  mi_aid :: u16
  mi_capability :: u16
  slotTime :: u8
  mgnt_seq :: u16
  link_timer :: "u32 option"
  sec :: security_priv
  dot11AuthAlgrthm :: u32
  xmit_frag_len :: u32
  acl_list :: wlan_acl_pool
  stapriv :: sta_priv

section \<open>Fields of a frame\<close>

definition rd16 :: "bytes \<Rightarrow> nat \<Rightarrow> u16 option" where
  "rd16 buf i = do { a \<leftarrow> rd buf i; b \<leftarrow> rd buf (i + 1); Some (le16 a b) }"

definition upd16 :: "bytes \<Rightarrow> nat \<Rightarrow> (u16 \<Rightarrow> u16) \<Rightarrow> bytes option" where
  "upd16 buf i f = do { v \<leftarrow> rd16 buf i; wr_block buf i (put_le16 (f v)) }"

definition SetSeqNum :: "bytes \<Rightarrow> nat \<Rightarrow> u16 \<Rightarrow> bytes option" where
  "SetSeqNum buf p num = upd16 buf (p + 22) (\<lambda>v. v AND 0x000f OR 0xfff0 AND push_bit 4 num)"

definition set_frame_sub_type :: "bytes \<Rightarrow> nat \<Rightarrow> u16 \<Rightarrow> bytes option" where
  "set_frame_sub_type buf p ty = do { b \<leftarrow> upd16 buf p (\<lambda>v. v AND 0xff03); upd16 b p (\<lambda>v. v OR ty) }"

definition SetPrivacy :: "bytes \<Rightarrow> nat \<Rightarrow> bytes option" where
  "SetPrivacy buf p = upd16 buf p (\<lambda>v. v OR 0x4000)"

definition GetPrivacy :: "bytes \<Rightarrow> bool option" where
  "GetPrivacy m = do { v \<leftarrow> rd16 m 0; Some (v AND 0x4000 \<noteq> 0) }"

definition WIFI_AUTH :: u16 where
  "WIFI_AUTH = 0xb0"

section \<open>Building the frame\<close>

text \<open>What \<open>update_mgntframe_attrib\<close> sets of the attributes modelled here.\<close>

definition update_mgntframe_attrib :: "pkt_attrib \<Rightarrow> pkt_attrib" where
  "update_mgntframe_attrib at = at\<lparr>hdrlen := 24, nr_frags := 1, encrypt := 0\<rparr>"

text \<open>The start: the first bytes cleared, the sequence number and the type.\<close>

definition auth_start :: "u16 \<Rightarrow> bytes \<Rightarrow> bytes option" where
  "auth_start sn buf = do {
     b \<leftarrow> wr_block buf 0 (replicate (64 + TXDESC_OFFSET) 0);
     b \<leftarrow> upd16 b TXDESC_OFFSET (\<lambda>_. 0);
     b \<leftarrow> SetSeqNum b TXDESC_OFFSET sn;
     set_frame_sub_type b TXDESC_OFFSET WIFI_AUTH }"

definition auth_addrs :: "bytes \<Rightarrow> bytes \<Rightarrow> bytes \<Rightarrow> bytes \<Rightarrow> bytes option" where
  "auth_addrs a1 a2 a3 buf = do {
     b \<leftarrow> wr_block buf (TXDESC_OFFSET + 4) (take 6 a1);
     b \<leftarrow> wr_block b (TXDESC_OFFSET + 10) (take 6 a2);
     wr_block b (TXDESC_OFFSET + 16) (take 6 a3) }"

text \<open>Algorithm, sequence number and status; the buffer, the position and the frame length.\<close>

definition auth_fixed :: "u16 \<Rightarrow> u16 \<Rightarrow> u16 \<Rightarrow> bytes \<times> nat \<times> u32 \<Rightarrow> (bytes \<times> nat \<times> u32) option" where
  "auth_fixed alg sn status bpl = do {
     (b, p, len) \<leftarrow> rtw_set_fixed_ie (fst bpl) (fst (snd bpl)) 2 (put_le16 alg) (snd (snd bpl));
     (b, p, len) \<leftarrow> rtw_set_fixed_ie b p 2 (put_le16 sn) len;
     rtw_set_fixed_ie b p 2 (put_le16 status) len }"

text \<open>The access point answers the station \<open>s\<close>.\<close>

definition auth_reply :: "bytes \<Rightarrow> sta_info \<Rightarrow> u16 \<Rightarrow> bytes \<Rightarrow> (bytes \<times> u32) option" where
  "auth_reply own s status buf = do {
     b \<leftarrow> auth_addrs (mac_addr s) own own buf;
     let val16 = (if status \<noteq> 0 then 0 else ucast (authalg s));
     (b, p, len) \<leftarrow> auth_fixed val16 (ucast (auth_seq s)) status (b, TXDESC_OFFSET + 24, 24);
     (b, p, len) \<leftarrow> (if auth_seq s = 2 \<and> sta_state s AND WIFI_FW_AUTH_STATE \<noteq> 0 \<and> val16 \<noteq> 0
       then rtw_set_ie b p 16 128 (chg_txt s) len else Some (b, p, len));
     Some (b, len) }"

text \<open>The client asks the access point; \<open>at\<close> are the attributes of the frame.\<close>

definition auth_request :: "adapter \<Rightarrow> u16 \<Rightarrow> pkt_attrib \<Rightarrow> bytes \<Rightarrow> (adapter \<times> pkt_attrib \<times> bytes \<times> u32) option" where
  "auth_request a status at buf = do {
     b \<leftarrow> auth_addrs (cur_bssid a) (own_addr a) (cur_bssid a) buf;
     let val16 = (if auth_algo a = dot11AuthAlgrthm_Shared then 1 else 0);
     let third = (mi_auth_seq a = 3 \<and> mlme_state a AND WIFI_FW_AUTH_STATE \<noteq> 0 \<and> val16 = 1);
     let at = (if third then at\<lparr>iv_len := 4\<rparr> else at);
     (b, p, len) \<leftarrow> (if third
       then rtw_set_fixed_ie b (TXDESC_OFFSET + 24) 4 (le32_bytes (mi_iv a OR push_bit 30 (mi_key_index a))) 24
       else Some (b, TXDESC_OFFSET + 24, 24));
     let a = (if third then a\<lparr>mi_iv := mi_iv a + 1\<rparr> else a);
     (b, p, len) \<leftarrow> auth_fixed val16 (ucast (mi_auth_seq a)) status (b, p, len);
     if third then do {
       (b, p, len) \<leftarrow> rtw_set_ie b p 16 128 (mi_chg_txt a) len;
       b \<leftarrow> SetPrivacy b TXDESC_OFFSET;
       Some (a, at\<lparr>hdrlen := 24, encrypt := WEP40, icv_len := 4\<rparr>, b, len + 4) }
     else Some (a, at, b, len) }"

text \<open>
  \<open>alloc\<close> is what \<open>alloc_mgtxmitframe\<close> returns, a frame with a buffer or the null pointer; the last result
  are the frames handed to \<open>dump_mgntframe\<close>. \<open>psta\<close> is the station that the access point answers, or the null
  pointer for the client.
\<close>

definition issue_auth :: "xmit_frame option \<Rightarrow> sta_info option \<Rightarrow> u16 \<Rightarrow> adapter \<Rightarrow> (adapter \<times> xmit_frame list) option" where
  "issue_auth alloc psta status a = (case alloc of
     None \<Rightarrow> Some (a, [])
   | Some f \<Rightarrow> do {
       (base, buf) \<leftarrow> buf_addr f;
       let at = update_mgntframe_attrib (attrib f);
       b \<leftarrow> auth_start (mgnt_seq a) buf;
       let a = a\<lparr>mgnt_seq := mgnt_seq a + 1\<rparr>;
       (a, at, b, len) \<leftarrow> (case psta of
          Some s \<Rightarrow> do { (b, len) \<leftarrow> auth_reply (own_addr a) s status b; Some (a, at, b, len) }
        | None \<Rightarrow> auth_request a status at b);
       let (sc, f) = rtw_wep_encrypt (sec a) (xmit_frag_len a)
         (f\<lparr>attrib := at\<lparr>last_txcmdsz := len\<rparr>, buf_addr := Some (base, b)\<rparr>);
       Some (a\<lparr>sec := sc\<rparr>, [f]) })"

text \<open>The bytes of a frame behind its descriptor.\<close>

definition on_air :: "xmit_frame \<Rightarrow> bytes" where
  "on_air f = (case buf_addr f of None \<Rightarrow> []
     | Some (base, buf) \<Rightarrow> seg buf TXDESC_OFFSET (unat (last_txcmdsz (attrib f))))"

section \<open>Its bytes\<close>

lemma wr_block_app:
  "k = length P \<Longrightarrow> length ys \<le> length X \<Longrightarrow> wr_block (P @ X) k ys = Some (P @ ys @ drop (length ys) X)"
  by (simp add: wr_block_def store_def)

lemma put_le16_length [simp, len_simps]: "length (put_le16 v) = 2"
  by (simp add: put_le16_def)

lemma le16_of_put: "le16 (ucast v) (ucast (drop_bit 8 v)) = v"
  unfolding le16_def by (rule bit_word_eqI) (auto simp: bit_simps)

lemma rd16_put: "k = length P \<Longrightarrow> rd16 (P @ put_le16 v @ X) k = Some v"
  by (simp add: rd16_def put_le16_def nth_append le16_of_put)

lemma rd16_app: "i + 1 < length A \<Longrightarrow> rd16 (A @ X) i = rd16 A i"
  by (simp add: rd16_def nth_append)

lemma rtw_set_fixed_ie_app:
  "k = length P \<Longrightarrow> length ys = unat len \<Longrightarrow> length ys \<le> length X \<Longrightarrow>
   rtw_set_fixed_ie (P @ X) k len ys n = Some (P @ ys @ drop (length ys) X, k + unat len, n + len)"
  by (simp add: rtw_set_fixed_ie_def seg_def) (simp add: store_def)

lemma rtw_set_ie_app:
  assumes "k = length P" and "length ys = unat len" and "unat len < 256" and "length ys + 2 \<le> length X"
  shows "rtw_set_ie (P @ X) k i len ys n =
    Some (P @ elem_bytes (of_int i, ys) @ drop (length ys + 2) X, k + unat len + 2, n + (len + 2))"
proof -
  have "rtw_set_ie (P @ X) k i len ys n = Some (store (P @ X) k (elem_bytes (of_int i, take (unat len) ys)), k + unat len + 2, n + (len + 2))"
    using assms by (intro rtw_set_ie_store) simp_all
  moreover have "store (P @ X) k (elem_bytes (of_int i, ys)) = P @ elem_bytes (of_int i, ys) @ drop (length ys + 2) X"
    using assms(1) by (simp add: store_def add.commute)
  ultimately show ?thesis using assms(2) by simp
qed

text \<open>The header with the three addresses.\<close>

definition auth_hdr :: "u16 \<Rightarrow> bytes \<Rightarrow> bytes \<Rightarrow> bytes \<Rightarrow> u16 \<Rightarrow> bytes" where
  "auth_hdr fc a1 a2 a3 sn = put_le16 fc @ [0, 0] @ a1 @ a2 @ a3 @ put_le16 (0xfff0 AND push_bit 4 sn)"

definition auth_body :: "u16 \<Rightarrow> u16 \<Rightarrow> u16 \<Rightarrow> bytes" where
  "auth_body alg sn status = put_le16 alg @ put_le16 sn @ put_le16 status"

lemma length_auth_hdr [simp]: "length a1 = 6 \<Longrightarrow> length a2 = 6 \<Longrightarrow> length a3 = 6 \<Longrightarrow> length (auth_hdr fc a1 a2 a3 sn) = 24"
  by (simp add: auth_hdr_def)

lemma length_auth_body [simp]: "length (auth_body alg sn st) = 6"
  by (simp add: auth_body_def)

lemma auth_start_bytes:
  assumes "104 \<le> length buf"
  shows "auth_start sn buf = Some (replicate 40 0 @ put_le16 WIFI_AUTH @ replicate 20 0 @
    put_le16 (0xfff0 AND push_bit 4 sn) @ replicate 40 0 @ drop 104 buf)"
proof -
  let ?D = "drop 104 buf" and ?sn = "0xfff0 AND push_bit 4 sn"
  have 1: "wr_block buf 0 (replicate (64 + TXDESC_OFFSET) 0) = Some (replicate 40 0 @ replicate 64 0 @ ?D)"
    using assms by (simp add: wr_block_def store_def TXDESC_OFFSET_def replicate_add [symmetric])
  have z: "put_le16 0 = replicate 2 0" by (simp add: put_le16_def numeral_2_eq_2)
  have 2: "upd16 (replicate 40 0 @ replicate 64 0 @ ?D) TXDESC_OFFSET (\<lambda>_. 0) = Some (replicate 40 0 @ replicate 64 0 @ ?D)"
    by (simp add: upd16_def rd16_def nth_append TXDESC_OFFSET_def z) (simp add: store_def flip: replicate_add append_assoc)
  have 3: "SetSeqNum (replicate 40 0 @ replicate 64 0 @ ?D) TXDESC_OFFSET sn =
      Some (replicate 40 0 @ replicate 22 0 @ put_le16 ?sn @ replicate 40 0 @ ?D)"
  proof -
    have e: "replicate 40 0 @ replicate 64 0 @ ?D = (replicate 40 0 @ replicate 22 0) @ replicate 42 0 @ ?D"
      by (simp add: replicate_add [symmetric])
    show ?thesis unfolding e
      by (simp add: SetSeqNum_def upd16_def rd16_def nth_append TXDESC_OFFSET_def le16_def) (simp add: store_def)
  qed
  have 4: "set_frame_sub_type (replicate 40 0 @ replicate 22 0 @ put_le16 ?sn @ replicate 40 0 @ ?D) TXDESC_OFFSET WIFI_AUTH =
      Some (replicate 40 0 @ put_le16 WIFI_AUTH @ replicate 20 0 @ put_le16 ?sn @ replicate 40 0 @ ?D)"
  proof -
    have r: "replicate 22 (0::u8) = replicate 2 0 @ replicate 20 0" by (simp add: replicate_add [symmetric])
    have rd0: "rd16 (replicate 40 0 @ (replicate 2 0 @ replicate 20 0) @ put_le16 ?sn @ replicate 40 0 @ ?D) 40 = Some 0"
      by (simp add: rd16_def nth_append le16_def)
    have rd1: "rd16 (replicate 40 0 @ replicate 2 0 @ X) 40 = Some 0" for X
      by (simp add: rd16_def nth_append le16_def)
    show ?thesis unfolding r set_frame_sub_type_def upd16_def TXDESC_OFFSET_def rd0
      by (simp add: z rd1) (simp add: store_def rd1)
  qed
  show ?thesis unfolding auth_start_def 1 by (simp add: 2 3 4)
qed

lemma auth_addrs_bytes:
  assumes "length a1 = 6" and "length a2 = 6" and "length a3 = 6"
  shows "auth_addrs a1 a2 a3 (replicate 40 0 @ put_le16 WIFI_AUTH @ replicate 20 0 @ put_le16 v @ X) =
    Some (replicate 40 0 @ (put_le16 WIFI_AUTH @ [0, 0] @ a1 @ a2 @ a3 @ put_le16 v) @ X)"
proof -
  let ?P = "replicate 40 0 @ put_le16 WIFI_AUTH @ [0, 0]"
  have r: "replicate 20 (0::u8) = [0, 0] @ replicate 18 0" by (simp add: numeral_eq_Suc)
  have 1: "wr_block (?P @ replicate 18 0 @ put_le16 v @ X) 44 a1 = Some (?P @ a1 @ replicate 12 0 @ put_le16 v @ X)"
    using assms by (subst wr_block_app) simp_all
  have 2: "wr_block ((?P @ a1) @ replicate 12 0 @ put_le16 v @ X) 50 a2 = Some ((?P @ a1) @ a2 @ replicate 6 0 @ put_le16 v @ X)"
    using assms by (subst wr_block_app) simp_all
  have 3: "wr_block ((?P @ a1 @ a2) @ replicate 6 0 @ put_le16 v @ X) 56 a3 = Some ((?P @ a1 @ a2) @ a3 @ put_le16 v @ X)"
    using assms by (subst wr_block_app) simp_all
  show ?thesis
    using 1 2 3 assms unfolding auth_addrs_def r TXDESC_OFFSET_def by simp
qed

lemma auth_fixed_bytes:
  assumes "k = length P" and "6 \<le> length X"
  shows "auth_fixed alg sn st (P @ X, k, n) = Some (P @ auth_body alg sn st @ drop 6 X, k + 6, n + 6)"
proof -
  have 1: "rtw_set_fixed_ie (P @ X) k 2 (put_le16 alg) n = Some ((P @ put_le16 alg) @ drop 2 X, k + 2, n + 2)"
    using assms by (subst rtw_set_fixed_ie_app) simp_all
  have 2: "rtw_set_fixed_ie ((P @ put_le16 alg) @ drop 2 X) (k + 2) 2 (put_le16 sn) (n + 2) =
      Some ((P @ put_le16 alg @ put_le16 sn) @ drop 4 X, k + 4, n + 4)"
    using assms by (subst rtw_set_fixed_ie_app) simp_all
  have 3: "rtw_set_fixed_ie ((P @ put_le16 alg @ put_le16 sn) @ drop 4 X) (k + 4) 2 (put_le16 st) (n + 4) =
      Some ((P @ put_le16 alg @ put_le16 sn @ put_le16 st) @ drop 6 X, k + 6, n + 6)"
    using assms by (subst rtw_set_fixed_ie_app) simp_all
  show ?thesis
    using 1 2 3 by (simp add: auth_fixed_def auth_body_def)
qed

definition auth_reply_frame :: "bytes \<Rightarrow> sta_info \<Rightarrow> u16 \<Rightarrow> u16 \<Rightarrow> bytes" where
  "auth_reply_frame own s st sn =
     (let alg = (if st \<noteq> 0 then 0 else ucast (authalg s)) in
      auth_hdr WIFI_AUTH (mac_addr s) own own sn @ auth_body alg (ucast (auth_seq s)) st @
      (if auth_seq s = 2 \<and> sta_state s AND WIFI_FW_AUTH_STATE \<noteq> 0 \<and> alg \<noteq> 0 then elem_bytes (16, chg_txt s) else []))"

lemma auth_reply_bytes:
  assumes "208 \<le> length buf" and "length own = 6" and "length (mac_addr s) = 6" and "length (chg_txt s) = 128"
  shows "\<exists>rest n. Option.bind (auth_start sn buf) (auth_reply own s st) =
      Some (replicate 40 0 @ auth_reply_frame own s st sn @ rest, n) \<and> unat n = length (auth_reply_frame own s st sn)"
proof -
  let ?alg = "if st \<noteq> 0 then 0 else ucast (authalg s) :: u16" and ?H = "auth_hdr WIFI_AUTH (mac_addr s) own own sn"
  let ?X = "replicate 40 0 @ drop 104 buf" and ?b = "auth_body ?alg (ucast (auth_seq s)) st"
  let ?P = "replicate 40 0 @ ?H @ ?b"
  have start: "Option.bind (auth_start sn buf) (auth_reply own s st) =
      Option.bind (auth_addrs (mac_addr s) own own (replicate 40 0 @ put_le16 WIFI_AUTH @ replicate 20 0 @
        put_le16 (0xfff0 AND push_bit 4 sn) @ ?X)) (\<lambda>b. do {
        (b, p, len) \<leftarrow> auth_fixed ?alg (ucast (auth_seq s)) st (b, TXDESC_OFFSET + 24, 24);
        (b, p, len) \<leftarrow> (if auth_seq s = 2 \<and> sta_state s AND WIFI_FW_AUTH_STATE \<noteq> 0 \<and> ?alg \<noteq> 0
          then rtw_set_ie b p 16 128 (chg_txt s) len else Some (b, p, len));
        Some (b, len) })"
    using assms(1) by (simp add: auth_start_bytes auth_reply_def Let_def)
  have addrs: "auth_addrs (mac_addr s) own own (replicate 40 0 @ put_le16 WIFI_AUTH @ replicate 20 0 @
        put_le16 (0xfff0 AND push_bit 4 sn) @ ?X) = Some ((replicate 40 0 @ ?H) @ ?X)"
    using assms(2,3) by (simp add: auth_addrs_bytes auth_hdr_def)
  have fixed: "auth_fixed ?alg (ucast (auth_seq s)) st ((replicate 40 0 @ ?H) @ ?X, TXDESC_OFFSET + 24, 24) =
      Some (?P @ drop 6 ?X, 70, 30)"
    using assms(2,3) by (subst auth_fixed_bytes) (simp_all add: TXDESC_OFFSET_def)
  have chal: "rtw_set_ie (?P @ drop 6 ?X) 70 16 128 (chg_txt s) 30 = Some (?P @ elem_bytes (16, chg_txt s) @ drop 136 ?X, 200, 160)"
    using assms by (subst rtw_set_ie_app) simp_all
  show ?thesis
  proof (cases "auth_seq s = 2 \<and> sta_state s AND WIFI_FW_AUTH_STATE \<noteq> 0 \<and> ?alg \<noteq> 0")
    case True
    have f: "auth_reply_frame own s st sn = ?H @ ?b @ elem_bytes (16, chg_txt s)"
      unfolding auth_reply_frame_def Let_def if_P [OF True] by (rule refl)
    have "Option.bind (auth_start sn buf) (auth_reply own s st) = Some (?P @ elem_bytes (16, chg_txt s) @ drop 136 ?X, 160)"
      unfolding start addrs Option.bind.simps fixed split_conv if_P [OF True] chal ..
    then show ?thesis unfolding f using assms by (intro exI [of _ "drop 136 ?X"] exI [of _ 160]) simp
  next
    case False
    have f: "auth_reply_frame own s st sn = ?H @ ?b" unfolding auth_reply_frame_def Let_def if_not_P [OF False] by simp
    have "Option.bind (auth_start sn buf) (auth_reply own s st) = Some (?P @ drop 6 ?X, 30)"
      unfolding start addrs Option.bind.simps fixed split_conv if_not_P [OF False] ..
    then show ?thesis unfolding f using assms by (intro exI [of _ "drop 6 ?X"] exI [of _ 30]) simp
  qed
qed

text \<open>The access point answers in the clear.\<close>

lemma issue_auth_reply:
  assumes f: "buf_addr f = Some (base, buf)" and "208 \<le> length buf"
    and "length (own_addr a) = 6" and "length (mac_addr s) = 6" and "length (chg_txt s) = 128"
  shows "\<exists>f'. issue_auth (Some f) (Some s) st a = Some (a\<lparr>mgnt_seq := mgnt_seq a + 1\<rparr>, [f']) \<and>
    on_air f' = auth_reply_frame (own_addr a) s st (mgnt_seq a)"
proof -
  obtain rest n where r: "Option.bind (auth_start (mgnt_seq a) buf) (auth_reply (own_addr a) s st) =
      Some (replicate 40 0 @ auth_reply_frame (own_addr a) s st (mgnt_seq a) @ rest, n)"
    "unat n = length (auth_reply_frame (own_addr a) s st (mgnt_seq a))"
    using auth_reply_bytes [OF assms(2-5)] by blast
  obtain b where b: "auth_start (mgnt_seq a) buf = Some b"
    "auth_reply (own_addr a) s st b = Some (replicate 40 0 @ auth_reply_frame (own_addr a) s st (mgnt_seq a) @ rest, n)"
    using r(1) by (cases "auth_start (mgnt_seq a) buf") auto
  show ?thesis
    using b f r(2) by (simp add: issue_auth_def update_mgntframe_attrib_def rtw_wep_encrypt_def on_air_def TXDESC_OFFSET_def)
      (simp add: seg_def)
qed

text \<open>The first request of the client, and the third frame, which is encrypted as a WEP frame of one fragment.\<close>

lemma issue_auth_request:
  assumes f: "buf_addr f = Some (base, buf)" and "208 \<le> length buf"
    and "length (own_addr a) = 6" and "length (cur_bssid a) = 6" and "mi_auth_seq a \<noteq> 3"
  shows "\<exists>f'. issue_auth (Some f) None st a = Some (a\<lparr>mgnt_seq := mgnt_seq a + 1\<rparr>, [f']) \<and>
    on_air f' = auth_hdr WIFI_AUTH (cur_bssid a) (own_addr a) (cur_bssid a) (mgnt_seq a) @
      auth_body (if auth_algo a = dot11AuthAlgrthm_Shared then 1 else 0) (ucast (mi_auth_seq a)) st"
proof -
  let ?H = "auth_hdr WIFI_AUTH (cur_bssid a) (own_addr a) (cur_bssid a) (mgnt_seq a)"
  let ?X = "replicate 40 0 @ drop 104 buf"
  let ?b = "auth_body (if auth_algo a = dot11AuthAlgrthm_Shared then 1 else 0) (ucast (mi_auth_seq a)) st"
  have addrs: "auth_addrs (cur_bssid a) (own_addr a) (cur_bssid a) (replicate 40 0 @ put_le16 WIFI_AUTH @ replicate 20 0 @
        put_le16 (0xfff0 AND push_bit 4 (mgnt_seq a)) @ ?X) = Some ((replicate 40 0 @ ?H) @ ?X)"
    using assms(3,4) by (simp add: auth_addrs_bytes auth_hdr_def)
  have fixed: "auth_fixed (if auth_algo a = dot11AuthAlgrthm_Shared then 1 else 0) (ucast (mi_auth_seq a)) st
      ((replicate 40 0 @ ?H) @ ?X, TXDESC_OFFSET + 24, 24) = Some ((replicate 40 0 @ ?H) @ ?b @ drop 6 ?X, 70, 30)"
    using assms(3,4) by (subst auth_fixed_bytes) (simp_all add: TXDESC_OFFSET_def)
  have "104 \<le> length buf" using assms(2) by simp
  note start = auth_start_bytes [OF this, of "mgnt_seq a"]
  show ?thesis
    using f assms(3-5) fixed
    by (simp add: issue_auth_def start auth_request_def addrs Let_def update_mgntframe_attrib_def rtw_wep_encrypt_def on_air_def)
      (simp add: TXDESC_OFFSET_def seg_def)
qed

text \<open>The bytes of the third frame before the encryption.\<close>

definition auth_third_frame :: "adapter \<Rightarrow> u16 \<Rightarrow> bytes" where
  "auth_third_frame a st =
     auth_hdr (WIFI_AUTH OR 0x4000) (cur_bssid a) (own_addr a) (cur_bssid a) (mgnt_seq a) @
     le32_bytes (mi_iv a OR push_bit 30 (mi_key_index a)) @
     auth_body 1 (ucast (mi_auth_seq a)) st @ elem_bytes (16, mi_chg_txt a)"

lemma SetPrivacy_bytes:
  "SetPrivacy (replicate 40 0 @ auth_hdr fc a1 a2 a3 sn @ X) TXDESC_OFFSET =
   Some (replicate 40 0 @ auth_hdr (fc OR 0x4000) a1 a2 a3 sn @ X)"
proof -
  have rd: "rd16 (replicate 40 0 @ put_le16 fc @ Y) 40 = Some fc" for Y by (rule rd16_put) simp
  have wr: "wr_block (replicate 40 0 @ put_le16 fc @ Y) 40 (put_le16 (fc OR 0x4000)) =
      Some (replicate 40 0 @ put_le16 (fc OR 0x4000) @ Y)" for Y
    by (subst wr_block_app) simp_all
  show ?thesis by (simp only: SetPrivacy_def upd16_def auth_hdr_def TXDESC_OFFSET_def append_assoc rd wr Option.bind.simps)
qed

lemma length_auth_third:
  assumes "length (own_addr a) = 6" and "length (cur_bssid a) = 6" and "length (mi_chg_txt a) = 128"
  shows "length (auth_third_frame a st) = 164"
  using assms by (simp add: auth_third_frame_def)

lemma issue_auth_third:
  assumes f: "buf_addr f = Some (base, buf)" and len: "208 \<le> length buf"
    and a: "length (own_addr a) = 6" "length (cur_bssid a) = 6" "length (mi_chg_txt a) = 128"
    and third: "mi_auth_seq a = 3" "mlme_state a AND WIFI_FW_AUTH_STATE \<noteq> 0" "auth_algo a = dot11AuthAlgrthm_Shared"
  shows "\<exists>g rest. attrib g = (attrib f)\<lparr>hdrlen := 24, nr_frags := 1, encrypt := WEP40, iv_len := 4, icv_len := 4, last_txcmdsz := 168\<rparr> \<and>
    buf_addr g = Some (base, replicate 40 0 @ auth_third_frame a st @ rest) \<and> 4 \<le> length rest \<and>
    issue_auth (Some f) None st a =
      (let (sc, f') = rtw_wep_encrypt (sec a) (xmit_frag_len a) g
       in Some (a\<lparr>mgnt_seq := mgnt_seq a + 1, mi_iv := mi_iv a + 1, sec := sc\<rparr>, [f']))"
proof -
  let ?H = "auth_hdr WIFI_AUTH (cur_bssid a) (own_addr a) (cur_bssid a) (mgnt_seq a)"
  let ?H' = "auth_hdr (WIFI_AUTH OR 0x4000) (cur_bssid a) (own_addr a) (cur_bssid a) (mgnt_seq a)"
  let ?X = "replicate 40 0 @ drop 104 buf" and ?iv = "le32_bytes (mi_iv a OR push_bit 30 (mi_key_index a))"
  let ?b = "auth_body 1 (ucast (mi_auth_seq a)) st" and ?e = "elem_bytes (16, mi_chg_txt a)"
  let ?P = "replicate 40 0 @ ?H @ ?iv @ ?b" and ?rest = "drop 140 ?X"
  have addrs: "auth_addrs (cur_bssid a) (own_addr a) (cur_bssid a) (replicate 40 0 @ put_le16 WIFI_AUTH @ replicate 20 0 @
        put_le16 (0xfff0 AND push_bit 4 (mgnt_seq a)) @ ?X) = Some ((replicate 40 0 @ ?H) @ ?X)"
    using a by (simp add: auth_addrs_bytes auth_hdr_def)
  have iv: "rtw_set_fixed_ie ((replicate 40 0 @ ?H) @ ?X) (TXDESC_OFFSET + 24) 4 ?iv 24 =
      Some ((replicate 40 0 @ ?H @ ?iv) @ drop 4 ?X, 68, 28)"
    using a by (subst rtw_set_fixed_ie_app) (simp_all add: TXDESC_OFFSET_def)
  have fixed: "auth_fixed 1 (ucast (mi_auth_seq a)) st ((replicate 40 0 @ ?H @ ?iv) @ drop 4 ?X, 68, 28) = Some (?P @ drop 10 ?X, 74, 34)"
    using a by (subst auth_fixed_bytes) simp_all
  have chal: "rtw_set_ie (?P @ drop 10 ?X) 74 16 128 (mi_chg_txt a) 34 = Some (?P @ ?e @ ?rest, 204, 164)"
    using a len by (subst rtw_set_ie_app) simp_all
  have priv: "SetPrivacy (?P @ ?e @ ?rest) TXDESC_OFFSET = Some (replicate 40 0 @ ?H' @ ?iv @ ?b @ ?e @ ?rest)"
    using SetPrivacy_bytes [of WIFI_AUTH "cur_bssid a" "own_addr a" "cur_bssid a" "mgnt_seq a" "?iv @ ?b @ ?e @ ?rest"] by simp
  have "104 \<le> length buf" using len by simp
  note start = auth_start_bytes [OF this, of "mgnt_seq a"]
  let ?at = "(attrib f)\<lparr>hdrlen := 24, nr_frags := 1, encrypt := WEP40, iv_len := 4, icv_len := 4, last_txcmdsz := 168\<rparr>"
  let ?g = "f\<lparr>attrib := ?at, buf_addr := Some (base, replicate 40 0 @ auth_third_frame a st @ ?rest)\<rparr>"
  let ?m = "update_mgntframe_attrib (attrib f)"
  have at: "?m\<lparr>iv_len := 4, hdrlen := 24, encrypt := WEP40, icv_len := 4, last_txcmdsz := 168\<rparr> = ?at"
    by (cases "attrib f") (simp add: update_mgntframe_attrib_def)
  have req: "auth_request (a\<lparr>mgnt_seq := mgnt_seq a + 1\<rparr>) st ?m (replicate 40 0 @ put_le16 WIFI_AUTH @ replicate 20 0 @
      put_le16 (0xfff0 AND push_bit 4 (mgnt_seq a)) @ ?X) =
    Some (a\<lparr>mgnt_seq := mgnt_seq a + 1, mi_iv := mi_iv a + 1\<rparr>, ?m\<lparr>iv_len := 4, hdrlen := 24, encrypt := WEP40, icv_len := 4\<rparr>,
      replicate 40 0 @ auth_third_frame a st @ ?rest, 168)"
    using third addrs iv fixed chal priv by (simp add: auth_request_def Let_def auth_third_frame_def)
  have "issue_auth (Some f) None st a = (let (sc, f') = rtw_wep_encrypt (sec a) (xmit_frag_len a) ?g
      in Some (a\<lparr>mgnt_seq := mgnt_seq a + 1, mi_iv := mi_iv a + 1, sec := sc\<rparr>, [f']))"
    using f req by (simp add: issue_auth_def start Let_def case_prod_unfold at)
  moreover have "4 \<le> length ?rest" using len by simp
  ultimately show ?thesis by (intro exI [of _ ?g] exI [of _ ?rest]) simp
qed

section \<open>What it leaves of the adapter\<close>

lemma issue_auth_frame:
  assumes "issue_auth alloc ps st a = Some (a', fs)"
  shows "\<exists>n iv sc. a' = a\<lparr>mgnt_seq := n, mi_iv := iv, sec := sc\<rparr>"
proof -
  have req0: "b' = b \<or> b' = b\<lparr>mi_iv := mi_iv b + 1\<rparr>" if "auth_request b st at buf = Some (b', x)" for b b' at buf x
    using that unfolding auth_request_def Let_def
    by (auto simp: Option.bind_eq_Some_conv split: if_splits prod.splits)
  have req: "\<exists>iv. b' = b\<lparr>mi_iv := iv\<rparr>" if "auth_request b st at buf = Some (b', x)" for b b' at buf x
    using req0 [OF that] by (elim disjE) (rule exI [of _ "mi_iv b"], simp, blast)
  have same: "\<exists>n iv sc. b = b\<lparr>mgnt_seq := n, mi_iv := iv, sec := sc\<rparr>" for b :: adapter
    by (intro exI [of _ "mgnt_seq b"] exI [of _ "mi_iv b"] exI [of _ "sec b"]) simp
  have upd: "\<exists>n' iv sc'. b\<lparr>mgnt_seq := n, sec := sc\<rparr> = b\<lparr>mgnt_seq := n', mi_iv := iv, sec := sc'\<rparr>" for b :: adapter and n sc
    by (intro exI [of _ n] exI [of _ "mi_iv b"] exI [of _ sc]) simp
  have upd3: "\<exists>n' iv' sc'. b\<lparr>mgnt_seq := n, mi_iv := iv, sec := sc\<rparr> = b\<lparr>mgnt_seq := n', mi_iv := iv', sec := sc'\<rparr>" for b :: adapter and n iv sc
    by blast
  show ?thesis
  proof (cases ps)
    case None
    then show ?thesis using assms unfolding issue_auth_def Let_def
      by (auto simp: Option.bind_eq_Some_conv case_prod_unfold same upd3 split: option.splits dest!: req)
  next
    case (Some s)
    then show ?thesis using assms unfolding issue_auth_def Let_def
      by (auto simp: Option.bind_eq_Some_conv case_prod_unfold same upd split: option.splits)
  qed
qed

lemma issue_auth_keeps:
  assumes "issue_auth alloc ps st a = Some (a', fs)"
  shows "stapriv a' = stapriv a \<and> own_addr a' = own_addr a \<and> mlme_state a' = mlme_state a \<and> acl_list a' = acl_list a \<and>
    dot11AuthAlgrthm a' = dot11AuthAlgrthm a"
  using issue_auth_frame [OF assms] by auto

text \<open>A frame from the pool whose buffer holds the longest answer.\<close>

definition mgt_buf :: "xmit_frame \<Rightarrow> bool" where
  "mgt_buf f \<longleftrightarrow> (case buf_addr f of None \<Rightarrow> False | Some (base, buf) \<Rightarrow> 208 \<le> length buf)"

section \<open>A frame in the clear\<close>

text \<open>A frame in the clear to \<open>da\<close> from \<open>sa\<close>, with status 0; \<open>n\<close> is its sequence number field.\<close>

definition clear_auth :: "bytes \<Rightarrow> bytes \<Rightarrow> bytes \<Rightarrow> u16 \<Rightarrow> u16 \<Rightarrow> u16 \<Rightarrow> bytes \<Rightarrow> bytes" where
  "clear_auth da sa a3 n alg sn rest = auth_hdr WIFI_AUTH da sa a3 n @ auth_body alg sn 0 @ rest"

lemma length_clear_auth:
  "length da = 6 \<Longrightarrow> length sa = 6 \<Longrightarrow> length a3 = 6 \<Longrightarrow> length (clear_auth da sa a3 n alg sn rest) = 30 + length rest"
  by (simp add: clear_auth_def)

lemma clear_auth_reads:
  assumes "length da = 6" and "length sa = 6" and "length a3 = 6"
  shows "GetPrivacy (clear_auth da sa a3 n alg sn rest) = Some False" "rd_block (clear_auth da sa a3 n alg sn rest) 10 6 = Some sa"
    "rd16 (clear_auth da sa a3 n alg sn rest) 24 = Some alg" "rd16 (clear_auth da sa a3 n alg sn rest) 26 = Some sn"
    "rd16 (clear_auth da sa a3 n alg sn rest) 28 = Some 0"
    "rd16 (clear_auth da sa a3 n alg sn rest) 0 = Some WIFI_AUTH" "rd_block (clear_auth da sa a3 n alg sn rest) 4 6 = Some da"
proof -
  show fc: "rd16 (clear_auth da sa a3 n alg sn rest) 0 = Some WIFI_AUTH"
    using rd16_put [of 0 "[]" WIFI_AUTH] by (simp add: clear_auth_def auth_hdr_def)
  show "GetPrivacy (clear_auth da sa a3 n alg sn rest) = Some False" by (simp add: GetPrivacy_def fc) (simp add: WIFI_AUTH_def)
  show "rd_block (clear_auth da sa a3 n alg sn rest) 10 6 = Some sa" "rd_block (clear_auth da sa a3 n alg sn rest) 4 6 = Some da"
    using assms by (simp_all add: rd_block_def clear_auth_def auth_hdr_def seg_def)
  show "rd16 (clear_auth da sa a3 n alg sn rest) 24 = Some alg"
    using assms rd16_put [of 24 "auth_hdr WIFI_AUTH da sa a3 n" alg] by (simp add: clear_auth_def auth_body_def)
  show "rd16 (clear_auth da sa a3 n alg sn rest) 26 = Some sn"
    using assms rd16_put [of 26 "auth_hdr WIFI_AUTH da sa a3 n @ put_le16 alg" sn] by (simp add: clear_auth_def auth_body_def)
  show "rd16 (clear_auth da sa a3 n alg sn rest) 28 = Some 0"
    using assms rd16_put [of 28 "auth_hdr WIFI_AUTH da sa a3 n @ put_le16 alg @ put_le16 sn" 0] by (simp add: clear_auth_def auth_body_def)
qed

lemma clear_auth_rest:
  assumes "length da = 6" and "length sa = 6" and "length a3 = 6" and "30 \<le> i"
  shows "rd (clear_auth da sa a3 n alg sn rest) i = rd rest (i - 30)"
    "rd_block (clear_auth da sa a3 n alg sn rest) i j = rd_block rest (i - 30) j"
proof -
  have l: "length (auth_hdr WIFI_AUTH da sa a3 n @ auth_body alg sn 0) = 30" using assms by simp
  show "rd (clear_auth da sa a3 n alg sn rest) i = rd rest (i - 30)"
    using l assms(4) by (auto simp: clear_auth_def rd_def nth_append append_assoc [symmetric] simp del: append_assoc)
  show "rd_block (clear_auth da sa a3 n alg sn rest) i j = rd_block rest (i - 30) j"
    using l assms(4) by (auto simp: clear_auth_def rd_block_def seg_def append_assoc [symmetric] simp del: append_assoc)
qed

end
