(* ===== verification/ApAuth.thy ===== *)
theory ApAuth
  imports AuthFrame
begin

unbundle bit_operations_syntax

text \<open>
  The access point's side of authentication, \<open>OnAuth\<close> of \<open>core/rtw_mlme_ext.c\<close>, over the station table,
  the access control list and the WEP decryption. The lemmas say what it keeps of the table, when a
  station is authenticated, and what a frame of a forger does.
\<close>

section \<open>The code\<close>

definition upd_sta :: "nat \<Rightarrow> (sta_info \<Rightarrow> sta_info) \<Rightarrow> sta_priv \<Rightarrow> sta_priv" where
  "upd_sta k g p = p\<lparr>stainfo_buf := (stainfo_buf p)[k := g (stainfo_buf p ! k)]\<rparr>"

text \<open>The label \<open>auth_fail\<close>: the station, if there is one, is freed and a static structure is answered.\<close>

definition auth_fail :: "xmit_frame option \<Rightarrow> bytes \<Rightarrow> nat option \<Rightarrow> u16 \<Rightarrow> adapter \<Rightarrow> (result \<times> adapter \<times> xmit_frame list) option" where
  "auth_fail alloc sa pstat status a = do {
     let a = a\<lparr>stapriv := fst (rtw_free_stainfo (own_addr a) (mlme_state a = WIFI_FW_AP_STATE) pstat (stapriv a))\<rparr>;
     (a, fs) \<leftarrow> issue_auth alloc (Some (init_stainfo\<lparr>auth_seq := 2, mac_addr := sa\<rparr>)) status a;
     Some (Fail, a, fs) }"

text \<open>The station is looked up, taken off the list of the associated ones or allocated, and queued.\<close>

definition auth_station :: "bytes \<Rightarrow> bytes \<Rightarrow> sta_priv \<Rightarrow> nat option \<times> sta_priv" where
  "auth_station own sa p = (case rtw_get_stainfo p (Some sa) of
     Some k \<Rightarrow> (Some k, if on_asoc_list (stainfo_buf p ! k)
       then (upd_sta k (\<lambda>s. s\<lparr>on_asoc_list := False\<rparr>) p)\<lparr>asoc_list_cnt := asoc_list_cnt p - 1\<rparr> else p)
   | None \<Rightarrow> (case rtw_alloc_stainfo own sa p of
       (None, p) \<Rightarrow> (None, p)
     | (Some k, p) \<Rightarrow> (Some k, upd_sta k (\<lambda>s. s\<lparr>sta_state := WIFI_FW_AUTH_NULL, auth_seq := 0\<rparr>) p)))"

definition auth_enqueue :: "nat \<Rightarrow> sta_priv \<Rightarrow> sta_priv" where
  "auth_enqueue k p =
     (let p = (if on_auth_list (stainfo_buf p ! k) then p
               else (upd_sta k (\<lambda>s. s\<lparr>on_auth_list := True\<rparr>) p)\<lparr>auth_list_cnt := auth_list_cnt p + 1\<rparr>)
      in if auth_seq (stainfo_buf p ! k) = 0 then upd_sta k (\<lambda>s. s\<lparr>expire_to := auth_to p\<rparr>) p else p)"

text \<open>
  The decision over the frame \<open>d\<close> with its algorithm and sequence number: a status to refuse, or what
  becomes of the station. \<open>to\<close> is \<open>assoc_to\<close>.
\<close>

definition auth_verdict :: "bytes \<Rightarrow> u32 \<Rightarrow> u32 \<Rightarrow> u16 \<Rightarrow> u32 \<Rightarrow> u32 \<Rightarrow> sta_info \<Rightarrow> (u16 + sta_info) option" where
  "auth_verdict d len mode algorithm sn to s =
     (if auth_seq s + 1 \<noteq> sn then Some (Inl 14)
      else if algorithm = 0 \<and> (mode = 0 \<or> mode = 2 \<or> mode = 3) then
        (if sn = 1 then Some (Inr (s\<lparr>sta_state := sta_state s AND NOT WIFI_FW_AUTH_NULL OR WIFI_FW_AUTH_SUCCESS,
           expire_to := to, authalg := ucast algorithm\<rparr>))
         else Some (Inl 14))
      else if sn = 1 then
        Some (Inr (s\<lparr>chg_txt := replicate 128 78,
          sta_state := sta_state s AND NOT WIFI_FW_AUTH_NULL OR WIFI_FW_AUTH_STATE,
          authalg := ucast algorithm, auth_seq := 2\<rparr>))
      else if sn = 3 then do {
        (p, ie_len) \<leftarrow> rtw_get_ie d (WLAN_HDR_A3_LEN + 4 + 6) 16 0 (sint (len - 24 - 6 - 4));
        case p of
          None \<Rightarrow> Some (Inl 15)
        | Some q \<Rightarrow> if ie_len \<le> 0 then Some (Inl 15)
            else do {
              c \<leftarrow> rd_block d (q + 2) 128;
              if c = chg_txt s
              then Some (Inr (s\<lparr>sta_state := sta_state s AND NOT WIFI_FW_AUTH_STATE OR WIFI_FW_AUTH_SUCCESS, expire_to := to\<rparr>))
              else Some (Inl 15) } }
      else Some (Inl 14))"

text \<open>
  A frame with the protected bit is decrypted in place; the decryption runs over the bytes behind header and
  IV, and over memory that is not the frame's if that length wraps. The result is the key state, the
  data and the offset of the body.
\<close>

definition auth_decrypt :: "security_priv \<Rightarrow> recv_frame \<Rightarrow> (security_priv \<times> bytes \<times> nat) option" where
  "auth_decrypt sc r = do {
     priv \<leftarrow> GetPrivacy (rx_data r);
     if priv then do {
       iv3 \<leftarrow> rd (rx_data r) 27;
       let x = (rx_attrib r)\<lparr>rx_hdrlen := 24, rx_encrypt := WEP40, rx_key_index := drop_bit 6 iv3 AND 3, rx_iv_len := 4, rx_icv_len := 4\<rparr>;
       if 28 + unat (rx_len r - 28) \<le> length (rx_data r)
       then let (sc, r) = rtw_wep_decrypt sc (r\<lparr>rx_attrib := x\<rparr>) in Some (sc, rx_data r, 4)
       else None }
     else Some (sc, rx_data r, 0) }"

text \<open>The end of \<open>OnAuth\<close>: the station \<open>k\<close> becomes \<open>s\<close> and is answered.\<close>

definition auth_grant :: "xmit_frame option \<Rightarrow> nat \<Rightarrow> sta_info \<Rightarrow> u16 \<Rightarrow> adapter \<Rightarrow> (result \<times> adapter \<times> xmit_frame list) option" where
  "auth_grant alloc k s sn a = do {
     let p = upd_sta k (\<lambda>_. s\<lparr>auth_seq := ucast sn + 1\<rparr>) (stapriv a);
     (a, fs) \<leftarrow> issue_auth alloc (Some (stainfo_buf p ! k)) 0 (a\<lparr>stapriv := p\<rparr>);
     let s = stainfo_buf (stapriv a) ! k;
     Some (Success, a\<lparr>stapriv := (if sta_state s AND WIFI_FW_AUTH_SUCCESS \<noteq> 0 \<or> sta_state s AND WIFI_FW_ASSOC_SUCCESS \<noteq> 0
       then upd_sta k (\<lambda>s. s\<lparr>auth_seq := 0\<rparr>) (stapriv a) else stapriv a)\<rparr>, fs) }"

text \<open>\<open>dot11AuthAlgrthm\<close> as the code reads it: "auto" without WEP is the open system.\<close>

definition auth_mode :: "adapter \<Rightarrow> u32" where
  "auth_mode a = (if dot11AuthAlgrthm a = 2 \<and> dot11PrivacyAlgrthm (sec a) \<noteq> 1 \<and> dot11PrivacyAlgrthm (sec a) \<noteq> 5
     then 0 else dot11AuthAlgrthm a)"

text \<open>The middle, from the test of the algorithm on.\<close>

definition auth_steps :: "xmit_frame option \<Rightarrow> bytes \<Rightarrow> u32 \<Rightarrow> bytes \<Rightarrow> u16 \<Rightarrow> u16 \<Rightarrow> adapter \<Rightarrow> (result \<times> adapter \<times> xmit_frame list) option" where
  "auth_steps alloc d len sa algorithm sn a =
     (if 0 < algorithm \<and> auth_mode a = 0 \<or> algorithm = 0 \<and> auth_mode a = 1 then auth_fail alloc sa None 13 a
      else if \<not> rtw_access_ctrl (acl_list a) sa then auth_fail alloc sa None 17 a
      else (case auth_station (own_addr a) sa (stapriv a) of
        (None, p) \<Rightarrow> auth_fail alloc sa None 17 (a\<lparr>stapriv := p\<rparr>)
      | (Some k, p) \<Rightarrow> do {
          let p = auth_enqueue k p;
          v \<leftarrow> auth_verdict d len (auth_mode a) algorithm (ucast sn) (assoc_to p) (stainfo_buf p ! k);
          case v of
            Inl status \<Rightarrow> auth_fail alloc sa (Some k) status (a\<lparr>stapriv := p\<rparr>)
          | Inr s \<Rightarrow> auth_grant alloc k s sn (a\<lparr>stapriv := p\<rparr>) }))"

definition OnAuth :: "xmit_frame option \<Rightarrow> recv_frame \<Rightarrow> adapter \<Rightarrow> (result \<times> adapter \<times> xmit_frame list) option" where
  "OnAuth alloc r a =
     (if mlme_state a AND 3 \<noteq> WIFI_FW_AP_STATE then Some (Fail, a, [])
      else do {
        (sc, d, offset) \<leftarrow> auth_decrypt (sec a) r;
        sa \<leftarrow> rd_block d 10 6;
        algorithm \<leftarrow> rd16 d (WLAN_HDR_A3_LEN + offset);
        sn \<leftarrow> rd16 d (WLAN_HDR_A3_LEN + offset + 2);
        auth_steps alloc d (rx_len r) sa algorithm sn (a\<lparr>sec := sc\<rparr>) })"

section \<open>Updating a station\<close>

text \<open>An update that keeps the address and the MAC id keeps the table.\<close>

lemma upd_sta_table:
  assumes g: "mac_addr (g (stainfo_buf p ! k)) = mac_addr (stainfo_buf p ! k)" "mac_id (g (stainfo_buf p ! k)) = mac_id (stainfo_buf p ! k)"
  shows "sta_inv own (upd_sta k g p) \<longleftrightarrow> sta_inv own p" "sta_uniq (upd_sta k g p) \<longleftrightarrow> sta_uniq p"
    "rtw_get_stainfo (upd_sta k g p) b = rtw_get_stainfo p b" "hashed (upd_sta k g p) = hashed p"
    "j \<noteq> k \<Longrightarrow> stainfo_buf (upd_sta k g p) ! j = stainfo_buf p ! j"
    "k < length (stainfo_buf p) \<Longrightarrow> stainfo_buf (upd_sta k g p) ! k = g (stainfo_buf p ! k)"
proof -
  have m: "mac_addr (stainfo_buf (upd_sta k g p) ! j) = mac_addr (stainfo_buf p ! j)"
    "mac_id (stainfo_buf (upd_sta k g p) ! j) = mac_id (stainfo_buf p ! j)" for j
    using g by (cases "k < length (stainfo_buf p)"; cases "j = k"; simp add: upd_sta_def list_update_beyond)+
  show "hashed (upd_sta k g p) = hashed p" by (simp add: hashed_def upd_sta_def)
  have u: "sta_hash (upd_sta k g p) = sta_hash p" "length (stainfo_buf (upd_sta k g p)) = length (stainfo_buf p)"
    "free_sta_queue (upd_sta k g p) = free_sta_queue p" "asoc_sta_count (upd_sta k g p) = asoc_sta_count p"
    "sp_macid (upd_sta k g p) = sp_macid p"
    by (simp_all add: upd_sta_def)
  show "sta_inv own (upd_sta k g p) \<longleftrightarrow> sta_inv own p" "sta_uniq (upd_sta k g p) \<longleftrightarrow> sta_uniq p"
    "rtw_get_stainfo (upd_sta k g p) b = rtw_get_stainfo p b"
    unfolding sta_inv_def chains_ok_def macids_ok_def sta_uniq_def rtw_get_stainfo_def m hashed_def u by (rule refl)+
qed (simp_all add: upd_sta_def)

section \<open>What the operations keep\<close>

definition table_ok :: "bytes \<Rightarrow> sta_priv \<Rightarrow> bool" where
  "table_ok own p \<longleftrightarrow> sta_inv own p \<and> sta_uniq p"

text \<open>The other stations are still there, as they were.\<close>

definition same_others :: "bytes \<Rightarrow> sta_priv \<Rightarrow> sta_priv \<Rightarrow> bool" where
  "same_others sa p p' \<longleftrightarrow> (\<forall>b. tab_addr b \<and> b \<noteq> sa \<longrightarrow> rtw_get_stainfo p' (Some b) = rtw_get_stainfo p (Some b) \<and>
     (\<forall>j. rtw_get_stainfo p (Some b) = Some j \<longrightarrow> stainfo_buf p' ! j = stainfo_buf p ! j))"

lemma same_others_refl [simp]: "same_others sa p p"
  by (simp add: same_others_def)

lemma same_others_trans [trans]: "same_others sa p q \<Longrightarrow> same_others sa q r \<Longrightarrow> same_others sa p r"
  by (simp add: same_others_def)

lemma table_okD:
  assumes "table_ok own p" and "tab_addr a" and "rtw_get_stainfo p (Some a) = Some k"
  shows "k \<in> set (hashed p)" "mac_addr (stainfo_buf p ! k) = a" "k < length (stainfo_buf p)"
proof -
  have c: "chains_ok p" "sta_uniq p" using assms(1) by (simp_all add: table_ok_def sta_inv_def)
  show k: "k \<in> set (hashed p)" "mac_addr (stainfo_buf p ! k) = a"
    using get_stainfo_iff [OF c assms(2), of k] assms(3) by simp_all
  show "k < length (stainfo_buf p)" using k(1) chains_okD(2,6) [OF c(1)] by auto
qed

lemma table_ok_other:
  assumes "table_ok own p" and "tab_addr a" and "tab_addr b" and "rtw_get_stainfo p (Some a) = Some k"
    and "rtw_get_stainfo p (Some b) = Some k"
  shows "b = a"
  using table_okD(2) [OF assms(1,2,4)] table_okD(2) [OF assms(1,3,5)] by simp

lemma upd_sta_others:
  assumes "table_ok own p" and "tab_addr sa" and "rtw_get_stainfo p (Some sa) = Some k"
    and g: "\<And>s. mac_addr (g s) = mac_addr s" "\<And>s. mac_id (g s) = mac_id s"
  shows "table_ok own (upd_sta k g p) \<and> same_others sa p (upd_sta k g p) \<and> rtw_get_stainfo (upd_sta k g p) (Some sa) = Some k \<and>
    stainfo_buf (upd_sta k g p) ! k = g (stainfo_buf p ! k)"
proof -
  note u = upd_sta_table [where g = g and p = p and k = k, OF g(1) g(2)]
  have "stainfo_buf (upd_sta k g p) ! j = stainfo_buf p ! j"
    if "tab_addr b" "b \<noteq> sa" "rtw_get_stainfo p (Some b) = Some j" for b j
    using table_ok_other [OF assms(1,2) that(1) assms(3)] that u(5) by metis
  then have "same_others sa p (upd_sta k g p)" unfolding same_others_def u(3) by blast
  moreover have "table_ok own (upd_sta k g p)" using assms(1) unfolding table_ok_def u(1,2) .
  ultimately show ?thesis using assms(3) u(6) [OF table_okD(3) [OF assms(1-3)]] unfolding u(3) by blast
qed

text \<open>Fields that the table does not depend on.\<close>

lemma table_frame:
  assumes "sta_hash p' = sta_hash p" and "stainfo_buf p' = stainfo_buf p" and "free_sta_queue p' = free_sta_queue p"
    and "asoc_sta_count p' = asoc_sta_count p" and "sp_macid p' = sp_macid p"
  shows "table_ok own p' = table_ok own p" "same_others sa q p' = same_others sa q p" "rtw_get_stainfo p' b = rtw_get_stainfo p b"
proof -
  show g: "rtw_get_stainfo p' b = rtw_get_stainfo p b" for b unfolding rtw_get_stainfo_def assms ..
  show "table_ok own p' = table_ok own p"
    unfolding table_ok_def sta_inv_def chains_ok_def macids_ok_def sta_uniq_def hashed_def assms ..
  show "same_others sa q p' = same_others sa q p" unfolding same_others_def g assms ..
qed

lemma table_ok_frame [simp]:
  "table_ok own (p\<lparr>asoc_list_cnt := n\<rparr>) = table_ok own p" "table_ok own (p\<lparr>auth_list_cnt := n\<rparr>) = table_ok own p"
  "same_others sa q (p\<lparr>asoc_list_cnt := n\<rparr>) = same_others sa q p" "same_others sa q (p\<lparr>auth_list_cnt := n\<rparr>) = same_others sa q p"
  "rtw_get_stainfo (p\<lparr>asoc_list_cnt := n\<rparr>) b = rtw_get_stainfo p b" "rtw_get_stainfo (p\<lparr>auth_list_cnt := n\<rparr>) b = rtw_get_stainfo p b"
  by (rule table_frame; simp)+

lemma alloc_others:
  assumes ok: "table_ok own p" and a: "tab_addr sa" and none: "rtw_get_stainfo p (Some sa) = None"
    and r: "rtw_alloc_stainfo own sa p = (Some k, p')"
  shows "table_ok own p' \<and> same_others sa p p' \<and> rtw_get_stainfo p' (Some sa) = Some k \<and>
    (\<exists>mid. stainfo_buf p' ! k = fresh_stainfo sa mid) \<and> auth_to p' = auth_to p \<and> assoc_to p' = assoc_to p"
proof -
  have inv: "sta_inv own p" "sta_uniq p" using ok by (simp_all add: table_ok_def)
  have len: "length sa = 6" using a by (simp add: tab_addr_def)
  obtain rest where f: "free_sta_queue p = k # rest"
    using r by (cases "free_sta_queue p") (auto simp: rtw_alloc_stainfo_def Let_def split: if_splits prod.splits)
  obtain mid m c where m: "rtw_alloc_macid own k sa (sp_macid p) (sp_cam p) = (mid, m, c)"
    by (cases "rtw_alloc_macid own k sa (sp_macid p) (sp_cam p)")
  note e = alloc_stainfo_eq [OF f len m]
  have b: "stainfo_buf p' = (stainfo_buf p)[k := fresh_stainfo sa mid]" "auth_to p' = auth_to p" "assoc_to p' = assoc_to p"
    using e r by auto
  have ch: "chains_ok p" using inv(1) by (simp add: sta_inv_def)
  have k: "k \<notin> set (hashed p)" "k < length (stainfo_buf p)" using chains_okD(2,5,6) [OF ch] f by auto
  have old: "stainfo_buf p' ! j = stainfo_buf p ! j" if "tab_addr x" "rtw_get_stainfo p (Some x) = Some j" for x j
    using table_okD(1) [OF ok that] k(1) b(1) by (metis nth_list_update_neq)
  have t: "sta_inv own p'" "sta_uniq p'" "\<And>x. tab_addr x \<Longrightarrow> rtw_get_stainfo p' (Some x) = (if x = sa then Some k else rtw_get_stainfo p (Some x))"
    using alloc_inv [OF inv(1) len r] alloc_table [OF inv a none r] by simp_all
  have new: "stainfo_buf p' ! k = fresh_stainfo sa mid" using k(2) b(1) by simp
  show ?thesis unfolding table_ok_def same_others_def using t old new b(2,3) a by auto
qed

lemma alloc_none_others:
  assumes "rtw_alloc_stainfo own sa p = (None, p')"
  shows "table_ok own p' = table_ok own p \<and> same_others sa p p' \<and> rtw_get_stainfo p' b = rtw_get_stainfo p b"
proof -
  have "sta_hash p' = sta_hash p \<and> stainfo_buf p' = stainfo_buf p \<and> free_sta_queue p' = free_sta_queue p \<and>
      asoc_sta_count p' = asoc_sta_count p \<and> sp_macid p' = sp_macid p"
  proof (cases "free_sta_queue p")
    case Nil
    then show ?thesis using assms by (auto simp: rtw_alloc_stainfo_def Let_def)
  next
    case (Cons k rest)
    have "\<not> NUM_STA \<le> unat (wifi_mac_hash sa)" by (simp add: NUM_STA_def MACID_NUM_SW_LIMIT_def not_le)
    then show ?thesis using assms Cons by (simp add: rtw_alloc_stainfo_def Let_def split: prod.splits)
  qed
  then show ?thesis using table_frame [of p' p] by simp
qed

lemma free_others:
  assumes ok: "table_ok own p" and a: "tab_addr sa" and k: "rtw_get_stainfo p (Some sa) = Some k"
  shows "table_ok own (fst (rtw_free_stainfo own ap (Some k) p)) \<and> same_others sa p (fst (rtw_free_stainfo own ap (Some k) p)) \<and>
    rtw_get_stainfo (fst (rtw_free_stainfo own ap (Some k) p)) (Some sa) = None"
proof -
  obtain p' x y where r: "rtw_free_stainfo own ap (Some k) p = (p', x, y)" by (cases "rtw_free_stainfo own ap (Some k) p")
  have inv: "sta_inv own p" "sta_uniq p" using ok by (simp_all add: table_ok_def)
  note kk = table_okD [OF ok a k]
  obtain mid m c where m: "rtw_release_macid own (mac_addr (stainfo_buf p ! k)) (mac_id (stainfo_buf p ! k)) (sp_macid p) (sp_cam p) = (mid, m, c)"
    by (cases "rtw_release_macid own (mac_addr (stainfo_buf p ! k)) (mac_id (stainfo_buf p ! k)) (sp_macid p) (sp_cam p)")
  have old: "stainfo_buf p' ! j = stainfo_buf p ! j" if "j \<noteq> k" for j
    using free_stainfo_sel(6) [OF r m] that by auto
  have "stainfo_buf p' ! j = stainfo_buf p ! j" if "tab_addr b" "b \<noteq> sa" "rtw_get_stainfo p (Some b) = Some j" for b j
    using table_ok_other [OF ok a that(1) k] that old by metis
  moreover have t: "rtw_get_stainfo p' (Some b) = (if b = sa then None else rtw_get_stainfo p (Some b))" if "tab_addr b" for b
    using free_table [OF inv kk(1) r] kk(2) that by simp
  ultimately have "same_others sa p p'" unfolding same_others_def by (metis (full_types))
  then show ?thesis
    using free_inv [OF inv(1) kk(1) r] t [OF a] free_table [OF inv kk(1) r] unfolding r table_ok_def by simp
qed

text \<open>What the exchange reads of a station.\<close>

definition sta_view :: "sta_info \<Rightarrow> u32 \<times> bytes \<times> u32 \<times> u32" where
  "sta_view s = (auth_seq s, chg_txt s, sta_state s, authalg s)"

lemma auth_station_ok:
  assumes ok: "table_ok own p" and a: "tab_addr sa" and r: "auth_station own sa p = (ko, p')"
  shows "table_ok own p' \<and> same_others sa p p' \<and> rtw_get_stainfo p' (Some sa) = ko"
    "ko = Some k \<Longrightarrow> sta_view (stainfo_buf p' ! k) = (case rtw_get_stainfo p (Some sa) of
      None \<Rightarrow> (0, replicate 128 0, WIFI_FW_AUTH_NULL, 0) | Some k \<Rightarrow> sta_view (stainfo_buf p ! k))"
proof (atomize (full), cases "rtw_get_stainfo p (Some sa)")
  case None
  obtain ko' q where q: "rtw_alloc_stainfo own sa p = (ko', q)" by (cases "rtw_alloc_stainfo own sa p")
  show "(table_ok own p' \<and> same_others sa p p' \<and> rtw_get_stainfo p' (Some sa) = ko) \<and>
    (ko = Some k \<longrightarrow> sta_view (stainfo_buf p' ! k) = (case rtw_get_stainfo p (Some sa) of
      None \<Rightarrow> (0, replicate 128 0, WIFI_FW_AUTH_NULL, 0) | Some k \<Rightarrow> sta_view (stainfo_buf p ! k)))"
  proof (cases ko')
    case None' [simp]: None
    have "ko = None" "p' = q" using r None q by (simp_all add: auth_station_def)
    then show ?thesis using alloc_none_others [of own sa p q "Some sa"] q None ok by simp
  next
    case (Some j)
    have e: "ko = Some j" "p' = upd_sta j (\<lambda>s. s\<lparr>sta_state := WIFI_FW_AUTH_NULL, auth_seq := 0\<rparr>) q"
      using r None q Some by (simp_all add: auth_station_def)
    note A = alloc_others [OF ok a None q [unfolded Some]]
    then have "table_ok own q" "rtw_get_stainfo q (Some sa) = Some j" by simp_all
    from upd_sta_others [OF this(1) a this(2), of "\<lambda>s. s\<lparr>sta_state := WIFI_FW_AUTH_NULL, auth_seq := 0\<rparr>"]
    show ?thesis using A None same_others_trans [of sa p q p'] unfolding e by (auto simp: sta_view_def fresh_stainfo_def init_stainfo_def)
  qed
next
  case (Some j)
  note U = upd_sta_others [OF ok a Some, of "\<lambda>s. s\<lparr>on_asoc_list := False\<rparr>"]
  show "(table_ok own p' \<and> same_others sa p p' \<and> rtw_get_stainfo p' (Some sa) = ko) \<and>
    (ko = Some k \<longrightarrow> sta_view (stainfo_buf p' ! k) = (case rtw_get_stainfo p (Some sa) of
      None \<Rightarrow> (0, replicate 128 0, WIFI_FW_AUTH_NULL, 0) | Some k \<Rightarrow> sta_view (stainfo_buf p ! k)))"
    using r Some U ok by (auto simp: auth_station_def sta_view_def split: if_splits)
qed

lemma auth_enqueue_ok:
  assumes ok: "table_ok own p" and a: "tab_addr sa" and k: "rtw_get_stainfo p (Some sa) = Some k"
  shows "table_ok own (auth_enqueue k p) \<and> same_others sa p (auth_enqueue k p) \<and> rtw_get_stainfo (auth_enqueue k p) (Some sa) = Some k \<and>
    sta_view (stainfo_buf (auth_enqueue k p) ! k) = sta_view (stainfo_buf p ! k)"
proof -
  define q where "q = (if on_auth_list (stainfo_buf p ! k) then p
               else (upd_sta k (\<lambda>s. s\<lparr>on_auth_list := True\<rparr>) p)\<lparr>auth_list_cnt := auth_list_cnt p + 1\<rparr>)"
  have q: "table_ok own q \<and> same_others sa p q \<and> rtw_get_stainfo q (Some sa) = Some k \<and> sta_view (stainfo_buf q ! k) = sta_view (stainfo_buf p ! k)"
    using upd_sta_others [OF ok a k, of "\<lambda>s. s\<lparr>on_auth_list := True\<rparr>"] ok k by (auto simp: q_def sta_view_def)
  have e: "auth_enqueue k p = (if auth_seq (stainfo_buf p ! k) = 0 then upd_sta k (\<lambda>s. s\<lparr>expire_to := auth_to q\<rparr>) q else q)"
    using q by (simp add: auth_enqueue_def Let_def q_def sta_view_def)
  show ?thesis
    using upd_sta_others [of own q sa k "\<lambda>s. s\<lparr>expire_to := auth_to q\<rparr>"] q a same_others_trans [of sa p q] unfolding e by (auto simp: sta_view_def)
qed

text \<open>The decryption does not touch the sender's address.\<close>

lemma auth_decrypt_sa:
  assumes "auth_decrypt sc r = Some (sc', d, off)"
  shows "rd_block d 10 6 = rd_block (rx_data r) 10 6"
proof -
  have "rd_block (store m 28 (fst (arcfour_encrypt c (seg m 28 n)))) 10 6 = rd_block m 10 6"
    if "28 + n \<le> length m" for m c n
    using that by (simp add: rd_block_def seg_def store_def arcfour_encrypt_stream take_drop)
  then show ?thesis using assms
    by (auto simp: auth_decrypt_def rtw_wep_decrypt_def Let_def case_prod_unfold Option.bind_eq_Some_conv split: if_splits)
qed

lemma auth_fail_ok:
  assumes ok: "table_ok (own_addr a) (stapriv a)" and sa: "tab_addr sa"
    and k: "\<And>k. pstat = Some k \<Longrightarrow> rtw_get_stainfo (stapriv a) (Some sa) = Some k"
    and r: "auth_fail alloc to pstat st a = Some (res, a', fs)"
  shows "res = Fail \<and> own_addr a' = own_addr a \<and> table_ok (own_addr a) (stapriv a') \<and> same_others sa (stapriv a) (stapriv a') \<and>
    rtw_get_stainfo (stapriv a') (Some sa) = (if pstat = None then rtw_get_stainfo (stapriv a) (Some sa) else None)"
proof -
  let ?p = "fst (rtw_free_stainfo (own_addr a) (mlme_state a = WIFI_FW_AP_STATE) pstat (stapriv a))"
  have e: "res = Fail" "own_addr a' = own_addr a" "stapriv a' = ?p"
    using r by (auto simp: auth_fail_def Let_def Option.bind_eq_Some_conv dest!: issue_auth_keeps)
  show ?thesis
  proof (cases pstat)
    case None
    then show ?thesis using e ok by (simp add: rtw_free_stainfo_def)
  next
    case (Some j)
    then show ?thesis using e free_others [OF ok sa k [OF Some]] by simp
  qed
qed

lemma auth_verdict_keeps:
  assumes "auth_verdict d len mode alg sn to s = Some (Inr s')"
  shows "mac_addr s' = mac_addr s \<and> mac_id s' = mac_id s"
  using assms by (auto simp: auth_verdict_def Option.bind_eq_Some_conv split: if_splits option.splits)

lemma auth_grant_ok:
  assumes ok: "table_ok (own_addr a) (stapriv a)" and sa: "tab_addr sa" and k: "rtw_get_stainfo (stapriv a) (Some sa) = Some k"
    and keep: "mac_addr s = mac_addr (stainfo_buf (stapriv a) ! k)" "mac_id s = mac_id (stainfo_buf (stapriv a) ! k)"
    and r: "auth_grant alloc k s sn a = Some (res, a', fs)"
  shows "res = Success \<and> own_addr a' = own_addr a \<and> table_ok (own_addr a) (stapriv a') \<and> same_others sa (stapriv a) (stapriv a') \<and>
    rtw_get_stainfo (stapriv a') (Some sa) = Some k"
proof -
  define g where "g = (\<lambda>t. if t = stainfo_buf (stapriv a) ! k then s\<lparr>auth_seq := ucast sn + 1\<rparr> else t)"
  define p where "p = upd_sta k (\<lambda>_. s\<lparr>auth_seq := ucast sn + 1\<rparr>) (stapriv a)"
  have p: "p = upd_sta k g (stapriv a)" by (simp add: p_def g_def upd_sta_def)
  have P: "table_ok (own_addr a) p \<and> same_others sa (stapriv a) p \<and> rtw_get_stainfo p (Some sa) = Some k"
    using upd_sta_others [OF ok sa k, of g] keep unfolding p by (simp add: g_def)
  then have p': "table_ok (own_addr a) p" "rtw_get_stainfo p (Some sa) = Some k" by simp_all
  obtain b where b: "issue_auth alloc (Some (stainfo_buf p ! k)) 0 (a\<lparr>stapriv := p\<rparr>) = Some (b, fs)" and res: "res = Success"
      "a' = b\<lparr>stapriv := (let t = stainfo_buf (stapriv b) ! k in
         if sta_state t AND WIFI_FW_AUTH_SUCCESS \<noteq> 0 \<or> sta_state t AND WIFI_FW_ASSOC_SUCCESS \<noteq> 0
         then upd_sta k (\<lambda>s. s\<lparr>auth_seq := 0\<rparr>) (stapriv b) else stapriv b)\<rparr>"
    using r unfolding auth_grant_def Let_def p_def by (auto simp: Option.bind_eq_Some_conv)
  have e: "own_addr a' = own_addr b" and e2: "stapriv a' = p \<or> stapriv a' = upd_sta k (\<lambda>s. s\<lparr>auth_seq := 0\<rparr>) p"
    using issue_auth_keeps [OF b] unfolding res(2) Let_def by simp_all
  have ow: "own_addr a' = own_addr a" using issue_auth_keeps [OF b] e by simp
  show ?thesis
    using e2
  proof
    assume "stapriv a' = p"
    then show ?thesis using P res(1) ow by simp
  next
    assume eq: "stapriv a' = upd_sta k (\<lambda>s. s\<lparr>auth_seq := 0\<rparr>) p"
    have "table_ok (own_addr a) (stapriv a') \<and> same_others sa p (stapriv a') \<and> rtw_get_stainfo (stapriv a') (Some sa) = Some k"
      using upd_sta_others [OF p'(1) sa p'(2), of "\<lambda>s. s\<lparr>auth_seq := 0\<rparr>"] unfolding eq by simp
    then show ?thesis using P res(1) ow same_others_trans [of sa "stapriv a" p "stapriv a'"] by simp
  qed
qed

text \<open>The address a station is looked up by: the broadcast address stands for every group address.\<close>

definition sta_key :: "bytes \<Rightarrow> bytes" where
  "sta_key sa = (if IS_MCAST sa then bc_addr else sa)"

lemma get_sta_key: "rtw_get_stainfo p (Some (sta_key sa)) = rtw_get_stainfo p (Some sa)"
proof -
  have "IS_MCAST bc_addr" by (simp add: IS_MCAST_def bc_addr_def)
  then show ?thesis by (simp add: rtw_get_stainfo_def sta_key_def)
qed

lemma tab_addr_key: "length sa = 6 \<Longrightarrow> tab_addr (sta_key sa)"
  by (simp add: tab_addr_def sta_key_def bc_addr_def)

lemma auth_station_key:
  assumes "IS_MCAST sa \<longrightarrow> sa = bc_addr \<or> rtw_get_bcmc_stainfo p \<noteq> None"
  shows "auth_station own sa p = auth_station own (sta_key sa) p"
proof (cases "sta_key sa = sa")
  case False
  then have "rtw_get_stainfo p (Some (sta_key sa)) \<noteq> None"
    using assms by (auto simp: sta_key_def rtw_get_bcmc_stainfo_def split: if_splits)
  then show ?thesis using get_sta_key [of p sa] by (auto simp: auth_station_def)
qed simp

text \<open>What becomes of the sender's station and of the others, for every frame.\<close>

lemma auth_steps_table:
  assumes ok: "table_ok (own_addr a) (stapriv a)" and len: "length addr = 6"
    and group: "IS_MCAST addr \<longrightarrow> addr = bc_addr \<or> rtw_get_bcmc_stainfo (stapriv a) \<noteq> None"
    and r: "auth_steps alloc d n addr alg sn a = Some (res, a', fs)"
  shows "own_addr a' = own_addr a \<and> table_ok (own_addr a) (stapriv a') \<and> same_others (sta_key addr) (stapriv a) (stapriv a') \<and>
    (res = Success \<longrightarrow> rtw_get_stainfo (stapriv a') (Some (sta_key addr)) \<noteq> None)"
proof -
  define sa where "sa = sta_key addr"
  have sa: "tab_addr sa" unfolding sa_def by (rule tab_addr_key [OF len])
  obtain ko p where st: "auth_station (own_addr a) addr (stapriv a) = (ko, p)" by (cases "auth_station (own_addr a) addr (stapriv a)")
  note S = auth_station_ok(1) [OF ok sa st [unfolded auth_station_key [OF group], folded sa_def]]
  let ?early = "0 < alg \<and> auth_mode a = 0 \<or> alg = 0 \<and> auth_mode a = 1" and ?acl = "rtw_access_ctrl (acl_list a) addr"
  let ?goal = "own_addr a' = own_addr a \<and> table_ok (own_addr a) (stapriv a') \<and> same_others sa (stapriv a) (stapriv a') \<and>
    (res = Success \<longrightarrow> rtw_get_stainfo (stapriv a') (Some sa) \<noteq> None)"
  have fail: ?goal if "auth_fail alloc addr pstat status b = Some (res, a', fs)" "own_addr b = own_addr a"
    "table_ok (own_addr a) (stapriv b)" "same_others sa (stapriv a) (stapriv b)"
    "\<And>k. pstat = Some k \<Longrightarrow> rtw_get_stainfo (stapriv b) (Some sa) = Some k" for pstat status b
    using auth_fail_ok [OF _ sa that(5,1)] that(2-4) same_others_trans [OF that(4)] by auto
  consider (early) st where "auth_fail alloc addr None st a = Some (res, a', fs)"
    | (none) "auth_fail alloc addr None 17 (a\<lparr>stapriv := p\<rparr>) = Some (res, a', fs)" "ko = None"
    | (no) k status where "ko = Some k" "auth_fail alloc addr (Some k) status (a\<lparr>stapriv := auth_enqueue k p\<rparr>) = Some (res, a', fs)"
    | (yes) k s where "ko = Some k"
        "auth_verdict d n (auth_mode a) alg (ucast sn) (assoc_to (auth_enqueue k p)) (stainfo_buf (auth_enqueue k p) ! k) = Some (Inr s)"
        "auth_grant alloc k s sn (a\<lparr>stapriv := auth_enqueue k p\<rparr>) = Some (res, a', fs)"
  proof (cases "?early \<or> \<not> ?acl")
    case True
    then show ?thesis using r early by (auto simp: auth_steps_def split: if_split_asm)
  next
    case False
    then have f: "\<not> ?early" "\<not> \<not> ?acl" by blast+
    note b = r [unfolded auth_steps_def if_not_P [OF f(1)] if_not_P [OF f(2)] st split_conv]
    show ?thesis
    proof (cases ko)
      case None
      then show ?thesis using b none by simp
    next
      case (Some k)
      obtain v where v: "auth_verdict d n (auth_mode a) alg (ucast sn) (assoc_to (auth_enqueue k p)) (stainfo_buf (auth_enqueue k p) ! k) = Some v"
        using b unfolding Some Let_def by (auto simp: Option.bind_eq_Some_conv)
      show ?thesis using b Some v no yes by (cases v) (simp_all add: Let_def)
    qed
  qed
  then have ?goal
  proof cases
    case early
    then show ?goal using fail [OF early] ok by simp
  next
    case none
    then show ?goal using fail [OF none(1)] S by simp
  next
    case (no k)
    have "rtw_get_stainfo p (Some sa) = Some k" using S no(1) by simp
    from auth_enqueue_ok [OF conjunct1 [OF S] sa this] show ?goal
      using fail [OF no(2)] S same_others_trans [of sa "stapriv a" p "auth_enqueue k p"] by simp
  next
    case (yes k s)
    let ?q = "auth_enqueue k p"
    have "rtw_get_stainfo p (Some sa) = Some k" using S yes(1) by simp
    from auth_enqueue_ok [OF conjunct1 [OF S] sa this]
    have q: "table_ok (own_addr a) ?q" "same_others sa (stapriv a) ?q" "rtw_get_stainfo ?q (Some sa) = Some k"
      using S same_others_trans [of sa "stapriv a" p ?q] by simp_all
    show ?goal
      using auth_grant_ok [OF _ sa _ _ _ yes(3)] q auth_verdict_keeps [OF yes(2)] same_others_trans [OF q(2)] by auto
  qed
  then show ?thesis unfolding sa_def .
qed

text \<open>C20: What an authentication frame does to the station table: whatever the frame, its encryption and the
  outcome, the table stays well-formed, every station but the one looked up for the sender is still there with the same
  contents, and if the frame is accepted the sender has a station. The station looked up is that of the sender's
  address, or, as no check refuses a sender with a group address, the broadcast station if that address is one. The one
  case left out is a sender with a group address other than broadcast while there is no broadcast station: then
  a station is made that no lookup finds (\<open>group_sender_lost\<close>).\<close>

theorem on_auth_keeps_table:
  assumes "table_ok (own_addr a) (stapriv a)" and "rd_block (rx_data r) 10 6 = Some sa"
    and "IS_MCAST sa \<longrightarrow> sa = bc_addr \<or> rtw_get_bcmc_stainfo (stapriv a) \<noteq> None"
    and "OnAuth alloc r a = Some (res, a', fs)"
  shows "own_addr a' = own_addr a \<and> table_ok (own_addr a) (stapriv a') \<and> same_others (sta_key sa) (stapriv a) (stapriv a') \<and>
    (res = Success \<longrightarrow> rtw_get_stainfo (stapriv a') (Some sa) \<noteq> None)"
proof (cases "mlme_state a AND 3 = WIFI_FW_AP_STATE")
  case False
  then show ?thesis using assms by (simp add: OnAuth_def)
next
  case True
  obtain sc d off sa' alg sn where d: "auth_decrypt (sec a) r = Some (sc, d, off)" "rd_block d 10 6 = Some sa'"
      "auth_steps alloc d (rx_len r) sa' alg sn (a\<lparr>sec := sc\<rparr>) = Some (res, a', fs)"
    using assms(4) True by (auto simp: OnAuth_def Option.bind_eq_Some_conv)
  have "sa' = sa" using auth_decrypt_sa [OF d(1)] d(2) assms(2) by simp
  moreover have "length sa = 6" using assms(2) by (auto simp: rd_block_def seg_def split: if_splits)
  ultimately show ?thesis using auth_steps_table [of "a\<lparr>sec := sc\<rparr>" sa] d(3) assms(1,3) by (simp add: get_sta_key)
qed

text \<open>The case left out: the station is in the table under an address that is never looked up, so the next frame makes another.\<close>

lemma group_sender_lost:
  assumes ok: "table_ok own p" and len: "length sa = 6" and group: "IS_MCAST sa" "sa \<noteq> bc_addr"
    and none: "rtw_get_bcmc_stainfo p = None" and r: "rtw_alloc_stainfo own sa p = (Some k, p')"
  shows "k \<in> set (hashed p') \<and> mac_addr (stainfo_buf p' ! k) = sa \<and> rtw_get_stainfo p' (Some sa) = None"
proof -
  have ch: "chains_ok p" "sta_uniq p" using ok by (simp_all add: table_ok_def sta_inv_def)
  obtain rest where f: "free_sta_queue p = k # rest"
    using r by (cases "free_sta_queue p") (auto simp: rtw_alloc_stainfo_def Let_def split: if_splits prod.splits)
  obtain mid m c where m: "rtw_alloc_macid own k sa (sp_macid p) (sp_cam p) = (mid, m, c)"
    by (cases "rtw_alloc_macid own k sa (sp_macid p) (sp_cam p)")
  have p': "free_sta_queue p' = rest" "sta_hash p' = (sta_hash p)[unat (wifi_mac_hash sa) := sta_hash p ! unat (wifi_mac_hash sa) @ [k]]"
      "asoc_sta_count p' = asoc_sta_count p + 1" "stainfo_buf p' = (stainfo_buf p)[k := fresh_stainfo sa mid]"
    using alloc_stainfo_eq [OF f len m] r by auto
  note A = alloc_chains [OF ch(1) f len p']
  have kl: "k < length (stainfo_buf p)" using chains_okD(2,6) [OF ch(1)] f by auto
  have mac: "mac_addr (stainfo_buf p' ! j) = (if j = k then sa else mac_addr (stainfo_buf p ! j))" for j
    using kl len by (simp add: p' fresh_stainfo_def nth_list_update)
  have bc: "tab_addr bc_addr" "take 6 bc_addr = bc_addr" by (simp_all add: tab_addr_def bc_addr_def)
  have old: "mac_addr (stainfo_buf p ! j) \<noteq> bc_addr" if "j \<in> set (hashed p)" for j
    using none that get_stainfo_None [OF ch bc(1)] by (simp add: rtw_get_bcmc_stainfo_def)
  have "length (sta_hash p') = 32" using A by (simp add: chains_ok_def)
  then have "sta_hash p' ! unat (wifi_mac_hash bc_addr) \<in> set (sta_hash p')" by (intro nth_mem) simp
  then have "set (sta_hash p' ! unat (wifi_mac_hash bc_addr)) \<subseteq> set (hashed p')" unfolding hashed_def set_concat by blast
  then have "mac_addr (stainfo_buf p' ! j) \<noteq> bc_addr" if "j \<in> set (sta_hash p' ! unat (wifi_mac_hash bc_addr))" for j
    using that A old mac [of j] group(2) by (cases "j = k") auto
  then have "rtw_get_stainfo p' (Some sa) = None"
    using group(1) bc(2) by (simp add: rtw_get_stainfo_def find_None_iff)
  then show ?thesis using A mac [of k] by simp
qed

section \<open>Frames in the clear\<close>

lemma OnAuth_plain:
  assumes "mlme_state a AND 3 = WIFI_FW_AP_STATE" and "GetPrivacy (rx_data r) = Some False"
    and "rd_block (rx_data r) 10 6 = Some sa" and "rd16 (rx_data r) 24 = Some alg" and "rd16 (rx_data r) 26 = Some sn"
  shows "OnAuth alloc r a = auth_steps alloc (rx_data r) (rx_len r) sa alg sn a"
proof -
  have "a\<lparr>sec := sec a\<rparr> = a" by simp
  then show ?thesis using assms by (simp add: OnAuth_def auth_decrypt_def)
qed

lemma auth_fail_air:
  assumes "mgt_buf f" and "length (own_addr a) = 6" and "length sa = 6" and "st \<noteq> 0"
  shows "\<exists>a' f'. auth_fail (Some f) sa pstat st a = Some (Fail, a', [f']) \<and>
    stapriv a' = fst (rtw_free_stainfo (own_addr a) (mlme_state a = WIFI_FW_AP_STATE) pstat (stapriv a)) \<and>
    on_air f' = auth_hdr WIFI_AUTH sa (own_addr a) (own_addr a) (mgnt_seq a) @ auth_body 0 2 st"
proof -
  obtain base buf where b: "buf_addr f = Some (base, buf)" "208 \<le> length buf"
    using assms(1) by (auto simp: mgt_buf_def split: option.splits)
  let ?a = "a\<lparr>stapriv := fst (rtw_free_stainfo (own_addr a) (mlme_state a = WIFI_FW_AP_STATE) pstat (stapriv a))\<rparr>"
  show ?thesis
    using issue_auth_reply [OF b, of ?a "init_stainfo\<lparr>auth_seq := 2, mac_addr := sa\<rparr>" st] assms
    by (auto simp: auth_fail_def auth_reply_frame_def init_stainfo_def Let_def)
qed

text \<open>What the exchange leaves of the access point.\<close>

definition ap_same :: "adapter \<Rightarrow> adapter \<Rightarrow> bool" where
  "ap_same a a' \<longleftrightarrow> own_addr a' = own_addr a \<and> mlme_state a' = mlme_state a \<and> acl_list a' = acl_list a \<and>
     dot11AuthAlgrthm a' = dot11AuthAlgrthm a \<and> sec a' = sec a"

lemma ap_same_mode: "ap_same a a' \<Longrightarrow> auth_mode a' = auth_mode a"
  by (simp add: ap_same_def auth_mode_def)

lemma auth_grant_air:
  assumes "mgt_buf f" and "length (own_addr a) = 6" and "length (mac_addr s) = 6" and "length (chg_txt s) = 128"
    and k: "k < length (stainfo_buf (stapriv a))"
  shows "\<exists>a' f'. auth_grant (Some f) k s sn a = Some (Success, a', [f']) \<and>
    stainfo_buf (stapriv a') ! k = s\<lparr>auth_seq := (if sta_state s AND WIFI_FW_AUTH_SUCCESS \<noteq> 0 \<or> sta_state s AND WIFI_FW_ASSOC_SUCCESS \<noteq> 0
      then 0 else ucast sn + 1)\<rparr> \<and> ap_same a a' \<and>
    on_air f' = auth_reply_frame (own_addr a) (s\<lparr>auth_seq := ucast sn + 1\<rparr>) 0 (mgnt_seq a)"
proof -
  obtain base buf where b: "buf_addr f = Some (base, buf)" "208 \<le> length buf"
    using assms(1) by (auto simp: mgt_buf_def split: option.splits)
  let ?p = "upd_sta k (\<lambda>_. s\<lparr>auth_seq := ucast sn + 1\<rparr>) (stapriv a)"
  have u: "stainfo_buf ?p ! k = s\<lparr>auth_seq := ucast sn + 1\<rparr>" "stainfo_buf (upd_sta k g ?p) ! k = g (stainfo_buf ?p ! k)" for g
    using k by (simp_all add: upd_sta_def)
  show ?thesis
    using issue_auth_reply [OF b, of "a\<lparr>stapriv := ?p\<rparr>" "s\<lparr>auth_seq := ucast sn + 1\<rparr>" 0] assms
    by (auto simp: auth_grant_def u Let_def ap_same_def)
qed

lemma auth_station_none:
  assumes "length sa = 6"
  shows "fst (auth_station own sa p) = None \<longleftrightarrow> rtw_get_stainfo p (Some sa) = None \<and> free_sta_queue p = []"
    "fst (auth_station own sa p) = None \<Longrightarrow> free_sta_queue (snd (auth_station own sa p)) = []"
proof -
  have a: "fst (rtw_alloc_stainfo own sa p) = None \<longleftrightarrow> free_sta_queue p = []"
    using alloc_stainfo_eq [OF _ assms, of p _ _ own]
    by (cases "free_sta_queue p"; cases "rtw_alloc_macid own (hd (free_sta_queue p)) sa (sp_macid p) (sp_cam p)")
      (simp_all add: rtw_alloc_stainfo_def)
  then show n: "fst (auth_station own sa p) = None \<longleftrightarrow> rtw_get_stainfo p (Some sa) = None \<and> free_sta_queue p = []"
    by (auto simp: auth_station_def split: option.splits prod.splits)
  show "fst (auth_station own sa p) = None \<Longrightarrow> free_sta_queue (snd (auth_station own sa p)) = []"
    unfolding n by (simp add: auth_station_def rtw_alloc_stainfo_def)
qed








section \<open>Shared keys\<close>

text \<open>The first frame of an exchange with shared keys, whatever is behind its fixed fields.\<close>

lemma auth_steps_first:
  assumes ok: "table_ok (own_addr a) (stapriv a)" and ta: "tab_addr sa" and own: "length (own_addr a) = 6" and buf: "mgt_buf f"
    and alg: "alg \<noteq> 0" "auth_mode a \<noteq> 0" and acl: "rtw_access_ctrl (acl_list a) sa"
    and new: "rtw_get_stainfo (stapriv a) (Some sa) = None" "free_sta_queue (stapriv a) \<noteq> []"
  shows "\<exists>a' f' k. auth_steps (Some f) d len sa alg 1 a = Some (Success, a', [f']) \<and> ap_same a a' \<and>
    table_ok (own_addr a) (stapriv a') \<and> rtw_get_stainfo (stapriv a') (Some sa) = Some k \<and>
    auth_seq (stainfo_buf (stapriv a') ! k) = 2 \<and> chg_txt (stainfo_buf (stapriv a') ! k) = replicate 128 78 \<and>
    authalg (stainfo_buf (stapriv a') ! k) = ucast alg \<and>
    on_air f' = auth_hdr WIFI_AUTH sa (own_addr a) (own_addr a) (mgnt_seq a) @ auth_body alg 2 0 @ elem_bytes (16, replicate 128 78)"
proof -
  have sa: "length sa = 6" using ta by (simp add: tab_addr_def)
  obtain k p where st: "auth_station (own_addr a) sa (stapriv a) = (Some k, p)"
    using auth_station_none(1) [OF sa, of "own_addr a" "stapriv a"] new by (cases "auth_station (own_addr a) sa (stapriv a)") auto
  note S = auth_station_ok [OF ok ta st]
  define q where "q = auth_enqueue k p"
  have gp: "rtw_get_stainfo p (Some sa) = Some k" using S(1) by simp
  have Q: "table_ok (own_addr a) q" "rtw_get_stainfo q (Some sa) = Some k" "sta_view (stainfo_buf q ! k) = sta_view (stainfo_buf p ! k)"
    using auth_enqueue_ok [OF conjunct1 [OF S(1)] ta gp] by (simp_all add: q_def)
  have view: "sta_view (stainfo_buf q ! k) = (0, replicate 128 0, WIFI_FW_AUTH_NULL, 0)" using S(2) Q(3) new(1) by simp
  note kk = table_okD(2,3) [OF Q(1) ta Q(2)]
  let ?s = "(stainfo_buf q ! k)\<lparr>chg_txt := replicate 128 78, sta_state := WIFI_FW_AUTH_STATE, authalg := ucast alg, auth_seq := 2\<rparr>"
  have v: "auth_verdict d len (auth_mode a) alg (ucast (1 :: u16)) (assoc_to q) (stainfo_buf q ! k) = Some (Inr ?s)"
    using view alg by (simp add: auth_verdict_def sta_view_def fw_state_defs)
  have o: "auth_steps (Some f) d len sa alg 1 a = auth_grant (Some f) k ?s 1 (a\<lparr>stapriv := q\<rparr>)"
    using v acl alg by (simp add: auth_steps_def st Let_def q_def [symmetric])
  obtain a' f' where r: "auth_grant (Some f) k ?s 1 (a\<lparr>stapriv := q\<rparr>) = Some (Success, a', [f'])" "ap_same (a\<lparr>stapriv := q\<rparr>) a'"
    and b: "stainfo_buf (stapriv a') ! k = ?s" "on_air f' = auth_reply_frame (own_addr a) ?s 0 (mgnt_seq a)"
    using auth_grant_air [OF buf, of "a\<lparr>stapriv := q\<rparr>" ?s k 1] own kk sa by (auto simp: fw_state_defs)
  have "table_ok (own_addr a) (stapriv a')" "rtw_get_stainfo (stapriv a') (Some sa) = Some k"
    using auth_grant_ok [OF _ ta _ _ _ r(1)] Q by simp_all
  moreover have "ucast (ucast alg :: u32) = alg" by (rule bit_word_eqI) (simp add: bit_simps)
  ultimately show ?thesis
    using o r b alg kk by (auto simp: ap_same_def auth_reply_frame_def fw_state_defs)
qed

text \<open>The third frame: \<open>d\<close> holds the challenge where the code looks for it.\<close>

lemma auth_steps_third:
  assumes ok: "table_ok (own_addr a) (stapriv a)" and ta: "tab_addr sa" and own: "length (own_addr a) = 6" and buf: "mgt_buf f"
    and alg: "alg \<noteq> 0" "auth_mode a \<noteq> 0" and acl: "rtw_access_ctrl (acl_list a) sa"
    and k: "rtw_get_stainfo (stapriv a) (Some sa) = Some k" and seq: "auth_seq (stainfo_buf (stapriv a) ! k) = 2"
    and chg: "chg_txt (stainfo_buf (stapriv a) ! k) = c" "length c = 128"
    and d: "rd d 34 = Some 16" "rd d 35 = Some 128" "rd_block d 36 128 = Some c" and len: "0 < sint (len - 34)"
  shows "\<exists>a' f'. auth_steps (Some f) d len sa alg 3 a = Some (Success, a', [f']) \<and> ap_same a a' \<and>
    table_ok (own_addr a) (stapriv a') \<and> rtw_get_stainfo (stapriv a') (Some sa) = Some k \<and>
    sta_state (stainfo_buf (stapriv a') ! k) AND WIFI_FW_AUTH_SUCCESS \<noteq> 0 \<and>
    on_air f' = auth_hdr WIFI_AUTH sa (own_addr a) (own_addr a) (mgnt_seq a) @
      auth_body (ucast (authalg (stainfo_buf (stapriv a) ! k))) 4 0"
proof -
  have sa: "length sa = 6" using ta by (simp add: tab_addr_def)
  obtain p where st: "auth_station (own_addr a) sa (stapriv a) = (Some k, p)"
    using k by (auto simp: auth_station_def)
  note S = auth_station_ok [OF ok ta st]
  define q where "q = auth_enqueue k p"
  have gp: "rtw_get_stainfo p (Some sa) = Some k" using S(1) by simp
  have Q: "table_ok (own_addr a) q" "rtw_get_stainfo q (Some sa) = Some k" "sta_view (stainfo_buf q ! k) = sta_view (stainfo_buf p ! k)"
    using auth_enqueue_ok [OF conjunct1 [OF S(1)] ta gp] by (simp_all add: q_def)
  have view: "auth_seq (stainfo_buf q ! k) = 2" "chg_txt (stainfo_buf q ! k) = c"
      "authalg (stainfo_buf q ! k) = authalg (stainfo_buf (stapriv a) ! k)"
    using S(2) Q(3) k seq chg by (simp_all add: sta_view_def)
  note kk = table_okD(2,3) [OF Q(1) ta Q(2)]
  let ?s = "(stainfo_buf q ! k)\<lparr>sta_state := sta_state (stainfo_buf q ! k) AND NOT WIFI_FW_AUTH_STATE OR WIFI_FW_AUTH_SUCCESS, expire_to := assoc_to q\<rparr>"
  have suc: "sta_state ?s AND WIFI_FW_AUTH_SUCCESS \<noteq> 0" by (simp add: word_bw_comms fw_state_defs bit.conj_disj_distrib)
  have ie: "rtw_get_ie d 34 16 0 (sint (len - 34)) = Some (Some 34, 128)"
    using d(1,2) len by (simp add: rtw_get_ie_def rtw_get_ie_loop.simps [of d 16 34])
  have v: "auth_verdict d len (auth_mode a) alg (ucast (3 :: u16)) (assoc_to q) (stainfo_buf q ! k) = Some (Inr ?s)"
    using view alg d(3) ie by (simp add: auth_verdict_def)
  have o: "auth_steps (Some f) d len sa alg 3 a = auth_grant (Some f) k ?s 3 (a\<lparr>stapriv := q\<rparr>)"
    using v acl alg by (simp add: auth_steps_def st Let_def q_def [symmetric])
  obtain a' f' where r: "auth_grant (Some f) k ?s 3 (a\<lparr>stapriv := q\<rparr>) = Some (Success, a', [f'])" "ap_same (a\<lparr>stapriv := q\<rparr>) a'"
    and b: "stainfo_buf (stapriv a') ! k = ?s\<lparr>auth_seq := 0\<rparr>" "on_air f' = auth_reply_frame (own_addr a) (?s\<lparr>auth_seq := ucast (3 :: u16) + 1\<rparr>) 0 (mgnt_seq a)"
    using auth_grant_air [OF buf, of "a\<lparr>stapriv := q\<rparr>" ?s k 3] own kk sa suc view chg(2) by auto
  have "table_ok (own_addr a) (stapriv a')" "rtw_get_stainfo (stapriv a') (Some sa) = Some k"
    using auth_grant_ok [OF _ ta _ _ _ r(1)] Q by simp_all
  then show ?thesis
    using o r b suc view kk by (auto simp: ap_same_def auth_reply_frame_def)
qed

text \<open>A frame with an unexpected sequence number, whoever sends it.\<close>

lemma unexpected_auth_frees:
  assumes "mlme_state a AND 3 = WIFI_FW_AP_STATE" and "table_ok (own_addr a) (stapriv a)" and "length (own_addr a) = 6"
    and "GetPrivacy (rx_data r) = Some False" and "rd_block (rx_data r) 10 6 = Some sa" and "length sa = 6"
    and "rd16 (rx_data r) 24 = Some alg" and "rd16 (rx_data r) 26 = Some sn" and "mgt_buf f"
    and "\<not> (0 < alg \<and> auth_mode a = 0 \<or> alg = 0 \<and> auth_mode a = 1)" and "rtw_access_ctrl (acl_list a) sa"
    and "rtw_get_stainfo (stapriv a) (Some sa) = Some k" and "ucast sn \<noteq> auth_seq (stainfo_buf (stapriv a) ! k) + 1"
  shows "\<exists>a' fs. OnAuth (Some f) r a = Some (Fail, a', fs) \<and> rtw_get_stainfo (stapriv a') (Some sa) = None \<and>
    table_ok (own_addr a) (stapriv a') \<and> same_others (sta_key sa) (stapriv a) (stapriv a')"
proof -
  note ok = assms(2) and sa = assms(6)
  define key where "key = sta_key sa"
  have ta: "tab_addr key" unfolding key_def by (rule tab_addr_key [OF sa])
  have k: "rtw_get_stainfo (stapriv a) (Some sa) = Some k" "rtw_get_stainfo (stapriv a) (Some key) = Some k"
    using assms(12) by (simp_all add: key_def get_sta_key)
  obtain p where st: "auth_station (own_addr a) sa (stapriv a) = (Some k, p)" using k(1) by (auto simp: auth_station_def)
  have st': "auth_station (own_addr a) key (stapriv a) = (Some k, p)" using st k by (auto simp: auth_station_def)
  note S = auth_station_ok [OF ok ta st']
  define q where "q = auth_enqueue k p"
  have gp: "rtw_get_stainfo p (Some key) = Some k" using S(1) by simp
  have Q: "table_ok (own_addr a) q" "rtw_get_stainfo q (Some key) = Some k" "same_others key (stapriv a) q"
      "auth_seq (stainfo_buf q ! k) = auth_seq (stainfo_buf (stapriv a) ! k)"
    using auth_enqueue_ok [OF conjunct1 [OF S(1)] ta gp] S k same_others_trans [of key "stapriv a" p q]
    by (simp_all add: q_def sta_view_def)
  have v: "auth_verdict (rx_data r) (rx_len r) (auth_mode a) alg (ucast sn) (assoc_to q) (stainfo_buf q ! k) = Some (Inl 14)"
    using assms(13) Q(4) by (simp add: auth_verdict_def)
  have o: "OnAuth (Some f) r a = auth_fail (Some f) sa (Some k) 14 (a\<lparr>stapriv := q\<rparr>)"
    unfolding OnAuth_plain [OF assms(1,4,5,7,8)] auth_steps_def if_not_P [OF assms(10)]
    using assms(11) v by (simp add: st Let_def q_def [symmetric])
  obtain a' f' where r: "auth_fail (Some f) sa (Some k) 14 (a\<lparr>stapriv := q\<rparr>) = Some (Fail, a', [f'])"
    using auth_fail_air [OF assms(9) _ sa, of "a\<lparr>stapriv := q\<rparr>" 14 "Some k"] assms(3) by auto
  show ?thesis
    using auth_fail_ok [OF _ ta _ r] Q o r same_others_trans [OF Q(3)] get_sta_key [of "stapriv a'" sa] by (auto simp: key_def)
qed

text \<open>C39: A forged frame removes a station. At an access point a single authentication frame in the clear,
  with a sequence number that the exchange does not expect, removes the station of its sender address from
  the table, whatever the state of that station. Nothing of the frame is authenticated, and the address may be
  that of an associated station or the broadcast address, whose station is the one all broadcast is sent
  through.\<close>

theorem forged_auth_frees_station:
  assumes "mlme_state a AND 3 = WIFI_FW_AP_STATE" and "table_ok (own_addr a) (stapriv a)" and "length (own_addr a) = 6"
    and "GetPrivacy (rx_data r) = Some False" and "rd_block (rx_data r) 10 6 = Some sa" and "tab_addr sa"
    and "rd16 (rx_data r) 24 = Some alg" and "rd16 (rx_data r) 26 = Some sn" and "mgt_buf f"
    and "\<not> (0 < alg \<and> auth_mode a = 0 \<or> alg = 0 \<and> auth_mode a = 1)" and "rtw_access_ctrl (acl_list a) sa"
    and "rtw_get_stainfo (stapriv a) (Some sa) = Some k" and "ucast sn \<noteq> auth_seq (stainfo_buf (stapriv a) ! k) + 1"
  shows "\<exists>a' fs. OnAuth (Some f) r a = Some (Fail, a', fs) \<and> rtw_get_stainfo (stapriv a') (Some sa) = None \<and>
    table_ok (own_addr a) (stapriv a') \<and> same_others sa (stapriv a) (stapriv a')"
proof -
  have "length sa = 6" "sta_key sa = sa" using assms(6) by (auto simp: tab_addr_def sta_key_def)
  then show ?thesis using unexpected_auth_frees [OF assms(1-5) _ assms(7-13)] by simp
qed

text \<open>The first frame in the clear, as an access point receives it.\<close>

lemma OnAuth_first:
  assumes "mlme_state a AND 3 = WIFI_FW_AP_STATE" and "auth_mode a \<noteq> 0" and "table_ok (own_addr a) (stapriv a)"
    and "length (own_addr a) = 6" and "tab_addr sa" and "rtw_get_stainfo (stapriv a) (Some sa) = None"
    and "free_sta_queue (stapriv a) \<noteq> []" and "rtw_access_ctrl (acl_list a) sa" and "mgt_buf f" and "alg \<noteq> 0"
    and "rx_data r = clear_auth (own_addr a) sa (own_addr a) n alg 1 rest"
  shows "\<exists>a' f' k. OnAuth (Some f) r a = Some (Success, a', [f']) \<and> ap_same a a' \<and>
    table_ok (own_addr a) (stapriv a') \<and> rtw_get_stainfo (stapriv a') (Some sa) = Some k \<and>
    auth_seq (stainfo_buf (stapriv a') ! k) = 2 \<and> chg_txt (stainfo_buf (stapriv a') ! k) = replicate 128 78 \<and>
    authalg (stainfo_buf (stapriv a') ! k) = ucast alg \<and>
    on_air f' = clear_auth sa (own_addr a) (own_addr a) (mgnt_seq a) alg 2 (elem_bytes (16, replicate 128 78))"
proof -
  have sa: "length sa = 6" using assms(5) by (simp add: tab_addr_def)
  have "OnAuth (Some f) r a = auth_steps (Some f) (rx_data r) (rx_len r) sa alg 1 a"
    using OnAuth_plain [OF assms(1), of r] clear_auth_reads [OF assms(4) sa assms(4)] unfolding assms(11) by simp
  then show ?thesis
    using auth_steps_first [OF assms(3,5,4,9,10,2,8,6,7), of "rx_data r" "rx_len r"] by (simp add: clear_auth_def)
qed

text \<open>C38: Shared-key authentication does not need the key. The challenge that \<open>OnAuth\<close> sends is 128 times the byte
  78 and the answer need not be encrypted: a station without a key that sends a first frame and then, in the
  clear, the constant challenge four bytes behind its usual place is authenticated, whatever the keys of the access
  point.\<close>

theorem shared_key_bypass:
  assumes "mlme_state a AND 3 = WIFI_FW_AP_STATE" and "auth_mode a \<noteq> 0" and "table_ok (own_addr a) (stapriv a)"
    and "length (own_addr a) = 6" and "tab_addr sa" and "rtw_get_stainfo (stapriv a) (Some sa) = None"
    and "free_sta_queue (stapriv a) \<noteq> []" and "rtw_access_ctrl (acl_list a) sa" and "mgt_buf f" and "mgt_buf g"
    and "rx_data r1 = clear_auth (own_addr a) sa (own_addr a) n1 1 1 []"
    and "rx_data r3 = clear_auth (own_addr a) sa (own_addr a) n3 1 3 ([0, 0, 0, 0] @ elem_bytes (16, replicate 128 78))" and "rx_len r3 = 164"
  shows "\<exists>a1 f1 a2 f2 k. OnAuth (Some f) r1 a = Some (Success, a1, [f1]) \<and> OnAuth (Some g) r3 a1 = Some (Success, a2, [f2]) \<and>
    sec a2 = sec a \<and> rtw_get_stainfo (stapriv a2) (Some sa) = Some k \<and>
    sta_state (stainfo_buf (stapriv a2) ! k) AND WIFI_FW_AUTH_SUCCESS \<noteq> 0"
proof -
  note ta = assms(5) and own = assms(4)
  have sa: "length sa = 6" using ta by (simp add: tab_addr_def)
  note C = clear_auth_reads [OF own sa own] and R = clear_auth_rest [OF own sa own]
  let ?X = "[0, 0, 0, 0] @ elem_bytes (16, replicate 128 (78::u8))"
  obtain a1 f1 k where 1: "OnAuth (Some f) r1 a = Some (Success, a1, [f1])" "ap_same a a1" "table_ok (own_addr a) (stapriv a1)"
      "rtw_get_stainfo (stapriv a1) (Some sa) = Some k" "auth_seq (stainfo_buf (stapriv a1) ! k) = 2"
      "chg_txt (stainfo_buf (stapriv a1) ! k) = replicate 128 78"
    using OnAuth_first [OF assms(1-9) _ assms(11)] by auto
  have same: "mlme_state a1 AND 3 = WIFI_FW_AP_STATE" "own_addr a1 = own_addr a" "auth_mode a1 \<noteq> 0" "rtw_access_ctrl (acl_list a1) sa" "sec a1 = sec a"
    using 1(2) ap_same_mode [OF 1(2)] assms(1,2,8) by (simp_all add: ap_same_def)
  have e: "OnAuth (Some g) r3 a1 = auth_steps (Some g) (rx_data r3) (rx_len r3) sa 1 3 a1"
    using OnAuth_plain [OF same(1), of r3] C(1-4) [of n3 1 3 ?X] unfolding assms(12) by simp
  have d: "rd (rx_data r3) 34 = Some 16" "rd (rx_data r3) 35 = Some 128" "rd_block (rx_data r3) 36 128 = Some (replicate 128 78)"
    unfolding assms(12) by (simp_all add: R elem_bytes_def) (simp add: rd_block_def seg_def)
  from auth_steps_third [OF _ ta _ assms(10) _ same(3,4) 1(4,5,6) _ d, of 1 "rx_len r3"]
  obtain a2 f2 where "auth_steps (Some g) (rx_data r3) (rx_len r3) sa 1 3 a1 = Some (Success, a2, [f2])" "ap_same a1 a2"
      "rtw_get_stainfo (stapriv a2) (Some sa) = Some k" "sta_state (stainfo_buf (stapriv a2) ! k) AND WIFI_FW_AUTH_SUCCESS \<noteq> 0"
    using 1(3) same(2) own assms(13) by auto
  then show ?thesis using 1(1) e same(5) by (auto simp: ap_same_def)
qed

section \<open>Concrete frames\<close>

definition demo_ap :: "u32 \<Rightarrow> sta_priv \<Rightarrow> adapter" where
  "demo_ap alg p = \<lparr>own_addr = [2, 0, 0, 0, 0, 1], mlme_state = 3, cur_bssid = [2, 0, 0, 0, 0, 1], auth_algo = 0,
     mi_auth_seq = 0, reauth_count = 0, reassoc_count = 0, link_count = 0, link_retry = 0, mi_key_index = 0, mi_iv = 0,
     mi_chg_txt = replicate 128 0, mi_aid = 0, mi_capability = 0, slotTime = 20, mgnt_seq = 5, link_timer = None,
     sec = wep_demo_sec, dot11AuthAlgrthm = alg, xmit_frag_len = 2346,
     acl_list = \<lparr>acl_mode = 0, acl_num = 0, aclnode = replicate 16 \<lparr>an_addr = replicate 6 0, an_valid = False\<rparr>, acl_node_q = []\<rparr>,
     stapriv = p\<rparr>"

definition demo_table :: sta_priv where
  "demo_table = init_sta_priv init_macid_ctl demo_cam"

definition demo_buf :: xmit_frame where
  "demo_buf = wep_demo_frame\<lparr>buf_addr := Some (0, replicate 208 0)\<rparr>"

definition demo_rx :: "bytes \<Rightarrow> u16 \<Rightarrow> u16 \<Rightarrow> bytes \<Rightarrow> recv_frame" where
  "demo_rx sa alg sn rest = wep_demo_rx\<lparr>rx_data := clear_auth [2, 0, 0, 0, 0, 1] sa [2, 0, 0, 0, 0, 1] 0 alg sn rest,
     rx_len := of_nat (30 + length rest)\<rparr>"

abbreviation demo_sa :: bytes where
  "demo_sa \<equiv> [4, 0, 0, 0, 0, 7]"

lemma demo_table_facts:
  "table_ok own demo_table" "tab_addr sa \<Longrightarrow> rtw_get_stainfo demo_table (Some sa) = None" "free_sta_queue demo_table \<noteq> []"
  "\<forall>s \<in> set (stainfo_buf demo_table). length (chg_txt s) = 128"
proof -
  have h: "sta_hash demo_table = replicate 32 []" by (simp add: demo_table_def init_sta_priv_def NUM_STA_def MACID_NUM_SW_LIMIT_def)
  show "table_ok own demo_table" unfolding table_ok_def demo_table_def by (rule init_inv)
  show "tab_addr sa \<Longrightarrow> rtw_get_stainfo demo_table (Some sa) = None" by (simp add: rtw_get_stainfo_def h)
  show "free_sta_queue demo_table \<noteq> []" "\<forall>s \<in> set (stainfo_buf demo_table). length (chg_txt s) = 128"
    by (simp_all add: demo_table_def init_sta_priv_def NUM_STA_def MACID_NUM_SW_LIMIT_def init_stainfo_def)
qed

lemma demo_ap_facts [simp]:
  "own_addr (demo_ap alg p) = [2, 0, 0, 0, 0, 1]" "mlme_state (demo_ap alg p) AND 3 = WIFI_FW_AP_STATE" "stapriv (demo_ap alg p) = p"
  "auth_mode (demo_ap alg p) = alg" "rtw_access_ctrl (acl_list (demo_ap alg p)) sa" "mgt_buf demo_buf"
  "tab_addr demo_sa" "tab_addr bc_addr" "dot11AuthAlgrthm (demo_ap alg p) = alg" "mgnt_seq (demo_ap alg p) = 5"
  by (simp_all add: demo_ap_def WIFI_FW_AP_STATE_def auth_mode_def wep_demo_sec_def Let_def rtw_access_ctrl_def
      RTW_ACL_MODE_ACCEPT_UNLESS_LISTED_def RTW_ACL_MODE_DENY_UNLESS_LISTED_def mgt_buf_def demo_buf_def tab_addr_def IS_MCAST_def bc_addr_def)

lemma demo_rx_facts:
  assumes "length sa = 6"
  shows "GetPrivacy (rx_data (demo_rx sa alg sn rest)) = Some False" "rd_block (rx_data (demo_rx sa alg sn rest)) 10 6 = Some sa"
    "rd16 (rx_data (demo_rx sa alg sn rest)) 24 = Some alg" "rd16 (rx_data (demo_rx sa alg sn rest)) 26 = Some sn"
  using clear_auth_reads(1-4) [of "[2, 0, 0, 0, 0, 1]" sa "[2, 0, 0, 0, 0, 1]"] assms by (simp_all add: demo_rx_def)

lemma demo_bcmc:
  "\<exists>p k. rtw_init_bcmc_stainfo [2, 0, 0, 0, 0, 1] demo_table = (Success, p) \<and> table_ok [2, 0, 0, 0, 0, 1] p \<and>
     rtw_get_bcmc_stainfo p = Some k \<and> auth_seq (stainfo_buf p ! k) = 0"
proof -
  let ?own = "[2, 0, 0, 0, 0, 1] :: bytes"
  obtain ko p where r: "rtw_alloc_stainfo ?own bc_addr demo_table = (ko, p)" by (cases "rtw_alloc_stainfo ?own bc_addr demo_table")
  have n: "rtw_get_stainfo demo_table (Some bc_addr) = None" by (rule demo_table_facts(2)) simp
  have l: "length bc_addr = 6" by (simp add: bc_addr_def)
  then obtain k where k: "ko = Some k"
    using auth_station_none(1) [OF l, of ?own demo_table] r n demo_table_facts(3) by (cases ko) (auto simp: auth_station_def)
  from alloc_others [OF demo_table_facts(1) _ n r [unfolded k]] show ?thesis using r k
    by (auto simp: rtw_init_bcmc_stainfo_def rtw_get_bcmc_stainfo_def fresh_stainfo_def init_stainfo_def)
qed

text \<open>
  A frame that begins the exchange of a new sender, and one from a group address with an unexpected sequence number: the
  broadcast station is gone, the table is well-formed and no other station has changed.
\<close>

theorem on_auth_keeps_table_witness:
  "(\<exists>a' fs. OnAuth (Some demo_buf) (demo_rx demo_sa 1 1 []) (demo_ap 1 demo_table) = Some (Success, a', fs) \<and>
     table_ok [2, 0, 0, 0, 0, 1] (stapriv a') \<and> rtw_get_stainfo (stapriv a') (Some demo_sa) \<noteq> None) \<and>
   (\<exists>p a' fs. rtw_init_bcmc_stainfo [2, 0, 0, 0, 0, 1] demo_table = (Success, p) \<and>
     OnAuth (Some demo_buf) (demo_rx [1, 0, 0, 0, 0, 7] 0 2 []) (demo_ap 0 p) = Some (Fail, a', fs) \<and>
     table_ok [2, 0, 0, 0, 0, 1] (stapriv a') \<and> same_others bc_addr p (stapriv a') \<and> rtw_get_bcmc_stainfo (stapriv a') = None)"
proof
  note F = demo_rx_facts [of demo_sa 1 1 "[]", simplified]
  obtain a' f' where r: "OnAuth (Some demo_buf) (demo_rx demo_sa 1 1 []) (demo_ap 1 demo_table) = Some (Success, a', [f'])"
    using auth_steps_first [of "demo_ap 1 demo_table" demo_sa demo_buf 1] demo_table_facts
    unfolding OnAuth_plain [OF demo_ap_facts(2) F] by fastforce
  have "\<not> IS_MCAST demo_sa" by (simp add: IS_MCAST_def)
  then show "\<exists>a' fs. OnAuth (Some demo_buf) (demo_rx demo_sa 1 1 []) (demo_ap 1 demo_table) = Some (Success, a', fs) \<and>
     table_ok [2, 0, 0, 0, 0, 1] (stapriv a') \<and> rtw_get_stainfo (stapriv a') (Some demo_sa) \<noteq> None"
    using on_auth_keeps_table [OF _ F(2) _ r] demo_table_facts r by simp
next
  let ?g = "[1, 0, 0, 0, 0, 7] :: bytes"
  have g: "IS_MCAST ?g" "sta_key ?g = bc_addr" "length ?g = 6" by (simp_all add: IS_MCAST_def sta_key_def)
  note F = demo_rx_facts [OF g(3), of 0 2 "[]"]
  obtain p k where p: "rtw_init_bcmc_stainfo [2, 0, 0, 0, 0, 1] demo_table = (Success, p)" "table_ok [2, 0, 0, 0, 0, 1] p"
    "rtw_get_bcmc_stainfo p = Some k" "auth_seq (stainfo_buf p ! k) = 0" using demo_bcmc by blast
  have k: "rtw_get_stainfo p (Some ?g) = Some k" using p(3) get_sta_key [of p ?g] by (simp add: g(2) rtw_get_bcmc_stainfo_def)
  obtain a' fs where r: "OnAuth (Some demo_buf) (demo_rx ?g 0 2 []) (demo_ap 0 p) = Some (Fail, a', fs)" "rtw_get_stainfo (stapriv a') (Some ?g) = None"
    using unexpected_auth_frees [where a = "demo_ap 0 p" and r = "demo_rx ?g 0 2 []" and sa = ?g and alg = 0 and sn = 2 and f = demo_buf and k = k] F p k
    by auto
  have "rtw_get_bcmc_stainfo (stapriv a') = None" using r(2) get_sta_key [of "stapriv a'" ?g] by (simp add: g(2) rtw_get_bcmc_stainfo_def)
  then show "\<exists>p a' fs. rtw_init_bcmc_stainfo [2, 0, 0, 0, 0, 1] demo_table = (Success, p) \<and>
     OnAuth (Some demo_buf) (demo_rx ?g 0 2 []) (demo_ap 0 p) = Some (Fail, a', fs) \<and>
     table_ok [2, 0, 0, 0, 0, 1] (stapriv a') \<and> same_others bc_addr p (stapriv a') \<and> rtw_get_bcmc_stainfo (stapriv a') = None"
    using on_auth_keeps_table [OF _ F(2) _ r(1)] p r(1) g(2) by auto
qed


theorem forged_auth_frees_station_witness:
  "\<exists>p a' fs. rtw_init_bcmc_stainfo [2, 0, 0, 0, 0, 1] demo_table = (Success, p) \<and> rtw_get_bcmc_stainfo p \<noteq> None \<and>
     OnAuth (Some demo_buf) (demo_rx bc_addr 0 2 []) (demo_ap 0 p) = Some (Fail, a', fs) \<and> rtw_get_bcmc_stainfo (stapriv a') = None"
proof -
  have "length bc_addr = 6" by (simp add: bc_addr_def)
  note F = demo_rx_facts [OF this, of 0 2 "[]"]
  obtain p k where p: "rtw_init_bcmc_stainfo [2, 0, 0, 0, 0, 1] demo_table = (Success, p)" "table_ok [2, 0, 0, 0, 0, 1] p"
    "rtw_get_bcmc_stainfo p = Some k" "auth_seq (stainfo_buf p ! k) = 0" using demo_bcmc by blast
  then show ?thesis
    using forged_auth_frees_station [where a = "demo_ap 0 p" and r = "demo_rx bc_addr 0 2 []" and sa = bc_addr and alg = 0 and sn = 2 and f = demo_buf and k = k] F
    by (auto simp: rtw_get_bcmc_stainfo_def)
qed

theorem shared_key_bypass_witness:
  "\<exists>a1 f1 a2 f2 k. OnAuth (Some demo_buf) (demo_rx demo_sa 1 1 []) (demo_ap 1 demo_table) = Some (Success, a1, [f1]) \<and>
     OnAuth (Some demo_buf) (demo_rx demo_sa 1 3 ([0, 0, 0, 0] @ elem_bytes (16, replicate 128 78))) a1 = Some (Success, a2, [f2]) \<and>
     rtw_get_stainfo (stapriv a2) (Some demo_sa) = Some k \<and>
     sta_state (stainfo_buf (stapriv a2) ! k) AND WIFI_FW_AUTH_SUCCESS \<noteq> 0"
proof -
  note T = demo_table_facts(1) [of "[2, 0, 0, 0, 0, 1]"] demo_table_facts(2) [of demo_sa] demo_table_facts(3)
  show ?thesis
    using shared_key_bypass [of "demo_ap 1 demo_table" demo_sa demo_buf demo_buf "demo_rx demo_sa 1 1 []" 0
      "demo_rx demo_sa 1 3 ([0, 0, 0, 0] @ elem_bytes (16, replicate 128 78))" 0] T
    by (simp add: demo_rx_def) blast
qed

end
