(* ===== verification/Link.thy ===== *)
theory Link
  imports AuthFrame
begin

unbundle bit_operations_syntax

text \<open>
  The client's way from a join command to an association, in \<open>core/rtw_mlme_ext.c\<close>: \<open>start_clnt_join\<close>,
  \<open>start_clnt_auth\<close>, \<open>start_clnt_assoc\<close>, the handlers of the frames, \<open>OnAuthClient\<close>, \<open>OnAssocRsp\<close>,
  \<open>OnDeAuth\<close>, \<open>OnDisassoc\<close>, with \<open>receive_disconnect\<close>, and \<open>link_timer_hdl\<close>. What leaves the model, the
  frames sent and the reports to the upper layer, are outputs. The lemmas are over every sequence of
  frames and expiries of the timer.
\<close>

section \<open>Outputs\<close>

text \<open>
  \<open>Assoc_req\<close> is a call of \<open>issue_assocreq\<close>, \<open>Join_res\<close> one of \<open>report_join_res\<close> that found memory, \<open>Del_sta\<close>
  the same for \<open>report_del_sta_event\<close>, with the reason; \<open>Handle_ie\<close> is the call of the handler of the element at
  an offset; \<open>Assoc_rsp_buf\<close> the update or release of the copy of the response; \<open>Brate_tbl\<close> is \<open>UpdateBrateTbl\<close>.
\<close>

datatype link_out = Auth_frame xmit_frame | Assoc_req | Join_res int | Del_sta u16 | Handle_ie nat
  | Assoc_rsp_buf "bytes option" | Brate_tbl

definition REAUTH_TO :: u32 where "REAUTH_TO = 300"
definition REASSOC_TO :: u32 where "REASSOC_TO = 300"
definition REAUTH_LIMIT :: u32 where "REAUTH_LIMIT = 4"
definition REASSOC_LIMIT :: u32 where "REASSOC_LIMIT = 4"
definition WAIT_FOR_BCN_TO_MIN :: u32 where "WAIT_FOR_BCN_TO_MIN = 6000"
definition WAIT_FOR_BCN_TO_MAX :: u32 where "WAIT_FOR_BCN_TO_MAX = 20000"

definition WIFI_FW_LINKING_STATE :: u32 where
  "WIFI_FW_LINKING_STATE = WIFI_FW_AUTH_NULL OR WIFI_FW_AUTH_STATE OR WIFI_FW_AUTH_SUCCESS OR WIFI_FW_ASSOC_STATE"

lemmas link_consts = fw_state_defs WIFI_FW_LINKING_STATE_def REAUTH_TO_def REASSOC_TO_def REAUTH_LIMIT_def REASSOC_LIMIT_def

section \<open>Starting\<close>

definition decide_wait_for_beacon_timeout :: "u32 \<Rightarrow> u32" where
  "decide_wait_for_beacon_timeout bcn_interval =
     (if push_bit 2 bcn_interval < WAIT_FOR_BCN_TO_MIN then WAIT_FOR_BCN_TO_MIN
      else if WAIT_FOR_BCN_TO_MAX < push_bit 2 bcn_interval then WAIT_FOR_BCN_TO_MAX
      else push_bit 2 bcn_interval)"

text \<open>
  The branch of \<open>start_clnt_join\<close> for a network with an access point; its register writes are not part of the
  state modelled here.
\<close>

definition start_clnt_join_ess :: "u32 \<Rightarrow> adapter \<Rightarrow> adapter" where
  "start_clnt_join_ess bcn_interval a = a\<lparr>link_timer := Some (decide_wait_for_beacon_timeout bcn_interval),
     mlme_state := WIFI_FW_AUTH_NULL OR WIFI_FW_STATION_STATE\<rparr>"

definition start_clnt_auth :: "xmit_frame option \<Rightarrow> adapter \<Rightarrow> (adapter \<times> link_out list) option" where
  "start_clnt_auth alloc a = do {
     let a = a\<lparr>link_timer := None, mlme_state := mlme_state a AND NOT WIFI_FW_AUTH_NULL OR WIFI_FW_AUTH_STATE,
       mi_auth_seq := 1, reauth_count := 0, reassoc_count := 0, link_count := 0, link_retry := 0\<rparr>;
     (a, fs) \<leftarrow> issue_auth alloc None 0 a;
     Some (a\<lparr>link_timer := Some REAUTH_TO\<rparr>, map Auth_frame fs) }"

definition start_clnt_assoc :: "adapter \<Rightarrow> adapter \<times> link_out list" where
  "start_clnt_assoc a = (a\<lparr>mlme_state := mlme_state a AND NOT (WIFI_FW_AUTH_NULL OR WIFI_FW_AUTH_STATE)
     OR (WIFI_FW_AUTH_SUCCESS OR WIFI_FW_ASSOC_STATE), link_timer := Some REASSOC_TO\<rparr>, [Assoc_req])"

text \<open>
  What a beacon starts (in \<open>OnBeacon\<close>): the authentication, if its third address is that of the network and none
  has come since the join.
\<close>

definition beacon_start :: "xmit_frame option \<Rightarrow> recv_frame \<Rightarrow> adapter \<Rightarrow> (adapter \<times> link_out list) option" where
  "beacon_start alloc r a = do {
     a3 \<leftarrow> rd_block (rx_data r) 16 6;
     if a3 = cur_bssid a \<and> mlme_state a AND WIFI_FW_AUTH_NULL \<noteq> 0 then start_clnt_auth alloc a else Some (a, []) }"

section \<open>Reports\<close>

text \<open>\<open>mem\<close>: the allocations of \<open>report_join_res\<close> and \<open>report_del_sta_event\<close> succeed.\<close>

definition report_join_res :: "bool \<Rightarrow> int \<Rightarrow> result \<times> link_out list" where
  "report_join_res mem res = (if mem then (Success, [Join_res res]) else (Fail, []))"

definition report_del_sta_event :: "bool \<Rightarrow> u16 \<Rightarrow> result \<times> link_out list" where
  "report_del_sta_event mem reason = (if mem then (Success, [Del_sta reason]) else (Fail, []))"

definition receive_disconnect :: "bool \<Rightarrow> bytes \<Rightarrow> u16 \<Rightarrow> adapter \<Rightarrow> adapter \<times> link_out list" where
  "receive_disconnect mem MacAddr reason a =
     (if MacAddr \<noteq> cur_bssid a then (a, [])
      else if mlme_state a AND 3 = WIFI_FW_STATION_STATE then
        (if mlme_state a AND WIFI_FW_ASSOC_SUCCESS \<noteq> 0 then
           (case report_del_sta_event mem reason of (res, out) \<Rightarrow> (if res \<noteq> Fail then a\<lparr>mlme_state := 0\<rparr> else a, out))
         else if mlme_state a AND WIFI_FW_LINKING_STATE \<noteq> 0 then
           (case report_join_res mem (-2) of (res, out) \<Rightarrow> (if res \<noteq> Fail then a\<lparr>mlme_state := 0\<rparr> else a, out))
         else (a, []))
      else (a, []))"

section \<open>Frames\<close>

definition get_da :: "bytes \<Rightarrow> bytes option" where
  "get_da m = do { fc \<leftarrow> rd16 m 0; rd_block m (if fc AND 0x100 \<noteq> 0 then 16 else 4) 6 }"

text \<open>
  What a client does with the sequence number and the status of an authentication frame. The challenge is
  copied into an array of 128 bytes with the length of the received element; the model fails when that is more.
\<close>

definition auth_client_steps :: "xmit_frame option \<Rightarrow> bytes \<Rightarrow> u32 \<Rightarrow> u16 \<Rightarrow> u16 \<Rightarrow> adapter \<Rightarrow> (result \<times> adapter \<times> link_out list) option" where
  "auth_client_steps alloc m len sn status a =
     (let shared = (auth_algo a = dot11AuthAlgrthm_Shared) in
      if status \<noteq> 0 then
        Some (Fail, a\<lparr>auth_algo := (if status = 13 then (if shared then dot11AuthAlgrthm_Open else dot11AuthAlgrthm_Shared) else auth_algo a),
          link_timer := Some 1\<rparr>, [])
      else if sn = 2 \<and> shared then do {
        (p, ie_len) \<leftarrow> rtw_get_ie m (WLAN_HDR_A3_LEN + 6) 16 0 (sint (len - 24 - 6));
        case p of
          None \<Rightarrow> Some (Fail, a, [])
        | Some q \<Rightarrow> do {
            c \<leftarrow> rd_block m (q + 2) (nat ie_len);
            chg \<leftarrow> wr_block (mi_chg_txt a) 0 c;
            (a, fs) \<leftarrow> issue_auth alloc None 0 (a\<lparr>mi_chg_txt := chg, mi_auth_seq := 3\<rparr>);
            Some (Success, a\<lparr>link_timer := Some REAUTH_TO\<rparr>, map Auth_frame fs) } }
      else if sn = 2 \<or> sn = 4 \<and> shared then
        (case start_clnt_assoc a of (a, out) \<Rightarrow> Some (Success, a, out))
      else Some (Fail, a, []))"

definition OnAuthClient :: "xmit_frame option \<Rightarrow> recv_frame \<Rightarrow> adapter \<Rightarrow> (result \<times> adapter \<times> link_out list) option" where
  "OnAuthClient alloc r a = do {
     let m = rx_data r;
     da \<leftarrow> get_da m;
     if own_addr a \<noteq> da \<or> mlme_state a AND WIFI_FW_AUTH_STATE = 0 then Some (Success, a, [])
     else do {
       priv \<leftarrow> GetPrivacy m;
       let offset = (if priv then 4 else 0);
       algthm \<leftarrow> rd16 m (WLAN_HDR_A3_LEN + offset);
       sn \<leftarrow> rd16 m (WLAN_HDR_A3_LEN + offset + 2);
       status \<leftarrow> rd16 m (WLAN_HDR_A3_LEN + offset + 4);
       auth_client_steps alloc m (rx_len r) sn status a } }"

definition WFD_OUI :: bytes where "WFD_OUI = [0x50, 0x6F, 0x9A, 0x0A]"
definition WMM_PARA_OUI :: bytes where "WMM_PARA_OUI = [0x00, 0x50, 0xf2, 0x02, 0x01, 0x01]"

text \<open>The walk of \<open>OnAssocRsp\<close> over the elements: the offsets of those that have a handler.\<close>

function assoc_elems :: "bytes \<Rightarrow> nat \<Rightarrow> nat \<Rightarrow> nat list option" where
  "assoc_elems m len i =
     (if i < len then do {
        id \<leftarrow> rd m i;
        l \<leftarrow> rd m (i + 1);
        h \<leftarrow> (if id = 221 then do {
                o6 \<leftarrow> rd_block m (i + 2) 6;
                if o6 = WMM_PARA_OUI then Some True else do { o4 \<leftarrow> rd_block m (i + 2) 4; Some (o4 = WFD_OUI) } }
              else Some (id = 45 \<or> id = 61 \<or> id = 42));
        hs \<leftarrow> assoc_elems m len (i + (unat l + 2));
        Some (if h then i # hs else hs) }
      else Some [])"
  by pat_completeness auto
termination
  by (relation "measure (\<lambda>(m, len, i). len - i)") auto

declare assoc_elems.simps [simp del]

text \<open>The response \<open>m\<close> past the checks of its address and of the state.\<close>

definition assoc_rsp_steps :: "bool \<Rightarrow> bytes \<Rightarrow> nat \<Rightarrow> adapter \<Rightarrow> (adapter \<times> link_out list) option" where
  "assoc_rsp_steps mem m len a = do {
     status \<leftarrow> rd16 m (WLAN_HDR_A3_LEN + 2);
     if 0 < status then
       Some (a\<lparr>link_timer := None, mlme_state := 0\<rparr>, Assoc_rsp_buf None # snd (report_join_res mem (-4)))
     else do {
       cap \<leftarrow> rd16 m WLAN_HDR_A3_LEN;
       aid \<leftarrow> rd16 m (WLAN_HDR_A3_LEN + 4);
       let aid = aid AND 0x3fff;
       hs \<leftarrow> assoc_elems m len (6 + WLAN_HDR_A3_LEN);
       Some (a\<lparr>link_timer := None, mi_capability := cap, slotTime := (if cap AND 0x400 \<noteq> 0 then 9 else 20), mi_aid := aid,
           mlme_state := mlme_state a AND NOT WIFI_FW_ASSOC_STATE OR WIFI_FW_ASSOC_SUCCESS\<rparr>,
         map Handle_ie hs @ [Brate_tbl, Assoc_rsp_buf (if 0 < aid then Some (take len m) else None)] @
         snd (report_join_res mem (uint aid))) } }"

definition OnAssocRsp :: "bool \<Rightarrow> recv_frame \<Rightarrow> adapter \<Rightarrow> (result \<times> adapter \<times> link_out list) option" where
  "OnAssocRsp mem r a = do {
     da \<leftarrow> get_da (rx_data r);
     if own_addr a \<noteq> da \<or> mlme_state a AND (WIFI_FW_AUTH_SUCCESS OR WIFI_FW_ASSOC_STATE) = 0 \<or>
        mlme_state a AND WIFI_FW_ASSOC_SUCCESS \<noteq> 0 then Some (Success, a, [])
     else do {
       (a, out) \<leftarrow> assoc_rsp_steps mem (rx_data r) (unat (rx_len r)) a;
       Some (Success, a, out) } }"

text \<open>\<open>OnDeAuth\<close> and \<open>OnDisassoc\<close> of a client.\<close>

definition OnDeAuth_clnt :: "bool \<Rightarrow> recv_frame \<Rightarrow> adapter \<Rightarrow> (adapter \<times> link_out list) option" where
  "OnDeAuth_clnt mem r a = do {
     a3 \<leftarrow> rd_block (rx_data r) 16 6;
     if a3 \<noteq> cur_bssid a then Some (a, [])
     else do {
       reason \<leftarrow> rd16 (rx_data r) WLAN_HDR_A3_LEN;
       let ignore = ((mlme_state a AND WIFI_FW_AUTH_STATE \<noteq> 0 \<or> mlme_state a AND WIFI_FW_ASSOC_STATE \<noteq> 0) \<and> (reason = 6 \<or> reason = 2));
       a2 \<leftarrow> rd_block (rx_data r) 10 6;
       Some (if ignore then (a, []) else receive_disconnect mem a2 reason a) } }"

definition OnDisassoc_clnt :: "bool \<Rightarrow> recv_frame \<Rightarrow> adapter \<Rightarrow> (adapter \<times> link_out list) option" where
  "OnDisassoc_clnt mem r a = do {
     a3 \<leftarrow> rd_block (rx_data r) 16 6;
     if a3 \<noteq> cur_bssid a then Some (a, [])
     else do {
       reason \<leftarrow> rd16 (rx_data r) WLAN_HDR_A3_LEN;
       a2 \<leftarrow> rd_block (rx_data r) 10 6;
       Some (receive_disconnect mem a2 reason a) } }"

section \<open>The timer\<close>

definition link_timer_hdl :: "bool \<Rightarrow> xmit_frame option \<Rightarrow> adapter \<Rightarrow> (adapter \<times> link_out list) option" where
  "link_timer_hdl mem alloc a =
     (if mlme_state a AND WIFI_FW_AUTH_NULL \<noteq> 0 then Some (a\<lparr>mlme_state := 0\<rparr>, snd (report_join_res mem (-3)))
      else if mlme_state a AND WIFI_FW_AUTH_STATE \<noteq> 0 then
        (let a = a\<lparr>reauth_count := reauth_count a + 1\<rparr>
         in if REAUTH_LIMIT < reauth_count a then Some (a\<lparr>mlme_state := 0\<rparr>, snd (report_join_res mem (-1)))
            else do {
              (a, fs) \<leftarrow> issue_auth alloc None 0 (a\<lparr>mi_auth_seq := 1\<rparr>);
              Some (a\<lparr>link_timer := Some REAUTH_TO\<rparr>, map Auth_frame fs) })
      else if mlme_state a AND WIFI_FW_ASSOC_STATE \<noteq> 0 then
        (let a = a\<lparr>reassoc_count := reassoc_count a + 1\<rparr>
         in if REASSOC_LIMIT < reassoc_count a then Some (a\<lparr>mlme_state := 0\<rparr>, snd (report_join_res mem (-2)))
            else Some (a\<lparr>link_timer := Some REASSOC_TO\<rparr>, [Assoc_req]))
      else Some (a, []))"

section \<open>Runs\<close>

text \<open>
  What happens to a client that joins. The frames come with what the allocation of a frame to send returns, and
  reports with whether memory is found. An expiry is an expiry of the pending timer.
\<close>

datatype link_event =
    Beacon recv_frame "xmit_frame option"
  | Auth_rx recv_frame "xmit_frame option"
  | Assoc_rx recv_frame bool
  | Deauth_rx recv_frame bool
  | Disassoc_rx recv_frame bool
  | Expiry bool "xmit_frame option"

fun link_step :: "link_event \<Rightarrow> adapter \<Rightarrow> (adapter \<times> link_out list) option" where
  "link_step (Beacon r alloc) a = beacon_start alloc r a"
| "link_step (Auth_rx r alloc) a = map_option snd (OnAuthClient alloc r a)"
| "link_step (Assoc_rx r mem) a = map_option snd (OnAssocRsp mem r a)"
| "link_step (Deauth_rx r mem) a = OnDeAuth_clnt mem r a"
| "link_step (Disassoc_rx r mem) a = OnDisassoc_clnt mem r a"
| "link_step (Expiry mem alloc) a =
     (if link_timer a = None then Some (a, []) else link_timer_hdl mem alloc (a\<lparr>link_timer := None\<rparr>))"

fun link_run :: "link_event list \<Rightarrow> adapter \<Rightarrow> (adapter \<times> link_out list) option" where
  "link_run [] a = Some (a, [])"
| "link_run (e # es) a = do {
     (a, out) \<leftarrow> link_step e a;
     (a, outs) \<leftarrow> link_run es a;
     Some (a, out @ outs) }"

fun is_expiry :: "link_event \<Rightarrow> bool" where
  "is_expiry (Expiry _ _) = True"
| "is_expiry _ = False"

text \<open>The step finds memory for its report.\<close>

fun has_mem :: "link_event \<Rightarrow> bool" where
  "has_mem (Assoc_rx _ mem) = mem"
| "has_mem (Deauth_rx _ mem) = mem"
| "has_mem (Disassoc_rx _ mem) = mem"
| "has_mem (Expiry mem _) = mem"
| "has_mem _ = True"

fun is_join_res :: "link_out \<Rightarrow> bool" where
  "is_join_res (Join_res _) = True"
| "is_join_res _ = False"

text \<open>The join has no outcome yet.\<close>

definition undecided :: "adapter \<Rightarrow> bool" where
  "undecided a \<longleftrightarrow> mlme_state a AND (WIFI_FW_AUTH_NULL OR WIFI_FW_AUTH_STATE OR WIFI_FW_ASSOC_STATE) \<noteq> 0"

section \<open>The invariant\<close>

text \<open>
  The five states, the pending timer and the bounds of the counters; \<open>link_rank\<close> bounds the expiries that
  are left until the join is decided.
\<close>

definition link_inv :: "adapter \<Rightarrow> bool" where
  "link_inv a \<longleftrightarrow> mlme_state a \<in> {0, 0x102, 0x202, 0x2402, 0x4402} \<and> (undecided a \<longrightarrow> link_timer a \<noteq> None) \<and>
     (mlme_state a = 0x202 \<longrightarrow> reauth_count a \<le> 4 \<and> reassoc_count a = 0) \<and> (mlme_state a = 0x2402 \<longrightarrow> reassoc_count a \<le> 4)"

definition link_rank :: "adapter \<Rightarrow> nat" where
  "link_rank a =
     (if mlme_state a = 0x102 then 9
      else if mlme_state a = 0x202 then 9 - unat (reauth_count a)
      else if mlme_state a = 0x2402 then 5 - unat (reassoc_count a)
      else 0)"

lemma undecided_iff: "link_inv a \<Longrightarrow> undecided a \<longleftrightarrow> mlme_state a \<in> {0x102, 0x202, 0x2402}"
  by (auto simp: link_inv_def undecided_def fw_state_defs)

text \<open>A step that keeps what the invariant looks at.\<close>

definition link_ok :: "bool \<Rightarrow> bool \<Rightarrow> adapter \<Rightarrow> adapter \<times> link_out list \<Rightarrow> bool" where
  "link_ok tick mem a = (\<lambda>(a', out). link_inv a' \<and> link_rank a' + of_bool (tick \<and> undecided a) \<le> link_rank a \<and>
     (mem \<longrightarrow> length (filter is_join_res out) = of_bool (undecided a \<and> \<not> undecided a')))"

lemma link_ok_same: "link_inv a \<Longrightarrow> link_ok False mem a (a, [])"
  by (simp add: link_ok_def)

lemma no_join [simp]: "filter is_join_res (map Auth_frame fs) = []" "filter is_join_res (map Handle_ie hs) = []"
  by (simp_all add: filter_empty_conv)

lemma link_ok_frame:
  assumes "link_inv a" and "mlme_state b = mlme_state a" and "reauth_count b = reauth_count a" and "reassoc_count b = reassoc_count a"
    and "link_timer b \<noteq> None" and "filter is_join_res out = []"
  shows "link_ok False mem a (b, out)"
proof -
  have "undecided b = undecided a" "link_rank b = link_rank a" unfolding undecided_def link_rank_def assms(2-4) by (rule refl)+
  moreover have "link_inv b" using assms(1,5) unfolding link_inv_def assms(2-4) by blast
  ultimately show ?thesis using assms(6) by (simp add: link_ok_def)
qed

lemma decided_state:
  assumes "mlme_state b \<in> {0, 0x4402}"
  shows "\<not> undecided b" "link_inv b" "link_rank b = 0"
proof -
  from assms consider "mlme_state b = 0" | "mlme_state b = 0x4402" by blast
  then show "\<not> undecided b" by cases (simp_all add: undecided_def fw_state_defs)
  then show "link_inv b" "link_rank b = 0" using assms by (auto simp: link_inv_def link_rank_def)
qed

lemma link_ok_decided:
  assumes "undecided a" and "0 < link_rank a" and "mlme_state b \<in> {0, 0x4402}" and "mem \<longrightarrow> length (filter is_join_res out) = 1"
  shows "link_ok tick mem a (b, out)"
  using assms decided_state [OF assms(3)] by (simp add: link_ok_def)

lemma undecided_rank: "link_inv a \<Longrightarrow> undecided a \<Longrightarrow> 0 < link_rank a"
  unfolding undecided_iff by (auto simp: link_inv_def link_rank_def word_le_nat_alt)

lemma start_clnt_auth_ok:
  assumes "link_inv a" and "mlme_state a AND WIFI_FW_AUTH_NULL \<noteq> 0" and "start_clnt_auth alloc a = Some x"
  shows "link_ok False mem a x"
proof -
  have s: "mlme_state a = 0x102" using assms(1,2) by (auto simp: link_inv_def fw_state_defs)
  show ?thesis using assms(3) s
    by (auto simp: start_clnt_auth_def Let_def Option.bind_eq_Some_conv fw_state_defs link_ok_def link_inv_def link_rank_def undecided_def
        REAUTH_TO_def dest!: issue_auth_frame)
qed

lemma start_clnt_assoc_ok:
  assumes "link_inv a" and "mlme_state a AND WIFI_FW_AUTH_STATE \<noteq> 0"
  shows "link_ok False mem a (start_clnt_assoc a)"
proof -
  have s: "mlme_state a = 0x202" using assms by (auto simp: link_inv_def fw_state_defs)
  then have "unat (reauth_count a) \<le> 4" using assms(1) by (simp add: link_inv_def word_le_nat_alt)
  then show ?thesis using s assms(1)
    by (simp add: start_clnt_assoc_def fw_state_defs link_ok_def link_inv_def link_rank_def undecided_def)
qed

lemma receive_disconnect_ok:
  assumes "link_inv a"
  shows "link_ok False mem a (receive_disconnect mem b reason a)"
  using assms
  by (auto simp: receive_disconnect_def report_join_res_def report_del_sta_event_def link_ok_def link_inv_def link_rank_def undecided_def
      link_consts)

lemma auth_client_cases:
  assumes r: "auth_client_steps alloc m len sn status a = Some (res, x)"
  obtains (same) "x = (a, [])" | (refused) n where "x = (a\<lparr>auth_algo := n, link_timer := Some 1\<rparr>, [])"
    | (third) b fs c chg where "wr_block (mi_chg_txt a) 0 c = Some chg"
        "issue_auth alloc None 0 (a\<lparr>mi_chg_txt := chg, mi_auth_seq := 3\<rparr>) = Some (b, fs)"
        "x = (b\<lparr>link_timer := Some REAUTH_TO\<rparr>, map Auth_frame fs)"
    | (assoc) "x = start_clnt_assoc a"
proof -
  consider (refused) "status \<noteq> 0" | (third) "status = 0" "sn = 2 \<and> auth_algo a = dot11AuthAlgrthm_Shared"
    | (assoc) "status = 0" "\<not> (sn = 2 \<and> auth_algo a = dot11AuthAlgrthm_Shared)" by blast
  then show ?thesis
  proof cases
    case refused
    then show ?thesis using r that(2) by (auto simp: auth_client_steps_def Let_def)
  next
    case third
    then show ?thesis using r that(1,3)
      by (auto simp: auth_client_steps_def Let_def Option.bind_eq_Some_conv split: option.split_asm)
  next
    case assoc
    then show ?thesis using r that(1,4) by (auto simp: auth_client_steps_def Let_def split: if_split_asm prod.split_asm)
  qed
qed

lemma auth_client_steps_ok:
  assumes "link_inv a" and "mlme_state a AND WIFI_FW_AUTH_STATE \<noteq> 0" and "auth_client_steps alloc m len sn status a = Some (res, x)"
  shows "link_ok False mem a x"
  using assms(3)
proof (cases rule: auth_client_cases)
  case same
  then show ?thesis using link_ok_same assms(1) by simp
next
  case (refused n)
  then show ?thesis using link_ok_frame [OF assms(1), of "a\<lparr>auth_algo := n, link_timer := Some 1\<rparr>" "[]"] by simp
next
  case (third b fs c chg)
  then show ?thesis using issue_auth_frame [OF third(2)] by (auto intro!: link_ok_frame [OF assms(1)])
next
  case assoc
  then show ?thesis using start_clnt_assoc_ok [OF assms(1,2)] by simp
qed

lemma OnAuthClient_ok:
  assumes "link_inv a" and "OnAuthClient alloc r a = Some (res, x)"
  shows "link_ok False mem a x"
proof (cases "mlme_state a AND WIFI_FW_AUTH_STATE = 0")
  case True
  then show ?thesis using assms link_ok_same by (auto simp: OnAuthClient_def Let_def Option.bind_eq_Some_conv)
next
  case False
  obtain sn status where "x = (a, []) \<or> auth_client_steps alloc (rx_data r) (rx_len r) sn status a = Some (res, x)"
    using assms(2) by (auto simp: OnAuthClient_def Let_def Option.bind_eq_Some_conv split: if_split_asm)
  then show ?thesis using auth_client_steps_ok [OF assms(1) False] link_ok_same [OF assms(1)] by blast
qed

lemma assoc_rsp_cases:
  assumes r: "assoc_rsp_steps mem m len a = Some (b, out)"
  obtains (refused) "b = a\<lparr>link_timer := None, mlme_state := 0\<rparr>" "out = Assoc_rsp_buf None # snd (report_join_res mem (-4))"
    | (accepted) cap st aid hs buf where "b = a\<lparr>link_timer := None, mi_capability := cap, slotTime := st, mi_aid := aid,
          mlme_state := mlme_state a AND NOT WIFI_FW_ASSOC_STATE OR WIFI_FW_ASSOC_SUCCESS\<rparr>"
        "out = map Handle_ie hs @ [Brate_tbl, Assoc_rsp_buf buf] @ snd (report_join_res mem (uint aid))"
proof -
  obtain status where st: "rd16 m (WLAN_HDR_A3_LEN + 2) = Some status" using r by (auto simp: assoc_rsp_steps_def Option.bind_eq_Some_conv)
  show ?thesis
  proof (cases "0 < status")
    case True
    then show ?thesis using r st that(1) by (simp add: assoc_rsp_steps_def)
  next
    case False
    from r [unfolded assoc_rsp_steps_def st Option.bind.simps if_not_P [OF False] Let_def Option.bind_eq_Some_conv option.inject prod.inject]
    show ?thesis by (elim exE conjE) (rule that(2); (erule sym)?)
  qed
qed

lemma assoc_rsp_steps_ok:
  assumes s: "mlme_state a = 0x2402" and inv: "link_inv a" and r: "assoc_rsp_steps mem m len a = Some (b, out)"
  shows "link_ok False mem a (b, out)"
proof -
  have u: "undecided a" using s by (simp add: undecided_def fw_state_defs)
  have "mlme_state b \<in> {0, 0x4402} \<and> (mem \<longrightarrow> length (filter is_join_res out) = 1)"
    using r by (cases rule: assoc_rsp_cases) (simp_all add: s fw_state_defs report_join_res_def)
  then show ?thesis using link_ok_decided [OF u undecided_rank [OF inv u]] by blast
qed

lemma OnAssocRsp_ok:
  assumes "link_inv a" and "OnAssocRsp mem r a = Some (res, x)"
  shows "link_ok False mem a x"
proof (cases "mlme_state a AND (WIFI_FW_AUTH_SUCCESS OR WIFI_FW_ASSOC_STATE) = 0 \<or> mlme_state a AND WIFI_FW_ASSOC_SUCCESS \<noteq> 0")
  case True
  then show ?thesis using assms link_ok_same by (auto simp: OnAssocRsp_def Option.bind_eq_Some_conv)
next
  case False
  then have s: "mlme_state a = 0x2402" using assms(1) by (auto simp: link_inv_def fw_state_defs)
  have "x = (a, []) \<or> assoc_rsp_steps mem (rx_data r) (unat (rx_len r)) a = Some x"
    using assms(2) by (auto simp: OnAssocRsp_def Option.bind_eq_Some_conv split: if_split_asm)
  then show ?thesis using assoc_rsp_steps_ok [OF s assms(1)] link_ok_same [OF assms(1)] by (cases x) blast
qed

lemma OnDeAuth_clnt_ok:
  assumes "link_inv a"
  shows "OnDeAuth_clnt mem r a = Some x \<Longrightarrow> link_ok False mem a x" "OnDisassoc_clnt mem r a = Some x \<Longrightarrow> link_ok False mem a x"
  using link_ok_same [OF assms] receive_disconnect_ok [OF assms]
  by (auto simp: OnDeAuth_clnt_def OnDisassoc_clnt_def Let_def Option.bind_eq_Some_conv split: if_split_asm)

lemma link_timer_ok:
  assumes inv: "link_inv a" and "link_timer a \<noteq> None" and r: "link_timer_hdl mem alloc (a\<lparr>link_timer := None\<rparr>) = Some x"
  shows "link_ok True mem a x"
proof -
  have "mlme_state a \<in> {0, 0x102, 0x202, 0x2402, 0x4402}" using inv by (simp add: link_inv_def)
  then consider "mlme_state a = 0x102" | "mlme_state a = 0x202" | "mlme_state a = 0x2402" | "mlme_state a \<in> {0, 0x4402}" by blast
  then show ?thesis
  proof cases
    case 1
    then have u: "undecided a" by (simp add: undecided_def fw_state_defs)
    show ?thesis using r 1 link_ok_decided [OF u undecided_rank [OF inv u]]
      by (auto simp: link_timer_hdl_def fw_state_defs report_join_res_def)
  next
    case 2
    then have c: "unat (reauth_count a) \<le> 4" "reassoc_count a = 0" using inv by (simp_all add: link_inv_def word_le_nat_alt)
    have n: "unat (reauth_count a + 1) = unat (reauth_count a) + 1" using c by (subst unat_add_lem [THEN iffD1]) simp_all
    have u: "undecided a" using 2 by (simp add: undecided_def fw_state_defs)
    show ?thesis
    proof (cases "REAUTH_LIMIT < reauth_count a + 1")
      case True
      then show ?thesis using r 2 link_ok_decided [OF u undecided_rank [OF inv u]]
        by (auto simp: link_timer_hdl_def fw_state_defs Let_def report_join_res_def)
    next
      case False
      then have "unat (reauth_count a) < 4" using n by (simp add: REAUTH_LIMIT_def word_less_nat_alt)
      then show ?thesis using r 2 u c(2) n False
        by (auto simp: link_timer_hdl_def fw_state_defs Let_def link_ok_def link_inv_def link_rank_def undecided_def word_le_nat_alt
            REAUTH_TO_def Option.bind_eq_Some_conv dest!: issue_auth_frame)
    qed
  next
    case 3
    then have c: "unat (reassoc_count a) \<le> 4" using inv by (simp_all add: link_inv_def word_le_nat_alt)
    have n: "unat (reassoc_count a + 1) = unat (reassoc_count a) + 1" using c by (subst unat_add_lem [THEN iffD1]) simp_all
    have u: "undecided a" using 3 by (simp add: undecided_def fw_state_defs)
    show ?thesis
    proof (cases "REASSOC_LIMIT < reassoc_count a + 1")
      case True
      then show ?thesis using r 3 link_ok_decided [OF u undecided_rank [OF inv u]]
        by (auto simp: link_timer_hdl_def fw_state_defs Let_def report_join_res_def)
    next
      case False
      then have "unat (reassoc_count a) < 4" using n by (simp add: REASSOC_LIMIT_def word_less_nat_alt)
      then show ?thesis using r 3 u n False
        by (auto simp: link_timer_hdl_def fw_state_defs Let_def link_ok_def link_inv_def link_rank_def undecided_def word_le_nat_alt REASSOC_TO_def)
    qed
  next
    case 4
    have "x = (a\<lparr>link_timer := None\<rparr>, [])" using r 4 by (auto simp: link_timer_hdl_def fw_state_defs)
    then show ?thesis using decided_state [OF 4] decided_state [of "a\<lparr>link_timer := None\<rparr>"] 4 by (simp add: link_ok_def)
  qed
qed

lemma link_step_ok:
  assumes "link_inv a" and "link_step e a = Some x"
  shows "link_ok (is_expiry e) (has_mem e) a x"
proof (cases e)
  case (Beacon r alloc)
  then show ?thesis using assms start_clnt_auth_ok link_ok_same
    by (cases x) (auto simp: beacon_start_def Option.bind_eq_Some_conv split: if_split_asm)
next
  case (Expiry mem alloc)
  show ?thesis
  proof (cases "link_timer a")
    case None
    then have "\<not> undecided a" using assms(1) by (auto simp: link_inv_def)
    then show ?thesis using Expiry assms None by (auto simp: link_ok_def)
  qed (use Expiry assms link_timer_ok in auto)
qed (use assms OnAuthClient_ok OnAssocRsp_ok OnDeAuth_clnt_ok in auto)

text \<open>The initial state of a join, whatever the adapter was before.\<close>

lemma start_join_inv:
  "link_inv (start_clnt_join_ess bcn a) \<and> link_rank (start_clnt_join_ess bcn a) = 9 \<and> undecided (start_clnt_join_ess bcn a)"
  by (simp add: start_clnt_join_ess_def link_inv_def link_rank_def undecided_def fw_state_defs)

lemma decided_stays:
  assumes "link_inv a" and "link_step e a = Some (b, out)" and "\<not> undecided a"
  shows "\<not> undecided b"
proof -
  have "link_rank a = 0" using assms(1,3) unfolding undecided_iff [OF assms(1)] by (auto simp: link_rank_def)
  then have "link_rank b = 0" "link_inv b" using link_step_ok [OF assms(1,2)] by (simp_all add: link_ok_def)
  then show ?thesis using undecided_rank [of b] by auto
qed

lemma link_run_ok:
  assumes "link_inv a" and "link_run es a = Some (b, out)"
  shows "link_inv b \<and> link_rank b + (if undecided b then length (filter is_expiry es) else 0) \<le> link_rank a \<and>
    (undecided b \<longrightarrow> undecided a) \<and>
    (list_all has_mem es \<longrightarrow> length (filter is_join_res out) = of_bool (undecided a \<and> \<not> undecided b))"
  using assms
proof (induction es arbitrary: a out)
  case Nil
  then show ?case by simp
next
  case (Cons e es)
  obtain a1 o1 o2 where s: "link_step e a = Some (a1, o1)" "link_run es a1 = Some (b, o2)" "out = o1 @ o2"
    using Cons.prems(2) by (auto simp: Option.bind_eq_Some_conv)
  note S = link_step_ok [OF Cons.prems(1) s(1)]
  have inv: "link_inv a1" using S by (simp add: link_ok_def)
  note R = Cons.IH [OF inv s(2)]
  show ?case using S R s(3) decided_stays [OF Cons.prems(1) s(1)] by (auto simp: link_ok_def)
qed

section \<open>What a join promises\<close>

text \<open>An expiry never fails, so a join that is not decided goes on.\<close>

definition client_ok :: "adapter \<Rightarrow> bool" where
  "client_ok a \<longleftrightarrow> length (own_addr a) = 6 \<and> length (cur_bssid a) = 6 \<and> length (mi_chg_txt a) = 128"

lemma issue_auth_request_returns:
  assumes "client_ok a" and "mi_auth_seq a \<noteq> 3" and "\<forall>f. alloc = Some f \<longrightarrow> mgt_buf f"
  shows "\<exists>a' fs. issue_auth alloc None st a = Some (a', fs)"
proof (cases alloc)
  case None
  then show ?thesis by (simp add: issue_auth_def)
next
  case (Some f)
  obtain base buf where b: "buf_addr f = Some (base, buf)" "208 \<le> length buf"
    using assms(3) Some by (auto simp: mgt_buf_def split: option.splits)
  show ?thesis using issue_auth_request [OF b, of a st] assms(1,2) Some by (auto simp: client_ok_def)
qed

lemma expiry_returns:
  assumes "client_ok a" and "\<forall>f. alloc = Some f \<longrightarrow> mgt_buf f"
  shows "\<exists>x. link_step (Expiry mem alloc) a = Some x"
proof (cases "REAUTH_LIMIT < reauth_count a + 1")
  case True
  then show ?thesis by (simp add: link_timer_hdl_def Let_def)
next
  case False
  let ?a = "a\<lparr>link_timer := None, reauth_count := reauth_count a + 1, mi_auth_seq := 1\<rparr>"
  have "client_ok ?a" using assms(1) by (simp add: client_ok_def)
  then obtain a' fs where "issue_auth alloc None 0 ?a = Some (a', fs)" using issue_auth_request_returns [of ?a alloc 0] assms(2) by auto
  then show ?thesis by (simp add: link_timer_hdl_def Let_def)
qed

lemma client_ok_upd [simp]:
  "client_ok (a\<lparr>mlme_state := v\<rparr>) = client_ok a" "client_ok (a\<lparr>link_timer := t\<rparr>) = client_ok a"
  "client_ok (a\<lparr>mi_auth_seq := n\<rparr>) = client_ok a" "client_ok (a\<lparr>reauth_count := n\<rparr>) = client_ok a"
  "client_ok (a\<lparr>reassoc_count := n\<rparr>) = client_ok a" "client_ok (a\<lparr>link_count := n\<rparr>) = client_ok a"
  "client_ok (a\<lparr>link_retry := n\<rparr>) = client_ok a" "client_ok (a\<lparr>auth_algo := n\<rparr>) = client_ok a"
  "client_ok (a\<lparr>mi_capability := c\<rparr>) = client_ok a" "client_ok (a\<lparr>slotTime := u\<rparr>) = client_ok a" "client_ok (a\<lparr>mi_aid := c\<rparr>) = client_ok a"
  by (simp_all add: client_ok_def)

lemma client_ok_auth: "issue_auth alloc ps st a = Some (a', fs) \<Longrightarrow> client_ok a' = client_ok a"
  using issue_auth_frame by (fastforce simp: client_ok_def)

lemma client_ok_disconnect: "client_ok a \<Longrightarrow> client_ok (fst (receive_disconnect mem b reason a))"
  by (simp add: receive_disconnect_def report_join_res_def report_del_sta_event_def)

lemma client_ok_clnt:
  assumes "client_ok a"
  shows "start_clnt_auth alloc a = Some (b, out) \<Longrightarrow> client_ok b"
    "auth_client_steps alloc m len sn status a = Some (res, b, out) \<Longrightarrow> client_ok b"
    "assoc_rsp_steps mem m ilen a = Some (b, out) \<Longrightarrow> client_ok b"
    "link_timer_hdl mem alloc a = Some (b, out) \<Longrightarrow> client_ok b"
proof -
  show "start_clnt_auth alloc a = Some (b, out) \<Longrightarrow> client_ok b"
    using assms by (auto simp: start_clnt_auth_def Let_def Option.bind_eq_Some_conv dest!: client_ok_auth)
  show "client_ok b" if "auth_client_steps alloc m len sn status a = Some (res, b, out)"
    using that
  proof (cases rule: auth_client_cases)
    case (third b' fs c chg)
    have "client_ok (a\<lparr>mi_chg_txt := chg\<rparr>)" using third(1) assms by (auto simp: client_ok_def wr_block_def store_def split: if_split_asm)
    then show ?thesis using third(3) client_ok_auth [OF third(2)] by simp
  qed (use assms in \<open>simp_all add: start_clnt_assoc_def\<close>)
  show "assoc_rsp_steps mem m ilen a = Some (b, out) \<Longrightarrow> client_ok b"
    using assms by (elim assoc_rsp_cases) simp_all
  show "client_ok b" if r: "link_timer_hdl mem alloc a = Some (b, out)"
  proof -
    consider (fin) b' where "b = b'\<lparr>mlme_state := 0\<rparr>" "client_ok b'" | (plain) t n where "b = a\<lparr>reassoc_count := n, link_timer := Some t\<rparr>"
      | (auth) b' n fs where "issue_auth alloc None 0 (a\<lparr>reauth_count := n, mi_auth_seq := 1\<rparr>) = Some (b', fs)" "b = b'\<lparr>link_timer := Some REAUTH_TO\<rparr>"
      | (same) "b = a"
      using r assms unfolding link_timer_hdl_def Let_def
      by (simp add: Option.bind_eq_Some_conv split: if_split_asm) (metis client_ok_upd(1,4,5))+
    then show ?thesis using assms by cases (auto dest: client_ok_auth)
  qed
qed

lemma client_ok_step:
  assumes "client_ok a" and "link_step e a = Some (b, out)"
  shows "client_ok b"
proof (cases e)
  case (Auth_rx r alloc)
  then show ?thesis using assms client_ok_clnt(2) [OF assms(1)]
    by (auto simp: OnAuthClient_def Let_def Option.bind_eq_Some_conv split: if_split_asm)
next
  case (Deauth_rx r mem)
  then show ?thesis using assms client_ok_disconnect [OF assms(1), of mem]
    by (auto simp: OnDeAuth_clnt_def Let_def Option.bind_eq_Some_conv split: if_split_asm; metis fst_conv)
next
  case (Disassoc_rx r mem)
  then show ?thesis using assms client_ok_disconnect [OF assms(1), of mem]
    by (auto simp: OnDisassoc_clnt_def Option.bind_eq_Some_conv split: if_split_asm) (metis fst_conv)
next
  case (Expiry mem alloc)
  then show ?thesis using assms client_ok_clnt(4) [of "a\<lparr>link_timer := None\<rparr>"] by (auto split: if_split_asm)
qed (use assms client_ok_clnt(1,3) [OF assms(1)] in \<open>auto simp: beacon_start_def OnAssocRsp_def Option.bind_eq_Some_conv split: if_split_asm\<close>)

lemma client_ok_run:
  "client_ok a \<Longrightarrow> link_run es a = Some (b, out) \<Longrightarrow> client_ok b"
proof (induction es arbitrary: a out)
  case (Cons e es)
  then show ?case using client_ok_step by (fastforce simp: Option.bind_eq_Some_conv)
qed simp

text \<open>C18: A join ends. After \<open>start_clnt_join\<close>, whatever frames arrive from whomever and in whatever order, a client that
  has no outcome yet has the link timer pending and its next expiry is handled; and after nine expiries
  there is an outcome.\<close>

theorem link_decides:
  assumes "client_ok a" and "link_run es (start_clnt_join_ess bcn a) = Some (b, out)"
  shows "(undecided b \<longrightarrow> link_timer b \<noteq> None \<and> length (filter is_expiry es) < 9) \<and>
    (\<forall>mem alloc. (\<forall>f. alloc = Some f \<longrightarrow> mgt_buf f) \<longrightarrow> link_step (Expiry mem alloc) b \<noteq> None)"
proof -
  note R = link_run_ok [OF conjunct1 [OF start_join_inv] assms(2)]
  have "client_ok (start_clnt_join_ess bcn a)" using assms(1) by (simp add: client_ok_def start_clnt_join_ess_def)
  then have c: "client_ok b" using client_ok_run assms(2) by blast
  have inv: "link_inv b" using R by simp
  have "link_timer b \<noteq> None \<and> length (filter is_expiry es) < 9" if u: "undecided b"
    using R start_join_inv [of bcn a] u inv undecided_rank [OF inv u] by (simp add: link_inv_def)
  then show ?thesis using expiry_returns [OF c] by blast
qed

text \<open>C19: A join is reported once. As long as memory is found for the reports, a join that has no outcome has
  not been reported, and one with an outcome has been reported exactly once, whatever frames arrive in which
  order, answers sent again or late and disconnections included.\<close>

theorem link_reports_once:
  assumes "list_all has_mem es" and "link_run es (start_clnt_join_ess bcn a) = Some (b, out)"
  shows "length (filter is_join_res out) = (if undecided b then 0 else 1)"
  using link_run_ok [OF conjunct1 [OF start_join_inv] assms(2)] start_join_inv [of bcn a] assms(1) by simp

section \<open>The challenge\<close>

lemma get_da_clear:
  assumes "length da = 6" and "length sa = 6" and "length a3 = 6"
  shows "get_da (clear_auth da sa a3 n alg sn rest) = Some da"
  using clear_auth_reads(6,7) [OF assms] by (simp add: get_da_def WIFI_AUTH_def)

text \<open>What a client finds in the second frame.\<close>

lemma clear_challenge:
  fixes da sa a3 c n alg
  defines "m \<equiv> clear_auth da sa a3 n alg 2 (elem_bytes (16, c))"
  assumes l: "length da = 6" "length sa = 6" "length a3 = 6" and c: "length c < 256"
  shows "rtw_get_ie m 30 16 0 (sint (of_nat (length m) - 30 :: u32)) = Some (Some 30, int (length c))" "rd_block m 32 (length c) = Some c"
proof -
  note R = clear_auth_rest [OF l]
  have e: "elem_bytes (16, c) = 16 # of_nat (length c) # c" by (simp add: elem_bytes_def)
  have "of_nat (length m) - 30 = (of_nat (2 + length c) :: u32)" using l by (simp add: m_def length_clear_auth)
  then have "sint (of_nat (length m) - 30 :: u32) = int (2 + length c)"
    using c by (simp only: signed_of_nat) (simp add: signed_take_bit_int_eq_self)
  then have lim: "\<not> sint (of_nat (length m) - 30 :: u32) < 1" by simp
  have m: "rd m 30 = Some 16" "rd m (30 + 1) = Some (of_nat (length c))" unfolding m_def by (subst R(1), simp, simp add: e)+
  have "uint (of_nat (length c) :: u8) = int (length c)" using c by (simp add: unsigned_of_nat take_bit_nat_eq_self)
  then show "rtw_get_ie m 30 16 0 (sint (of_nat (length m) - 30 :: u32)) = Some (Some 30, int (length c))"
    unfolding rtw_get_ie_def if_not_P [OF lim] rtw_get_ie_loop.simps [of m 16 30] m by simp
  show "rd_block m 32 (length c) = Some c" unfolding m_def by (subst R(2)) (simp_all add: e rd_block_def seg_def)
qed

text \<open>C37: The challenge of a shared-key authentication is copied past the end of its array. A client that waits for
  the second frame copies the body of the challenge element, up to 255 bytes, into \<open>chg_txt\<close>, which has 128: for every
  longer element in a frame to the client with sequence number 2 the copy goes past the end. The frame may come from
  anybody, since neither its sender nor its third address is looked at.\<close>

theorem challenge_overflow:
  assumes "auth_algo a = dot11AuthAlgrthm_Shared" and "mlme_state a AND WIFI_FW_AUTH_STATE \<noteq> 0" and "length (own_addr a) = 6"
    and "length (mi_chg_txt a) = 128" and "length sa = 6" and "length bssid = 6" and "128 < length c" and "length c < 256"
    and "rx_data r = clear_auth (own_addr a) sa bssid n alg 2 (elem_bytes (16, c))" and "rx_len r = of_nat (length (rx_data r))"
  shows "OnAuthClient alloc r a = None"
proof -
  note l = assms(3,5,6)
  have "auth_client_steps alloc (rx_data r) (rx_len r) 2 0 a = None"
    using assms(1,4,7) clear_challenge [OF l assms(8), of n alg] by (simp add: auth_client_steps_def wr_block_def assms(9,10))
  then show ?thesis
    using assms(2) clear_auth_reads [OF l] get_da_clear [OF l] by (simp add: OnAuthClient_def assms(9) Let_def)
qed

section \<open>A concrete client\<close>

definition demo_client :: adapter where
  "demo_client = \<lparr>own_addr = [4, 0, 0, 0, 0, 7], mlme_state = 0, cur_bssid = [2, 0, 0, 0, 0, 1], auth_algo = 1,
     mi_auth_seq = 0, reauth_count = 0, reassoc_count = 0, link_count = 0, link_retry = 0, mi_key_index = 0, mi_iv = 9,
     mi_chg_txt = replicate 128 0, mi_aid = 0, mi_capability = 0, slotTime = 20, mgnt_seq = 7, link_timer = None,
     sec = wep_demo_sec, dot11AuthAlgrthm = 1, xmit_frag_len = 2346,
     acl_list = \<lparr>acl_mode = 0, acl_num = 0, aclnode = [], acl_node_q = []\<rparr>,
     stapriv = init_sta_priv init_macid_ctl demo_cam\<rparr>"

definition demo_beacon :: recv_frame where
  "demo_beacon = wep_demo_rx\<lparr>rx_data := replicate 16 0 @ [2, 0, 0, 0, 0, 1], rx_len := 22\<rparr>"

text \<open>A beacon starts the authentication, which is tried again four times.\<close>

lemma demo_join_run:
  "\<exists>b. link_run [Beacon demo_beacon None, Expiry True None, Expiry True None, Expiry True None, Expiry True None] (start_clnt_join_ess 100 demo_client) = Some (b, []) \<and>
     mlme_state b = 0x202 \<and> undecided b"
  by (simp add: beacon_start_def start_clnt_join_ess_def start_clnt_auth_def
      demo_client_def demo_beacon_def rd_block_def seg_def Let_def issue_auth_def link_timer_hdl_def undecided_def link_consts)

theorem link_decides_witness:
  "\<exists>b. link_run [Beacon demo_beacon None, Expiry True None, Expiry True None, Expiry True None, Expiry True None] (start_clnt_join_ess 100 demo_client) = Some (b, []) \<and>
     link_timer b \<noteq> None"
proof -
  obtain b where b: "link_run [Beacon demo_beacon None, Expiry True None, Expiry True None, Expiry True None, Expiry True None] (start_clnt_join_ess 100 demo_client) = Some (b, [])"
      "undecided b" using demo_join_run by blast
  have "client_ok demo_client" by (simp add: client_ok_def demo_client_def)
  then show ?thesis using link_decides [OF _ b(1)] b by blast
qed

theorem link_reports_once_witness:
  "\<exists>b out. link_run [Expiry True None, Expiry True None] (start_clnt_join_ess 100 demo_client) = Some (b, out) \<and>
     length (filter is_join_res out) = 1"
proof -
  have "\<exists>b. link_run [Expiry True None, Expiry True None] (start_clnt_join_ess 100 demo_client) = Some (b, [Join_res (-3)]) \<and> \<not> undecided b"
    by (simp add: start_clnt_join_ess_def link_timer_hdl_def report_join_res_def undecided_def link_consts)
  then obtain b where b: "link_run [Expiry True None, Expiry True None] (start_clnt_join_ess 100 demo_client) = Some (b, [Join_res (-3)])"
      "\<not> undecided b" by blast
  then show ?thesis using link_reports_once [OF _ b(1)] by auto
qed

theorem challenge_overflow_witness:
  "OnAuthClient None (wep_demo_rx\<lparr>rx_data := clear_auth [4, 0, 0, 0, 0, 7] [6, 0, 0, 0, 0, 6] [6, 0, 0, 0, 0, 6] 0 1 2 (elem_bytes (16, replicate 200 0)),
      rx_len := 232\<rparr>) (demo_client\<lparr>mlme_state := 0x202\<rparr>) = None"
  by (rule challenge_overflow [where sa = "[6, 0, 0, 0, 0, 6]" and bssid = "[6, 0, 0, 0, 0, 6]" and n = 0 and alg = 1 and c = "replicate 200 0"])
    (simp_all add: demo_client_def dot11AuthAlgrthm_Shared_def WIFI_FW_AUTH_STATE_def length_clear_auth)

end
