(* ===== verification/Handshake.thy ===== *)
theory Handshake
  imports ApAuth Link
begin

unbundle bit_operations_syntax

text \<open>
  The two sides of shared-key authentication together: the client of \<open>Link\<close>, the access point of \<open>ApAuth\<close>, and
  between them the WEP encryption of \<open>Wep\<close>. What one side sends, the other receives; with the same key the
  exchange of four frames ends with both sides authenticated.
\<close>

section \<open>The encrypted frame\<close>

text \<open>A received frame with these bytes.\<close>

definition received :: "bytes \<Rightarrow> recv_frame \<Rightarrow> recv_frame" where
  "received m r = r\<lparr>rx_data := m, rx_len := of_nat (length m)\<rparr>"

lemma received_sel [simp]: "rx_data (received m r) = m" "rx_len (received m r) = of_nat (length m)"
  by (simp_all add: received_def)

text \<open>The conditions on the length of a fragment and on the IV.\<close>

definition wep_client :: "adapter \<Rightarrow> bool" where
  "wep_client c \<longleftrightarrow> client_ok c \<and> 32 \<le> unat (xmit_frag_len c) \<and> unat (xmit_frag_len c) < 2 ^ 31 \<and> mi_iv c < 2 ^ 24 \<and>
     mi_key_index c < 4 \<and> dot11PrivacyKeyIndex (sec c) = mi_key_index c"

text \<open>The access point has the client's key at the client's index.\<close>

definition same_key :: "adapter \<Rightarrow> security_priv \<Rightarrow> bool" where
  "same_key c sc \<longleftrightarrow> (let i = unat (mi_key_index c) in
     dot11DefKey sc ! i = dot11DefKey (sec c) ! i \<and> dot11DefKeylen sc ! i = dot11DefKeylen (sec c) ! i)"

lemma key_index_bits:
  assumes "iv < 2 ^ 24" and "k < (4 :: u32)"
  shows "drop_bit 6 (ucast (drop_bit 24 (iv OR push_bit 30 k)) :: u8) AND 3 = ucast k"
proof -
  have "drop_bit 24 iv = 0"
    using assms(1) by (simp add: drop_bit_eq_div word_less_nat_alt word_unat_eq_iff unat_div)
  then have d: "drop_bit 24 (iv OR push_bit 30 k) = drop_bit 24 (push_bit 30 k)" by simp
  have "unat k < 4" using assms(2) by (simp add: word_less_nat_alt)
  then have "unat k \<in> {0, 1, 2, 3}" by auto
  then have "k \<in> {0, 1, 2, 3}" by (auto simp: word_unat_eq_iff)
  then show ?thesis unfolding d by auto
qed

text \<open>
  The third frame on the air and behind the decryption of the access point: \<open>T\<close> are its bytes before
  encryption.
\<close>

lemma third_frame:
  fixes g :: xmit_frame and fl :: u32 and sc :: security_priv
  assumes T: "length T = 164" and rest: "4 \<le> length rest" and b: "buf_addr g = Some (base, replicate 40 0 @ T @ rest)"
    and at: "attrib g = at\<lparr>hdrlen := 24, nr_frags := 1, encrypt := WEP40, iv_len := 4, icv_len := 4, last_txcmdsz := 168\<rparr>"
    and fl: "32 \<le> unat fl" "unat fl < 2 ^ 31"
  defines "m \<equiv> on_air (snd (rtw_wep_encrypt sc fl g))"
  shows "length m = 168" "take 28 m = take 28 T"
    "dot11DefKey rsc ! i = dot11DefKey sc ! unat (dot11PrivacyKeyIndex sc) \<Longrightarrow>
     dot11DefKeylen rsc ! i = dot11DefKeylen sc ! unat (dot11PrivacyKeyIndex sc) \<Longrightarrow>
     rx_hdrlen x = 24 \<Longrightarrow> rx_iv_len x = 4 \<Longrightarrow> rx_encrypt x = WEP40 \<Longrightarrow> unat (rx_key_index x) = i \<Longrightarrow>
     rx_data (snd (rtw_wep_decrypt rsc ((received m r)\<lparr>rx_attrib := x\<rparr>))) = T @ le32_bytes (getcrc32 (drop 28 T))"
proof -
  let ?buf = "replicate 40 0 @ T @ rest" and ?f = "snd (rtw_wep_encrypt sc fl g)"
  have h: "hdrlen (attrib g) = 24" "nr_frags (attrib g) = 1" "encrypt (attrib g) = WEP40" "iv_len (attrib g) = 4"
      "icv_len (attrib g) = 4" "last_txcmdsz (attrib g) = 168" by (simp_all add: at)
  have ll: "frag_length 168 (attrib g) = 136" by (simp add: frag_length_def h)
  have lm: "frag_length fl (attrib g) = fl - 32" by (simp add: frag_length_def h)
  have ulm: "unat (fl - 32) = unat fl - 32" using fl(1) by (simp add: unat_sub word_le_nat_alt)
  have fit: "frags_fit 32 base fl (fl - 32) 136 1 TXDESC_OFFSET (length ?buf)"
    using fl rest T by (simp add: frags_fit_def ulm TXDESC_OFFSET_def)
  obtain buf' where b': "buf_addr ?f = Some (base, buf')" "attrib ?f = attrib g"
      "buf' = each_fragment (wep_encrypt_mpdu (dot11DefKey sc ! unat (dot11PrivacyKeyIndex sc)) (dot11DefKeylen sc ! unat (dot11PrivacyKeyIndex sc)) 24 4)
        base fl (fl - 32) 136 1 TXDESC_OFFSET ?buf"
    using b h by (simp add: rtw_wep_encrypt_def Let_def ll lm)
  have m: "m = seg buf' 40 168" by (simp add: m_def on_air_def b' h TXDESC_OFFSET_def)
  have s0: "seg ?buf 40 168 = T @ take 4 rest" using T by (simp add: seg_def)
  have fit': "frags_fit (24 + 4 + 4) base fl (fl - 32) 136 1 TXDESC_OFFSET (length ?buf)" using fit by simp
  have e: "m = wep_encrypt_mpdu (dot11DefKey sc ! unat (dot11PrivacyKeyIndex sc)) (dot11DefKeylen sc ! unat (dot11PrivacyKeyIndex sc)) 24 4 136 (T @ take 4 rest)"
    using wep.each_fragment_seg_all [OF fit', of 0 136] unfolding m b'(3)
    by (simp add: TXDESC_OFFSET_def s0)
  show len: "length m = 168" and "take 28 m = take 28 T"
    using T rest unfolding e by (simp_all add: wep_encrypt_mpdu_def Let_def case_prod_unfold store_def arcfour_encrypt_stream)
  show "rx_data (snd (rtw_wep_decrypt rsc ((received m r)\<lparr>rx_attrib := x\<rparr>))) = T @ le32_bytes (getcrc32 (drop 28 T))"
    if "dot11DefKey rsc ! i = dot11DefKey sc ! unat (dot11PrivacyKeyIndex sc)"
      "dot11DefKeylen rsc ! i = dot11DefKeylen sc ! unat (dot11PrivacyKeyIndex sc)"
      "rx_hdrlen x = 24" "rx_iv_len x = 4" "rx_encrypt x = WEP40" "unat (rx_key_index x) = i"
  proof -
    have p: "seg ?buf 68 136 = drop 28 T" using T by (simp add: seg_def)
    have "rx_data (snd (rtw_wep_decrypt rsc ((received m r)\<lparr>rx_attrib := x\<rparr>))) =
      (let p = seg ?buf (40 + unat (iv_len (attrib g)) + unat (hdrlen (attrib g))) (unat (136 :: u32))
       in store (seg ?buf 40 168) (unat (iv_len (attrib g)) + unat (hdrlen (attrib g))) (p @ le32_bytes (getcrc32 p)))"
    proof (rule wep_roundtrip [where f = g and sec = sc and fl = fl and i = 0 and l = 136 and n = 168 and start = 40 and base = base and buf' = buf'])
      show "frags_fit (unat (hdrlen (attrib g)) + unat (iv_len (attrib g)) + 4) base fl (frag_length fl (attrib g))
          (frag_length (last_txcmdsz (attrib g)) (attrib g)) (unat (nr_frags (attrib g))) TXDESC_OFFSET (length ?buf)"
        using fit by (simp add: h ll lm)
    qed (use that b b'(1,2) ll lm len in \<open>simp_all add: h m TXDESC_OFFSET_def\<close>)
    moreover have "take 28 T @ drop 28 T @ X = T @ X" for X by (simp flip: append_assoc)
    ultimately show ?thesis using T rest by (simp add: h p s0 store_def Let_def)
  qed
qed

text \<open>What the access point reads of the decrypted frame.\<close>

lemma auth_third_reads:
  fixes c tail
  defines "d \<equiv> auth_third_frame c 0 @ tail"
  assumes c: "length (own_addr c) = 6" "length (cur_bssid c) = 6" "length (mi_chg_txt c) = 128" and seq: "mi_auth_seq c = 3"
  shows "rd_block d 10 6 = Some (own_addr c)" "rd16 d 28 = Some 1" "rd16 d 30 = Some 3"
    "rd d 34 = Some 16" "rd d 35 = Some 128" "rd_block d 36 128 = Some (mi_chg_txt c)"
proof -
  let ?H = "auth_hdr (WIFI_AUTH OR 0x4000) (cur_bssid c) (own_addr c) (cur_bssid c) (mgnt_seq c)"
  let ?iv = "le32_bytes (mi_iv c OR push_bit 30 (mi_key_index c))"
  have d: "d = (?H @ ?iv) @ put_le16 1 @ put_le16 3 @ put_le16 0 @ elem_bytes (16, mi_chg_txt c) @ tail"
    by (simp add: d_def auth_third_frame_def auth_body_def seq)
  have l: "length (?H @ ?iv) = 28" using c by simp
  show "rd_block d 10 6 = Some (own_addr c)" using c by (simp add: d auth_hdr_def rd_block_def seg_def)
  show "rd16 d 28 = Some 1" unfolding d using l rd16_put [of 28 "?H @ ?iv" 1] by simp
  show "rd16 d 30 = Some 3" unfolding d using l rd16_put [of 30 "(?H @ ?iv) @ put_le16 1" 3] by simp
  show "rd d 34 = Some 16" "rd d 35 = Some 128" "rd_block d 36 128 = Some (mi_chg_txt c)"
    unfolding d using l c by (simp_all add: rd_def nth_append elem_bytes_def rd_block_def seg_def)
qed

lemma auth_third_decrypt:
  fixes r :: recv_frame and c :: adapter and g :: xmit_frame and fl :: u32
  assumes c: "length (own_addr c) = 6" "length (cur_bssid c) = 6" "length (mi_chg_txt c) = 128"
    and idx: "mi_iv c < 2 ^ 24" "mi_key_index c < 4" "dot11PrivacyKeyIndex (sec c) = mi_key_index c" and key: "same_key c sc"
    and fl: "32 \<le> unat fl" "unat fl < 2 ^ 31" and rest: "4 \<le> length rest"
    and b: "buf_addr g = Some (base, replicate 40 0 @ auth_third_frame c 0 @ rest)"
    and at: "attrib g = at\<lparr>hdrlen := 24, nr_frags := 1, encrypt := WEP40, iv_len := 4, icv_len := 4, last_txcmdsz := 168\<rparr>"
  defines "r' \<equiv> received (on_air (snd (rtw_wep_encrypt (sec c) fl g))) r"
  shows "\<exists>sc' tail. auth_decrypt sc r' = Some (sc', auth_third_frame c 0 @ tail, 4) \<and> rx_len r' = 168 \<and>
    sc' = sc\<lparr>wep_sw_dec_cnt := wep_sw_dec_cnt sc'\<rparr>"
proof -
  let ?T = "auth_third_frame c 0" and ?m = "rx_data r'"
  have T: "length ?T = 164" by (rule length_auth_third [OF c])
  note F = third_frame [OF T rest b at fl, where sc = "sec c"]
  have m: "length ?m = 168" "take 28 ?m = take 28 ?T" using F(1,2) by (simp_all add: r'_def)
  have iv: "rd ?m 27 = Some (ucast (drop_bit 24 (mi_iv c OR push_bit 30 (mi_key_index c))))"
  proof -
    have "?m ! 27 = take 28 ?m ! 27" by simp
    also have "\<dots> = ?T ! 27" unfolding m(2) by simp
    also have "\<dots> = ucast (drop_bit 24 (mi_iv c OR push_bit 30 (mi_key_index c)))"
      using c by (simp add: auth_third_frame_def nth_append le32_bytes_def)
    finally show ?thesis using m(1) by simp
  qed
  have priv: "GetPrivacy ?m = Some True"
  proof -
    have "rd16 ?m 0 = rd16 (take 28 ?m) 0" using m(1) by (simp add: rd16_def)
    also have "\<dots> = rd16 ?T 0" unfolding m(2) using T by (simp add: rd16_def)
    also have "\<dots> = Some (WIFI_AUTH OR 0x4000)"
      using rd16_put [of 0 "[]" "WIFI_AUTH OR 0x4000"] by (simp add: auth_third_frame_def auth_hdr_def)
    finally show ?thesis by (simp add: GetPrivacy_def WIFI_AUTH_def)
  qed
  let ?x = "(rx_attrib r')\<lparr>rx_hdrlen := 24, rx_encrypt := WEP40, rx_key_index := ucast (mi_key_index c), rx_iv_len := 4, rx_icv_len := 4\<rparr>"
  have ki: "unat (ucast (mi_key_index c) :: u8) = unat (mi_key_index c)"
    using idx(2) by (simp add: unsigned_ucast_eq take_bit_nat_eq_self word_less_nat_alt)
  have data: "rx_data (snd (rtw_wep_decrypt sc (r'\<lparr>rx_attrib := ?x\<rparr>))) = ?T @ le32_bytes (getcrc32 (drop 28 ?T))"
    unfolding r'_def using F(3) [of sc "unat (mi_key_index c)"] key idx(3) ki by (simp add: same_key_def Let_def)
  have len: "rx_len r' = 168" using m(1) by (simp add: r'_def)
  have "fst (rtw_wep_decrypt sc (r'\<lparr>rx_attrib := ?x\<rparr>)) = sc\<lparr>wep_sw_dec_cnt := sw_cnt_inc (rx_ra ?x) (wep_sw_dec_cnt sc)\<rparr>"
    by (simp add: rtw_wep_decrypt_def Let_def case_prod_unfold)
  then show ?thesis
    using priv iv len m(1) data key_index_bits [OF idx(1,2)]
    by (simp add: auth_decrypt_def Let_def case_prod_unfold)
qed

section \<open>The third frame at the access point\<close>

lemma ap_third:
  assumes c: "length (own_addr c) = 6" "length (cur_bssid c) = 6" "length (mi_chg_txt c) = 128" and key: "same_key c (sec a)"
    and seq: "mi_auth_seq c = 3" "mi_iv c < 2 ^ 24" "mi_key_index c < 4" "dot11PrivacyKeyIndex (sec c) = mi_key_index c"
    and a: "mlme_state a AND 3 = WIFI_FW_AP_STATE \<and> auth_mode a \<noteq> 0 \<and> table_ok (own_addr a) (stapriv a) \<and> length (own_addr a) = 6 \<and>
      tab_addr (own_addr c) \<and> rtw_access_ctrl (acl_list a) (own_addr c) \<and> rtw_get_stainfo (stapriv a) (Some (own_addr c)) = Some k \<and>
      auth_seq (stainfo_buf (stapriv a) ! k) = 2 \<and> chg_txt (stainfo_buf (stapriv a) ! k) = mi_chg_txt c \<and>
      authalg (stainfo_buf (stapriv a) ! k) = 1"
    and fl: "32 \<le> unat fl" "unat fl < 2 ^ 31" and g: "4 \<le> length rest"
      "buf_addr g = Some (base, replicate 40 0 @ auth_third_frame c 0 @ rest)"
      "attrib g = at\<lparr>hdrlen := 24, nr_frags := 1, encrypt := WEP40, iv_len := 4, icv_len := 4, last_txcmdsz := 168\<rparr>"
    and f: "mgt_buf f"
  shows "\<exists>a' f'. OnAuth (Some f) (received (on_air (snd (rtw_wep_encrypt (sec c) fl g))) r) a = Some (Success, a', [f']) \<and>
    rtw_get_stainfo (stapriv a') (Some (own_addr c)) = Some k \<and> sta_state (stainfo_buf (stapriv a') ! k) AND WIFI_FW_AUTH_SUCCESS \<noteq> 0 \<and>
    on_air f' = clear_auth (own_addr c) (own_addr a) (own_addr a) (mgnt_seq a) 1 4 []"
proof -
  let ?r = "received (on_air (snd (rtw_wep_encrypt (sec c) fl g))) r"
  obtain sc' tail where d: "auth_decrypt (sec a) ?r = Some (sc', auth_third_frame c 0 @ tail, 4)" "rx_len ?r = 168"
      "sc' = (sec a)\<lparr>wep_sw_dec_cnt := wep_sw_dec_cnt sc'\<rparr>"
    using auth_third_decrypt [OF c seq(2-4) key fl g, of r] by blast
  note D = auth_third_reads [OF c seq(1), of tail]
  let ?a = "a\<lparr>sec := sc'\<rparr>"
  have mode: "auth_mode ?a = auth_mode a" by (subst d(3)) (simp add: auth_mode_def)
  have "OnAuth (Some f) ?r a = auth_steps (Some f) (auth_third_frame c 0 @ tail) 168 (own_addr c) 1 3 ?a"
    using a d(1,2) D by (simp add: OnAuth_def)
  then show ?thesis
    using auth_steps_third [of ?a "own_addr c" f 1 k "mi_chg_txt c" "auth_third_frame c 0 @ tail" 168] a c(3) f mode D
    by (auto simp: clear_auth_def)
qed

section \<open>The steps of the client\<close>

definition same_client :: "adapter \<Rightarrow> adapter \<Rightarrow> bool" where
  "same_client a b \<longleftrightarrow> own_addr b = own_addr a \<and> cur_bssid b = cur_bssid a \<and> auth_algo b = auth_algo a"

lemma client_first:
  assumes "client_ok c" and "mlme_state c = 0x102" and "auth_algo c = dot11AuthAlgrthm_Shared" and "mgt_buf f"
  shows "\<exists>c1 f1 n. start_clnt_auth (Some f) c = Some (c1, [Auth_frame f1]) \<and>
    on_air f1 = clear_auth (cur_bssid c) (own_addr c) (cur_bssid c) n 1 1 [] \<and> same_client c c1 \<and> mlme_state c1 = 0x202 \<and>
    client_ok c1 \<and> sec c1 = sec c \<and> xmit_frag_len c1 = xmit_frag_len c \<and> mi_iv c1 = mi_iv c \<and> mi_key_index c1 = mi_key_index c"
proof -
  obtain base buf where b: "buf_addr f = Some (base, buf)" "208 \<le> length buf"
    using assms(4) by (auto simp: mgt_buf_def split: option.splits)
  let ?c = "c\<lparr>link_timer := None, mlme_state := 0x202, mi_auth_seq := 1, reauth_count := 0, reassoc_count := 0, link_count := 0, link_retry := 0\<rparr>"
  have st: "mlme_state c AND NOT WIFI_FW_AUTH_NULL OR WIFI_FW_AUTH_STATE = 0x202" using assms(2) by (simp add: fw_state_defs)
  show ?thesis
    using issue_auth_request [OF b, of ?c 0] assms(1,3)
    by (auto simp: start_clnt_auth_def Let_def st client_ok_def same_client_def clear_auth_def)
qed

lemma client_second:
  fixes c :: adapter and r :: recv_frame and n alg :: u16 and sa bssid ch :: bytes
  assumes c: "client_ok c" and st: "mlme_state c AND WIFI_FW_AUTH_STATE \<noteq> 0" and sh: "auth_algo c = dot11AuthAlgrthm_Shared"
    and l: "length sa = 6" "length bssid = 6" and ch: "length ch = 128" and f: "mgt_buf f"
  defines "r' \<equiv> received (clear_auth (own_addr c) sa bssid n alg 2 (elem_bytes (16, ch))) r"
    and "c' \<equiv> c\<lparr>mi_chg_txt := ch, mi_auth_seq := 3\<rparr>"
  shows "\<exists>g base rest c2. OnAuthClient (Some f) r' c = Some (Success, c2, [Auth_frame (snd (rtw_wep_encrypt (sec c) (xmit_frag_len c) g))]) \<and>
    attrib g = (attrib f)\<lparr>hdrlen := 24, nr_frags := 1, encrypt := WEP40, iv_len := 4, icv_len := 4, last_txcmdsz := 168\<rparr> \<and>
    buf_addr g = Some (base, replicate 40 0 @ auth_third_frame c' 0 @ rest) \<and> 4 \<le> length rest \<and>
    same_client c c2 \<and> mlme_state c2 = mlme_state c"
proof -
  obtain base buf where b: "buf_addr f = Some (base, buf)" "208 \<le> length buf"
    using f by (auto simp: mgt_buf_def split: option.splits)
  have own: "length (own_addr c) = 6" "length (cur_bssid c) = 6" "length (mi_chg_txt c) = 128" using c by (simp_all add: client_ok_def)
  let ?m = "clear_auth (own_addr c) sa bssid n alg 2 (elem_bytes (16, ch))"
  have "length ch < 256" using ch by simp
  note C = clear_challenge [OF own(1) l this, of n alg] and R = clear_auth_reads [OF own(1) l] and D = get_da_clear [OF own(1) l]
  have w: "wr_block (mi_chg_txt c) 0 ch = Some ch" using own(3) ch by (simp add: store_def)
  obtain g rest where G: "attrib g = (attrib f)\<lparr>hdrlen := 24, nr_frags := 1, encrypt := WEP40, iv_len := 4, icv_len := 4, last_txcmdsz := 168\<rparr>"
      "buf_addr g = Some (base, replicate 40 0 @ auth_third_frame c' 0 @ rest)" "4 \<le> length rest"
      "issue_auth (Some f) None 0 c' = (let (sc, f') = rtw_wep_encrypt (sec c') (xmit_frag_len c') g
         in Some (c'\<lparr>mgnt_seq := mgnt_seq c' + 1, mi_iv := mi_iv c' + 1, sec := sc\<rparr>, [f']))"
    using issue_auth_third [OF b, of c' 0] own st sh ch by (auto simp: c'_def)
  let ?sc = "fst (rtw_wep_encrypt (sec c) (xmit_frag_len c) g)" and ?f' = "snd (rtw_wep_encrypt (sec c) (xmit_frag_len c) g)"
  have i: "issue_auth (Some f) None 0 c' = Some (c'\<lparr>mgnt_seq := mgnt_seq c + 1, mi_iv := mi_iv c + 1, sec := ?sc\<rparr>, [?f'])"
    using G(4) by (simp add: c'_def Let_def case_prod_unfold)
  have "auth_client_steps (Some f) ?m (of_nat (length ?m)) 2 0 c =
      Some (Success, c'\<lparr>mgnt_seq := mgnt_seq c + 1, mi_iv := mi_iv c + 1, sec := ?sc, link_timer := Some REAUTH_TO\<rparr>, [Auth_frame ?f'])"
    using sh C ch w i unfolding c'_def by (simp add: auth_client_steps_def)
  then have "OnAuthClient (Some f) r' c =
      Some (Success, c'\<lparr>mgnt_seq := mgnt_seq c + 1, mi_iv := mi_iv c + 1, sec := ?sc, link_timer := Some REAUTH_TO\<rparr>, [Auth_frame ?f'])"
    using st by (simp add: OnAuthClient_def r'_def D R Let_def)
  moreover have "same_client c (c'\<lparr>mgnt_seq := mgnt_seq c + 1, mi_iv := mi_iv c + 1, sec := ?sc, link_timer := Some REAUTH_TO\<rparr>)"
    by (simp add: same_client_def c'_def)
  ultimately show ?thesis using G(1-3)
    by (intro exI [of _ g] exI [of _ base] exI [of _ rest]
        exI [of _ "c'\<lparr>mgnt_seq := mgnt_seq c + 1, mi_iv := mi_iv c + 1, sec := ?sc, link_timer := Some REAUTH_TO\<rparr>"]) (simp add: c'_def)
qed

lemma client_fourth:
  assumes "mlme_state c = 0x202" and "auth_algo c = dot11AuthAlgrthm_Shared"
    and l: "length (own_addr c) = 6" "length sa = 6" "length bssid = 6"
  shows "\<exists>c3. OnAuthClient alloc (received (clear_auth (own_addr c) sa bssid n alg 4 []) r) c = Some (Success, c3, [Assoc_req]) \<and>
    mlme_state c3 = 0x2402"
  using assms(1,2) clear_auth_reads [OF l] get_da_clear [OF l]
  by (simp add: OnAuthClient_def Let_def auth_client_steps_def start_clnt_assoc_def fw_state_defs)

section \<open>The exchange\<close>

text \<open>C14: Shared-key authentication of a client of this driver at an access point of this driver, with the same
  WEP key on both sides. The client starts it when it hears the network; each frame is what the other side sent, as bytes
  on the air, and the third is encrypted by \<open>rtw_wep_encrypt\<close> and decrypted by \<open>rtw_wep_decrypt\<close>. All four
  frames are accepted, the access point has an authenticated station for the client, and the client goes on
  to associate.\<close>

theorem shared_key_handshake:
  assumes "wep_client c" and "mlme_state c = 0x102" and "auth_algo c = dot11AuthAlgrthm_Shared"
    and "mlme_state a AND 3 = WIFI_FW_AP_STATE" and "auth_mode a \<noteq> 0" and "table_ok (own_addr a) (stapriv a)"
    and "cur_bssid c = own_addr a" and "tab_addr (own_addr c)" and "same_key c (sec a)"
    and "rtw_get_stainfo (stapriv a) (Some (own_addr c)) = None" and "free_sta_queue (stapriv a) \<noteq> []"
    and "rtw_access_ctrl (acl_list a) (own_addr c)" and "mgt_buf b1" and "mgt_buf b2" and "mgt_buf b3" and "mgt_buf b4"
  shows "\<exists>c1 f1 a1 f2 c2 f3 a2 f4 c3 k.
    start_clnt_auth (Some b1) c = Some (c1, [Auth_frame f1]) \<and>
    OnAuth (Some b2) (received (on_air f1) r) a = Some (Success, a1, [f2]) \<and>
    OnAuthClient (Some b3) (received (on_air f2) r) c1 = Some (Success, c2, [Auth_frame f3]) \<and>
    OnAuth (Some b4) (received (on_air f3) r) a1 = Some (Success, a2, [f4]) \<and>
    OnAuthClient alloc (received (on_air f4) r) c2 = Some (Success, c3, [Assoc_req]) \<and>
    rtw_get_stainfo (stapriv a2) (Some (own_addr c)) = Some k \<and>
    sta_state (stainfo_buf (stapriv a2) ! k) AND WIFI_FW_AUTH_SUCCESS \<noteq> 0 \<and> mlme_state c3 = 0x2402"
proof -
  let ?own = "own_addr a" and ?sa = "own_addr c" and ?ch = "replicate 128 (78 :: u8)"
  have wc: "client_ok c" "32 \<le> unat (xmit_frag_len c)" "unat (xmit_frag_len c) < 2 ^ 31" "mi_iv c < 2 ^ 24" "mi_key_index c < 4"
      "dot11PrivacyKeyIndex (sec c) = mi_key_index c" using assms(1) by (simp_all add: wep_client_def)
  have l: "length ?own = 6" "length ?sa = 6" using wc(1) assms(7) by (simp_all add: client_ok_def)
  obtain c1 f1 n where 1: "start_clnt_auth (Some b1) c = Some (c1, [Auth_frame f1])" "on_air f1 = clear_auth ?own ?sa ?own n 1 1 []"
      "same_client c c1" "mlme_state c1 = 0x202" "client_ok c1" "sec c1 = sec c" "xmit_frag_len c1 = xmit_frag_len c" "mi_iv c1 = mi_iv c"
      "mi_key_index c1 = mi_key_index c"
    using client_first [OF wc(1) assms(2,3,13)] unfolding assms(7) by blast
  have s1: "own_addr c1 = ?sa" "auth_algo c1 = dot11AuthAlgrthm_Shared" "cur_bssid c1 = ?own"
    using 1(3) assms(3,7) by (simp_all add: same_client_def)
  obtain a1 f2 k where 2: "OnAuth (Some b2) (received (on_air f1) r) a = Some (Success, a1, [f2])" "ap_same a a1"
      "table_ok ?own (stapriv a1)" "rtw_get_stainfo (stapriv a1) (Some ?sa) = Some k" "auth_seq (stainfo_buf (stapriv a1) ! k) = 2"
      "chg_txt (stainfo_buf (stapriv a1) ! k) = ?ch" "authalg (stainfo_buf (stapriv a1) ! k) = 1"
      "on_air f2 = clear_auth ?sa ?own ?own (mgnt_seq a) 1 2 (elem_bytes (16, ?ch))"
    using OnAuth_first [OF assms(4,5,6) l(1) assms(8,10,11,12,14), of 1 "received (on_air f1) r" n "[]"] by (auto simp: 1(2))
  have st: "mlme_state c1 AND WIFI_FW_AUTH_STATE \<noteq> 0" by (simp add: 1(4) fw_state_defs)
  obtain g base rest c2 f3 where 3: "OnAuthClient (Some b3) (received (on_air f2) r) c1 = Some (Success, c2, [Auth_frame f3])"
      "f3 = snd (rtw_wep_encrypt (sec c) (xmit_frag_len c) g)"
      "attrib g = (attrib b3)\<lparr>hdrlen := 24, nr_frags := 1, encrypt := WEP40, iv_len := 4, icv_len := 4, last_txcmdsz := 168\<rparr>"
      "buf_addr g = Some (base, replicate 40 0 @ auth_third_frame (c1\<lparr>mi_chg_txt := ?ch, mi_auth_seq := 3\<rparr>) 0 @ rest)"
      "4 \<le> length rest" "same_client c1 c2" "mlme_state c2 = 0x202"
    using client_second [OF 1(5) st s1(2) l(1,1) _ assms(15), of ?ch "mgnt_seq a" 1 r] unfolding 2(8) s1(1) 1(4,6,7) by auto
  let ?c' = "c1\<lparr>mi_chg_txt := ?ch, mi_auth_seq := 3\<rparr>"
  have same: "mlme_state a1 AND 3 = WIFI_FW_AP_STATE" "own_addr a1 = ?own" "rtw_access_ctrl (acl_list a1) ?sa" "sec a1 = sec a"
    using 2(2) assms(4,12) by (simp_all add: ap_same_def)
  have key: "same_key ?c' (sec a1)" using assms(9) 1(6,9) same(4) by (simp add: same_key_def)
  obtain a2 f4 where 5: "OnAuth (Some b4) (received (on_air f3) r) a1 = Some (Success, a2, [f4])"
      "rtw_get_stainfo (stapriv a2) (Some ?sa) = Some k" "sta_state (stainfo_buf (stapriv a2) ! k) AND WIFI_FW_AUTH_SUCCESS \<noteq> 0"
      "on_air f4 = clear_auth ?sa ?own ?own (mgnt_seq a1) 1 4 []"
    using ap_third [OF _ _ _ key _ _ _ _ _ wc(2,3) 3(5,4,3) assms(16), of k r] l s1 1(6,8,9) wc(4-6) same 2 assms(5,8) ap_same_mode [OF 2(2)]
    by (auto simp: 3(2))
  have s2: "own_addr c2 = ?sa" "auth_algo c2 = dot11AuthAlgrthm_Shared" using 3(6) s1 by (simp_all add: same_client_def)
  obtain c3 where 6: "OnAuthClient alloc (received (on_air f4) r) c2 = Some (Success, c3, [Assoc_req])" "mlme_state c3 = 0x2402"
    using client_fourth [OF 3(7) s2(2) _ l(1,1), of alloc "mgnt_seq a1" 1 r] l(2) unfolding 5(4) s2(1) by blast
  show ?thesis using 1(1) 2(1) 3(1) 5(1-3) 6 by blast
qed

theorem shared_key_handshake_witness:
  "\<exists>c1 f1 a1 f2 c2 f3 a2 f4 c3 k.
    start_clnt_auth (Some demo_buf) (demo_client\<lparr>mlme_state := 0x102\<rparr>) = Some (c1, [Auth_frame f1]) \<and>
    OnAuth (Some demo_buf) (received (on_air f1) wep_demo_rx) (demo_ap 1 demo_table) = Some (Success, a1, [f2]) \<and>
    OnAuthClient (Some demo_buf) (received (on_air f2) wep_demo_rx) c1 = Some (Success, c2, [Auth_frame f3]) \<and>
    OnAuth (Some demo_buf) (received (on_air f3) wep_demo_rx) a1 = Some (Success, a2, [f4]) \<and>
    OnAuthClient None (received (on_air f4) wep_demo_rx) c2 = Some (Success, c3, [Assoc_req]) \<and>
    rtw_get_stainfo (stapriv a2) (Some demo_sa) = Some k \<and>
    sta_state (stainfo_buf (stapriv a2) ! k) AND WIFI_FW_AUTH_SUCCESS \<noteq> 0 \<and> mlme_state c3 = 0x2402"
proof -
  let ?c = "demo_client\<lparr>mlme_state := 0x102\<rparr>" and ?a = "demo_ap 1 demo_table"
  have c: "wep_client ?c" "mlme_state ?c = 0x102" "auth_algo ?c = dot11AuthAlgrthm_Shared" "cur_bssid ?c = own_addr ?a" "own_addr ?c = demo_sa"
    by (simp_all add: wep_client_def client_ok_def demo_client_def dot11AuthAlgrthm_Shared_def wep_demo_sec_def Let_def word_less_nat_alt)
  have "same_key ?c (sec ?a)" by (simp add: same_key_def demo_client_def demo_ap_def)
  from shared_key_handshake [OF c(1-3) _ _ _ c(4) _ this, of demo_buf demo_buf demo_buf demo_buf wep_demo_rx None]
  show ?thesis using demo_table_facts(1) demo_table_facts(2) [of demo_sa] demo_table_facts(3) unfolding c(5) by simp
qed

end
