(* ===== verification/ScanQueue.thy ===== *)
theory ScanQueue
  imports Attrs StaMgt "HOL-Library.Signed_Division"
begin

unbundle bit_operations_syntax

text \<open>
  The table of networks a scan has found (\<open>core/rtw_mlme.c\<close>): 128 structures \<open>struct wlan_network\<close>, each on the
  queue \<open>scanned_queue\<close> or on \<open>free_bss_pool\<close>. A report of a beacon or probe response
  (\<open>rtw_survey_event_callback\<close>, \<open>rtw_add_network\<close>, \<open>rtw_update_scanned_network\<close>) refreshes the entry of the same
  network, takes a free structure, or overwrites the entry heard longest ago; \<open>_rtw_free_network_queue\<close>,
  \<open>free_scanqueue\<close> and \<open>rtw_free_assoc_resources\<close> give entries back. A structure is named by its
  index. The table is refined to a map from networks to what was last heard of them.
\<close>

section \<open>State\<close>

text \<open>
  The rest of the structure of \<open>BuildIe\<close>: \<open>bss_frame_type\<close> is \<open>Reserved[0]\<close>, the kind of frame the description
  comes from. \<open>Rssi\<close> is a \<open>long\<close> with a signal strength in dBm. Fields that are only copied along are left
  out.
\<close>

record scan_bss = wlan_bssid_ex +
  bss_Length :: u32
  bss_MacAddress :: bytes
  bss_frame_type :: u8
  bss_Rssi :: int
  bss_InfrastructureMode :: int
  bss_SignalStrength :: u8
  bss_SignalQuality :: u8

record scan_node =
  sn_network_type :: int
  sn_fixed :: bool
  sn_last_scanned :: u32
  sn_aid :: int
  sn_join_res :: int
  sn_network :: scan_bss

text \<open>The kernel's clock: \<open>jiffies\<close>, \<open>jiffies_to_msecs\<close> and \<open>time_after\<close>.\<close>

record os_time =
  jiffies :: u32
  jiffies_to_msecs :: "u32 \<Rightarrow> u32"
  time_after :: "u32 \<Rightarrow> u32 \<Rightarrow> bool"

text \<open>
  The fields of \<open>struct mlme_priv\<close>, with those of the adapter the functions consult: the registry's \<open>wifi_spec\<close>
  and \<open>vcs_type\<close>, whether the chip offers Miracast, whether Wi-Fi Direct is on, the receive path's signal
  figures, the transmit path's protection mode, the security settings and the station table.
  \<open>scanned_queue_lock\<close> counts how often the queue's lock is taken.
\<close>

record mlme_priv =
  bss_buf :: "scan_node list"
  free_bss_pool :: "nat list"
  scanned_queue :: "nat list"
  num_of_scanned :: u32
  scanned_queue_lock :: int
  fw_state :: u32
  cur_network :: scan_node
  cur_network_scanned :: "nat option"
  roam_network :: "nat option"
  need_to_roam :: bool
  to_roam :: u8
  roam_tgt_addr :: bytes
  roam_scanr_exp_ms :: u32
  roam_rssi_diff_th :: u8
  assoc_by_bssid :: bool
  assoc_bssid :: bytes
  assoc_ssid :: bytes
  assoc_ssid_len :: u32
  wifi_spec :: u8
  wl_func_miracast :: bool
  p2p_on :: bool
  rx_signal_strength :: u8
  rx_signal_qual :: u8
  vcs_setting :: nat
  vcs_type :: nat
  vcs :: nat
  sec_encryptstatus :: int
  sec_authtype :: int
  scan_own :: bytes
  scan_hw_ap :: bool
  scan_stapriv :: sta_priv

definition MAX_BSS_CNT :: nat where "MAX_BSS_CNT = 128"
definition SCANQUEUE_LIFETIME :: u32 where "SCANQUEUE_LIFETIME = 20000"
definition WIFI_ASOC_STATE :: u32 where "WIFI_ASOC_STATE = 0x001"
definition WIFI_STATION_STATE :: u32 where "WIFI_STATION_STATE = 0x008"
definition WIFI_ADHOC_STATE :: u32 where "WIFI_ADHOC_STATE = 0x020"
definition WIFI_ADHOC_MASTER_STATE :: u32 where "WIFI_ADHOC_MASTER_STATE = 0x040"
definition WIFI_UNDER_LINKING :: u32 where "WIFI_UNDER_LINKING = 0x080"
definition WIFI_UNDER_WPS :: u32 where "WIFI_UNDER_WPS = 0x100"

lemmas fw_consts = WIFI_ASOC_STATE_def WIFI_STATION_STATE_def WIFI_ADHOC_STATE_def WIFI_ADHOC_MASTER_STATE_def
  WIFI_UNDER_LINKING_def WIFI_UNDER_WPS_def

definition check_fwstate :: "mlme_priv \<Rightarrow> u32 \<Rightarrow> bool" where
  "check_fwstate m state \<longleftrightarrow> state = 0 \<and> fw_state m = 0 \<or> fw_state m AND state \<noteq> 0"

definition passing_time_ms :: "os_time \<Rightarrow> u32 \<Rightarrow> u32" where
  "passing_time_ms t start = jiffies_to_msecs t (jiffies t - start)"

abbreviation bss_at :: "mlme_priv \<Rightarrow> nat \<Rightarrow> scan_bss" where
  "bss_at m i \<equiv> sn_network (bss_buf m ! i)"

definition on_node :: "nat \<Rightarrow> (scan_node \<Rightarrow> scan_node) \<Rightarrow> mlme_priv \<Rightarrow> mlme_priv" where
  "on_node i f m = m\<lparr>bss_buf := (bss_buf m)[i := f (bss_buf m ! i)]\<rparr>"

section \<open>Structures\<close>

text \<open>The pool as \<open>_rtw_init_mlme_priv\<close> makes it; \<open>buf\<close> is the memory, when there was some.\<close>

definition init_bss_pool :: "scan_node list option \<Rightarrow> mlme_priv \<Rightarrow> result \<times> mlme_priv" where
  "init_bss_pool buf m =
     (let m = m\<lparr>free_bss_pool := [], scanned_queue := [], num_of_scanned := 0\<rparr>
      in case buf of None \<Rightarrow> (Fail, m)
         | Some buf \<Rightarrow> (Success, m\<lparr>bss_buf := buf, free_bss_pool := [0..<MAX_BSS_CNT]\<rparr>))"

definition rtw_alloc_network :: "os_time \<Rightarrow> mlme_priv \<Rightarrow> nat option \<times> mlme_priv" where
  "rtw_alloc_network t m =
     (case free_bss_pool m of
        [] \<Rightarrow> (None, m)
      | i # rest \<Rightarrow>
          (Some i, (on_node i (\<lambda>n. n\<lparr>sn_network_type := 0, sn_fixed := False, sn_last_scanned := jiffies t, sn_aid := 0,
             sn_join_res := 0\<rparr>) m)\<lparr>free_bss_pool := rest, num_of_scanned := num_of_scanned m + 1\<rparr>))"

text \<open>A structure is taken off the queue it is on and put at the end of the pool.\<close>

definition pool_node :: "nat \<Rightarrow> mlme_priv \<Rightarrow> mlme_priv" where
  "pool_node i m = m\<lparr>scanned_queue := removeAll i (scanned_queue m),
     free_bss_pool := removeAll i (free_bss_pool m) @ [i], num_of_scanned := num_of_scanned m - 1\<rparr>"

definition scan_lifetime :: "mlme_priv \<Rightarrow> u32" where
  "scan_lifetime m =
     (if check_fwstate m WIFI_ADHOC_MASTER_STATE \<or> check_fwstate m WIFI_ADHOC_STATE then 1 else SCANQUEUE_LIFETIME)"

definition rtw_free_network :: "os_time \<Rightarrow> bool \<Rightarrow> nat option \<Rightarrow> mlme_priv \<Rightarrow> mlme_priv" where
  "rtw_free_network t isfreeall pnetwork m =
     (case pnetwork of
        None \<Rightarrow> m
      | Some i \<Rightarrow>
          if sn_fixed (bss_buf m ! i) then m
          else if \<not> isfreeall \<and> passing_time_ms t (sn_last_scanned (bss_buf m ! i)) < scan_lifetime m then m
          else pool_node i m)"

definition rtw_free_network_nolock :: "nat option \<Rightarrow> mlme_priv \<Rightarrow> mlme_priv" where
  "rtw_free_network_nolock pnetwork m =
     (case pnetwork of
        None \<Rightarrow> m
      | Some i \<Rightarrow> if sn_fixed (bss_buf m ! i) then m else pool_node i m)"

definition rtw_free_network_queue :: "os_time \<Rightarrow> bool \<Rightarrow> mlme_priv \<Rightarrow> mlme_priv" where
  "rtw_free_network_queue t isfreeall m = fold (\<lambda>i. rtw_free_network t isfreeall (Some i)) (scanned_queue m) m"

definition free_scanqueue :: "mlme_priv \<Rightarrow> mlme_priv" where
  "free_scanqueue m = fold pool_node (scanned_queue m) m"

definition rtw_find_network :: "mlme_priv \<Rightarrow> bytes \<Rightarrow> nat option" where
  "rtw_find_network m addr =
     (if take 6 addr = replicate 6 0 then None
      else List.find (\<lambda>i. take 6 addr = bss_MacAddress (bss_at m i)) (scanned_queue m))"

text \<open>An entry that must stay is passed over.\<close>

definition older :: "os_time \<Rightarrow> mlme_priv \<Rightarrow> nat option \<Rightarrow> nat \<Rightarrow> nat option" where
  "older t m oldest i =
     (case oldest of
        None \<Rightarrow> Some i
      | Some j \<Rightarrow> if time_after t (sn_last_scanned (bss_buf m ! j)) (sn_last_scanned (bss_buf m ! i)) then Some i else oldest)"

definition rtw_get_oldest_wlan_network :: "os_time \<Rightarrow> mlme_priv \<Rightarrow> nat option" where
  "rtw_get_oldest_wlan_network t m =
     foldl (\<lambda>oldest i. if sn_fixed (bss_buf m ! i) then oldest else older t m oldest i) None (scanned_queue m)"

section \<open>The same network\<close>

definition rtw_get_capability :: "scan_bss \<Rightarrow> u16" where
  "rtw_get_capability b = le16 (bss_IEs b ! 10) (bss_IEs b ! 11)"

definition is_same_ess :: "scan_bss \<Rightarrow> scan_bss \<Rightarrow> bool" where
  "is_same_ess a b \<longleftrightarrow> bss_SsidLength a = bss_SsidLength b \<and>
     take (unat (bss_SsidLength a)) (bss_Ssid a) = take (unat (bss_SsidLength a)) (bss_Ssid b)"

text \<open>\<open>feature\<close> is 1 when Wi-Fi Direct is on. The capabilities compared are those of an infrastructure and an ad-hoc network.\<close>

definition is_same_network :: "scan_bss \<Rightarrow> scan_bss \<Rightarrow> u8 \<Rightarrow> bool" where
  "is_same_network src dst feature =
     (let s_cap = rtw_get_capability src; d_cap = rtw_get_capability dst
      in if feature = 1 \<and> bss_MacAddress src = bss_MacAddress dst then True
         else bss_SsidLength src = bss_SsidLength dst \<and> bss_MacAddress src = bss_MacAddress dst \<and>
              take (unat (bss_SsidLength src)) (bss_Ssid src) = take (unat (bss_SsidLength src)) (bss_Ssid dst) \<and>
              s_cap AND 2 = d_cap AND 2 \<and> s_cap AND 1 = d_cap AND 1)"

definition rtw_find_same_network :: "mlme_priv \<Rightarrow> scan_bss \<Rightarrow> nat option" where
  "rtw_find_same_network m network = List.find (\<lambda>i. is_same_network network (bss_at m i) 0) (scanned_queue m)"

section \<open>A report of a network\<close>

text \<open>
  \<open>_rtw_memcpy\<close> of a description with the elements it has: those behind them stay. \<open>None\<close>: the copy leaves the
  structure.
\<close>

definition copy_bss :: "scan_bss \<Rightarrow> scan_bss \<Rightarrow> scan_bss option" where
  "copy_bss dst src = do {
     d \<leftarrow> rd_block (bss_IEs src) 0 (unat (bss_IELength src));
     ies \<leftarrow> wr_block (bss_IEs dst) 0 d;
     Some (src\<lparr>bss_IEs := ies\<rparr>) }"

text \<open>The size of the structure with its elements, where a \<open>long\<close> has four bytes.\<close>

definition get_WLAN_BSSID_EX_sz :: "scan_bss \<Rightarrow> u32" where
  "get_WLAN_BSSID_EX_sz b = 888 - 768 + bss_IELength b"

text \<open>One fifth of the sample, four fifths of the history; the signal quality 101 marks a frame from another channel.\<close>

definition smooth_u8 :: "u8 \<Rightarrow> u8 \<Rightarrow> u8" where
  "smooth_u8 smp ori = ucast ((ucast smp + ucast ori * 4 :: u32) div 5)"

definition smooth_rssi :: "int \<Rightarrow> int \<Rightarrow> int" where
  "smooth_rssi smp ori = (smp + ori * 4) sdiv 5"

definition final_signal :: "mlme_priv \<Rightarrow> scan_bss \<Rightarrow> scan_bss \<Rightarrow> u8 \<times> u8 \<times> int" where
  "final_signal m dst src =
     (let sq_smp = bss_SignalQuality src
      in if check_fwstate m WIFI_ASOC_STATE \<and> is_same_network (sn_network (cur_network m)) src 0
         then (rx_signal_strength m, rx_signal_qual m,
               if sq_smp \<noteq> 101 then smooth_rssi (bss_Rssi src) (bss_Rssi dst) else bss_Rssi dst)
         else if sq_smp \<noteq> 101
         then (smooth_u8 (bss_SignalStrength src) (bss_SignalStrength dst),
               smooth_u8 (bss_SignalQuality src) (bss_SignalQuality dst), smooth_rssi (bss_Rssi src) (bss_Rssi dst))
         else (bss_SignalStrength dst, bss_SignalQuality dst, bss_Rssi dst))"

definition put_signal :: "u8 \<times> u8 \<times> int \<Rightarrow> scan_bss \<Rightarrow> scan_bss" where
  "put_signal s b = b\<lparr>bss_SignalStrength := fst s, bss_SignalQuality := fst (snd s), bss_Rssi := snd (snd s)\<rparr>"

definition update_network :: "mlme_priv \<Rightarrow> scan_bss \<Rightarrow> scan_bss \<Rightarrow> bool \<Rightarrow> scan_bss option" where
  "update_network m dst src update_ie =
     map_option (put_signal (final_signal m dst src)) (if update_ie then copy_bss dst src else Some dst)"

text \<open>
  The search of \<open>rtw_update_scanned_network\<close>: the entry found, or the one heard longest ago.
\<close>

primrec scan_search :: "os_time \<Rightarrow> mlme_priv \<Rightarrow> scan_bss \<Rightarrow> nat option \<Rightarrow> nat list \<Rightarrow> nat option \<times> nat option" where
  "scan_search t m target oldest [] = (None, oldest)"
| "scan_search t m target oldest (i # is) =
     (if p2p_on m \<and> bss_MacAddress (bss_at m i) = bss_MacAddress target then (Some i, oldest)
      else if is_same_network (bss_at m i) target (if p2p_on m then 1 else 0) then (Some i, oldest)
      else scan_search t m target (older t m oldest i) is)"

definition right_channel :: "scan_bss \<Rightarrow> scan_bss" where
  "right_channel b = (if bss_SignalQuality b = 101 then b\<lparr>bss_SignalQuality := 0\<rparr> else b)"

definition evict_node :: "os_time \<Rightarrow> scan_bss \<Rightarrow> nat \<Rightarrow> mlme_priv \<Rightarrow> mlme_priv option" where
  "evict_node t target i m = do {
     b \<leftarrow> copy_bss (bss_at m i) target;
     Some (on_node i (\<lambda>n. n\<lparr>sn_network := right_channel b, sn_fixed := False, sn_last_scanned := jiffies t,
       sn_network_type := 0, sn_aid := 0, sn_join_res := 0\<rparr>) m) }"

definition add_node :: "os_time \<Rightarrow> scan_bss \<Rightarrow> mlme_priv \<Rightarrow> mlme_priv option" where
  "add_node t target m =
     (case rtw_alloc_network t m of
        (None, m) \<Rightarrow> Some m
      | (Some i, m) \<Rightarrow> do {
          b \<leftarrow> copy_bss (bss_at m i) (target\<lparr>bss_Length := get_WLAN_BSSID_EX_sz target\<rparr>);
          let m = on_node i (\<lambda>n. n\<lparr>sn_network := right_channel b, sn_last_scanned := jiffies t\<rparr>) m;
          Some (m\<lparr>scanned_queue := scanned_queue m @ [i]\<rparr>) })"

definition refresh_node :: "os_time \<Rightarrow> scan_bss \<Rightarrow> nat \<Rightarrow> mlme_priv \<Rightarrow> mlme_priv option" where
  "refresh_node t target i m =
     (let m = on_node i (\<lambda>n. n\<lparr>sn_last_scanned := jiffies t\<rparr>) m;
          update_ie = True;
          update_ie = (if bss_IELength target < bss_IELength (bss_at m i) \<and> bss_frame_type target = 1 then False else update_ie);
          update_ie = (if bss_frame_type target \<noteq> 2 \<and> bss_frame_type (bss_at m i) \<le> bss_frame_type target then True else False)
      in do {
        b \<leftarrow> update_network m (bss_at m i) target update_ie;
        Some (on_node i (\<lambda>n. n\<lparr>sn_network := b\<rparr>) m) })"

definition rtw_update_scanned_network :: "os_time \<Rightarrow> scan_bss \<Rightarrow> mlme_priv \<Rightarrow> mlme_priv option" where
  "rtw_update_scanned_network t target m =
     (case scan_search t m target None (scanned_queue m) of
        (None, oldest) \<Rightarrow>
          if free_bss_pool m = []
          then (case oldest of None \<Rightarrow> Some m | Some i \<Rightarrow> evict_node t target i m)
          else add_node t target m
      | (Some i, oldest) \<Rightarrow> refresh_node t target i m)"

text \<open>The network the client is joined to. \<open>rtw_update_protection\<close> reads its ERP element.\<close>

definition protection_vcs :: "bytes \<Rightarrow> nat \<Rightarrow> u32 \<Rightarrow> mlme_priv \<Rightarrow> nat option" where
  "protection_vcs buf ie ie_len m =
     (if vcs_setting m = 0 then Some 0
      else if vcs_setting m = 1 then Some (vcs m)
      else do {
        (perp, erp_len) \<leftarrow> rtw_get_ie buf ie 42 0 (sint ie_len);
        case perp of
          None \<Rightarrow> Some 0
        | Some p \<Rightarrow> do {
            v \<leftarrow> rd buf (p + 2);
            Some (if v AND 2 \<noteq> 0 then (if vcs_type m = 1 then 1 else 2) else 0) } })"

definition rtw_update_protection :: "bytes \<Rightarrow> nat \<Rightarrow> u32 \<Rightarrow> mlme_priv \<Rightarrow> mlme_priv option" where
  "rtw_update_protection buf ie ie_len m = map_option (\<lambda>v. m\<lparr>vcs := v\<rparr>) (protection_vcs buf ie ie_len m)"

definition update_current_network :: "scan_bss \<Rightarrow> mlme_priv \<Rightarrow> mlme_priv option" where
  "update_current_network b m =
     (if check_fwstate m WIFI_ASOC_STATE \<and> is_same_network (sn_network (cur_network m)) b 0
      then do {
        c \<leftarrow> update_network m (sn_network (cur_network m)) b True;
        rtw_update_protection (bss_IEs c) 12 (bss_IELength c) (m\<lparr>cur_network := (cur_network m)\<lparr>sn_network := c\<rparr>\<rparr>) }
      else Some m)"

text \<open>
  The elements of the report lose the Wi-Fi Direct attribute 14 (\<open>P2P_ATTR_GROUP_INFO\<close>) and, without Miracast, the Wi-Fi Display
  elements. \<open>None\<close>: the functions leave the array or, as \<open>Attrs\<close> shows for attributes, do not return.
\<close>

definition bss_kind :: "scan_bss \<Rightarrow> bss_type" where
  "bss_kind b = (if bss_frame_type b = 2 then BSS_TYPE_PROB_REQ else BSS_TYPE_BCN)"

definition with_elements :: "scan_bss \<Rightarrow> wlan_bssid_ex \<Rightarrow> scan_bss" where
  "with_elements b w = b\<lparr>bss_IEs := bss_IEs w, bss_IELength := bss_IELength w\<rparr>"

definition trim_report :: "mlme_priv \<Rightarrow> scan_bss \<Rightarrow> scan_bss option" where
  "trim_report m b = do {
     b \<leftarrow> (if wifi_spec m = 0
           then map_option (with_elements b) (Option.bind (rtw_bss_ex_del_p2p_attr (bss_kind b) (wlan_bssid_ex.truncate b) 14) (\<lambda>r. r))
           else Some b);
     if \<not> wl_func_miracast m
     then map_option (with_elements b) (rtw_bss_ex_del_wfd_ie (bss_kind b) (wlan_bssid_ex.truncate b))
     else Some b }"

definition rtw_add_network :: "os_time \<Rightarrow> scan_bss \<Rightarrow> mlme_priv \<Rightarrow> mlme_priv option" where
  "rtw_add_network t b m = do {
     b \<leftarrow> trim_report m b;
     m \<leftarrow> update_current_network b m;
     rtw_update_scanned_network t b m }"

definition copy_timestamp :: "scan_bss \<Rightarrow> scan_bss \<Rightarrow> scan_bss" where
  "copy_timestamp dst src = dst\<lparr>bss_IEs := store (bss_IEs dst) 0 (take 8 (bss_IEs src))\<rparr>"

definition survey_add :: "os_time \<Rightarrow> scan_bss \<Rightarrow> mlme_priv \<Rightarrow> mlme_priv option" where
  "survey_add t b m =
     (if \<not> check_fwstate m WIFI_UNDER_LINKING
      then rtw_add_network t (if bss_Ssid b ! 0 = 0 then b\<lparr>bss_SsidLength := 0\<rparr> else b) m
      else Some m)"

definition rtw_survey_event_callback :: "os_time \<Rightarrow> scan_bss \<Rightarrow> mlme_priv \<Rightarrow> mlme_priv option" where
  "rtw_survey_event_callback t b m =
     (if 888 < get_WLAN_BSSID_EX_sz b then Some m
      else if check_fwstate m WIFI_ADHOC_MASTER_STATE \<and> bss_MacAddress (sn_network (cur_network m)) = bss_MacAddress b
      then
        (let m = m\<lparr>cur_network := (cur_network m)\<lparr>sn_network := copy_timestamp (sn_network (cur_network m)) b\<rparr>\<rparr>
         in case rtw_find_network m (bss_MacAddress b) of
              Some i \<Rightarrow> Some (on_node i (\<lambda>n. n\<lparr>sn_network := copy_timestamp (sn_network n) b\<rparr>) m)
            | None \<Rightarrow> survey_add t b m)
      else survey_add t b m)"

section \<open>The invariant\<close>

text \<open>
  Every structure is in the pool or in the table, once, and the count is that of the table. An entry has its
  twelve fixed bytes and fits the array.
\<close>

definition pool_ok :: "mlme_priv \<Rightarrow> bool" where
  "pool_ok m \<longleftrightarrow> length (bss_buf m) = MAX_BSS_CNT \<and> distinct (free_bss_pool m @ scanned_queue m) \<and>
     set (free_bss_pool m) \<union> set (scanned_queue m) = {0..<MAX_BSS_CNT} \<and>
     num_of_scanned m = of_nat (length (scanned_queue m))"

definition bss_ok :: "scan_bss \<Rightarrow> bool" where
  "bss_ok b \<longleftrightarrow> length (bss_IEs b) = 768 \<and> 12 \<le> unat (bss_IELength b) \<and> unat (bss_IELength b) \<le> 768"

lemma pool_okD:
  assumes "pool_ok m"
  shows "length (bss_buf m) = MAX_BSS_CNT" "distinct (scanned_queue m)" "distinct (free_bss_pool m)"
    "set (free_bss_pool m) \<inter> set (scanned_queue m) = {}"
    "set (free_bss_pool m) \<union> set (scanned_queue m) = {0..<MAX_BSS_CNT}"
    "num_of_scanned m = of_nat (length (scanned_queue m))"
    "i \<in> set (scanned_queue m) \<Longrightarrow> i < MAX_BSS_CNT" "i \<in> set (free_bss_pool m) \<Longrightarrow> i < MAX_BSS_CNT"
  using assms by (auto simp: pool_ok_def)

lemma on_node_sel [simp]:
  "free_bss_pool (on_node i f m) = free_bss_pool m" "scanned_queue (on_node i f m) = scanned_queue m"
  "num_of_scanned (on_node i f m) = num_of_scanned m" "length (bss_buf (on_node i f m)) = length (bss_buf m)"
  "fw_state (on_node i f m) = fw_state m" "cur_network (on_node i f m) = cur_network m"
  "p2p_on (on_node i f m) = p2p_on m" "rx_signal_strength (on_node i f m) = rx_signal_strength m"
  "rx_signal_qual (on_node i f m) = rx_signal_qual m"
  by (simp_all add: on_node_def)

lemma check_fwstate_on_node [simp]: "check_fwstate (on_node i f m) s = check_fwstate m s"
  by (simp add: check_fwstate_def)

lemma on_node_nth [simp]:
  "i < length (bss_buf m) \<Longrightarrow> bss_buf (on_node i f m) ! j = (if j = i then f (bss_buf m ! i) else bss_buf m ! j)"
  by (auto simp: on_node_def nth_list_update)

lemma pool_ok_on_node [simp]: "pool_ok (on_node i f m) \<longleftrightarrow> pool_ok m"
  by (simp add: pool_ok_def)

lemma pool_node_sel [simp]:
  "bss_buf (pool_node i m) = bss_buf m" "scanned_queue (pool_node i m) = removeAll i (scanned_queue m)"
  "fw_state (pool_node i m) = fw_state m"
  by (simp_all add: pool_node_def)

lemma length_removeAll_Suc: "distinct xs \<Longrightarrow> i \<in> set xs \<Longrightarrow> length xs = Suc (length (removeAll i xs))"
  using length_pos_if_in_set [of i xs] by (simp add: distinct_remove1_removeAll [symmetric] length_remove1)

lemma pool_node_ok:
  assumes "pool_ok m" and "i \<in> set (scanned_queue m)"
  shows "pool_ok (pool_node i m)"
proof -
  note D = pool_okD [OF assms(1)]
  have "i \<notin> set (free_bss_pool m)" using D(4) assms(2) by auto
  moreover have "length (scanned_queue m) = Suc (length (removeAll i (scanned_queue m)))"
    by (rule length_removeAll_Suc [OF D(2) assms(2)])
  ultimately show ?thesis using D assms by (auto simp: pool_ok_def pool_node_def removeAll_id distinct_removeAll)
qed

text \<open>Going down the table, an entry is let go or left where it is.\<close>

lemma pool_nodes_fold:
  assumes "pool_ok m" and "distinct l" and "set l \<subseteq> set (scanned_queue m)"
  shows "pool_ok (fold (\<lambda>i m. if P i then pool_node i m else m) l m)
    \<and> scanned_queue (fold (\<lambda>i m. if P i then pool_node i m else m) l m) = filter (\<lambda>i. \<not> (i \<in> set l \<and> P i)) (scanned_queue m)
    \<and> free_bss_pool (fold (\<lambda>i m. if P i then pool_node i m else m) l m) = free_bss_pool m @ filter P l
    \<and> bss_buf (fold (\<lambda>i m. if P i then pool_node i m else m) l m) = bss_buf m"
  using assms
proof (induction l arbitrary: m)
  case (Cons i l)
  let ?n = "if P i then pool_node i m else m"
  have ok: "pool_ok ?n" using Cons.prems pool_node_ok by simp
  have sub: "set l \<subseteq> set (scanned_queue ?n)" using Cons.prems(2,3) by auto
  have "i \<notin> set (free_bss_pool m)" using pool_okD(4) [OF Cons.prems(1)] Cons.prems(3) by auto
  then have pool: "free_bss_pool ?n = free_bss_pool m @ (if P i then [i] else [])" by (simp add: pool_node_def removeAll_id)
  have q: "filter (\<lambda>j. \<not> (j \<in> set l \<and> P j)) (scanned_queue ?n) = filter (\<lambda>j. \<not> (j \<in> set (i # l) \<and> P j)) (scanned_queue m)"
    using Cons.prems(2) by (auto simp: removeAll_filter_not_eq intro!: filter_cong)
  show ?case using Cons.IH [OF ok _ sub] Cons.prems(2) pool q by simp
qed simp

lemma alloc_network_eq:
  assumes "pool_ok m" and "free_bss_pool m = i # rest"
  shows "rtw_alloc_network t m = (Some i, (on_node i (\<lambda>n. n\<lparr>sn_network_type := 0, sn_fixed := False,
      sn_last_scanned := jiffies t, sn_aid := 0, sn_join_res := 0\<rparr>) m)\<lparr>free_bss_pool := rest, num_of_scanned := num_of_scanned m + 1\<rparr>)"
    "i < MAX_BSS_CNT" "i \<notin> set (scanned_queue m)"
    "bss_buf m' = bss_buf n \<Longrightarrow> length (bss_buf n) = length (bss_buf m) \<Longrightarrow> free_bss_pool m' = rest
     \<Longrightarrow> scanned_queue m' = scanned_queue m @ [i] \<Longrightarrow> num_of_scanned m' = num_of_scanned m + 1 \<Longrightarrow> pool_ok m'"
  using assms by (auto simp: rtw_alloc_network_def pool_ok_def)

section \<open>Giving entries back\<close>

definition expired :: "os_time \<Rightarrow> bool \<Rightarrow> mlme_priv \<Rightarrow> nat \<Rightarrow> bool" where
  "expired t isfreeall m i \<longleftrightarrow> \<not> sn_fixed (bss_buf m ! i) \<and>
     (isfreeall \<or> scan_lifetime m \<le> passing_time_ms t (sn_last_scanned (bss_buf m ! i)))"

lemma free_network_eq: "rtw_free_network t isfreeall (Some i) m = (if expired t isfreeall m i then pool_node i m else m)"
  by (auto simp: rtw_free_network_def expired_def not_less)

lemma expired_cong: "bss_buf m' = bss_buf m \<Longrightarrow> fw_state m' = fw_state m \<Longrightarrow> expired t isfreeall m' = expired t isfreeall m"
  by (simp add: fun_eq_iff expired_def scan_lifetime_def check_fwstate_def)

lemma free_queue_fold:
  "bss_buf m = bss_buf m0 \<Longrightarrow> fw_state m = fw_state m0 \<Longrightarrow>
   fold (\<lambda>i. rtw_free_network t isfreeall (Some i)) l m = fold (\<lambda>i m. if expired t isfreeall m0 i then pool_node i m else m) l m"
proof (induction l arbitrary: m)
  case (Cons i l)
  have e: "expired t isfreeall m = expired t isfreeall m0" using Cons.prems by (rule expired_cong)
  let ?n = "if expired t isfreeall m0 i then pool_node i m else m"
  have "bss_buf ?n = bss_buf m0" "fw_state ?n = fw_state m0" using Cons.prems by auto
  from Cons.IH [OF this] show ?case by (simp add: free_network_eq e)
qed simp

text \<open>Clearing the table drops the entries that are neither fixed nor young, in order, and nothing else.\<close>

lemma free_queue_drops_expired:
  assumes "pool_ok m"
  shows "pool_ok (rtw_free_network_queue t isfreeall m)
    \<and> scanned_queue (rtw_free_network_queue t isfreeall m) = filter (\<lambda>i. \<not> expired t isfreeall m i) (scanned_queue m)
    \<and> free_bss_pool (rtw_free_network_queue t isfreeall m) = free_bss_pool m @ filter (expired t isfreeall m) (scanned_queue m)
    \<and> bss_buf (rtw_free_network_queue t isfreeall m) = bss_buf m"
  using pool_nodes_fold [OF assms pool_okD(2) [OF assms] order_refl, of "expired t isfreeall m"]
  by (simp add: rtw_free_network_queue_def free_queue_fold [OF refl refl] cong: filter_cong)

lemma free_scanqueue_empties:
  assumes "pool_ok m"
  shows "pool_ok (free_scanqueue m) \<and> scanned_queue (free_scanqueue m) = [] \<and>
    free_bss_pool (free_scanqueue m) = free_bss_pool m @ scanned_queue m \<and> bss_buf (free_scanqueue m) = bss_buf m"
  using pool_nodes_fold [OF assms pool_okD(2) [OF assms] order_refl, of "\<lambda>_. True"]
  by (simp add: free_scanqueue_def)

section \<open>Networks\<close>

type_synonym net_key = "bytes \<times> u32 \<times> bytes \<times> u16 \<times> u16"

text \<open>What \<open>is_same_network\<close> compares, and what an entry says of its network: \<open>Length\<close> and the bytes behind the elements do not count.\<close>

definition net_key_of :: "scan_bss \<Rightarrow> net_key" where
  "net_key_of b = (bss_MacAddress b, bss_SsidLength b, take (unat (bss_SsidLength b)) (bss_Ssid b),
     rtw_get_capability b AND 2, rtw_get_capability b AND 1)"

text \<open>What tells two networks apart in the table: with Wi-Fi Direct on (\<open>p2p\<close>) the address alone.\<close>

definition net_id :: "bool \<Rightarrow> scan_bss \<Rightarrow> net_key" where
  "net_id p2p b = (if p2p then (bss_MacAddress b, 0, [], 0, 0) else net_key_of b)"

definition bss_view :: "scan_bss \<Rightarrow> scan_bss" where
  "bss_view b = b\<lparr>bss_IEs := take (unat (bss_IELength b)) (bss_IEs b), bss_Length := 0\<rparr>"

lemma bss_view_sel [simp]:
  "bss_Rssi (bss_view b) = bss_Rssi b" "bss_SignalStrength (bss_view b) = bss_SignalStrength b"
  "bss_SignalQuality (bss_view b) = bss_SignalQuality b" "bss_frame_type (bss_view b) = bss_frame_type b"
  by (simp_all add: bss_view_def)

lemma same_network_iff: "is_same_network a b 0 \<longleftrightarrow> net_key_of a = net_key_of b"
  by (auto simp: is_same_network_def net_key_of_def Let_def)

lemma same_network_feature: "is_same_network a b (if p2p then 1 else 0) \<longleftrightarrow> net_id p2p a = net_id p2p b"
  by (auto simp: is_same_network_def net_id_def net_key_of_def Let_def)

lemma net_id_of_key: "net_key_of a = net_key_of b \<Longrightarrow> net_id p2p a = net_id p2p b"
  by (cases p2p) (simp add: net_id_def net_key_of_def, simp add: net_id_def)

lemma net_key_view: "12 \<le> unat (bss_IELength b) \<Longrightarrow> net_key_of (bss_view b) = net_key_of b"
  by (simp add: net_key_of_def rtw_get_capability_def bss_view_def)

lemma copy_bss_eq:
  assumes "bss_ok src" and "length (bss_IEs dst) = 768"
  shows "\<exists>b. copy_bss dst src = Some b \<and> bss_ok b \<and> bss_view b = bss_view src \<and> b = src\<lparr>bss_IEs := bss_IEs b\<rparr>"
  using assms by (auto simp: copy_bss_def bss_ok_def bss_view_def seg_def store_def)

lemma bss_view_right_channel: "bss_view (right_channel b) = right_channel (bss_view b)"
  by (simp add: right_channel_def bss_view_def)

lemma bss_ok_right_channel [simp]: "bss_ok (right_channel b) = bss_ok b"
  by (simp add: right_channel_def bss_ok_def)

lemma net_key_right_channel [simp]: "net_key_of (right_channel b) = net_key_of b"
  by (simp add: right_channel_def net_key_of_def rtw_get_capability_def)

lemma net_id_view: "bss_ok b \<Longrightarrow> net_id p2p (bss_view b) = net_id p2p b"
  by (simp add: net_id_def net_key_view bss_ok_def) (simp add: bss_view_def)

lemma net_id_right_channel [simp]: "net_id p2p (right_channel b) = net_id p2p b"
  by (simp add: net_id_def) (simp add: right_channel_def)

lemma view_ids: "bss_ok a \<Longrightarrow> bss_ok b \<Longrightarrow> bss_view a = bss_view b \<Longrightarrow> net_id p2p a = net_id p2p b"
  by (metis net_id_view)

section \<open>The table as a map\<close>

definition scan_entry :: "mlme_priv \<Rightarrow> nat \<Rightarrow> u32 \<times> scan_bss" where
  "scan_entry m i = (sn_last_scanned (bss_buf m ! i), bss_view (bss_at m i))"

definition scan_table :: "mlme_priv \<Rightarrow> net_key \<Rightarrow> (u32 \<times> scan_bss) option" where
  "scan_table m = map_of (map (\<lambda>i. (net_id (p2p_on m) (bss_at m i), scan_entry m i)) (scanned_queue m))"

definition scan_ok :: "mlme_priv \<Rightarrow> bool" where
  "scan_ok m \<longleftrightarrow> pool_ok m \<and> (\<forall>i < MAX_BSS_CNT. length (bss_IEs (bss_at m i)) = 768) \<and>
     (\<forall>i \<in> set (scanned_queue m). bss_ok (bss_at m i)) \<and>
     inj_on (\<lambda>i. net_id (p2p_on m) (bss_at m i)) (set (scanned_queue m))"

lemma scan_okD:
  assumes "scan_ok m"
  shows "pool_ok m" "i < MAX_BSS_CNT \<Longrightarrow> length (bss_IEs (bss_at m i)) = 768"
    "i \<in> set (scanned_queue m) \<Longrightarrow> bss_ok (bss_at m i)" "inj_on (\<lambda>i. net_id (p2p_on m) (bss_at m i)) (set (scanned_queue m))"
  using assms by (auto simp: scan_ok_def)

lemma scan_keys_inj: "scan_ok m \<Longrightarrow> inj_on (\<lambda>i. net_key_of (bss_at m i)) (set (scanned_queue m))"
proof (rule inj_onI)
  fix i j assume ok: "scan_ok m" and m: "i \<in> set (scanned_queue m)" "j \<in> set (scanned_queue m)"
    and "net_key_of (bss_at m i) = net_key_of (bss_at m j)"
  then have "net_id (p2p_on m) (bss_at m i) = net_id (p2p_on m) (bss_at m j)" by (intro net_id_of_key)
  then show "i = j" using inj_onD [OF scan_okD(4) [OF ok] _ m] by simp
qed

lemma scan_table_iff:
  assumes "scan_ok m"
  shows "scan_table m k = Some v \<longleftrightarrow> (\<exists>i \<in> set (scanned_queue m). net_id (p2p_on m) (bss_at m i) = k \<and> scan_entry m i = v)"
proof -
  have "distinct (map fst (map (\<lambda>i. (net_id (p2p_on m) (bss_at m i), scan_entry m i)) (scanned_queue m)))"
    using scan_okD(1,4) [OF assms] by (simp add: pool_ok_def o_def distinct_map)
  then show ?thesis unfolding scan_table_def by (subst map_of_eq_Some_iff) auto
qed

lemma dom_scan_table: "dom (scan_table m) = (\<lambda>i. net_id (p2p_on m) (bss_at m i)) ` set (scanned_queue m)"
  by (simp add: scan_table_def dom_map_of_conv_image_fst image_image)

lemma card_scan_table: "scan_ok m \<Longrightarrow> card (dom (scan_table m)) = length (scanned_queue m)"
  by (simp add: dom_scan_table card_image scan_okD(4) distinct_card pool_okD(2) [OF scan_okD(1)])

text \<open>One entry written: what it held goes, what it holds now comes.\<close>

lemma scan_table_write:
  assumes ok: "scan_ok m" and pool: "pool_ok m'" and i: "i < MAX_BSS_CNT" and p2p [simp]: "p2p_on m' = p2p_on m"
    and q: "set (scanned_queue m') = insert i (set (scanned_queue m))"
    and others: "\<And>j. j \<noteq> i \<Longrightarrow> bss_buf m' ! j = bss_buf m ! j" and b: "bss_ok (bss_at m' i)"
    and fresh: "\<And>j. j \<in> set (scanned_queue m) \<Longrightarrow> j \<noteq> i \<Longrightarrow> net_id (p2p_on m) (bss_at m j) \<noteq> net_id (p2p_on m) (bss_at m' i)"
  shows "scan_ok m' \<and> scan_table m' = (if i \<in> set (scanned_queue m) then (scan_table m)(net_id (p2p_on m) (bss_at m i) := None)
    else scan_table m)(net_id (p2p_on m) (bss_at m' i) \<mapsto> scan_entry m' i)"
proof
  have e: "scan_entry m' j = scan_entry m j" if "j \<noteq> i" for j using others [OF that] by (simp add: scan_entry_def)
  have inj: "inj_on (\<lambda>j. net_id (p2p_on m) (bss_at m' j)) (insert i (set (scanned_queue m)))"
  proof (rule inj_onI)
    fix x y assume "x \<in> insert i (set (scanned_queue m))" "y \<in> insert i (set (scanned_queue m))"
      and "net_id (p2p_on m) (bss_at m' x) = net_id (p2p_on m) (bss_at m' y)"
    then show "x = y"
      by (cases "x = i"; cases "y = i") (use fresh others scan_okD(4) [OF ok] in \<open>auto dest: inj_onD\<close>)
  qed
  show ok': "scan_ok m'"
    unfolding scan_ok_def
  proof (intro conjI allI impI ballI)
    fix j assume "j < MAX_BSS_CNT"
    then show "length (bss_IEs (bss_at m' j)) = 768"
      using b others scan_okD(2) [OF ok] by (cases "j = i") (auto simp: bss_ok_def)
  next
    fix j assume "j \<in> set (scanned_queue m')"
    then show "bss_ok (bss_at m' j)" using b others scan_okD(3) [OF ok] q by (cases "j = i") auto
  qed (use pool inj q in auto)
  show "scan_table m' = (if i \<in> set (scanned_queue m) then (scan_table m)(net_id (p2p_on m) (bss_at m i) := None)
    else scan_table m)(net_id (p2p_on m) (bss_at m' i) \<mapsto> scan_entry m' i)" (is "_ = ?T(?k \<mapsto> ?e)")
  proof
    fix k
    have "scan_table m' k = Some v \<longleftrightarrow> (?T(?k \<mapsto> ?e)) k = Some v" for v
    proof (cases "k = ?k")
      case True
      have "net_id (p2p_on m) (bss_at m' j) = ?k \<longleftrightarrow> j = i" if "j \<in> set (scanned_queue m')" for j
        using inj_onD [OF inj, of j i] that q by auto
      then show ?thesis using True q by (auto simp: scan_table_iff [OF ok'])
    next
      case False
      have "?T k = Some v \<longleftrightarrow> (\<exists>j \<in> set (scanned_queue m) - {i}. net_id (p2p_on m) (bss_at m j) = k \<and> scan_entry m j = v)"
        using scan_okD(4) [OF ok] by (auto simp: scan_table_iff [OF ok] dest: inj_onD)
      also have "\<dots> \<longleftrightarrow> (\<exists>j \<in> set (scanned_queue m'). net_id (p2p_on m) (bss_at m' j) = k \<and> scan_entry m' j = v)"
      proof -
        have "(net_id (p2p_on m) (bss_at m j) = k \<and> scan_entry m j = v) = (net_id (p2p_on m) (bss_at m' j) = k \<and> scan_entry m' j = v)"
          if "j \<noteq> i" for j using others [OF that] e [OF that] by simp
        moreover have "\<not> (net_id (p2p_on m) (bss_at m' i) = k \<and> scan_entry m' i = v)" using False by simp
        ultimately show ?thesis unfolding q by (metis Diff_iff empty_iff insert_iff)
      qed
      finally show ?thesis using False by (simp add: scan_table_iff [OF ok'])
    qed
    then show "scan_table m' k = (?T(?k \<mapsto> ?e)) k" by (rule option_eqI)
  qed
qed

text \<open>The search finds the entry of the same network.\<close>

lemma scan_search_step:
  "scan_search t m b oldest (i # is) =
    (if net_id (p2p_on m) (bss_at m i) = net_id (p2p_on m) b then (Some i, oldest) else scan_search t m b (older t m oldest i) is)"
  by (simp only: scan_search.simps same_network_feature) (simp add: net_id_def)

lemma scan_search_fst:
  "fst (scan_search t m b oldest l) = List.find (\<lambda>i. net_id (p2p_on m) (bss_at m i) = net_id (p2p_on m) b) l"
  by (induction l arbitrary: oldest) (simp_all add: scan_search_step del: scan_search.simps(2))

lemma scan_search_snd:
  "fst (scan_search t m b oldest l) = None \<Longrightarrow> snd (scan_search t m b oldest l) = foldl (older t m) oldest l"
  by (induction l arbitrary: oldest) (auto split: if_splits)

text \<open>
  \<open>time_after\<close> is documented to hold when its first time is the later one; times are counted back from the present.
\<close>

definition clock_ok :: "os_time \<Rightarrow> u32 set \<Rightarrow> bool" where
  "clock_ok t S \<longleftrightarrow> (\<forall>a \<in> S. \<forall>b \<in> S. time_after t a b \<longleftrightarrow> jiffies t - a < jiffies t - b)"

abbreviation stamp :: "mlme_priv \<Rightarrow> nat \<Rightarrow> u32" where
  "stamp m i \<equiv> sn_last_scanned (bss_buf m ! i)"

lemma foldl_older:
  assumes "clock_ok t (stamp m ` insert j (set l))"
  shows "\<exists>v \<in> insert j (set l). foldl (older t m) (Some j) l = Some v \<and>
    (\<forall>i \<in> insert j (set l). jiffies t - stamp m i \<le> jiffies t - stamp m v)"
  using assms
proof (induction l arbitrary: j)
  case (Cons i l)
  let ?k = "if time_after t (stamp m j) (stamp m i) then i else j"
  have "clock_ok t (stamp m ` insert ?k (set l))" using Cons.prems by (auto simp: clock_ok_def)
  from Cons.IH [OF this] obtain v where v: "v \<in> insert ?k (set l)" "foldl (older t m) (Some ?k) l = Some v"
    "\<And>i. i \<in> insert ?k (set l) \<Longrightarrow> jiffies t - stamp m i \<le> jiffies t - stamp m v" by blast
  have "time_after t (stamp m j) (stamp m i) \<longleftrightarrow> jiffies t - stamp m j < jiffies t - stamp m i"
    using Cons.prems by (simp add: clock_ok_def)
  then have "jiffies t - stamp m x \<le> jiffies t - stamp m ?k" if "x = i \<or> x = j" for x
    using that by (auto simp: not_less)
  moreover have "jiffies t - stamp m ?k \<le> jiffies t - stamp m v" by (rule v(3)) simp
  ultimately have "jiffies t - stamp m x \<le> jiffies t - stamp m v" if "x \<in> insert j (set (i # l))" for x
    using that v(3) by (auto intro: order_trans)
  moreover have "foldl (older t m) (Some j) (i # l) = Some v" using v(2) by (simp add: older_def if_distrib cong: if_cong)
  moreover have "v \<in> insert j (set (i # l))" using v(1) by (auto split: if_splits)
  ultimately show ?case by blast
qed simp

definition longest_ago :: "os_time \<Rightarrow> mlme_priv \<Rightarrow> nat \<Rightarrow> bool" where
  "longest_ago t m v \<longleftrightarrow> v \<in> set (scanned_queue m) \<and>
     (\<forall>i \<in> set (scanned_queue m). jiffies t - stamp m i \<le> jiffies t - stamp m v)"

lemma oldest_entry:
  assumes "clock_ok t (stamp m ` set (scanned_queue m))" and "scanned_queue m \<noteq> []"
  shows "\<exists>v. foldl (older t m) None (scanned_queue m) = Some v \<and> longest_ago t m v"
proof -
  obtain j l where q: "scanned_queue m = j # l" using assms(2) by (cases "scanned_queue m") auto
  have "clock_ok t (stamp m ` insert j (set l))" using assms(1) q by simp
  from foldl_older [OF this] show ?thesis by (auto simp: q older_def longest_ago_def)
qed

section \<open>A report as an update of the map\<close>

text \<open>The entry of a network after a report: the description of the frame of higher rank, the signal smoothed.\<close>

definition heard_again :: "mlme_priv \<Rightarrow> scan_bss \<Rightarrow> scan_bss \<Rightarrow> scan_bss" where
  "heard_again m d s = put_signal (final_signal m d s)
     (if bss_frame_type s \<noteq> 2 \<and> bss_frame_type d \<le> bss_frame_type s then s else d)"

text \<open>The specification: a network in the table is heard again; a new one takes the place of \<open>victim\<close> when the table is full.\<close>

definition report_spec :: "(scan_bss \<Rightarrow> scan_bss \<Rightarrow> scan_bss) \<Rightarrow> u32 \<Rightarrow> nat \<Rightarrow> net_key \<Rightarrow> net_key \<Rightarrow> scan_bss
    \<Rightarrow> (net_key \<Rightarrow> (u32 \<times> scan_bss) option) \<Rightarrow> net_key \<Rightarrow> (u32 \<times> scan_bss) option" where
  "report_spec again now cap victim k b T =
     (case T k of
        Some (_, old) \<Rightarrow> T(k \<mapsto> (now, again old b))
      | None \<Rightarrow> (if card (dom T) < cap then T else T(victim := None))(k \<mapsto> (now, right_channel b)))"

lemma bss_view_put_signal [simp]: "bss_view (put_signal s b) = put_signal s (bss_view b)"
  by (simp add: put_signal_def bss_view_def)

lemma bss_ok_put_signal [simp]: "bss_ok (put_signal s b) = bss_ok b"
  by (simp add: put_signal_def bss_ok_def)

lemma net_id_put_signal [simp]: "net_id p2p (put_signal s b) = net_id p2p b"
  by (simp add: put_signal_def net_id_def net_key_of_def rtw_get_capability_def)

lemma final_signal_view:
  assumes "bss_ok s"
  shows "final_signal m (bss_view d) (bss_view s) = final_signal m d s"
proof -
  have "12 \<le> unat (bss_IELength s)" using assms by (simp add: bss_ok_def)
  from net_key_view [OF this] show ?thesis by (simp add: final_signal_def same_network_iff Let_def)
qed

lemma refresh_node_eq:
  assumes ok: "scan_ok m" and i: "i \<in> set (scanned_queue m)" and b: "bss_ok b"
    and k: "net_id (p2p_on m) (bss_at m i) = net_id (p2p_on m) b"
  shows "\<exists>m'. refresh_node t b i m = Some m' \<and> scan_ok m' \<and>
    scan_table m' = (scan_table m)(net_id (p2p_on m) b \<mapsto> (jiffies t, heard_again m (bss_view (bss_at m i)) (bss_view b))) \<and> p2p_on m' = p2p_on m \<and>
    (\<forall>j \<in> set (scanned_queue m). sn_fixed (bss_buf m' ! j) \<longleftrightarrow> sn_fixed (bss_buf m ! j))"
proof -
  have i': "i < MAX_BSS_CNT" using pool_okD(7) [OF scan_okD(1) [OF ok] i] .
  note len = pool_okD(1) [OF scan_okD(1) [OF ok]]
  let ?m = "on_node i (\<lambda>n. n\<lparr>sn_last_scanned := jiffies t\<rparr>) m"
  let ?u = "bss_frame_type b \<noteq> 2 \<and> bss_frame_type (bss_at m i) \<le> bss_frame_type b"
  have at: "bss_at ?m i = bss_at m i" using i' len by simp
  have sig: "final_signal ?m = final_signal m"
    by (intro ext) (simp add: final_signal_def Let_def)
  obtain c where c: "(if ?u then copy_bss (bss_at m i) b else Some (bss_at m i)) = Some c" "bss_ok c"
    "bss_view c = (if ?u then bss_view b else bss_view (bss_at m i))"
    using copy_bss_eq [OF b scan_okD(2) [OF ok i']] scan_okD(3) [OF ok i] by (cases ?u) auto
  let ?c = "put_signal (final_signal m (bss_at m i) b) c"
  let ?m' = "on_node i (\<lambda>n. n\<lparr>sn_network := ?c\<rparr>) ?m"
  have "update_network ?m (bss_at m i) b ?u = Some ?c" using c(1) by (simp only: update_network_def sig option.map)
  moreover have "(if ?u then True else False) = ?u" by simp
  ultimately have run: "refresh_node t b i m = Some ?m'" by (simp only: refresh_node_def Let_def at Option.bind.simps)
  have key: "net_id (p2p_on m) c = net_id (p2p_on m) b"
    using view_ids [OF c(2)] b k scan_okD(3) [OF ok i] c(3) by (cases ?u) auto
  have at': "bss_at ?m' i = ?c" "stamp ?m' i = jiffies t" using i' len by simp_all
  have "scan_ok ?m' \<and> scan_table ?m' = (if i \<in> set (scanned_queue m) then (scan_table m)(net_id (p2p_on m) (bss_at m i) := None)
    else scan_table m)(net_id (p2p_on m) (bss_at ?m' i) \<mapsto> scan_entry ?m' i)"
  proof (rule scan_table_write [OF ok _ i'])
    show "bss_ok (bss_at ?m' i)" using c(2) at' by simp
    show "net_id (p2p_on m) (bss_at m j) \<noteq> net_id (p2p_on m) (bss_at ?m' i)" if "j \<in> set (scanned_queue m)" "j \<noteq> i" for j
      using inj_onD [OF scan_okD(4) [OF ok] _ that(1) i] that(2) at' key k by auto
  qed (use i i' len scan_okD(1) [OF ok] in auto)
  moreover have "scan_entry ?m' i = (jiffies t, heard_again m (bss_view (bss_at m i)) (bss_view b))"
    using c(3) at' by (simp add: scan_entry_def heard_again_def final_signal_view [OF b])
  ultimately show ?thesis using run at' key i k i' len by simp
qed

lemma other_key: "k \<notin> dom (scan_table m) \<Longrightarrow> j \<in> set (scanned_queue m) \<Longrightarrow> net_id (p2p_on m) (bss_at m j) \<noteq> k"
  unfolding dom_scan_table by blast

lemma evict_node_eq:
  assumes ok: "scan_ok m" and i: "i \<in> set (scanned_queue m)" and b: "bss_ok b"
    and new: "net_id (p2p_on m) b \<notin> dom (scan_table m)"
  shows "\<exists>m'. evict_node t b i m = Some m' \<and> scan_ok m' \<and>
    scan_table m' = (scan_table m)(net_id (p2p_on m) (bss_at m i) := None, net_id (p2p_on m) b \<mapsto> (jiffies t, right_channel (bss_view b))) \<and> p2p_on m' = p2p_on m \<and>
    (\<forall>j \<in> set (scanned_queue m). sn_fixed (bss_buf m' ! j) \<longleftrightarrow> sn_fixed (bss_buf m ! j) \<and> j \<noteq> i)"
proof -
  have i': "i < MAX_BSS_CNT" using pool_okD(7) [OF scan_okD(1) [OF ok] i] .
  note len = pool_okD(1) [OF scan_okD(1) [OF ok]]
  obtain c where c: "copy_bss (bss_at m i) b = Some c" "bss_ok c" "bss_view c = bss_view b"
    using copy_bss_eq [OF b scan_okD(2) [OF ok i']] by auto
  have key: "net_id (p2p_on m) c = net_id (p2p_on m) b" using view_ids [OF c(2) b c(3)] .
  let ?m' = "on_node i (\<lambda>n. n\<lparr>sn_network := right_channel c, sn_fixed := False, sn_last_scanned := jiffies t,
    sn_network_type := 0, sn_aid := 0, sn_join_res := 0\<rparr>) m"
  have run: "evict_node t b i m = Some ?m'" using c(1) by (simp add: evict_node_def)
  have at': "bss_at ?m' i = right_channel c" "stamp ?m' i = jiffies t" using i' len by simp_all
  have "scan_ok ?m' \<and> scan_table ?m' = (if i \<in> set (scanned_queue m) then (scan_table m)(net_id (p2p_on m) (bss_at m i) := None)
    else scan_table m)(net_id (p2p_on m) (bss_at ?m' i) \<mapsto> scan_entry ?m' i)"
  proof (rule scan_table_write [OF ok _ i'])
    show "bss_ok (bss_at ?m' i)" using c(2) at' by simp
    show "net_id (p2p_on m) (bss_at m j) \<noteq> net_id (p2p_on m) (bss_at ?m' i)" if "j \<in> set (scanned_queue m)" "j \<noteq> i" for j
      using other_key [OF new that(1)] at' key by simp
  qed (use i i' len scan_okD(1) [OF ok] in auto)
  moreover have "scan_entry ?m' i = (jiffies t, right_channel (bss_view b))"
    using c(3) at' by (simp add: scan_entry_def bss_view_right_channel)
  ultimately show ?thesis using run at' key i i' len by simp
qed

lemma bss_view_Length [simp]: "bss_view (b\<lparr>bss_Length := l\<rparr>) = bss_view b"
  by (simp add: bss_view_def)

lemma add_node_eq:
  assumes ok: "scan_ok m" and pool: "free_bss_pool m = i # rest" and b: "bss_ok b"
    and new: "net_id (p2p_on m) b \<notin> dom (scan_table m)"
  shows "\<exists>m'. add_node t b m = Some m' \<and> scan_ok m' \<and>
    scan_table m' = (scan_table m)(net_id (p2p_on m) b \<mapsto> (jiffies t, right_channel (bss_view b))) \<and> p2p_on m' = p2p_on m \<and>
    (\<forall>j \<in> set (scanned_queue m). sn_fixed (bss_buf m' ! j) \<longleftrightarrow> sn_fixed (bss_buf m ! j))"
proof -
  note A = alloc_network_eq [OF scan_okD(1) [OF ok] pool]
  note len = pool_okD(1) [OF scan_okD(1) [OF ok]]
  let ?b = "b\<lparr>bss_Length := get_WLAN_BSSID_EX_sz b\<rparr>"
  have b': "bss_ok ?b" using b by (simp add: bss_ok_def)
  obtain c where c: "copy_bss (bss_at m i) ?b = Some c" "bss_ok c" "bss_view c = bss_view b"
    using copy_bss_eq [OF b' scan_okD(2) [OF ok A(2)]] by auto
  have key: "net_id (p2p_on m) c = net_id (p2p_on m) b" using view_ids [OF c(2) b c(3)] .
  let ?n = "snd (rtw_alloc_network t m)"
  let ?o = "on_node i (\<lambda>n. n\<lparr>sn_network := right_channel c, sn_last_scanned := jiffies t\<rparr>) ?n"
  let ?m' = "?o\<lparr>scanned_queue := scanned_queue ?o @ [i]\<rparr>"
  have n: "length (bss_buf ?n) = length (bss_buf m)" "bss_at ?n i = bss_at m i"
    using A(1,2) len by simp_all
  have run: "add_node t b m = Some ?m'" using c(1) n(2) A(1) by (simp add: add_node_def Let_def)
  have at': "bss_at ?m' i = right_channel c" "stamp ?m' i = jiffies t" using A(2) len n(1) by simp_all
  have others: "bss_buf ?m' ! j = bss_buf m ! j" if "j \<noteq> i" for j using that A(1,2) len by simp
  have q: "scanned_queue ?m' = scanned_queue m @ [i]" using A(1) by simp
  have "pool_ok ?m'" by (rule A(4) [of _ ?m']) (simp_all add: A(1))
  then have "scan_ok ?m' \<and> scan_table ?m' = (if i \<in> set (scanned_queue m) then (scan_table m)(net_id (p2p_on m) (bss_at m i) := None)
    else scan_table m)(net_id (p2p_on m) (bss_at ?m' i) \<mapsto> scan_entry ?m' i)"
  proof (rule scan_table_write [OF ok _ A(2) _ _ others])
    show "set (scanned_queue ?m') = insert i (set (scanned_queue m))" by (simp only: q set_append list.set Un_insert_right Un_empty_right)
    show "bss_ok (bss_at ?m' i)" using c(2) at' by simp
    show "net_id (p2p_on m) (bss_at m j) \<noteq> net_id (p2p_on m) (bss_at ?m' i)" if "j \<in> set (scanned_queue m)" "j \<noteq> i" for j
      using other_key [OF new that(1)] at' key by simp
  qed (simp_all add: A(1))
  moreover have "scan_entry ?m' i = (jiffies t, right_channel (bss_view b))"
    using c(3) at' by (simp add: scan_entry_def bss_view_right_channel)
  moreover have "\<forall>j \<in> set (scanned_queue m). sn_fixed (bss_buf ?m' ! j) = sn_fixed (bss_buf m ! j)" using others A(3) by metis
  moreover have "p2p_on ?m' = p2p_on m" using A(1) by simp
  ultimately show ?thesis using run at' key A(3) by auto
qed

lemma table_room:
  assumes "scan_ok m"
  shows "card (dom (scan_table m)) < MAX_BSS_CNT \<longleftrightarrow> free_bss_pool m \<noteq> []"
proof -
  note D = pool_okD [OF scan_okD(1) [OF assms]]
  have "card (set (free_bss_pool m) \<union> set (scanned_queue m)) = length (free_bss_pool m) + length (scanned_queue m)"
    using D(2-4) by (simp add: card_Un_disjoint distinct_card)
  then show ?thesis using D(5) by (cases "free_bss_pool m") (auto simp: card_scan_table [OF assms])
qed

text \<open>The entry \<open>v\<close> is overwritten: the network is new and the table is full.\<close>

definition evicted :: "mlme_priv \<Rightarrow> scan_bss \<Rightarrow> nat \<Rightarrow> bool" where
  "evicted m b v \<longleftrightarrow> free_bss_pool m = [] \<and> net_id (p2p_on m) b \<notin> dom (scan_table m) \<and> v \<in> set (scanned_queue m)"

text \<open>The outcome of a report, with the entry \<open>v\<close> to go in a full table.\<close>

definition report_result :: "os_time \<Rightarrow> scan_bss \<Rightarrow> nat \<Rightarrow> mlme_priv \<Rightarrow> mlme_priv \<Rightarrow> bool" where
  "report_result t b v m m' \<longleftrightarrow>
     scan_table m' = report_spec (heard_again m) (jiffies t) MAX_BSS_CNT (net_id (p2p_on m) (bss_at m v)) (net_id (p2p_on m) b)
       (bss_view b) (scan_table m) \<and>
     (\<forall>i \<in> set (scanned_queue m). sn_fixed (bss_buf m' ! i) \<longleftrightarrow> sn_fixed (bss_buf m ! i) \<and> \<not> (evicted m b v \<and> i = v))"

lemma report_known:
  assumes ok: "scan_ok m" and b: "bss_ok b"
    and find: "List.find (\<lambda>i. net_id (p2p_on m) (bss_at m i) = net_id (p2p_on m) b) (scanned_queue m) = Some i"
  shows "\<exists>m'. rtw_update_scanned_network t b m = Some m' \<and> scan_ok m' \<and> p2p_on m' = p2p_on m \<and> report_result t b v m m'"
proof -
  have i: "i \<in> set (scanned_queue m)" "net_id (p2p_on m) (bss_at m i) = net_id (p2p_on m) b"
    using find by (auto simp: find_Some_iff in_set_conv_nth)
  have T: "scan_table m (net_id (p2p_on m) b) = Some (scan_entry m i)" using i by (auto simp: scan_table_iff [OF ok])
  then have e: "\<not> evicted m b v" by (auto simp: evicted_def)
  obtain o' where s: "scan_search t m b None (scanned_queue m) = (Some i, o')"
    using scan_search_fst [of t m b None "scanned_queue m"] find by (cases "scan_search t m b None (scanned_queue m)") auto
  show ?thesis using refresh_node_eq [OF ok i(1) b i(2), of t] T s e
    by (auto simp: rtw_update_scanned_network_def report_result_def report_spec_def scan_entry_def)
qed

lemma report_new:
  assumes ok: "scan_ok m" and b: "bss_ok b" and new: "net_id (p2p_on m) b \<notin> dom (scan_table m)"
    and v: "free_bss_pool m = [] \<longrightarrow> foldl (older t m) None (scanned_queue m) = Some v \<and> v \<in> set (scanned_queue m)"
  shows "\<exists>m'. rtw_update_scanned_network t b m = Some m' \<and> scan_ok m' \<and> p2p_on m' = p2p_on m \<and> report_result t b v m m'"
proof -
  have T: "scan_table m (net_id (p2p_on m) b) = None" using new by auto
  have "fst (scan_search t m b None (scanned_queue m)) = None"
    using new unfolding scan_search_fst find_None_iff dom_scan_table by (metis image_eqI)
  then have s: "scan_search t m b None (scanned_queue m) = (None, foldl (older t m) None (scanned_queue m))"
    using scan_search_snd by (metis prod.collapse)
  show ?thesis
  proof (cases "free_bss_pool m")
    case Nil
    then have q: "foldl (older t m) None (scanned_queue m) = Some v" "evicted m b v" "v \<in> set (scanned_queue m)"
      using v new by (simp_all add: evicted_def)
    have "\<not> card (dom (scan_table m)) < MAX_BSS_CNT" using table_room [OF ok] Nil by simp
    then show ?thesis using evict_node_eq [OF ok q(3) b new, of t] s Nil T q(1,2)
      by (auto simp: rtw_update_scanned_network_def report_result_def report_spec_def)
  next
    case (Cons i rest)
    then have "\<not> evicted m b v" "card (dom (scan_table m)) < MAX_BSS_CNT" using table_room [OF ok] by (simp_all add: evicted_def)
    then show ?thesis using add_node_eq [OF ok Cons b new, of t] s Cons T
      by (auto simp: rtw_update_scanned_network_def report_result_def report_spec_def)
  qed
qed

lemma report_refines_aux:
  assumes ok: "scan_ok m" and b: "bss_ok b" and clock: "clock_ok t (stamp m ` set (scanned_queue m))"
  shows "\<exists>m' v. rtw_update_scanned_network t b m = Some m' \<and> scan_ok m' \<and> p2p_on m' = p2p_on m \<and> report_result t b v m m' \<and>
    (free_bss_pool m = [] \<longrightarrow> longest_ago t m v)"
proof -
  have "free_bss_pool m = [] \<longrightarrow> scanned_queue m \<noteq> []"
    using pool_okD(5) [OF scan_okD(1) [OF ok]] by (auto simp: MAX_BSS_CNT_def)
  then obtain v where v: "free_bss_pool m = [] \<longrightarrow> foldl (older t m) None (scanned_queue m) = Some v \<and> longest_ago t m v"
    using oldest_entry [OF clock] by blast
  have "\<exists>m'. rtw_update_scanned_network t b m = Some m' \<and> scan_ok m' \<and> p2p_on m' = p2p_on m \<and> report_result t b v m m'"
  proof (cases "List.find (\<lambda>i. net_id (p2p_on m) (bss_at m i) = net_id (p2p_on m) b) (scanned_queue m)")
    case None
    then have "net_id (p2p_on m) b \<notin> dom (scan_table m)" by (auto simp: dom_scan_table find_None_iff)
    then show ?thesis using report_new [OF ok b, of t v] v by (auto simp: longest_ago_def)
  next
    case (Some i)
    then show ?thesis by (rule report_known [OF ok b])
  qed
  then show ?thesis using v by blast
qed

text \<open>C15: A report of a network, with Wi-Fi Direct on or off, changes the table as a map from networks to what
  was last heard of them as follows. A network of the table is heard again: its time is the present, its
  description that of the frame of higher rank, its signal smoothed. A new network is added; if there is no room, the
  entry heard longest ago goes. Networks are told apart by address, name and capability, but by the address alone while Wi-Fi
  Direct is on, when a report takes over the entry of another network of the same address. An entry marked
  \<open>fixed\<close> keeps its mark unless it is the one heard longest ago that has to go: the mark does not save it,
  contrary to the comment of \<open>struct wlan_network\<close> (lemma \<open>fixed_entry_evicted\<close> of JoinSelect). The table is taken to be
  well-formed, with no two entries of one network in the present sense, the report to fit its array, and \<open>time_after\<close> to
  compare times by how long ago they are.\<close>

theorem report_refines:
  assumes ok: "scan_ok m" and b: "bss_ok b" and clock: "clock_ok t (stamp m ` set (scanned_queue m))"
  shows "\<exists>m' v. rtw_update_scanned_network t b m = Some m' \<and> scan_ok m' \<and> p2p_on m' = p2p_on m \<and>
    scan_table m' = report_spec (heard_again m) (jiffies t) MAX_BSS_CNT (net_id (p2p_on m) (bss_at m v)) (net_id (p2p_on m) b)
      (bss_view b) (scan_table m) \<and>
    (\<forall>i \<in> set (scanned_queue m). sn_fixed (bss_buf m' ! i) \<longleftrightarrow> sn_fixed (bss_buf m ! i) \<and> \<not> (evicted m b v \<and> i = v)) \<and>
    (free_bss_pool m = [] \<longrightarrow> longest_ago t m v)"
  using report_refines_aux [OF assms] unfolding report_result_def by blast

section \<open>Smoothing\<close>

text \<open>The new value lies between sample and history; a steady signal is reached up to the division's loss.\<close>

lemma uint_smooth_u8: "uint (smooth_u8 s d) = (uint s + 4 * uint d) div 5"
proof -
  have b: "uint s < 256" "uint d < 256" using uint_lt2p [of s] uint_lt2p [of d] by simp_all
  have "uint (ucast s + ucast d * 4 :: u32) = uint s + 4 * uint d"
    using b by (simp add: uint_word_ariths unsigned_ucast_eq take_bit_int_eq_self)
  then have "uint ((ucast s + ucast d * 4 :: u32) div 5) = (uint s + 4 * uint d) div 5" by (simp add: uint_div)
  moreover have "0 \<le> (uint s + 4 * uint d) div 5" by (rule div_int_pos_iff [THEN iffD2]) simp
  moreover have "(uint s + 4 * uint d) div 5 < 2 ^ LENGTH(8)" using b by simp
  ultimately show ?thesis unfolding smooth_u8_def unsigned_ucast_eq by (simp only: take_bit_int_eq_self)
qed

lemma smooth_rssi_neg: "a \<ge> 0 \<Longrightarrow> e \<ge> 0 \<Longrightarrow> smooth_rssi (- a) (- e) = - ((a + 4 * e) div 5)"
proof -
  assume "a \<ge> 0" "e \<ge> 0"
  have "- a + - e * 4 = - (a + 4 * e)" by simp
  then have "smooth_rssi (- a) (- e) = - ((a + 4 * e) sdiv 5)" by (simp only: smooth_rssi_def minus_sdiv_eq)
  moreover have "(a + 4 * e) sdiv 5 = (a + 4 * e) div 5" using \<open>a \<ge> 0\<close> \<open>e \<ge> 0\<close> by (simp add: signed_divide_int_def sgn_if)
  ultimately show ?thesis by simp
qed

lemma fifth_settles:
  "(if a - 4 \<le> e \<and> e \<le> a then 0 else nat \<bar>a - e\<bar>) \<le> n \<Longrightarrow>
   a - 4 \<le> ((\<lambda>e. (a + 4 * e) div 5) ^^ n) e \<and> ((\<lambda>e. (a + 4 * e) div 5) ^^ n) e \<le> (a :: int)"
proof (induction n arbitrary: e)
  case (Suc n)
  let ?f = "(a + 4 * e) div 5"
  have "(if a - 4 \<le> ?f \<and> ?f \<le> a then 0 else nat \<bar>a - ?f\<bar>) \<le> n"
  proof (cases "a - 4 \<le> e \<and> e \<le> a")
    case True
    then have "a - 4 \<le> ?f \<and> ?f \<le> a" by linarith
    then show ?thesis by simp
  next
    case False
    then have "a < e \<and> a \<le> ?f \<and> ?f < e \<or> e < a - 4 \<and> e < ?f \<and> ?f \<le> a" by linarith
    moreover have "nat \<bar>a - e\<bar> \<le> Suc n" using Suc.prems False by simp
    ultimately show ?thesis by auto
  qed
  from Suc.IH [OF this] show ?case by (simp only: funpow_Suc_right o_apply)
qed (simp split: if_splits)

lemma signal_settles:
  assumes "255 \<le> n" and "- 255 \<le> r" "r \<le> 0" "- 255 \<le> h" "h \<le> 0"
  shows "uint s - 4 \<le> uint ((smooth_u8 s ^^ n) d) \<and> uint ((smooth_u8 s ^^ n) d) \<le> uint s \<and>
    r \<le> (smooth_rssi r ^^ n) h \<and> (smooth_rssi r ^^ n) h \<le> r + 4"
proof -
  have u: "uint ((smooth_u8 s ^^ k) d) = ((\<lambda>e. (uint s + 4 * e) div 5) ^^ k) (uint d)" for k
    by (induction k) (simp_all add: uint_smooth_u8)
  have pos: "0 \<le> ((\<lambda>e. (- r + 4 * e) div 5) ^^ k) (- h)" for k using assms(3,5) by (induction k) auto
  have i: "(smooth_rssi r ^^ k) h = - ((\<lambda>e. (- r + 4 * e) div 5) ^^ k) (- h)" for k
    by (induction k) (use smooth_rssi_neg [of "- r"] assms(3) pos in simp_all)
  have "0 \<le> uint s" "uint s < 256" "0 \<le> uint d" "uint d < 256" using uint_lt2p [of s] uint_lt2p [of d] by simp_all
  then have "nat \<bar>uint s - uint d\<bar> \<le> n" using assms(1) by linarith
  moreover have "nat \<bar>- r - - h\<bar> \<le> n" using assms by linarith
  ultimately have "(if uint s - 4 \<le> uint d \<and> uint d \<le> uint s then 0 else nat \<bar>uint s - uint d\<bar>) \<le> n"
    "(if - r - 4 \<le> - h \<and> - h \<le> - r then 0 else nat \<bar>- r - - h\<bar>) \<le> n" by (simp_all del: minus_add_distrib)
  from this [THEN fifth_settles] show ?thesis unfolding u i by linarith
qed

lemma signal_settles_witness:
  "uint ((smooth_u8 60 ^^ 300) 20) \<ge> 56 \<and> (smooth_rssi (- 90) ^^ 300) (- 40) \<le> - 86"
  using signal_settles [of 300 "- 90" "- 40" 60 20] by simp

section \<open>An empty table\<close>

text \<open>A driver after initialisation, for the concrete cases; the kernel's macro \<open>time_after\<close> compares as signed numbers.\<close>

definition demo_clock :: "u32 \<Rightarrow> os_time" where
  "demo_clock now = \<lparr>jiffies = now, jiffies_to_msecs = \<lambda>d. d * 10, time_after = \<lambda>a b. sint (b - a) < 0\<rparr>"

definition bss_zero :: scan_bss where
  "bss_zero = \<lparr>bss_Ssid = replicate 32 0, bss_SsidLength = 0, bss_Privacy = 0, bss_BeaconPeriod = 0, bss_ATIMWindow = 0,
     bss_DSConfig = 0, bss_SupportedRates = replicate 16 0, bss_IELength = 0, bss_IEs = replicate 768 0, bss_Length = 0,
     bss_MacAddress = replicate 6 0, bss_frame_type = 0, bss_Rssi = 0, bss_InfrastructureMode = 0,
     bss_SignalStrength = 0, bss_SignalQuality = 0\<rparr>"

definition node_zero :: scan_node where
  "node_zero = \<lparr>sn_network_type = 0, sn_fixed = False, sn_last_scanned = 0, sn_aid = 0, sn_join_res = 0, sn_network = bss_zero\<rparr>"

definition demo_mlme :: mlme_priv where
  "demo_mlme = snd (init_bss_pool (Some (replicate MAX_BSS_CNT node_zero)) \<lparr>bss_buf = [], free_bss_pool = [], scanned_queue = [],
     num_of_scanned = 0, scanned_queue_lock = 0, fw_state = WIFI_STATION_STATE, cur_network = node_zero,
     cur_network_scanned = None, roam_network = None, need_to_roam = False, to_roam = 0, roam_tgt_addr = replicate 6 0,
     roam_scanr_exp_ms = 5000, roam_rssi_diff_th = 10, assoc_by_bssid = False, assoc_bssid = replicate 6 0,
     assoc_ssid = replicate 32 0, assoc_ssid_len = 0, wifi_spec = 0, wl_func_miracast = True, p2p_on = False,
     rx_signal_strength = 0, rx_signal_qual = 0, vcs_setting = 2, vcs_type = 1, vcs = 0, sec_encryptstatus = 1,
     sec_authtype = 0, scan_own = demo_own, scan_hw_ap = False, scan_stapriv = init_sta_priv init_macid_ctl demo_cam\<rparr>)"

definition demo_bss :: "bytes \<Rightarrow> int \<Rightarrow> scan_bss" where
  "demo_bss mac rssi = bss_zero\<lparr>bss_MacAddress := mac, bss_Rssi := rssi, bss_IELength := 12, bss_frame_type := 1\<rparr>"

lemma demo_mlme_sel [simp]:
  "bss_buf demo_mlme = replicate MAX_BSS_CNT node_zero" "free_bss_pool demo_mlme = [0..<MAX_BSS_CNT]"
  "scanned_queue demo_mlme = []" "num_of_scanned demo_mlme = 0" "p2p_on demo_mlme = False"
  by (simp_all add: demo_mlme_def init_bss_pool_def)

lemma demo_mlme_ok: "scan_ok demo_mlme"
  by (simp add: scan_ok_def pool_ok_def node_zero_def bss_zero_def)

lemma demo_bss_ok: "bss_ok (demo_bss mac rssi)"
  by (simp add: bss_ok_def demo_bss_def bss_zero_def)


text \<open>A full table: entry \<open>i\<close> was heard at time \<open>i\<close>, and the one heard longest ago is fixed.\<close>

definition demo_mac :: "nat \<Rightarrow> bytes" where
  "demo_mac i = [4, 0, 0, 0, 0, of_nat i]"

definition demo_full :: "bool \<Rightarrow> mlme_priv" where
  "demo_full p2p = demo_mlme\<lparr>bss_buf := map (\<lambda>i. node_zero\<lparr>sn_fixed := (i = 0), sn_last_scanned := of_nat i,
     sn_network := demo_bss (demo_mac i) (- 60)\<rparr>) [0..<MAX_BSS_CNT],
     free_bss_pool := [], scanned_queue := [0..<MAX_BSS_CNT], num_of_scanned := of_nat MAX_BSS_CNT, p2p_on := p2p\<rparr>"

lemma demo_full_sel [simp]:
  "free_bss_pool (demo_full p) = []" "scanned_queue (demo_full p) = [0..<MAX_BSS_CNT]" "p2p_on (demo_full p) = p"
  "i < MAX_BSS_CNT \<Longrightarrow> bss_at (demo_full p) i = demo_bss (demo_mac i) (- 60)"
  "i < MAX_BSS_CNT \<Longrightarrow> stamp (demo_full p) i = of_nat i" "sn_fixed (bss_buf (demo_full p) ! 0)" "fw_state (demo_full p) = WIFI_STATION_STATE"
  by (simp_all add: demo_full_def demo_mlme_def init_bss_pool_def MAX_BSS_CNT_def)

lemma net_id_demo: "net_id p (demo_bss a r) = net_id p (demo_bss b q) \<longleftrightarrow> a = b"
  by (simp add: net_id_def net_key_of_def demo_bss_def rtw_get_capability_def)

lemma demo_mac_inj: "i < 256 \<Longrightarrow> j < 256 \<Longrightarrow> demo_mac i = demo_mac j \<longleftrightarrow> i = j"
  by (auto simp: demo_mac_def word_of_nat_eq_iff take_bit_nat_eq_self)

lemma demo_full_ok: "scan_ok (demo_full p)"
proof -
  have "inj_on (\<lambda>i. net_id p (demo_bss (demo_mac i) (- 60))) {0..<MAX_BSS_CNT}"
    by (rule inj_onI) (simp add: net_id_demo demo_mac_inj MAX_BSS_CNT_def)
  then have "inj_on (\<lambda>i. net_id p (bss_at (demo_full p) i)) {0..<MAX_BSS_CNT}" by (simp add: inj_on_def)
  moreover have "length (bss_buf (demo_full p)) = MAX_BSS_CNT" "num_of_scanned (demo_full p) = of_nat MAX_BSS_CNT"
    by (simp_all add: demo_full_def)
  moreover have "length (bss_IEs (demo_bss a r)) = 768" for a r by (simp add: demo_bss_def bss_zero_def)
  ultimately show ?thesis by (simp add: scan_ok_def pool_ok_def demo_bss_ok)
qed

text \<open>The kernel's macro compares correctly what lies less than half the range of the clock back.\<close>

lemma demo_clock_ok:
  assumes "\<forall>a \<in> S. uint (now - a) < 2 ^ 31"
  shows "clock_ok (demo_clock now) S"
proof -
  have "sint (b - a) < 0 \<longleftrightarrow> now - a < now - b" if "a \<in> S" "b \<in> S" for a b
  proof -
    have l: "uint (now - a) < 2 ^ 31" "uint (now - b) < 2 ^ 31" using assms that by blast+
    have "b - a = word_of_int (uint (now - a) - uint (now - b))" by simp
    then have "sint (b - a) = signed_take_bit 31 (uint (now - a) - uint (now - b))"
      by (simp only: signed_of_int) simp
    also have "\<dots> = uint (now - a) - uint (now - b)"
    proof (rule signed_take_bit_int_eq_self)
      have "0 \<le> uint (now - a)" "0 \<le> uint (now - b)" by simp_all
      then show "- (2 ^ 31) \<le> uint (now - a) - uint (now - b)" "uint (now - a) - uint (now - b) < 2 ^ 31"
        using l by linarith+
    qed
    finally show ?thesis by (simp add: word_less_def)
  qed
  then show ?thesis by (simp add: clock_ok_def demo_clock_def)
qed

lemma demo_full_clock:
  "clock_ok (demo_clock 1000) (stamp (demo_full p) ` set (scanned_queue (demo_full p)))"
  "longest_ago (demo_clock 1000) (demo_full p) v \<Longrightarrow> v = 0"
proof -
  have u: "uint (1000 - of_nat i :: u32) = 1000 - int i" if "i < MAX_BSS_CNT" for i
  proof -
    have "uint (of_nat i :: u32) = int i" using that by (simp add: MAX_BSS_CNT_def unsigned_of_nat take_bit_nat_eq_self)
    then show ?thesis using that by (simp add: MAX_BSS_CNT_def uint_word_ariths)
  qed
  show "clock_ok (demo_clock 1000) (stamp (demo_full p) ` set (scanned_queue (demo_full p)))"
    by (rule demo_clock_ok) (auto simp: u)
  assume "longest_ago (demo_clock 1000) (demo_full p) v"
  then have v: "v < MAX_BSS_CNT" "\<forall>i < MAX_BSS_CNT. (1000 :: u32) - of_nat i \<le> 1000 - of_nat v"
    by (auto simp: longest_ago_def demo_clock_def)
  have "0 < MAX_BSS_CNT" by (simp add: MAX_BSS_CNT_def)
  with v have "v < MAX_BSS_CNT" "(1000 :: u32) - of_nat 0 \<le> 1000 - of_nat v" by blast+
  then show "v = 0" using u [of v] by (simp add: word_le_def)
qed

text \<open>
  The full table with Wi-Fi Direct off loses its first entry, fixed as it is, to a new network. With it on, a report with
  the address of entry 5 and another name takes that entry over; its signal moves a fifth of the way.
\<close>

theorem report_refines_witness:
  "(\<exists>m'. rtw_update_scanned_network (demo_clock 1000) (demo_bss demo_a (- 50)) (demo_full False) = Some m' \<and> scan_ok m' \<and>
     scan_table m' = (scan_table (demo_full False))(net_id False (demo_bss (demo_mac 0) (- 60)) := None,
       net_id False (demo_bss demo_a (- 50)) \<mapsto> (1000, bss_view (demo_bss demo_a (- 50)))) \<and>
     sn_fixed (bss_buf (demo_full False) ! 0) \<and> \<not> sn_fixed (bss_buf m' ! 0)) \<and>
   (\<exists>m'. rtw_update_scanned_network (demo_clock 1000) (demo_bss (demo_mac 5) (- 50)\<lparr>bss_SsidLength := 3\<rparr>) (demo_full True) = Some m' \<and>
     scan_ok m' \<and> scan_table m' = (scan_table (demo_full True))(net_id True (demo_bss (demo_mac 5) (- 60)) \<mapsto>
       (1000, bss_view (demo_bss (demo_mac 5) (- 58)\<lparr>bss_SsidLength := 3\<rparr>))))"
proof
  have j: "jiffies (demo_clock 1000) = 1000" by (simp add: demo_clock_def)
  let ?b = "demo_bss demo_a (- 50)" and ?m = "demo_full False"
  have ids: "net_id False ?b \<noteq> net_id False (bss_at ?m i)" if "i \<in> set (scanned_queue ?m)" for i
    using that by (simp add: net_id_demo demo_mac_def demo_a_def)
  then have new: "net_id False ?b \<notin> dom (scan_table ?m)" unfolding dom_scan_table demo_full_sel(3) by blast
  have full: "\<not> card (dom (scan_table ?m)) < MAX_BSS_CNT" using table_room [OF demo_full_ok [of False]] by simp
  have right: "right_channel (bss_view ?b) = bss_view ?b" by (simp add: right_channel_def demo_bss_def bss_zero_def)
  have z: "0 < MAX_BSS_CNT" by (simp add: MAX_BSS_CNT_def)
  from report_refines [OF demo_full_ok demo_bss_ok [of demo_a "- 50"] demo_full_clock(1) [of False]] obtain m' v where
    m': "rtw_update_scanned_network (demo_clock 1000) ?b ?m = Some m'" "scan_ok m'"
      "scan_table m' = report_spec (heard_again ?m) 1000 MAX_BSS_CNT (net_id False (bss_at ?m v)) (net_id False ?b) (bss_view ?b) (scan_table ?m)"
      "\<forall>i \<in> set (scanned_queue ?m). sn_fixed (bss_buf m' ! i) \<longleftrightarrow> sn_fixed (bss_buf ?m ! i) \<and> \<not> (evicted ?m ?b v \<and> i = v)"
      "longest_ago (demo_clock 1000) ?m v" unfolding j demo_full_sel(3) by auto
  have v: "v = 0" by (rule demo_full_clock(2) [OF m'(5)])
  then have "evicted ?m ?b v" using new z by (simp add: evicted_def)
  moreover have "scan_table ?m (net_id False ?b) = None" using new by auto
  ultimately show "\<exists>m'. rtw_update_scanned_network (demo_clock 1000) ?b ?m = Some m' \<and> scan_ok m' \<and>
     scan_table m' = (scan_table ?m)(net_id False (demo_bss (demo_mac 0) (- 60)) := None,
       net_id False ?b \<mapsto> (1000, bss_view ?b)) \<and> sn_fixed (bss_buf ?m ! 0) \<and> \<not> sn_fixed (bss_buf m' ! 0)"
    using m' v full right z by (simp add: report_spec_def)
next
  have j: "jiffies (demo_clock 1000) = 1000" by (simp add: demo_clock_def)
  let ?b = "demo_bss (demo_mac 5) (- 50)\<lparr>bss_SsidLength := 3\<rparr>" and ?m = "demo_full True" and ?old = "demo_bss (demo_mac 5) (- 60)"
  have ok: "bss_ok ?b" using demo_bss_ok [of "demo_mac 5" "- 50"] by (simp add: bss_ok_def)
  have i: "5 < MAX_BSS_CNT" by (simp add: MAX_BSS_CNT_def)
  have id: "net_id True ?b = net_id True ?old" by (simp add: net_id_def demo_bss_def)
  have T: "scan_table ?m (net_id True ?b) = Some (5, bss_view ?old)"
    unfolding scan_table_iff [OF demo_full_ok] using i by (intro bexI [of _ 5]) (simp_all add: id scan_entry_def)
  have idle: "\<not> check_fwstate ?m WIFI_ASOC_STATE" by (simp add: check_fwstate_def fw_consts)
  have "final_signal ?m (bss_view ?old) (bss_view ?b) = (0, 0, - 58)"
    using idle by (simp add: final_signal_def Let_def smooth_u8_def smooth_rssi_def demo_bss_def bss_zero_def bss_view_def signed_divide_int_def)
  then have again: "heard_again ?m (bss_view ?old) (bss_view ?b) = bss_view (demo_bss (demo_mac 5) (- 58)\<lparr>bss_SsidLength := 3\<rparr>)"
    by (simp add: heard_again_def put_signal_def demo_bss_def bss_zero_def bss_view_def)
  from report_refines [OF demo_full_ok ok demo_full_clock(1) [of True]] T again show "\<exists>m'. rtw_update_scanned_network (demo_clock 1000) ?b ?m = Some m' \<and>
     scan_ok m' \<and> scan_table m' = (scan_table ?m)(net_id True ?old \<mapsto> (1000, bss_view (demo_bss (demo_mac 5) (- 58)\<lparr>bss_SsidLength := 3\<rparr>)))"
    by (auto simp: j id report_spec_def)
qed

end
