(* ===== verification/JoinSelect.thy ===== *)
theory JoinSelect
  imports ScanQueue
begin

unbundle bit_operations_syntax

text \<open>
  From the scan table to a network and back (\<open>core/rtw_mlme.c\<close>): the choice of the network to join
  (\<open>rtw_check_join_candidate\<close>, \<open>rtw_select_and_join_from_scanned_queue\<close>) or to roam to
  (\<open>rtw_check_roaming_candidate\<close>, \<open>rtw_select_roaming_candidate\<close>), the event that ends a join
  (\<open>rtw_joinbss_event_prehandle\<close>), and leaving (\<open>rtw_indicate_disconnect\<close>, \<open>rtw_free_assoc_resources\<close>). A run of
  these operations and those of \<open>ScanQueue\<close> keeps every structure in the pool or in the table.
\<close>

section \<open>The network wanted\<close>

text \<open>\<open>None\<close>: a search of the elements leaves the array. 1 is \<open>Ndis802_11EncryptionDisabled\<close>, 7 \<open>Ndis802_11AuthModeWPA2PSK\<close>.\<close>

definition rtw_is_desired_network :: "mlme_priv \<Rightarrow> scan_bss \<Rightarrow> bool option" where
  "rtw_is_desired_network m b =
     (let desired_encmode = sec_encryptstatus m; privacy = bss_Privacy b
      in if check_fwstate m WIFI_UNDER_WPS
         then map_option (\<lambda>(p, _, _). p \<noteq> None) (rtw_get_wps_ie (bss_IEs b) (Some 12) (bss_IELength b - 12) None)
         else do {
           bselected \<leftarrow>
             (if wifi_spec m = 1
              then if sec_authtype m = 7
                   then map_option (\<lambda>(p, ie_len). p \<noteq> None \<and> 0 < ie_len) (rtw_get_ie (bss_IEs b) 12 48 0 (sint (bss_IELength b - 12)))
                   else Some (\<not> (desired_encmode = 1 \<and> privacy \<noteq> 0))
              else Some True);
           let bselected = (if desired_encmode \<noteq> 1 \<and> privacy = 0 then False else bselected);
           Some (if check_fwstate m WIFI_ADHOC_STATE \<and>
                   bss_InfrastructureMode b \<noteq> bss_InfrastructureMode (sn_network (cur_network m))
                 then False else bselected) })"

text \<open>An entry may be joined: the tests of \<open>rtw_check_join_candidate\<close> in front of the comparison.\<close>

definition join_eligible :: "os_time \<Rightarrow> mlme_priv \<Rightarrow> nat \<Rightarrow> bool option" where
  "join_eligible t m i =
     (let b = bss_at m i
      in if assoc_by_bssid m \<and> bss_MacAddress b \<noteq> assoc_bssid m then Some False
         else if assoc_ssid m ! 0 \<noteq> 0 \<and> assoc_ssid_len m \<noteq> 0 \<and>
           (bss_SsidLength b \<noteq> assoc_ssid_len m \<or>
            take (unat (assoc_ssid_len m)) (bss_Ssid b) \<noteq> take (unat (assoc_ssid_len m)) (assoc_ssid m))
         then Some False
         else map_option (\<lambda>desired. desired \<and>
           \<not> (0 < to_roam m \<and> (roam_scanr_exp_ms m \<le> passing_time_ms t (sn_last_scanned (bss_buf m ! i)) \<or>
              \<not> is_same_ess b (sn_network (cur_network m)))))
           (rtw_is_desired_network m b))"

definition rtw_check_join_candidate :: "os_time \<Rightarrow> mlme_priv \<Rightarrow> nat option \<Rightarrow> nat \<Rightarrow> nat option option" where
  "rtw_check_join_candidate t m candidate competitor = do {
     ok \<leftarrow> join_eligible t m competitor;
     Some (if \<not> ok then candidate
           else case candidate of
             None \<Rightarrow> Some competitor
           | Some c \<Rightarrow> if bss_Rssi (bss_at m c) < bss_Rssi (bss_at m competitor) then Some competitor else candidate) }"

primrec candidate_loop :: "(nat option \<Rightarrow> nat \<Rightarrow> nat option option) \<Rightarrow> nat option \<Rightarrow> nat list \<Rightarrow> nat option option" where
  "candidate_loop check candidate [] = Some candidate"
| "candidate_loop check candidate (i # is) = do { candidate \<leftarrow> check candidate i; candidate_loop check candidate is }"

section \<open>Leaving a network\<close>

text \<open>
  The entry of the network joined last says no more that a registrar is selected (attribute 0x1041). The
  reports to the upper layers and the commands to the power management are not part of the state.
\<close>

definition registrar_attr :: "scan_bss \<Rightarrow> nat option option" where
  "registrar_attr b = do {
     (wps_ie, _, wpsie_len) \<leftarrow> rtw_get_wps_ie (bss_IEs b) (Some 12) (bss_IELength b - 12) None;
     case wps_ie of
       None \<Rightarrow> Some None
     | Some p \<Rightarrow>
         if 0 < wpsie_len then map_option fst (Option.bind (rtw_get_wps_attr (bss_IEs b) p wpsie_len 0x1041 None) (\<lambda>r. r))
         else Some None }"

definition clear_registrar :: "mlme_priv \<Rightarrow> mlme_priv option" where
  "clear_registrar m =
     (case cur_network_scanned m of
        None \<Rightarrow> Some m
      | Some i \<Rightarrow> do {
          attr \<leftarrow> registrar_attr (bss_at m i);
          case attr of
            None \<Rightarrow> Some m
          | Some a \<Rightarrow> map_option (\<lambda>ies. on_node i (\<lambda>n. n\<lparr>sn_network := (sn_network n)\<lparr>bss_IEs := ies\<rparr>\<rparr>) m)
              (wr_block (bss_IEs (bss_at m i)) (a + 4) [0]) })"

definition clr_fwstate :: "u32 \<Rightarrow> mlme_priv \<Rightarrow> mlme_priv" where
  "clr_fwstate state m = m\<lparr>fw_state := fw_state m AND NOT state\<rparr>"

definition set_fwstate :: "u32 \<Rightarrow> mlme_priv \<Rightarrow> mlme_priv" where
  "set_fwstate state m = m\<lparr>fw_state := fw_state m OR state\<rparr>"

definition rtw_indicate_disconnect :: "mlme_priv \<Rightarrow> mlme_priv option" where
  "rtw_indicate_disconnect m = do {
     m \<leftarrow> clear_registrar (clr_fwstate (WIFI_UNDER_LINKING OR WIFI_UNDER_WPS) m);
     let m = (if 0 < to_roam m then clr_fwstate WIFI_ASOC_STATE m else m);
     Some (if check_fwstate m WIFI_ASOC_STATE \<or> to_roam m \<le> 0 then clr_fwstate WIFI_ASOC_STATE m else m) }"

text \<open>
  The stations go, those of an ad-hoc network with the one for broadcast, which is made again; then the
  entry of the network in the table. \<open>key_mask\<close> and the receive counters, which are reset too, are not part of
  the state.
\<close>

definition free_assoc_stations :: "mlme_priv \<Rightarrow> sta_priv" where
  "free_assoc_stations m =
     (let own = scan_own m; ap = scan_hw_ap m; p = scan_stapriv m;
          p = (if check_fwstate m WIFI_STATION_STATE
               then fst (rtw_free_stainfo own ap (rtw_get_stainfo p (Some (bss_MacAddress (sn_network (cur_network m))))) p) else p)
      in if check_fwstate m (WIFI_ADHOC_STATE OR WIFI_ADHOC_MASTER_STATE)
         then (let p = rtw_free_all_stainfo own ap p;
                   p = fst (rtw_free_stainfo own ap (rtw_get_bcmc_stainfo p) p)
               in snd (rtw_init_bcmc_stainfo own p))
         else p)"

definition rtw_free_assoc_resources :: "mlme_priv \<Rightarrow> mlme_priv" where
  "rtw_free_assoc_resources m =
     (let m = m\<lparr>scan_stapriv := free_assoc_stations m\<rparr>;
          pwlan = rtw_find_same_network m (sn_network (cur_network m));
          m = (case pwlan of
                 Some i \<Rightarrow>
                   if \<not> check_fwstate m WIFI_UNDER_WPS
                   then rtw_free_network_nolock pwlan (on_node i (\<lambda>n. n\<lparr>sn_fixed := False\<rparr>) m) else m
               | None \<Rightarrow> m)
      in if check_fwstate m WIFI_ADHOC_MASTER_STATE \<and> asoc_sta_count (scan_stapriv m) = 1
         then rtw_free_network_nolock pwlan m else m)"

section \<open>Joining\<close>

text \<open>
  \<open>cmd\<close> is the result of \<open>rtw_joinbss_cmd\<close>, which takes a copy of the candidate. The result names the
  candidate it was called with.
\<close>

abbreviation lock_scan :: "mlme_priv \<Rightarrow> mlme_priv" where
  "lock_scan m \<equiv> m\<lparr>scanned_queue_lock := scanned_queue_lock m + 1\<rparr>"

abbreviation unlock_scan :: "mlme_priv \<Rightarrow> mlme_priv" where
  "unlock_scan m \<equiv> m\<lparr>scanned_queue_lock := scanned_queue_lock m - 1\<rparr>"

definition join_candidate :: "(scan_node \<Rightarrow> result) \<Rightarrow> nat \<Rightarrow> mlme_priv \<Rightarrow> (result \<times> nat option \<times> mlme_priv) option" where
  "join_candidate cmd i m = do {
     m \<leftarrow> (if check_fwstate m WIFI_ASOC_STATE
           then map_option rtw_free_assoc_resources (rtw_indicate_disconnect m) else Some m);
     let m = set_fwstate WIFI_UNDER_LINKING m;
     Some (cmd (bss_buf m ! i), Some i, unlock_scan m) }"

definition rtw_select_and_join_from_scanned_queue :: "(scan_node \<Rightarrow> result) \<Rightarrow> os_time \<Rightarrow> mlme_priv
    \<Rightarrow> (result \<times> nat option \<times> mlme_priv) option" where
  "rtw_select_and_join_from_scanned_queue cmd t m =
     (let m = lock_scan m
      in case roam_network m of
           Some i \<Rightarrow> join_candidate cmd i (m\<lparr>roam_network := None\<rparr>)
         | None \<Rightarrow> do {
             candidate \<leftarrow> candidate_loop (rtw_check_join_candidate t m) None (scanned_queue m);
             case candidate of
               None \<Rightarrow> Some (Fail, None, unlock_scan m)
             | Some i \<Rightarrow> join_candidate cmd i m })"

section \<open>Roaming\<close>

text \<open>\<open>c\<close> is the entry of the present network.\<close>

definition roam_eligible :: "os_time \<Rightarrow> mlme_priv \<Rightarrow> nat \<Rightarrow> bool option" where
  "roam_eligible t m i =
     (if \<not> is_same_ess (bss_at m i) (sn_network (cur_network m)) then Some False
      else map_option (\<lambda>desired. desired \<and> need_to_roam m) (rtw_is_desired_network m (bss_at m i)))"

definition rtw_check_roaming_candidate :: "os_time \<Rightarrow> mlme_priv \<Rightarrow> nat \<Rightarrow> nat option \<Rightarrow> nat \<Rightarrow> nat option option" where
  "rtw_check_roaming_candidate t m c candidate competitor = do {
     ok \<leftarrow> roam_eligible t m competitor;
     Some (if \<not> ok then candidate
           else if roam_tgt_addr m \<noteq> replicate 6 0
           then (if roam_tgt_addr m = bss_MacAddress (bss_at m competitor) then Some competitor else candidate)
           else if roam_scanr_exp_ms m \<le> passing_time_ms t (sn_last_scanned (bss_buf m ! competitor)) then candidate
           else if bss_Rssi (bss_at m competitor) - bss_Rssi (bss_at m c) < uint (roam_rssi_diff_th m) then candidate
           else case candidate of
             None \<Rightarrow> Some competitor
           | Some d \<Rightarrow> if bss_Rssi (bss_at m competitor) \<le> bss_Rssi (bss_at m d) then candidate else Some competitor) }"

definition rtw_select_roaming_candidate :: "os_time \<Rightarrow> mlme_priv \<Rightarrow> (result \<times> mlme_priv) option" where
  "rtw_select_roaming_candidate t m =
     (case cur_network_scanned m of
        None \<Rightarrow> Some (Fail, unlock_scan m)
      | Some c \<Rightarrow>
          (let m = lock_scan m in do {
            candidate \<leftarrow> candidate_loop (rtw_check_roaming_candidate t m c) None (scanned_queue m);
            Some (case candidate of
              None \<Rightarrow> (Fail, unlock_scan m)
            | Some i \<Rightarrow> (Success, unlock_scan (m\<lparr>roam_network := candidate,
                roam_tgt_addr := (if bss_MacAddress (bss_at m i) = roam_tgt_addr m then replicate 6 0 else roam_tgt_addr m)\<rparr>))) }))"

section \<open>The end of a join\<close>

text \<open>The entry of the network joined (the first step of \<open>rtw_joinbss_event_prehandle\<close>).\<close>

definition joinbss_target :: "scan_bss \<Rightarrow> mlme_priv \<Rightarrow> nat option \<times> mlme_priv" where
  "joinbss_target b m =
     (let cur = sn_network (cur_network m); sta = check_fwstate m WIFI_STATION_STATE;
          fix = (\<lambda>v i m. case i of None \<Rightarrow> m | Some i \<Rightarrow> on_node i (\<lambda>n. n\<lparr>sn_fixed := v\<rparr>) m)
      in if check_fwstate m WIFI_ASOC_STATE
         then if bss_MacAddress b = bss_MacAddress cur then (rtw_find_network m (bss_MacAddress cur), m)
              else
                (let m = fix False (rtw_find_network m (bss_MacAddress cur)) m;
                     m = m\<lparr>scan_stapriv := fst (rtw_free_stainfo (scan_own m) (scan_hw_ap m)
                            (rtw_get_stainfo (scan_stapriv m) (Some (bss_MacAddress cur))) (scan_stapriv m))\<rparr>;
                     i = rtw_find_network m (bss_MacAddress b)
                 in (i, if sta then fix True i m else m))
         else
           (let i = rtw_find_same_network m b in (i, if sta then fix True i m else m)))"

text \<open>
  The description of the present network: all but the elements come from the event. The receive path's \<open>rssi\<close>
  and the HT capabilities are not part of the state.
\<close>

definition joined_state :: "mlme_priv \<Rightarrow> scan_bss \<Rightarrow> u32" where
  "joined_state m b =
     (if bss_InfrastructureMode b = 1
      then (if fw_state m AND WIFI_UNDER_WPS \<noteq> 0 then WIFI_STATION_STATE OR WIFI_UNDER_WPS else WIFI_STATION_STATE)
      else if bss_InfrastructureMode b = 0 then WIFI_ADHOC_STATE
      else 0)"

definition rtw_joinbss_update_network :: "nat \<Rightarrow> scan_node \<Rightarrow> mlme_priv \<Rightarrow> mlme_priv option" where
  "rtw_joinbss_update_network i pnetwork m =
     (let b = sn_network pnetwork; tgt = bss_at m i;
          c = b\<lparr>bss_IELength := bss_IELength tgt, bss_IEs := bss_IEs tgt\<rparr>
      in rtw_update_protection (bss_IEs c) 12 (bss_IELength c)
        (m\<lparr>cur_network := (cur_network m)\<lparr>sn_network := c, sn_aid := sn_join_res pnetwork\<rparr>,
           rx_signal_strength := bss_SignalStrength tgt, rx_signal_qual := bss_SignalQuality tgt,
           fw_state := joined_state m b\<rparr>))"

definition rtw_indicate_connect :: "mlme_priv \<Rightarrow> mlme_priv" where
  "rtw_indicate_connect m =
     (if \<not> check_fwstate m WIFI_ASOC_STATE then set_fwstate WIFI_ASOC_STATE m else m)\<lparr>to_roam := 0\<rparr>"

text \<open>
  The event. \<open>sta_ok\<close>: \<open>rtw_joinbss_update_stainfo\<close> found or made the station of the access point. The result
  says whether the connection is indicated.
\<close>

definition joinbss_event :: "bool \<Rightarrow> scan_node \<Rightarrow> mlme_priv \<Rightarrow> (bool \<times> mlme_priv) option" where
  "joinbss_event sta_ok pnetwork m =
     (if 888 < get_WLAN_BSSID_EX_sz (sn_network pnetwork) then Some (False, m)
      else if 0 < sn_join_res pnetwork then
        (if \<not> check_fwstate m WIFI_UNDER_LINKING then Some (False, m)
         else case joinbss_target (sn_network pnetwork) m of
             (None, m) \<Rightarrow> Some (False, m)
           | (Some i, m) \<Rightarrow> do {
               let pnetwork = pnetwork\<lparr>sn_network := (sn_network pnetwork)\<lparr>bss_Length := get_WLAN_BSSID_EX_sz (sn_network pnetwork)\<rparr>\<rparr>;
               m \<leftarrow> rtw_joinbss_update_network i pnetwork m;
               if check_fwstate m WIFI_STATION_STATE \<and> \<not> sta_ok then Some (False, m)
               else if fw_state m AND WIFI_STATION_STATE \<noteq> 0 \<or> fw_state m AND WIFI_ADHOC_STATE \<noteq> 0
               then Some (True, rtw_indicate_connect (m\<lparr>cur_network_scanned := Some i\<rparr>))
               else Some (False, m) })
      else Some (False, clr_fwstate WIFI_UNDER_LINKING m))"

text \<open>The end of the command that makes an ad-hoc network (\<open>rtw_create_ibss_post_hdl\<close> of \<open>core/rtw_cmd.c\<close>); \<open>dev\<close> is the registry's description of it.\<close>

definition put_ibss :: "scan_bss \<Rightarrow> nat \<Rightarrow> mlme_priv \<Rightarrow> mlme_priv option" where
  "put_ibss dev i m = do {
     let dev = dev\<lparr>bss_Length := get_WLAN_BSSID_EX_sz dev\<rparr>;
     b \<leftarrow> copy_bss (bss_at m i) dev;
     c \<leftarrow> copy_bss (sn_network (cur_network m)) dev;
     let m = on_node i (\<lambda>n. n\<lparr>sn_network := b\<rparr>) m;
     Some (clr_fwstate WIFI_UNDER_LINKING (m\<lparr>cur_network := (cur_network m)\<lparr>sn_network := c\<rparr>\<rparr>)) }"

definition rtw_create_ibss_post_hdl :: "os_time \<Rightarrow> scan_bss \<Rightarrow> mlme_priv \<Rightarrow> mlme_priv option" where
  "rtw_create_ibss_post_hdl t dev m =
     (case rtw_alloc_network t m of
        (None, m) \<Rightarrow>
          (case rtw_get_oldest_wlan_network t m of
             None \<Rightarrow> Some m
           | Some i \<Rightarrow> put_ibss dev i (on_node i (\<lambda>n. n\<lparr>sn_last_scanned := jiffies t\<rparr>) m))
      | (Some i, m) \<Rightarrow> put_ibss dev i (m\<lparr>scanned_queue := scanned_queue m @ [i]\<rparr>))"

section \<open>Runs\<close>

datatype scan_op = Report scan_bss | Expire bool | Flush | Leave | Disconnected | Join "scan_node \<Rightarrow> result" | Roam
  | Joined bool scan_node | New_ibss scan_bss

primrec scan_step :: "os_time \<Rightarrow> scan_op \<Rightarrow> mlme_priv \<Rightarrow> mlme_priv option" where
  "scan_step t (Report b) m = rtw_survey_event_callback t b m"
| "scan_step t (Expire isfreeall) m = Some (rtw_free_network_queue t isfreeall m)"
| "scan_step t Flush m = Some (free_scanqueue m)"
| "scan_step t Leave m = Some (rtw_free_assoc_resources m)"
| "scan_step t Disconnected m = rtw_indicate_disconnect m"
| "scan_step t (Join cmd) m = map_option (snd \<circ> snd) (rtw_select_and_join_from_scanned_queue cmd t m)"
| "scan_step t Roam m = map_option snd (rtw_select_roaming_candidate t m)"
| "scan_step t (Joined sta_ok pnetwork) m = map_option snd (joinbss_event sta_ok pnetwork m)"
| "scan_step t (New_ibss dev) m = rtw_create_ibss_post_hdl t dev m"

primrec scan_run :: "(os_time \<times> scan_op) list \<Rightarrow> mlme_priv \<Rightarrow> mlme_priv option" where
  "scan_run [] m = Some m"
| "scan_run (e # es) m = do { m \<leftarrow> scan_step (fst e) (snd e) m; scan_run es m }"

text \<open>An operation that leaves the two queues alone and does not make the driver the master of an ad-hoc network.\<close>

definition queues_kept :: "mlme_priv \<Rightarrow> mlme_priv \<Rightarrow> bool" where
  "queues_kept m m' \<longleftrightarrow> free_bss_pool m' = free_bss_pool m \<and> scanned_queue m' = scanned_queue m \<and>
     num_of_scanned m' = num_of_scanned m \<and> length (bss_buf m') = length (bss_buf m) \<and>
     (fw_state m AND WIFI_ADHOC_MASTER_STATE = 0 \<longrightarrow> fw_state m' AND WIFI_ADHOC_MASTER_STATE = 0)"

definition no_master :: "mlme_priv \<Rightarrow> bool" where
  "no_master m \<longleftrightarrow> pool_ok m \<and> fw_state m AND WIFI_ADHOC_MASTER_STATE = 0"

lemma kept_refl [simp]: "queues_kept m m"
  by (simp add: queues_kept_def)

lemma kept_trans: "queues_kept m1 m2 \<Longrightarrow> queues_kept m2 m3 \<Longrightarrow> queues_kept m1 m3"
  by (simp add: queues_kept_def)

lemma kept_no_master: "queues_kept m m' \<Longrightarrow> no_master m \<Longrightarrow> no_master m'"
  by (simp add: queues_kept_def no_master_def pool_ok_def)

lemma kept_on_node [simp]: "queues_kept m (on_node i f m)"
  by (simp add: queues_kept_def)

lemma kept_fields [simp]:
  "queues_kept m (m\<lparr>cur_network := c\<rparr>)" "queues_kept m (m\<lparr>vcs := v\<rparr>)" "queues_kept m (m\<lparr>scanned_queue_lock := l\<rparr>)"
  "queues_kept m (m\<lparr>roam_network := r\<rparr>)" "queues_kept m (m\<lparr>roam_tgt_addr := a\<rparr>)" "queues_kept m (m\<lparr>to_roam := x\<rparr>)"
  "queues_kept m (m\<lparr>cur_network_scanned := r\<rparr>)" "queues_kept m (m\<lparr>scan_stapriv := p\<rparr>)"
  by (simp_all add: queues_kept_def)

lemma kept_clr [simp]: "queues_kept m (clr_fwstate s m)"
proof -
  have "(fw_state m AND NOT s) AND WIFI_ADHOC_MASTER_STATE = (fw_state m AND WIFI_ADHOC_MASTER_STATE) AND NOT s"
    by (simp only: and.assoc and.commute [of "NOT s"])
  then show ?thesis by (simp add: queues_kept_def clr_fwstate_def)
qed

lemma kept_set [simp]: "s AND WIFI_ADHOC_MASTER_STATE = 0 \<Longrightarrow> queues_kept m (set_fwstate s m)"
  by (simp add: queues_kept_def set_fwstate_def bit.conj_disj_distrib2)

lemmas kept_after = kept_trans [OF _ kept_on_node] kept_trans [OF _ kept_clr] kept_fields [THEN [2] kept_trans]

lemma kept_protection: "rtw_update_protection buf ie n m = Some m' \<Longrightarrow> queues_kept m m'"
  by (auto simp: rtw_update_protection_def)

lemma kept_current: "update_current_network b m = Some m' \<Longrightarrow> queues_kept m m'"
  unfolding update_current_network_def Option.bind_eq_Some_conv
  by (auto simp: Option.bind_eq_Some_conv split: if_splits dest!: kept_protection intro: kept_trans [OF kept_fields(1)])

lemma kept_refresh: "refresh_node t b i m = Some m' \<Longrightarrow> queues_kept m m'"
  unfolding refresh_node_def Let_def Option.bind_eq_Some_conv by (elim exE conjE) (simp only: option.inject, auto intro: kept_after)

lemma kept_evict: "evict_node t b i m = Some m' \<Longrightarrow> queues_kept m m'"
  by (auto simp: evict_node_def Option.bind_eq_Some_conv)

lemma kept_registrar: "clear_registrar m = Some m' \<Longrightarrow> queues_kept m m'"
  by (auto simp: clear_registrar_def Option.bind_eq_Some_conv split: option.splits)

lemma kept_disconnect: "rtw_indicate_disconnect m = Some m' \<Longrightarrow> queues_kept m m'"
  by (auto simp: rtw_indicate_disconnect_def Let_def Option.bind_eq_Some_conv split: if_splits
    dest!: kept_registrar intro!: kept_after intro: kept_trans [OF kept_clr])

lemma kept_connect [simp]: "queues_kept m (rtw_indicate_connect m)"
  by (auto simp: rtw_indicate_connect_def fw_consts intro: kept_after)

lemma kept_roam: "rtw_select_roaming_candidate t m = Some (r, m') \<Longrightarrow> queues_kept m m'"
  by (auto simp: rtw_select_roaming_candidate_def Let_def Option.bind_eq_Some_conv queues_kept_def split: option.splits)

lemma no_master_alloc:
  assumes "no_master m" and "rtw_alloc_network t m = (Some i, m1)"
  shows "no_master (m1\<lparr>scanned_queue := scanned_queue m1 @ [i]\<rparr>)"
proof -
  obtain rest where f: "free_bss_pool m = i # rest"
    using assms(2) by (cases "free_bss_pool m") (auto simp: rtw_alloc_network_def)
  have ok: "pool_ok m" using assms(1) by (simp add: no_master_def)
  note A = alloc_network_eq [OF ok f]
  have "pool_ok (m1\<lparr>scanned_queue := scanned_queue m1 @ [i]\<rparr>)"
    by (rule A(4) [of _ m1]) (use A(1) assms(2) in auto)
  then show ?thesis using assms A(1) by (auto simp: no_master_def)
qed

lemma no_master_add: "no_master m \<Longrightarrow> add_node t b m = Some m' \<Longrightarrow> no_master m'"
proof -
  assume m: "no_master m" and r: "add_node t b m = Some m'"
  obtain x m1 where a: "rtw_alloc_network t m = (x, m1)" by (cases "rtw_alloc_network t m")
  show "no_master m'"
  proof (cases x)
    case None
    then show ?thesis using m r a by (auto simp: add_node_def rtw_alloc_network_def split: list.splits)
  next
    case (Some i)
    from r a Some obtain f where "m' = (on_node i f m1)\<lparr>scanned_queue := scanned_queue m1 @ [i]\<rparr>"
      by (auto simp: add_node_def Let_def Option.bind_eq_Some_conv)
    then have "queues_kept (m1\<lparr>scanned_queue := scanned_queue m1 @ [i]\<rparr>) m'" by (simp add: queues_kept_def)
    then show ?thesis using no_master_alloc [OF m] a Some kept_no_master by blast
  qed
qed

lemma no_master_update: "no_master m \<Longrightarrow> rtw_update_scanned_network t b m = Some m' \<Longrightarrow> no_master m'"
  by (cases "scan_search t m b None (scanned_queue m)")
    (auto simp: rtw_update_scanned_network_def split: option.splits if_splits
      intro: no_master_add kept_no_master kept_refresh kept_evict)

lemma no_master_survey: "no_master m \<Longrightarrow> rtw_survey_event_callback t b m = Some m' \<Longrightarrow> no_master m'"
proof -
  assume m: "no_master m" and r: "rtw_survey_event_callback t b m = Some m'"
  have "\<not> check_fwstate m WIFI_ADHOC_MASTER_STATE" using m by (simp add: no_master_def check_fwstate_def fw_consts)
  then have "m' = m \<or> (\<exists>b. rtw_add_network t b m = Some m')"
    using r unfolding rtw_survey_event_callback_def survey_add_def by (auto split: if_splits)
  then show "no_master m'"
    using m by (auto simp: rtw_add_network_def Option.bind_eq_Some_conv intro: no_master_update kept_no_master kept_current)
qed

lemma fold_fw_state: "(\<And>i m. fw_state (f i m) = fw_state m) \<Longrightarrow> fw_state (fold f l m) = fw_state m"
  by (induction l arbitrary: m) simp_all

lemma no_master_free_queue:
  assumes "no_master m"
  shows "no_master (rtw_free_network_queue t isfreeall m)" "no_master (free_scanqueue m)"
  using assms free_queue_drops_expired [of m t isfreeall] free_scanqueue_empties [of m]
  by (auto simp: no_master_def rtw_free_network_queue_def free_scanqueue_def fold_fw_state free_network_eq)

lemma find_same_SomeD:
  "rtw_find_same_network m b = Some i \<Longrightarrow> i \<in> set (scanned_queue m) \<and> net_key_of (bss_at m i) = net_key_of b"
  by (auto simp: rtw_find_same_network_def find_Some_iff same_network_iff in_set_conv_nth)

lemma no_master_leave:
  assumes "no_master m"
  shows "no_master (rtw_free_assoc_resources m)"
proof -
  let ?m = "m\<lparr>scan_stapriv := free_assoc_stations m\<rparr>"
  have m: "no_master ?m" using assms kept_no_master kept_fields by blast
  then have c: "\<not> check_fwstate (f ?m) WIFI_ADHOC_MASTER_STATE" if "fw_state (f ?m) = fw_state ?m" for f
    using that by (simp add: no_master_def check_fwstate_def fw_consts)
  show ?thesis
  proof (cases "rtw_find_same_network ?m (sn_network (cur_network ?m))")
    case None
    then show ?thesis using m by (simp add: rtw_free_assoc_resources_def Let_def rtw_free_network_nolock_def)
  next
    case (Some i)
    let ?n = "on_node i (\<lambda>n. n\<lparr>sn_fixed := False\<rparr>) ?m"
    have i: "i \<in> set (scanned_queue ?n)" using find_same_SomeD [OF Some] by simp
    have n: "no_master ?n" using m kept_no_master kept_on_node by blast
    then have "no_master (pool_node i ?n)" using pool_node_ok [OF _ i] by (simp add: no_master_def)
    then have "no_master (rtw_free_network_nolock (Some i) ?n)" using n by (simp add: rtw_free_network_nolock_def)
    moreover have "fw_state (rtw_free_network_nolock (Some i) ?n) = fw_state m" by (simp add: rtw_free_network_nolock_def)
    ultimately show ?thesis using m Some by (simp add: rtw_free_assoc_resources_def Let_def no_master_def check_fwstate_def fw_consts)
  qed
qed

lemma no_master_join:
  assumes "no_master m" and "rtw_select_and_join_from_scanned_queue cmd t m = Some (r, c, m')"
  shows "no_master m'"
proof -
  have step: "no_master m'" if "no_master m1" "join_candidate cmd i m1 = Some (r, c, m')" for i m1
  proof -
    from that(2) obtain m2 where "(if check_fwstate m1 WIFI_ASOC_STATE then map_option rtw_free_assoc_resources (rtw_indicate_disconnect m1)
        else Some m1) = Some m2" and m': "m' = unlock_scan (set_fwstate WIFI_UNDER_LINKING m2)"
      by (auto simp: join_candidate_def Let_def Option.bind_eq_Some_conv)
    then have "no_master m2"
      using that(1) by (auto split: if_splits intro: no_master_leave kept_no_master kept_disconnect)
    moreover have "queues_kept m2 m'" unfolding m' by (intro kept_after kept_set) (simp add: fw_consts)
    ultimately show ?thesis using kept_no_master by blast
  qed
  have "no_master (lock_scan m)" "no_master (lock_scan m\<lparr>roam_network := None\<rparr>)" "no_master (unlock_scan (lock_scan m))"
    using assms(1) by (simp_all add: no_master_def pool_ok_def)
  then show ?thesis
    using assms(2) step
    by (auto simp: rtw_select_and_join_from_scanned_queue_def Let_def Option.bind_eq_Some_conv split: option.splits)
qed

lemma kept_joined:
  assumes "rtw_joinbss_update_network i pn m = Some m'"
  shows "queues_kept m m'"
proof -
  have "joined_state m b AND WIFI_ADHOC_MASTER_STATE = 0" for b
    by (simp add: joined_state_def fw_consts bit.conj_disj_distrib2)
  then have "queues_kept m (m\<lparr>cur_network := c, rx_signal_strength := s, rx_signal_qual := q, fw_state := joined_state m b\<rparr>)"
    for c s q b by (simp add: queues_kept_def)
  then show ?thesis
    using assms kept_protection kept_trans unfolding rtw_joinbss_update_network_def Let_def by blast
qed

lemma kept_target: "joinbss_target b m = (i, m') \<Longrightarrow> queues_kept m m'"
  by (auto simp: joinbss_target_def Let_def queues_kept_def split: if_splits option.splits)

lemma kept_event: "joinbss_event sta_ok pn m = Some (ret, m') \<Longrightarrow> queues_kept m m'"
proof -
  assume r: "joinbss_event sta_ok pn m = Some (ret, m')"
  obtain i m1 where t: "joinbss_target (sn_network pn) m = (i, m1)" by (cases "joinbss_target (sn_network pn) m")
  note k1 = kept_target [OF t]
  from r t consider "m' = m \<or> m' = m1 \<or> m' = clr_fwstate WIFI_UNDER_LINKING m"
    | j pn' m2 where "rtw_joinbss_update_network j pn' m1 = Some m2"
        "m' = m2 \<or> m' = rtw_indicate_connect (m2\<lparr>cur_network_scanned := Some j\<rparr>)"
    by (auto simp: joinbss_event_def Let_def Option.bind_eq_Some_conv split: if_splits option.splits)
  then show ?thesis
  proof cases
    case 1 then show ?thesis using k1 by auto
  next
    case 2
    from kept_trans [OF k1 kept_joined [OF 2(1)]] have k: "queues_kept m m2" .
    then have "queues_kept m (rtw_indicate_connect (m2\<lparr>cur_network_scanned := Some j\<rparr>))"
      by (rule kept_trans [OF kept_trans [OF _ kept_fields(7)] kept_connect])
    then show ?thesis using k 2(2) by auto
  qed
qed

lemma kept_put_ibss: "put_ibss dev i m = Some m' \<Longrightarrow> queues_kept m m'"
  by (auto simp: put_ibss_def Let_def Option.bind_eq_Some_conv intro!: kept_after)

lemma no_master_ibss:
  assumes "no_master m" and "rtw_create_ibss_post_hdl t dev m = Some m'"
  shows "no_master m'"
proof (cases "rtw_alloc_network t m")
  case (Pair x m1)
  show ?thesis
  proof (cases x)
    case None
    then have "m1 = m" using Pair by (auto simp: rtw_alloc_network_def split: list.splits)
    then show ?thesis using assms Pair None
      by (auto simp: rtw_create_ibss_post_hdl_def split: option.splits
        dest!: kept_put_ibss intro: kept_no_master kept_trans [OF kept_on_node])
  next
    case (Some i)
    then have "put_ibss dev i (m1\<lparr>scanned_queue := scanned_queue m1 @ [i]\<rparr>) = Some m'"
      using assms(2) Pair by (simp add: rtw_create_ibss_post_hdl_def)
    from kept_no_master [OF kept_put_ibss [OF this] no_master_alloc [OF assms(1)]] show ?thesis using Pair Some by simp
  qed
qed

lemma no_master_step: "no_master m \<Longrightarrow> scan_step t e m = Some m' \<Longrightarrow> no_master m'"
  by (cases e) (auto simp: no_master_free_queue intro: no_master_survey no_master_leave no_master_join no_master_ibss
    kept_no_master [OF kept_disconnect] kept_no_master [OF kept_roam] kept_no_master [OF kept_event])

text \<open>C16:
  Whatever sequence of reports, joins, roams, disconnects and clean-ups a driver runs that does not become the
  master of an ad-hoc network, no structure is lost or queued twice, and \<open>num_of_scanned\<close> is the number of
  entries.
\<close>

theorem scan_structures_conserved:
  assumes "scan_run es m = Some m'" and "pool_ok m" and "fw_state m AND WIFI_ADHOC_MASTER_STATE = 0"
  shows "distinct (free_bss_pool m' @ scanned_queue m') \<and> set (free_bss_pool m' @ scanned_queue m') = {0..<MAX_BSS_CNT} \<and>
    num_of_scanned m' = of_nat (length (scanned_queue m'))"
proof -
  have "no_master m'" using assms
  proof (induction es arbitrary: m)
    case (Cons e es)
    then obtain m1 where "scan_step (fst e) (snd e) m = Some m1" "scan_run es m1 = Some m'"
      by (auto simp: Option.bind_eq_Some_conv)
    then show ?case using Cons no_master_step [of m] by (auto simp: no_master_def)
  qed (simp add: no_master_def)
  then show ?thesis by (auto simp: no_master_def pool_ok_def)
qed

theorem scan_structures_conserved_witness:
  "\<exists>m'. scan_run [(demo_clock 7, Report (demo_bss demo_a (- 60))), (demo_clock 8, Expire True)] (demo_mlme\<lparr>wifi_spec := 1\<rparr>) = Some m' \<and>
    distinct (free_bss_pool m' @ scanned_queue m') \<and> set (free_bss_pool m' @ scanned_queue m') = {0..<MAX_BSS_CNT}"
proof -
  let ?m = "demo_mlme\<lparr>wifi_spec := 1\<rparr>" and ?b = "demo_bss demo_a (- 60)"
  have fw: "fw_state ?m = WIFI_STATION_STATE" "wl_func_miracast ?m" "wifi_spec ?m = 1" "bss_IELength ?b = 12"
    by (simp_all add: demo_mlme_def init_bss_pool_def demo_bss_def)
  have ok: "scan_ok ?m" using demo_mlme_ok by (simp add: scan_ok_def pool_ok_def)
  have c: "\<not> check_fwstate ?m WIFI_ADHOC_MASTER_STATE" "\<not> check_fwstate ?m WIFI_UNDER_LINKING" "\<not> check_fwstate ?m WIFI_ASOC_STATE"
    unfolding check_fwstate_def fw(1) by (simp_all add: fw_consts)
  let ?b' = "?b\<lparr>bss_SsidLength := 0\<rparr>"
  have b: "bss_ok ?b'" using demo_bss_ok [of demo_a "- 60"] by (simp add: bss_ok_def)
  have "clock_ok (demo_clock 7) (stamp ?m ` set (scanned_queue ?m))" by (simp add: clock_ok_def)
  with report_refines_aux [OF ok b this] obtain m1 where m1: "rtw_update_scanned_network (demo_clock 7) ?b' ?m = Some m1" by auto
  have "bss_Ssid ?b ! 0 = 0" by (simp add: demo_bss_def bss_zero_def)
  then have "rtw_survey_event_callback (demo_clock 7) ?b ?m = Some m1"
    using c m1 fw(4) unfolding rtw_survey_event_callback_def survey_add_def rtw_add_network_def trim_report_def update_current_network_def
    by (simp add: get_WLAN_BSSID_EX_sz_def fw(2,3))
  then have run: "scan_run [(demo_clock 7, Report ?b), (demo_clock 8, Expire True)] ?m =
      Some (rtw_free_network_queue (demo_clock 8) True m1)" by simp
  have "fw_state ?m AND WIFI_ADHOC_MASTER_STATE = 0" unfolding fw(1) by (simp add: fw_consts)
  from scan_structures_conserved [OF run scan_okD(1) [OF ok] this] show ?thesis using run by blast
qed

section \<open>Choosing\<close>

text \<open>The best of the entries that pass a test, by signal strength.\<close>

definition strongest :: "(nat \<Rightarrow> bool option) \<Rightarrow> (nat \<Rightarrow> int) \<Rightarrow> nat set \<Rightarrow> nat option \<Rightarrow> bool" where
  "strongest test rssi S c = (case c of
     None \<Rightarrow> \<forall>i \<in> S. test i = Some False
   | Some i \<Rightarrow> i \<in> S \<and> test i = Some True \<and> (\<forall>j \<in> S. test j = Some True \<longrightarrow> rssi j \<le> rssi i))"

locale candidate_choice =
  fixes test :: "nat \<Rightarrow> bool option" and rssi :: "nat \<Rightarrow> int" and check :: "nat option \<Rightarrow> nat \<Rightarrow> nat option option"
  assumes check_eq: "check c i = map_option (\<lambda>ok. if ok \<and> (\<forall>d. c = Some d \<longrightarrow> rssi d < rssi i) then Some i else c) (test i)"
begin

lemma loop_strongest_from:
  "strongest test rssi S c \<Longrightarrow> \<forall>i \<in> set l. test i \<noteq> None \<Longrightarrow>
   \<exists>d. candidate_loop check c l = Some d \<and> strongest test rssi (S \<union> set l) d"
proof (induction l arbitrary: S c)
  case (Cons i l)
  obtain ok where ok: "test i = Some ok" using Cons.prems(2) by auto
  let ?c = "if ok \<and> (\<forall>d. c = Some d \<longrightarrow> rssi d < rssi i) then Some i else c"
  have "strongest test rssi (insert i S) ?c"
    using Cons.prems(1) ok by (cases c; cases ok) (fastforce simp: strongest_def)+
  from Cons.IH [OF this] Cons.prems(2) show ?case by (simp add: check_eq ok)
qed simp

lemma loop_strongest:
  "\<forall>i \<in> set l. test i \<noteq> None \<Longrightarrow> \<exists>d. candidate_loop check None l = Some d \<and> strongest test rssi (set l) d"
  using loop_strongest_from [of "{}" None l] by (simp add: strongest_def)

end

interpretation join_choice: candidate_choice "join_eligible t m" "\<lambda>i. bss_Rssi (bss_at m i)" "rtw_check_join_candidate t m"
  by unfold_locales (auto simp: rtw_check_join_candidate_def split: option.splits bind_split)

text \<open>Without a target address an entry passes that is of the same service set, wanted, young, and stronger by the threshold than the present one.\<close>

definition roam_test :: "os_time \<Rightarrow> mlme_priv \<Rightarrow> nat \<Rightarrow> nat \<Rightarrow> bool option" where
  "roam_test t m c i = map_option (\<lambda>ok. ok \<and> passing_time_ms t (sn_last_scanned (bss_buf m ! i)) < roam_scanr_exp_ms m \<and>
     bss_Rssi (bss_at m c) + uint (roam_rssi_diff_th m) \<le> bss_Rssi (bss_at m i)) (roam_eligible t m i)"

interpretation roam_choice: candidate_choice "roam_test t (m\<lparr>roam_tgt_addr := replicate 6 0\<rparr>) c" "\<lambda>i. bss_Rssi (bss_at m i)"
    "rtw_check_roaming_candidate t (m\<lparr>roam_tgt_addr := replicate 6 0\<rparr>) c"
  by unfold_locales (auto simp: rtw_check_roaming_candidate_def roam_test_def split: option.splits bind_split)

lemma check_fwstate_lock [simp]: "check_fwstate (m\<lparr>scanned_queue_lock := l\<rparr>) s = check_fwstate m s"
  by (simp add: check_fwstate_def)

lemma desired_lock [simp]:
  "rtw_is_desired_network (m\<lparr>scanned_queue_lock := l\<rparr>) = rtw_is_desired_network m"
  by (intro ext) (simp add: rtw_is_desired_network_def Let_def)

lemma eligible_lock [simp]:
  "join_eligible t (m\<lparr>scanned_queue_lock := l\<rparr>) = join_eligible t m"
  "roam_eligible t (m\<lparr>scanned_queue_lock := l\<rparr>) = roam_eligible t m"
  by (simp_all add: fun_eq_iff join_eligible_def roam_eligible_def Let_def)

text \<open>
  What leaving the present network changes of the entries: the elements of one and the marks. \<open>None\<close> comes only
  from the search for the registrar attribute.
\<close>

definition no_elements :: "scan_bss \<Rightarrow> scan_bss" where
  "no_elements b = b\<lparr>bss_IEs := []\<rparr>"

lemma registrar_None:
  "clear_registrar m = None \<longleftrightarrow> (\<exists>i. cur_network_scanned m = Some i \<and> (case registrar_attr (bss_at m i) of
     None \<Rightarrow> True | Some None \<Rightarrow> False | Some (Some a) \<Rightarrow> wr_block (bss_IEs (bss_at m i)) (a + 4) [0] = None))"
  by (auto simp: clear_registrar_def split: option.splits bind_split)

lemma disconnect_None:
  "rtw_indicate_disconnect m = None \<longleftrightarrow> clear_registrar m = None"
  by (simp add: rtw_indicate_disconnect_def Let_def clr_fwstate_def registrar_None Option.bind_eq_None_conv cong: option.case_cong)

lemma disconnect_frame:
  "rtw_indicate_disconnect (m\<lparr>scanned_queue_lock := l, roam_network := r\<rparr>) = None \<longleftrightarrow> rtw_indicate_disconnect m = None"
  "rtw_indicate_disconnect (m\<lparr>scanned_queue_lock := l\<rparr>) = None \<longleftrightarrow> rtw_indicate_disconnect m = None"
  by (simp_all add: disconnect_None registrar_None cong: option.case_cong)

lemma registrar_frame:
  assumes "clear_registrar m = Some m'"
  shows "no_elements (bss_at m' j) = no_elements (bss_at m j) \<and> roam_network m' = roam_network m \<and>
    scanned_queue_lock m' = scanned_queue_lock m"
proof -
  have "no_elements (bss_at (on_node i (\<lambda>n. n\<lparr>sn_network := (sn_network n)\<lparr>bss_IEs := ies\<rparr>\<rparr>) m) j) = no_elements (bss_at m j)" for i ies
    by (cases "i < length (bss_buf m)") (auto simp: on_node_def nth_list_update list_update_beyond no_elements_def)
  then show ?thesis using assms by (auto simp: clear_registrar_def Option.bind_eq_Some_conv on_node_def split: option.splits)
qed

lemma clr_frame [simp]:
  "bss_buf (clr_fwstate s m) = bss_buf m" "roam_network (clr_fwstate s m) = roam_network m"
  "scanned_queue_lock (clr_fwstate s m) = scanned_queue_lock m"
  by (simp_all add: clr_fwstate_def)

lemma disconnect_frame_sel:
  assumes "rtw_indicate_disconnect m = Some m'"
  shows "no_elements (bss_at m' j) = no_elements (bss_at m j) \<and> roam_network m' = roam_network m \<and>
    scanned_queue_lock m' = scanned_queue_lock m \<and> \<not> check_fwstate m' WIFI_ASOC_STATE"
proof -
  obtain m1 where m1: "clear_registrar (clr_fwstate (WIFI_UNDER_LINKING OR WIFI_UNDER_WPS) m) = Some m1"
    and m': "m' = m1 \<and> \<not> check_fwstate m1 WIFI_ASOC_STATE \<or> m' = clr_fwstate WIFI_ASOC_STATE m1 \<or>
      m' = clr_fwstate WIFI_ASOC_STATE (clr_fwstate WIFI_ASOC_STATE m1)"
    using assms by (auto simp: rtw_indicate_disconnect_def Let_def Option.bind_eq_Some_conv split: if_splits)
  have "\<not> check_fwstate (clr_fwstate WIFI_ASOC_STATE x) WIFI_ASOC_STATE" for x
    by (simp add: check_fwstate_def clr_fwstate_def fw_consts and.assoc)
  then show ?thesis using registrar_frame [OF m1, of j] m' by auto
qed

lemma leave_frame:
  "bss_at (rtw_free_assoc_resources m) j = bss_at m j \<and> roam_network (rtw_free_assoc_resources m) = roam_network m \<and>
   scanned_queue_lock (rtw_free_assoc_resources m) = scanned_queue_lock m \<and> fw_state (rtw_free_assoc_resources m) = fw_state m"
proof -
  have "bss_at (on_node i (\<lambda>n. n\<lparr>sn_fixed := False\<rparr>) x) j = bss_at x j" for i x
    by (cases "i < length (bss_buf x)") (auto simp: on_node_def nth_list_update list_update_beyond)
  moreover have "bss_at (rtw_free_network_nolock k x) j = bss_at x j \<and> roam_network (rtw_free_network_nolock k x) = roam_network x \<and>
      scanned_queue_lock (rtw_free_network_nolock k x) = scanned_queue_lock x \<and> fw_state (rtw_free_network_nolock k x) = fw_state x" for k x
    by (cases k) (auto simp: rtw_free_network_nolock_def pool_node_def)
  moreover have "roam_network (on_node i f x) = roam_network x" "scanned_queue_lock (on_node i f x) = scanned_queue_lock x" for i f x
    by (simp_all add: on_node_def)
  ultimately show ?thesis by (simp add: rtw_free_assoc_resources_def Let_def split: option.split)
qed

text \<open>The join of the candidate \<open>i\<close>, entered with the lock held.\<close>

lemma join_candidate_runs:
  assumes "check_fwstate m WIFI_ASOC_STATE \<Longrightarrow> rtw_indicate_disconnect m \<noteq> None"
  shows "\<exists>m'. join_candidate cmd i m = Some (cmd (bss_buf m' ! i), Some i, m') \<and> no_elements (bss_at m' i) = no_elements (bss_at m i) \<and>
    check_fwstate m' WIFI_UNDER_LINKING \<and> \<not> check_fwstate m' WIFI_ASOC_STATE \<and> roam_network m' = roam_network m \<and>
    scanned_queue_lock m' = scanned_queue_lock m - 1"
proof -
  have "\<exists>m2. (if check_fwstate m WIFI_ASOC_STATE then map_option rtw_free_assoc_resources (rtw_indicate_disconnect m) else Some m) = Some m2 \<and>
      no_elements (bss_at m2 i) = no_elements (bss_at m i) \<and> roam_network m2 = roam_network m \<and>
      scanned_queue_lock m2 = scanned_queue_lock m \<and> \<not> check_fwstate m2 WIFI_ASOC_STATE"
  proof (cases "check_fwstate m WIFI_ASOC_STATE")
    case True
    then obtain m1 where m1: "rtw_indicate_disconnect m = Some m1" using assms by auto
    have "check_fwstate (rtw_free_assoc_resources m1) x = check_fwstate m1 x" for x
      using leave_frame [of m1] by (simp add: check_fwstate_def)
    then show ?thesis using True m1 disconnect_frame_sel [OF m1, of i] leave_frame [of m1 i] by simp
  qed simp
  then obtain m2 where m2: "(if check_fwstate m WIFI_ASOC_STATE then map_option rtw_free_assoc_resources (rtw_indicate_disconnect m) else Some m) = Some m2"
    "no_elements (bss_at m2 i) = no_elements (bss_at m i)" "roam_network m2 = roam_network m"
    "scanned_queue_lock m2 = scanned_queue_lock m" "\<not> check_fwstate m2 WIFI_ASOC_STATE" by blast
  have "check_fwstate (unlock_scan (set_fwstate WIFI_UNDER_LINKING m2)) WIFI_UNDER_LINKING"
    "\<not> check_fwstate (unlock_scan (set_fwstate WIFI_UNDER_LINKING m2)) WIFI_ASOC_STATE"
    using m2(5) by (simp_all add: check_fwstate_def set_fwstate_def fw_consts word_bw_comms bit.conj_disj_distrib)
  then show ?thesis using m2 unfolding join_candidate_def
    by (intro exI [of _ "unlock_scan (set_fwstate WIFI_UNDER_LINKING m2)"]) (simp add: Let_def set_fwstate_def)
qed

text \<open>The entry a join is to go to: the one a roam has set, or else the strongest that may be joined.\<close>

definition join_choice_of :: "os_time \<Rightarrow> mlme_priv \<Rightarrow> nat option \<Rightarrow> bool" where
  "join_choice_of t m c \<longleftrightarrow> (case roam_network m of
     Some i \<Rightarrow> c = Some i
   | None \<Rightarrow> strongest (join_eligible t m) (\<lambda>i. bss_Rssi (bss_at m i)) (set (scanned_queue m)) c)"

text \<open>C17: The choice of the network to join. The entry that a roam has chosen is taken and the request forgotten;
  without one the strongest of the entries that may be joined is taken, and none only if none may. With no entry the
  operation fails and changes nothing. Otherwise a driver that is linked leaves its network first, the command to
  join is issued for the entry chosen, its result is that of the operation, and the driver is under linking and
  not linked, whatever that result is. The lock of the table is given back in each case. The searches of the
  elements of the entries, and that for the registrar attribute when the present network is left, are taken to stay in their
  arrays.\<close>

theorem join_picks_strongest:
  assumes "\<forall>i \<in> set (scanned_queue m). join_eligible t m i \<noteq> None"
    and "check_fwstate m WIFI_ASOC_STATE \<Longrightarrow> rtw_indicate_disconnect m \<noteq> None"
  shows "\<exists>c m'. join_choice_of t m c \<and>
    rtw_select_and_join_from_scanned_queue cmd t m = Some (case c of None \<Rightarrow> Fail | Some i \<Rightarrow> cmd (bss_buf m' ! i), c, m') \<and>
    roam_network m' = None \<and> scanned_queue_lock m' = scanned_queue_lock m \<and> (c = None \<longrightarrow> m' = m) \<and>
    (\<forall>i. c = Some i \<longrightarrow> no_elements (bss_at m' i) = no_elements (bss_at m i) \<and> check_fwstate m' WIFI_UNDER_LINKING \<and>
      \<not> check_fwstate m' WIFI_ASOC_STATE)"
proof (cases "roam_network m")
  case (Some i)
  let ?m = "lock_scan m\<lparr>roam_network := None\<rparr>"
  have "rtw_indicate_disconnect ?m \<noteq> None" if "check_fwstate ?m WIFI_ASOC_STATE"
    using assms(2) that disconnect_frame(1) by (simp add: check_fwstate_def)
  from join_candidate_runs [of ?m cmd i, OF this] Some show ?thesis
    by (fastforce simp: rtw_select_and_join_from_scanned_queue_def join_choice_of_def Let_def)
next
  case None
  let ?m = "lock_scan m"
  have "\<forall>i \<in> set (scanned_queue ?m). join_eligible t ?m i \<noteq> None" using assms(1) by simp
  from join_choice.loop_strongest [OF this] obtain c where c:
    "candidate_loop (rtw_check_join_candidate t ?m) None (scanned_queue m) = Some c"
    "strongest (join_eligible t m) (\<lambda>i. bss_Rssi (bss_at m i)) (set (scanned_queue m)) c" by auto
  have d: "rtw_indicate_disconnect ?m \<noteq> None" if "check_fwstate ?m WIFI_ASOC_STATE"
    using assms(2) that disconnect_frame(2) by simp
  show ?thesis
  proof (cases c)
    case None' [simp]: None
    then show ?thesis using c None by (intro exI [of _ None] exI [of _ m])
      (simp add: rtw_select_and_join_from_scanned_queue_def join_choice_of_def)
  next
    case (Some i)
    from join_candidate_runs [of ?m cmd i, OF d] Some c None show ?thesis
      by (fastforce simp: rtw_select_and_join_from_scanned_queue_def join_choice_of_def Let_def)
  qed
qed

text \<open>
  With no target address the entry to roam to is the strongest of those the test admits: young, of the same
  service set, and better than the present one by the threshold.
\<close>

lemma roam_picks_strongest:
  assumes "\<forall>i \<in> set (scanned_queue m). roam_eligible t m i \<noteq> None" and "cur_network_scanned m = Some c"
    and "roam_tgt_addr m = replicate 6 0"
  shows "\<exists>d m'. strongest (roam_test t m c) (\<lambda>i. bss_Rssi (bss_at m i)) (set (scanned_queue m)) d \<and>
    rtw_select_roaming_candidate t m = Some (if d = None then Fail else Success, m') \<and>
    roam_network m' = (if d = None then roam_network m else d) \<and> scanned_queue_lock m' = scanned_queue_lock m"
proof -
  let ?m = "lock_scan m"
  have same: "?m\<lparr>roam_tgt_addr := replicate 6 0\<rparr> = ?m" using assms(3) by simp
  have t: "roam_test t ?m c = roam_test t m c" by (simp add: fun_eq_iff roam_test_def)
  have "\<forall>i \<in> set (scanned_queue ?m). roam_test t (?m\<lparr>roam_tgt_addr := replicate 6 0\<rparr>) c i \<noteq> None"
    using assms(1) unfolding same t by (simp add: roam_test_def)
  from roam_choice.loop_strongest [OF this, unfolded same t] obtain d where d:
    "candidate_loop (rtw_check_roaming_candidate t ?m c) None (scanned_queue m) = Some d"
    "strongest (roam_test t m c) (\<lambda>i. bss_Rssi (bss_at m i)) (set (scanned_queue m)) d" by auto
  show ?thesis using d assms(2) by (cases d) (auto simp: rtw_select_roaming_candidate_def)
qed

section \<open>Shortcomings\<close>

text \<open>Without an entry for the present network \<open>rtw_select_roaming_candidate\<close> gives back a lock it has not taken.\<close>

lemma roaming_unlocks_free_lock:
  "cur_network_scanned m = None \<Longrightarrow> rtw_select_roaming_candidate t m = Some (Fail, unlock_scan m)"
  by (simp add: rtw_select_roaming_candidate_def)

lemma survey_while_linking:
  "check_fwstate m WIFI_UNDER_LINKING \<Longrightarrow> \<not> check_fwstate m WIFI_ADHOC_MASTER_STATE \<Longrightarrow> rtw_survey_event_callback t b m = Some m"
  by (simp add: rtw_survey_event_callback_def survey_add_def)

lemma find_same_None:
  "rtw_find_same_network m b = None \<longleftrightarrow> (\<forall>i \<in> set (scanned_queue m). net_key_of (bss_at m i) \<noteq> net_key_of b)"
  by (auto simp: rtw_find_same_network_def find_None_iff same_network_iff)

text \<open>The attribute that is cleared lies behind the fixed bytes.\<close>

lemma vendor_ie_ge: "vendor_ie_loop oui buf p n ie cnt = Some (Some q, x, l) \<Longrightarrow> p \<le> q"
proof (induction cnt rule: measure_induct_rule [where f = "\<lambda>cnt. n - cnt"])
  case (less cnt)
  have ih: "vendor_ie_loop oui buf p n ie (cnt + unat k + 2) = Some (Some q, x, l) \<Longrightarrow> cnt + 5 < n \<Longrightarrow> p \<le> q" for k :: u8
    using less.IH [of "cnt + unat k + 2"] by simp
  from less.prems show ?case
    by (subst (asm) vendor_ie_loop.simps) (auto simp: Option.bind_eq_Some_conv split: if_splits intro: ih)
qed

lemma wps_attr_ge:
  assumes "wps_attr_loop buf ie n target p = Some r"
  shows "ie \<le> p \<longrightarrow> (\<forall>q l. r = Some (Some (q, l)) \<longrightarrow> ie \<le> q)"
  using assms
  by (rule wps_attr_loop.raw_induct [rotated, where P = "\<lambda>buf ie n target p r. ie \<le> p \<longrightarrow> (\<forall>q l. r = Some (Some (q, l)) \<longrightarrow> ie \<le> q)"])
    (fastforce simp: Let_def split: if_splits option.splits)

lemma registrar_attr_ge: "registrar_attr b = Some (Some a) \<Longrightarrow> 12 \<le> a"
proof -
  assume r: "registrar_attr b = Some (Some a)"
  then obtain p x l y where ie: "rtw_get_wps_ie (bss_IEs b) (Some 12) (bss_IELength b - 12) None = Some (Some p, x, l)"
    and at: "rtw_get_wps_attr (bss_IEs b) p l 0x1041 None = Some (Some (Some a, y))"
    by (auto simp: registrar_attr_def Option.bind_eq_Some_conv split: option.splits if_splits)
  have "12 \<le> p" using ie vendor_ie_ge by (auto simp: rtw_get_wps_ie_def split: if_splits)
  moreover obtain k where "wps_attr_loop (bss_IEs b) p (unat l) 0x1041 (p + 6) = Some (Some (Some (a, k)))"
    using at by (auto simp: rtw_get_wps_attr_def bind_run_def hand_out_def split: option.splits if_splits)
  then have "p \<le> a" using wps_attr_ge by fastforce
  ultimately show ?thesis by simp
qed

lemma registrar_keys:
  assumes "clear_registrar m = Some m'"
  shows "net_key_of (bss_at m' j) = net_key_of (bss_at m j)" "cur_network m' = cur_network m" "to_roam m' = to_roam m"
    "fw_state m' = fw_state m" "scanned_queue m' = scanned_queue m"
proof -
  have "m' = m \<or> (\<exists>i a ies. registrar_attr (bss_at m i) = Some (Some a) \<and> wr_block (bss_IEs (bss_at m i)) (a + 4) [0] = Some ies \<and>
      m' = on_node i (\<lambda>n. n\<lparr>sn_network := (sn_network n)\<lparr>bss_IEs := ies\<rparr>\<rparr>) m)"
  proof (cases "cur_network_scanned m")
    case (Some i)
    then show ?thesis using assms by (cases "registrar_attr (bss_at m i)") (auto simp: clear_registrar_def split: option.splits)
  qed (use assms in \<open>simp add: clear_registrar_def\<close>)
  then consider "m' = m" | i a ies where "registrar_attr (bss_at m i) = Some (Some a)" "wr_block (bss_IEs (bss_at m i)) (a + 4) [0] = Some ies"
      "m' = on_node i (\<lambda>n. n\<lparr>sn_network := (sn_network n)\<lparr>bss_IEs := ies\<rparr>\<rparr>) m" by blast
  then have "net_key_of (bss_at m' j) = net_key_of (bss_at m j) \<and> cur_network m' = cur_network m \<and> to_roam m' = to_roam m \<and>
    fw_state m' = fw_state m \<and> scanned_queue m' = scanned_queue m"
  proof cases
    case 2
    have "ies = store (bss_IEs (bss_at m i)) (a + 4) [0]" "a + 4 < length (bss_IEs (bss_at m i))"
      using 2(2) by (auto simp: wr_block_def split: if_splits)
    then have "ies ! k = bss_IEs (bss_at m i) ! k" if "k < 12" for k
      using that registrar_attr_ge [OF 2(1)] by (simp add: nth_store)
    then have "net_key_of ((bss_at m i)\<lparr>bss_IEs := ies\<rparr>) = net_key_of (bss_at m i)"
      by (simp add: net_key_of_def rtw_get_capability_def)
    then show ?thesis unfolding 2(3) by (cases "i < length (bss_buf m)") (auto simp: on_node_def nth_list_update list_update_beyond not_less)
  qed simp
  then show "net_key_of (bss_at m' j) = net_key_of (bss_at m j)" "cur_network m' = cur_network m" "to_roam m' = to_roam m"
    "fw_state m' = fw_state m" "scanned_queue m' = scanned_queue m" by simp_all
qed

lemma check_clr:
  "\<not> check_fwstate m x \<Longrightarrow> x \<noteq> 0 \<Longrightarrow> \<not> check_fwstate (clr_fwstate s m) x"
  "x \<noteq> 0 \<Longrightarrow> x AND NOT s = 0 \<Longrightarrow> \<not> check_fwstate (clr_fwstate s m) x"
proof -
  have e: "(fw_state m AND NOT s) AND x = (fw_state m AND x) AND NOT s" "(fw_state m AND NOT s) AND x = fw_state m AND (x AND NOT s)"
    by (simp_all only: and.assoc and.commute [of "NOT s"])
  show "\<not> check_fwstate m x \<Longrightarrow> x \<noteq> 0 \<Longrightarrow> \<not> check_fwstate (clr_fwstate s m) x"
    by (simp add: check_fwstate_def clr_fwstate_def e(1))
  show "x \<noteq> 0 \<Longrightarrow> x AND NOT s = 0 \<Longrightarrow> \<not> check_fwstate (clr_fwstate s m) x"
    by (simp add: check_fwstate_def clr_fwstate_def e(2))
qed

lemma clr_sel [simp]:
  "bss_buf (clr_fwstate s m) = bss_buf m" "scanned_queue (clr_fwstate s m) = scanned_queue m"
  "cur_network (clr_fwstate s m) = cur_network m"
  by (simp_all add: clr_fwstate_def)

text \<open>After a disconnect the driver is neither linked nor in a WPS handshake, and knows the same networks.\<close>

lemma indicate_disconnect_sel:
  assumes r: "rtw_indicate_disconnect m = Some m'" and master: "\<not> check_fwstate m WIFI_ADHOC_MASTER_STATE"
  shows "net_key_of (bss_at m' j) = net_key_of (bss_at m j)" "cur_network m' = cur_network m" "scanned_queue m' = scanned_queue m"
    "\<not> check_fwstate m' WIFI_ASOC_STATE" "\<not> check_fwstate m' WIFI_UNDER_WPS" "\<not> check_fwstate m' WIFI_ADHOC_MASTER_STATE"
proof -
  let ?m = "clr_fwstate (WIFI_UNDER_LINKING OR WIFI_UNDER_WPS) m"
  obtain m1 where m1: "clear_registrar ?m = Some m1" and m': "m' = m1 \<and> \<not> check_fwstate m1 WIFI_ASOC_STATE \<or>
      m' = clr_fwstate WIFI_ASOC_STATE m1 \<or> m' = clr_fwstate WIFI_ASOC_STATE (clr_fwstate WIFI_ASOC_STATE m1)"
    using r by (auto simp: rtw_indicate_disconnect_def Let_def Option.bind_eq_Some_conv split: if_splits)
  note K = registrar_keys [OF m1]
  have c: "check_fwstate m1 = check_fwstate ?m" by (simp add: fun_eq_iff check_fwstate_def K(4))
  have n: "WIFI_ASOC_STATE \<noteq> 0" "WIFI_UNDER_WPS \<noteq> 0" "WIFI_ADHOC_MASTER_STATE \<noteq> 0"
    "WIFI_UNDER_WPS AND NOT (WIFI_UNDER_LINKING OR WIFI_UNDER_WPS) = 0" "WIFI_ASOC_STATE AND NOT WIFI_ASOC_STATE = 0"
    by (simp_all add: fw_consts)
  have "\<not> check_fwstate m1 WIFI_UNDER_WPS" "\<not> check_fwstate m1 WIFI_ADHOC_MASTER_STATE"
    unfolding c using check_clr(2) [OF n(2,4)] check_clr(1) [OF master n(3)] by simp_all
  then show "\<not> check_fwstate m' WIFI_ASOC_STATE" "\<not> check_fwstate m' WIFI_UNDER_WPS" "\<not> check_fwstate m' WIFI_ADHOC_MASTER_STATE"
    using m' check_clr(1) n(1-3) check_clr(2) [OF n(1,5)] by auto
  show "net_key_of (bss_at m' j) = net_key_of (bss_at m j)" "cur_network m' = cur_network m" "scanned_queue m' = scanned_queue m"
    using m' K by auto
qed

text \<open>Leaving takes the entry of the network out of the table.\<close>

lemma free_assoc_forgets:
  assumes inj: "inj_on (\<lambda>i. net_key_of (bss_at m i)) (set (scanned_queue m))"
    and c: "\<not> check_fwstate m WIFI_UNDER_WPS" "\<not> check_fwstate m WIFI_ADHOC_MASTER_STATE"
    and lt: "set (scanned_queue m) \<subseteq> {..< length (bss_buf m)}"
  shows "\<forall>i \<in> set (scanned_queue (rtw_free_assoc_resources m)).
      net_key_of (bss_at (rtw_free_assoc_resources m) i) \<noteq> net_key_of (sn_network (cur_network m))"
    "fw_state (rtw_free_assoc_resources m) = fw_state m"
proof -
  let ?m = "m\<lparr>scan_stapriv := free_assoc_stations m\<rparr>" and ?cur = "sn_network (cur_network m)"
  have same: "check_fwstate ?m = check_fwstate m" by (simp add: fun_eq_iff check_fwstate_def)
  have "(\<forall>i \<in> set (scanned_queue (rtw_free_assoc_resources m)).
      net_key_of (bss_at (rtw_free_assoc_resources m) i) \<noteq> net_key_of ?cur) \<and> fw_state (rtw_free_assoc_resources m) = fw_state m"
  proof (cases "rtw_find_same_network ?m ?cur")
    case None
    then have "rtw_free_assoc_resources m = ?m" using c same by (simp add: rtw_free_assoc_resources_def Let_def)
    then show ?thesis using None by (simp add: find_same_None)
  next
    case (Some k)
    let ?n = "on_node k (\<lambda>n. n\<lparr>sn_fixed := False\<rparr>) ?m"
    have k: "k \<in> set (scanned_queue m)" "net_key_of (bss_at m k) = net_key_of ?cur" using find_same_SomeD [OF Some] by simp_all
    then have l: "k < length (bss_buf m)" using lt by auto
    then have f: "rtw_free_network_nolock (Some k) ?n = pool_node k ?n" by (simp add: rtw_free_network_nolock_def)
    have "\<not> check_fwstate (pool_node k ?n) WIFI_ADHOC_MASTER_STATE" using c(2) by (simp add: check_fwstate_def)
    then have "rtw_free_assoc_resources m = pool_node k ?n"
      using Some c same f by (simp add: rtw_free_assoc_resources_def Let_def)
    moreover have "net_key_of (bss_at ?n i) = net_key_of (bss_at m i)" for i using l by simp
    moreover have "net_key_of (bss_at m i) \<noteq> net_key_of ?cur" if "i \<in> set (scanned_queue m)" "i \<noteq> k" for i
      using inj_onD [OF inj _ that(1) k(1)] that(2) k(2) by auto
    ultimately show ?thesis by auto
  qed
  then show "\<forall>i \<in> set (scanned_queue (rtw_free_assoc_resources m)).
      net_key_of (bss_at (rtw_free_assoc_resources m) i) \<noteq> net_key_of ?cur"
    "fw_state (rtw_free_assoc_resources m) = fw_state m" by simp_all
qed

text \<open>C40:
  A linked driver that selects its present network for a new join gives the entry of that network back
  before it joins. While the join is under way no report brings the entry back, and the event of the
  successful join is dropped: the connection is not indicated.
\<close>

theorem rejoin_loses_network:
  assumes ok: "scan_ok m" and linked: "check_fwstate m WIFI_ASOC_STATE" and master: "\<not> check_fwstate m WIFI_ADHOC_MASTER_STATE"
    and run: "rtw_select_and_join_from_scanned_queue cmd t m = Some (ret, Some i, m')"
    and same: "is_same_network (bss_at m i) (sn_network (cur_network m)) 0"
    and joined: "is_same_network (sn_network pn) (bss_at m i) 0" "0 < sn_join_res pn"
  shows "rtw_survey_event_callback t' b m' = Some m' \<and> joinbss_event sta_ok pn m' = Some (False, m')"
proof -
  have "\<exists>k r. join_candidate cmd k (lock_scan m\<lparr>roam_network := r\<rparr>) = Some (ret, Some i, m')"
  proof (cases "roam_network m")
    case None
    then have "lock_scan m\<lparr>roam_network := None\<rparr> = lock_scan m" by simp
    moreover obtain k where "join_candidate cmd k (lock_scan m) = Some (ret, Some i, m')"
      using run None by (auto simp: rtw_select_and_join_from_scanned_queue_def Let_def Option.bind_eq_Some_conv split: option.splits)
    ultimately show ?thesis by metis
  next
    case (Some k)
    then show ?thesis using run by (auto simp: rtw_select_and_join_from_scanned_queue_def Let_def)
  qed
  then have "\<exists>r. join_candidate cmd i (lock_scan m\<lparr>roam_network := r\<rparr>) = Some (ret, Some i, m')"
    by (auto simp: join_candidate_def Let_def Option.bind_eq_Some_conv)
  then obtain r where j: "join_candidate cmd i (lock_scan m\<lparr>roam_network := r\<rparr>) = Some (ret, Some i, m')" ..
  let ?m = "lock_scan m\<lparr>roam_network := r\<rparr>"
  have c: "check_fwstate ?m x = check_fwstate m x" for x by (simp add: check_fwstate_def)
  obtain m2 where m2: "rtw_indicate_disconnect ?m = Some m2"
    and m': "m' = unlock_scan (set_fwstate WIFI_UNDER_LINKING (rtw_free_assoc_resources m2))"
    using j linked c by (auto simp: join_candidate_def Let_def Option.bind_eq_Some_conv)
  note I = indicate_disconnect_sel [OF m2, unfolded c, OF master]
  have inj: "inj_on (\<lambda>i. net_key_of (bss_at m2 i)) (set (scanned_queue m2))" using scan_keys_inj [OF ok] I(1,3) by simp
  have "length (bss_buf m2) = length (bss_buf m)" using kept_disconnect [OF m2] by (simp add: queues_kept_def)
  then have lt: "set (scanned_queue m2) \<subseteq> {..< length (bss_buf m2)}"
    using I(3) pool_okD(1,7) [OF scan_okD(1) [OF ok]] by auto
  note F = free_assoc_forgets [OF inj I(5,6) lt]
  have key: "net_key_of (sn_network pn) = net_key_of (sn_network (cur_network m2))"
    using same joined(1) I(2) by (simp add: same_network_iff)
  have fw: "fw_state m' = fw_state m2 OR WIFI_UNDER_LINKING" by (simp add: m' set_fwstate_def F(2))
  have st: "check_fwstate m' WIFI_UNDER_LINKING" "\<not> check_fwstate m' WIFI_ASOC_STATE" "\<not> check_fwstate m' WIFI_ADHOC_MASTER_STATE"
    using I(4,6) by (simp_all add: check_fwstate_def fw fw_consts word_bw_comms bit.conj_disj_distrib)
  have "rtw_find_same_network m' (sn_network pn) = None"
    unfolding find_same_None key using F(1) by (simp add: m' set_fwstate_def)
  then have "joinbss_target (sn_network pn) m' = (None, m')" using st(2) by (simp add: joinbss_target_def Let_def)
  then have "joinbss_event sta_ok pn m' = Some (False, m')" using st(1) joined(2) by (simp add: joinbss_event_def)
  then show ?thesis using survey_while_linking [OF st(1,3)] by simp
qed

definition demo_linked :: mlme_priv where
  "demo_linked = demo_mlme\<lparr>bss_buf := (replicate MAX_BSS_CNT node_zero)[0 := node_zero\<lparr>sn_network := demo_bss demo_a (- 60)\<rparr>],
     free_bss_pool := [1..<MAX_BSS_CNT], scanned_queue := [0], num_of_scanned := 1,
     fw_state := WIFI_STATION_STATE OR WIFI_ASOC_STATE, cur_network := node_zero\<lparr>sn_network := demo_bss demo_a (- 60)\<rparr>\<rparr>"

lemma demo_linked_ok: "scan_ok demo_linked"
proof -
  have m: "0 < MAX_BSS_CNT" "insert 0 {1..<MAX_BSS_CNT} = {0..<MAX_BSS_CNT}" by (auto simp: MAX_BSS_CNT_def)
  have len: "length (bss_IEs bss_zero) = 768" "length (bss_IEs (demo_bss demo_a (- 60))) = 768"
    by (simp_all add: bss_zero_def demo_bss_def)
  then show ?thesis using m demo_bss_ok
    by (auto simp: scan_ok_def pool_ok_def demo_linked_def nth_list_update node_zero_def)
qed

theorem rejoin_loses_network_witness:
  "\<exists>m'. rtw_select_and_join_from_scanned_queue (\<lambda>_. Success) (demo_clock 7) demo_linked = Some (Success, Some 0, m') \<and>
    joinbss_event True (node_zero\<lparr>sn_network := demo_bss demo_a (- 60), sn_join_res := 1\<rparr>) m' = Some (False, m')"
proof -
  let ?pn = "node_zero\<lparr>sn_network := demo_bss demo_a (- 60), sn_join_res := 1\<rparr>" and ?m = demo_linked
  have at: "bss_at ?m 0 = demo_bss demo_a (- 60)" "sn_network (cur_network ?m) = demo_bss demo_a (- 60)"
    by (simp_all add: demo_linked_def MAX_BSS_CNT_def)
  have f: "scanned_queue ?m = [0]" "roam_network ?m = None" "cur_network_scanned ?m = None" "fw_state ?m = 9"
    "wifi_spec ?m = 0" "sec_encryptstatus ?m = 1" "assoc_by_bssid ?m = False" "assoc_ssid_len ?m = 0" "to_roam ?m = 0"
    by (simp_all add: demo_linked_def demo_mlme_def init_bss_pool_def fw_consts)
  have c: "check_fwstate ?m WIFI_ASOC_STATE" "\<not> check_fwstate ?m WIFI_ADHOC_MASTER_STATE"
    "\<not> check_fwstate ?m WIFI_UNDER_WPS" "\<not> check_fwstate ?m WIFI_ADHOC_STATE"
    by (simp_all add: check_fwstate_def f(4) fw_consts)
  have loop: "candidate_loop (rtw_check_join_candidate (demo_clock 7) (lock_scan ?m)) None [0] = Some (Some 0)"
    using c(3,4) f by (simp add: rtw_check_join_candidate_def join_eligible_def rtw_is_desired_network_def Let_def)
  obtain m1 where m1: "rtw_indicate_disconnect (lock_scan ?m) = Some m1"
    by (simp add: rtw_indicate_disconnect_def clear_registrar_def clr_fwstate_def f Let_def)
  then obtain m' where run: "rtw_select_and_join_from_scanned_queue (\<lambda>_. Success) (demo_clock 7) ?m = Some (Success, Some 0, m')"
    using loop c(1) f(1,2) by (simp add: rtw_select_and_join_from_scanned_queue_def join_candidate_def Let_def)
  have "is_same_network (bss_at ?m 0) (sn_network (cur_network ?m)) 0" "is_same_network (sn_network ?pn) (bss_at ?m 0) 0"
    by (simp_all add: at same_network_iff)
  from rejoin_loses_network [OF demo_linked_ok c(1,2) run this] show ?thesis using run by simp
qed

text \<open>A full table loses the entry heard longest ago even when it is fixed, an entry \<open>rtw_get_oldest_wlan_network\<close> never returns.\<close>

lemma get_oldest_not_fixed: "rtw_get_oldest_wlan_network t m = Some i \<Longrightarrow> \<not> sn_fixed (bss_buf m ! i)"
proof -
  have "foldl (\<lambda>oldest i. if sn_fixed (bss_buf m ! i) then oldest else older t m oldest i) c l = Some i \<Longrightarrow>
      (\<forall>j. c = Some j \<longrightarrow> \<not> sn_fixed (bss_buf m ! j)) \<Longrightarrow> \<not> sn_fixed (bss_buf m ! i)" for c l
    by (induction l arbitrary: c) (auto simp: older_def split: if_splits option.splits)
  then show "rtw_get_oldest_wlan_network t m = Some i \<Longrightarrow> \<not> sn_fixed (bss_buf m ! i)"
    unfolding rtw_get_oldest_wlan_network_def by blast
qed

lemma fixed_entry_evicted:
  assumes ok: "scan_ok m" and b: "bss_ok b" and clock: "clock_ok t (stamp m ` set (scanned_queue m))"
    and full: "free_bss_pool m = []" and new: "net_id (p2p_on m) b \<notin> dom (scan_table m)"
    and v: "v \<in> set (scanned_queue m)" "\<And>i. i \<in> set (scanned_queue m) \<Longrightarrow> i \<noteq> v \<Longrightarrow> jiffies t - stamp m i < jiffies t - stamp m v"
    and fixed: "sn_fixed (bss_buf m ! v)"
  shows "rtw_get_oldest_wlan_network t m \<noteq> Some v \<and>
    (\<exists>m'. rtw_update_scanned_network t b m = Some m' \<and> net_id (p2p_on m) (bss_at m v) \<notin> dom (scan_table m'))"
proof -
  obtain m' w where m': "rtw_update_scanned_network t b m = Some m'" "longest_ago t m w" "report_result t b w m m'"
    using report_refines_aux [OF ok b clock] full by blast
  have w: "w = v" using m'(2) v by (auto simp: longest_ago_def not_less [symmetric])
  have "\<not> card (dom (scan_table m)) < MAX_BSS_CNT" using table_room [OF ok] full by simp
  moreover have "scan_table m (net_id (p2p_on m) b) = None" using new by auto
  moreover have "p2p_on m' = p2p_on m" using report_refines_aux [OF ok b clock] m'(1) by auto
  ultimately have "scan_table m' (net_id (p2p_on m) (bss_at m v)) = None"
    using m'(3) other_key [OF new v(1)] by (simp add: report_result_def report_spec_def w)
  then show ?thesis using m'(1) get_oldest_not_fixed fixed by blast
qed

text \<open>
  The master of an ad-hoc network that leaves it gives the entry back twice: once as that of the network
  left, once because the station table counts one station, the one for broadcast it has just made. The count
  of entries is then one short.
\<close>

lemma ibss_stations_left:
  assumes inv: "sta_inv (scan_own m) (scan_stapriv m)" "sta_uniq (scan_stapriv m)" "rtw_get_bcmc_stainfo (scan_stapriv m) = Some b"
    and master: "check_fwstate m WIFI_ADHOC_MASTER_STATE" "\<not> check_fwstate m WIFI_STATION_STATE"
  shows "asoc_sta_count (free_assoc_stations m) = 1"
proof -
  let ?own = "scan_own m" and ?ap = "scan_hw_ap m"
  let ?q = "rtw_free_all_stainfo ?own ?ap (scan_stapriv m)"
  note H = free_all_stainfo_hashed [OF inv, of ?ap]
  obtain r x y where r: "rtw_free_stainfo ?own ?ap (Some b) ?q = (r, x, y)" by (cases "rtw_free_stainfo ?own ?ap (Some b) ?q")
  have R: "sta_inv ?own r" "set (hashed r) = {}" using free_inv [OF _ _ r] H by simp_all
  have ch: "chains_ok r" using R(1) by (simp add: sta_inv_def)
  then have zero: "asoc_sta_count r = 0" using R(2) by (simp add: chains_ok_def)
  have "set (free_sta_queue r) = {0..<32}" using chains_okD(6) [OF ch] R(2) by simp
  then obtain k rest where f: "free_sta_queue r = k # rest" by (cases "free_sta_queue r") auto
  obtain mid mc c where "rtw_alloc_macid ?own k bc_addr (sp_macid r) (sp_cam r) = (mid, mc, c)"
    by (cases "rtw_alloc_macid ?own k bc_addr (sp_macid r) (sp_cam r)")
  from alloc_stainfo_eq [OF f _ this] have "asoc_sta_count (snd (rtw_init_bcmc_stainfo ?own r)) = 1"
    using zero by (simp add: rtw_init_bcmc_stainfo_def bc_addr_def)
  moreover have "check_fwstate m (WIFI_ADHOC_STATE OR WIFI_ADHOC_MASTER_STATE)"
  proof -
    have "(fw_state m AND (WIFI_ADHOC_STATE OR WIFI_ADHOC_MASTER_STATE)) AND WIFI_ADHOC_MASTER_STATE = fw_state m AND WIFI_ADHOC_MASTER_STATE"
      unfolding and.assoc by (simp add: fw_consts)
    then show ?thesis using master(1) by (auto simp: check_fwstate_def fw_consts)
  qed
  ultimately show ?thesis
    using master(2) free_all_stainfo_leaves_bcmc [OF inv, of ?ap] r by (simp add: free_assoc_stations_def Let_def)
qed

lemma ibss_leave_miscounts:
  assumes ok: "pool_ok m" and found: "rtw_find_same_network m (sn_network (cur_network m)) = Some i"
    and inv: "sta_inv (scan_own m) (scan_stapriv m)" "sta_uniq (scan_stapriv m)" "rtw_get_bcmc_stainfo (scan_stapriv m) = Some b"
    and master: "check_fwstate m WIFI_ADHOC_MASTER_STATE" "\<not> check_fwstate m WIFI_STATION_STATE" "\<not> check_fwstate m WIFI_UNDER_WPS"
  shows "num_of_scanned (rtw_free_assoc_resources m) = of_nat (length (scanned_queue (rtw_free_assoc_resources m))) - 1"
proof -
  let ?m = "m\<lparr>scan_stapriv := free_assoc_stations m\<rparr>"
  let ?n = "on_node i (\<lambda>n. n\<lparr>sn_fixed := False\<rparr>) ?m"
  have i: "i \<in> set (scanned_queue m)" using find_same_SomeD [OF found] by simp
  have f: "rtw_find_same_network ?m (sn_network (cur_network ?m)) = Some i"
    using found by (simp add: rtw_find_same_network_def)
  have l: "i < length (bss_buf m)" using pool_okD(1,7) [OF ok] i by simp
  have one: "rtw_free_network_nolock (Some i) ?n = pool_node i ?n" "rtw_free_network_nolock (Some i) (pool_node i ?n) = pool_node i (pool_node i ?n)"
    using l by (simp_all add: rtw_free_network_nolock_def)
  have st: "asoc_sta_count (scan_stapriv (pool_node i ?n)) = 1"
    using ibss_stations_left [OF inv master(1,2)] by (simp add: pool_node_def on_node_def)
  have c: "check_fwstate (pool_node i ?n) WIFI_ADHOC_MASTER_STATE" "\<not> check_fwstate ?m WIFI_UNDER_WPS"
    using master by (simp_all add: check_fwstate_def)
  have run: "rtw_free_assoc_resources m = pool_node i (pool_node i ?n)"
    by (simp only: rtw_free_assoc_resources_def Let_def f option.case one c st if_True not_False_eq_True simp_thms)
  have "length (scanned_queue m) = Suc (length (removeAll i (scanned_queue m)))"
    by (rule length_removeAll_Suc [OF pool_okD(2) [OF ok] i])
  then show ?thesis using pool_okD(6) [OF ok] by (simp add: run pool_node_def)
qed

text \<open>
  A linked driver with three entries in the table; the last one is the strongest but has another name. With a
  roam in progress its entry is taken; a driver that wants another address finds none.
\<close>

definition named :: "u8 \<Rightarrow> scan_bss \<Rightarrow> scan_bss" where
  "named x b = b\<lparr>bss_Ssid := x # replicate 31 0, bss_SsidLength := 1\<rparr>"

definition demo_nodes :: "scan_node list" where
  "demo_nodes = [node_zero\<lparr>sn_network := named 97 (demo_bss (demo_mac 0) (- 60))\<rparr>,
     node_zero\<lparr>sn_network := named 97 (demo_bss (demo_mac 1) (- 40))\<rparr>, node_zero\<lparr>sn_network := named 98 (demo_bss (demo_mac 2) (- 30))\<rparr>]"

definition demo_join :: "nat option \<Rightarrow> bool \<Rightarrow> mlme_priv" where
  "demo_join roam by_addr = demo_mlme\<lparr>bss_buf := demo_nodes @ replicate 125 node_zero, free_bss_pool := [3..<MAX_BSS_CNT],
     scanned_queue := [0, 1, 2], num_of_scanned := 3, fw_state := WIFI_STATION_STATE OR WIFI_ASOC_STATE,
     cur_network := hd demo_nodes, roam_network := roam, assoc_by_bssid := by_addr,
     assoc_ssid := 97 # replicate 31 0, assoc_ssid_len := 1\<rparr>"

lemma demo_join_facts:
  "scanned_queue (demo_join r d) = [0, 1, 2]" "roam_network (demo_join r d) = r" "check_fwstate (demo_join r d) WIFI_ASOC_STATE"
  "rtw_indicate_disconnect (demo_join r d) \<noteq> None"
  "i \<in> {0, 1, 2} \<Longrightarrow> join_eligible (demo_clock 7) (demo_join r d) i = Some (\<not> d \<and> i \<noteq> 2)"
proof -
  have f: "fw_state (demo_join r d) = 9" "cur_network_scanned (demo_join r d) = None" "wifi_spec (demo_join r d) = 0"
    "sec_encryptstatus (demo_join r d) = 1" "to_roam (demo_join r d) = 0" "assoc_bssid (demo_join r d) = replicate 6 0"
    "assoc_by_bssid (demo_join r d) = d" "assoc_ssid_len (demo_join r d) = 1" "assoc_ssid (demo_join r d) = 97 # replicate 31 0"
    "bss_buf (demo_join r d) = demo_nodes @ replicate 125 node_zero"
    by (simp_all add: demo_join_def demo_mlme_def init_bss_pool_def fw_consts)
  have z: "replicate 6 0 = ([0, 0, 0, 0, 0, 0] :: bytes)" by (simp add: numeral_eq_Suc)
  show "scanned_queue (demo_join r d) = [0, 1, 2]" "roam_network (demo_join r d) = r" by (simp_all add: demo_join_def)
  show "check_fwstate (demo_join r d) WIFI_ASOC_STATE" by (simp add: check_fwstate_def f(1) fw_consts)
  show "rtw_indicate_disconnect (demo_join r d) \<noteq> None" by (simp add: disconnect_None registrar_None f(2))
  have c: "\<not> check_fwstate (demo_join r d) WIFI_UNDER_WPS" "\<not> check_fwstate (demo_join r d) WIFI_ADHOC_STATE"
    by (simp_all add: check_fwstate_def f(1) fw_consts)
  assume "i \<in> {0, 1, 2}"
  then show "join_eligible (demo_clock 7) (demo_join r d) i = Some (\<not> d \<and> i \<noteq> 2)"
    using c by (auto simp: join_eligible_def rtw_is_desired_network_def Let_def f z demo_nodes_def named_def demo_bss_def demo_mac_def)
qed

theorem join_picks_strongest_witness:
  "(\<exists>m'. rtw_select_and_join_from_scanned_queue (\<lambda>_. Success) (demo_clock 7) (demo_join None False) = Some (Success, Some 1, m') \<and>
     check_fwstate m' WIFI_UNDER_LINKING \<and> \<not> check_fwstate m' WIFI_ASOC_STATE) \<and>
   (\<exists>m'. rtw_select_and_join_from_scanned_queue (\<lambda>_. Fail) (demo_clock 7) (demo_join (Some 2) False) = Some (Fail, Some 2, m') \<and>
     roam_network m' = None) \<and>
   rtw_select_and_join_from_scanned_queue (\<lambda>_. Success) (demo_clock 7) (demo_join None True) = Some (Fail, None, demo_join None True)"
proof -
  have el: "\<forall>i \<in> set (scanned_queue (demo_join r d)). join_eligible (demo_clock 7) (demo_join r d) i \<noteq> None" for r d
    using demo_join_facts(5) by (simp add: demo_join_facts(1))
  note J = join_picks_strongest [OF el demo_join_facts(4)]
  have rssi: "bss_Rssi (bss_at (demo_join r d) 0) = - 60" "bss_Rssi (bss_at (demo_join r d) (Suc 0)) = - 40" for r d
    by (simp_all add: demo_join_def demo_nodes_def named_def demo_bss_def)
  have e: "join_eligible (demo_clock 7) (demo_join r d) 0 = Some (\<not> d)" "join_eligible (demo_clock 7) (demo_join r d) (Suc 0) = Some (\<not> d)"
    "join_eligible (demo_clock 7) (demo_join r d) 2 = Some False" for r d
    using demo_join_facts(5) [of 0] demo_join_facts(5) [of 1] demo_join_facts(5) [of 2] by simp_all
  have n: "\<not> (i \<in> {0, 1, 2} \<and> join_eligible (demo_clock 7) (demo_join None True) i = Some True)" for i
    using demo_join_facts(5) [of i None True] by fastforce
  have "join_choice_of (demo_clock 7) (demo_join None True) c \<longleftrightarrow> c = None" for c
  proof (cases c)
    case None
    then show ?thesis by (simp add: join_choice_of_def strongest_def demo_join_facts(1,2) e)
  next
    case (Some i)
    then show ?thesis unfolding join_choice_of_def strongest_def demo_join_facts(1,2) using n [of i] by (simp only: option.case list.set) blast
  qed
  moreover have "join_choice_of (demo_clock 7) (demo_join None False) c \<longleftrightarrow> c = Some 1" for c
    by (cases c) (auto simp: join_choice_of_def strongest_def demo_join_facts(1,2) rssi e)
  moreover have "join_choice_of (demo_clock 7) (demo_join (Some 2) False) c \<longleftrightarrow> c = Some 2" for c
    by (simp add: join_choice_of_def demo_join_facts(2))
  ultimately have c: "join_choice_of (demo_clock 7) (demo_join None False) c \<longleftrightarrow> c = Some 1" "join_choice_of (demo_clock 7) (demo_join None True) c \<longleftrightarrow> c = None"
    "join_choice_of (demo_clock 7) (demo_join (Some 2) False) c \<longleftrightarrow> c = Some 2" for c
    by blast+
  show ?thesis
    using J [of None False "\<lambda>_. Success"] J [of "Some 2" False "\<lambda>_. Fail"] J [of None True "\<lambda>_. Success"] unfolding c by auto
qed

end
